(* ===== verification/Prelude.thy ===== *)
theory Prelude
  imports Main "HOL-Library.Word" "HOL-Library.Monad_Syntax"
begin

unbundle bit_operations_syntax

text \<open>
  Shared vocabulary of the development: the machine integers of the Rust sources,
  panics as the value \<^term>\<open>None\<close>, \<open>std::cmp::Ordering\<close>, the slice and vector
  operations of the standard library the sources call, and the generic lemmas on
  lists, options and words that the component theories use.
\<close>

section \<open>Machine integers and panics\<close>

type_synonym u8 = "8 word"
type_synonym u16 = "16 word"
type_synonym u32 = "32 word"
type_synonym u64 = "64 word"
type_synonym u128 = "128 word"

text \<open>
  A \<open>usize\<close> that counts elements held in memory is a \<^typ>\<open>nat\<close>. A computation that can
  panic (a failed \<open>assert!\<close>, an \<open>unwrap\<close> of \<open>None\<close>, an index out of range, an
  arithmetic underflow) has the result type \<open>'a rust\<close>: \<open>None\<close> is the panic,
  \<open>Some x\<close> the normal return of \<open>x\<close>.
\<close>

type_synonym 'a rust = "'a option"

definition assert_that :: "bool \<Rightarrow> unit rust" where
  "assert_that b = (if b then Some () else None)"

definition checked_sub :: "nat \<Rightarrow> nat \<Rightarrow> nat rust" where
  "checked_sub a b = (if b \<le> a then Some (a - b) else None)"

text \<open>
  A release build wraps \<open>usize\<close> subtraction below zero; \<open>checked_sub\<close> stops there instead, as a
  debug build does, and serves where a proof shows that it never happens.
\<close>

definition usize_sub :: "nat \<Rightarrow> nat \<Rightarrow> nat" where
  "usize_sub a b = (if b \<le> a then a - b else 2 ^ 64 + a - b)"

lemma usize_sub_le [simp]: "b \<le> a \<Longrightarrow> usize_sub a b = a - b"
  by (simp add: usize_sub_def)

definition saturating_sub :: "'w::len word \<Rightarrow> 'w word \<Rightarrow> 'w word" where
  "saturating_sub a b = (if a < b then 0 else a - b)"

section \<open>Comparisons\<close>

datatype ordering = Less | Equal | Greater

definition cmp :: "'a::linorder \<Rightarrow> 'a \<Rightarrow> ordering" where
  "cmp a b = (if a < b then Less else if a = b then Equal else Greater)"

fun then_with :: "ordering \<Rightarrow> ordering \<Rightarrow> ordering" where
  "then_with Equal o2 = o2"
| "then_with o1 o2 = o1"

section \<open>Slices and vectors\<close>

text \<open>\<open>slice::get\<close>, \<open>Vec::resize\<close>, and writing through a zipped \<open>iter_mut\<close>.\<close>

definition get_ix :: "'a list \<Rightarrow> nat \<Rightarrow> 'a option" where
  "get_ix xs i = (if i < length xs then Some (xs ! i) else None)"

definition resize :: "nat \<Rightarrow> 'a \<Rightarrow> 'a list \<Rightarrow> 'a list" where
  "resize n d xs = take n xs @ replicate (n - length xs) d"

definition zip_mut :: "('a \<Rightarrow> 'b \<Rightarrow> 'a) \<Rightarrow> 'a list \<Rightarrow> 'b list \<Rightarrow> 'a list" where
  "zip_mut f xs ys = map2 f xs ys @ drop (length ys) xs"

definition last_opt :: "'a list \<Rightarrow> 'a option" where
  "last_opt xs = (if xs = [] then None else Some (last xs))"

definition first_opt :: "'a list \<Rightarrow> 'a option" where
  "first_opt xs = (case xs of [] \<Rightarrow> None | x # _ \<Rightarrow> Some x)"

text \<open>
  \<open>slice::binary_search_by\<close>: the loop halves \<open>size\<close> and moves \<open>base\<close> to the probe
  unless the probe compares greater; \<open>Inr\<close> is Rust's \<open>Ok\<close>, \<open>Inl\<close> its \<open>Err\<close>.
\<close>

function bsearch_loop :: "('a \<Rightarrow> ordering) \<Rightarrow> 'a list \<Rightarrow> nat \<Rightarrow> nat \<Rightarrow> nat" where
  "bsearch_loop f xs base sz =
     (if sz \<le> 1 then base
      else let half = sz div 2; mid = base + half
           in bsearch_loop f xs (if f (xs ! mid) = Greater then base else mid) (sz - half))"
  by pat_completeness auto
termination
  by (relation "measure (\<lambda>(f, xs, base, sz). sz)") auto

declare bsearch_loop.simps [simp del]

definition binary_search_by :: "('a \<Rightarrow> ordering) \<Rightarrow> 'a list \<Rightarrow> nat + nat" where
  "binary_search_by f xs =
     (if xs = [] then Inl 0
      else let base = bsearch_loop f xs 0 (length xs)
           in case f (xs ! base) of
                Equal \<Rightarrow> Inr base
              | Less \<Rightarrow> Inl (base + 1)
              | Greater \<Rightarrow> Inl base)"

text \<open>
  A \<open>for\<close> loop whose body may panic, \<open>Iterator::max_by\<close> (the last of several maxima), and a
  slice by a range of indices.
\<close>

fun for_each :: "('a \<Rightarrow> 's \<Rightarrow> 's rust) \<Rightarrow> 'a list \<Rightarrow> 's \<Rightarrow> 's rust" where
  "for_each body [] s = Some s"
| "for_each body (x # xs) s = do { s \<leftarrow> body x s; for_each body xs s }"

fun max_by :: "('a \<Rightarrow> 'a \<Rightarrow> ordering) \<Rightarrow> 'a list \<Rightarrow> 'a option" where
  "max_by c [] = None"
| "max_by c [x] = Some x"
| "max_by c (x # y # xs) = max_by c ((if c x y = Greater then x else y) # xs)"

definition slice_range :: "'a list \<Rightarrow> nat \<Rightarrow> nat \<Rightarrow> 'a list rust" where
  "slice_range xs a b = (if a \<le> b \<and> b \<le> length xs then Some (take (b - a) (drop a xs)) else None)"

section \<open>Collections of rules\<close>

named_theorems panic_simps \<open>unfolding the panic monad and the checked operations\<close>
named_theorems slice_simps \<open>lengths and elements of the slice operations\<close>

declare assert_that_def [panic_simps] checked_sub_def [panic_simps]

section \<open>Lemmas\<close>

lemma assert_that_Some [simp]: "assert_that b = Some u \<longleftrightarrow> b"
  by (simp add: assert_that_def)

lemma assert_that_True [simp]: "assert_that True = Some ()"
  by (simp add: assert_that_def)

lemma checked_sub_ok [simp]: "b \<le> a \<Longrightarrow> checked_sub a b = Some (a - b)"
  by (simp add: checked_sub_def)

lemma checked_sub_Some: "checked_sub a b = Some c \<longleftrightarrow> b \<le> a \<and> c = a - b"
  by (auto simp: checked_sub_def)

lemma cmp_simps [simp]:
  "cmp a b = Less \<longleftrightarrow> a < b"
  "cmp a b = Equal \<longleftrightarrow> a = b"
  "cmp a b = Greater \<longleftrightarrow> b < a"
  by (auto simp: cmp_def)

lemma cmp_neq_Less: "cmp a b \<noteq> Less \<longleftrightarrow> b \<le> a"
  by (auto simp: cmp_def)

lemma cmp_neq_Greater: "cmp a b \<noteq> Greater \<longleftrightarrow> a \<le> b"
  by (auto simp: cmp_def)

lemma get_ix_Some: "get_ix xs i = Some x \<longleftrightarrow> i < length xs \<and> x = xs ! i"
  by (auto simp: get_ix_def)

lemma get_ix_None [simp]: "get_ix xs i = None \<longleftrightarrow> length xs \<le> i"
  by (auto simp: get_ix_def)

lemma get_ix_lt [simp]: "i < length xs \<Longrightarrow> get_ix xs i = Some (xs ! i)"
  by (simp add: get_ix_def)

lemma length_resize [simp, slice_simps]: "length (resize n d xs) = n"
  by (simp add: resize_def)

lemma nth_resize [slice_simps]:
  "i < n \<Longrightarrow> resize n d xs ! i = (if i < length xs then xs ! i else d)"
  by (auto simp: resize_def nth_append)

lemma length_zip_mut [simp, slice_simps]: "length (zip_mut f xs ys) = length xs"
  by (simp add: zip_mut_def)

lemma nth_zip_mut [slice_simps]:
  "i < length xs \<Longrightarrow>
     zip_mut f xs ys ! i = (if i < length ys then f (xs ! i) (ys ! i) else xs ! i)"
  by (auto simp: zip_mut_def nth_append)

lemma resize_Nil [simp]: "resize n d xs = [] \<longleftrightarrow> n = 0"
  using length_resize [of n d xs] by (metis length_0_conv)

lemma zip_mut_Nil [simp]: "zip_mut f xs ys = [] \<longleftrightarrow> xs = []"
  using length_zip_mut [of f xs ys] by (metis length_0_conv)

lemma last_resize: "length xs < n \<Longrightarrow> last (resize n d xs) = d"
  by (simp add: resize_def)

lemma last_zip_mut:
  "xs \<noteq> [] \<Longrightarrow> last (zip_mut f xs ys) =
     (if length xs \<le> length ys then f (last xs) (ys ! (length xs - 1)) else last xs)"
  by (cases xs rule: rev_cases) (auto simp: last_conv_nth nth_zip_mut)

lemma last_opt_Some: "last_opt xs = Some x \<longleftrightarrow> xs \<noteq> [] \<and> last xs = x"
  by (auto simp: last_opt_def)

lemma last_opt_None [simp]: "last_opt xs = None \<longleftrightarrow> xs = []"
  by (simp add: last_opt_def)

lemma unat_bound: "unat w < 2 ^ LENGTH('w)" for w :: "'w::len word"
  by (rule unsigned_less)

lemma saturating_sub_le: "saturating_sub a b \<le> a"
  by (simp add: saturating_sub_def word_sub_le)

text \<open>
  Binary search on a list whose comparisons go \<open>Less\<dots>Equal\<dots>Greater\<close>. The loop keeps
  \<open>base\<close> at or before the last element that is not greater.
\<close>

definition cmp_sorted :: "('a \<Rightarrow> ordering) \<Rightarrow> 'a list \<Rightarrow> bool" where
  "cmp_sorted f xs \<longleftrightarrow>
     (\<forall>i j. i < j \<longrightarrow> j < length xs \<longrightarrow>
        (f (xs ! i) = Greater \<longrightarrow> f (xs ! j) = Greater) \<and>
        (f (xs ! j) \<noteq> Greater \<longrightarrow> f (xs ! i) = Less))"

lemma cmp_sorted_Greater:
  "cmp_sorted f xs \<Longrightarrow> f (xs ! i) = Greater \<Longrightarrow> i \<le> j \<Longrightarrow> j < length xs \<Longrightarrow> f (xs ! j) = Greater"
  unfolding cmp_sorted_def by (metis le_neq_implies_less)

lemma cmp_sorted_Less:
  "cmp_sorted f xs \<Longrightarrow> f (xs ! j) \<noteq> Greater \<Longrightarrow> i < j \<Longrightarrow> j < length xs \<Longrightarrow> f (xs ! i) = Less"
  by (simp add: cmp_sorted_def)

lemma bsearch_loop_inv:
  assumes "cmp_sorted f xs" "0 < sz" "base + sz \<le> length xs"
    and "\<forall>j < base. f (xs ! j) = Less"
    and "\<forall>j. base + sz \<le> j \<longrightarrow> j < length xs \<longrightarrow> f (xs ! j) = Greater"
  shows "let b = bsearch_loop f xs base sz
         in b < length xs \<and> (\<forall>j < b. f (xs ! j) = Less) \<and>
            (\<forall>j. b < j \<longrightarrow> j < length xs \<longrightarrow> f (xs ! j) = Greater)"
  using assms
proof (induction f xs base sz rule: bsearch_loop.induct)
  case (1 f xs base sz)
  show ?case
  proof (cases "sz \<le> 1")
    case True
    with "1.prems" have sz: "sz = 1" by simp
    with "1.prems" show ?thesis
      by (simp add: bsearch_loop.simps [of f xs base "Suc 0"] Let_def Suc_le_eq)
  next
    case False
    define mid where "mid = base + sz div 2"
    have mid: "base < mid" "mid < base + sz" "mid < length xs"
      using False "1.prems"(3) by (auto simp: mid_def)
    let ?base = "if f (xs ! mid) = Greater then base else mid"
    have lt: "\<forall>j < ?base. f (xs ! j) = Less"
      using "1.prems"(4) cmp_sorted_Less [OF "1.prems"(1)] mid(3) by simp
    have gt: "f (xs ! j) = Greater" if "?base + (sz - sz div 2) \<le> j" "j < length xs" for j
    proof (cases "f (xs ! mid) = Greater")
      case True
      with that False have "mid \<le> j" by (auto simp: mid_def)
      with cmp_sorted_Greater [OF "1.prems"(1) True] that(2) show ?thesis by blast
    next
      case no: False
      with that False have "base + sz \<le> j" by (auto simp: mid_def)
      with "1.prems"(5) that(2) show ?thesis by blast
    qed
    have sz: "?base + (sz - sz div 2) \<le> length xs" "0 < sz - sz div 2"
      using False "1.prems"(3) by (auto simp: mid_def)
    have gt': "\<forall>j. ?base + (sz - sz div 2) \<le> j \<longrightarrow> j < length xs \<longrightarrow> f (xs ! j) = Greater"
      using gt by blast
    have step: "bsearch_loop f xs base sz = bsearch_loop f xs ?base (sz - sz div 2)"
      using False by (simp only: bsearch_loop.simps [of f xs base sz] Let_def mid_def if_False)
    show ?thesis
      unfolding step by (rule "1.IH" [OF False refl mid_def "1.prems"(1) sz(2,1) lt gt'])
  qed
qed

lemma binary_search_by_Ok:
  assumes "cmp_sorted f xs" "binary_search_by f xs = Inr i"
  shows "i < length xs \<and> f (xs ! i) = Equal"
  using assms bsearch_loop_inv [OF assms(1), of "length xs" 0]
  by (auto simp: binary_search_by_def Let_def split: if_splits ordering.splits)

lemma binary_search_by_Err:
  assumes "cmp_sorted f xs" "binary_search_by f xs = Inl i"
  shows "i \<le> length xs \<and> (\<forall>j < i. f (xs ! j) = Less) \<and>
         (\<forall>j. i \<le> j \<longrightarrow> j < length xs \<longrightarrow> f (xs ! j) = Greater)"
proof (cases "xs = []")
  case True
  with assms show ?thesis by (simp add: binary_search_by_def)
next
  case False
  let ?b = "bsearch_loop f xs 0 (length xs)"
  have b: "?b < length xs" "\<forall>j < ?b. f (xs ! j) = Less"
      "\<forall>j. ?b < j \<longrightarrow> j < length xs \<longrightarrow> f (xs ! j) = Greater"
    using bsearch_loop_inv [OF assms(1), of "length xs" 0] False by (auto simp: Let_def)
  show ?thesis
  proof (cases "f (xs ! ?b)")
    case Less
    with False assms(2) have "i = ?b + 1" by (simp add: binary_search_by_def Let_def)
    with b Less show ?thesis by (auto simp: less_Suc_eq)
  next
    case Equal
    with False assms(2) show ?thesis by (simp add: binary_search_by_def Let_def)
  next
    case Greater
    with False assms(2) have "i = ?b" by (simp add: binary_search_by_def Let_def)
    with b Greater show ?thesis by (auto simp: le_less)
  qed
qed

lemma for_each_invariant:
  assumes "\<And>x s. x \<in> set xs \<Longrightarrow> P s \<Longrightarrow> \<exists>s'. body x s = Some s' \<and> P s'" "P s"
  shows "\<exists>s'. for_each body xs s = Some s' \<and> P s'"
  using assms
proof (induction xs arbitrary: s)
  case (Cons x xs)
  then obtain s' where "body x s = Some s'" "P s'" by fastforce
  then show ?case using Cons by auto
qed simp

lemma max_by_mem: "xs \<noteq> [] \<Longrightarrow> \<exists>x \<in> set xs. max_by c xs = Some x"
proof (induction c xs rule: max_by.induct)
  case (3 c x y xs)
  then show ?case by (cases "c x y = Greater") auto
qed simp_all

end
