(* ===== verification/Clock.thy ===== *)
theory Clock
  imports Prelude "HOL-Library.Multiset"
begin

text \<open>
  Logical time, from \<open>crates/clock/src/clock.rs\<close>: replica ids, Lamport timestamps with
  their total order and 64-bit encoding, and the version vectors (\<open>Global\<close>) that say
  which timestamps a replica has observed. The arithmetic is that of the release
  profile: \<open>u32\<close> additions wrap and \<open>debug_assert\<close>s are compiled out.
\<close>

section \<open>Replica ids and Lamport timestamps\<close>

type_synonym replica = u16

definition replica_LOCAL :: replica where "replica_LOCAL = 0"
definition replica_REMOTE_SERVER :: replica where "replica_REMOTE_SERVER = 1"
definition replica_AGENT :: replica where "replica_AGENT = 2"
definition replica_LOCAL_BRANCH :: replica where "replica_LOCAL_BRANCH = 3"
definition replica_FIRST_COLLAB_ID :: replica where "replica_FIRST_COLLAB_ID = 8"

definition is_remote :: "replica \<Rightarrow> bool" where
  "is_remote r \<longleftrightarrow> r = replica_REMOTE_SERVER \<or> replica_FIRST_COLLAB_ID \<le> r"

datatype lamport = Lamport (seq_value: u32) (replica_id: replica)

definition lamport_cmp :: "lamport \<Rightarrow> lamport \<Rightarrow> ordering" where
  "lamport_cmp a b =
     then_with (cmp (seq_value a) (seq_value b)) (cmp (replica_id a) (replica_id b))"

definition lamport_partial_cmp :: "lamport \<Rightarrow> lamport \<Rightarrow> ordering option" where
  "lamport_partial_cmp a b = Some (lamport_cmp a b)"

text \<open>The operators \<open><=\<close> and \<open><\<close> are the ones that Rust derives from \<open>partial_cmp\<close>.\<close>

instantiation lamport :: linorder
begin

definition less_eq_lamport :: "lamport \<Rightarrow> lamport \<Rightarrow> bool" where
  "less_eq_lamport a b \<longleftrightarrow>
     lamport_partial_cmp a b = Some Less \<or> lamport_partial_cmp a b = Some Equal"

definition less_lamport :: "lamport \<Rightarrow> lamport \<Rightarrow> bool" where
  "less_lamport a b \<longleftrightarrow> lamport_partial_cmp a b = Some Less"

instance
  by standard
    (auto simp: less_eq_lamport_def less_lamport_def lamport_partial_cmp_def lamport_cmp_def cmp_def
       intro: lamport.expand split: if_splits)

end

definition lamport_MIN :: lamport where "lamport_MIN = Lamport 0 0"
definition lamport_MAX :: lamport where "lamport_MAX = Lamport (- 1) (- 1)"

definition lamport_new :: "replica \<Rightarrow> lamport" where
  "lamport_new r = Lamport 1 r"

definition lamport_as_u64 :: "lamport \<Rightarrow> u64" where
  "lamport_as_u64 t = push_bit 32 (ucast (seq_value t)) OR ucast (replica_id t)"

text \<open>\<open>tick\<close> returns the timestamp and advances the clock it is called on.\<close>

definition lamport_tick :: "lamport \<Rightarrow> lamport \<times> lamport" where
  "lamport_tick c = (c, Lamport (seq_value c + 1) (replica_id c))"

definition lamport_observe :: "lamport \<Rightarrow> lamport \<Rightarrow> lamport" where
  "lamport_observe c t = Lamport (max (seq_value c) (seq_value t) + 1) (replica_id c)"

section \<open>Version vectors\<close>

record global =
  "values" :: "u32 list"

definition global_new :: global where
  "global_new = \<lparr>values = []\<rparr>"

definition global_get :: "global \<Rightarrow> replica \<Rightarrow> u32" where
  "global_get g r = (case get_ix (values g) (unat r) of Some v \<Rightarrow> v | None \<Rightarrow> 0)"

definition global_observe :: "global \<Rightarrow> lamport \<Rightarrow> global" where
  "global_observe g t =
     (if seq_value t > 0 then
        let new_len = unat (replica_id t) + 1;
            vs = (if new_len > length (values g) then resize new_len 0 (values g) else values g);
            i = unat (replica_id t)
        in g\<lparr>values := vs[i := max (vs ! i) (seq_value t)]\<rparr>
      else g)"

definition global_join :: "global \<Rightarrow> global \<Rightarrow> global" where
  "global_join g other =
     (let vs = (if length (values other) > length (values g)
                then resize (length (values other)) 0 (values g) else values g)
      in g\<lparr>values := zip_mut max vs (values other)\<rparr>)"

definition meet_entry :: "u32 \<Rightarrow> u32 \<Rightarrow> u32" where
  "meet_entry left right =
     (if left = 0 then right else if right = 0 then left else min left right)"

fun meet_new_len :: "nat \<Rightarrow> nat \<Rightarrow> u32 list \<Rightarrow> nat" where
  "meet_new_len ix new_len [] = new_len"
| "meet_new_len ix new_len (v # vs) =
     meet_new_len (ix + 1) (if v \<noteq> 0 then ix + 1 else new_len) vs"

definition global_meet :: "global \<Rightarrow> global \<Rightarrow> global" where
  "global_meet g other =
     (let vs = (if length (values other) > length (values g)
                then resize (length (values other)) 0 (values g) else values g);
          vs' = zip_mut meet_entry vs (values other);
          new_len = meet_new_len 0 0 (take (length (values other)) vs')
      in if length (values other) = length vs' then g\<lparr>values := take new_len vs'\<rparr>
         else g\<lparr>values := vs'\<rparr>)"

definition global_iter :: "global \<Rightarrow> lamport list" where
  "global_iter g = map (\<lambda>(i, v). Lamport v (of_nat i)) (enumerate 0 (values g))"

definition global_observed :: "global \<Rightarrow> lamport \<Rightarrow> bool" where
  "global_observed g t \<longleftrightarrow> global_get g (replica_id t) \<ge> seq_value t"

definition global_observed_any :: "global \<Rightarrow> global \<Rightarrow> bool" where
  "global_observed_any g other \<longleftrightarrow>
     list_ex (\<lambda>(l, r). seq_value r > 0 \<and> seq_value l \<ge> seq_value r)
       (zip (global_iter g) (global_iter other))"

definition global_observed_all :: "global \<Rightarrow> global \<Rightarrow> bool" where
  "global_observed_all g other \<longleftrightarrow>
     (if length (values g) < length (values other) then False
      else list_all (\<lambda>(l, r). seq_value l \<ge> seq_value r)
             (zip (global_iter g) (global_iter other)))"

definition global_changed_since :: "global \<Rightarrow> global \<Rightarrow> bool" where
  "global_changed_since g other \<longleftrightarrow>
     length (values g) > length (values other) \<or>
     list_ex (\<lambda>(l, r). l > r) (zip (values g) (values other))"

text \<open>\<open>Iterator::max_by_key\<close> keeps the last of several maximal elements.\<close>

fun max_by_seq :: "lamport option \<Rightarrow> lamport list \<Rightarrow> lamport option" where
  "max_by_seq acc [] = acc"
| "max_by_seq None (t # ts) = max_by_seq (Some t) ts"
| "max_by_seq (Some a) (t # ts) =
     max_by_seq (Some (if seq_value t \<ge> seq_value a then t else a)) ts"

definition global_most_recent :: "global \<Rightarrow> lamport option" where
  "global_most_recent g = max_by_seq None (global_iter g)"

definition global_from_iter :: "lamport list \<Rightarrow> global" where
  "global_from_iter ts = foldl global_observe global_new ts"

section \<open>The order and the encoding of timestamps\<close>

lemma lamport_less_iff:
  "a < b \<longleftrightarrow> seq_value a < seq_value b \<or>
     seq_value a = seq_value b \<and> replica_id a < replica_id b"
  by (auto simp: less_lamport_def lamport_partial_cmp_def lamport_cmp_def cmp_def split: if_splits)

lemma lamport_MIN_least [simp]: "lamport_MIN \<le> t"
  by (cases t) (auto simp: lamport_MIN_def not_less [symmetric] lamport_less_iff)

lemma lamport_MAX_greatest: "t \<le> lamport_MAX"
  by (cases t) (auto simp: lamport_MAX_def not_less [symmetric] lamport_less_iff not_less)

lemma unat_as_u64: "unat (lamport_as_u64 t) = unat (seq_value t) * 2 ^ 32 + unat (replica_id t)"
proof -
  let ?hi = "push_bit 32 (ucast (seq_value t)) :: u64" and ?lo = "ucast (replica_id t) :: u64"
  have v: "unat (seq_value t) < 2 ^ 32" and r: "unat (replica_id t) < 2 ^ 16"
    using unsigned_less [of "seq_value t"] unsigned_less [of "replica_id t"] by auto
  have "?hi AND ?lo = 0"
    by (rule bit_word_eqI) (auto simp: bit_simps dest!: bit_imp_le_length)
  then have "?hi OR ?lo = ?hi + ?lo"
    by (simp add: disjunctive_add_eq_or)
  moreover have "unat ?hi = unat (seq_value t) * 2 ^ 32"
    using v by (simp add: push_bit_eq_mult unat_word_ariths unsigned_ucast_eq take_bit_eq_mod)
  moreover have "unat ?lo = unat (replica_id t)"
    using r by (simp add: unsigned_ucast_eq take_bit_eq_mod)
  ultimately show ?thesis
    using v r by (simp add: lamport_as_u64_def unat_word_ariths)
qed

lemma as_u64_less_iff: "lamport_as_u64 a < lamport_as_u64 b \<longleftrightarrow> a < b"
proof -
  have r: "unat (replica_id t) < 2 ^ 32" for t
    using unsigned_less [of "replica_id t"] by (auto intro: less_trans)
  have "unat (seq_value a) * 2 ^ 32 + unat (replica_id a)
          < unat (seq_value b) * 2 ^ 32 + unat (replica_id b) \<longleftrightarrow>
        unat (seq_value a) < unat (seq_value b) \<or>
        unat (seq_value a) = unat (seq_value b) \<and> unat (replica_id a) < unat (replica_id b)"
    using r [of a] r [of b] by auto
  then show ?thesis
    by (simp add: word_less_nat_alt unat_as_u64 lamport_less_iff) (metis unsigned_word_eqI)
qed

section \<open>Version vectors read through \<open>get\<close>\<close>

lemma global_get_new [simp]: "global_get global_new r = 0"
  by (simp add: global_get_def global_new_def get_ix_def)

lemma global_get_nth:
  "global_get g r = (if unat r < length (values g) then values g ! unat r else 0)"
  by (simp add: global_get_def get_ix_def)

lemma global_get_observe:
  "global_get (global_observe g t) r =
     (if r = replica_id t then max (global_get g r) (seq_value t) else global_get g r)"
proof (cases "seq_value t > 0")
  case True
  then show ?thesis
    by (auto simp: global_observe_def global_get_nth Let_def slice_simps nth_list_update
          max.absorb2 dest: unsigned_word_eqI)
next
  case False
  then have "seq_value t = 0" by (simp add: word_greater_zero_iff)
  then show ?thesis by (simp add: global_observe_def max.absorb1)
qed

lemma global_get_join:
  "global_get (global_join g h) r = max (global_get g r) (global_get h r)"
  by (auto simp: global_join_def global_get_nth Let_def slice_simps max.absorb1)

text \<open>Canonical vectors: no trailing zero entry, and every index is a replica id.\<close>

definition canonical :: "global \<Rightarrow> bool" where
  "canonical g \<longleftrightarrow> (values g = [] \<or> last (values g) \<noteq> 0) \<and> length (values g) \<le> 2 ^ 16"

lemma canonicalI:
  "length (values g) \<le> 2 ^ 16 \<Longrightarrow>
   (values g \<noteq> [] \<Longrightarrow> last (values g) \<noteq> 0) \<Longrightarrow> canonical g"
  by (auto simp: canonical_def)

lemma canonical_last:
  "canonical g \<Longrightarrow> values g \<noteq> [] \<Longrightarrow> values g ! (length (values g) - 1) \<noteq> 0"
  by (simp add: canonical_def last_conv_nth)

lemma canonical_new [simp]: "canonical global_new"
  by (simp add: canonical_def global_new_def)

lemma replica_bound: "unat (r :: replica) < 2 ^ 16"
  using unsigned_less [of r] by simp

lemma max_nonzero: "a \<noteq> 0 \<or> b \<noteq> 0 \<Longrightarrow> max a b \<noteq> (0 :: u32)"
  by (auto simp: max_def word_le_0_iff)

lemma canonical_observe:
  assumes "canonical g"
  shows "canonical (global_observe g t)"
proof (cases "seq_value t > 0")
  case True
  let ?i = "unat (replica_id t)"
  have i: "?i < 2 ^ 16" by (rule replica_bound)
  show ?thesis
  proof (cases "?i + 1 \<le> length (values g)")
    case True
    with assms i show ?thesis
      by (auto simp: canonical_def global_observe_def Let_def last_list_update max_nonzero
            word_greater_zero_iff split: if_splits)
  next
    case False
    then have "last ((resize (?i + 1) 0 (values g))[?i := v]) = v" for v
      by (subst last_conv_nth) (auto simp: nth_list_update)
    with False \<open>seq_value t > 0\<close> i show ?thesis
      by (intro canonicalI)
        (auto simp: global_observe_def Let_def word_greater_zero_iff max_nonzero)
  qed
qed (use assms in \<open>simp add: global_observe_def\<close>)

lemma canonical_from_iter: "canonical (global_from_iter ts)"
proof -
  have "canonical g \<Longrightarrow> canonical (foldl global_observe g ts)" for g
    by (induction ts arbitrary: g) (simp_all add: canonical_observe)
  then show ?thesis by (simp add: global_from_iter_def)
qed

lemma canonical_join:
  assumes "canonical g" "canonical h"
  shows "canonical (global_join g h)"
proof (rule canonicalI)
  show "length (values (global_join g h)) \<le> 2 ^ 16"
    using assms by (auto simp: canonical_def global_join_def Let_def)
next
  assume ne: "values (global_join g h) \<noteq> []"
  show "last (values (global_join g h)) \<noteq> 0"
  proof (cases "length (values h) > length (values g)")
    case True
    then have "values h ! (length (values h) - 1) \<noteq> 0"
      using canonical_last [OF assms(2)] by fastforce
    moreover have "resize (length (values h)) 0 (values g) \<noteq> []" using True by auto
    ultimately show ?thesis
      using True by (simp add: global_join_def last_zip_mut last_resize max_nonzero)
  next
    case False
    with ne have "values g \<noteq> []" by (auto simp: global_join_def)
    moreover from this have "last (values g) \<noteq> 0" using assms(1) by (simp add: canonical_def)
    ultimately show ?thesis
      using False by (auto simp: global_join_def last_zip_mut max_nonzero)
  qed
qed

lemma canonical_ext:
  assumes "canonical g" "canonical h" "\<And>r. global_get g r = global_get h r"
  shows "g = h"
proof -
  have nth: "global_get x (of_nat i) = values x ! i" if "i < length (values x)" "canonical x" for x i
    using that by (simp add: global_get_nth canonical_def unat_of_nat)
  have le: "length (values x) \<le> length (values y)"
    if "canonical x" "canonical y" "\<And>r. global_get x r = global_get y r" for x y
  proof (rule ccontr)
    assume "\<not> ?thesis"
    then have lt: "length (values y) < length (values x)" by simp
    define i where "i = length (values x) - 1"
    have "i < length (values x)" "length (values y) \<le> i" "i < 2 ^ 16"
      using lt that(1) by (auto simp: i_def canonical_def)
    then have "values x ! i = 0"
      using nth [OF _ that(1)] that(3) [of "of_nat i"] by (simp add: global_get_nth unat_of_nat)
    moreover have "last (values x) = values x ! i"
      using lt by (subst last_conv_nth) (auto simp: i_def)
    ultimately show False using lt that(1) by (auto simp: canonical_def)
  qed
  have len: "length (values g) = length (values h)"
    using le [of g h] le [of h g] assms by (simp add: le_antisym)
  have "values g = values h"
    using nth assms len by (intro nth_equalityI) metis+
  then show ?thesis by simp
qed

text \<open>
  \<open>meet\<close> keeps the entries that both vectors have observed at their minimum. Its
  running \<open>new_len\<close> cuts off exactly the trailing zero entries.
\<close>

lemma meet_new_len_ge: "n \<le> ix \<Longrightarrow> n \<le> meet_new_len ix n vs"
proof (induction vs arbitrary: ix n)
  case (Cons v vs)
  let ?n = "if v \<noteq> 0 then ix + 1 else n"
  from Cons.prems have "n \<le> ?n" "?n \<le> ix + 1" by auto
  then have "n \<le> meet_new_len (ix + 1) ?n vs" by (blast intro: order_trans Cons.IH)
  then show ?case by simp
qed simp

lemma meet_new_len_tail:
  "meet_new_len ix n vs \<le> ix + i \<Longrightarrow> i < length vs \<Longrightarrow> vs ! i = 0"
proof (induction vs arbitrary: ix n i)
  case (Cons v vs)
  show ?case
  proof (cases i)
    case 0
    with Cons.prems meet_new_len_ge [of "ix + 1" "ix + 1" vs] show ?thesis by (auto split: if_splits)
  next
    case (Suc j)
    with Cons.prems Cons.IH [of "ix + 1" _ j] show ?thesis by auto
  qed
qed simp

lemma meet_new_len_last:
  "meet_new_len ix n vs = n \<or>
   (\<exists>i < length vs. meet_new_len ix n vs = ix + i + 1 \<and> vs ! i \<noteq> 0)"
proof (induction vs arbitrary: ix n)
  case (Cons v vs)
  let ?n = "if v \<noteq> 0 then ix + 1 else n"
  from Cons.IH [of "ix + 1" ?n] show ?case
  proof
    assume "meet_new_len (ix + 1) ?n vs = ?n"
    then show ?case by (cases "v = 0") auto
  next
    assume "\<exists>i < length vs. meet_new_len (ix + 1) ?n vs = ix + 1 + i + 1 \<and> vs ! i \<noteq> 0"
    then obtain i where "i < length vs" "meet_new_len (ix + 1) ?n vs = ix + 1 + i + 1" "vs ! i \<noteq> 0"
      by blast
    then show ?case by (intro disjI2 exI [of _ "Suc i"]) auto
  qed
qed simp

lemma global_get_meet:
  "global_get (global_meet g h) r = meet_entry (global_get g r) (global_get h r)"
proof -
  define vs where "vs = (if length (values h) > length (values g)
                         then resize (length (values h)) 0 (values g) else values g)"
  define vs' where "vs' = zip_mut meet_entry vs (values h)"
  define n where "n = meet_new_len 0 0 (take (length (values h)) vs')"
  have meet: "global_meet g h =
      (if length (values h) = length vs' then g\<lparr>values := take n vs'\<rparr> else g\<lparr>values := vs'\<rparr>)"
    by (simp add: global_meet_def Let_def vs_def vs'_def n_def)
  have len: "length vs' = max (length (values g)) (length (values h))"
    by (simp add: vs'_def vs_def)
  have nth: "vs' ! i = meet_entry (if i < length (values g) then values g ! i else 0)
                                  (if i < length (values h) then values h ! i else 0)"
    if "i < length vs'" for i
    using that by (auto simp: vs'_def vs_def slice_simps meet_entry_def)
  have cut: "vs' ! i = 0" if "n \<le> i" "i < length vs'" "length (values h) = length vs'" for i
    using meet_new_len_tail [of 0 0 vs' i] that by (simp add: n_def)
  have get: "global_get (global_meet g h) r = (if unat r < length vs' then vs' ! unat r else 0)"
    using cut [of "unat r"] by (auto simp: meet global_get_nth not_less)
  show ?thesis
    unfolding get using nth [of "unat r"] len by (auto simp: global_get_nth meet_entry_def)
qed

lemma canonical_meet:
  assumes "canonical g" "canonical h"
  shows "canonical (global_meet g h)"
proof (rule canonicalI)
  show "length (values (global_meet g h)) \<le> 2 ^ 16"
    using assms by (auto simp: canonical_def global_meet_def Let_def min.coboundedI1)
next
  define vs where "vs = (if length (values h) > length (values g)
                         then resize (length (values h)) 0 (values g) else values g)"
  define vs' where "vs' = zip_mut meet_entry vs (values h)"
  define n where "n = meet_new_len 0 0 (take (length (values h)) vs')"
  have meet: "values (global_meet g h) =
      (if length (values h) = length vs' then take n vs' else vs')"
    by (simp add: global_meet_def Let_def vs_def vs'_def n_def)
  assume ne: "values (global_meet g h) \<noteq> []"
  show "last (values (global_meet g h)) \<noteq> 0"
  proof (cases "length (values h) = length vs'")
    case True
    with ne have "n \<noteq> 0" "vs' \<noteq> []" by (auto simp: meet)
    with True meet_new_len_last [of 0 0 vs']
    obtain i where "i < length vs'" "n = i + 1" "vs' ! i \<noteq> 0" by (auto simp: n_def)
    with True show ?thesis by (simp add: meet take_Suc_conv_app_nth)
  next
    case False
    then have lt: "length (values h) < length (values g)" "vs = values g"
      by (auto simp: vs'_def vs_def split: if_splits)
    then have "vs \<noteq> []" by auto
    moreover from this have "last vs \<noteq> 0" using assms(1) lt by (simp add: canonical_def)
    ultimately show ?thesis
      using False lt by (simp add: meet vs'_def last_zip_mut)
  qed
qed

section \<open>The relations between version vectors\<close>

lemma global_iter_nth:
  "i < length (values g) \<Longrightarrow> global_iter g ! i = Lamport (values g ! i) (of_nat i)"
  by (simp add: global_iter_def nth_enumerate_eq)

lemma length_global_iter [simp]: "length (global_iter g) = length (values g)"
  by (simp add: global_iter_def)

lemma replica_of_nat: "i < 2 ^ 16 \<Longrightarrow> \<exists>r :: replica. unat r = i"
  by (rule exI [of _ "of_nat i"]) (simp add: unat_of_nat)

lemma all_replicas_iff:
  "n \<le> 2 ^ 16 \<Longrightarrow> (\<forall>r :: replica. unat r < n \<longrightarrow> P (unat r)) \<longleftrightarrow> (\<forall>i < n. P i)"
  using replica_of_nat by (metis order_less_le_trans)

lemma observed_all_iff_get:
  assumes "canonical g" "canonical h"
  shows "global_observed_all g h \<longleftrightarrow> (\<forall>r. global_get h r \<le> global_get g r)"
proof (cases "length (values g) < length (values h)")
  case True
  define i where "i = length (values h) - 1"
  from True have "values h \<noteq> []" by auto
  then have "i < length (values h)" "length (values g) \<le> i" "i < 2 ^ 16" "values h ! i \<noteq> 0"
    using True assms(2) canonical_last [OF assms(2)] by (auto simp: i_def canonical_def)
  then have "\<not> global_get h (of_nat i) \<le> global_get g (of_nat i)"
    by (simp add: global_get_nth unat_of_nat word_le_0_iff)
  with True show ?thesis by (auto simp: global_observed_all_def)
next
  case False
  have "global_observed_all g h \<longleftrightarrow> (\<forall>i < length (values h). values h ! i \<le> values g ! i)"
    using False by (auto simp: global_observed_all_def list_all_length global_iter_nth)
  also have "\<dots> \<longleftrightarrow> (\<forall>r :: replica. unat r < length (values h) \<longrightarrow> values h ! unat r \<le> values g ! unat r)"
    using assms(2) by (subst all_replicas_iff) (auto simp: canonical_def)
  also have "\<dots> \<longleftrightarrow> (\<forall>r. global_get h r \<le> global_get g r)"
    using False by (auto simp: global_get_nth)
  finally show ?thesis .
qed

lemma changed_since_iff_not_observed_all:
  assumes "canonical g" "canonical h"
  shows "global_changed_since g h \<longleftrightarrow> \<not> global_observed_all h g"
  by (auto simp: global_changed_since_def global_observed_all_def list_all_length list_ex_length
        global_iter_nth not_less not_le)

lemma observed_any_iff_get:
  assumes "canonical g" "canonical h"
  shows "global_observed_any g h \<longleftrightarrow>
           (\<exists>r. 0 < global_get h r \<and> global_get h r \<le> global_get g r)"
proof -
  let ?n = "min (length (values g)) (length (values h))"
  let ?P = "\<lambda>i. 0 < values h ! i \<and> values h ! i \<le> values g ! i"
  have "global_observed_any g h \<longleftrightarrow> (\<exists>i < ?n. ?P i)"
    by (force simp: global_observed_any_def list_ex_length global_iter_nth)
  also have "\<dots> \<longleftrightarrow> (\<exists>r :: replica. unat r < ?n \<and> ?P (unat r))"
    using all_replicas_iff [of ?n "\<lambda>i. \<not> ?P i"] assms(1) unfolding canonical_def
    by (metis min.coboundedI1)
  also have "\<dots> \<longleftrightarrow> (\<exists>r. 0 < global_get h r \<and> global_get h r \<le> global_get g r)"
    by (auto simp: global_get_nth word_le_0_iff word_greater_zero_iff split: if_splits)
  finally show ?thesis .
qed

lemma max_by_seq_Some:
  "\<exists>m. max_by_seq (Some a) ts = Some m \<and> m \<in> insert a (set ts) \<and>
       (\<forall>t \<in> insert a (set ts). seq_value t \<le> seq_value m)"
proof (induction ts arbitrary: a)
  case (Cons t ts)
  let ?a = "if seq_value t \<ge> seq_value a then t else a"
  from Cons.IH [of ?a] obtain m where m: "max_by_seq (Some ?a) ts = Some m"
    "m \<in> insert ?a (set ts)" "\<forall>u \<in> insert ?a (set ts). seq_value u \<le> seq_value m" by blast
  then have "seq_value t \<le> seq_value m" "seq_value a \<le> seq_value m"
    by (auto split: if_splits)
  with m show ?case by (auto split: if_splits)
qed simp

lemma most_recent_spec:
  assumes "canonical g"
  shows "case global_most_recent g of
           None \<Rightarrow> g = global_new
         | Some t \<Rightarrow> global_get g (replica_id t) = seq_value t \<and> (\<forall>r. global_get g r \<le> seq_value t)"
proof (cases "values g")
  case Nil
  then show ?thesis by (simp add: global_most_recent_def global_iter_def global_new_def)
next
  case (Cons v vs)
  obtain t ts where it: "global_iter g = t # ts"
    using Cons by (cases "global_iter g") (auto simp: global_iter_def)
  with max_by_seq_Some [of t ts] obtain m where m: "global_most_recent g = Some m"
      "m \<in> set (global_iter g)" "\<forall>t \<in> set (global_iter g). seq_value t \<le> seq_value m"
    by (auto simp: global_most_recent_def)
  from m(2) obtain i where i: "i < length (values g)" "m = Lamport (values g ! i) (of_nat i)"
    by (metis in_set_conv_nth global_iter_nth length_global_iter)
  have "unat (of_nat i :: replica) = i"
    using i(1) assms by (simp add: unat_of_nat canonical_def)
  with i have "global_get g (replica_id m) = seq_value m" by (simp add: global_get_nth)
  moreover have "global_get g r \<le> seq_value m" for r
  proof (cases "unat r < length (values g)")
    case True
    then have "global_iter g ! unat r \<in> set (global_iter g)" by simp
    with m(3) True show ?thesis by (auto simp: global_iter_nth global_get_nth)
  qed (simp add: global_get_nth)
  ultimately show ?thesis using m(1) by simp
qed

section \<open>The interface of a version vector\<close>

text \<open>
  What the clients of \<open>Global\<close> rely on: the entry of every replica after \<open>new\<close>,
  \<open>observe\<close> and \<open>join\<close>, and that a vector is determined by its entries.
\<close>

locale version_vector =
  fixes zero :: 'v
    and observe :: "'v \<Rightarrow> lamport \<Rightarrow> 'v"
    and join :: "'v \<Rightarrow> 'v \<Rightarrow> 'v"
    and get :: "'v \<Rightarrow> replica \<Rightarrow> u32"
    and invar :: "'v \<Rightarrow> bool"
  assumes invar_zero: "invar zero"
    and invar_observe: "invar v \<Longrightarrow> invar (observe v t)"
    and invar_join: "invar v \<Longrightarrow> invar w \<Longrightarrow> invar (join v w)"
    and get_zero: "get zero r = 0"
    and get_observe: "get (observe v t) r =
          (if r = replica_id t then max (get v r) (seq_value t) else get v r)"
    and get_join: "get (join v w) r = max (get v r) (get w r)"
    and ext: "invar v \<Longrightarrow> invar w \<Longrightarrow> (\<And>r. get v r = get w r) \<Longrightarrow> v = w"
begin

lemma invar_foldl: "invar v \<Longrightarrow> invar (foldl observe v ts)"
  by (induction ts arbitrary: v) (simp_all add: invar_observe)

lemma observe_commute: "invar v \<Longrightarrow> observe (observe v t) u = observe (observe v u) t"
  by (rule ext) (auto simp: invar_observe get_observe max.commute max.left_commute)

lemma foldl_observe_permute:
  assumes "invar v" "mset ts = mset us"
  shows "foldl observe v ts = foldl observe v us"
  using assms
proof (induction ts arbitrary: v us)
  case (Cons t ts)
  have step: "foldl observe w (xs @ t # ys) = foldl observe (observe w t) (xs @ ys)"
    if "invar w" for w xs ys
    using that
    by (induction xs arbitrary: w) (simp_all add: observe_commute invar_observe)
  from Cons.prems(2) have "t \<in> set us" by (metis list.set_intros(1) mset_eq_setD)
  then obtain xs ys where us: "us = xs @ t # ys" by (meson split_list)
  with Cons.prems(2) have "mset ts = mset (xs @ ys)" by simp
  then have "foldl observe (observe v t) ts = foldl observe (observe v t) (xs @ ys)"
    using Cons.IH Cons.prems(1) by (blast intro: invar_observe)
  also have "\<dots> = foldl observe v us"
    unfolding us by (rule step [OF Cons.prems(1), symmetric])
  finally show ?case by simp
qed simp

lemma get_observe_mono: "get v r \<le> get (observe v t) r"
  by (simp add: get_observe)

lemma get_foldl_mono: "get v r \<le> get (foldl observe v ts) r"
  by (induction ts arbitrary: v) (simp, metis foldl_Cons get_observe_mono order_trans)

lemma foldl_observes: "t \<in> set ts \<Longrightarrow> seq_value t \<le> get (foldl observe v ts) (replica_id t)"
proof (induction ts arbitrary: v)
  case (Cons u ts)
  show ?case
  proof (cases "t = u")
    case True
    have "seq_value t \<le> get (observe v t) (replica_id t)" by (simp add: get_observe)
    also have "\<dots> \<le> get (foldl observe (observe v t) ts) (replica_id t)" by (rule get_foldl_mono)
    finally show ?thesis using True by simp
  next
    case False
    with Cons show ?thesis by simp
  qed
qed simp

lemma join_upper_bound: "get v r \<le> get (join v w) r \<and> get w r \<le> get (join v w) r"
  by (simp add: get_join)

lemma join_least:
  "(\<And>r. get v r \<le> get x r) \<Longrightarrow> (\<And>r. get w r \<le> get x r) \<Longrightarrow> get (join v w) r \<le> get x r"
  by (simp add: get_join)

lemma join_assoc:
  "invar u \<Longrightarrow> invar v \<Longrightarrow> invar w \<Longrightarrow> join (join u v) w = join u (join v w)"
  by (rule ext) (simp_all add: invar_join get_join max.assoc)

lemma join_commute: "invar u \<Longrightarrow> invar v \<Longrightarrow> join u v = join v u"
  by (rule ext) (simp_all add: invar_join get_join max.commute)

lemma join_idem: "invar u \<Longrightarrow> join u u = u"
  by (rule ext) (simp_all add: invar_join get_join)

end

interpretation vv: version_vector global_new global_observe global_join global_get canonical
  by unfold_locales
    (simp_all add: canonical_observe canonical_join global_get_observe global_get_join canonical_ext)

section \<open>Runs of a Lamport clock\<close>

text \<open>
  A clock is driven by local ticks and by the timestamps of remote operations. A run
  collects the timestamps issued; \<open>clock_safe\<close> says that no addition of the run wraps.
\<close>

datatype clock_event = Tick | Observe lamport

fun clock_step :: "lamport \<Rightarrow> clock_event \<Rightarrow> lamport" where
  "clock_step c Tick = snd (lamport_tick c)"
| "clock_step c (Observe t) = lamport_observe c t"

fun issued :: "lamport \<Rightarrow> clock_event list \<Rightarrow> lamport list" where
  "issued c [] = []"
| "issued c (Tick # es) = fst (lamport_tick c) # issued (clock_step c Tick) es"
| "issued c (Observe t # es) = issued (clock_step c (Observe t)) es"

fun clock_safe :: "lamport \<Rightarrow> clock_event list \<Rightarrow> bool" where
  "clock_safe c [] = True"
| "clock_safe c (e # es) \<longleftrightarrow>
     seq_value (clock_step c e) \<noteq> 0 \<and> clock_safe (clock_step c e) es"

lemma word_add_one_gt: "x + 1 \<noteq> 0 \<Longrightarrow> x < x + (1 :: 'w::len word)"
  using inc_less_eq_self_iff_eq [of x] by (metis add.commute add.right_inverse not_less)

lemma clock_step_advances:
  "seq_value (clock_step c e) \<noteq> 0 \<Longrightarrow> seq_value c < seq_value (clock_step c e)"
  by (cases e)
    (auto simp: lamport_tick_def lamport_observe_def intro: word_add_one_gt
      order_le_less_trans [OF max.cobounded1 word_add_one_gt])

lemma clock_step_observes:
  "seq_value (clock_step c (Observe t)) \<noteq> 0 \<Longrightarrow> seq_value t < seq_value (clock_step c (Observe t))"
  by (auto simp: lamport_observe_def intro: order_le_less_trans [OF max.cobounded2 word_add_one_gt])

lemma clock_step_replica [simp]: "replica_id (clock_step c e) = replica_id c"
  by (cases e) (auto simp: lamport_tick_def lamport_observe_def)

lemma replica_id_observe [simp]: "replica_id (lamport_observe c t) = replica_id c"
  by (simp add: lamport_observe_def)

lemma issued_bounds:
  "clock_safe c es \<Longrightarrow> u \<in> set (issued c es) \<Longrightarrow> seq_value c \<le> seq_value u \<and> replica_id u = replica_id c"
proof (induction c es rule: issued.induct)
  case (2 c es)
  then show ?case
    using clock_step_advances [of c Tick] by (auto simp: lamport_tick_def)
next
  case (3 c t es)
  then show ?case
    using clock_step_advances [of c "Observe t"] by auto
qed simp

lemma issued_sorted: "clock_safe c es \<Longrightarrow> sorted_wrt (<) (issued c es)"
proof (induction c es rule: issued.induct)
  case (2 c es)
  have "c < u" if "u \<in> set (issued (clock_step c Tick) es)" for u
    using issued_bounds [OF _ that] "2.prems" clock_step_advances [of c Tick]
    by (auto simp: lamport_less_iff)
  with 2 show ?case by (simp add: lamport_tick_def)
qed simp_all

lemma clock_safe_append:
  "clock_safe c (es @ fs) \<longleftrightarrow> clock_safe c es \<and> clock_safe (foldl clock_step c es) fs"
  by (induction es arbitrary: c) auto

section \<open>Properties\<close>

text \<open>
  C27: two replicas that have observed the same timestamps, in any order and with any
  interleaving, hold the same version vector.
\<close>

theorem global_from_iter_permute:
  "mset ts = mset us \<Longrightarrow> global_from_iter ts = global_from_iter us"
  unfolding global_from_iter_def by (rule vv.foldl_observe_permute [OF canonical_new])

theorem global_from_iter_permute_witness:
  "global_from_iter [Lamport 3 1, Lamport 5 0, Lamport 2 1]
     = global_from_iter [Lamport 2 1, Lamport 3 1, Lamport 5 0]"
  by (rule global_from_iter_permute) simp

text \<open>
  C35: on vectors without trailing zeros (all the ones the operations build),
  \<open>observed_all\<close> decides the pointwise order, \<open>changed_since\<close> its negation with the
  arguments swapped, \<open>join\<close> is the least upper bound of that order, and equality of
  the stored vectors is equality of all entries.
\<close>

theorem global_order:
  assumes "canonical g" "canonical h"
  shows "(global_observed_all g h \<longleftrightarrow> (\<forall>r. global_get h r \<le> global_get g r)) \<and>
    (global_changed_since g h \<longleftrightarrow> (\<exists>r. global_get h r < global_get g r)) \<and>
    global_observed_all (global_join g h) g \<and> global_observed_all (global_join g h) h \<and>
    (\<forall>k. canonical k \<and> global_observed_all k g \<and> global_observed_all k h
           \<longrightarrow> global_observed_all k (global_join g h)) \<and>
    (g = h \<longleftrightarrow> global_observed_all g h \<and> global_observed_all h g)"
proof (intro conjI allI impI)
  have join: "canonical (global_join g h)" by (rule canonical_join [OF assms])
  show "global_observed_all g h \<longleftrightarrow> (\<forall>r. global_get h r \<le> global_get g r)"
    by (rule observed_all_iff_get [OF assms])
  show "global_changed_since g h \<longleftrightarrow> (\<exists>r. global_get h r < global_get g r)"
    by (simp add: changed_since_iff_not_observed_all assms observed_all_iff_get not_le)
  show "global_observed_all (global_join g h) g" "global_observed_all (global_join g h) h"
    by (simp_all add: observed_all_iff_get assms join global_get_join)
  show "global_observed_all k (global_join g h)"
    if "canonical k \<and> global_observed_all k g \<and> global_observed_all k h" for k
    using that observed_all_iff_get [of k] by (auto simp: assms join global_get_join)
  show "g = h \<longleftrightarrow> global_observed_all g h \<and> global_observed_all h g"
    using canonical_ext [OF assms] by (auto simp: observed_all_iff_get assms antisym)
qed

theorem global_order_witness:
  "canonical \<lparr>values = [2, 0, 7]\<rparr> \<and> canonical \<lparr>values = [3, 1]\<rparr> \<and>
   global_join \<lparr>values = [2, 0, 7]\<rparr> \<lparr>values = [3, 1]\<rparr> = \<lparr>values = [3, 1, 7]\<rparr> \<and>
   global_observed_all \<lparr>values = [3, 1, 7]\<rparr> \<lparr>values = [2, 0, 7]\<rparr>"
proof -
  have c: "canonical \<lparr>values = [2, 0, 7]\<rparr>" "canonical \<lparr>values = [3, 1]\<rparr>"
    by (simp_all add: canonical_def)
  have j: "global_join \<lparr>values = [2, 0, 7]\<rparr> \<lparr>values = [3, 1]\<rparr> = \<lparr>values = [3, 1, 7]\<rparr>"
    by (simp add: global_join_def zip_mut_def)
  from global_order [OF c] c j show ?thesis by simp
qed

text \<open>
  C36: in a run of ticks and observations in which the counter does not wrap, the
  timestamps a clock issues strictly increase, and every timestamp issued after a remote
  timestamp was observed is greater than it in the total order of timestamps.
\<close>

theorem lamport_clock_causal:
  assumes "clock_safe c (es @ Observe t # fs)"
  shows "sorted_wrt (<) (issued c (es @ Observe t # fs)) \<and>
         (\<forall>u \<in> set (issued (foldl clock_step c (es @ [Observe t])) fs). t < u)"
proof (intro conjI ballI)
  show "sorted_wrt (<) (issued c (es @ Observe t # fs))"
    by (rule issued_sorted [OF assms])
next
  fix u assume u: "u \<in> set (issued (foldl clock_step c (es @ [Observe t])) fs)"
  let ?c = "foldl clock_step c es"
  from assms have safe: "seq_value (clock_step ?c (Observe t)) \<noteq> 0"
      "clock_safe (clock_step ?c (Observe t)) fs"
    by (simp_all add: clock_safe_append)
  from u have "seq_value (clock_step ?c (Observe t)) \<le> seq_value u"
    using issued_bounds [OF safe(2)] by simp
  with clock_step_observes [OF safe(1)] have "seq_value t < seq_value u"
    by (rule order_less_le_trans)
  then show "t < u" by (simp add: lamport_less_iff)
qed

theorem lamport_clock_causal_witness:
  "issued (Lamport 1 0) [Tick, Observe (Lamport 9 8), Tick, Tick]
     = [Lamport 1 0, Lamport 10 0, Lamport 11 0] \<and> Lamport 9 8 < Lamport 10 0"
proof -
  have safe: "clock_safe (Lamport 1 0) ([Tick] @ Observe (Lamport 9 8) # [Tick, Tick])"
    by (simp add: lamport_tick_def lamport_observe_def)
  show ?thesis
    using lamport_clock_causal [OF safe] by (simp add: lamport_tick_def lamport_observe_def)
qed

end
