(* ===== verification/Locator.thy ===== *)
theory Locator
  imports Prelude "HOL-Library.List_Lexorder"
begin

text \<open>
  Dense position identifiers, from \<open>crates/text/src/locator.rs\<close>. A locator is a vector of
  \<open>u64\<close> digits under the derived (lexicographic) order; \<open>between\<close> makes a fresh locator
  strictly between two others, which is how the fragments of a buffer and the excerpts
  of a multibuffer are ordered without renumbering.
\<close>

section \<open>Locators\<close>

type_synonym locator = "u64 list"

definition locator_min :: locator where "locator_min = [0]"
definition locator_max :: locator where "locator_max = [- 1]"

text \<open>\<open>assign\<close> resizes the receiver and copies the other's digits over it.\<close>

definition locator_assign :: "locator \<Rightarrow> locator \<Rightarrow> locator" where
  "locator_assign self other = zip_mut (\<lambda>_ d. d) (resize (length other) 0 self) other"

definition locator_mid :: "u64 \<Rightarrow> u64 \<Rightarrow> u64" where
  "locator_mid lhs rhs = lhs + drop_bit 48 (saturating_sub rhs lhs)"

lemma locator_mid_top: "0 < locator_mid 0 (- 1)"
  by (simp add: locator_mid_def saturating_sub_def word_greater_zero_iff drop_bit_eq_div)

text \<open>
  The loop of \<open>between\<close> over the two digit streams, the left one continued by
  \<open>u64::MIN\<close> and the right one by \<open>u64::MAX\<close> for ever.
\<close>

function locator_between :: "locator \<Rightarrow> locator \<Rightarrow> locator" where
  "locator_between ls rs =
     (let lhs = (case ls of [] \<Rightarrow> 0 | d # _ \<Rightarrow> d);
          rhs = (case rs of [] \<Rightarrow> - 1 | d # _ \<Rightarrow> d);
          mid = locator_mid lhs rhs
      in if mid > lhs then [mid] else mid # locator_between (tl ls) (tl rs))"
  by pat_completeness auto
termination
proof (relation "measure (\<lambda>(ls, rs). length ls + length rs)", goal_cases)
  case (2 ls rs lhs rhs mid)
  have "ls \<noteq> [] \<or> rs \<noteq> []"
  proof (rule ccontr)
    assume "\<not> ?thesis"
    with 2 have "lhs = 0" "mid = locator_mid 0 (- 1)" by auto
    with 2(4) locator_mid_top show False by simp
  qed
  then show ?case by (cases ls; cases rs) auto
qed simp

declare locator_between.simps [simp del]

section \<open>Lemmas\<close>

lemma locator_assign_eq: "locator_assign self other = other"
  by (rule nth_equalityI) (simp_all add: locator_assign_def slice_simps)

lemma unat_locator_mid:
  "unat (locator_mid l r) = unat l + (unat r - unat l) div 2 ^ 48"
proof -
  have d: "unat (drop_bit 48 (saturating_sub r l)) = (unat r - unat l) div 2 ^ 48"
    by (subst unat_drop_bit_eq)
      (auto simp: saturating_sub_def drop_bit_eq_div word_less_nat_alt unat_sub word_le_nat_alt)
  have "unat l + (unat r - unat l) div 2 ^ 48 < 2 ^ 64"
    using unat_bound [of l] unat_bound [of r] div_le_dividend [of "unat r - unat l" "2 ^ 48"]
    by (cases "unat l \<le> unat r") auto
  then show ?thesis by (simp add: locator_mid_def unat_word_ariths d)
qed

lemma locator_mid_ge: "l \<le> locator_mid l r"
  by (simp add: word_le_nat_alt unat_locator_mid)

lemma locator_mid_lt: "l < locator_mid l r \<Longrightarrow> locator_mid l r < r"
proof -
  assume "l < locator_mid l r"
  then have "0 < unat r - unat l"
    by (auto simp: word_less_nat_alt unat_locator_mid intro: gr0I)
  moreover from this have "(unat r - unat l) div 2 ^ 48 < unat r - unat l" by simp
  ultimately show ?thesis by (simp add: word_less_nat_alt unat_locator_mid)
qed

lemma locator_mid_stay: "\<not> l < locator_mid l r \<Longrightarrow> locator_mid l r = l"
  using locator_mid_ge [of l r] by simp

lemma locator_between_step:
  "locator_between ls rs =
     (let l = (case ls of [] \<Rightarrow> 0 | d # _ \<Rightarrow> d); r = (case rs of [] \<Rightarrow> - 1 | d # _ \<Rightarrow> d)
      in if l < locator_mid l r then [locator_mid l r] else l # locator_between (tl ls) (tl rs))"
  by (subst locator_between.simps) (simp add: Let_def locator_mid_stay)

lemma locator_between_gt: "ls < locator_between ls rs"
proof (induction ls rs rule: locator_between.induct)
  case (1 ls rs)
  show ?case
  proof (cases ls)
    case Nil
    then show ?thesis by (subst locator_between_step) (simp add: Let_def)
  next
    case (Cons l ls')
    let ?r = "case rs of [] \<Rightarrow> - 1 | d # _ \<Rightarrow> d"
    show ?thesis
    proof (cases "l < locator_mid l ?r")
      case True
      with Cons show ?thesis by (subst locator_between_step) (simp add: Let_def)
    next
      case False
      with "1.IH" Cons have "ls' < locator_between ls' (tl rs)" by simp
      with False Cons show ?thesis by (subst locator_between_step) (simp add: Let_def)
    qed
  qed
qed

lemma locator_between_lt:
  "ls < rs \<Longrightarrow> last rs \<noteq> 0 \<Longrightarrow> locator_between ls rs < rs"
proof (induction ls rs rule: locator_between.induct)
  case (1 ls rs)
  from "1.prems" obtain r rs' where rs: "rs = r # rs'" by (cases rs) auto
  let ?l = "case ls of [] \<Rightarrow> 0 | d # _ \<Rightarrow> d"
  show ?case
  proof (cases "?l < locator_mid ?l r")
    case True
    then have "locator_mid ?l r < r" by (rule locator_mid_lt)
    with True rs show ?thesis by (subst locator_between_step) (simp add: Let_def)
  next
    case stay: False
    show ?thesis
    proof (cases "?l < r")
      case True
      with stay rs show ?thesis by (subst locator_between_step) (simp add: Let_def)
    next
      case False
      with "1.prems"(1) rs have l: "?l = r" and tl: "tl ls < rs'"
      proof -
        show "?l = r" using "1.prems"(1) rs False by (cases ls) (auto simp: word_gt_0)
        show "tl ls < rs'"
          using "1.prems" rs False by (cases ls; cases rs') (auto simp: word_gt_0)
      qed
      have "rs' \<noteq> []" using tl by auto
      then have "last rs' \<noteq> 0" using "1.prems"(2) rs by simp
      with "1.IH" stay rs tl have "locator_between (tl ls) rs' < rs'" by simp
      with stay rs l show ?thesis by (subst locator_between_step) (simp add: Let_def)
    qed
  qed
qed

lemma locator_between_last: "locator_between ls rs \<noteq> [] \<and> last (locator_between ls rs) \<noteq> 0"
proof (induction ls rs rule: locator_between.induct)
  case (1 ls rs)
  let ?l = "case ls of [] \<Rightarrow> 0 | d # _ \<Rightarrow> d" and ?r = "case rs of [] \<Rightarrow> - 1 | d # _ \<Rightarrow> d"
  show ?case
  proof (cases "?l < locator_mid ?l ?r")
    case True
    then have "locator_mid ?l ?r \<noteq> 0" by auto
    with True show ?thesis by (subst (1 2) locator_between_step) (simp add: Let_def)
  next
    case False
    with "1.IH" [OF refl refl refl] show ?thesis
      by (subst (1 2) locator_between_step) (simp add: Let_def)
  qed
qed

lemma length_locator_between: "length (locator_between ls rs) \<le> max (length ls) (length rs) + 1"
proof (induction ls rs rule: locator_between.induct)
  case (1 ls rs)
  let ?l = "case ls of [] \<Rightarrow> 0 | d # _ \<Rightarrow> d" and ?r = "case rs of [] \<Rightarrow> - 1 | d # _ \<Rightarrow> d"
  show ?case
  proof (cases "?l < locator_mid ?l ?r")
    case True
    then show ?thesis by (subst locator_between_step) (simp add: Let_def)
  next
    case False
    with "1.IH" [OF refl refl refl] locator_mid_top show ?thesis
      by (subst locator_between_step) (cases ls; cases rs; simp add: Let_def)
  qed
qed

section \<open>Sequences of locators\<close>

text \<open>
  An ordered collection starts from the sentinels \<open>min\<close> and \<open>max\<close> and grows by
  inserting \<open>between\<close> two neighbours.
\<close>

inductive locator_seq :: "locator list \<Rightarrow> bool" where
  sentinels: "locator_seq [locator_min, locator_max]"
| insert_between: "locator_seq (xs @ a # b # ys) \<Longrightarrow> locator_seq (xs @ a # locator_between a b # b # ys)"

text \<open>The digits of every locator but the first sentinel end in a nonzero digit.\<close>

definition locator_seq_ok :: "locator list \<Rightarrow> bool" where
  "locator_seq_ok xs \<longleftrightarrow> xs \<noteq> [] \<and> sorted_wrt (<) xs \<and> (\<forall>l \<in> set (tl xs). last l \<noteq> 0)"

lemma locator_seq_ok_insert:
  assumes "locator_seq_ok (xs @ a # b # ys)"
  shows "locator_seq_ok (xs @ a # locator_between a b # b # ys)"
proof -
  from assms have ab: "a < b" and b: "last b \<noteq> 0"
    by (cases xs; auto simp: locator_seq_ok_def sorted_wrt_append)+
  have "a < locator_between a b" "locator_between a b < b" "last (locator_between a b) \<noteq> 0"
    using locator_between_gt locator_between_lt [OF ab b] locator_between_last by auto
  with assms show ?thesis
    by (cases xs) (auto simp: locator_seq_ok_def sorted_wrt_append intro: less_trans)
qed

lemma locator_seq_invariant: "locator_seq xs \<Longrightarrow> locator_seq_ok xs"
proof (induction rule: locator_seq.induct)
  case sentinels
  show ?case by (simp add: locator_seq_ok_def locator_min_def locator_max_def word_gt_0)
next
  case (insert_between xs a b ys)
  then show ?case by (blast intro: locator_seq_ok_insert)
qed

section \<open>Properties\<close>

text \<open>
  C23: for \<open>lhs < rhs\<close>, where \<open>rhs\<close> does not end in the digit 0, \<open>between\<close> returns a
  locator strictly between the two, itself not ending in 0, at most one digit longer
  than the longer argument.
\<close>

theorem locator_between_strict:
  assumes "lhs < rhs" "last rhs \<noteq> 0"
  shows "lhs < locator_between lhs rhs \<and> locator_between lhs rhs < rhs \<and>
         last (locator_between lhs rhs) \<noteq> 0 \<and>
         length (locator_between lhs rhs) \<le> max (length lhs) (length rhs) + 1"
  using locator_between_gt locator_between_lt [OF assms] locator_between_last
    length_locator_between by auto

theorem locator_between_strict_witness:
  "[5] < [5, 1 :: u64] \<and> locator_between [5] [5, 1] = [5, 0, 65535] \<and>
   locator_between [5] [5, 1] < [5, 1]"
proof -
  have lt: "[5] < [5, 1 :: u64]" and last: "last [5, 1 :: u64] \<noteq> 0" by simp_all
  have "locator_between [5] [5, 1] = [5, 0, 65535]"
    by (simp add: locator_between.simps locator_mid_def saturating_sub_def drop_bit_eq_div)
  with lt locator_between_strict [OF lt last] show ?thesis by simp
qed

text \<open>
  Every sequence of locators obtained from the sentinels by inserting between
  neighbours, in any places and any number of times, stays strictly increasing.
\<close>

theorem locator_seq_sorted: "locator_seq xs \<Longrightarrow> sorted_wrt (<) xs"
  using locator_seq_invariant by (simp add: locator_seq_ok_def)

theorem locator_seq_sorted_witness:
  "locator_seq [locator_min, locator_between locator_min locator_max, locator_max] \<and>
   sorted_wrt (<) [locator_min, locator_between locator_min locator_max, locator_max]"
proof -
  have "locator_seq ([] @ locator_min # locator_between locator_min locator_max # locator_max # [])"
    by (rule locator_seq.insert_between) (simp add: locator_seq.sentinels)
  then show ?thesis using locator_seq_sorted by fastforce
qed

end
