(* ===== verification/Patch.thy ===== *)
theory Patch
  imports Prelude
begin

text \<open>
  Edit lists, from \<open>crates/text/src/patch.rs\<close>, the \<open>Edit\<close> type of
  \<open>crates/text/src/text.rs\<close> and the subscriptions of \<open>crates/text/src/subscription.rs\<close>,
  at the coordinate type \<open>usize\<close>. Every subtraction of the code is a checked one here,
  so the theorems also show that none of them underflows.
\<close>

section \<open>Edits\<close>

record range =
  start :: nat
  stop :: nat

record edit =
  old :: range
  new :: range

abbreviation mk_edit :: "nat \<Rightarrow> nat \<Rightarrow> nat \<Rightarrow> nat \<Rightarrow> edit" where
  "mk_edit os oe ns ne \<equiv> \<lparr>old = \<lparr>start = os, stop = oe\<rparr>, new = \<lparr>start = ns, stop = ne\<rparr>\<rparr>"

definition edit_is_empty :: "edit \<Rightarrow> bool" where
  "edit_is_empty e \<longleftrightarrow> start (old e) = stop (old e) \<and> start (new e) = stop (new e)"

definition edit_old_len :: "edit \<Rightarrow> nat rust" where
  "edit_old_len e = checked_sub (stop (old e)) (start (old e))"

definition edit_new_len :: "edit \<Rightarrow> nat rust" where
  "edit_new_len e = checked_sub (stop (new e)) (start (new e))"

section \<open>Patches\<close>

type_synonym patch = "edit list"

definition patch_invert :: "patch \<Rightarrow> patch" where
  "patch_invert p = map (\<lambda>e. e\<lparr>old := new e, new := old e\<rparr>) p"

definition push_maybe_empty :: "patch \<Rightarrow> edit \<Rightarrow> patch" where
  "push_maybe_empty p e =
     (case last_opt p of
        Some l \<Rightarrow>
          if stop (old l) \<ge> start (old e)
          then butlast p @ [l\<lparr>old := (old l)\<lparr>stop := stop (old e)\<rparr>,
                             new := (new l)\<lparr>stop := stop (new e)\<rparr>\<rparr>]
          else p @ [e]
      | None \<Rightarrow> p @ [e])"

definition push :: "patch \<Rightarrow> edit \<Rightarrow> patch" where
  "push p e = (if edit_is_empty e then p else push_maybe_empty p e)"

text \<open>
  The overlap branch of \<open>compose\<close>. \<open>compose_align\<close> consumes the part of the edit that
  starts first up to the start of the other, \<open>compose_advance\<close> consumes the edit that
  ends first. Both return the two (mutated) front edits, the composed patch and the two
  start positions; \<open>compose_advance\<close> says by \<open>Inl\<close> that the new edit is used up and the
  old one remains, by \<open>Inr\<close> the converse.
\<close>

definition compose_align ::
    "edit \<Rightarrow> edit \<Rightarrow> patch \<Rightarrow> nat \<Rightarrow> nat \<Rightarrow> (edit \<times> edit \<times> patch \<times> nat \<times> nat) rust" where
  "compose_align old_edit new_edit composed old_start new_start =
     (if start (new old_edit) < start (old new_edit) then do {
        catchup \<leftarrow> checked_sub (start (old old_edit)) old_start;
        let old_start = old_start + catchup;
        let new_start = new_start + catchup;
        overshoot \<leftarrow> checked_sub (start (old new_edit)) (start (new old_edit));
        let old_end = min (old_start + overshoot) (stop (old old_edit));
        let new_end = new_start + overshoot;
        let composed = push composed (mk_edit old_start old_end new_start new_end);
        let old_edit = old_edit\<lparr>old := (old old_edit)\<lparr>start := old_end\<rparr>,
              new := (new old_edit)\<lparr>start := start (new old_edit) + overshoot\<rparr>\<rparr>;
        Some (old_edit, new_edit, composed, old_end, new_end)
      } else do {
        catchup \<leftarrow> checked_sub (start (new new_edit)) new_start;
        let old_start = old_start + catchup;
        let new_start = new_start + catchup;
        overshoot \<leftarrow> checked_sub (start (new old_edit)) (start (old new_edit));
        let old_end = old_start + overshoot;
        let new_end = min (new_start + overshoot) (stop (new new_edit));
        let composed = push composed (mk_edit old_start old_end new_start new_end);
        let new_edit = new_edit\<lparr>old := (old new_edit)\<lparr>start := start (old new_edit) + overshoot\<rparr>,
              new := (new new_edit)\<lparr>start := new_end\<rparr>\<rparr>;
        Some (old_edit, new_edit, composed, old_end, new_end)
      })"

definition compose_advance ::
    "edit \<Rightarrow> edit \<Rightarrow> patch \<Rightarrow> nat \<Rightarrow> nat \<Rightarrow> ((edit + edit) \<times> patch \<times> nat \<times> nat) rust" where
  "compose_advance old_edit new_edit composed old_start new_start =
     (if stop (new old_edit) > stop (old new_edit) then do {
        len_o \<leftarrow> edit_old_len old_edit;
        len_n \<leftarrow> edit_old_len new_edit;
        let old_end = old_start + min len_o len_n;
        len \<leftarrow> edit_new_len new_edit;
        let new_end = new_start + len;
        let composed = push composed (mk_edit old_start old_end new_start new_end);
        let old_edit = old_edit\<lparr>old := (old old_edit)\<lparr>start := old_end\<rparr>,
              new := (new old_edit)\<lparr>start := stop (old new_edit)\<rparr>\<rparr>;
        Some (Inl old_edit, composed, old_end, new_end)
      } else do {
        len \<leftarrow> edit_old_len old_edit;
        let old_end = old_start + len;
        len_o \<leftarrow> edit_new_len old_edit;
        len_n \<leftarrow> edit_new_len new_edit;
        let new_end = new_start + min len_o len_n;
        let composed = push composed (mk_edit old_start old_end new_start new_end);
        let new_edit = new_edit\<lparr>old := (old new_edit)\<lparr>start := stop (new old_edit)\<rparr>,
              new := (new new_edit)\<lparr>start := new_end\<rparr>\<rparr>;
        Some (Inr new_edit, composed, old_end, new_end)
      })"

text \<open>The two iterators are peeked, mutated in place and advanced: lists with a changing head.\<close>

function compose_loop :: "patch \<Rightarrow> patch \<Rightarrow> patch \<Rightarrow> nat \<Rightarrow> nat \<Rightarrow> patch rust" where
  "compose_loop old_edits new_edits composed old_start new_start =
     (if (case old_edits of [] \<Rightarrow> False
          | oe # _ \<Rightarrow> (case new_edits of [] \<Rightarrow> True | ne # _ \<Rightarrow> stop (new oe) < start (old ne)))
      then do {
        let oe = hd old_edits;
        catchup \<leftarrow> checked_sub (start (old oe)) old_start;
        let old_start = old_start + catchup;
        let new_start = new_start + catchup;
        old_len \<leftarrow> edit_old_len oe;
        new_len \<leftarrow> edit_new_len oe;
        let old_end = old_start + old_len;
        let new_end = new_start + new_len;
        compose_loop (tl old_edits) new_edits
          (push composed (mk_edit old_start old_end new_start new_end)) old_end new_end
      }
      else if (case new_edits of [] \<Rightarrow> False
          | ne # _ \<Rightarrow> (case old_edits of [] \<Rightarrow> True | oe # _ \<Rightarrow> stop (old ne) < start (new oe)))
      then do {
        let ne = hd new_edits;
        catchup \<leftarrow> checked_sub (start (new ne)) new_start;
        let old_start = old_start + catchup;
        let new_start = new_start + catchup;
        old_len \<leftarrow> edit_old_len ne;
        new_len \<leftarrow> edit_new_len ne;
        let old_end = old_start + old_len;
        let new_end = new_start + new_len;
        compose_loop old_edits (tl new_edits)
          (push composed (mk_edit old_start old_end new_start new_end)) old_end new_end
      }
      else (case (old_edits, new_edits) of
        (oe # oes, ne # nes) \<Rightarrow> do {
          (oe, ne, composed, old_start, new_start) \<leftarrow> compose_align oe ne composed old_start new_start;
          (rest, composed, old_start, new_start) \<leftarrow> compose_advance oe ne composed old_start new_start;
          (case rest of
             Inl oe \<Rightarrow> compose_loop (oe # oes) nes composed old_start new_start
           | Inr ne \<Rightarrow> compose_loop oes (ne # nes) composed old_start new_start)
        }
      | _ \<Rightarrow> Some composed))"
  by pat_completeness auto
termination
  by (relation "measure (\<lambda>(oes, nes, c, os, ns). length oes + length nes)")
    (auto split: list.splits)

declare compose_loop.simps [simp del]

definition patch_compose :: "patch \<Rightarrow> edit list \<Rightarrow> patch rust" where
  "patch_compose p new_edits = compose_loop p new_edits [] 0 0"

definition old_to_new :: "patch \<Rightarrow> nat \<Rightarrow> nat rust" where
  "old_to_new p x =
     (let at = (\<lambda>ix. case get_ix p ix of
                  Some e \<Rightarrow> if x \<ge> stop (old e)
                            then do { d \<leftarrow> checked_sub x (stop (old e)); Some (stop (new e) + d) }
                            else Some (start (new e))
                | None \<Rightarrow> Some x)
      in case binary_search_by (\<lambda>probe. cmp (start (old probe)) x) p of
           Inr ix \<Rightarrow> at ix
         | Inl ix \<Rightarrow> if ix = 0 then Some x else at (ix - 1))"

definition edit_for_old_position :: "patch \<Rightarrow> nat \<Rightarrow> edit rust" where
  "edit_for_old_position p x =
     (let at = (\<lambda>ix. case get_ix p ix of
                  Some e \<Rightarrow> if x > stop (old e)
                            then do { d \<leftarrow> checked_sub x (stop (old e));
                                      let translated = stop (new e) + d;
                                      Some (mk_edit x x translated translated) }
                            else Some e
                | None \<Rightarrow> Some (mk_edit x x x x))
      in case binary_search_by (\<lambda>probe. cmp (start (old probe)) x) p of
           Inr ix \<Rightarrow> at ix
         | Inl ix \<Rightarrow> if ix = 0 then Some (mk_edit x x x x) else at (ix - 1))"

section \<open>Subscriptions\<close>

text \<open>
  A topic holds weak references to its subscribers' accumulated patches: \<open>None\<close> is a
  subscriber that was dropped. \<open>publish\<close> composes the edits into every live patch and
  forgets the dead entries; \<open>consume\<close> takes the accumulated patch.
\<close>

type_synonym topic = "patch option list"

definition subscribe :: "topic \<Rightarrow> topic" where
  "subscribe t = t @ [Some []]"

fun publish :: "topic \<Rightarrow> edit list \<Rightarrow> topic rust" where
  "publish [] edits = Some []"
| "publish (None # subs) edits = publish subs edits"
| "publish (Some p # subs) edits = do {
     p' \<leftarrow> patch_compose p edits;
     subs' \<leftarrow> publish subs edits;
     Some (Some p' # subs')
   }"

definition consume :: "patch \<Rightarrow> patch \<times> patch" where
  "consume p = (p, [])"

section \<open>What a patch says about two texts\<close>

text \<open>
  \<open>describes p os ns xs ys\<close>: read from the positions \<open>os\<close> and \<open>ns\<close>, the text \<open>xs\<close>
  becomes \<open>ys\<close> by replacing the old range of each edit by the text in its new range;
  the gaps between edits, and what follows the last one, are the same in both.
\<close>

inductive describes :: "patch \<Rightarrow> nat \<Rightarrow> nat \<Rightarrow> 'a list \<Rightarrow> 'a list \<Rightarrow> bool" where
  describes_Nil: "describes [] os ns xs xs"
| describes_Cons:
    "describes es (os + length g + length a) (ns + length g + length b) xs ys \<Longrightarrow>
     describes (mk_edit (os + length g) (os + length g + length a)
                        (ns + length g) (ns + length g + length b) # es)
       os ns (g @ a @ xs) (g @ b @ ys)"

inductive_cases describes_NilE [elim!]: "describes [] os ns xs ys"
inductive_cases describes_ConsE: "describes (e # es) os ns xs ys"

text \<open>
  What \<open>Patch::new\<close> asserts: consecutive edits are separated by unchanged text. \<open>push\<close>
  adds that no edit is empty.
\<close>

fun separated :: "patch \<Rightarrow> bool" where
  "separated (e # f # es) \<longleftrightarrow>
     stop (old e) < start (old f) \<and> stop (new e) < start (new f) \<and> separated (f # es)"
| "separated _ \<longleftrightarrow> True"

definition patch_wf :: "patch \<Rightarrow> bool" where
  "patch_wf p \<longleftrightarrow> separated p \<and> (\<forall>e \<in> set p. \<not> edit_is_empty e)"

lemma describes_gap: "describes p os ns xs ys \<Longrightarrow> describes p os ns (xs @ g) (ys @ g)"
  by (induction rule: describes.induct) (auto intro: describes.intros)

lemma describes_invert: "describes p os ns xs ys \<Longrightarrow> describes (patch_invert p) ns os ys xs"
  by (induction rule: describes.induct) (auto simp: patch_invert_def intro: describes.intros)

lemma describes_eqI:
  "describes p os ns xs ys \<Longrightarrow> p = p' \<Longrightarrow> os = os' \<Longrightarrow> ns = ns' \<Longrightarrow> xs = xs' \<Longrightarrow> ys = ys'
     \<Longrightarrow> describes p' os' ns' xs' ys'"
  by simp

text \<open>The last edit of a patch, with the text before it and the gap after it.\<close>

lemma describes_snocI:
  assumes "describes p os ns xs ys"
  shows "describes (p @ [mk_edit (os + length xs) (os + length xs + length a)
                                 (ns + length ys) (ns + length ys + length b)])
           os ns (xs @ a @ g) (ys @ b @ g)"
  using assms
proof (induction rule: describes.induct)
  case (describes_Nil os ns xs)
  show ?case
    by (rule describes_eqI [OF describes.describes_Cons [OF describes.describes_Nil,
          where g = xs and a = a and b = b and xs = g]]) simp_all
next
  case (describes_Cons es os g' a' ns b' xs ys)
  from describes.describes_Cons [OF describes_Cons.IH] show ?case
    by (rule describes_eqI) (simp_all add: add.assoc)
qed

lemma describes_snocE:
  assumes "describes (p @ [e]) os ns xs ys"
  obtains xs' a ys' b g where
    "xs = xs' @ a @ g" "ys = ys' @ b @ g" "describes p os ns xs' ys'"
    "e = mk_edit (os + length xs') (os + length xs' + length a)
                 (ns + length ys') (ns + length ys' + length b)"
  using assms
proof (induction p arbitrary: os ns xs ys thesis)
  case Nil
  from Nil.prems(2) show ?case
  proof (cases rule: describes.cases)
    case (describes_Cons es g a b xs' ys')
    with Nil.prems(1) [of g a xs' g b] show ?thesis by (auto intro: describes.describes_Nil)
  qed simp
next
  case (Cons f p)
  from Cons.prems(2) show ?case
  proof (cases rule: describes.cases)
    case (describes_Cons es g a b xs' ys')
    then have "describes (p @ [e]) (os + length g + length a) (ns + length g + length b) xs' ys'"
      by simp
    from Cons.IH [OF _ this] obtain u c v d h where rest:
      "xs' = u @ c @ h" "ys' = v @ d @ h"
      "describes p (os + length g + length a) (ns + length g + length b) u v"
      "e = mk_edit (os + length g + length a + length u) (os + length g + length a + length u + length c)
             (ns + length g + length b + length v) (ns + length g + length b + length v + length d)"
      by metis
    have "describes (f # p) os ns (g @ a @ u) (g @ b @ v)"
      using describes.describes_Cons [OF rest(3)] describes_Cons by simp
    with rest describes_Cons Cons.prems(1) [of "g @ a @ u" c h "g @ b @ v" d] show ?thesis
      by (simp add: add.assoc)
  qed simp
qed

lemma separated_snoc:
  "separated (p @ [e]) \<longleftrightarrow> separated p \<and>
     (p \<noteq> [] \<longrightarrow> stop (old (last p)) < start (old e) \<and> stop (new (last p)) < start (new e))"
  by (induction p rule: separated.induct) auto

text \<open>
  \<open>push\<close> of the edit that replaces the next piece \<open>a\<close> of the old text by \<open>b\<close>: it extends
  the description, and merges with the last edit exactly when no unchanged text lies
  between them.
\<close>

lemma describes_push:
  assumes "describes p 0 0 xs ys" "patch_wf p"
  shows "describes (push p (mk_edit (length xs) (length xs + length a)
                                    (length ys) (length ys + length b))) 0 0 (xs @ a) (ys @ b)
       \<and> patch_wf (push p (mk_edit (length xs) (length xs + length a)
                                   (length ys) (length ys + length b)))"
    (is "describes ?p 0 0 _ _ \<and> _")
proof (cases "a = [] \<and> b = []")
  case True
  with assms show ?thesis by (simp add: push_def edit_is_empty_def)
next
  case nonempty: False
  let ?e = "mk_edit (length xs) (length xs + length a) (length ys) (length ys + length b)"
  have e: "\<not> edit_is_empty ?e" using nonempty by (auto simp: edit_is_empty_def)
  show ?thesis
  proof (cases p rule: rev_cases)
    case Nil
    with assms(1) describes_snocI [OF assms(1), of a b "[]"] e show ?thesis
      by (simp add: push_def push_maybe_empty_def last_opt_def patch_wf_def)
  next
    case (snoc q l)
    from assms(1) [unfolded snoc] obtain xs' a' ys' b' g where l:
      "xs = xs' @ a' @ g" "ys = ys' @ b' @ g" "describes q 0 0 xs' ys'"
      "l = mk_edit (length xs') (length xs' + length a') (length ys') (length ys' + length b')"
      by (elim describes_snocE) simp
    show ?thesis
    proof (cases "g = []")
      case True
      with snoc l e have "?p = q @ [mk_edit (0 + length xs') (0 + length xs' + length (a' @ a))
            (0 + length ys') (0 + length ys' + length (b' @ b))]"
        by (simp add: push_def push_maybe_empty_def last_opt_def add.assoc)
      with describes_snocI [OF l(3), of "a' @ a" "b' @ b" "[]"] True l snoc assms(2) nonempty
      show ?thesis
        by (auto simp: patch_wf_def separated_snoc edit_is_empty_def)
    next
      case False
      with snoc l e have "?p = p @ [?e]"
        by (simp add: push_def push_maybe_empty_def last_opt_def)
      moreover have "separated (p @ [?e])"
        unfolding separated_snoc using assms(2) snoc l False by (simp add: patch_wf_def)
      moreover have "describes (p @ [?e]) 0 0 (xs @ a) (ys @ b)"
        using describes_snocI [OF assms(1), of a b "[]"] by simp
      ultimately show ?thesis using assms(2) e by (simp add: patch_wf_def)
    qed
  qed
qed

text \<open>Text that a patch leaves unchanged can be moved into the position.\<close>

lemma describes_advance_old:
  assumes "describes p os ns (u @ xs) ys'"
    and "p = [] \<or> os + length u \<le> start (old (hd p))"
  shows "\<exists>ys. ys' = u @ ys \<and> describes p (os + length u) (ns + length u) xs ys"
  using assms(1)
proof (cases rule: describes.cases)
  case describes_Nil
  then show ?thesis by (auto intro: describes.describes_Nil)
next
  case (describes_Cons es g a b xs2 ys2)
  with assms(2) have "length u \<le> length g" by simp
  with describes_Cons(2) obtain g' where g: "g = u @ g'" "xs = g' @ a @ xs2"
    by (metis append_eq_append_conv_if append_take_drop_id append_assoc same_append_eq)
  have "describes (mk_edit (os + length u + length g') (os + length u + length g' + length a)
          (ns + length u + length g') (ns + length u + length g' + length b) # es)
          (os + length u) (ns + length u) (g' @ a @ xs2) (g' @ b @ ys2)"
    using describes_Cons(4) g(1) by (intro describes.describes_Cons) (simp add: add.assoc)
  with describes_Cons g show ?thesis by (auto simp: add.assoc)
qed

lemma patch_invert_invert [simp]: "patch_invert (patch_invert p) = p"
  by (simp add: patch_invert_def comp_def)

lemma describes_advance_new:
  assumes "describes p os ns xs' (u @ ys)"
    and "p = [] \<or> ns + length u \<le> start (new (hd p))"
  shows "\<exists>xs. xs' = u @ xs \<and> describes p (os + length u) (ns + length u) xs ys"
proof -
  from assms(2) have "patch_invert p = [] \<or> ns + length u \<le> start (old (hd (patch_invert p)))"
    by (cases p) (auto simp: patch_invert_def)
  from describes_advance_old [OF describes_invert [OF assms(1)] this]
  obtain xs where "xs' = u @ xs" "describes (patch_invert p) (ns + length u) (os + length u) ys xs"
    by blast
  with describes_invert [OF this(2)] show ?thesis by simp
qed

section \<open>Composition\<close>

text \<open>
  The state of the loop: \<open>xs\<close>, \<open>zs\<close> and \<open>ys\<close> are what remains of the old, the middle and
  the new text after the parts \<open>X\<close> and \<open>Y\<close> that \<open>composed\<close> already describes.
\<close>

definition compose_state :: "patch \<Rightarrow> 'a list \<Rightarrow> 'a list \<Rightarrow> nat \<Rightarrow> nat \<Rightarrow> bool" where
  "compose_state c X Y os ns \<longleftrightarrow>
     describes c 0 0 X Y \<and> patch_wf c \<and> os = length X \<and> ns = length Y"

lemma compose_state_push:
  assumes "compose_state c X Y os ns" "os' = os + length g" "ns' = ns + length g"
    "oe = os' + length a" "ne = ns' + length b"
  shows "compose_state (push c (mk_edit os' oe ns' ne)) (X @ g @ a) (Y @ g @ b) oe ne"
proof -
  from assms(1) have "describes c 0 0 (X @ g) (Y @ g)" "patch_wf c"
    by (auto simp: compose_state_def intro: describes_gap)
  from describes_push [OF this, of a b] assms show ?thesis
    by (simp add: compose_state_def add.assoc)
qed

text \<open>One edit at the head of a description, with the pieces of text named.\<close>

lemma describes_headE:
  assumes "describes (e # es) os ns xs ys"
  obtains g a b xs' ys' where
    "e = mk_edit (os + length g) (os + length g + length a) (ns + length g) (ns + length g + length b)"
    "xs = g @ a @ xs'" "ys = g @ b @ ys'"
    "describes es (os + length g + length a) (ns + length g + length b) xs' ys'"
  using assms by (elim describes_ConsE) blast

text \<open>
  Two overlapping front edits, aligned: they start at the same middle position, and
  nothing is left before them.
\<close>

definition overlapping ::
    "edit \<Rightarrow> patch \<Rightarrow> edit \<Rightarrow> patch \<Rightarrow> nat \<Rightarrow> nat \<Rightarrow> 'a list \<Rightarrow> 'a list \<Rightarrow> bool" where
  "overlapping oe oes ne nes os ns xs ys \<longleftrightarrow>
     (\<exists>ms a b d f xs' zs ys'.
        oe = mk_edit os (os + length a) ms (ms + length (b :: 'a list)) \<and>
        ne = mk_edit ms (ms + length d) ns (ns + length f) \<and>
        xs = a @ xs' \<and> ys = f @ ys' \<and>
        (\<exists>zs'. b @ zs = d @ zs' \<and>
           describes oes (os + length a) (ms + length b) xs' zs \<and>
           describes nes (ms + length d) (ns + length f) zs' ys'))"

lemma compose_align_old_first:
  assumes c: "compose_state c X Y os ns"
    and p: "describes oes (os + length g + length a) (ms + length g + length (u @ b)) xs zs"
    and q: "describes nes (ms + length (g @ u) + length d) (ns + length (g @ u) + length f) zs' ys"
    and mid: "b @ zs = d @ zs'" and "u \<noteq> []"
  shows "\<exists>oe' ne' c' os' ns' X' Y' xs' ys'.
      compose_align
        (mk_edit (os + length g) (os + length g + length a)
                 (ms + length g) (ms + length g + length (u @ b)))
        (mk_edit (ms + length (g @ u)) (ms + length (g @ u) + length d)
                 (ns + length (g @ u)) (ns + length (g @ u) + length f)) c os ns
        = Some (oe', ne', c', os', ns') \<and>
      compose_state c' (X @ X') (Y @ Y') os' ns' \<and>
      g @ a @ xs = X' @ xs' \<and> g @ u @ f @ ys = Y' @ ys' \<and>
      overlapping oe' oes ne' nes os' ns' xs' ys'"
proof -
  define k where "k = min (length u) (length a)"
  let ?os = "os + length g + k" and ?ns = "ns + length g + length u"
    and ?ms = "ms + length g + length u"
  have st: "compose_state (push c (mk_edit (os + length g) ?os (ns + length g) ?ns))
      (X @ g @ take k a) (Y @ g @ u) ?os ?ns"
    by (rule compose_state_push [OF c]) (simp_all add: k_def)
  have ov: "overlapping (mk_edit ?os (os + length g + length a) ?ms (?ms + length b)) oes
      (mk_edit ?ms (?ms + length d) ?ns (?ns + length f)) nes ?os ?ns (drop k a @ xs) (f @ ys)"
    unfolding overlapping_def
    by (rule exI [of _ ?ms], rule exI [of _ "drop k a"], rule exI [of _ b], rule exI [of _ d],
        rule exI [of _ f], rule exI [of _ xs], rule exI [of _ zs], rule exI [of _ ys])
      (use p q mid in \<open>auto simp: k_def add.assoc\<close>)
  show ?thesis
    by (rule exI, rule exI, rule exI, rule exI, rule exI,
        rule exI [of _ "g @ take k a"], rule exI [of _ "g @ u"],
        rule exI [of _ "drop k a @ xs"], rule exI [of _ "f @ ys"])
      (use st ov \<open>u \<noteq> []\<close> in \<open>simp add: compose_align_def Let_def k_def
         min_add_distrib_right add.assoc\<close>)
qed

lemma compose_align_new_first:
  assumes c: "compose_state c X Y os ns"
    and p: "describes oes (os + length (g @ u) + length a) (ms + length (g @ u) + length b) xs zs"
    and q: "describes nes (ms + length g + length (u @ d)) (ns + length g + length f) zs' ys"
    and mid: "b @ zs = d @ zs'"
  shows "\<exists>oe' ne' c' os' ns' X' Y' xs' ys'.
      compose_align
        (mk_edit (os + length (g @ u)) (os + length (g @ u) + length a)
                 (ms + length (g @ u)) (ms + length (g @ u) + length b))
        (mk_edit (ms + length g) (ms + length g + length (u @ d))
                 (ns + length g) (ns + length g + length f)) c os ns
        = Some (oe', ne', c', os', ns') \<and>
      compose_state c' (X @ X') (Y @ Y') os' ns' \<and>
      g @ u @ a @ xs = X' @ xs' \<and> g @ f @ ys = Y' @ ys' \<and>
      overlapping oe' oes ne' nes os' ns' xs' ys'"
proof -
  define k where "k = min (length u) (length f)"
  let ?os = "os + length g + length u" and ?ns = "ns + length g + k"
    and ?ms = "ms + length g + length u"
  have st: "compose_state (push c (mk_edit (os + length g) ?os (ns + length g) ?ns))
      (X @ g @ u) (Y @ g @ take k f) ?os ?ns"
    by (rule compose_state_push [OF c]) (simp_all add: k_def)
  have ov: "overlapping (mk_edit ?os (?os + length a) ?ms (?ms + length b)) oes
      (mk_edit ?ms (?ms + length d) ?ns (ns + length g + length f)) nes ?os ?ns (a @ xs) (drop k f @ ys)"
    unfolding overlapping_def
    by (rule exI [of _ ?ms], rule exI [of _ a], rule exI [of _ b], rule exI [of _ d],
        rule exI [of _ "drop k f"], rule exI [of _ xs], rule exI [of _ zs], rule exI [of _ ys])
      (use p q mid in \<open>auto simp: k_def add.assoc\<close>)
  show ?thesis
    by (rule exI, rule exI, rule exI, rule exI, rule exI,
        rule exI [of _ "g @ u"], rule exI [of _ "g @ take k f"],
        rule exI [of _ "a @ xs"], rule exI [of _ "drop k f @ ys"])
      (use st ov in \<open>simp add: compose_align_def Let_def k_def min_add_distrib_right add.assoc\<close>)
qed

lemma compose_align_correct:
  assumes c: "compose_state c X Y os ns"
    and p: "describes (oe # oes) os ms xs zs" and q: "describes (ne # nes) ms ns zs ys"
    and no1: "\<not> stop (new oe) < start (old ne)" and no2: "\<not> stop (old ne) < start (new oe)"
  shows "\<exists>oe' ne' c' os' ns' X' Y' xs' ys'.
      compose_align oe ne c os ns = Some (oe', ne', c', os', ns') \<and>
      compose_state c' (X @ X') (Y @ Y') os' ns' \<and> xs = X' @ xs' \<and> ys = Y' @ ys' \<and>
      overlapping oe' oes ne' nes os' ns' xs' ys'"
proof -
  from p obtain g a b xs1 zs1 where oe:
    "oe = mk_edit (os + length g) (os + length g + length a) (ms + length g) (ms + length g + length b)"
    "xs = g @ a @ xs1" "zs = g @ b @ zs1"
    "describes oes (os + length g + length a) (ms + length g + length b) xs1 zs1"
    by (rule describes_headE)
  from q obtain h d f zs2 ys2 where ne:
    "ne = mk_edit (ms + length h) (ms + length h + length d) (ns + length h) (ns + length h + length f)"
    "zs = h @ d @ zs2" "ys = h @ f @ ys2"
    "describes nes (ms + length h + length d) (ns + length h + length f) zs2 ys2"
    by (rule describes_headE)
  show ?thesis
  proof (cases "length g < length h")
    case True
    with oe ne no1 obtain u b' where u: "h = g @ u" "b = u @ b'" "b' @ zs1 = d @ zs2" "u \<noteq> []"
      by (force simp: append_eq_append_conv2)
    from compose_align_old_first [OF c, of oes g a ms u b' xs1 zs1 nes d f zs2 ys2] oe ne u
    show ?thesis by simp
  next
    case False
    with oe ne no2 obtain u d' where u: "g = h @ u" "d = u @ d'" "b @ zs1 = d' @ zs2"
      by (force simp: append_eq_append_conv2)
    from compose_align_new_first [OF c, of oes h u a ms b xs1 zs1 nes d' f zs2 ys2] oe ne u
    show ?thesis by simp
  qed
qed

text \<open>What remains for the loop: some middle text links the two lists of edits.\<close>

definition remaining :: "patch \<Rightarrow> patch \<Rightarrow> nat \<Rightarrow> nat \<Rightarrow> 'a list \<Rightarrow> 'a list \<Rightarrow> bool" where
  "remaining oes nes os ns xs ys \<longleftrightarrow>
     (\<exists>ms zs. describes oes os ms xs zs \<and> describes nes ms ns zs ys)"

abbreviation advanced ::
    "edit + edit \<Rightarrow> patch \<Rightarrow> patch \<Rightarrow> nat \<Rightarrow> nat \<Rightarrow> 'a list \<Rightarrow> 'a list \<Rightarrow> bool" where
  "advanced rest oes nes \<equiv> (case rest of
        Inl oe \<Rightarrow> remaining (oe # oes) nes
      | Inr ne \<Rightarrow> remaining oes (ne # nes))"

lemma describes_front:
  assumes "describes es (os + length a) (ns + length b) xs ys" "oe = os + length a" "ne = ns + length b"
  shows "describes (mk_edit os oe ns ne # es) os ns (a @ xs) (b @ ys)"
  using describes.describes_Cons [of es os "[]" a ns b xs ys] assms by simp

lemma compose_advance_correct:
  assumes c: "compose_state c X Y os ns" and ov: "overlapping oe oes ne nes os ns xs ys"
  shows "\<exists>rest c' os' ns' X' Y' xs' ys'.
      compose_advance oe ne c os ns = Some (rest, c', os', ns') \<and>
      compose_state c' (X @ X') (Y @ Y') os' ns' \<and> xs = X' @ xs' \<and> ys = Y' @ ys' \<and>
      advanced rest oes nes os' ns' xs' ys'"
proof -
  from ov obtain ms a b d f xs1 zs1 ys1 zs2 where o:
    "oe = mk_edit os (os + length a) ms (ms + length b)"
    "ne = mk_edit ms (ms + length d) ns (ns + length f)"
    "xs = a @ xs1" "ys = f @ ys1" "b @ zs1 = d @ zs2"
    "describes oes (os + length a) (ms + length b) xs1 zs1"
    "describes nes (ms + length d) (ns + length f) zs2 ys1"
    by (auto simp: overlapping_def)
  show ?thesis
  proof (cases "length d < length b")
    case True
    with o(5) obtain b' where b: "b = d @ b'" "zs2 = b' @ zs1"
      by (force simp: append_eq_append_conv2)
    define k where "k = min (length a) (length d)"
    have st: "compose_state (push c (mk_edit os (os + k) ns (ns + length f)))
        (X @ take k a) (Y @ f) (os + k) (ns + length f)"
      using compose_state_push [OF c, of os "[]" ns "os + k" "take k a" "ns + length f" f]
      by (simp add: k_def)
    have "describes (mk_edit (os + k) (os + length a) (ms + length d) (ms + length b) # oes)
        (os + k) (ms + length d) (drop k a @ xs1) (b' @ zs1)"
      using o(6) b by (intro describes_front) (auto simp: k_def add.assoc)
    then have "advanced (Inl (mk_edit (os + k) (os + length a) (ms + length d) (ms + length b)))
        oes nes (os + k) (ns + length f) (drop k a @ xs1) ys1"
      using o(7) b by (auto simp: remaining_def)
    moreover have "compose_advance oe ne c os ns = Some
        (Inl (mk_edit (os + k) (os + length a) (ms + length d) (ms + length b)),
         push c (mk_edit os (os + k) ns (ns + length f)), os + k, ns + length f)"
      using True o(1,2)
      by (simp add: compose_advance_def edit_old_len_def edit_new_len_def Let_def k_def)
    moreover have "xs = take k a @ drop k a @ xs1" by (simp add: o(3))
    ultimately show ?thesis using st o(4) by fastforce
  next
    case False
    with o(5) obtain d' where d: "d = b @ d'" "zs1 = d' @ zs2"
      by (force simp: append_eq_append_conv2)
    define k where "k = min (length b) (length f)"
    have st: "compose_state (push c (mk_edit os (os + length a) ns (ns + k)))
        (X @ a) (Y @ take k f) (os + length a) (ns + k)"
      using compose_state_push [OF c, of os "[]" ns "os + length a" a "ns + k" "take k f"]
      by (simp add: k_def)
    have "describes (mk_edit (ms + length b) (ms + length d) (ns + k) (ns + length f) # nes)
        (ms + length b) (ns + k) (d' @ zs2) (drop k f @ ys1)"
      using o(7) d by (intro describes_front) (auto simp: k_def add.assoc)
    then have "advanced (Inr (mk_edit (ms + length b) (ms + length d) (ns + k) (ns + length f)))
        oes nes (os + length a) (ns + k) xs1 (drop k f @ ys1)"
      using o(6) d by (auto simp: remaining_def)
    moreover have "compose_advance oe ne c os ns = Some
        (Inr (mk_edit (ms + length b) (ms + length d) (ns + k) (ns + length f)),
         push c (mk_edit os (os + length a) ns (ns + k)), os + length a, ns + k)"
      using False o(1,2)
      by (simp add: compose_advance_def edit_old_len_def edit_new_len_def Let_def k_def)
    moreover have "ys = take k f @ drop k f @ ys1" by (simp add: o(4))
    ultimately show ?thesis using st o(3) by fastforce
  qed
qed

text \<open>The four ways through the body of the loop.\<close>

abbreviation ends_before_old :: "nat \<Rightarrow> patch \<Rightarrow> bool" where
  "ends_before_old i p \<equiv> (case p of [] \<Rightarrow> True | e # _ \<Rightarrow> i < start (old e))"

abbreviation ends_before_new :: "nat \<Rightarrow> patch \<Rightarrow> bool" where
  "ends_before_new i p \<equiv> (case p of [] \<Rightarrow> True | e # _ \<Rightarrow> i < start (new e))"

lemma compose_loop_Nil: "compose_loop [] [] c os ns = Some c"
  by (simp add: compose_loop.simps)

lemma compose_loop_old:
  assumes "ends_before_old (ms + length g + length b) nes"
  shows "compose_loop (mk_edit (os + length g) (os + length g + length a) (ms + length g)
                               (ms + length g + length b) # oes) nes c os ns =
     compose_loop oes nes
       (push c (mk_edit (os + length g) (os + length g + length a)
                        (ns + length g) (ns + length g + length b)))
       (os + length g + length a) (ns + length g + length b)"
  using assms
  by (subst compose_loop.simps)
    (auto simp: edit_old_len_def edit_new_len_def Let_def split: list.splits)

lemma compose_loop_new:
  assumes "ends_before_new (ms + length g + length a) oes"
    and "case oes of [] \<Rightarrow> True | oe # _ \<Rightarrow> \<not> stop (new oe) < ms + length g"
  shows "compose_loop oes (mk_edit (ms + length g) (ms + length g + length a) (ns + length g)
                                   (ns + length g + length b) # nes) c os ns =
     compose_loop oes nes
       (push c (mk_edit (os + length g) (os + length g + length a)
                        (ns + length g) (ns + length g + length b)))
       (os + length g + length a) (ns + length g + length b)"
  using assms
  by (subst compose_loop.simps)
    (auto simp: edit_old_len_def edit_new_len_def Let_def split: list.splits)

lemma compose_loop_overlap:
  assumes "\<not> stop (new oe) < start (old ne)" "\<not> stop (old ne) < start (new oe)"
    and "compose_align oe ne c os ns = Some (oe', ne', c', os', ns')"
    and "compose_advance oe' ne' c' os' ns' = Some (rest, c'', os'', ns'')"
  shows "compose_loop (oe # oes) (ne # nes) c os ns =
     (case rest of Inl oe'' \<Rightarrow> compose_loop (oe'' # oes) nes c'' os'' ns''
                 | Inr ne'' \<Rightarrow> compose_loop oes (ne'' # nes) c'' os'' ns'')"
  using assms by (subst compose_loop.simps) simp

text \<open>One iteration of the loop: it shortens the edits and keeps what remains linked.\<close>

definition loop_progress ::
    "patch \<Rightarrow> patch \<Rightarrow> patch \<Rightarrow> nat \<Rightarrow> nat \<Rightarrow> 'a list \<Rightarrow> 'a list \<Rightarrow> 'a list \<Rightarrow> 'a list \<Rightarrow> bool" where
  "loop_progress oes nes c os ns X Y xs ys \<longleftrightarrow>
     (\<exists>oes' nes' c' os' ns' X' Y' xs' ys'.
        length oes' + length nes' < length oes + length nes \<and>
        compose_loop oes nes c os ns = compose_loop oes' nes' c' os' ns' \<and>
        compose_state c' (X @ X') (Y @ Y') os' ns' \<and> xs = X' @ xs' \<and> ys = Y' @ ys' \<and>
        remaining oes' nes' os' ns' xs' ys')"

lemma loop_progressI:
  "length oes' + length nes' < length oes + length nes \<Longrightarrow>
   compose_loop oes nes c os ns = compose_loop oes' nes' c' os' ns' \<Longrightarrow>
   compose_state c' (X @ X') (Y @ Y') os' ns' \<Longrightarrow> xs = X' @ xs' \<Longrightarrow> ys = Y' @ ys' \<Longrightarrow>
   remaining oes' nes' os' ns' xs' ys' \<Longrightarrow> loop_progress oes nes c os ns X Y xs ys"
  unfolding loop_progress_def by blast

lemma loop_progress_old:
  assumes c: "compose_state c X Y os ns"
    and p: "describes (oe # oes) os ms xs zs" and q: "describes nes ms ns zs ys"
    and before: "ends_before_old (stop (new oe)) nes"
  shows "loop_progress (oe # oes) nes c os ns X Y xs ys"
proof -
  from p obtain g a b xs1 zs1 where oe:
    "oe = mk_edit (os + length g) (os + length g + length a) (ms + length g) (ms + length g + length b)"
    "xs = g @ a @ xs1" "zs = g @ b @ zs1"
    "describes oes (os + length g + length a) (ms + length g + length b) xs1 zs1"
    by (rule describes_headE)
  from describes_advance_old [of nes ms ns "g @ b" zs1 ys] q before oe obtain ys1 where ys:
    "ys = g @ b @ ys1" "describes nes (ms + length g + length b) (ns + length g + length b) zs1 ys1"
    by (cases nes) (auto simp: add.assoc intro: describes.describes_Nil)
  have st: "compose_state (push c (mk_edit (os + length g) (os + length g + length a)
        (ns + length g) (ns + length g + length b))) (X @ g @ a) (Y @ g @ b)
      (os + length g + length a) (ns + length g + length b)"
    by (rule compose_state_push [OF c]) simp_all
  have run: "compose_loop (oe # oes) nes c os ns = compose_loop oes nes
      (push c (mk_edit (os + length g) (os + length g + length a)
         (ns + length g) (ns + length g + length b)))
      (os + length g + length a) (ns + length g + length b)"
    unfolding oe(1) by (rule compose_loop_old) (use before oe(1) in \<open>auto split: list.splits\<close>)
  show ?thesis
    by (rule loop_progressI [OF _ run st]) (use oe ys in \<open>auto simp: remaining_def\<close>)
qed

lemma loop_progress_new:
  assumes c: "compose_state c X Y os ns"
    and p: "describes oes os ms xs zs" and q: "describes (ne # nes) ms ns zs ys"
    and before: "ends_before_new (stop (old ne)) oes"
      "case oes of [] \<Rightarrow> True | oe # _ \<Rightarrow> \<not> stop (new oe) < start (old ne)"
  shows "loop_progress oes (ne # nes) c os ns X Y xs ys"
proof -
  from q obtain g a b zs1 ys1 where ne:
    "ne = mk_edit (ms + length g) (ms + length g + length a) (ns + length g) (ns + length g + length b)"
    "zs = g @ a @ zs1" "ys = g @ b @ ys1"
    "describes nes (ms + length g + length a) (ns + length g + length b) zs1 ys1"
    by (rule describes_headE)
  from describes_advance_new [of oes os ms xs "g @ a" zs1] p before(1) ne obtain xs1 where xs:
    "xs = g @ a @ xs1" "describes oes (os + length g + length a) (ms + length g + length a) xs1 zs1"
    by (cases oes) (auto simp: add.assoc intro: describes.describes_Nil)
  have st: "compose_state (push c (mk_edit (os + length g) (os + length g + length a)
        (ns + length g) (ns + length g + length b))) (X @ g @ a) (Y @ g @ b)
      (os + length g + length a) (ns + length g + length b)"
    by (rule compose_state_push [OF c]) simp_all
  have run: "compose_loop oes (ne # nes) c os ns = compose_loop oes nes
      (push c (mk_edit (os + length g) (os + length g + length a)
         (ns + length g) (ns + length g + length b)))
      (os + length g + length a) (ns + length g + length b)"
    unfolding ne(1) by (rule compose_loop_new) (use before ne(1) in \<open>auto split: list.splits\<close>)
  show ?thesis
    by (rule loop_progressI [OF _ run st]) (use ne xs in \<open>auto simp: remaining_def\<close>)
qed

lemma loop_progress_overlap:
  assumes c: "compose_state c X Y os ns"
    and p: "describes (oe # oes) os ms xs zs" and q: "describes (ne # nes) ms ns zs ys"
    and no: "\<not> stop (new oe) < start (old ne)" "\<not> stop (old ne) < start (new oe)"
  shows "loop_progress (oe # oes) (ne # nes) c os ns X Y xs ys"
proof -
  from compose_align_correct [OF c p q no]
  obtain oe' ne' c' os' ns' X' Y' xs' ys' where al:
    "compose_align oe ne c os ns = Some (oe', ne', c', os', ns')"
    "compose_state c' (X @ X') (Y @ Y') os' ns'" "xs = X' @ xs'" "ys = Y' @ ys'"
    "overlapping oe' oes ne' nes os' ns' xs' ys'" by blast
  from compose_advance_correct [OF al(2,5)]
  obtain rest c2 os2 ns2 X2 Y2 xs2 ys2 where ad:
    "compose_advance oe' ne' c' os' ns' = Some (rest, c2, os2, ns2)"
    "compose_state c2 ((X @ X') @ X2) ((Y @ Y') @ Y2) os2 ns2" "xs' = X2 @ xs2" "ys' = Y2 @ ys2"
    "advanced rest oes nes os2 ns2 xs2 ys2" by blast
  note run = compose_loop_overlap [OF no al(1) ad(1)]
  have st: "compose_state c2 (X @ X' @ X2) (Y @ Y' @ Y2) os2 ns2" using ad(2) by simp
  show ?thesis
  proof (cases rest)
    case (Inl oe2)
    show ?thesis
      by (rule loop_progressI [OF _ _ st, of "oe2 # oes" nes]) (use run Inl al ad in auto)
  next
    case (Inr ne2)
    show ?thesis
      by (rule loop_progressI [OF _ _ st, of oes "ne2 # nes"]) (use run Inr al ad in auto)
  qed
qed

lemma loop_progress:
  assumes "compose_state c X Y os ns" "remaining oes nes os ns xs ys" "oes \<noteq> [] \<or> nes \<noteq> []"
  shows "loop_progress oes nes c os ns X Y xs ys"
proof -
  from assms(2) obtain ms zs where pq: "describes oes os ms xs zs" "describes nes ms ns zs ys"
    by (auto simp: remaining_def)
  show ?thesis
  proof (cases "\<exists>oe oes'. oes = oe # oes' \<and> ends_before_old (stop (new oe)) nes")
    case True
    with loop_progress_old [OF assms(1)] pq show ?thesis by blast
  next
    case no_old: False
    show ?thesis
    proof (cases "\<exists>ne nes'. nes = ne # nes' \<and> ends_before_new (stop (old ne)) oes")
      case True
      then obtain ne nes' where ne: "nes = ne # nes'" "ends_before_new (stop (old ne)) oes" by blast
      with no_old have "case oes of [] \<Rightarrow> True | oe # _ \<Rightarrow> \<not> stop (new oe) < start (old ne)"
        by (cases oes) auto
      with loop_progress_new [OF assms(1)] pq ne show ?thesis by blast
    next
      case False
      with no_old assms(3) obtain oe oes' ne nes' where "oes = oe # oes'" "nes = ne # nes'"
        "\<not> stop (new oe) < start (old ne)" "\<not> stop (old ne) < start (new oe)"
        by (cases oes; cases nes) auto
      with loop_progress_overlap [OF assms(1)] pq show ?thesis by blast
    qed
  qed
qed

lemma compose_loop_correct:
  assumes "compose_state c X Y os ns" "remaining oes nes os ns xs ys"
  shows "\<exists>c'. compose_loop oes nes c os ns = Some c' \<and>
              describes c' 0 0 (X @ xs) (Y @ ys) \<and> patch_wf c'"
  using assms
proof (induction "length oes + length nes" arbitrary: oes nes c os ns X Y xs ys
    rule: less_induct)
  case less
  show ?case
  proof (cases "oes = [] \<and> nes = []")
    case True
    with less.prems show ?thesis
      by (auto simp: compose_loop_Nil compose_state_def remaining_def intro: describes_gap)
  next
    case False
    then have "loop_progress oes nes c os ns X Y xs ys" using loop_progress less.prems by blast
    then show ?thesis unfolding loop_progress_def using less.hyps by fastforce
  qed
qed

lemma patch_compose_correct:
  assumes "describes p 0 0 xs zs" "describes q 0 0 zs ys"
  shows "\<exists>r. patch_compose p q = Some r \<and> describes r 0 0 xs ys \<and> patch_wf r"
proof -
  have "compose_state [] [] ([] :: 'a list) 0 0"
    by (simp add: compose_state_def patch_wf_def describes.describes_Nil)
  from compose_loop_correct [OF this, of p q xs ys] assms show ?thesis
    by (auto simp: patch_compose_def remaining_def)
qed

section \<open>Translating positions\<close>

text \<open>The reference: walk the edits in order, carrying the ends of the previous one.\<close>

fun translate :: "patch \<Rightarrow> nat \<Rightarrow> nat \<Rightarrow> nat \<Rightarrow> nat" where
  "translate [] os ns x = ns + (x - os)"
| "translate (e # es) os ns x =
     (if x < start (old e) then ns + (x - os)
      else if x < stop (old e) then start (new e)
      else translate es (stop (old e)) (stop (new e)) x)"

definition edit_before :: "patch \<Rightarrow> nat \<Rightarrow> edit option" where
  "edit_before p x = last_opt (takeWhile (\<lambda>e. start (old e) \<le> x) p)"

lemma separated_starts:
  assumes "describes p os ns xs ys" "separated p"
  shows "sorted_wrt (\<lambda>e f. start (old e) < start (old f)) p \<and> (\<forall>e \<in> set p. stop (old (hd p)) \<le> stop (old e) \<and> start (old e) \<le> stop (old e))"
  using assms
proof (induction rule: describes.induct)
  case (describes_Cons es os g a ns b xs ys)
  then show ?case by (cases es) (auto intro: less_le_trans le_less_trans)
qed simp

lemma cmp_sorted_starts:
  "sorted_wrt (\<lambda>e f. start (old e) < start (old f)) p \<Longrightarrow> cmp_sorted (\<lambda>e. cmp (start (old e)) x) p"
  unfolding cmp_sorted_def sorted_wrt_iff_nth_less
  by (simp add: not_less) (meson less_trans order_less_le_trans)

lemma takeWhile_starts:
  assumes "n \<le> length p" "\<And>j. j < n \<Longrightarrow> start (old (p ! j)) \<le> x"
    "n < length p \<Longrightarrow> x < start (old (p ! n))"
  shows "takeWhile (\<lambda>e. start (old e) \<le> x) p = take n p"
  using assms by (intro takeWhile_eq_take_P_nth) auto

lemma search_edit:
  assumes "sorted_wrt (\<lambda>e f. start (old e) < start (old f)) p"
  shows "(case binary_search_by (\<lambda>e. cmp (start (old e)) x) p of
            Inr ix \<Rightarrow> get_ix p ix
          | Inl ix \<Rightarrow> if ix = 0 then None else get_ix p (ix - 1)) = edit_before p x"
proof (cases "binary_search_by (\<lambda>e. cmp (start (old e)) x) p")
  case (Inl ix)
  with binary_search_by_Err [OF cmp_sorted_starts [OF assms] Inl]
  have "takeWhile (\<lambda>e. start (old e) \<le> x) p = take ix p" "ix \<le> length p"
    by (auto intro!: takeWhile_starts)
  then show ?thesis
    using Inl by (auto simp: edit_before_def last_opt_def last_conv_nth)
next
  case (Inr ix)
  with binary_search_by_Ok [OF cmp_sorted_starts [OF assms] Inr]
  have ix: "ix < length p" "start (old (p ! ix)) = x" by simp_all
  with assms have "takeWhile (\<lambda>e. start (old e) \<le> x) p = take (Suc ix) p"
    by (intro takeWhile_starts) (auto simp: sorted_wrt_iff_nth_less less_Suc_eq intro: less_imp_le)
  with ix Inr show ?thesis
    by (auto simp: edit_before_def last_opt_def take_Suc_conv_app_nth)
qed

lemma old_to_new_edit_before:
  assumes "sorted_wrt (\<lambda>e f. start (old e) < start (old f)) p"
  shows "old_to_new p x = Some (case edit_before p x of
           None \<Rightarrow> x
         | Some e \<Rightarrow> if stop (old e) \<le> x then stop (new e) + (x - stop (old e)) else start (new e))"
  unfolding search_edit [OF assms, symmetric]
  by (auto simp: old_to_new_def Let_def simp del: get_ix_None
        split: sum.splits option.splits if_splits)

lemma translate_edit_before:
  assumes "describes p os ns xs ys" "separated p" "os \<le> x"
  shows "translate p os ns x = (case edit_before p x of
           None \<Rightarrow> ns + (x - os)
         | Some e \<Rightarrow> if stop (old e) \<le> x then stop (new e) + (x - stop (old e)) else start (new e))"
  using assms
proof (induction rule: describes.induct)
  case (describes_Nil os ns xs)
  then show ?case by (simp add: edit_before_def last_opt_def)
next
  case (describes_Cons es os g a ns b xs ys)
  have sep: "separated es" using describes_Cons.prems(1) by (cases es) auto
  show ?case
  proof (cases "os + length g + length a \<le> x")
    case True
    with describes_Cons.IH [OF sep] show ?thesis
      by (auto simp: edit_before_def last_opt_def)
  next
    case False
    with describes_Cons.prems(1) have "takeWhile (\<lambda>e. start (old e) \<le> x) es = []"
      by (cases es) auto
    with False show ?thesis by (auto simp: edit_before_def last_opt_def)
  qed
qed

lemma old_to_new_translate:
  assumes "describes p 0 0 xs ys" "separated p"
  shows "old_to_new p x = Some (translate p 0 0 x)"
  using old_to_new_edit_before [of p x] translate_edit_before [OF assms, of x]
    separated_starts [OF assms]
  by (auto split: option.splits)

text \<open>What the translation means for the two texts.\<close>

lemma translate_bounds:
  "describes p os ns xs ys \<Longrightarrow> os \<le> x \<Longrightarrow> x \<le> os + length xs \<Longrightarrow>
     ns \<le> translate p os ns x \<and> translate p os ns x \<le> ns + length ys"
proof (induction rule: describes.induct)
  case (describes_Cons es os g a ns b xs ys)
  then show ?case by (cases "x < os + length g + length a") auto
qed auto

lemma translate_mono:
  "describes p os ns xs ys \<Longrightarrow> os \<le> x \<Longrightarrow> x \<le> y \<Longrightarrow> y \<le> os + length xs \<Longrightarrow>
     translate p os ns x \<le> translate p os ns y"
proof (induction rule: describes.induct)
  case (describes_Cons es os g a ns b xs ys)
  show ?case
  proof (cases "os + length g + length a \<le> y")
    case True
    with translate_bounds [OF describes_Cons.hyps, of y] describes_Cons.prems
    have "ns + length g + length b \<le>
        translate es (os + length g + length a) (ns + length g + length b) y" by simp
    with True describes_Cons show ?thesis by auto
  next
    case False
    with describes_Cons.prems show ?thesis by auto
  qed
qed auto

lemma translate_char:
  "describes p os ns xs ys \<Longrightarrow> os \<le> x \<Longrightarrow> x < os + length xs \<Longrightarrow>
     \<forall>e \<in> set p. \<not> (start (old e) \<le> x \<and> x < stop (old e)) \<Longrightarrow>
     translate p os ns x - ns < length ys \<and> ys ! (translate p os ns x - ns) = xs ! (x - os)"
proof (induction rule: describes.induct)
  case (describes_Cons es os g a ns b xs ys)
  show ?case
  proof (cases "os + length g + length a \<le> x")
    case True
    let ?t = "translate es (os + length g + length a) (ns + length g + length b) x"
    from describes_Cons.IH True describes_Cons.prems
    have IH: "?t - (ns + length g + length b) < length ys"
      "ys ! (?t - (ns + length g + length b)) = xs ! (x - (os + length g + length a))"
      by auto
    have "ns + length g + length b \<le> ?t"
      using translate_bounds [OF describes_Cons.hyps, of x] True describes_Cons.prems by simp
    then have t: "?t - ns = length (g @ b) + (?t - (ns + length g + length b))" by simp
    have x: "x - os = length (g @ a) + (x - (os + length g + length a))" using True by simp
    have "(g @ b @ ys) ! (?t - ns) = (g @ a @ xs) ! (x - os)"
      unfolding t x append_assoc [symmetric] nth_append_length_plus by (rule IH(2))
    with IH(1) t True show ?thesis by simp
  next
    case False
    with describes_Cons.prems have "x < os + length g" "x - os < length g" by auto
    then show ?thesis by (simp add: nth_append)
  qed
qed auto

lemma edit_before_touch:
  assumes "describes p os ns xs ys" "separated p" "e \<in> set p" "start (old e) \<le> x" "x \<le> stop (old e)"
  shows "edit_before p x = Some e"
  using assms
proof (induction rule: describes.induct)
  case (describes_Cons es os g a ns b xs ys)
  let ?f = "mk_edit (os + length g) (os + length g + length a) (ns + length g) (ns + length g + length b)"
  have sep: "separated es" using describes_Cons.prems(1) by (cases es) auto
  show ?case
  proof (cases "e = ?f")
    case True
    with describes_Cons.prems have "takeWhile (\<lambda>e. start (old e) \<le> x) es = []"
      by (cases es) auto
    with True describes_Cons.prems show ?thesis by (simp add: edit_before_def last_opt_def)
  next
    case False
    with describes_Cons sep have IH: "edit_before es x = Some e" by simp
    from False describes_Cons.prems separated_starts [OF describes.describes_Cons [OF describes_Cons.hyps]]
    have "os + length g < x" by auto
    with IH show ?thesis by (auto simp: edit_before_def last_opt_def split: if_splits)
  qed
qed simp

lemma edit_for_old_position_edit_before:
  assumes "sorted_wrt (\<lambda>e f. start (old e) < start (old f)) p"
  shows "edit_for_old_position p x = Some (case edit_before p x of
           None \<Rightarrow> mk_edit x x x x
         | Some e \<Rightarrow> if stop (old e) < x
                     then mk_edit x x (stop (new e) + (x - stop (old e))) (stop (new e) + (x - stop (old e)))
                     else e)"
  unfolding search_edit [OF assms, symmetric]
  by (auto simp: edit_for_old_position_def Let_def simp del: get_ix_None
        split: sum.splits option.splits if_splits)

lemma edit_before_mem: "edit_before p x = Some e \<Longrightarrow> e \<in> set p \<and> start (old e) \<le> x"
  unfolding edit_before_def last_opt_Some using last_in_set set_takeWhileD by fastforce

section \<open>Properties\<close>

text \<open>
  C8: \<open>compose\<close> never underflows, and if \<open>p\<close> describes the change from one text to a
  second and \<open>q\<close> from the second to a third, the composed patch describes the change
  from the first to the third; its edits are nonempty and separated by unchanged text,
  as \<open>Patch::new\<close> asserts.
\<close>

theorem patch_compose_describes:
  assumes "describes p 0 0 xs zs" "describes q 0 0 zs ys"
  shows "\<exists>r. patch_compose p q = Some r \<and> describes r 0 0 xs ys \<and>
             separated r \<and> (\<forall>e \<in> set r. \<not> edit_is_empty e)"
  using patch_compose_correct [OF assms] by (simp add: patch_wf_def)

lemma describes_example_1:
  "describes [mk_edit 1 3 1 4] 0 0 ''abcd'' ''aXYZd''"
  by (rule describes_eqI [OF describes.describes_Cons [OF describes.describes_Nil,
        where os = 0 and g = "''a''" and a = "''bc''" and ns = 0 and b = "''XYZ''" and xs = "''d''"]])
    simp_all

lemma describes_example_2:
  "describes [mk_edit 2 5 2 3] 0 0 ''aXYZd'' ''aXQ''"
  by (rule describes_eqI [OF describes.describes_Cons [OF describes.describes_Nil,
        where os = 0 and g = "''aX''" and a = "''YZd''" and ns = 0 and b = "''Q''" and xs = "[]"]])
    simp_all

theorem patch_compose_describes_witness:
  "patch_compose [mk_edit 1 3 1 4] [mk_edit 2 5 2 3] = Some [mk_edit 1 4 1 3] \<and>
   describes [mk_edit 1 4 1 3] 0 0 ''abcd'' ''aXQ''"
proof -
  have "patch_compose [mk_edit 1 3 1 4] [mk_edit 2 5 2 3] = Some [mk_edit 1 4 1 3]"
    by (simp add: patch_compose_def compose_loop.simps compose_align_def compose_advance_def
          edit_old_len_def edit_new_len_def push_def push_maybe_empty_def last_opt_def
          edit_is_empty_def checked_sub_def)
  with patch_compose_describes [OF describes_example_1 describes_example_2] show ?thesis by simp
qed

text \<open>
  C31: for a patch that describes the change from \<open>xs\<close> to \<open>ys\<close>, \<open>old_to_new\<close> (a binary
  search) agrees with the linear walk over the edits, maps positions of \<open>xs\<close> into
  \<open>ys\<close> monotonically, and maps the position of a character outside all edited ranges
  to the position of the same character.
\<close>

theorem old_to_new_correct:
  assumes "describes p 0 0 xs ys" "separated p" "x \<le> length xs"
  shows "\<exists>t. old_to_new p x = Some t \<and> t = translate p 0 0 x \<and> t \<le> length ys \<and>
      (\<forall>y u. x \<le> y \<and> y \<le> length xs \<and> old_to_new p y = Some u \<longrightarrow> t \<le> u) \<and>
      (x < length xs \<and> (\<forall>e \<in> set p. \<not> (start (old e) \<le> x \<and> x < stop (old e)))
         \<longrightarrow> t < length ys \<and> ys ! t = xs ! x)"
  using translate_bounds [OF assms(1), of x] translate_mono [OF assms(1), of x]
    translate_char [OF assms(1), of x] assms(3)
  by (simp add: old_to_new_translate [OF assms(1,2)])

theorem old_to_new_correct_witness:
  "old_to_new [mk_edit 1 3 1 4] 3 = Some 4 \<and> ''aXYZd'' ! 4 = ''abcd'' ! 3"
proof -
  have "old_to_new [mk_edit 1 3 1 4] 3 = Some 4"
    by (simp add: old_to_new_def binary_search_by_def bsearch_loop.simps cmp_def checked_sub_def)
  with old_to_new_correct [OF describes_example_1, of 3] show ?thesis by simp
qed

text \<open>
  \<open>edit_for_old_position\<close> returns the edit that touches the position (inclusive on
  the right) when there is one, and otherwise an empty edit whose new position is the
  translated one.
\<close>

theorem edit_for_old_position_correct:
  assumes "describes p 0 0 xs ys" "separated p"
  shows "(\<forall>e \<in> set p. start (old e) \<le> x \<and> x \<le> stop (old e) \<longrightarrow> edit_for_old_position p x = Some e) \<and>
    ((\<forall>e \<in> set p. \<not> (start (old e) \<le> x \<and> x \<le> stop (old e))) \<longrightarrow>
       edit_for_old_position p x =
         Some (mk_edit x x (translate p 0 0 x) (translate p 0 0 x)))"
proof -
  have eb: "edit_for_old_position p x = Some (case edit_before p x of
      None \<Rightarrow> mk_edit x x x x
    | Some e \<Rightarrow> if stop (old e) < x
                then mk_edit x x (stop (new e) + (x - stop (old e))) (stop (new e) + (x - stop (old e)))
                else e)"
    using edit_for_old_position_edit_before separated_starts [OF assms] by blast
  have "edit_for_old_position p x = Some e"
    if "e \<in> set p" "start (old e) \<le> x" "x \<le> stop (old e)" for e
    using eb edit_before_touch [OF assms that] that by simp
  moreover have "edit_for_old_position p x = Some (mk_edit x x (translate p 0 0 x) (translate p 0 0 x))"
    if none: "\<forall>e \<in> set p. \<not> (start (old e) \<le> x \<and> x \<le> stop (old e))"
  proof (cases "edit_before p x")
    case None
    with eb translate_edit_before [OF assms, of x] show ?thesis by simp
  next
    case (Some e)
    with edit_before_mem none have "stop (old e) < x" by (meson not_le)
    with Some eb translate_edit_before [OF assms, of x] show ?thesis by simp
  qed
  ultimately show ?thesis by blast
qed

theorem edit_for_old_position_correct_witness:
  "edit_for_old_position [mk_edit 1 3 1 4] 3 = Some (mk_edit 1 3 1 4)"
  using edit_for_old_position_correct [OF describes_example_1, of 3] by simp

text \<open>
  C32: after \<open>publish\<close> of edits that take the current text to a new one, the topic holds
  exactly the live subscribers, in order, each with a patch that takes the text the
  subscriber last saw to the new text.
\<close>

theorem publish_describes:
  assumes "list_all2 (\<lambda>s t. case s of None \<Rightarrow> True | Some p \<Rightarrow> describes p 0 0 t cur) subs seen"
    and "describes edits 0 0 cur next"
  shows "\<exists>ps. publish subs edits = Some (map Some ps) \<and>
     list_all2 (\<lambda>p t. describes p 0 0 t next \<and> separated p) ps
       (map snd (filter (\<lambda>(s, t). s \<noteq> None) (zip subs seen)))"
  using assms(1)
proof (induction rule: list_all2_induct)
  case (Cons s subs t seen)
  then obtain ps where ps: "publish subs edits = Some (map Some ps)"
    "list_all2 (\<lambda>p t. describes p 0 0 t next \<and> separated p) ps
       (map snd (filter (\<lambda>(s, t). s \<noteq> None) (zip subs seen)))" by blast
  show ?case
  proof (cases s)
    case None
    with ps show ?thesis by simp
  next
    case (Some p)
    with Cons(1) patch_compose_correct [OF _ assms(2), of p t] obtain r where
      "patch_compose p edits = Some r" "describes r 0 0 t next" "separated r"
      by (auto simp: patch_wf_def)
    with ps Some show ?thesis by (auto intro!: exI [of _ "r # ps"])
  qed
qed simp

theorem publish_describes_witness:
  "\<exists>p. publish [None, Some [mk_edit 1 3 1 4]] [mk_edit 2 5 2 3] = Some [Some p] \<and>
       describes p 0 0 ''abcd'' ''aXQ''"
proof -
  have "list_all2 (\<lambda>s t. case s of None \<Rightarrow> True | Some p \<Rightarrow> describes p 0 0 t ''aXYZd'')
      [None, Some [mk_edit 1 3 1 4]] [''gone'', ''abcd'']"
    using describes_example_1 by simp
  from publish_describes [OF this describes_example_2] show ?thesis
    by (auto simp: list_all2_Cons2)
qed

end
