(* ===== verification/SumTree.thy ===== *)
theory SumTree
  imports Prelude
begin

text \<open>
  The summarising B+ tree of \<open>crates/sum_tree/src/sum_tree.rs\<close>, which carries ropes,
  buffers, maps and operation queues. A node caches the summary of every child; all
  items sit in the leaves. The traits \<open>Item\<close>, \<open>Summary\<close>, \<open>Dimension\<close> and \<open>SeekTarget\<close> are
  records of their operations (the context argument \<open>cx\<close> is applied already), and the
  laws their instances obey are locales. \<open>Arc\<close> sharing and \<open>make_mut\<close> are value
  semantics; the fixed-capacity \<open>ArrayVec\<close>s are lists whose writes panic beyond the
  capacity \<open>2 * TREE_BASE\<close>.
\<close>

section \<open>Traits and nodes\<close>

definition TREE_BASE :: nat where "TREE_BASE = 6"

record ('t, 's) item_ops =
  it_summary :: "'t \<Rightarrow> 's"
  s_zero :: 's
  s_add :: "'s \<Rightarrow> 's \<Rightarrow> 's"

record ('s, 'd) dim_ops =
  d_zero :: 'd
  d_add :: "'d \<Rightarrow> 's \<Rightarrow> 'd"

datatype bias = Left | Right

fun bias_invert :: "bias \<Rightarrow> bias" where
  "bias_invert Left = Right"
| "bias_invert Right = Left"

datatype ('t, 's) node =
    Internal (height_of: nat) (summary_of: 's) (child_summaries_of: "'s list")
      (child_trees_of: "('t, 's) node list")
  | Leaf (summary_of: 's) (items_of: "'t list") (child_summaries_of: "'s list")

definition arrayvec :: "'a list \<Rightarrow> 'a list rust" where
  "arrayvec xs = (if length xs \<le> 2 * TREE_BASE then Some xs else None)"

fun is_leaf :: "('t, 's) node \<Rightarrow> bool" where
  "is_leaf (Leaf _ _ _) = True"
| "is_leaf (Internal _ _ _ _) = False"

fun node_height :: "('t, 's) node \<Rightarrow> nat" where
  "node_height (Internal h _ _ _) = h"
| "node_height (Leaf _ _ _) = 0"

abbreviation node_summary :: "('t, 's) node \<Rightarrow> 's" where
  "node_summary \<equiv> summary_of"

fun node_child_trees :: "('t, 's) node \<Rightarrow> ('t, 's) node list rust" where
  "node_child_trees (Internal _ _ _ cts) = Some cts"
| "node_child_trees (Leaf _ _ _) = None"

fun node_items :: "('t, 's) node \<Rightarrow> 't list rust" where
  "node_items (Leaf _ is _) = Some is"
| "node_items (Internal _ _ _ _) = None"

fun is_underflowing :: "('t, 's) node \<Rightarrow> bool" where
  "is_underflowing (Internal _ _ _ cts) \<longleftrightarrow> length cts < TREE_BASE"
| "is_underflowing (Leaf _ is _) \<longleftrightarrow> length is < TREE_BASE"

definition sum :: "('t, 's) item_ops \<Rightarrow> 's list \<Rightarrow> 's" where
  "sum ops ss = foldl (s_add ops) (s_zero ops) ss"

section \<open>Construction\<close>

definition tree_new :: "('t, 's) item_ops \<Rightarrow> ('t, 's) node" where
  "tree_new ops = Leaf (s_zero ops) [] []"

definition tree_from_summary :: "'s \<Rightarrow> ('t, 's) node" where
  "tree_from_summary s = Leaf s [] []"

fun tree_is_empty :: "('t, 's) node \<Rightarrow> bool" where
  "tree_is_empty (Internal _ _ _ _) = False"
| "tree_is_empty (Leaf _ is _) = (is = [])"

text \<open>
  \<open>from_iter\<close>, first phase: leaves of up to \<open>2 * TREE_BASE\<close> items each. The summary of a
  leaf starts from its first item's summary.
\<close>

definition leaf_of :: "('t, 's) item_ops \<Rightarrow> 't list \<Rightarrow> ('t, 's) node" where
  "leaf_of ops is =
     (let ss = map (it_summary ops) is in Leaf (foldl (s_add ops) (hd ss) (tl ss)) is ss)"

function leaves_loop :: "('t, 's) item_ops \<Rightarrow> ('t, 's) node list \<Rightarrow> 't list \<Rightarrow> ('t, 's) node list" where
  "leaves_loop ops nodes [] = nodes"
| "leaves_loop ops nodes (i # is) =
     leaves_loop ops (nodes @ [leaf_of ops (take (2 * TREE_BASE) (i # is))])
       (drop (2 * TREE_BASE) (i # is))"
  by pat_completeness auto
termination
  by (relation "measure (\<lambda>(ops, nodes, is). length is)") (auto simp: TREE_BASE_def)

text \<open>Second phase: one level of parents, filled from the left, then the levels up to one root.\<close>

fun add_child :: "('t, 's) item_ops \<Rightarrow> ('t, 's) node \<Rightarrow> ('t, 's) node \<Rightarrow> ('t, 's) node rust" where
  "add_child ops (Internal h s css cts) c = do {
     css' \<leftarrow> arrayvec (css @ [node_summary c]);
     cts' \<leftarrow> arrayvec (cts @ [c]);
     Some (Internal h (s_add ops s (node_summary c)) css' cts')
   }"
| "add_child ops (Leaf _ _ _) c = None"

fun parents_loop :: "('t, 's) item_ops \<Rightarrow> nat \<Rightarrow> ('t, 's) node option \<Rightarrow> ('t, 's) node list
    \<Rightarrow> ('t, 's) node list \<Rightarrow> ('t, 's) node list rust" where
  "parents_loop ops h current parents [] =
     Some (parents @ (case current of None \<Rightarrow> [] | Some p \<Rightarrow> [p]))"
| "parents_loop ops h current parents (c # cs) = do {
     p \<leftarrow> add_child ops (case current of Some p \<Rightarrow> p | None \<Rightarrow> Internal h (s_zero ops) [] []) c;
     if length (child_trees_of p) = 2 * TREE_BASE
     then parents_loop ops h None (parents @ [p]) cs
     else parents_loop ops h (Some p) parents cs
   }"

partial_function (option) levels_loop ::
    "('t, 's) item_ops \<Rightarrow> nat \<Rightarrow> ('t, 's) node list \<Rightarrow> ('t, 's) node list rust" where
  "levels_loop ops h nodes =
     (if length nodes > 1
      then do { parents \<leftarrow> parents_loop ops (h + 1) None [] nodes; levels_loop ops (h + 1) parents }
      else Some nodes)"

text \<open>The loops compute: their unfolding equations serve evaluation.\<close>

declare levels_loop.simps [code]

definition tree_from_iter :: "('t, 's) item_ops \<Rightarrow> 't list \<Rightarrow> ('t, 's) node rust" where
  "tree_from_iter ops is = do {
     nodes \<leftarrow> levels_loop ops 0 (leaves_loop ops [] is);
     Some (if nodes = [] then tree_new ops else last nodes)
   }"

section \<open>Appending\<close>

definition from_child_trees ::
    "('t, 's) item_ops \<Rightarrow> ('t, 's) node \<Rightarrow> ('t, 's) node \<Rightarrow> ('t, 's) node" where
  "from_child_trees ops l r =
     (let css = [node_summary l, node_summary r]
      in Internal (node_height l + 1) (sum ops css) css [l, r])"

text \<open>
  The end of the internal case of \<open>push_tree_recursive\<close>: the new children are appended,
  or, if they do not fit, all children are split in two halves. The result is the new
  right sibling, if any, and the updated node.
\<close>

definition append_children :: "('t, 's) item_ops \<Rightarrow> nat \<Rightarrow> 's \<Rightarrow> 's list \<Rightarrow> ('t, 's) node list \<Rightarrow> 's list
    \<Rightarrow> ('t, 's) node list \<Rightarrow> (('t, 's) node option \<times> ('t, 's) node) rust" where
  "append_children ops h s css cts css_to_append cts_to_append =
     (let child_count = length cts + length cts_to_append
      in if child_count > 2 * TREE_BASE then do {
           let midpoint = (child_count + child_count mod 2) div 2;
           left_css \<leftarrow> arrayvec (take midpoint (css @ css_to_append));
           right_css \<leftarrow> arrayvec (drop midpoint (css @ css_to_append));
           left_cts \<leftarrow> arrayvec (take midpoint (cts @ cts_to_append));
           right_cts \<leftarrow> arrayvec (drop midpoint (cts @ cts_to_append));
           Some (Some (Internal h (sum ops right_css) right_css right_cts),
                 Internal h (sum ops left_css) left_css left_cts)
         } else do {
           css' \<leftarrow> arrayvec (css @ css_to_append);
           cts' \<leftarrow> arrayvec (cts @ cts_to_append);
           Some (None, Internal h s css' cts')
         })"

lemma size_child [termination_simp]:
  "c \<in> set cts \<Longrightarrow> size c < Suc (n + size_list size cts)"
  by (induction cts) auto

lemma size_last_child [termination_simp]:
  "cts \<noteq> [] \<Longrightarrow> size (last cts) < Suc (n + size_list size cts)"
  by (simp add: size_child)

lemma size_hd_child [termination_simp]:
  "cts \<noteq> [] \<Longrightarrow> size (hd cts) < Suc (n + size_list size cts)"
  by (simp add: size_child)

fun push_tree_recursive :: "('t, 's) item_ops \<Rightarrow> ('t, 's) node \<Rightarrow> ('t, 's) node
    \<Rightarrow> (('t, 's) node option \<times> ('t, 's) node) rust" where
  "push_tree_recursive ops (Internal h s css cts) other = do {
     let s' = s_add ops s (node_summary other);
     height_delta \<leftarrow> checked_sub h (node_height other);
     if height_delta = 0 then do {
       other_cts \<leftarrow> node_child_trees other;
       append_children ops h s' css cts (child_summaries_of other) other_cts
     }
     else if height_delta = 1 \<and> \<not> is_underflowing other then
       append_children ops h s' css cts [node_summary other] [other]
     else if cts = [] \<or> css = [] then None
     else do {
       (split, last_child) \<leftarrow> push_tree_recursive ops (last cts) other;
       let cts' = butlast cts @ [last_child];
       let css' = butlast css @ [node_summary last_child];
       (case split of
          Some t \<Rightarrow> append_children ops h s' css' cts' [node_summary t] [t]
        | None \<Rightarrow> append_children ops h s' css' cts' [] [])
     }
   }"
| "push_tree_recursive ops (Leaf s is ss) other = do {
     other_items \<leftarrow> node_items other;
     let child_count = length is + length other_items;
     if child_count > 2 * TREE_BASE then do {
       let midpoint = (child_count + child_count mod 2) div 2;
       left_items \<leftarrow> arrayvec (take midpoint (is @ other_items));
       right_items \<leftarrow> arrayvec (drop midpoint (is @ other_items));
       left_ss \<leftarrow> arrayvec (take midpoint (ss @ child_summaries_of other));
       right_ss \<leftarrow> arrayvec (drop midpoint (ss @ child_summaries_of other));
       Some (Some (Leaf (sum ops right_ss) right_items right_ss),
             Leaf (sum ops left_ss) left_items left_ss)
     } else do {
       is' \<leftarrow> arrayvec (is @ other_items);
       ss' \<leftarrow> arrayvec (ss @ child_summaries_of other);
       Some (None, Leaf (s_add ops s (node_summary other)) is' ss')
     }
   }"

fun merge_into_right :: "('t, 's) item_ops \<Rightarrow> ('t, 's) node \<Rightarrow> ('t, 's) node
    \<Rightarrow> (('t, 's) node option \<times> ('t, 's) node) rust" where
  "merge_into_right ops (Internal _ small_s small_css small_cts) (Internal h s css cts) =
     (let total = length cts + length small_cts
      in if total \<le> 2 * TREE_BASE then do {
           cts' \<leftarrow> arrayvec (small_cts @ cts);
           css' \<leftarrow> arrayvec (small_css @ css);
           Some (None, Internal h (s_add ops small_s s) css' cts')
         } else do {
           let midpoint = (total + 1) div 2;
           left_cts \<leftarrow> arrayvec (take midpoint (small_cts @ cts));
           right_cts \<leftarrow> arrayvec (drop midpoint (small_cts @ cts));
           left_css \<leftarrow> arrayvec (take midpoint (small_css @ css));
           right_css \<leftarrow> arrayvec (drop midpoint (small_css @ css));
           Some (Some (Internal h (sum ops left_css) left_css left_cts),
                 Internal h (sum ops right_css) right_css right_cts)
         })"
| "merge_into_right ops (Leaf small_s small_is small_ss) (Leaf s is ss) =
     (let total = length small_is + length is
      in if total \<le> 2 * TREE_BASE then do {
           is' \<leftarrow> arrayvec (small_is @ is);
           ss' \<leftarrow> arrayvec (small_ss @ ss);
           Some (None, Leaf (s_add ops small_s s) is' ss')
         } else do {
           let midpoint = (total + 1) div 2;
           left_is \<leftarrow> arrayvec (take midpoint (small_is @ is));
           right_is \<leftarrow> arrayvec (drop midpoint (small_is @ is));
           left_ss \<leftarrow> arrayvec (take midpoint (small_ss @ ss));
           right_ss \<leftarrow> arrayvec (drop midpoint (small_ss @ ss));
           Some (Some (Leaf (sum ops left_ss) left_is left_ss),
                 Leaf (sum ops right_ss) right_is right_ss)
         })"
| "merge_into_right ops _ _ = None"

text \<open>\<open>append_large\<close> returns the new left sibling of \<open>large\<close>, if any, and the updated \<open>large\<close>.\<close>

fun append_large :: "('t, 's) item_ops \<Rightarrow> ('t, 's) node \<Rightarrow> ('t, 's) node
    \<Rightarrow> (('t, 's) node option \<times> ('t, 's) node) rust" where
  "append_large ops small (Leaf s is ss) =
     (if node_height small = 0
      then if \<not> is_underflowing small then Some (Some small, Leaf s is ss)
           else merge_into_right ops small (Leaf s is ss)
      else None)"
| "append_large ops small (Internal h s css cts) =
     (if node_height small = h
      then if \<not> is_underflowing small then Some (Some small, Internal h s css cts)
           else merge_into_right ops small (Internal h s css cts)
      else if cts = [] \<or> css = [] then None
      else do {
        let full_summary = s_add ops (node_summary small) s;
        (res, first) \<leftarrow> append_large ops small (hd cts);
        let cts = first # tl cts;
        let css = node_summary first # tl css;
        (case res of
           None \<Rightarrow> Some (None, Internal h full_summary css cts)
         | Some tree \<Rightarrow>
             if length cts < 2 * TREE_BASE then do {
               css \<leftarrow> arrayvec (node_summary tree # css);
               cts \<leftarrow> arrayvec (tree # cts);
               Some (None, Internal h full_summary css cts)
             } else do {
               left_css \<leftarrow> arrayvec (node_summary tree # take TREE_BASE css);
               left_cts \<leftarrow> arrayvec (tree # take TREE_BASE cts);
               let right_css = drop TREE_BASE css;
               Some (Some (Internal h (sum ops left_css) left_css left_cts),
                     Internal h (sum ops right_css) right_css (drop TREE_BASE cts))
             })
      })"

definition tree_append :: "('t, 's) item_ops \<Rightarrow> ('t, 's) node \<Rightarrow> ('t, 's) node \<Rightarrow> ('t, 's) node rust" where
  "tree_append ops self other =
     (if tree_is_empty self then Some other
      else if is_leaf other \<and> items_of other = [] then Some self
      else if node_height self < node_height other then do {
        (res, other) \<leftarrow> append_large ops self other;
        Some (case res of Some tree \<Rightarrow> from_child_trees ops tree other | None \<Rightarrow> other)
      }
      else do {
        (split, self) \<leftarrow> push_tree_recursive ops self other;
        Some (case split of Some t \<Rightarrow> from_child_trees ops self t | None \<Rightarrow> self)
      })"

definition tree_push :: "('t, 's) item_ops \<Rightarrow> ('t, 's) node \<Rightarrow> 't \<Rightarrow> ('t, 's) node rust" where
  "tree_push ops self item =
     (let s = it_summary ops item in tree_append ops self (Leaf s [item] [s]))"

definition tree_from_item :: "('t, 's) item_ops \<Rightarrow> 't \<Rightarrow> ('t, 's) node rust" where
  "tree_from_item ops item = tree_push ops (tree_new ops) item"

definition tree_extend :: "('t, 's) item_ops \<Rightarrow> ('t, 's) node \<Rightarrow> 't list \<Rightarrow> ('t, 's) node rust" where
  "tree_extend ops self is = do { t \<leftarrow> tree_from_iter ops is; tree_append ops self t }"

section \<open>Contents and invariant\<close>

text \<open>
  The contents of a tree are its items from left to right. A well-formed tree keeps, in
  every node, the summaries of its children and their sum, has at most \<open>2 * TREE_BASE\<close>
  children per node, and all leaves at the same depth; only the root may be an empty leaf.
\<close>

fun tree_items :: "('t, 's) node \<Rightarrow> 't list" where
  "tree_items (Internal _ _ _ cts) = concat (map tree_items cts)"
| "tree_items (Leaf _ is _) = is"

definition flat :: "('t, 's) item_ops \<Rightarrow> 't list \<Rightarrow> 's" where
  "flat ops is = foldl (s_add ops) (s_zero ops) (map (it_summary ops) is)"

text \<open>
  Cached sums are only promised for items that fit: \<open>fits\<close> is a bound on lists of items, closed
  under parts, below which the arithmetic of the summaries does not overflow.
\<close>

fun wf_upto :: "('t list \<Rightarrow> bool) \<Rightarrow> ('t, 's) item_ops \<Rightarrow> ('t, 's) node \<Rightarrow> bool" where
  "wf_upto fits ops (Internal h s css cts) \<longleftrightarrow>
     cts \<noteq> [] \<and> length cts \<le> 2 * TREE_BASE \<and> css = map node_summary cts
     \<and> (fits (concat (map tree_items cts)) \<longrightarrow> s = flat ops (concat (map tree_items cts)))
     \<and> list_all (\<lambda>c. wf_upto fits ops c \<and> tree_items c \<noteq> [] \<and> Suc (node_height c) = h) cts"
| "wf_upto fits ops (Leaf s is ss) \<longleftrightarrow>
     length is \<le> 2 * TREE_BASE \<and> ss = map (it_summary ops) is \<and> (fits is \<longrightarrow> s = flat ops is)"

abbreviation kids :: "('t list \<Rightarrow> bool) \<Rightarrow> ('t, 's) item_ops \<Rightarrow> nat \<Rightarrow> ('t, 's) node list \<Rightarrow> bool" where
  "kids fits ops h cts \<equiv> list_all (\<lambda>c. wf_upto fits ops c \<and> tree_items c \<noteq> [] \<and> Suc (node_height c) = h) cts"

abbreviation full :: "('t list \<Rightarrow> bool) \<Rightarrow> ('t, 's) item_ops \<Rightarrow> nat \<Rightarrow> ('t, 's) node \<Rightarrow> bool" where
  "full fits ops h t \<equiv> wf_upto fits ops t \<and> tree_items t \<noteq> [] \<and> node_height t = h"

text \<open>
  What the mutating helpers promise: the node they update and the sibling they may split
  off have the same height and together hold the given items.
\<close>

fun split_right_ok :: "('t list \<Rightarrow> bool) \<Rightarrow> ('t, 's) item_ops \<Rightarrow> nat \<Rightarrow> 't list
    \<Rightarrow> ('t, 's) node option \<times> ('t, 's) node \<Rightarrow> bool" where
  "split_right_ok fits ops h is (None, t) \<longleftrightarrow> full fits ops h t \<and> tree_items t = is"
| "split_right_ok fits ops h is (Some r, t) \<longleftrightarrow>
     full fits ops h t \<and> full fits ops h r \<and> tree_items t @ tree_items r = is"

fun split_left_ok :: "('t list \<Rightarrow> bool) \<Rightarrow> ('t, 's) item_ops \<Rightarrow> nat \<Rightarrow> 't list
    \<Rightarrow> ('t, 's) node option \<times> ('t, 's) node \<Rightarrow> bool" where
  "split_left_ok fits ops h is (None, t) \<longleftrightarrow> full fits ops h t \<and> tree_items t = is"
| "split_left_ok fits ops h is (Some l, t) \<longleftrightarrow>
     full fits ops h t \<and> full fits ops h l \<and> tree_items l @ tree_items t = is"

lemma tree_is_empty_iff: "wf_upto fits ops t \<Longrightarrow> tree_is_empty t \<longleftrightarrow> tree_items t = []"
  by (cases t) (auto simp: list_all_iff neq_Nil_conv)

lemma wf_summary: "wf_upto fits ops t \<Longrightarrow> fits (tree_items t) \<Longrightarrow> node_summary t = flat ops (tree_items t)"
  by (cases t) auto

lemma wf_height_leaf: "wf_upto fits ops t \<Longrightarrow> node_height t = 0 \<longleftrightarrow> is_leaf t"
  by (cases t) (auto simp: neq_Nil_conv)

lemma arrayvec_ok [simp]: "length xs \<le> 12 \<Longrightarrow> arrayvec xs = Some xs"
  by (simp add: arrayvec_def TREE_BASE_def)

lemma flat_Nil [simp]: "flat ops [] = s_zero ops"
  by (simp add: flat_def)

lemma wf_tree_new [simp]: "wf_upto fits ops (tree_new ops)" "tree_items (tree_new ops) = []"
  "node_height (tree_new ops) = 0"
  by (simp_all add: tree_new_def)

lemma concat_items_neq_Nil:
  "kids fits ops h cts \<Longrightarrow> cts \<noteq> [] \<Longrightarrow> concat (map tree_items cts) \<noteq> []"
  by (auto simp: neq_Nil_conv)

lemma split_bounds:
  fixes a b :: nat
  assumes "12 < a + b" "a \<le> 12" "b \<le> 12"
  shows "(a + b + (a + b) mod 2) div 2 \<le> 12" "(a + b + (a + b) mod 2) div 2 < a + b"
    "a + b - (a + b + (a + b) mod 2) div 2 \<le> 12" "0 < (a + b + (a + b) mod 2) div 2"
  using assms by linarith+

lemma ceil_bounds:
  fixes a b :: nat
  assumes "\<not> a + b \<le> 12" "a \<le> 12" "b \<le> 12"
  shows "0 < (a + b + 1) div 2" "(a + b + 1) div 2 < a + b"
    "(a + b + 1) div 2 \<le> 12" "a + b - (a + b + 1) div 2 \<le> 12"
  using assms by linarith+

section \<open>The laws of a summary\<close>

text \<open>
  The tree regroups sums and drops leading zeros; it never relies on the zero being a
  right identity, so that summaries that keep only the latest key qualify too.
\<close>

locale summary_laws =
  fixes ops :: "('t, 's) item_ops" and fits :: "'t list \<Rightarrow> bool"
  assumes fits_Nil [simp]: "fits []"
    and fits_part: "fits (xs @ ys @ zs) \<Longrightarrow> fits ys"
    and item_add: "fits [i] \<Longrightarrow> s_add ops (s_zero ops) (it_summary ops i) = it_summary ops i"
    and flat_append: "ys \<noteq> [] \<Longrightarrow> fits (xs @ ys) \<Longrightarrow> flat ops (xs @ ys) = s_add ops (flat ops xs) (flat ops ys)"
begin

lemma fits_append: "fits (xs @ ys) \<Longrightarrow> fits xs" "fits (xs @ ys) \<Longrightarrow> fits ys"
  using fits_part [of "[]" xs ys] fits_part [of xs ys "[]"] by simp_all

lemma fits_mid: "fits (xs @ ys @ zs) \<Longrightarrow> fits (xs @ ys)" "fits (xs @ ys @ zs) \<Longrightarrow> fits (ys @ zs)"
  using fits_append [of "xs @ ys" zs] fits_append [of xs "ys @ zs"] by simp_all

lemmas node_flat = wf_summary [of fits ops]

lemma flat_single: "fits [i] \<Longrightarrow> flat ops [i] = it_summary ops i"
  by (simp add: flat_def item_add)

lemma sum_items: "sum ops (map (it_summary ops) is) = flat ops is"
  by (simp add: sum_def flat_def)

lemma sum_kids: "kids fits ops h cts \<Longrightarrow> fits (concat (map tree_items cts))
    \<Longrightarrow> sum ops (map node_summary cts) = flat ops (concat (map tree_items cts))"
proof (induction cts rule: rev_induct)
  case (snoc c cts)
  then have "fits (concat (map tree_items cts) @ tree_items c)" by simp
  note f = this fits_append [OF this]
  show ?case using snoc f by (simp add: sum_def flat_append node_flat)
qed (simp add: sum_def)

lemma wf_sum_internal:
  "kids fits ops h cts \<Longrightarrow> cts \<noteq> [] \<Longrightarrow> length cts \<le> 12 \<Longrightarrow> css = map node_summary cts
   \<Longrightarrow> full fits ops h (Internal h (sum ops css) css cts)"
  using concat_items_neq_Nil by (fastforce simp: sum_kids TREE_BASE_def)

lemma wf_sum_leaf:
  "is \<noteq> [] \<Longrightarrow> length is \<le> 12 \<Longrightarrow> ss = map (it_summary ops) is \<Longrightarrow> full fits ops 0 (Leaf (sum ops ss) is ss)"
  by (simp add: sum_items TREE_BASE_def)

lemma halves_internal:
  assumes "kids fits ops h xs" "css = map node_summary xs" "0 < m" "m < length xs" "m \<le> 12" "length xs - m \<le> 12"
  shows "full fits ops h (Internal h (sum ops (take m css)) (take m css) (take m xs))"
    and "full fits ops h (Internal h (sum ops (drop m css)) (drop m css) (drop m xs))"
    and "concat (map tree_items (take m xs)) @ concat (map tree_items (drop m xs)) = concat (map tree_items xs)"
proof -
  have ks: "kids fits ops h (take m xs)" "kids fits ops h (drop m xs)"
    using assms(1) by (auto simp: list_all_iff dest: in_set_takeD in_set_dropD)
  show "full fits ops h (Internal h (sum ops (take m css)) (take m css) (take m xs))"
    using assms(2-6) by (intro wf_sum_internal [OF ks(1)]) (auto simp: take_map)
  show "full fits ops h (Internal h (sum ops (drop m css)) (drop m css) (drop m xs))"
    using assms(2-6) by (intro wf_sum_internal [OF ks(2)]) (auto simp: drop_map)
qed (metis append_take_drop_id concat_append map_append)

lemma halves_leaf:
  assumes "ss = map (it_summary ops) xs" "0 < m" "m < length xs" "m \<le> 12" "length xs - m \<le> 12"
  shows "full fits ops 0 (Leaf (sum ops (take m ss)) (take m xs) (take m ss))"
    and "full fits ops 0 (Leaf (sum ops (drop m ss)) (drop m xs) (drop m ss))"
  using assms by (intro wf_sum_leaf; auto simp: take_map drop_map)+

lemma append_children_ok:
  assumes "kids fits ops h (cts @ ts)" "length cts \<le> 12" "length ts \<le> 12" "cts \<noteq> []"
    and "css = map node_summary cts" "ss = map node_summary ts"
    and "fits (concat (map tree_items (cts @ ts))) \<longrightarrow> s = flat ops (concat (map tree_items (cts @ ts)))"
  shows "\<exists>r. append_children ops h s css cts ss ts = Some r
    \<and> split_right_ok fits ops h (concat (map tree_items (cts @ ts))) r"
proof (cases "length cts + length ts > 12")
  case True
  define m where "m = (length cts + length ts + (length cts + length ts) mod 2) div 2"
  have m: "m \<le> 12" "m < length (cts @ ts)" "length (cts @ ts) - m \<le> 12" "0 < m"
    using split_bounds [OF True] assms(2,3) by (simp_all add: m_def)
  have "css @ ss = map node_summary (cts @ ts)" using assms(5,6) by simp
  from halves_internal [OF assms(1) this m(4,2,1,3)] show ?thesis
    using True m assms(5,6)
    by (simp add: append_children_def TREE_BASE_def Let_def m_def [symmetric]
        del: wf_upto.simps take_append drop_append map_append)
next
  case False
  then show ?thesis
    using assms concat_items_neq_Nil [OF assms(1)]
    by (simp add: append_children_def TREE_BASE_def)
qed

end

section \<open>Correctness of appending\<close>

lemma kids_last:
  assumes "list_all (\<lambda>c. P c \<and> tree_items c \<noteq> [] \<and> Suc (node_height c) = h) cts" "cts \<noteq> []"
  shows "list_all (\<lambda>c. P c \<and> tree_items c \<noteq> [] \<and> Suc (node_height c) = h) (butlast cts)"
    "P (last cts)" "tree_items (last cts) \<noteq> []" "Suc (node_height (last cts)) = h"
    "concat (map tree_items (butlast cts)) @ tree_items (last cts) = concat (map tree_items cts)"
proof -
  obtain xs x where "cts = xs @ [x]" using assms(2) by (metis rev_exhaust)
  then show "list_all (\<lambda>c. P c \<and> tree_items c \<noteq> [] \<and> Suc (node_height c) = h) (butlast cts)"
    "P (last cts)" "tree_items (last cts) \<noteq> []" "Suc (node_height (last cts)) = h"
    "concat (map tree_items (butlast cts)) @ tree_items (last cts) = concat (map tree_items cts)"
    using assms by simp_all
qed

lemma wf_length_kids: "wf_upto fits ops (Internal h s css cts) \<Longrightarrow> length cts \<le> 12"
  by (simp add: TREE_BASE_def)

context summary_laws
begin

lemma push_leaf_ok:
  assumes "wf_upto fits ops (Leaf s is ss)" "full fits ops 0 other"
  shows "\<exists>r. push_tree_recursive ops (Leaf s is ss) other = Some r
    \<and> split_right_ok fits ops 0 (is @ tree_items other) r"
proof -
  obtain s' is' ss' where o: "other = Leaf s' is' ss'"
    using assms(2) wf_height_leaf by (cases other) fastforce+
  show ?thesis
  proof (cases "length is + length is' > 12")
    case True
    define m where "m = (length is + length is' + (length is + length is') mod 2) div 2"
    have m: "m \<le> 12" "m < length (is @ is')" "length (is @ is') - m \<le> 12" "0 < m"
      using split_bounds [OF True] assms o by (simp_all add: m_def TREE_BASE_def)
    have "ss @ ss' = map (it_summary ops) (is @ is')" using assms o by simp
    from halves_leaf [OF this m(4,2,1,3)] show ?thesis
      using True m assms o
      by (simp add: TREE_BASE_def Let_def m_def [symmetric]
          del: take_append drop_append map_append add: map_append [symmetric] take_map drop_map sum_items)
  next
    case False
    then show ?thesis using assms o fits_append [of "is" is'] by (simp add: TREE_BASE_def flat_append)
  qed
qed

lemma push_internal_ok:
  assumes wf: "wf_upto fits ops (Internal h s css cts)" and other: "wf_upto fits ops other" "tree_items other \<noteq> []"
    and h: "node_height other \<le> h"
    and IH: "node_height other < h \<Longrightarrow> \<exists>r. push_tree_recursive ops (last cts) other = Some r
      \<and> split_right_ok fits ops (node_height (last cts)) (tree_items (last cts) @ tree_items other) r"
  shows "\<exists>r. push_tree_recursive ops (Internal h s css cts) other = Some r
    \<and> split_right_ok fits ops h (concat (map tree_items cts) @ tree_items other) r"
proof -
  let ?s = "s_add ops s (node_summary other)"
  have ks: "kids fits ops h cts" "cts \<noteq> []" "css = map node_summary cts" "length cts \<le> 12"
    using wf by (simp_all add: TREE_BASE_def)
  have s: "fits (concat (map tree_items cts) @ tree_items other) \<longrightarrow> ?s = flat ops (concat (map tree_items cts) @ tree_items other)"
    using wf other fits_append [of "concat (map tree_items cts)" "tree_items other"] by (simp add: flat_append node_flat)
  note lst = kids_last [OF ks(1,2)]
  consider (same) "node_height other = h" | (child) "Suc (node_height other) = h" "\<not> is_underflowing other"
    | (deep) "node_height other < h" "\<not> (h - node_height other = 1 \<and> \<not> is_underflowing other)"
    using h by linarith
  then show ?thesis
  proof cases
    case same
    then obtain s' css' cts' where o: "other = Internal h s' css' cts'"
      using lst by (cases other) auto
    then show ?thesis
      using append_children_ok [of h cts cts' css css' ?s] ks other s
      by (simp add: TREE_BASE_def)
  next
    case child
    have "kids fits ops h (cts @ [other])" using ks other child by simp
    then show ?thesis
      using append_children_ok [of h cts "[other]" css "[node_summary other]" ?s] ks s child
      by (simp add: checked_sub_def Suc_diff_le split: if_splits) auto
  next
    case deep
    from IH [OF this(1)] obtain sp l where
      r: "push_tree_recursive ops (last cts) other = Some (sp, l)"
      "split_right_ok fits ops (node_height (last cts)) (tree_items (last cts) @ tree_items other) (sp, l)"
      by (metis surj_pair)
    let ?ts = "case sp of None \<Rightarrow> [] | Some t \<Rightarrow> [t]"
    let ?cts = "butlast cts @ [l]"
    have l: "kids fits ops h (?cts @ ?ts)"
      using r(2) lst by (cases sp) auto
    have it: "concat (map tree_items (?cts @ ?ts)) = concat (map tree_items cts) @ tree_items other"
      using r(2) by (cases sp) (simp_all add: lst(5) [symmetric])
    have "\<exists>r. append_children ops h ?s (butlast css @ [node_summary l]) ?cts (map node_summary ?ts) ?ts = Some r
        \<and> split_right_ok fits ops h (concat (map tree_items (?cts @ ?ts))) r"
      by (rule append_children_ok [OF l]) (use ks s it in \<open>auto simp: map_butlast split: option.split\<close>)
    then show ?thesis
      using deep ks r(1) unfolding it by (cases sp) (simp_all add: Let_def, blast+)
  qed
qed

lemma push_tree_recursive_ok:
  "wf_upto fits ops self \<Longrightarrow> tree_items self \<noteq> [] \<Longrightarrow> wf_upto fits ops other \<Longrightarrow> tree_items other \<noteq> []
   \<Longrightarrow> node_height other \<le> node_height self
   \<Longrightarrow> \<exists>r. push_tree_recursive ops self other = Some r
     \<and> split_right_ok fits ops (node_height self) (tree_items self @ tree_items other) r"
proof (induction self)
  case (Internal h s css cts)
  then have ks: "kids fits ops h cts" "cts \<noteq> []" by simp_all
  show ?case
    using push_internal_ok [OF Internal.prems(1,3,4)] Internal kids_last [OF ks] ks
    by (simp del: push_tree_recursive.simps wf_upto.simps)
next
  case (Leaf s "is" ss)
  then show ?case using push_leaf_ok by simp
qed

end

context summary_laws
begin

lemma merge_into_right_ok:
  assumes "full fits ops h small" "full fits ops h large"
  shows "\<exists>r. merge_into_right ops small large = Some r
    \<and> split_left_ok fits ops h (tree_items small @ tree_items large) r"
proof (cases small)
  case (Internal h1 s1 css1 cts1)
  with assms obtain s2 css2 cts2 where l: "large = Internal h s2 css2 cts2" and h1: "h1 = h"
    by (cases large) (auto simp: neq_Nil_conv)
  have ks: "kids fits ops h (cts1 @ cts2)" "css1 @ css2 = map node_summary (cts1 @ cts2)"
    using assms Internal l h1 by auto
  show ?thesis
  proof (cases "length cts2 + length cts1 \<le> 12")
    case True
    then show ?thesis
      using assms Internal l h1 fits_append [of "concat (map tree_items cts1)" "concat (map tree_items cts2)"]
      by (simp add: TREE_BASE_def Let_def flat_append)
  next
    case False
    define m where "m = Suc (length cts2 + length cts1) div 2"
    have m: "0 < m" "m < length (cts1 @ cts2)" "m \<le> 12" "length (cts1 @ cts2) - m \<le> 12"
      using ceil_bounds [OF False] assms Internal l by (simp_all add: m_def TREE_BASE_def add.commute)
    from halves_internal [OF ks m] show ?thesis
      using False m ks Internal l h1
      by (simp add: TREE_BASE_def Let_def m_def [symmetric] map_append [of tree_items]
          del: wf_upto.simps take_append drop_append map_append)
  qed
next
  case (Leaf s1 is1 ss1)
  with assms obtain s2 is2 ss2 where l: "large = Leaf s2 is2 ss2" and h: "h = 0"
    by (cases large) (auto simp: neq_Nil_conv)
  have ss: "ss1 @ ss2 = map (it_summary ops) (is1 @ is2)"
    using assms Leaf l by simp_all
  show ?thesis
  proof (cases "length is1 + length is2 \<le> 12")
    case True
    then show ?thesis using assms Leaf l fits_append [of is1 is2]
      by (simp add: TREE_BASE_def Let_def flat_append)
  next
    case False
    define m where "m = Suc (length is1 + length is2) div 2"
    have m: "0 < m" "m < length (is1 @ is2)" "m \<le> 12" "length (is1 @ is2) - m \<le> 12"
      using ceil_bounds [OF False] assms Leaf l by (simp_all add: m_def TREE_BASE_def)
    from halves_leaf [OF ss m] show ?thesis
      using False m ss Leaf l h
      by (simp add: TREE_BASE_def Let_def m_def [symmetric] del: wf_upto.simps take_append drop_append map_append)
  qed
qed

lemma append_large_ok:
  "full fits ops h small \<Longrightarrow> wf_upto fits ops large \<Longrightarrow> tree_items large \<noteq> [] \<Longrightarrow> h \<le> node_height large
   \<Longrightarrow> \<exists>r. append_large ops small large = Some r
     \<and> split_left_ok fits ops (node_height large) (tree_items small @ tree_items large) r"
proof (induction large)
  case (Internal k s css cts)
  show ?case
  proof (cases "h = k")
    case True
    then show ?thesis using Internal.prems merge_into_right_ok [of small h "Internal k s css cts"]
      by (simp del: wf_upto.simps)
  next
    case False
    have ks: "kids fits ops k cts" "cts \<noteq> []" "css = map node_summary cts" "length cts \<le> 12"
      using Internal.prems by (simp_all add: TREE_BASE_def)
    then obtain c cs where cts: "cts = c # cs" by (cases cts) auto
    obtain res t where r: "append_large ops small c = Some (res, t)"
      "split_left_ok fits ops (node_height c) (tree_items small @ tree_items c) (res, t)"
      using Internal.IH [of c] Internal.prems ks False cts by fastforce
    have s: "fits (tree_items small @ concat (map tree_items cts)) \<longrightarrow>
        s_add ops (node_summary small) s = flat ops (tree_items small @ concat (map tree_items cts))"
      using Internal.prems ks concat_items_neq_Nil [of fits ops k cts] wf_summary [of fits ops small]
        fits_append [of "tree_items small" "concat (map tree_items cts)"]
      by (simp add: flat_append)
    show ?thesis
    proof (cases res)
      case None
      then show ?thesis using r ks s False Internal.prems by (simp add: cts TREE_BASE_def)
    next
      case (Some u)
      then have u: "kids fits ops k (u # t # cs)"
        "tree_items u @ tree_items t @ xs = tree_items small @ tree_items c @ xs" for xs
        using r ks cts by auto
      show ?thesis
      proof (cases "length cts < 12")
        case True
        then show ?thesis using Some r ks s u(1) False Internal.prems by (simp add: cts TREE_BASE_def u(2))
      next
        case 12: False
        then have len: "length cs = 11" using ks cts by simp
        note halves = halves_internal [OF u(1) refl, of 7]
        show ?thesis using halves Some r ks u(1) 12 len False Internal.prems
          by (simp add: cts TREE_BASE_def u(2) take_map drop_map Let_def)
      qed
    qed
  qed
next
  case (Leaf s "is" ss)
  then show ?case using merge_into_right_ok [of small h "Leaf s is ss"] by simp
qed

end

lemma tree_items_from_child_trees [simp]:
  "tree_items (from_child_trees ops l r) = tree_items l @ tree_items r"
  "node_height (from_child_trees ops l r) = Suc (node_height l)"
  by (simp_all add: from_child_trees_def Let_def)

context summary_laws
begin

lemma wf_from_child_trees: "full fits ops h l \<Longrightarrow> full fits ops h r \<Longrightarrow> wf_upto fits ops (from_child_trees ops l r)"
  using wf_sum_internal [of "Suc h" "[l, r]"] by (simp add: from_child_trees_def Let_def)

lemma tree_append_ok:
  assumes "wf_upto fits ops a" "wf_upto fits ops b"
  shows "\<exists>t. tree_append ops a b = Some t \<and> wf_upto fits ops t \<and> tree_items t = tree_items a @ tree_items b
    \<and> node_height t \<le> Suc (max (node_height a) (node_height b))"
proof -
  consider (a) "tree_items a = []" | (b) "tree_items a \<noteq> []" "tree_items b = []"
    | (large) "tree_items a \<noteq> []" "tree_items b \<noteq> []" "node_height a < node_height b"
    | (push) "tree_items a \<noteq> []" "tree_items b \<noteq> []" "node_height b \<le> node_height a"
    by linarith
  then show ?thesis
  proof cases
    case a
    then show ?thesis using assms by (simp add: tree_append_def tree_is_empty_iff)
  next
    case b
    then have "is_leaf b \<and> items_of b = []" using assms(2) tree_is_empty_iff [OF assms(2)] by (cases b) auto
    then show ?thesis using b assms by (simp add: tree_append_def tree_is_empty_iff)
  next
    case large
    then have b: "\<not> is_leaf b" using wf_height_leaf [OF assms(2)] by auto
    from large append_large_ok [of a "node_height a" b] assms obtain res t where
      "append_large ops a b = Some (res, t)"
      "split_left_ok fits ops (node_height b) (tree_items a @ tree_items b) (res, t)" by fastforce
    then show ?thesis
      using large assms b wf_from_child_trees [of _ "node_height b" t]
      by (cases res) (auto simp: tree_append_def tree_is_empty_iff)
  next
    case push
    then have b: "\<not> (is_leaf b \<and> items_of b = [])" by (cases b) auto
    from push push_tree_recursive_ok [of a b] assms obtain sp t where
      "push_tree_recursive ops a b = Some (sp, t)"
      "split_right_ok fits ops (node_height a) (tree_items a @ tree_items b) (sp, t)" by fastforce
    then show ?thesis
      using push assms b wf_from_child_trees [of t "node_height a"]
      by (cases sp) (auto simp: tree_append_def tree_is_empty_iff simp del: wf_upto.simps)
  qed
qed

lemma tree_push_ok:
  assumes "wf_upto fits ops a"
  shows "\<exists>t. tree_push ops a i = Some t \<and> wf_upto fits ops t \<and> tree_items t = tree_items a @ [i]
    \<and> node_height t \<le> Suc (node_height a)"
  using tree_append_ok [OF assms, of "Leaf (it_summary ops i) [i] [it_summary ops i]"]
  by (simp add: tree_push_def Let_def TREE_BASE_def flat_single)

end

section \<open>Correctness of bulk construction\<close>

lemma length_leaves_loop:
  "length (leaves_loop ops nodes is) = length nodes + (length is + 11) div 12"
proof (induction ops nodes "is" rule: leaves_loop.induct)
  case (2 ops nodes i "is")
  then show ?case by (cases "length is \<le> 11") (simp_all add: TREE_BASE_def le_div_geq)
qed simp

lemma leaves_loop_items:
  "concat (map tree_items (leaves_loop ops nodes is)) = concat (map tree_items nodes) @ is"
  by (induction ops nodes "is" rule: leaves_loop.induct)
    (simp_all add: leaf_of_def Let_def del: take_Suc_Cons drop_Suc_Cons)

context summary_laws
begin

lemma full_leaf_of: "is \<noteq> [] \<Longrightarrow> length is \<le> 12 \<Longrightarrow> full fits ops 0 (leaf_of ops is)"
proof (cases "is")
  case (Cons i js)
  assume "length is \<le> 12"
  then show ?thesis using Cons fits_append(1) [of "[i]" js] by (simp add: leaf_of_def flat_def item_add TREE_BASE_def)
qed simp

lemma leaves_loop_ok: "kids fits ops 1 nodes \<Longrightarrow> kids fits ops 1 (leaves_loop ops nodes is)"
proof (induction "is" arbitrary: nodes rule: length_induct)
  case (1 "is")
  show ?case
  proof (cases "is")
    case (Cons i js)
    then have "full fits ops 0 (leaf_of ops (take (2 * TREE_BASE) is))"
      by (intro full_leaf_of) (simp_all add: TREE_BASE_def)
    then show ?thesis
      using 1 Cons by (simp add: TREE_BASE_def)
  qed (use 1 in simp)
qed

end

text \<open>
  A parent under construction: the invariant of an inner node that still has room.
\<close>

fun parent_ok :: "('t list \<Rightarrow> bool) \<Rightarrow> ('t, 's) item_ops \<Rightarrow> nat \<Rightarrow> ('t, 's) node option \<Rightarrow> bool" where
  "parent_ok fits ops h None = True"
| "parent_ok fits ops h (Some p) \<longleftrightarrow> full fits ops h p \<and> \<not> is_leaf p \<and> length (child_trees_of p) < 12"

definition parent_kids :: "('t, 's) node option \<Rightarrow> ('t, 's) node list" where
  "parent_kids current = (case current of None \<Rightarrow> [] | Some p \<Rightarrow> child_trees_of p)"

context summary_laws
begin

lemma add_child_new:
  assumes "wf_upto fits ops c" "tree_items c \<noteq> []" "Suc (node_height c) = h"
  shows "add_child ops (Internal h (s_zero ops) [] []) c
      = Some (Internal h (s_add ops (s_zero ops) (node_summary c)) [node_summary c] [c])
    \<and> full fits ops h (Internal h (s_add ops (s_zero ops) (node_summary c)) [node_summary c] [c])"
  using assms flat_append [of "tree_items c" "[]"] by (simp add: node_flat TREE_BASE_def)

lemma add_child_more:
  assumes "parent_ok fits ops h (Some p)" "wf_upto fits ops c" "tree_items c \<noteq> []" "Suc (node_height c) = h"
  shows "\<exists>p'. add_child ops p c = Some p' \<and> full fits ops h p' \<and> \<not> is_leaf p'
    \<and> child_trees_of p' = child_trees_of p @ [c] \<and> tree_items p' = tree_items p @ tree_items c"
  using assms fits_append [of "tree_items p" "tree_items c"] by (cases p) (simp_all add: flat_append node_flat TREE_BASE_def)

lemma add_child_ok:
  assumes "parent_ok fits ops h cur" "wf_upto fits ops c" "tree_items c \<noteq> []" "Suc (node_height c) = h"
  shows "\<exists>p'. add_child ops (case cur of Some p \<Rightarrow> p | None \<Rightarrow> Internal h (s_zero ops) [] []) c = Some p'
    \<and> full fits ops h p' \<and> \<not> is_leaf p' \<and> child_trees_of p' = parent_kids cur @ [c]
    \<and> tree_items p' = (case cur of None \<Rightarrow> [] | Some p \<Rightarrow> tree_items p) @ tree_items c"
proof (cases cur)
  case None
  then show ?thesis
    using add_child_new [OF assms(2-4)] by (simp add: parent_kids_def del: wf_upto.simps add_child.simps)
next
  case (Some p)
  then show ?thesis using add_child_more [of h p c] assms by (simp add: parent_kids_def)
qed

lemma parents_loop_ok:
  assumes "parent_ok fits ops h cur" "list_all (full fits ops h) ps" "kids fits ops h cs"
  shows "\<exists>qs. parents_loop ops h cur ps cs = Some qs \<and> list_all (full fits ops h) qs
    \<and> concat (map tree_items qs)
        = concat (map tree_items ps) @ (case cur of None \<Rightarrow> [] | Some p \<Rightarrow> tree_items p)
          @ concat (map tree_items cs)
    \<and> length qs = length ps + (length (parent_kids cur) + length cs + 11) div 12"
  using assms
proof (induction cs arbitrary: cur ps)
  case Nil
  then show ?case
  proof (cases cur)
    case (Some p)
    with Nil have "0 < length (child_trees_of p)" by (cases p) auto
    moreover have "length (child_trees_of p) < 12" using Nil Some by simp
    ultimately have "(length (child_trees_of p) + 11) div 12 = 1" by linarith
    then show ?thesis using Nil Some by (auto simp: parent_kids_def)
  qed (simp add: parent_kids_def)
next
  case (Cons c cs)
  from Cons.prems add_child_ok [of h cur c] obtain p where p:
    "add_child ops (case cur of Some p \<Rightarrow> p | None \<Rightarrow> Internal h (s_zero ops) [] []) c = Some p"
    "full fits ops h p" "\<not> is_leaf p" "child_trees_of p = parent_kids cur @ [c]"
    "tree_items p = (case cur of None \<Rightarrow> [] | Some p \<Rightarrow> tree_items p) @ tree_items c"
    by auto
  have room: "length (parent_kids cur) < 12"
    using Cons.prems(1) by (cases cur) (auto simp: parent_kids_def)
  show ?case
  proof (cases "length (child_trees_of p) = 12")
    case True
    have "parents_loop ops h cur ps (c # cs) = parents_loop ops h None (ps @ [p]) cs"
      using p(1) True by (simp add: TREE_BASE_def)
    then show ?thesis using Cons.IH [of None "ps @ [p]"] Cons.prems p True
      by (auto simp: parent_kids_def)
  next
    case False
    have "parents_loop ops h cur ps (c # cs) = parents_loop ops h (Some p) ps cs"
      using p(1) False by (simp add: TREE_BASE_def)
    then show ?thesis using Cons.IH [of "Some p" ps] Cons.prems p False room
      by (auto simp: parent_kids_def)
  qed
qed

lemma levels_loop_ok:
  "list_all (full fits ops h) nodes \<Longrightarrow> length nodes \<le> 12 ^ k \<Longrightarrow>
   \<exists>qs h'. levels_loop ops h nodes = Some qs \<and> length qs \<le> 1 \<and> list_all (full fits ops h') qs
     \<and> h' \<le> h + k \<and> concat (map tree_items qs) = concat (map tree_items nodes)"
proof (induction k arbitrary: h nodes)
  case 0
  then show ?case by (subst levels_loop.simps) auto
next
  case (Suc k)
  show ?case
  proof (cases "length nodes \<le> 1")
    case True
    then show ?thesis using Suc.prems by (subst levels_loop.simps) (auto intro!: exI [of _ h])
  next
    case False
    have "kids fits ops (h + 1) nodes" using Suc.prems(1) by (simp add: list_all_iff)
    from parents_loop_ok [OF _ _ this, of None "[]"] obtain qs where q:
      "parents_loop ops (h + 1) None [] nodes = Some qs" "list_all (full fits ops (h + 1)) qs"
      "concat (map tree_items qs) = concat (map tree_items nodes)"
      "length qs = (length nodes + 11) div 12"
      by (auto simp: parent_kids_def)
    have "length qs \<le> 12 ^ k" using q(4) Suc.prems(2) by simp
    from Suc.IH [OF q(2) this] obtain rs h' where
      "levels_loop ops (h + 1) qs = Some rs" "length rs \<le> 1" "list_all (full fits ops h') rs"
      "h' \<le> h + 1 + k" "concat (map tree_items rs) = concat (map tree_items qs)" by blast
    then show ?thesis
      using False q by (intro exI [of _ rs] exI [of _ h'], subst levels_loop.simps) simp
  qed
qed

lemma tree_from_iter_ok:
  assumes "length is \<le> 12 ^ Suc k"
  shows "\<exists>t. tree_from_iter ops is = Some t \<and> wf_upto fits ops t \<and> tree_items t = is \<and> node_height t \<le> k"
proof -
  have "kids fits ops 1 (leaves_loop ops [] is)" by (rule leaves_loop_ok) simp
  then have l: "list_all (full fits ops 0) (leaves_loop ops [] is)" by (simp add: list_all_iff)
  have "length (leaves_loop ops [] is) \<le> 12 ^ k" using assms by (simp add: length_leaves_loop)
  from levels_loop_ok [OF l this] obtain qs h' where q:
    "levels_loop ops 0 (leaves_loop ops [] is) = Some qs" "length qs \<le> 1"
    "list_all (full fits ops h') qs" "h' \<le> k" "concat (map tree_items qs) = is"
    by (auto simp: leaves_loop_items)
  then show ?thesis
    by (cases qs) (auto simp: tree_from_iter_def)
qed

lemma tree_from_iter_total:
  "\<exists>t. tree_from_iter ops is = Some t \<and> wf_upto fits ops t \<and> tree_items t = is"
proof -
  have "length is < 12 ^ length is" by (rule power_gt_expt) simp
  then have "length is \<le> 12 ^ Suc (length is)" by simp
  from tree_from_iter_ok [OF this] show ?thesis by blast
qed

lemma tree_extend_ok:
  assumes "wf_upto fits ops a"
  shows "\<exists>t. tree_extend ops a is = Some t \<and> wf_upto fits ops t \<and> tree_items t = tree_items a @ is"
  using tree_from_iter_total [of "is"] tree_append_ok [OF assms] unfolding tree_extend_def by fastforce

end


section \<open>Trees whose items fit\<close>

text \<open>
  The invariant the queries rely on: all cached sums are right. For summaries that cannot
  overflow every list fits.
\<close>

fun wf_in :: "('t list \<Rightarrow> bool) \<Rightarrow> ('t, 's) item_ops \<Rightarrow> ('t, 's) node \<Rightarrow> bool" where
  "wf_in fits ops (Internal h s css cts) \<longleftrightarrow>
     fits (concat (map tree_items cts)) \<and> cts \<noteq> [] \<and> length cts \<le> 2 * TREE_BASE \<and> css = map node_summary cts
     \<and> s = flat ops (concat (map tree_items cts))
     \<and> list_all (\<lambda>c. wf_in fits ops c \<and> tree_items c \<noteq> [] \<and> Suc (node_height c) = h) cts"
| "wf_in fits ops (Leaf s is ss) \<longleftrightarrow>
     fits is \<and> length is \<le> 2 * TREE_BASE \<and> ss = map (it_summary ops) is \<and> s = flat ops is"

abbreviation kids_in :: "('t list \<Rightarrow> bool) \<Rightarrow> ('t, 's) item_ops \<Rightarrow> nat \<Rightarrow> ('t, 's) node list \<Rightarrow> bool" where
  "kids_in fits ops h cts \<equiv> list_all (\<lambda>c. wf_in fits ops c \<and> tree_items c \<noteq> [] \<and> Suc (node_height c) = h) cts"

abbreviation full_in :: "('t list \<Rightarrow> bool) \<Rightarrow> ('t, 's) item_ops \<Rightarrow> nat \<Rightarrow> ('t, 's) node \<Rightarrow> bool" where
  "full_in fits ops h t \<equiv> wf_in fits ops t \<and> tree_items t \<noteq> [] \<and> node_height t = h"

abbreviation wf :: "('t, 's) item_ops \<Rightarrow> ('t, 's) node \<Rightarrow> bool" where
  "wf ops \<equiv> wf_in (\<lambda>_. True) ops"

lemma wf_in_summary: "wf_in fits ops t \<Longrightarrow> node_summary t = flat ops (tree_items t)"
  by (cases t) auto

lemma wf_in_fits: "wf_in fits ops t \<Longrightarrow> fits (tree_items t)"
  by (cases t) auto

lemma wf_in_upto: "wf_in fits ops t \<Longrightarrow> wf_upto fits ops t"
  by (induction t) (auto simp: list_all_iff)

lemma wf_upto_True [simp]: "wf_upto (\<lambda>_. True) ops t = wf ops t"
  by (induction t) (auto simp: list_all_iff)

lemma wf_in_height_leaf: "wf_in fits ops t \<Longrightarrow> node_height t = 0 \<longleftrightarrow> is_leaf t"
  by (rule wf_height_leaf [OF wf_in_upto])

lemma wf_in_is_empty: "wf_in fits ops t \<Longrightarrow> tree_is_empty t \<longleftrightarrow> tree_items t = []"
  by (rule tree_is_empty_iff [OF wf_in_upto])

text \<open>Summaries that never overflow are a monoid without a right identity; every list fits.\<close>

locale summary_monoid =
  fixes ops :: "('t, 's) item_ops"
  assumes zero_add: "s_add ops (s_zero ops) s = s"
    and add_assoc: "s_add ops (s_add ops a b) c = s_add ops a (s_add ops b c)"
begin

lemma foldl_add: "xs \<noteq> [] \<Longrightarrow> foldl (s_add ops) a xs = s_add ops a (foldl (s_add ops) (s_zero ops) xs)"
proof (induction xs arbitrary: a)
  case (Cons x xs)
  show ?case
  proof (cases "xs = []")
    case False
    then show ?thesis using Cons.IH [of "s_add ops a x"] Cons.IH [of x] by (simp add: zero_add add_assoc)
  qed (simp add: zero_add)
qed simp

end

sublocale summary_monoid \<subseteq> summary_laws ops "\<lambda>_. True"
  rewrites "wf_upto (\<lambda>_. True) ops = wf ops"
proof -
  show "summary_laws ops (\<lambda>_. True)"
  proof
    show "ys \<noteq> [] \<Longrightarrow> flat ops (xs @ ys) = s_add ops (flat ops xs) (flat ops ys)" for xs ys
      unfolding flat_def map_append foldl_append by (rule foldl_add) simp
  qed (simp_all add: zero_add)
qed (simp add: fun_eq_iff)

context summary_laws
begin

lemma wf_in_iff: "wf_in fits ops t \<longleftrightarrow> wf_upto fits ops t \<and> fits (tree_items t)"
proof (induction t)
  case (Internal h s css cts)
  have "fits (tree_items c)" if "fits (concat (map tree_items cts))" "c \<in> set cts" for c
  proof -
    obtain us vs where "cts = us @ c # vs" using \<open>c \<in> set cts\<close> by (meson split_list)
    then show ?thesis using \<open>fits (concat (map tree_items cts))\<close> fits_part [of "concat (map tree_items us)"] by simp
  qed
  then show ?case using Internal by (auto simp: list_all_iff)
qed auto

lemma wf_in_tree_new [simp]: "wf_in fits ops (tree_new ops)"
  by (simp add: tree_new_def)

lemma fits_kids: "fits (concat (map tree_items cts)) \<Longrightarrow> kids fits ops h cts \<Longrightarrow> kids_in fits ops h cts"
proof (induction cts)
  case (Cons c cts)
  then show ?case using fits_append [of "tree_items c" "concat (map tree_items cts)"] by (simp add: wf_in_iff)
qed simp

end

end
