(* ===== verification/Seek.thy ===== *)
theory Seek
  imports SumTree
begin

text \<open>
  Searching and updating a summarising tree (\<open>find\<close>, \<open>find_exact\<close>, \<open>find_with_prev\<close>,
  \<open>first\<close>, \<open>last\<close>, \<open>update_first\<close>, \<open>update_last\<close>, \<open>extent\<close> of \<open>sum_tree.rs\<close>) and the
  list-level specification of a seek that the cursor shares: how many items a target
  passes, given the dimension accumulated so far. A seek target is the function
  \<open>target.cmp\<close> from a cursor location to an ordering.
\<close>

section \<open>Searching\<close>

definition goes_past :: "ordering \<Rightarrow> bias \<Rightarrow> bool" where
  "goes_past c bias \<longleftrightarrow> c = Greater \<or> (c = Equal \<and> bias = Right)"

definition target_in :: "ordering \<Rightarrow> bias \<Rightarrow> bool" where
  "target_in c bias \<longleftrightarrow> c = Less \<or> (c = Equal \<and> bias = Left)"

definition entry_found :: "bool \<Rightarrow> ordering \<Rightarrow> bias \<Rightarrow> bool" where
  "entry_found exact c bias = (if exact then c = Equal else target_in c bias)"

fun find_items :: "('s, 'd) dim_ops \<Rightarrow> ('d \<Rightarrow> ordering) \<Rightarrow> bias \<Rightarrow> bool \<Rightarrow> 'd \<Rightarrow> 't list \<Rightarrow> 's list
    \<Rightarrow> ('t \<times> 'd) option \<times> 'd" where
  "find_items dim target bias exact pos (i # is) (s # ss) =
     (let child_end = d_add dim pos s
      in if entry_found exact (target child_end) bias then (Some (i, child_end), pos)
         else find_items dim target bias exact child_end is ss)"
| "find_items dim target bias exact pos _ _ = (None, pos)"

fun find_iterate :: "('s, 'd) dim_ops \<Rightarrow> ('d \<Rightarrow> ordering) \<Rightarrow> bias \<Rightarrow> bool \<Rightarrow> 'd \<Rightarrow> ('t, 's) node
      \<Rightarrow> ('t \<times> 'd) option \<times> 'd"
  and find_children :: "('s, 'd) dim_ops \<Rightarrow> ('d \<Rightarrow> ordering) \<Rightarrow> bias \<Rightarrow> bool \<Rightarrow> 'd \<Rightarrow> ('t, 's) node list
      \<Rightarrow> 's list \<Rightarrow> ('t \<times> 'd) option \<times> 'd" where
  "find_iterate dim target bias exact pos (Internal h s css cts) =
     find_children dim target bias exact pos cts css"
| "find_iterate dim target bias exact pos (Leaf s is ss) = find_items dim target bias exact pos is ss"
| "find_children dim target bias exact pos (c # cts) (s # css) =
     (let child_end = d_add dim pos s
      in if target_in (target child_end) bias then find_iterate dim target bias exact pos c
         else find_children dim target bias exact child_end cts css)"
| "find_children dim target bias exact pos _ _ = (None, pos)"

definition tree_find_with :: "bool \<Rightarrow> ('s, 'd) dim_ops \<Rightarrow> ('d \<Rightarrow> ordering) \<Rightarrow> bias \<Rightarrow> ('t, 's) node
    \<Rightarrow> 'd \<times> 'd \<times> 't option" where
  "tree_find_with exact dim target bias self =
     (let tree_end = d_add dim (d_zero dim) (node_summary self)
      in if goes_past (target tree_end) bias then (tree_end, tree_end, None)
         else case find_iterate dim target bias exact (d_zero dim) self of
             (Some (i, e), pos) \<Rightarrow> (pos, e, Some i)
           | (None, pos) \<Rightarrow> (pos, pos, None))"

definition find_exact :: "('s, 'd) dim_ops \<Rightarrow> ('d \<Rightarrow> ordering) \<Rightarrow> bias \<Rightarrow> ('t, 's) node
    \<Rightarrow> 'd \<times> 'd \<times> 't option" where
  "find_exact dim target bias self = tree_find_with True dim target bias self"

definition tree_find :: "('s, 'd) dim_ops \<Rightarrow> ('d \<Rightarrow> ordering) \<Rightarrow> bias \<Rightarrow> ('t, 's) node
    \<Rightarrow> 'd \<times> 'd \<times> 't option" where
  "tree_find dim target bias self = tree_find_with False dim target bias self"

section \<open>The ends of a tree\<close>

fun leftmost_leaf :: "('t, 's) node \<Rightarrow> ('t, 's) node rust" where
  "leftmost_leaf (Leaf s is ss) = Some (Leaf s is ss)"
| "leftmost_leaf (Internal h s css cts) = (if cts = [] then None else leftmost_leaf (hd cts))"

fun rightmost_leaf :: "('t, 's) node \<Rightarrow> ('t, 's) node rust" where
  "rightmost_leaf (Leaf s is ss) = Some (Leaf s is ss)"
| "rightmost_leaf (Internal h s css cts) = (if cts = [] then None else rightmost_leaf (last cts))"

definition tree_first :: "('t, 's) node \<Rightarrow> 't option rust" where
  "tree_first self = do { l \<leftarrow> leftmost_leaf self; is \<leftarrow> node_items l; Some (first_opt is) }"

definition tree_last :: "('t, 's) node \<Rightarrow> 't option rust" where
  "tree_last self = do { l \<leftarrow> rightmost_leaf self; is \<leftarrow> node_items l; Some (last_opt is) }"

definition last_summary :: "('t, 's) node \<Rightarrow> 's option rust" where
  "last_summary self = do { l \<leftarrow> rightmost_leaf self; Some (last_opt (child_summaries_of l)) }"

fun update_last_recursive :: "('t, 's) item_ops \<Rightarrow> ('t \<Rightarrow> 't) \<Rightarrow> ('t, 's) node
    \<Rightarrow> ('s option \<times> ('t, 's) node) rust" where
  "update_last_recursive ops f (Internal h s css cts) =
     (if css = [] \<or> cts = [] then None
      else do {
        (r, last_child) \<leftarrow> update_last_recursive ops f (last cts);
        last_summary \<leftarrow> r;
        let css = butlast css @ [last_summary];
        let s = sum ops css;
        Some (Some s, Internal h s css (butlast cts @ [last_child]))
      })"
| "update_last_recursive ops f (Leaf s is ss) =
     (if is = [] \<or> ss = [] then Some (None, Leaf s is ss)
      else let item = f (last is); ss = butlast ss @ [it_summary ops item]; s = sum ops ss
           in Some (Some s, Leaf s (butlast is @ [item]) ss))"

definition update_last :: "('t, 's) item_ops \<Rightarrow> ('t \<Rightarrow> 't) \<Rightarrow> ('t, 's) node \<Rightarrow> ('t, 's) node rust" where
  "update_last ops f self = map_option snd (update_last_recursive ops f self)"

fun update_first_recursive :: "('t, 's) item_ops \<Rightarrow> ('t \<Rightarrow> 't) \<Rightarrow> ('t, 's) node
    \<Rightarrow> ('s option \<times> ('t, 's) node) rust" where
  "update_first_recursive ops f (Internal h s css cts) =
     (if css = [] \<or> cts = [] then None
      else do {
        (r, first_child) \<leftarrow> update_first_recursive ops f (hd cts);
        first_summary \<leftarrow> r;
        let css = first_summary # tl css;
        let s = sum ops css;
        Some (Some s, Internal h s css (first_child # tl cts))
      })"
| "update_first_recursive ops f (Leaf s is ss) =
     (if is = [] \<or> ss = [] then Some (None, Leaf s is ss)
      else let item = f (hd is); ss = it_summary ops item # tl ss; s = sum ops ss
           in Some (Some s, Leaf s (item # tl is) ss))"

definition update_first :: "('t, 's) item_ops \<Rightarrow> ('t \<Rightarrow> 't) \<Rightarrow> ('t, 's) node \<Rightarrow> ('t, 's) node rust" where
  "update_first ops f self = map_option snd (update_first_recursive ops f self)"

definition extent :: "('s, 'd) dim_ops \<Rightarrow> ('t, 's) node \<Rightarrow> 'd" where
  "extent dim self = d_add dim (d_zero dim) (node_summary self)"

section \<open>Searching with the previous item\<close>

fun find_prev_items :: "('s, 'd) dim_ops \<Rightarrow> ('d \<Rightarrow> ordering) \<Rightarrow> bias \<Rightarrow> bool \<Rightarrow> 't option \<Rightarrow> 'd \<Rightarrow> 't list
    \<Rightarrow> 's list \<Rightarrow> ('t option \<times> 't \<times> 'd) option \<times> 'd" where
  "find_prev_items dim target bias exact prev pos (i # is) (s # ss) =
     (let child_end = d_add dim pos s
      in if entry_found exact (target child_end) bias then (Some (prev, i, child_end), pos)
         else find_prev_items dim target bias exact (Some i) child_end is ss)"
| "find_prev_items dim target bias exact prev pos _ _ = (None, pos)"

fun find_with_prev_iterate :: "('s, 'd) dim_ops \<Rightarrow> ('d \<Rightarrow> ordering) \<Rightarrow> bias \<Rightarrow> bool \<Rightarrow> 't option \<Rightarrow> 'd
      \<Rightarrow> ('t, 's) node \<Rightarrow> (('t option \<times> 't \<times> 'd) option \<times> 'd) rust"
  and find_prev_children :: "('s, 'd) dim_ops \<Rightarrow> ('d \<Rightarrow> ordering) \<Rightarrow> bias \<Rightarrow> bool \<Rightarrow> 't option \<Rightarrow> 'd
      \<Rightarrow> ('t, 's) node list \<Rightarrow> 's list \<Rightarrow> (('t option \<times> 't \<times> 'd) option \<times> 'd) rust" where
  "find_with_prev_iterate dim target bias exact prev pos (Internal h s css cts) =
     find_prev_children dim target bias exact prev pos cts css"
| "find_with_prev_iterate dim target bias exact prev pos (Leaf s is ss) =
     Some (find_prev_items dim target bias exact prev pos is ss)"
| "find_prev_children dim target bias exact prev pos (c # cts) (s # css) =
     (let child_end = d_add dim pos s
      in if target_in (target child_end) bias
         then find_with_prev_iterate dim target bias exact prev pos c
         else do { prev \<leftarrow> tree_last c;
                   find_prev_children dim target bias exact prev child_end cts css })"
| "find_prev_children dim target bias exact prev pos _ _ = Some (None, pos)"

definition find_with_prev :: "('s, 'd) dim_ops \<Rightarrow> ('d \<Rightarrow> ordering) \<Rightarrow> bias \<Rightarrow> ('t, 's) node
    \<Rightarrow> ('d \<times> 'd \<times> ('t option \<times> 't) option) rust" where
  "find_with_prev dim target bias self =
     (let tree_end = d_add dim (d_zero dim) (node_summary self)
      in if goes_past (target tree_end) bias then Some (tree_end, tree_end, None)
         else do {
           (found, pos) \<leftarrow> find_with_prev_iterate dim target bias False None (d_zero dim) self;
           Some (case found of
               Some (prev, i, e) \<Rightarrow> (pos, e, Some (prev, i))
             | None \<Rightarrow> (pos, pos, None))
         })"

section \<open>Specification of a seek\<close>

text \<open>
  \<open>seek_split\<close> divides a list of items into those a target passes and the rest;
  \<open>item_dim\<close> is the dimension after a list of items. A target is monotone when, from left
  to right, it compares greater, then equal, then less than the ends of the items.
\<close>

definition item_dim :: "('t, 's) item_ops \<Rightarrow> ('s, 'd) dim_ops \<Rightarrow> 'd \<Rightarrow> 't list \<Rightarrow> 'd" where
  "item_dim ops dim d is = foldl (d_add dim) d (map (it_summary ops) is)"

fun seek_split :: "('t, 's) item_ops \<Rightarrow> ('s, 'd) dim_ops \<Rightarrow> ('d \<Rightarrow> bool) \<Rightarrow> 'd \<Rightarrow> 't list
    \<Rightarrow> 't list \<times> 't list" where
  "seek_split ops dim past d [] = ([], [])"
| "seek_split ops dim past d (i # is) =
     (let e = d_add dim d (it_summary ops i)
      in if past e then (case seek_split ops dim past e is of (a, b) \<Rightarrow> (i # a, b))
         else ([], i # is))"

fun prefix_ends :: "('t, 's) item_ops \<Rightarrow> ('s, 'd) dim_ops \<Rightarrow> 'd \<Rightarrow> 't list \<Rightarrow> 'd list" where
  "prefix_ends ops dim d [] = []"
| "prefix_ends ops dim d (i # is) =
     (let e = d_add dim d (it_summary ops i) in e # prefix_ends ops dim e is)"

fun rank :: "ordering \<Rightarrow> nat" where
  "rank Less = 0"
| "rank Equal = 1"
| "rank Greater = 2"

definition monotone_target ::
    "('t, 's) item_ops \<Rightarrow> ('s, 'd) dim_ops \<Rightarrow> ('d \<Rightarrow> ordering) \<Rightarrow> 'd \<Rightarrow> 't list \<Rightarrow> bool" where
  "monotone_target ops dim target d is =
     sorted_wrt (\<lambda>x y. rank (target y) \<le> rank (target x)) (prefix_ends ops dim d is)"

abbreviation past :: "('d \<Rightarrow> ordering) \<Rightarrow> bias \<Rightarrow> 'd \<Rightarrow> bool" where
  "past target bias \<equiv> \<lambda>e. goes_past (target e) bias"

text \<open>What a search returns: the first item not passed, with its end, and the position before it.\<close>

definition found :: "('t, 's) item_ops \<Rightarrow> ('s, 'd) dim_ops \<Rightarrow> ('d \<Rightarrow> bool) \<Rightarrow> 'd \<Rightarrow> 't list
    \<Rightarrow> ('t \<times> 'd) option \<times> 'd" where
  "found ops dim p d is =
     (case seek_split ops dim p d is of
        (a, []) \<Rightarrow> (None, item_dim ops dim d a)
      | (a, i # b) \<Rightarrow> (Some (i, item_dim ops dim d (a @ [i])), item_dim ops dim d a))"

lemma target_in_iff: "target_in c bias \<longleftrightarrow> \<not> goes_past c bias"
  by (cases c; cases bias) (auto simp: target_in_def goes_past_def)

lemma goes_past_Left [simp]: "goes_past c Left \<longleftrightarrow> c = Greater"
  by (auto simp: goes_past_def)

lemma goes_past_mono: "goes_past c bias \<Longrightarrow> rank c \<le> rank c' \<Longrightarrow> goes_past c' bias"
  by (cases c; cases c'; cases bias) (auto simp: goes_past_def)

lemma item_dim_simps [simp]:
  "item_dim ops dim d [] = d"
  "item_dim ops dim d (i # is) = item_dim ops dim (d_add dim d (it_summary ops i)) is"
  "item_dim ops dim d (xs @ ys) = item_dim ops dim (item_dim ops dim d xs) ys"
  by (simp_all add: item_dim_def)

lemma prefix_ends_append:
  "prefix_ends ops dim d (xs @ ys) = prefix_ends ops dim d xs @ prefix_ends ops dim (item_dim ops dim d xs) ys"
  by (induction xs arbitrary: d) (auto simp: Let_def)

lemma item_dim_in_prefix_ends: "xs \<noteq> [] \<Longrightarrow> item_dim ops dim d xs \<in> set (prefix_ends ops dim d xs)"
proof (induction xs arbitrary: d)
  case (Cons x xs)
  then show ?case by (cases "xs = []") (auto simp: Let_def)
qed simp

lemma monotone_target_append:
  assumes "monotone_target ops dim target d (xs @ ys)"
  shows "monotone_target ops dim target d xs" "monotone_target ops dim target (item_dim ops dim d xs) ys"
  using assms by (auto simp: monotone_target_def prefix_ends_append sorted_wrt_append)

lemma monotone_target_Cons:
  assumes "monotone_target ops dim target d (i # is)"
  shows "monotone_target ops dim target (d_add dim d (it_summary ops i)) is"
    and "is \<noteq> [] \<Longrightarrow>
      rank (target (item_dim ops dim d (i # is))) \<le> rank (target (d_add dim d (it_summary ops i)))"
    and "e \<in> set (prefix_ends ops dim (d_add dim d (it_summary ops i)) is) \<Longrightarrow>
      rank (target e) \<le> rank (target (d_add dim d (it_summary ops i)))"
  using assms item_dim_in_prefix_ends [of "is" ops dim "d_add dim d (it_summary ops i)"]
  by (auto simp: monotone_target_def Let_def)

lemma seek_split_concat: "seek_split ops dim p d is = (a, b) \<Longrightarrow> is = a @ b"
  by (induction "is" arbitrary: d a b) (auto simp: Let_def split: if_splits prod.splits)

lemma seek_split_not_past:
  "xs \<noteq> [] \<Longrightarrow> \<not> p (item_dim ops dim d xs) \<Longrightarrow>
   \<exists>a i b. seek_split ops dim p d xs = (a, i # b) \<and> seek_split ops dim p d (xs @ ys) = (a, i # b @ ys)"
proof (induction xs arbitrary: d)
  case (Cons x xs)
  then show ?case by (cases "xs = []") (fastforce simp: Let_def)+
qed simp

lemma seek_split_past:
  assumes "xs \<noteq> []" "goes_past (target (item_dim ops dim d xs)) bias" "monotone_target ops dim target d xs"
  shows "seek_split ops dim (past target bias) d (xs @ ys)
    = (case seek_split ops dim (past target bias) (item_dim ops dim d xs) ys of (a, b) \<Rightarrow> (xs @ a, b))"
  using assms
proof (induction xs arbitrary: d)
  case (Cons x xs)
  note m = monotone_target_Cons [OF Cons.prems(3)]
  show ?case
  proof (cases "xs = []")
    case True
    then show ?thesis using Cons.prems by (simp add: Let_def)
  next
    case False
    then have "goes_past (target (d_add dim d (it_summary ops x))) bias"
      using goes_past_mono [OF Cons.prems(2) m(2)] by simp
    then show ?thesis using Cons.IH [OF False _ m(1)] Cons.prems(2) by (simp add: Let_def split: prod.splits)
  qed
qed simp

lemma found_not_past:
  "xs \<noteq> [] \<Longrightarrow> \<not> p (item_dim ops dim d xs) \<Longrightarrow> found ops dim p d (xs @ ys) = found ops dim p d xs"
  using seek_split_not_past [of xs p ops dim d ys] by (auto simp: found_def)

lemma found_past:
  assumes "xs \<noteq> []" "goes_past (target (item_dim ops dim d xs)) bias" "monotone_target ops dim target d xs"
  shows "found ops dim (past target bias) d (xs @ ys)
    = found ops dim (past target bias) (item_dim ops dim d xs) ys"
  using seek_split_past [OF assms, of ys] by (auto simp: found_def split: prod.splits list.splits)

section \<open>Correctness of searching\<close>

text \<open>A dimension adds up summaries: adding a sum is adding its parts one after the other.\<close>

locale dimension_laws = summary_laws ops fits for ops :: "('t, 's) item_ops" and fits +
  fixes dim :: "('s, 'd) dim_ops"
  assumes dim_flat: "xs \<noteq> [] \<Longrightarrow> fits xs \<Longrightarrow> d_add dim d (flat ops xs) = item_dim ops dim d xs"
    and dim_zero: "d_add dim (d_zero dim) (s_zero ops) = d_zero dim"
begin

lemma dim_node: "wf_in fits ops t \<Longrightarrow> tree_items t \<noteq> [] \<Longrightarrow> d_add dim d (node_summary t) = item_dim ops dim d (tree_items t)"
  by (simp add: wf_in_summary [of fits] wf_in_fits dim_flat)

lemma tree_end_ok: "wf_in fits ops t \<Longrightarrow> d_add dim (d_zero dim) (node_summary t) = item_dim ops dim (d_zero dim) (tree_items t)"
  by (cases "tree_items t = []") (simp_all add: dim_flat wf_in_summary [of fits] wf_in_fits dim_zero)

lemma find_items_ok:
  "find_items dim target bias False d is (map (it_summary ops) is) = found ops dim (past target bias) d is"
  by (induction "is" arbitrary: d)
    (auto simp: found_def Let_def entry_found_def target_in_iff split: prod.splits list.splits)

lemma find_iterate_ok:
  "wf_in fits ops t \<Longrightarrow> monotone_target ops dim target d (tree_items t)
   \<Longrightarrow> find_iterate dim target bias False d t = found ops dim (past target bias) d (tree_items t)"
proof (induction t arbitrary: d)
  case (Internal h s css cts)
  have "kids_in fits ops h xs \<Longrightarrow> set xs \<subseteq> set cts \<Longrightarrow> monotone_target ops dim target d (concat (map tree_items xs))
    \<Longrightarrow> find_children dim target bias False d xs (map node_summary xs)
      = found ops dim (past target bias) d (concat (map tree_items xs))" for xs
  proof (induction xs arbitrary: d)
    case (Cons c xs)
    then have c: "wf_in fits ops c" "tree_items c \<noteq> []" by simp_all
    note m = monotone_target_append [OF Cons.prems(3) [unfolded list.map concat.simps]]
    show ?case
      using Cons.IH [OF _ _ m(2)] Cons.prems(1,2) Internal.IH [OF _ c(1) m(1)] c
        found_not_past [OF c(2), of "past target bias" ops dim] found_past [OF c(2) _ m(1)]
      by (auto simp: dim_node target_in_iff Let_def)
  qed (simp add: found_def)
  from this [of cts] show ?case using Internal.prems by simp
next
  case (Leaf s "is" ss)
  then show ?case by (simp add: find_items_ok)
qed

lemma tree_find_ok:
  assumes "wf_in fits ops t" "monotone_target ops dim target (d_zero dim) (tree_items t)"
  shows "tree_find dim target bias t =
    (case seek_split ops dim (past target bias) (d_zero dim) (tree_items t) of
       (a, []) \<Rightarrow> (item_dim ops dim (d_zero dim) a, item_dim ops dim (d_zero dim) a, None)
     | (a, i # b) \<Rightarrow> (item_dim ops dim (d_zero dim) a, item_dim ops dim (d_zero dim) (a @ [i]), Some i))"
proof (cases "goes_past (target (item_dim ops dim (d_zero dim) (tree_items t))) bias")
  case True
  then have "seek_split ops dim (past target bias) (d_zero dim) (tree_items t) = (tree_items t, [])"
    using seek_split_past [OF _ True assms(2), of "[]"] by (cases "tree_items t = []") auto
  then show ?thesis using True
    by (simp add: tree_find_def tree_find_with_def tree_end_ok [OF assms(1)] Let_def)
next
  case False
  then show ?thesis
    by (simp add: tree_find_def tree_find_with_def tree_end_ok [OF assms(1)] find_iterate_ok [OF assms]
        found_def split: prod.splits list.splits)
qed

end

locale dimension_monoid = summary_monoid ops for ops :: "('t, 's) item_ops" +
  fixes dim :: "('s, 'd) dim_ops"
  assumes dim_add: "d_add dim (d_add dim d a) b = d_add dim d (s_add ops a b)"
    and dim_add_zero: "d_add dim (d_zero dim) (s_zero ops) = d_zero dim"
begin

lemma dim_foldl: "d_add dim d (foldl (s_add ops) s ss) = foldl (d_add dim) (d_add dim d s) ss"
  by (induction ss arbitrary: s) (simp_all add: dim_add)

end

sublocale dimension_monoid \<subseteq> dimension_laws ops "\<lambda>_. True" dim
  rewrites "wf_upto (\<lambda>_. True) ops = wf ops"
proof -
  show "dimension_laws ops (\<lambda>_. True) dim"
  proof
    show "xs \<noteq> [] \<Longrightarrow> d_add dim d (flat ops xs) = item_dim ops dim d xs" for d xs
      by (cases xs) (simp_all add: flat_def dim_foldl zero_add item_dim_def del: foldl_map)
  qed (rule dim_add_zero)
qed (simp add: fun_eq_iff)

text \<open>The exact search of a left-biased target: the first item not passed, if it matches.\<close>

definition found_exact :: "('t, 's) item_ops \<Rightarrow> ('s, 'd) dim_ops \<Rightarrow> ('d \<Rightarrow> ordering) \<Rightarrow> 'd \<Rightarrow> 't list
    \<Rightarrow> 't option" where
  "found_exact ops dim target d is =
     (case found ops dim (past target Left) d is of
        (Some (i, e), _) \<Rightarrow> if target e = Equal then Some i else None
      | (None, _) \<Rightarrow> None)"

lemma find_items_exact_less:
  "\<forall>e \<in> set (prefix_ends ops dim d is). target e = Less \<Longrightarrow>
   fst (find_items dim target bias True d is (map (it_summary ops) is)) = None"
  by (induction "is" arbitrary: d) (auto simp: Let_def entry_found_def)

lemma rank_0 [simp]: "rank c \<le> 0 \<longleftrightarrow> c = Less" "rank c = 0 \<longleftrightarrow> c = Less"
  by (cases c; simp)+

lemma find_items_exact:
  "monotone_target ops dim target d is \<Longrightarrow>
   map_option fst (fst (find_items dim target Left True d is (map (it_summary ops) is)))
     = found_exact ops dim target d is"
proof (induction "is" arbitrary: d)
  case (Cons i "is")
  let ?e = "d_add dim d (it_summary ops i)"
  note m = monotone_target_Cons [OF Cons.prems]
  show ?case
  proof (cases "target ?e")
    case Less
    then have "\<forall>e \<in> set (prefix_ends ops dim ?e is). target e = Less"
      using m(3) by simp
    then show ?thesis using Less find_items_exact_less [of ops dim ?e "is" target Left]
      by (simp add: found_exact_def found_def entry_found_def Let_def)
  next
    case Equal
    then show ?thesis by (simp add: found_exact_def found_def entry_found_def Let_def)
  next
    case Greater
    then show ?thesis using Cons.IH [OF m(1)]
      by (auto simp: found_exact_def found_def entry_found_def Let_def split: prod.splits list.splits)
  qed
qed (simp add: found_exact_def found_def)

context dimension_laws
begin

lemma find_iterate_exact:
  "wf_in fits ops t \<Longrightarrow> monotone_target ops dim target d (tree_items t)
   \<Longrightarrow> map_option fst (fst (find_iterate dim target Left True d t)) = found_exact ops dim target d (tree_items t)"
proof (induction t arbitrary: d)
  case (Internal h s css cts)
  have "kids_in fits ops h xs \<Longrightarrow> set xs \<subseteq> set cts \<Longrightarrow> monotone_target ops dim target d (concat (map tree_items xs))
    \<Longrightarrow> map_option fst (fst (find_children dim target Left True d xs (map node_summary xs)))
      = found_exact ops dim target d (concat (map tree_items xs))" for xs
  proof (induction xs arbitrary: d)
    case (Cons c xs)
    then have c: "wf_in fits ops c" "tree_items c \<noteq> []" by simp_all
    note m = monotone_target_append [OF Cons.prems(3) [unfolded list.map concat.simps]]
    show ?case
      using Cons.IH [OF _ _ m(2)] Cons.prems(1,2) Internal.IH [OF _ c(1) m(1)] c
        found_not_past [OF c(2), of "past target Left" ops dim] found_past [OF c(2) _ m(1), of Left]
      by (auto simp: dim_node target_in_iff Let_def found_exact_def)
  qed (simp add: found_exact_def found_def)
  from this [of cts] show ?case using Internal.prems by simp
next
  case (Leaf s "is" ss)
  then show ?case by (simp add: find_items_exact)
qed

lemma find_exact_ok:
  assumes "wf_in fits ops t" "monotone_target ops dim target (d_zero dim) (tree_items t)"
  shows "snd (snd (find_exact dim target Left t)) = found_exact ops dim target (d_zero dim) (tree_items t)"
proof (cases "target (item_dim ops dim (d_zero dim) (tree_items t)) = Greater")
  case True
  then have "seek_split ops dim (past target Left) (d_zero dim) (tree_items t) = (tree_items t, [])"
    using seek_split_past [of "tree_items t" target ops dim "d_zero dim" Left "[]"] assms(2)
    by (cases "tree_items t = []") auto
  then show ?thesis using True
    by (simp add: find_exact_def tree_find_with_def tree_end_ok [OF assms(1)] Let_def found_exact_def found_def)
next
  case False
  then show ?thesis
    using find_iterate_exact [OF assms]
    by (simp add: find_exact_def tree_find_with_def tree_end_ok [OF assms(1)] Let_def
        split: prod.splits option.splits) auto
qed

end

section \<open>Correctness at the ends\<close>

lemma leftmost_leaf_ok:
  "wf_in fits ops t \<Longrightarrow> \<exists>s is ss. leftmost_leaf t = Some (Leaf s is ss) \<and> wf_in fits ops (Leaf s is ss)
     \<and> first_opt is = first_opt (tree_items t) \<and> (tree_items t \<noteq> [] \<longrightarrow> is \<noteq> [])"
proof (induction t)
  case (Internal h s css cts)
  then obtain c cs where cts: "cts = c # cs" by (cases cts) auto
  with Internal.prems have c: "wf_in fits ops c" "tree_items c \<noteq> []" by simp_all
  from Internal.IH [of c] c cts obtain s' is' ss' where
    "leftmost_leaf c = Some (Leaf s' is' ss')" "wf_in fits ops (Leaf s' is' ss')"
    "first_opt is' = first_opt (tree_items c)" "is' \<noteq> []" by auto
  then show ?case using cts c by (auto simp: first_opt_def neq_Nil_conv)
qed simp

lemma rightmost_leaf_ok:
  "wf_in fits ops t \<Longrightarrow> \<exists>s is ss. rightmost_leaf t = Some (Leaf s is ss) \<and> wf_in fits ops (Leaf s is ss)
     \<and> last_opt is = last_opt (tree_items t) \<and> (tree_items t \<noteq> [] \<longrightarrow> is \<noteq> [])"
proof (induction t)
  case (Internal h s css cts)
  then have cts: "kids_in fits ops h cts" "cts \<noteq> []" by simp_all
  note l = kids_last [OF this]
  from Internal.IH [of "last cts"] l cts obtain s' is' ss' where r:
    "rightmost_leaf (last cts) = Some (Leaf s' is' ss')" "wf_in fits ops (Leaf s' is' ss')"
    "last_opt is' = last_opt (tree_items (last cts))" "is' \<noteq> []" by auto
  have "concat (map tree_items cts) \<noteq> []" "last (concat (map tree_items cts)) = last (tree_items (last cts))"
    using l(3,5) by (metis append_is_Nil_conv, metis last_appendR)
  then show ?case using r cts(2) l(3) by (simp add: last_opt_def)
qed simp

lemma tree_first_ok: "wf_in fits ops t \<Longrightarrow> tree_first t = Some (first_opt (tree_items t))"
  using leftmost_leaf_ok [of fits ops t] by (auto simp: tree_first_def)

lemma tree_last_ok: "wf_in fits ops t \<Longrightarrow> tree_last t = Some (last_opt (tree_items t))"
  using rightmost_leaf_ok [of fits ops t] by (auto simp: tree_last_def)

lemma last_summary_ok:
  "wf_in fits ops t \<Longrightarrow> last_summary t = Some (map_option (it_summary ops) (last_opt (tree_items t)))"
  using rightmost_leaf_ok [of fits ops t] by (auto simp: last_summary_def last_opt_def last_map split: if_splits)

context summary_laws
begin

lemma update_last_recursive_ok:
  "wf_upto fits ops t \<Longrightarrow> tree_items t \<noteq> [] \<Longrightarrow>
   \<exists>t'. update_last_recursive ops f t = Some (Some (node_summary t'), t') \<and> full fits ops (node_height t) t'
     \<and> tree_items t' = butlast (tree_items t) @ [f (last (tree_items t))]"
proof (induction t)
  case (Internal h s css cts)
  then have ks: "kids fits ops h cts" "cts \<noteq> []" "css = map node_summary cts" "length cts \<le> 12"
    by (simp_all add: TREE_BASE_def)
  note l = kids_last [OF ks(1,2)]
  from Internal.IH [of "last cts"] l ks(2) obtain t' where t:
    "update_last_recursive ops f (last cts) = Some (Some (node_summary t'), t')"
    "full fits ops (node_height (last cts)) t'"
    "tree_items t' = butlast (tree_items (last cts)) @ [f (last (tree_items (last cts)))]" by auto
  let ?cts = "butlast cts @ [t']"
  have "kids fits ops h ?cts" using l t(2) by simp
  from wf_sum_internal [OF this _ _ refl] have n: "full fits ops h (Internal h (sum ops (map node_summary ?cts)) (map node_summary ?cts) ?cts)"
    using ks(4) by simp
  have c: "concat (map tree_items cts) = concat (map tree_items (butlast cts)) @ tree_items (last cts)"
    using l(5) by simp
  have "concat (map tree_items ?cts)
      = butlast (concat (map tree_items cts)) @ [f (last (concat (map tree_items cts)))]"
    unfolding c using l(3) t(3) by (simp add: butlast_append)
  then show ?case using n t(1) ks by (simp add: Let_def map_butlast del: wf_upto.simps)
next
  case (Leaf s "is" ss)
  then show ?case
    using wf_sum_leaf [of "butlast is @ [f (last is)]" "butlast ss @ [it_summary ops (f (last is))]"]
    by (simp add: Let_def map_butlast TREE_BASE_def)
qed

lemma update_first_recursive_ok:
  "wf_upto fits ops t \<Longrightarrow> tree_items t \<noteq> [] \<Longrightarrow>
   \<exists>t'. update_first_recursive ops f t = Some (Some (node_summary t'), t') \<and> full fits ops (node_height t) t'
     \<and> tree_items t' = f (hd (tree_items t)) # tl (tree_items t)"
proof (induction t)
  case (Internal h s css cts)
  then obtain c cs where cts: "cts = c # cs" by (cases cts) auto
  with Internal.prems have ks: "wf_upto fits ops c" "tree_items c \<noteq> []" "Suc (node_height c) = h" "kids fits ops h cs"
    "css = node_summary c # map node_summary cs" "length cs < 12" by (simp_all add: TREE_BASE_def)
  from Internal.IH [of c] ks cts obtain t' where t:
    "update_first_recursive ops f c = Some (Some (node_summary t'), t')" "full fits ops (node_height c) t'"
    "tree_items t' = f (hd (tree_items c)) # tl (tree_items c)" by auto
  have "kids fits ops h (t' # cs)" using ks t(2) by simp
  from wf_sum_internal [OF this _ _ refl] have
    "full fits ops h (Internal h (sum ops (map node_summary (t' # cs))) (map node_summary (t' # cs)) (t' # cs))"
    using ks(6) by simp
  then show ?case using t(1,3) ks cts by (simp add: Let_def del: wf_upto.simps)
next
  case (Leaf s "is" ss)
  then show ?case
    using wf_sum_leaf [of "f (hd is) # tl is" "it_summary ops (f (hd is)) # tl ss"]
    by (simp add: Let_def map_tl TREE_BASE_def)
qed

lemma update_last_ok:
  assumes "wf_upto fits ops t"
  shows "\<exists>t'. update_last ops f t = Some t' \<and> wf_upto fits ops t' \<and> node_height t' = node_height t
    \<and> tree_items t' = (if tree_items t = [] then [] else butlast (tree_items t) @ [f (last (tree_items t))])"
proof (cases "tree_items t = []")
  case True
  then obtain s where "t = Leaf s [] []" using assms tree_is_empty_iff [OF assms] by (cases t) auto
  then show ?thesis using assms by (simp add: update_last_def)
next
  case False
  then show ?thesis using update_last_recursive_ok [OF assms False, of f] by (auto simp: update_last_def)
qed

lemma update_first_ok:
  assumes "wf_upto fits ops t"
  shows "\<exists>t'. update_first ops f t = Some t' \<and> wf_upto fits ops t' \<and> node_height t' = node_height t
    \<and> tree_items t' = (if tree_items t = [] then [] else f (hd (tree_items t)) # tl (tree_items t))"
proof (cases "tree_items t = []")
  case True
  then obtain s where "t = Leaf s [] []" using assms tree_is_empty_iff [OF assms] by (cases t) auto
  then show ?thesis using assms by (simp add: update_first_def)
next
  case False
  then show ?thesis using update_first_recursive_ok [OF assms False, of f] by (auto simp: update_first_def)
qed

end

section \<open>Correctness of the search with the previous item\<close>

definition found_prev :: "('t, 's) item_ops \<Rightarrow> ('s, 'd) dim_ops \<Rightarrow> ('d \<Rightarrow> bool) \<Rightarrow> 't option \<Rightarrow> 'd
    \<Rightarrow> 't list \<Rightarrow> ('t option \<times> 't \<times> 'd) option \<times> 'd" where
  "found_prev ops dim p prev d is =
     (case seek_split ops dim p d is of
        (a, []) \<Rightarrow> (None, item_dim ops dim d a)
      | (a, i # b) \<Rightarrow> (Some (if a = [] then prev else Some (last a), i, item_dim ops dim d (a @ [i])),
                    item_dim ops dim d a))"

lemma found_prev_not_past:
  "xs \<noteq> [] \<Longrightarrow> \<not> p (item_dim ops dim d xs)
   \<Longrightarrow> found_prev ops dim p prev d (xs @ ys) = found_prev ops dim p prev d xs"
  using seek_split_not_past [of xs p ops dim d ys] by (auto simp: found_prev_def)

lemma found_prev_past:
  assumes "xs \<noteq> []" "goes_past (target (item_dim ops dim d xs)) bias" "monotone_target ops dim target d xs"
  shows "found_prev ops dim (past target bias) prev d (xs @ ys)
    = found_prev ops dim (past target bias) (last_opt xs) (item_dim ops dim d xs) ys"
  using seek_split_past [OF assms, of ys] assms(1)
  by (auto simp: found_prev_def last_opt_def split: prod.splits list.splits)

lemma find_prev_items_ok:
  "find_prev_items dim target bias False prev d is (map (it_summary ops) is)
     = found_prev ops dim (past target bias) prev d is"
  by (induction "is" arbitrary: d prev)
    (auto simp: found_prev_def Let_def entry_found_def target_in_iff split: prod.splits list.splits)

context dimension_laws
begin

lemma find_with_prev_iterate_ok:
  "wf_in fits ops t \<Longrightarrow> monotone_target ops dim target d (tree_items t)
   \<Longrightarrow> find_with_prev_iterate dim target bias False prev d t
     = Some (found_prev ops dim (past target bias) prev d (tree_items t))"
proof (induction t arbitrary: d prev)
  case (Internal h s css cts)
  have "kids_in fits ops h xs \<Longrightarrow> set xs \<subseteq> set cts \<Longrightarrow> monotone_target ops dim target d (concat (map tree_items xs))
    \<Longrightarrow> find_prev_children dim target bias False prev d xs (map node_summary xs)
      = Some (found_prev ops dim (past target bias) prev d (concat (map tree_items xs)))" for xs
  proof (induction xs arbitrary: d prev)
    case (Cons c xs)
    then have c: "wf_in fits ops c" "tree_items c \<noteq> []" by simp_all
    note m = monotone_target_append [OF Cons.prems(3) [unfolded list.map concat.simps]]
    show ?case
      using Cons.IH [OF _ _ m(2)] Cons.prems(1,2) Internal.IH [OF _ c(1) m(1)] c
        found_prev_not_past [OF c(2), of "past target bias" ops dim] found_prev_past [OF c(2) _ m(1)]
      by (auto simp: dim_node target_in_iff Let_def tree_last_ok [OF c(1)])
  qed (simp add: found_prev_def)
  from this [of cts] show ?case using Internal.prems by simp
next
  case (Leaf s "is" ss)
  then show ?case by (simp add: find_prev_items_ok)
qed

lemma find_with_prev_ok:
  assumes "wf_in fits ops t" "monotone_target ops dim target (d_zero dim) (tree_items t)"
  shows "find_with_prev dim target bias t = Some
    (case seek_split ops dim (past target bias) (d_zero dim) (tree_items t) of
       (a, []) \<Rightarrow> (item_dim ops dim (d_zero dim) a, item_dim ops dim (d_zero dim) a, None)
     | (a, i # b) \<Rightarrow> (item_dim ops dim (d_zero dim) a, item_dim ops dim (d_zero dim) (a @ [i]),
                    Some (last_opt a, i)))"
proof (cases "goes_past (target (item_dim ops dim (d_zero dim) (tree_items t))) bias")
  case True
  then have "seek_split ops dim (past target bias) (d_zero dim) (tree_items t) = (tree_items t, [])"
    using seek_split_past [OF _ True assms(2), of "[]"] by (cases "tree_items t = []") auto
  then show ?thesis using True
    by (simp add: find_with_prev_def tree_end_ok [OF assms(1)] Let_def)
next
  case False
  then show ?thesis
    by (simp add: find_with_prev_def tree_end_ok [OF assms(1)] find_with_prev_iterate_ok [OF assms]
        found_prev_def last_opt_def split: prod.splits list.splits)
qed

end

end
