(* ===== verification/TreeHeight.thy ===== *)
theory TreeHeight
  imports SumTree
begin

text \<open>
  How high a tree becomes that is put together from pieces. Minimum fill is no invariant of
  the tree, but a node above the height of the pieces only splits when it is full, so that all
  its children but the last stand for at least half a node's worth of pieces. The weight of a
  tree counts them; it grows by at most one with each piece, and bounds the height.
\<close>

fun weight :: "nat \<Rightarrow> ('t, 's) node \<Rightarrow> nat" where
  "weight K (Leaf _ _ _) = 1"
| "weight K (Internal h _ _ cts) =
     (if h \<le> K \<or> cts = [] then 1 else 6 ^ (h - 1 - K) * (length cts - 1) + weight K (last cts))"

definition broad :: "nat \<Rightarrow> ('t, 's) node \<Rightarrow> bool" where
  "broad K t \<longleftrightarrow> (K < node_height t \<longrightarrow> 2 \<le> length (child_trees_of t))"

lemma weight_low [simp]: "node_height t \<le> K \<Longrightarrow> weight K t = 1"
  by (cases t) simp_all

lemma weight_pos: "1 \<le> weight K t"
  by (induction K t rule: weight.induct) auto

lemma broad_height:
  assumes "broad K t" "weight K t \<le> 6 ^ n"
  shows "node_height t \<le> K + n"
proof (cases "node_height t \<le> K")
  case False
  then obtain h s css cts where t: "t = Internal h s css cts" by (cases t) auto
  then have c: "2 \<le> length cts" "cts \<noteq> []" using False assms(1) by (auto simp: broad_def)
  have "(6::nat) ^ (h - 1 - K) \<le> 6 ^ (h - 1 - K) * (length cts - 1)" using c by (cases "length cts - 1") auto
  moreover have "weight K t = 6 ^ (h - 1 - K) * (length cts - 1) + weight K (last cts)" using False t c by simp
  ultimately have "6 ^ (h - 1 - K) < weight K t" using weight_pos [of K "last cts"] by linarith
  then have "(6::nat) ^ (h - 1 - K) < 6 ^ n" using assms(2) by linarith
  then have "h - 1 - K < n" by (simp add: power_strict_increasing_iff)
  then show ?thesis using False t by simp
qed simp

text \<open>The weight of a node with the given children, and what remains of it after a split.\<close>

lemma append_children_weight:
  assumes "append_children ops h s css cts ss ts = Some (sp, t)" "K < h" "cts \<noteq> []" "length cts + length ts \<le> 13"
  shows "(case sp of
      None \<Rightarrow> weight K t = 6 ^ (h - 1 - K) * (length (cts @ ts) - 1) + weight K (last (cts @ ts))
        \<and> child_trees_of t = cts @ ts
    | Some u \<Rightarrow> 6 ^ (h - K) + weight K u \<le> 6 ^ (h - 1 - K) * (length (cts @ ts) - 1) + weight K (last (cts @ ts)))"
proof (cases "length cts + length ts \<le> 12")
  case True
  then show ?thesis using assms by (auto simp: append_children_def Let_def TREE_BASE_def bind_eq_Some_conv)
next
  case False
  then have l: "length (cts @ ts) = 13" using assms(4) by simp
  obtain u where u: "sp = Some u" "child_trees_of u = drop 7 (cts @ ts)" "node_height u = h" "\<not> is_leaf u"
    using assms(1) l unfolding append_children_def
    by (auto simp: Let_def TREE_BASE_def bind_eq_Some_conv arrayvec_def split: if_splits)
  then have "weight K u = 6 ^ (h - 1 - K) * 5 + weight K (last (cts @ ts))"
    using l assms(2) by (cases u) (auto simp: last_drop simp del: drop_append length_append)
  moreover have "(6::nat) ^ (h - K) = 6 * 6 ^ (h - 1 - K)" using assms(2) by (simp flip: power_Suc add: Suc_diff_Suc)
  ultimately show ?thesis using u(1) l by simp
qed

context summary_laws
begin

lemma push_tree_weight:
  "wf_upto fits ops self \<Longrightarrow> tree_items self \<noteq> [] \<Longrightarrow> wf_upto fits ops other \<Longrightarrow> tree_items other \<noteq> []
   \<Longrightarrow> node_height other \<le> K \<Longrightarrow> K \<le> node_height self \<Longrightarrow> push_tree_recursive ops self other = Some (sp, t)
   \<Longrightarrow> (case sp of
        None \<Rightarrow> weight K t \<le> weight K self + 1
          \<and> (K < node_height self \<longrightarrow> length (child_trees_of self) \<le> length (child_trees_of t))
      | Some u \<Rightarrow> 6 ^ (node_height self - K) + weight K u \<le> weight K self + 1)"
proof (induction self arbitrary: sp t)
  case (Internal h s css cts)
  let ?self = "Internal h s css cts"
  from push_tree_recursive_ok [OF Internal.prems(1-4)] Internal.prems(5-7)
  have r: "split_right_ok fits ops h (tree_items ?self @ tree_items other) (sp, t)"
    by (auto simp del: push_tree_recursive.simps split_right_ok.simps)
  have ks: "kids fits ops h cts" "cts \<noteq> []" "length cts \<le> 12" using Internal.prems(1) by (simp_all add: TREE_BASE_def)
  have lst: "last cts \<in> set cts" "wf_upto fits ops (last cts)" "tree_items (last cts) \<noteq> []" "Suc (node_height (last cts)) = h"
    using ks by (simp_all add: list_all_iff)
  show ?case
  proof (cases "h = K")
    case True
    then show ?thesis using r by (cases sp) auto
  next
    case False
    then have K: "K < h" using Internal.prems(6) by simp
    let ?w = "6 ^ (h - 1 - K) :: nat"
    have self: "weight K ?self = ?w * (length cts - 1) + weight K (last cts)" using K ks(2) by simp
    have delta: "checked_sub h (node_height other) = Some (h - node_height other)" "h - node_height other \<noteq> 0"
      using Internal.prems(5) K by auto
    consider (child) "h - node_height other = 1 \<and> \<not> is_underflowing other" 
      | (deep) "\<not> (h - node_height other = 1 \<and> \<not> is_underflowing other)" by blast
    then show ?thesis
    proof cases
      case child
      then have o: "node_height other = K" "h - 1 = K" using Internal.prems(5) K by arith+
      have "append_children ops h (s_add ops s (node_summary other)) css cts [node_summary other] [other] = Some (sp, t)"
        using Internal.prems(7) delta child by (simp add: Let_def)
      from append_children_weight [OF this K ks(2)] ks(3) self show ?thesis
        using o weight_low [of other K] weight_pos [of K "last cts"] ks(2)
        by (cases cts) (auto split: option.splits)
    next
      case deep
      obtain sp' l where rec: "push_tree_recursive ops (last cts) other = Some (sp', l)"
        using Internal.prems(7) delta deep by (auto simp: Let_def bind_eq_Some_conv split: if_splits)
      from Internal.IH [OF lst(1-3) Internal.prems(3-5) _ rec] K lst(4)
      have IH: "case sp' of None \<Rightarrow> weight K l \<le> weight K (last cts) + 1
        | Some u \<Rightarrow> ?w + weight K u \<le> weight K (last cts) + 1" by (auto split: option.splits simp: diff_Suc)
      let ?ts = "case sp' of None \<Rightarrow> [] | Some u \<Rightarrow> [u]"
      have ac: "append_children ops h (s_add ops s (node_summary other)) (butlast css @ [node_summary l])
          (butlast cts @ [l]) (map node_summary ?ts) ?ts = Some (sp, t)"
        using Internal.prems(7) delta deep rec by (auto simp: Let_def bind_eq_Some_conv split: if_splits option.splits)
      have len: "length (butlast cts @ [l]) = length cts" using ks(2) by simp
      have w: "?w * (length ((butlast cts @ [l]) @ ?ts) - 1) + weight K (last ((butlast cts @ [l]) @ ?ts))
          \<le> weight K ?self + 1"
        using IH self ks(2) by (cases sp'; cases cts rule: rev_cases) (auto simp: algebra_simps)
      have "length (butlast cts @ [l]) + length ?ts \<le> 13" using ks(3) len by (cases sp') auto
      from append_children_weight [OF ac K _ this] w len show ?thesis
        by (auto split: option.splits)
    qed
  qed
next
  case (Leaf s "is" ss)
  from push_tree_recursive_ok [OF Leaf.prems(1-4)] Leaf.prems(5-7)
  have "split_right_ok fits ops 0 (is @ tree_items other) (sp, t)"
    by (auto simp del: push_tree_recursive.simps split_right_ok.simps)
  then show ?case using weight_low [of _ K] Leaf.prems(6) by (cases sp) auto
qed

lemma tree_append_weight:
  assumes "wf_upto fits ops a" "wf_upto fits ops b" "node_height b \<le> K" "broad K a" "tree_append ops a b = Some t"
  shows "weight K t \<le> weight K a + 1 \<and> broad K t"
proof -
  consider (none) "tree_items a = []" | (same) "tree_items a \<noteq> []" "tree_items b = []"
    | (low) "tree_items a \<noteq> []" "tree_items b \<noteq> []" "node_height a \<le> K"
    | (high) "tree_items a \<noteq> []" "tree_items b \<noteq> []" "K < node_height a" by linarith
  then show ?thesis
  proof cases
    case none
    then have "t = b" using assms(1,5) by (simp add: tree_append_def tree_is_empty_iff)
    then show ?thesis using assms(3) by (simp add: weight_low broad_def)
  next
    case same
    then have "is_leaf b \<and> items_of b = []" using assms(2) tree_is_empty_iff [OF assms(2)] by (cases b) auto
    then have "t = a" using same assms(1,5) by (simp add: tree_append_def tree_is_empty_iff)
    then show ?thesis using assms(4) by simp
  next
    case low
    have h: "node_height t \<le> Suc K" using tree_append_ok [OF assms(1,2)] assms(3,5) low(3) by auto
    show ?thesis
    proof (cases "node_height t \<le> K")
      case True
      then show ?thesis by (simp add: weight_low broad_def)
    next
      case False
      then have t: "node_height t = Suc K" using h by simp
      have b: "\<not> (is_leaf b \<and> items_of b = [])" using low(2) by (cases b) auto
      have "\<exists>l r. t = from_child_trees ops l r \<and> node_height l = K \<and> node_height r \<le> K"
      proof (cases "node_height a < node_height b")
        case True
        from append_large_ok [of a "node_height a" b] True low assms(1,2) obtain res u where
          "append_large ops a b = Some (res, u)" "split_left_ok fits ops (node_height b) (tree_items a @ tree_items b) (res, u)"
          by fastforce
        moreover from this have "t = (case res of Some v \<Rightarrow> from_child_trees ops v u | None \<Rightarrow> u)"
          using True assms(1,5) low b by (simp add: tree_append_def tree_is_empty_iff split: option.splits)
        ultimately show ?thesis using t assms(3)
          by (cases res) (simp_all, blast)
      next
        case False
        from push_tree_recursive_ok [of a b] False low assms(1,2) obtain sp u where
          "push_tree_recursive ops a b = Some (sp, u)" "split_right_ok fits ops (node_height a) (tree_items a @ tree_items b) (sp, u)"
          by fastforce
        moreover from this have "t = (case sp of Some v \<Rightarrow> from_child_trees ops u v | None \<Rightarrow> u)"
          using False assms(1,5) low b by (simp add: tree_append_def tree_is_empty_iff split: option.splits)
        ultimately show ?thesis using t low(3)
          by (cases sp) (simp_all, metis order_refl)
      qed
      then show ?thesis using weight_low [of _ K] weight_pos [of K a]
        by (auto simp: from_child_trees_def broad_def Let_def)
    qed
  next
    case high
    have b: "\<not> (is_leaf b \<and> items_of b = [])" using high(2) by (cases b) auto
    from push_tree_recursive_ok [of a b] high assms(1-3) obtain sp u where p:
      "push_tree_recursive ops a b = Some (sp, u)" "split_right_ok fits ops (node_height a) (tree_items a @ tree_items b) (sp, u)"
      by fastforce
    from push_tree_weight [OF assms(1) high(1) assms(2) high(2) assms(3) _ p(1)] high(3)
    have w: "case sp of None \<Rightarrow> weight K u \<le> weight K a + 1 \<and> length (child_trees_of a) \<le> length (child_trees_of u)
      | Some v \<Rightarrow> 6 ^ (node_height a - K) + weight K v \<le> weight K a + 1" by (auto split: option.splits)
    show ?thesis
    proof (cases sp)
      case None
      then have "t = u" using assms(1,3,5) high p b by (simp add: tree_append_def tree_is_empty_iff)
      then show ?thesis using None w assms(4) high(3) by (auto simp: broad_def)
    next
      case (Some v)
      then have "t = from_child_trees ops u v" using assms(1,3,5) high p b by (simp add: tree_append_def tree_is_empty_iff)
      then show ?thesis using Some w p(2) high(3) by (auto simp: from_child_trees_def broad_def Let_def)
    qed
  qed
qed

end

end
