(* ===== verification/Cursor.thy ===== *)
theory Cursor
  imports Seek TreeHeight
begin

text \<open>
  The cursor over a summarising tree (\<open>crates/sum_tree/src/cursor.rs\<close>): a stack of
  (node, child index, position) entries that remembers the path from the root to the
  current item, and the operations that move it. The stack is a list with its top
  first; pushing beyond the fixed capacity 16 panics. Targets are the functions
  \<open>target.cmp\<close>; the three seek aggregates are records of their operations.
\<close>

section \<open>State\<close>

definition STACK_CAPACITY :: nat where "STACK_CAPACITY = 16"

record ('t, 's, 'd) stack_entry =
  se_tree :: "('t, 's) node"
  se_index :: nat
  se_position :: 'd

type_synonym ('t, 's, 'd) stack = "('t, 's, 'd) stack_entry list"

record ('t, 's, 'd) cursor =
  c_tree :: "('t, 's) node"
  c_stack :: "('t, 's, 'd) stack_entry list"
  c_position :: 'd
  c_did_seek :: bool
  c_at_end :: bool

definition stack_push :: "('t, 's, 'd) stack_entry \<Rightarrow> ('t, 's, 'd) stack \<Rightarrow> ('t, 's, 'd) stack rust" where
  "stack_push e stack = (if length stack < STACK_CAPACITY then Some (e # stack) else None)"

definition entry_at :: "('t, 's) node \<Rightarrow> nat \<Rightarrow> 'd \<Rightarrow> ('t, 's, 'd) stack_entry" where
  "entry_at t i p = \<lparr>se_tree = t, se_index = i, se_position = p\<rparr>"

definition cursor_new :: "('s, 'd) dim_ops \<Rightarrow> ('t, 's) node \<Rightarrow> ('t, 's, 'd) cursor" where
  "cursor_new dim tree =
     \<lparr>c_tree = tree, c_stack = [], c_position = d_zero dim, c_did_seek = False,
      c_at_end = tree_is_empty tree\<rparr>"

definition cursor_reset :: "('s, 'd) dim_ops \<Rightarrow> ('t, 's, 'd) cursor \<Rightarrow> ('t, 's, 'd) cursor" where
  "cursor_reset dim self = self\<lparr>c_did_seek := False, c_at_end := tree_is_empty (c_tree self),
     c_stack := [], c_position := d_zero dim\<rparr>"

section \<open>Reading the current item\<close>

definition assert_did_seek :: "('t, 's, 'd) cursor \<Rightarrow> unit rust" where
  "assert_did_seek self = assert_that (c_did_seek self)"

definition cursor_item :: "('t, 's, 'd) cursor \<Rightarrow> 't option rust" where
  "cursor_item self = do {
     assert_did_seek self;
     case c_stack self of
       [] \<Rightarrow> Some None
     | entry # _ \<Rightarrow>
         (case se_tree entry of
            Leaf s is ss \<Rightarrow>
              if se_index entry = length is then Some None
              else map_option Some (get_ix is (se_index entry))
          | Internal h s css cts \<Rightarrow> None)
   }"

definition cursor_item_summary :: "('t, 's, 'd) cursor \<Rightarrow> 's option rust" where
  "cursor_item_summary self = do {
     assert_did_seek self;
     case c_stack self of
       [] \<Rightarrow> Some None
     | entry # _ \<Rightarrow>
         (case se_tree entry of
            Leaf s is ss \<Rightarrow>
              if se_index entry = length ss then Some None
              else map_option Some (get_ix ss (se_index entry))
          | Internal h s css cts \<Rightarrow> None)
   }"

definition cursor_end :: "('s, 'd) dim_ops \<Rightarrow> ('t, 's, 'd) cursor \<Rightarrow> 'd rust" where
  "cursor_end dim self = do {
     item_summary \<leftarrow> cursor_item_summary self;
     Some (case item_summary of
         Some s \<Rightarrow> d_add dim (c_position self) s
       | None \<Rightarrow> c_position self)
   }"

fun next_leaf :: "('t, 's, 'd) stack \<Rightarrow> ('t, 's) node option rust" where
  "next_leaf [] = Some None"
| "next_leaf (entry # stack) = do {
     cts \<leftarrow> node_child_trees (se_tree entry);
     n \<leftarrow> checked_sub (length cts) 1;
     if se_index entry < n
     then do { c \<leftarrow> get_ix cts (se_index entry + 1); l \<leftarrow> leftmost_leaf c; Some (Some l) }
     else next_leaf stack
   }"

fun prev_leaf :: "('t, 's, 'd) stack \<Rightarrow> ('t, 's) node option rust" where
  "prev_leaf [] = Some None"
| "prev_leaf (entry # stack) =
     (if se_index entry \<noteq> 0
      then do {
        cts \<leftarrow> node_child_trees (se_tree entry);
        c \<leftarrow> get_ix cts (se_index entry - 1);
        l \<leftarrow> rightmost_leaf c;
        Some (Some l)
      }
      else prev_leaf stack)"

definition cursor_next_item :: "('t, 's, 'd) cursor \<Rightarrow> 't option rust" where
  "cursor_next_item self = do {
     assert_did_seek self;
     case c_stack self of
       entry # stack \<Rightarrow> do {
         is \<leftarrow> node_items (se_tree entry);
         n \<leftarrow> checked_sub (length is) 1;
         if se_index entry = n then do {
           leaf \<leftarrow> next_leaf stack;
           case leaf of
             Some l \<Rightarrow> do { js \<leftarrow> node_items l; i \<leftarrow> first_opt js; Some (Some i) }
           | None \<Rightarrow> Some None
         } else map_option Some (get_ix is (se_index entry + 1))
       }
     | [] \<Rightarrow> if c_at_end self then Some None else tree_first (c_tree self)
   }"

definition cursor_prev_item :: "('t, 's, 'd) cursor \<Rightarrow> 't option rust" where
  "cursor_prev_item self = do {
     assert_did_seek self;
     case c_stack self of
       entry # stack \<Rightarrow>
         if se_index entry = 0 then do {
           leaf \<leftarrow> prev_leaf stack;
           case leaf of
             Some l \<Rightarrow> do { js \<leftarrow> node_items l; i \<leftarrow> last_opt js; Some (Some i) }
           | None \<Rightarrow> Some None
         } else do {
           is \<leftarrow> node_items (se_tree entry);
           map_option Some (get_ix is (se_index entry - 1))
         }
     | [] \<Rightarrow> if c_at_end self then tree_last (c_tree self) else Some None
   }"

section \<open>Aggregates of a seek\<close>

record ('t, 's, 'g) aggregate =
  begin_leaf :: "'g \<Rightarrow> 'g"
  end_leaf :: "'g \<Rightarrow> 'g rust"
  push_item :: "'t \<Rightarrow> 's \<Rightarrow> 'g \<Rightarrow> 'g rust"
  push_tree :: "('t, 's) node \<Rightarrow> 's \<Rightarrow> 'g \<Rightarrow> 'g rust"

definition unit_aggregate :: "('t, 's, unit) aggregate" where
  "unit_aggregate = \<lparr>begin_leaf = \<lambda>g. g, end_leaf = \<lambda>g. Some g, push_item = \<lambda>i s g. Some g,
     push_tree = \<lambda>t s g. Some g\<rparr>"

record ('t, 's) slice_seek_aggregate =
  sl_tree :: "('t, 's) node"
  leaf_items :: "'t list"
  leaf_item_summaries :: "'s list"
  leaf_summary :: 's

definition slice_end_leaf :: "('t, 's) item_ops \<Rightarrow> ('t, 's) slice_seek_aggregate
    \<Rightarrow> ('t, 's) slice_seek_aggregate rust" where
  "slice_end_leaf ops g = do {
     t \<leftarrow> tree_append ops (sl_tree g) (Leaf (leaf_summary g) (leaf_items g) (leaf_item_summaries g));
     Some (g\<lparr>sl_tree := t, leaf_summary := s_zero ops, leaf_items := [], leaf_item_summaries := []\<rparr>)
   }"

definition slice_push_item :: "('t, 's) item_ops \<Rightarrow> 't \<Rightarrow> 's \<Rightarrow> ('t, 's) slice_seek_aggregate
    \<Rightarrow> ('t, 's) slice_seek_aggregate rust" where
  "slice_push_item ops i s g = do {
     is \<leftarrow> arrayvec (leaf_items g @ [i]);
     ss \<leftarrow> arrayvec (leaf_item_summaries g @ [s]);
     Some (g\<lparr>leaf_items := is, leaf_item_summaries := ss,
             leaf_summary := s_add ops (leaf_summary g) s\<rparr>)
   }"

definition slice_push_tree :: "('t, 's) item_ops \<Rightarrow> ('t, 's) node \<Rightarrow> 's \<Rightarrow> ('t, 's) slice_seek_aggregate
    \<Rightarrow> ('t, 's) slice_seek_aggregate rust" where
  "slice_push_tree ops t s g = do {
     t \<leftarrow> tree_append ops (sl_tree g) t;
     Some (g\<lparr>sl_tree := t\<rparr>)
   }"

definition slice_aggregate :: "('t, 's) item_ops \<Rightarrow> ('t, 's, ('t, 's) slice_seek_aggregate) aggregate" where
  "slice_aggregate ops = \<lparr>begin_leaf = \<lambda>g. g, end_leaf = slice_end_leaf ops,
     push_item = slice_push_item ops, push_tree = slice_push_tree ops\<rparr>"

definition summary_aggregate :: "('s, 'o) dim_ops \<Rightarrow> ('t, 's, 'o) aggregate" where
  "summary_aggregate out = \<lparr>begin_leaf = \<lambda>g. g, end_leaf = \<lambda>g. Some g,
     push_item = \<lambda>i s g. Some (d_add out g s), push_tree = \<lambda>t s g. Some (d_add out g s)\<rparr>"

section \<open>Seeking forward\<close>

text \<open>
  The \<open>for\<close> loop over the children of an inner node, from the entry's index on: it returns
  the cursor position, the entry's position and index, the aggregate and the child the
  target lies in, if any.
\<close>

fun seek_children :: "('s, 'd) dim_ops \<Rightarrow> ('d \<Rightarrow> ordering) \<Rightarrow> bias \<Rightarrow> ('t, 's, 'g) aggregate
    \<Rightarrow> 'd \<Rightarrow> 'd \<Rightarrow> nat \<Rightarrow> 'g \<Rightarrow> ('t, 's) node list \<Rightarrow> 's list
    \<Rightarrow> ('d \<times> 'd \<times> nat \<times> 'g \<times> ('t, 's) node option) rust" where
  "seek_children dim target bias agg pos epos ix g (c # cts) (s # css) =
     (let child_end = d_add dim pos s
      in if goes_past (target child_end) bias
         then do { g \<leftarrow> push_tree agg c s g;
                   seek_children dim target bias agg child_end child_end (ix + 1) g cts css }
         else Some (pos, epos, ix, g, Some c))"
| "seek_children dim target bias agg pos epos ix g _ _ = Some (pos, epos, ix, g, None)"

text \<open>The loop over the items of a leaf; the flag tells whether the target was reached.\<close>

fun seek_items :: "('s, 'd) dim_ops \<Rightarrow> ('d \<Rightarrow> ordering) \<Rightarrow> bias \<Rightarrow> ('t, 's, 'g) aggregate
    \<Rightarrow> 'd \<Rightarrow> nat \<Rightarrow> 'g \<Rightarrow> 't list \<Rightarrow> 's list \<Rightarrow> ('d \<times> nat \<times> 'g \<times> bool) rust" where
  "seek_items dim target bias agg pos ix g (i # is) (s # ss) =
     (let child_end = d_add dim pos s
      in if goes_past (target child_end) bias
         then do { g \<leftarrow> push_item agg i s g;
                   seek_items dim target bias agg child_end (ix + 1) g is ss }
         else Some (pos, ix, g, True))"
| "seek_items dim target bias agg pos ix g _ _ = Some (pos, ix, g, False)"

partial_function (option) seek_loop :: "('s, 'd) dim_ops \<Rightarrow> ('d \<Rightarrow> ordering) \<Rightarrow> bias
    \<Rightarrow> ('t, 's, 'g) aggregate \<Rightarrow> ('t, 's, 'd) stack \<Rightarrow> 'd \<Rightarrow> 'g \<Rightarrow> bool
    \<Rightarrow> (('t, 's, 'd) stack \<times> 'd \<times> 'g) rust" where
  "seek_loop dim target bias agg stack pos g ascending =
     (case stack of
        [] \<Rightarrow> Some ([], pos, g)
      | entry # rest \<Rightarrow>
          (case se_tree entry of
             Internal h s css cts \<Rightarrow>
               let ix = (if ascending then se_index entry + 1 else se_index entry);
                   epos = (if ascending then pos else se_position entry)
               in if ix > length cts \<or> ix > length css then None
                  else do {
                    (pos, epos, ix, g, child) \<leftarrow>
                      seek_children dim target bias agg pos epos ix g (drop ix cts) (drop ix css);
                    case child of
                      Some c \<Rightarrow> do {
                        stack \<leftarrow> stack_push (entry_at c 0 pos)
                          (entry\<lparr>se_index := ix, se_position := epos\<rparr> # rest);
                        seek_loop dim target bias agg stack pos g False
                      }
                    | None \<Rightarrow> seek_loop dim target bias agg rest pos g True
                  }
           | Leaf s is ss \<Rightarrow>
               let ix = se_index entry
               in if ix > length is \<or> ix > length ss then None
                  else do {
                    (pos, ix, g, reached) \<leftarrow>
                      seek_items dim target bias agg pos ix (begin_leaf agg g) (drop ix is) (drop ix ss);
                    g \<leftarrow> end_leaf agg g;
                    if reached then Some (entry\<lparr>se_index := ix\<rparr> # rest, pos, g)
                    else seek_loop dim target bias agg rest pos g True
                  }))"

definition seek_internal :: "('s, 'd) dim_ops \<Rightarrow> ('d \<Rightarrow> ordering) \<Rightarrow> bias \<Rightarrow> ('t, 's, 'g) aggregate \<Rightarrow> 'g
    \<Rightarrow> ('t, 's, 'd) cursor \<Rightarrow> (bool \<times> 'g \<times> ('t, 's, 'd) cursor) rust" where
  "seek_internal dim target bias agg g self = do {
     assert_that (target (c_position self) \<noteq> Less);
     stack \<leftarrow> (if c_did_seek self then Some (c_stack self)
              else stack_push (entry_at (c_tree self) 0 (d_zero dim)) (c_stack self));
     (stack, pos, g) \<leftarrow> seek_loop dim target bias agg stack (c_position self) g False;
     let self = self\<lparr>c_did_seek := True, c_stack := stack, c_position := pos, c_at_end := (stack = [])\<rparr>;
     end \<leftarrow> (if bias = Left
            then map_option (case_option pos (d_add dim pos)) (cursor_item_summary self)
            else Some pos);
     Some (target end = Equal, g, self)
   }"

definition cursor_seek :: "('s, 'd) dim_ops \<Rightarrow> ('d \<Rightarrow> ordering) \<Rightarrow> bias \<Rightarrow> ('t, 's, 'd) cursor
    \<Rightarrow> (bool \<times> ('t, 's, 'd) cursor) rust" where
  "cursor_seek dim target bias self = do {
     (r, _, self) \<leftarrow> seek_internal dim target bias unit_aggregate () (cursor_reset dim self);
     Some (r, self)
   }"

definition cursor_seek_forward :: "('s, 'd) dim_ops \<Rightarrow> ('d \<Rightarrow> ordering) \<Rightarrow> bias \<Rightarrow> ('t, 's, 'd) cursor
    \<Rightarrow> (bool \<times> ('t, 's, 'd) cursor) rust" where
  "cursor_seek_forward dim target bias self = do {
     (r, _, self) \<leftarrow> seek_internal dim target bias unit_aggregate () self;
     Some (r, self)
   }"

definition cursor_slice :: "('t, 's) item_ops \<Rightarrow> ('s, 'd) dim_ops \<Rightarrow> ('d \<Rightarrow> ordering) \<Rightarrow> bias
    \<Rightarrow> ('t, 's, 'd) cursor \<Rightarrow> (('t, 's) node \<times> ('t, 's, 'd) cursor) rust" where
  "cursor_slice ops dim target bias self = do {
     (_, g, self) \<leftarrow> seek_internal dim target bias (slice_aggregate ops)
       \<lparr>sl_tree = tree_new ops, leaf_items = [], leaf_item_summaries = [], leaf_summary = s_zero ops\<rparr> self;
     Some (sl_tree g, self)
   }"

definition End :: "'d \<Rightarrow> ordering" where "End d = Greater"

definition cursor_suffix :: "('t, 's) item_ops \<Rightarrow> ('s, 'd) dim_ops \<Rightarrow> ('t, 's, 'd) cursor
    \<Rightarrow> (('t, 's) node \<times> ('t, 's, 'd) cursor) rust" where
  "cursor_suffix ops dim self = cursor_slice ops dim End Right self"

definition cursor_summary :: "('s, 'd) dim_ops \<Rightarrow> ('s, 'o) dim_ops \<Rightarrow> ('d \<Rightarrow> ordering) \<Rightarrow> bias
    \<Rightarrow> ('t, 's, 'd) cursor \<Rightarrow> ('o \<times> ('t, 's, 'd) cursor) rust" where
  "cursor_summary dim out target bias self = do {
     (_, g, self) \<leftarrow> seek_internal dim target bias (summary_aggregate out) (d_zero out) self;
     Some (g, self)
   }"

section \<open>Moving to the next item\<close>

text \<open>
  The inner loops of \<open>search_forward\<close> skip the children whose summary the filter rejects;
  the result is the new index, entry position and cursor position.
\<close>

fun skip_filtered :: "('s, 'd) dim_ops \<Rightarrow> ('s \<Rightarrow> bool) \<Rightarrow> nat \<Rightarrow> 'd \<Rightarrow> 'd \<Rightarrow> 's list \<Rightarrow> nat \<times> 'd \<times> 'd" where
  "skip_filtered dim F ix epos pos [] = (ix, epos, pos)"
| "skip_filtered dim F ix epos pos (s # ss) =
     (if F s then (ix, epos, pos)
      else skip_filtered dim F (ix + 1) (d_add dim epos s) (d_add dim pos s) ss)"

partial_function (option) forward_loop :: "('s, 'd) dim_ops \<Rightarrow> ('s \<Rightarrow> bool) \<Rightarrow> ('t, 's, 'd) stack \<Rightarrow> 'd
    \<Rightarrow> bool \<Rightarrow> (('t, 's, 'd) stack \<times> 'd \<times> bool) rust" where
  "forward_loop dim F stack pos descend =
     (case stack of
        [] \<Rightarrow> Some ([], pos, False)
      | entry # rest \<Rightarrow>
          (case se_tree entry of
             Internal h s css cts \<Rightarrow>
               let ix = (if descend then se_index entry else se_index entry + 1);
                   epos = (if descend then se_position entry else pos);
                   (ix, epos, pos) = skip_filtered dim F ix epos pos (drop ix css)
               in (case get_ix cts ix of
                     Some c \<Rightarrow> do {
                       stack \<leftarrow> stack_push (entry_at c 0 pos)
                         (entry\<lparr>se_index := ix, se_position := epos\<rparr> # rest);
                       forward_loop dim F stack pos True
                     }
                   | None \<Rightarrow> forward_loop dim F rest pos False)
           | Leaf s is ss \<Rightarrow> do {
               (ix, epos, pos) \<leftarrow>
                 (if descend then Some (se_index entry, se_position entry, pos)
                  else do {
                    s \<leftarrow> get_ix ss (se_index entry);
                    Some (se_index entry + 1, d_add dim (se_position entry) s, d_add dim pos s)
                  });
               let (ix, epos, pos) = skip_filtered dim F ix epos pos (drop ix ss);
               if ix < length ss
               then Some (entry\<lparr>se_index := ix, se_position := epos\<rparr> # rest, pos, True)
               else forward_loop dim F rest pos False
             }))"

definition search_forward :: "('s, 'd) dim_ops \<Rightarrow> ('s \<Rightarrow> bool) \<Rightarrow> ('t, 's, 'd) cursor
    \<Rightarrow> ('t, 's, 'd) cursor rust" where
  "search_forward dim F self = do {
     let descend = (c_stack self = [] \<and> \<not> c_at_end self);
     stack \<leftarrow> (if descend then stack_push (entry_at (c_tree self) 0 (d_zero dim)) []
              else Some (c_stack self));
     let self = self\<lparr>c_did_seek := (c_did_seek self \<or> c_stack self = [])\<rparr>;
     (stack, pos, returned) \<leftarrow> forward_loop dim F stack (c_position self) descend;
     let self = self\<lparr>c_stack := stack, c_position := pos\<rparr>;
     Some (if returned then self else self\<lparr>c_at_end := (stack = [])\<rparr>)
   }"

definition cursor_next :: "('s, 'd) dim_ops \<Rightarrow> ('t, 's, 'd) cursor \<Rightarrow> ('t, 's, 'd) cursor rust" where
  "cursor_next dim self = search_forward dim (\<lambda>_. True) self"

text \<open>\<open>impl Iterator for Cursor\<close>, and \<open>FilterCursor\<close>, which pairs a cursor with its filter.\<close>

definition cursor_iter_next :: "('s, 'd) dim_ops \<Rightarrow> ('t, 's, 'd) cursor
    \<Rightarrow> ('t option \<times> ('t, 's, 'd) cursor) rust" where
  "cursor_iter_next dim self = do {
     self \<leftarrow> (if c_did_seek self then Some self else cursor_next dim self);
     item \<leftarrow> cursor_item self;
     case item of
       Some i \<Rightarrow> do { self \<leftarrow> cursor_next dim self; Some (Some i, self) }
     | None \<Rightarrow> Some (None, self)
   }"

definition filter_iter_next :: "('s, 'd) dim_ops \<Rightarrow> ('s \<Rightarrow> bool) \<Rightarrow> ('t, 's, 'd) cursor
    \<Rightarrow> ('t option \<times> ('t, 's, 'd) cursor) rust" where
  "filter_iter_next dim F self = do {
     self \<leftarrow> (if c_did_seek self then Some self else search_forward dim F self);
     item \<leftarrow> cursor_item self;
     case item of
       Some i \<Rightarrow> do { self \<leftarrow> search_forward dim F self; Some (Some i, self) }
     | None \<Rightarrow> Some (None, self)
   }"

section \<open>Moving to the previous item\<close>

partial_function (option) backward_loop :: "('s, 'd) dim_ops \<Rightarrow> ('s \<Rightarrow> bool) \<Rightarrow> ('t, 's, 'd) stack \<Rightarrow> 'd
    \<Rightarrow> bool \<Rightarrow> (('t, 's, 'd) stack \<times> 'd) rust" where
  "backward_loop dim F stack pos descending =
     (case stack of
        [] \<Rightarrow> Some ([], pos)
      | entry # rest \<Rightarrow>
          let pos = (case rest of [] \<Rightarrow> d_zero dim | parent # _ \<Rightarrow> se_position parent)
          in if \<not> descending \<and> se_index entry = 0 then backward_loop dim F rest pos descending
             else do {
               let ix = (if descending then se_index entry else se_index entry - 1);
               let css = child_summaries_of (se_tree entry);
               assert_that (ix \<le> length css);
               let pos = foldl (d_add dim) pos (take ix css);
               let entry = entry\<lparr>se_index := ix, se_position := pos\<rparr>;
               s \<leftarrow> get_ix css ix;
               let descending = F s;
               case se_tree entry of
                 Internal h s css cts \<Rightarrow>
                   if descending then do {
                     tree \<leftarrow> get_ix cts ix;
                     n \<leftarrow> checked_sub (length (child_summaries_of tree)) 1;
                     stack \<leftarrow> stack_push (entry_at tree n (d_zero dim)) (entry # rest);
                     backward_loop dim F stack pos descending
                   } else backward_loop dim F (entry # rest) pos descending
               | Leaf s is ss \<Rightarrow>
                   if descending then Some (entry # rest, pos)
                   else backward_loop dim F (entry # rest) pos descending
             })"

definition search_backward :: "('s, 'd) dim_ops \<Rightarrow> ('s \<Rightarrow> bool) \<Rightarrow> ('t, 's, 'd) cursor
    \<Rightarrow> ('t, 's, 'd) cursor rust" where
  "search_backward dim F self = do {
     let self = (if c_did_seek self then self else self\<lparr>c_did_seek := True, c_at_end := True\<rparr>);
     self \<leftarrow>
       (if c_at_end self then do {
          let self = self\<lparr>c_position := d_zero dim, c_at_end := tree_is_empty (c_tree self)\<rparr>;
          if tree_is_empty (c_tree self) then Some self
          else do {
            stack \<leftarrow> stack_push
              (entry_at (c_tree self) (length (child_summaries_of (c_tree self)))
                (d_add dim (d_zero dim) (node_summary (c_tree self)))) (c_stack self);
            Some (self\<lparr>c_stack := stack\<rparr>)
          }
        } else Some self);
     (stack, pos) \<leftarrow> backward_loop dim F (c_stack self) (c_position self) False;
     Some (self\<lparr>c_stack := stack, c_position := pos\<rparr>)
   }"

definition cursor_prev :: "('s, 'd) dim_ops \<Rightarrow> ('t, 's, 'd) cursor \<Rightarrow> ('t, 's, 'd) cursor rust" where
  "cursor_prev dim self = search_backward dim (\<lambda>_. True) self"

section \<open>Plain iteration\<close>

record ('t, 's) tree_iter =
  it_tree :: "('t, 's) node"
  it_stack :: "('t, 's, unit) stack_entry list"

definition iter_new :: "('t, 's) node \<Rightarrow> ('t, 's) tree_iter" where
  "iter_new tree = \<lparr>it_tree = tree, it_stack = []\<rparr>"

partial_function (option) iter_loop :: "('t, 's, unit) stack \<Rightarrow> bool
    \<Rightarrow> ('t option \<times> ('t, 's, unit) stack) rust" where
  "iter_loop stack descend =
     (case stack of
        [] \<Rightarrow> Some (None, [])
      | entry # rest \<Rightarrow>
          let ix = (if descend then se_index entry else se_index entry + 1)
          in (case se_tree entry of
                Internal h s css cts \<Rightarrow>
                  (case get_ix cts ix of
                     Some c \<Rightarrow> do {
                       stack \<leftarrow> stack_push (entry_at c 0 ()) (entry\<lparr>se_index := ix\<rparr> # rest);
                       iter_loop stack True
                     }
                   | None \<Rightarrow> iter_loop rest False)
              | Leaf s is ss \<Rightarrow>
                  (case get_ix is ix of
                     Some i \<Rightarrow> Some (Some i, entry\<lparr>se_index := ix\<rparr> # rest)
                   | None \<Rightarrow> iter_loop rest False)))"

definition iter_next :: "('t, 's) tree_iter \<Rightarrow> ('t option \<times> ('t, 's) tree_iter) rust" where
  "iter_next self = do {
     let descend = (it_stack self = []);
     stack \<leftarrow> (if descend then stack_push (entry_at (it_tree self) 0 ()) [] else Some (it_stack self));
     (item, stack) \<leftarrow> iter_loop stack descend;
     Some (item, self\<lparr>it_stack := stack\<rparr>)
   }"

definition iter_last :: "('t, 's) tree_iter \<Rightarrow> 't option rust" where
  "iter_last self = do { l \<leftarrow> rightmost_leaf (it_tree self); tree_last l }"

text \<open>\<open>SumTree::items\<close> collects the items through a cursor over the unit dimension.\<close>

definition unit_dim :: "('s, unit) dim_ops" where
  "unit_dim = \<lparr>d_zero = (), d_add = \<lambda>_ _. ()\<rparr>"

partial_function (option) items_loop :: "('t, 's, unit) cursor \<Rightarrow> 't list \<Rightarrow> 't list rust" where
  "items_loop cursor items = do {
     item \<leftarrow> cursor_item cursor;
     case item of
       None \<Rightarrow> Some items
     | Some i \<Rightarrow> do { cursor \<leftarrow> cursor_next unit_dim cursor; items_loop cursor (items @ [i]) }
   }"

text \<open>The loops compute: their unfolding equations serve evaluation.\<close>

declare seek_loop.simps [code] forward_loop.simps [code] backward_loop.simps [code] iter_loop.simps [code] items_loop.simps [code]

definition sum_tree_items :: "('t, 's) node \<Rightarrow> 't list rust" where
  "sum_tree_items self = do {
     cursor \<leftarrow> cursor_next unit_dim (cursor_new unit_dim self);
     items_loop cursor []
   }"

section \<open>Invariant\<close>

text \<open>
  \<open>below_ok root t stack\<close>: the stack is the path from the root to the subtree \<open>t\<close>; the
  index of every entry selects the next node of the path and its position is the
  dimension before that child. \<open>rem_below\<close> and \<open>pre_below\<close> are the items to the right and
  to the left of \<open>t\<close>.
\<close>

fun rem_below :: "('t, 's, 'd) stack \<Rightarrow> 't list" where
  "rem_below [] = []"
| "rem_below (e # rest) =
     concat (map tree_items (drop (Suc (se_index e)) (child_trees_of (se_tree e)))) @ rem_below rest"

fun pre_below :: "('t, 's, 'd) stack \<Rightarrow> 't list" where
  "pre_below [] = []"
| "pre_below (e # rest) =
     pre_below rest @ concat (map tree_items (take (se_index e) (child_trees_of (se_tree e))))"

fun below_ok :: "('t, 's) item_ops \<Rightarrow> ('s, 'd) dim_ops \<Rightarrow> ('t, 's) node \<Rightarrow> ('t, 's) node
    \<Rightarrow> ('t, 's, 'd) stack \<Rightarrow> bool" where
  "below_ok ops dim root t [] \<longleftrightarrow> t = root"
| "below_ok ops dim root t (e # rest) \<longleftrightarrow>
     \<not> is_leaf (se_tree e) \<and> se_index e < length (child_trees_of (se_tree e))
     \<and> child_trees_of (se_tree e) ! se_index e = t
     \<and> se_position e = item_dim ops dim (d_zero dim) (pre_below (e # rest))
     \<and> below_ok ops dim root (se_tree e) rest"

text \<open>A positioned stack: its top is a leaf, at one of its items.\<close>

fun stack_ok :: "('t, 's) item_ops \<Rightarrow> ('s, 'd) dim_ops \<Rightarrow> ('t, 's) node \<Rightarrow> ('t, 's, 'd) stack \<Rightarrow> bool" where
  "stack_ok ops dim root [] \<longleftrightarrow> True"
| "stack_ok ops dim root (e # rest) \<longleftrightarrow>
     is_leaf (se_tree e) \<and> se_index e < length (items_of (se_tree e))
     \<and> below_ok ops dim root (se_tree e) rest"

fun stack_pre :: "('t, 's, 'd) stack \<Rightarrow> 't list" where
  "stack_pre [] = []"
| "stack_pre (e # rest) = pre_below rest @ take (se_index e) (items_of (se_tree e))"

fun stack_rem :: "('t, 's, 'd) stack \<Rightarrow> 't list" where
  "stack_rem [] = []"
| "stack_rem (e # rest) = drop (se_index e) (items_of (se_tree e)) @ rem_below rest"

lemma wf_child:
  assumes "wf_in fits ops t" "\<not> is_leaf t" "i < length (child_trees_of t)"
  shows "wf_in fits ops (child_trees_of t ! i)" "tree_items (child_trees_of t ! i) \<noteq> []"
    "Suc (node_height (child_trees_of t ! i)) = node_height t"
  using assms by (cases t; auto simp: list_all_length)+

lemma tree_items_split_child:
  assumes "\<not> is_leaf t" "i < length (child_trees_of t)"
  shows "tree_items t = concat (map tree_items (take i (child_trees_of t)))
    @ tree_items (child_trees_of t ! i) @ concat (map tree_items (drop (Suc i) (child_trees_of t)))"
proof -
  have "child_trees_of t = take i (child_trees_of t) @ child_trees_of t ! i # drop (Suc i) (child_trees_of t)"
    using assms(2) by (simp add: id_take_nth_drop)
  then show ?thesis
    using assms(1) by (cases t) (simp_all, metis concat.simps(2) concat_append list.simps(9) map_append)
qed

lemma below_ok_wf:
  "below_ok ops dim root t rest \<Longrightarrow> wf_in fits ops root \<Longrightarrow>
   wf_in fits ops t \<and> (rest \<noteq> [] \<longrightarrow> tree_items t \<noteq> []) \<and> node_height t + length rest = node_height root"
proof (induction rest arbitrary: t)
  case (Cons e rest)
  then have "wf_in fits ops (se_tree e)" "node_height (se_tree e) + length rest = node_height root" by auto
  then show ?case using Cons.prems wf_child [of fits ops "se_tree e" "se_index e"] by fastforce
qed auto

lemma below_ok_items:
  "below_ok ops dim root t rest \<Longrightarrow> tree_items root = pre_below rest @ tree_items t @ rem_below rest"
proof (induction rest arbitrary: t)
  case (Cons e rest)
  from Cons.IH [of "se_tree e"] Cons.prems
  have "tree_items root = pre_below rest @ tree_items (se_tree e) @ rem_below rest" by simp
  then show ?case
    using tree_items_split_child [of "se_tree e" "se_index e"] Cons.prems by simp
qed simp

lemma stack_ok_items:
  assumes "stack_ok ops dim root stack" "stack \<noteq> []"
  shows "tree_items root = stack_pre stack @ stack_rem stack" "stack_rem stack \<noteq> []"
proof -
  obtain e rest where s: "stack = e # rest" using assms(2) by (cases stack) auto
  then obtain s "is" ss where "se_tree e = Leaf s is ss" using assms(1) by (cases "se_tree e") auto
  then show "tree_items root = stack_pre stack @ stack_rem stack" "stack_rem stack \<noteq> []"
    using below_ok_items [of ops dim root "se_tree e" rest] assms(1) s by simp_all
qed

text \<open>
  \<open>cursor_in fits ops dim cur pre suf\<close>: the cursor stands between the items \<open>pre\<close> it has passed
  and the items \<open>suf\<close> ahead; the first of \<open>suf\<close> is its current item.
\<close>

definition cursor_in :: "('t list \<Rightarrow> bool) \<Rightarrow> ('t, 's) item_ops \<Rightarrow> ('s, 'd) dim_ops \<Rightarrow> ('t, 's, 'd) cursor \<Rightarrow> 't list \<Rightarrow> 't list \<Rightarrow> bool" where
  "cursor_in fits ops dim cur pre suf \<longleftrightarrow>
     wf_in fits ops (c_tree cur) \<and> node_height (c_tree cur) < STACK_CAPACITY
     \<and> tree_items (c_tree cur) = pre @ suf
     \<and> c_position cur = item_dim ops dim (d_zero dim) pre
     \<and> stack_ok ops dim (c_tree cur) (c_stack cur)
     \<and> (if c_did_seek cur
        then c_at_end cur = (c_stack cur = []) \<and> suf = stack_rem (c_stack cur)
        else c_stack cur = [] \<and> pre = [] \<and> c_at_end cur = (suf = []))"

abbreviation cursor_at :: "('t, 's) item_ops \<Rightarrow> ('s, 'd) dim_ops \<Rightarrow> ('t, 's, 'd) cursor \<Rightarrow> 't list \<Rightarrow> 't list \<Rightarrow> bool" where
  "cursor_at ops \<equiv> cursor_in (\<lambda>_. True) ops"

lemma cursor_in_fits: "cursor_in fits ops dim cur pre suf \<Longrightarrow> fits (pre @ suf)"
  using wf_in_fits [of fits ops "c_tree cur"] by (simp add: cursor_in_def)

lemma cursor_new_at:
  "wf_in fits ops t \<Longrightarrow> node_height t < STACK_CAPACITY \<Longrightarrow> cursor_in fits ops dim (cursor_new dim t) [] (tree_items t)"
  by (simp add: cursor_in_def cursor_new_def wf_in_is_empty)

lemma cursor_reset_at:
  "cursor_in fits ops dim cur pre suf \<Longrightarrow> cursor_in fits ops dim (cursor_reset dim cur) [] (pre @ suf)"
  using wf_in_is_empty [of fits ops "c_tree cur"] by (simp add: cursor_in_def cursor_reset_def)

lemma cursor_item_at:
  assumes "cursor_in fits ops dim cur pre suf" "c_did_seek cur"
  shows "cursor_item cur = Some (first_opt suf)"
    and "cursor_item_summary cur = Some (map_option (it_summary ops) (first_opt suf))"
proof -
  have "cursor_item cur = Some (first_opt suf)
    \<and> cursor_item_summary cur = Some (map_option (it_summary ops) (first_opt suf))"
  proof (cases "c_stack cur")
    case Nil
    then show ?thesis
      using assms by (simp add: cursor_in_def cursor_item_def cursor_item_summary_def assert_did_seek_def first_opt_def)
  next
    case (Cons e rest)
    then have ok: "stack_ok ops dim (c_tree cur) (e # rest)" and suf: "suf = stack_rem (e # rest)"
      and w: "wf_in fits ops (c_tree cur)"
      using assms by (simp_all add: cursor_in_def)
    obtain s "is" ss where l: "se_tree e = Leaf s is ss" using ok by (cases "se_tree e") auto
    with ok w have "ss = map (it_summary ops) is" "se_index e < length is"
      using below_ok_wf [of ops dim "c_tree cur" "se_tree e" rest fits] by simp_all
    then show ?thesis
      using assms(2) suf l Cons
      by (simp add: cursor_item_def cursor_item_summary_def assert_did_seek_def first_opt_def
          Cons_nth_drop_Suc [symmetric])
  qed
  then show "cursor_item cur = Some (first_opt suf)"
    and "cursor_item_summary cur = Some (map_option (it_summary ops) (first_opt suf))" by simp_all
qed

section \<open>Correctness of seeking\<close>

text \<open>
  What a seek needs of its aggregate: \<open>rel n g xs\<close> says that \<open>g\<close> has collected the items
  \<open>xs\<close> and can take \<open>n\<close> more pieces (leaves, or trees of height at most \<open>bound\<close>), and
  \<open>leaf_rel n k g xs\<close> that \<open>k\<close> of the items came from the leaf that is open.
\<close>

locale aggregate_laws = summary_laws ops fits for ops :: "('t, 's) item_ops" and fits +
  fixes agg :: "('t, 's, 'g) aggregate"
    and bound :: nat
    and rel :: "nat \<Rightarrow> 'g \<Rightarrow> 't list \<Rightarrow> bool"
    and leaf_rel :: "nat \<Rightarrow> nat \<Rightarrow> 'g \<Rightarrow> 't list \<Rightarrow> bool"
  assumes agg_mono: "rel n g xs \<Longrightarrow> m \<le> n \<Longrightarrow> rel m g xs"
    and agg_begin: "rel (Suc n) g xs \<Longrightarrow> leaf_rel n 0 (begin_leaf agg g) xs"
    and agg_end: "leaf_rel n k g xs \<Longrightarrow> \<exists>g'. end_leaf agg g = Some g' \<and> rel n g' xs"
    and agg_item: "leaf_rel n k g xs \<Longrightarrow> k < 12
      \<Longrightarrow> \<exists>g'. push_item agg i (it_summary ops i) g = Some g' \<and> leaf_rel n (Suc k) g' (xs @ [i])"
    and agg_tree: "rel (Suc n) g xs \<Longrightarrow> wf_in fits ops t \<Longrightarrow> tree_items t \<noteq> [] \<Longrightarrow> node_height t \<le> bound
      \<Longrightarrow> \<exists>g'. push_tree agg t (node_summary t) g = Some g' \<and> rel n g' (xs @ tree_items t)"

locale seek_laws = dimension_laws ops fits dim + aggregate_laws ops fits agg bound rel leaf_rel
  for ops :: "('t, 's) item_ops" and fits and dim :: "('s, 'd) dim_ops"
    and agg :: "('t, 's, 'g) aggregate" and bound rel leaf_rel

lemma stack_push_ok [simp]: "length st < 16 \<Longrightarrow> stack_push e st = Some (e # st)"
  by (simp add: stack_push_def STACK_CAPACITY_def)

text \<open>
  The outcome of a seek over the items \<open>ys\<close> that remain, after the items \<open>pre\<close> of the
  whole tree: the target's split of \<open>ys\<close> determines the position, what the aggregate
  collects in addition to \<open>xs\<close>, and where the stack ends.
\<close>

definition sought :: "('t, 's) item_ops \<Rightarrow> ('s, 'd) dim_ops \<Rightarrow> ('g \<Rightarrow> 't list \<Rightarrow> bool) \<Rightarrow> ('d \<Rightarrow> ordering) \<Rightarrow> bias
    \<Rightarrow> ('t, 's) node \<Rightarrow> 't list \<Rightarrow> 't list \<Rightarrow> 't list \<Rightarrow> (('t, 's, 'd) stack \<times> 'd \<times> 'g) rust \<Rightarrow> bool" where
  "sought ops dim rel target bias root xs pre ys r \<longleftrightarrow>
     (\<exists>a b st g. seek_split ops dim (past target bias) (item_dim ops dim (d_zero dim) pre) ys = (a, b)
        \<and> r = Some (st, item_dim ops dim (d_zero dim) (pre @ a), g)
        \<and> rel g (xs @ a) \<and> stack_ok ops dim root st \<and> stack_rem st = b)"

lemma sought_past:
  assumes "us \<noteq> [] \<Longrightarrow> goes_past (target (item_dim ops dim (d_zero dim) (pre @ us))) bias"
    and "monotone_target ops dim target (item_dim ops dim (d_zero dim) pre) (us @ ys)"
    and "sought ops dim rel target bias root (xs @ us) (pre @ us) ys r"
  shows "sought ops dim rel target bias root xs pre (us @ ys) r"
proof (cases "us = []")
  case False
  from seek_split_past [OF False _ monotone_target_append(1) [OF assms(2)], of bias ys]
  show ?thesis using assms(1,3) False by (auto simp: sought_def split: prod.splits)
qed (use assms(3) in simp)

context seek_laws
begin

lemma seek_items_ok:
  assumes "leaf_rel m n g xs" "n + length is \<le> 12" "seek_split ops dim (past target bias) pos is = (a, b)"
  shows "\<exists>g'. seek_items dim target bias agg pos ix g is (map (it_summary ops) is)
      = Some (item_dim ops dim pos a, ix + length a, g', b \<noteq> []) \<and> leaf_rel m (n + length a) g' (xs @ a)"
  using assms
proof (induction "is" arbitrary: n g xs pos ix a b)
  case (Cons i "is")
  let ?e = "d_add dim pos (it_summary ops i)"
  show ?case
  proof (cases "goes_past (target ?e) bias")
    case True
    then obtain a' where a: "a = i # a'" "seek_split ops dim (past target bias) ?e is = (a', b)"
      using Cons.prems(3) by (auto simp: Let_def split: prod.splits)
    from agg_item [OF Cons.prems(1), of i] Cons.prems(2) obtain g' where
      "push_item agg i (it_summary ops i) g = Some g'" "leaf_rel m (Suc n) g' (xs @ [i])" by auto
    then show ?thesis
      using Cons.IH [of "Suc n" g' "xs @ [i]" ?e a' b "ix + 1"] a Cons.prems(2) True by (auto simp: Let_def)
  next
    case False
    then show ?thesis using Cons.prems by (auto simp: Let_def)
  qed
qed simp

lemma seek_children_ok:
  assumes "rel (n + length cs) g xs" "kids_in fits ops h cs" "h \<le> Suc bound"
    and "monotone_target ops dim target pos (concat (map tree_items cs))"
  shows "\<exists>us vs g'. cs = us @ vs
      \<and> seek_children dim target bias agg pos pos ix g cs (map node_summary cs)
        = Some (item_dim ops dim pos (concat (map tree_items us)), item_dim ops dim pos (concat (map tree_items us)),
            ix + length us, g', first_opt vs)
      \<and> rel (n + length vs) g' (xs @ concat (map tree_items us))
      \<and> (us \<noteq> [] \<longrightarrow> goes_past (target (item_dim ops dim pos (concat (map tree_items us)))) bias)
      \<and> (vs \<noteq> [] \<longrightarrow> \<not> goes_past (target (item_dim ops dim pos (concat (map tree_items us) @ tree_items (hd vs)))) bias)"
  using assms
proof (induction cs arbitrary: g xs pos ix)
  case Nil
  then show ?case by (simp add: first_opt_def)
next
  case (Cons c cs)
  then have c: "wf_in fits ops c" "tree_items c \<noteq> []" "node_height c \<le> bound" by simp_all
  note m = monotone_target_append [OF Cons.prems(4) [unfolded list.map concat.simps]]
  let ?e = "item_dim ops dim pos (tree_items c)"
  show ?case
  proof (cases "goes_past (target ?e) bias")
    case True
    from agg_tree [OF _ c, of "n + length cs" g xs] Cons.prems(1) obtain g' where
      g: "push_tree agg c (node_summary c) g = Some g'" "rel (n + length cs) g' (xs @ tree_items c)" by auto
    have "kids_in fits ops h cs" using Cons.prems(2) by simp
    from Cons.IH [OF g(2) this Cons.prems(3) m(2), of "ix + 1"] obtain us vs g'' where
      "cs = us @ vs"
      "seek_children dim target bias agg ?e ?e (ix + 1) g' cs (map node_summary cs)
        = Some (item_dim ops dim ?e (concat (map tree_items us)), item_dim ops dim ?e (concat (map tree_items us)),
            ix + 1 + length us, g'', first_opt vs)"
      "rel (n + length vs) g'' ((xs @ tree_items c) @ concat (map tree_items us))"
      "us \<noteq> [] \<longrightarrow> goes_past (target (item_dim ops dim ?e (concat (map tree_items us)))) bias"
      "vs \<noteq> [] \<longrightarrow> \<not> goes_past (target (item_dim ops dim ?e (concat (map tree_items us) @ tree_items (hd vs)))) bias"
      by blast
    then show ?thesis
      using True g(1) c by (intro exI [of _ "c # us"] exI [of _ vs] exI [of _ g'']) (auto simp: Let_def dim_node)
  next
    case False
    then show ?thesis using Cons.prems(1) c
      by (intro exI [of _ "[]"] exI [of _ "c # cs"] exI [of _ g]) (auto simp: Let_def dim_node first_opt_def)
  qed
qed

end

lemma take_add_us: "drop j cts = us @ vs \<Longrightarrow> take (j + length us) cts = take j cts @ us"
  by (metis append_eq_conv_conj take_add)

lemma drop_add_us: "drop j cts = us @ vs \<Longrightarrow> drop (j + length us) cts = vs"
  by (metis add.commute append_eq_conv_conj drop_drop)

context seek_laws
begin

lemma internal_step:
  assumes root: "wf_in fits ops root" "node_height root < STACK_CAPACITY" "node_height root \<le> Suc bound"
    and e: "se_tree e = Internal h s css cts" "below_ok ops dim root (se_tree e) rest"
    and j: "j = (if ascending then Suc (se_index e) else se_index e)" "j \<le> length cts"
    and pos: "pos = item_dim ops dim (d_zero dim) (pre_below rest @ concat (map tree_items (take j cts)))"
      "\<not> ascending \<Longrightarrow> se_position e = pos"
    and mono: "monotone_target ops dim target pos (concat (map tree_items (drop j cts)) @ rem_below rest)"
    and g: "rel (n + length (drop j cts)) g xs"
    and down: "\<And>c rest' pos' g' xs'. c \<in> set cts \<Longrightarrow> below_ok ops dim root c rest' \<Longrightarrow> tree_items c \<noteq> []
      \<Longrightarrow> pos' = item_dim ops dim (d_zero dim) (pre_below rest')
      \<Longrightarrow> monotone_target ops dim target pos' (tree_items c @ rem_below rest')
      \<Longrightarrow> \<not> goes_past (target (item_dim ops dim pos' (tree_items c))) bias \<Longrightarrow> rel n g' xs'
      \<Longrightarrow> sought ops dim (rel 0) target bias root xs' (pre_below rest') (tree_items c @ rem_below rest')
            (seek_loop dim target bias agg (entry_at c 0 pos' # rest') pos' g' False)"
  shows "(\<exists>g'. rel n g' (xs @ concat (map tree_items (drop j cts)))
        \<and> (drop j cts \<noteq> [] \<longrightarrow> goes_past (target (item_dim ops dim pos (concat (map tree_items (drop j cts))))) bias)
        \<and> seek_loop dim target bias agg (e # rest) pos g ascending
          = seek_loop dim target bias agg rest (item_dim ops dim pos (concat (map tree_items (drop j cts)))) g' True)
    \<or> sought ops dim (rel 0) target bias root xs (pre_below rest @ concat (map tree_items (take j cts)))
        (concat (map tree_items (drop j cts)) @ rem_below rest)
        (seek_loop dim target bias agg (e # rest) pos g ascending)"
proof -
  note bw = below_ok_wf [OF e(2) root(1)]
  then have k: "kids_in fits ops h cts" "css = map node_summary cts" and h: "0 < h" "h + length rest = node_height root"
    using e(1) by (auto simp: neq_Nil_conv)
  have kd: "kids_in fits ops h (drop j cts)" using k(1) by (auto simp: list_all_iff dest: in_set_dropD)
  have hb: "h \<le> Suc bound" using h(2) root(3) by simp
  from seek_children_ok [OF g kd hb monotone_target_append(1) [OF mono], of bias j] obtain us vs g' where uv:
    "drop j cts = us @ vs"
    "seek_children dim target bias agg pos pos j g (drop j cts) (map node_summary (drop j cts))
       = Some (item_dim ops dim pos (concat (map tree_items us)), item_dim ops dim pos (concat (map tree_items us)),
           j + length us, g', first_opt vs)"
    "rel (n + length vs) g' (xs @ concat (map tree_items us))"
    "us \<noteq> [] \<longrightarrow> goes_past (target (item_dim ops dim pos (concat (map tree_items us)))) bias"
    "vs \<noteq> [] \<longrightarrow> \<not> goes_past (target (item_dim ops dim pos (concat (map tree_items us) @ tree_items (hd vs)))) bias"
    by blast
  let ?pos = "item_dim ops dim pos (concat (map tree_items us))"
  let ?e = "e\<lparr>se_index := j + length us, se_position := ?pos\<rparr>"
  have step: "seek_loop dim target bias agg (e # rest) pos g ascending =
    (case first_opt vs of
       Some c \<Rightarrow> do { stack \<leftarrow> stack_push (entry_at c 0 ?pos) (?e # rest);
                     seek_loop dim target bias agg stack ?pos g' False }
     | None \<Rightarrow> seek_loop dim target bias agg rest ?pos g' True)"
  proof -
    have ix: "(if ascending then se_index e + 1 else se_index e) = j" using j(1) by simp
    have ep: "(if ascending then pos else se_position e) = pos" using pos(2) by simp
    show ?thesis
      using j(2) uv(2) k(2) by (subst seek_loop.simps) (simp add: e(1) ix ep Let_def drop_map)
  qed
  show ?thesis
  proof (cases vs)
    case Nil
    then show ?thesis using uv step by (auto simp: first_opt_def)
  next
    case (Cons c ws)
    have j': "j + length us < length cts" "cts ! (j + length us) = c"
      using drop_add_us [OF uv(1)] Cons by (metis drop_eq_Nil2 list.distinct(1) not_le, metis hd_drop_conv_nth drop_eq_Nil2 list.distinct(1) list.sel(1) not_le)
    have below: "below_ok ops dim root c (?e # rest)"
      using j' e pos(1) take_add_us [OF uv(1)] by simp
    have rem: "rem_below (?e # rest) = concat (map tree_items ws) @ rem_below rest"
      using drop_add_us [OF uv(1)] Cons e(1) by (simp add: drop_Suc flip: tl_drop)
    have pre: "pre_below (?e # rest) = pre_below rest @ concat (map tree_items (take j cts)) @ concat (map tree_items us)"
      using take_add_us [OF uv(1)] e(1) by simp
    have c: "c \<in> set cts" "tree_items c \<noteq> []" using uv(1) Cons kd by (metis in_set_conv_decomp in_set_dropD, simp)
    have mono': "monotone_target ops dim target ?pos (tree_items c @ rem_below (?e # rest))"
      using monotone_target_append(2) [of ops dim target pos "concat (map tree_items us)"] mono uv(1) Cons rem
      by simp
    have deeper: "sought ops dim (rel 0) target bias root (xs @ concat (map tree_items us)) (pre_below (?e # rest))
        (tree_items c @ rem_below (?e # rest))
        (seek_loop dim target bias agg (entry_at c 0 ?pos # ?e # rest) ?pos g' False)"
      by (rule down [OF c(1) below c(2) _ mono' _ agg_mono [OF uv(3)]]) (use uv(5) Cons pos(1) pre in auto)
    have "sought ops dim (rel 0) target bias root xs (pre_below rest @ concat (map tree_items (take j cts)))
        (concat (map tree_items us) @ tree_items c @ rem_below (?e # rest))
        (seek_loop dim target bias agg (entry_at c 0 ?pos # ?e # rest) ?pos g' False)"
    proof (rule sought_past)
      show "concat (map tree_items us) \<noteq> [] \<Longrightarrow> goes_past (target (item_dim ops dim (d_zero dim)
          ((pre_below rest @ concat (map tree_items (take j cts))) @ concat (map tree_items us)))) bias"
        using uv(4) pos(1) by auto
      show "monotone_target ops dim target
          (item_dim ops dim (d_zero dim) (pre_below rest @ concat (map tree_items (take j cts))))
          (concat (map tree_items us) @ tree_items c @ rem_below (?e # rest))"
        using mono pos(1) uv(1) Cons rem by simp
    qed (use deeper pre in simp)
    moreover have "length rest < 15" using h root(2) by (simp add: STACK_CAPACITY_def)
    ultimately show ?thesis using step Cons uv(1) rem by (simp add: first_opt_def)
  qed
qed

end

context seek_laws
begin

lemma leaf_step:
  assumes root: "wf_in fits ops root"
    and e: "se_tree e = Leaf s is ss" "below_ok ops dim root (se_tree e) rest" "se_index e \<le> length is"
    and pos: "pos = item_dim ops dim (d_zero dim) (pre_below rest @ take (se_index e) is)"
    and g: "rel (Suc n) g xs"
    and split: "seek_split ops dim (past target bias) pos (drop (se_index e) is) = (a, b)"
  shows "\<exists>g'. rel n g' (xs @ a) \<and> seek_loop dim target bias agg (e # rest) pos g ascending =
      (if b = [] then seek_loop dim target bias agg rest (item_dim ops dim pos a) g' True
       else Some (e\<lparr>se_index := se_index e + length a\<rparr> # rest, item_dim ops dim pos a, g'))"
proof -
  have w: "length is \<le> 12" "ss = map (it_summary ops) is"
    using below_ok_wf [OF e(2) root] e(1) by (simp_all add: TREE_BASE_def)
  have "0 + length (drop (se_index e) is) \<le> 12" using w(1) by simp
  from seek_items_ok [OF agg_begin [OF g] this split, of "se_index e"] obtain g1 where g1:
    "seek_items dim target bias agg pos (se_index e) (begin_leaf agg g) (drop (se_index e) is)
       (map (it_summary ops) (drop (se_index e) is))
      = Some (item_dim ops dim pos a, se_index e + length a, g1, b \<noteq> [])"
    "leaf_rel n (0 + length a) g1 (xs @ a)" by blast
  from agg_end [OF g1(2)] obtain g' where "end_leaf agg g1 = Some g'" "rel n g' (xs @ a)" by blast
  then show ?thesis
    using g1(1) e w(2) by (intro exI [of _ g'], subst seek_loop.simps) (simp add: Let_def drop_map)
qed

lemma leaf_sought:
  assumes root: "wf_in fits ops root"
    and e: "se_tree e = Leaf s is ss" "below_ok ops dim root (se_tree e) rest" "se_index e \<le> length is"
    and pos: "pos = item_dim ops dim (d_zero dim) (pre_below rest @ take (se_index e) is)"
    and g: "rel (Suc n) g xs"
    and n: "drop (se_index e) is \<noteq> []"
      "\<not> goes_past (target (item_dim ops dim pos (drop (se_index e) is))) bias"
  shows "sought ops dim (rel 0) target bias root xs (pre_below rest @ take (se_index e) is)
    (drop (se_index e) is @ rem_below rest) (seek_loop dim target bias agg (e # rest) pos g ascending)"
proof -
  from seek_split_not_past [OF n(1), where p = "past target bias", OF n(2), of "rem_below rest"]
  obtain a i b where ab: "seek_split ops dim (past target bias) pos (drop (se_index e) is) = (a, i # b)"
    "seek_split ops dim (past target bias) pos (drop (se_index e) is @ rem_below rest) = (a, i # b @ rem_below rest)"
    by blast
  have d: "drop (se_index e) is = a @ i # b" using seek_split_concat [OF ab(1)] .
  have l: "se_index e + length a < length is"
    by (metis d drop_add_us drop_eq_Nil2 list.distinct(1) not_le)
  show ?thesis
    using leaf_step [OF root e pos g ab(1), of ascending] ab(2) pos e l drop_add_us [OF d]
    agg_mono [of n _ "xs @ a" 0] unfolding sought_def by auto
qed

lemma seek_descend:
  assumes "wf_in fits ops root" "node_height root < STACK_CAPACITY" "node_height root \<le> Suc bound"
  shows "below_ok ops dim root t rest \<Longrightarrow> tree_items t \<noteq> []
    \<Longrightarrow> pos = item_dim ops dim (d_zero dim) (pre_below rest)
    \<Longrightarrow> monotone_target ops dim target pos (tree_items t @ rem_below rest)
    \<Longrightarrow> \<not> goes_past (target (item_dim ops dim pos (tree_items t))) bias \<Longrightarrow> rel (12 * node_height t + 1) g xs
    \<Longrightarrow> sought ops dim (rel 0) target bias root xs (pre_below rest) (tree_items t @ rem_below rest)
          (seek_loop dim target bias agg (entry_at t 0 pos # rest) pos g False)"
proof (induction t arbitrary: rest pos g xs)
  case (Internal h s css cts)
  let ?t = "Internal h s css cts"
  have "\<not> (drop 0 cts \<noteq> [] \<longrightarrow> goes_past (target (item_dim ops dim pos (concat (map tree_items (drop 0 cts))))) bias)"
    using Internal.prems(2,5) by auto
  moreover have k: "length cts \<le> 12" "0 < h" "\<forall>c \<in> set cts. Suc (node_height c) = h"
    using below_ok_wf [OF Internal.prems(1) assms(1)] by (auto simp: TREE_BASE_def list_all_iff neq_Nil_conv)
  moreover have "rel (12 * (h - 1) + 1 + length (drop 0 cts)) g xs"
    using k by (intro agg_mono [OF Internal.prems(6)]) (cases h, simp_all)
  moreover have "rel (12 * (h - 1) + 1) g' xs' \<Longrightarrow> rel (12 * node_height c + 1) g' xs'" if "c \<in> set cts" for c g' xs'
    using k(3) that by auto
  ultimately show ?case
    using internal_step [OF assms, of "entry_at ?t 0 pos" h s css cts rest 0 False pos target "12 * (h - 1) + 1" g xs bias]
      Internal.IH Internal.prems(1-5)
    by (simp add: entry_at_def)
next
  case (Leaf s "is" ss)
  then show ?case
    using leaf_sought [OF assms(1), of "entry_at (Leaf s is ss) 0 pos" s "is" ss rest pos 0 g xs target bias False]
    by (simp add: entry_at_def)
qed

lemma seek_ascend:
  assumes root: "wf_in fits ops root" "node_height root < STACK_CAPACITY" "node_height root \<le> Suc bound"
  shows "below_ok ops dim root t rest
    \<Longrightarrow> pos = item_dim ops dim (d_zero dim) (pre_below rest @ tree_items t)
    \<Longrightarrow> monotone_target ops dim target pos (rem_below rest)
    \<Longrightarrow> rel (12 * length rest + 12 * node_height root + 1) g xs
    \<Longrightarrow> sought ops dim (rel 0) target bias root xs (pre_below rest @ tree_items t) (rem_below rest)
          (seek_loop dim target bias agg rest pos g True)"
proof (induction rest arbitrary: t pos g xs)
  case Nil
  then show ?case using agg_mono [of _ g xs 0] by (subst seek_loop.simps) (simp add: sought_def)
next
  case (Cons e rest)
  then obtain h s css cts where e: "se_tree e = Internal h s css cts" by (cases "se_tree e") auto
  let ?j = "Suc (se_index e)"
  let ?Z = "concat (map tree_items (drop ?j cts))"
  have b: "below_ok ops dim root (se_tree e) rest" "se_index e < length cts" "cts ! se_index e = t"
    using Cons.prems(1) e by simp_all
  have pre: "pre_below (e # rest) @ tree_items t = pre_below rest @ concat (map tree_items (take ?j cts))"
    using b e by (simp add: take_Suc_conv_app_nth)
  have items: "tree_items (se_tree e) = concat (map tree_items (take ?j cts)) @ ?Z"
    using e by (metis append_take_drop_id concat_append map_append tree_items.simps(1))
  have m: "monotone_target ops dim target pos (?Z @ rem_below rest)" using Cons.prems(3) e by simp
  have bw: "length cts \<le> 12" "h \<le> node_height root" "\<forall>c \<in> set cts. Suc (node_height c) = h"
    using below_ok_wf [OF b(1) root(1)] e by (auto simp: TREE_BASE_def list_all_iff)
  let ?n = "12 * length rest + 12 * node_height root + 1"
  have n: "rel (?n + length (drop ?j cts)) g xs" using bw(1) by (intro agg_mono [OF Cons.prems(4)]) simp
  have down: "rel ?n g' xs' \<Longrightarrow> rel (12 * node_height c + 1) g' xs'" if "c \<in> set cts" for c g' xs'
  proof -
    have "12 * node_height c + 1 \<le> ?n" using bw(2) bw(3) [rule_format, OF that] by linarith
    then show "rel ?n g' xs' \<Longrightarrow> rel (12 * node_height c + 1) g' xs'" by (rule agg_mono [rotated])
  qed
  consider (past) g' where "rel ?n g' (xs @ ?Z)" "drop ?j cts \<noteq> [] \<longrightarrow> goes_past (target (item_dim ops dim pos ?Z)) bias"
      "seek_loop dim target bias agg (e # rest) pos g True = seek_loop dim target bias agg rest (item_dim ops dim pos ?Z) g' True"
    | (in_child) "sought ops dim (rel 0) target bias root xs (pre_below rest @ concat (map tree_items (take ?j cts)))
        (?Z @ rem_below rest) (seek_loop dim target bias agg (e # rest) pos g True)"
    using internal_step [OF root e b(1), of ?j True pos target ?n g xs bias] seek_descend [OF root] down n Cons.prems(2) b(2) m
    unfolding pre by auto
  then show ?case
  proof cases
    case past
    have "sought ops dim (rel 0) target bias root (xs @ ?Z) (pre_below rest @ tree_items (se_tree e)) (rem_below rest)
        (seek_loop dim target bias agg rest (item_dim ops dim pos ?Z) g' True)"
      by (rule Cons.IH [OF b(1) _ monotone_target_append(2) [OF m] past(1)])
        (use Cons.prems(2) in \<open>unfold pre items, simp\<close>)
    then have "sought ops dim (rel 0) target bias root xs (pre_below (e # rest) @ tree_items t) (?Z @ rem_below rest)
        (seek_loop dim target bias agg rest (item_dim ops dim pos ?Z) g' True)"
      using past(2) m Cons.prems(2) unfolding pre items
      by (intro sought_past) auto
    then show ?thesis using past(3) e by simp
  next
    case in_child
    then show ?thesis using pre e by simp
  qed
qed

end

lemma item_dim_take_drop [simp]:
  "item_dim ops dim (item_dim ops dim d (take n xs)) (drop n xs) = item_dim ops dim d xs"
  by (simp flip: item_dim_simps(3))

context seek_laws
begin

lemma leaf_sought_any:
  assumes root: "wf_in fits ops root" "node_height root < STACK_CAPACITY" "node_height root \<le> Suc bound"
    and e: "se_tree e = Leaf s is ss" "below_ok ops dim root (se_tree e) rest" "se_index e \<le> length is"
    and pos: "pos = item_dim ops dim (d_zero dim) (pre_below rest @ take (se_index e) is)"
    and mono: "monotone_target ops dim target pos (drop (se_index e) is @ rem_below rest)"
    and g: "rel (12 * length rest + 12 * node_height root + 2) g xs"
  shows "sought ops dim (rel 0) target bias root xs (pre_below rest @ take (se_index e) is)
    (drop (se_index e) is @ rem_below rest) (seek_loop dim target bias agg (e # rest) pos g ascending)"
proof (cases "drop (se_index e) is \<noteq> [] \<and> \<not> goes_past (target (item_dim ops dim pos (drop (se_index e) is))) bias")
  case True
  have "rel (Suc 0) g xs" by (rule agg_mono [OF g]) simp
  then show ?thesis using leaf_sought [OF root(1) e pos] True by blast
next
  case False
  let ?Z = "drop (se_index e) is"
  have "seek_split ops dim (past target bias) pos ?Z = (?Z, [])"
    using seek_split_past [of ?Z target ops dim pos bias "[]"] monotone_target_append(1) [OF mono] False
    by (cases "?Z = []") auto
  moreover have "rel (Suc (12 * length rest + 12 * node_height root + 1)) g xs" using g by simp
  ultimately obtain g' where
    g': "rel (12 * length rest + 12 * node_height root + 1) g' (xs @ ?Z)" "seek_loop dim target bias agg (e # rest) pos g ascending
      = seek_loop dim target bias agg rest (item_dim ops dim pos ?Z) g' True"
    using leaf_step [OF root(1) e pos, of "12 * length rest + 12 * node_height root + 1" g xs target bias ?Z "[]" ascending] by auto
  have "sought ops dim (rel 0) target bias root (xs @ ?Z) (pre_below rest @ tree_items (se_tree e)) (rem_below rest)
      (seek_loop dim target bias agg rest (item_dim ops dim pos ?Z) g' True)"
    by (rule seek_ascend [OF root e(2) _ monotone_target_append(2) [OF mono] g'(1)])
      (use e pos in simp)
  then show ?thesis unfolding g'(2) using False mono pos e(1)
    by (intro sought_past) auto
qed

lemma root_sought:
  assumes root: "wf_in fits ops root" "node_height root < STACK_CAPACITY" "node_height root \<le> Suc bound"
    and mono: "monotone_target ops dim target (d_zero dim) (tree_items root)"
    and g: "rel (24 * node_height root + 2) g xs"
  shows "sought ops dim (rel 0) target bias root xs [] (tree_items root)
    (seek_loop dim target bias agg [entry_at root 0 (d_zero dim)] (d_zero dim) g False)"
proof (cases root)
  case (Leaf s "is" ss)
  moreover have "rel (12 * length [] + 12 * node_height root + 2) g xs" by (rule agg_mono [OF g]) simp
  ultimately show ?thesis
    using leaf_sought_any [OF root, of "entry_at root 0 (d_zero dim)" s "is" ss "[]" "d_zero dim" target g xs bias False]
      mono by (simp add: entry_at_def)
next
  case (Internal h s css cts)
  have e: "se_tree (entry_at root 0 (d_zero dim)) = Internal h s css cts"
    "below_ok ops dim root (se_tree (entry_at root 0 (d_zero dim))) []"
    using Internal by (simp_all add: entry_at_def)
  have "cts \<noteq> []" using root(1) Internal by simp
  moreover have k: "length cts \<le> 12" "0 < h" "\<forall>c \<in> set cts. Suc (node_height c) = h" "h = node_height root"
    using root(1) Internal by (auto simp: TREE_BASE_def list_all_iff neq_Nil_conv)
  let ?n = "12 * (h - 1) + 1"
  have n: "rel (?n + length (drop 0 cts)) g xs" using k by (intro agg_mono [OF g]) simp
  have down: "rel ?n g' xs' \<Longrightarrow> rel (12 * node_height c + 1) g' xs'" if "c \<in> set cts" for c g' xs'
    using k(3) that by auto
  ultimately consider (past) g' where "rel ?n g' (xs @ tree_items root)"
      "tree_items root \<noteq> [] \<longrightarrow> goes_past (target (item_dim ops dim (d_zero dim) (tree_items root))) bias"
      "seek_loop dim target bias agg [entry_at root 0 (d_zero dim)] (d_zero dim) g False
        = seek_loop dim target bias agg [] (item_dim ops dim (d_zero dim) (tree_items root)) g' True"
    | (in_child) "sought ops dim (rel 0) target bias root xs [] (tree_items root)
        (seek_loop dim target bias agg [entry_at root 0 (d_zero dim)] (d_zero dim) g False)"
    using internal_step [OF root e, of 0 False "d_zero dim" target ?n g xs bias] seek_descend [OF root] down n mono Internal
    by (auto simp: entry_at_def)
  then show ?thesis
  proof cases
    case past
    have "sought ops dim (rel 0) target bias root (xs @ tree_items root) ([] @ tree_items root) []
        (seek_loop dim target bias agg [] (item_dim ops dim (d_zero dim) (tree_items root)) g' True)"
      using agg_mono [OF past(1), of 0] by (subst seek_loop.simps) (simp add: sought_def)
    then have "sought ops dim (rel 0) target bias root xs [] (tree_items root @ [])
        (seek_loop dim target bias agg [] (item_dim ops dim (d_zero dim) (tree_items root)) g' True)"
      using past(2) mono by (intro sought_past) auto
    then show ?thesis using past(3) by simp
  qed
qed

lemma seek_internal_ok:
  assumes cur: "cursor_in fits ops dim cur pre suf" and "target (c_position cur) \<noteq> Less"
    and mono: "monotone_target ops dim target (c_position cur) suf" and g: "rel (24 * node_height (c_tree cur) + 2) g xs"
    and bound: "node_height (c_tree cur) \<le> Suc bound"
    and split: "seek_split ops dim (past target bias) (c_position cur) suf = (a, b)"
  shows "\<exists>g' cur'. seek_internal dim target bias agg g cur
      = Some (target (item_dim ops dim (c_position cur) (if bias = Left then a @ take 1 b else a)) = Equal, g', cur')
    \<and> rel 0 g' (xs @ a) \<and> cursor_in fits ops dim cur' (pre @ a) b \<and> c_did_seek cur' \<and> c_tree cur' = c_tree cur"
proof -
  let ?root = "c_tree cur" and ?pos = "c_position cur"
  have root: "wf_in fits ops ?root" "node_height ?root < STACK_CAPACITY" "tree_items ?root = pre @ suf"
    "?pos = item_dim ops dim (d_zero dim) pre" "stack_ok ops dim ?root (c_stack cur)"
    using cur by (simp_all add: cursor_in_def)
  have g0: "rel 0 g xs" by (rule agg_mono [OF g]) simp
  let ?st = "if c_did_seek cur then c_stack cur else [entry_at ?root 0 (d_zero dim)]"
  have "sought ops dim (rel 0) target bias ?root xs pre suf (seek_loop dim target bias agg ?st ?pos g False)"
  proof (cases "c_did_seek cur")
    case False
    then have p: "pre = []" using cur by (simp add: cursor_in_def)
    then show ?thesis
      using False root_sought [OF root(1,2) bound _ g, of target bias] root mono by simp
  next
    case True
    show ?thesis
    proof (cases "c_stack cur")
      case Nil
      then have "suf = []" using cur True by (simp add: cursor_in_def)
      then show ?thesis using True Nil root g0 by (simp, subst seek_loop.simps) (simp add: sought_def)
    next
      case (Cons e rest)
      then obtain s "is" ss where l: "se_tree e = Leaf s is ss" using root(5) by (cases "se_tree e") auto
      have suf: "suf = drop (se_index e) is @ rem_below rest" using cur True Cons l by (simp add: cursor_in_def)
      have "pre @ suf = stack_pre (e # rest) @ suf"
        using stack_ok_items(1) [OF root(5)] Cons root(3) suf l by simp
      then have pre: "pre = pre_below rest @ take (se_index e) is" using l by simp
      have "length rest \<le> node_height ?root" using below_ok_wf [of ops dim ?root "se_tree e" rest fits] root(1,5) Cons by simp
      then have "rel (12 * length rest + 12 * node_height ?root + 2) g xs" by (intro agg_mono [OF g]) simp
      then show ?thesis using leaf_sought_any [OF root(1,2) bound l, of rest ?pos target g xs bias False] True Cons root mono l suf pre
        by simp
    qed
  qed
  then obtain st g' where r: "seek_loop dim target bias agg ?st ?pos g False = Some (st, item_dim ops dim (d_zero dim) (pre @ a), g')"
    "rel 0 g' (xs @ a)" "stack_ok ops dim ?root st" "stack_rem st = b"
    using split root(4) by (auto simp: sought_def)
  let ?cur = "cur\<lparr>c_did_seek := True, c_stack := st, c_position := item_dim ops dim (d_zero dim) (pre @ a), c_at_end := (st = [])\<rparr>"
  have at: "cursor_in fits ops dim ?cur (pre @ a) b"
    using root r seek_split_concat [OF split] by (auto simp: cursor_in_def)
  have st: "(if c_did_seek cur then Some (c_stack cur) else stack_push (entry_at ?root 0 (d_zero dim)) (c_stack cur)) = Some ?st"
    using cur by (auto simp: cursor_in_def)
  have "seek_internal dim target bias agg g cur
      = Some (target (item_dim ops dim (c_position cur) (if bias = Left then a @ take 1 b else a)) = Equal, g', ?cur)"
    unfolding seek_internal_def st using assms(2) r(1) cursor_item_at(2) [OF at] root(4)
    by (cases b) (auto simp: first_opt_def)
  then show ?thesis using r(2) at by auto
qed

end

text \<open>The three aggregates obey the laws.\<close>

definition slice_rel :: "nat \<Rightarrow> nat \<Rightarrow> ('t list \<Rightarrow> bool) \<Rightarrow> ('t, 's) item_ops \<Rightarrow> nat
    \<Rightarrow> ('t, 's) slice_seek_aggregate \<Rightarrow> 't list \<Rightarrow> bool" where
  "slice_rel K N fits ops n g xs \<longleftrightarrow> wf_upto fits ops (sl_tree g) \<and> tree_items (sl_tree g) = xs \<and> leaf_items g = []
     \<and> leaf_item_summaries g = [] \<and> leaf_summary g = s_zero ops
     \<and> broad K (sl_tree g) \<and> weight K (sl_tree g) + n \<le> N"

definition slice_leaf_rel :: "nat \<Rightarrow> nat \<Rightarrow> ('t list \<Rightarrow> bool) \<Rightarrow> ('t, 's) item_ops \<Rightarrow> nat \<Rightarrow> nat
    \<Rightarrow> ('t, 's) slice_seek_aggregate \<Rightarrow> 't list \<Rightarrow> bool" where
  "slice_leaf_rel K N fits ops n k g xs \<longleftrightarrow> wf_upto fits ops (sl_tree g)
     \<and> tree_items (sl_tree g) @ leaf_items g = xs \<and> length (leaf_items g) = k \<and> k \<le> 12
     \<and> leaf_item_summaries g = map (it_summary ops) (leaf_items g)
     \<and> (fits (leaf_items g) \<longrightarrow> leaf_summary g = flat ops (leaf_items g))
     \<and> broad K (sl_tree g) \<and> Suc (weight K (sl_tree g) + n) \<le> N"

sublocale dimension_laws \<subseteq> plain: seek_laws ops fits dim unit_aggregate STACK_CAPACITY "\<lambda>_ _ _. True" "\<lambda>_ _ _ _. True"
  by unfold_locales (simp_all add: unit_aggregate_def)

text \<open>A slice of a tree of height at most \<open>K + 1\<close>, from at most \<open>N\<close> pieces.\<close>

locale slice_laws = dimension_laws ops fits dim
  for ops :: "('t, 's) item_ops" and fits and dim :: "('s, 'd) dim_ops" +
  fixes K N :: nat

sublocale slice_laws \<subseteq> slice: seek_laws ops fits dim "slice_aggregate ops" K "slice_rel K N fits ops" "slice_leaf_rel K N fits ops"
proof unfold_locales
  show "slice_rel K N fits ops n g xs \<Longrightarrow> m \<le> n \<Longrightarrow> slice_rel K N fits ops m g xs" for m n g xs
    by (simp add: slice_rel_def)
next
  fix n g xs assume "slice_rel K N fits ops (Suc n) g xs"
  then show "slice_leaf_rel K N fits ops n 0 (begin_leaf (slice_aggregate ops) g) xs"
    by (simp add: slice_rel_def slice_leaf_rel_def slice_aggregate_def)
next
  fix n k g xs assume r: "slice_leaf_rel K N fits ops n k g xs"
  let ?leaf = "Leaf (leaf_summary g) (leaf_items g) (leaf_item_summaries g)"
  have w: "wf_upto fits ops (sl_tree g)" "wf_upto fits ops ?leaf" using r by (simp_all add: slice_leaf_rel_def TREE_BASE_def)
  from tree_append_ok [OF w] tree_append_weight [OF w, of K]
  show "\<exists>g'. end_leaf (slice_aggregate ops) g = Some g' \<and> slice_rel K N fits ops n g' xs"
    using r by (fastforce simp: slice_aggregate_def slice_end_leaf_def slice_rel_def slice_leaf_rel_def)
next
  fix n k g xs i assume "slice_leaf_rel K N fits ops n k g xs" "k < 12"
  moreover have "fits (leaf_items g @ [i]) \<Longrightarrow> fits (leaf_items g) \<and> fits [i]"
    using fits_append [of "leaf_items g" "[i]"] by simp
  ultimately show "\<exists>g'. push_item (slice_aggregate ops) i (it_summary ops i) g = Some g'
      \<and> slice_leaf_rel K N fits ops n (Suc k) g' (xs @ [i])"
    by (auto simp: slice_aggregate_def slice_push_item_def slice_leaf_rel_def flat_append flat_single)
next
  fix n g xs t assume r: "slice_rel K N fits ops (Suc n) g xs" "wf_in fits ops t" "tree_items t \<noteq> []" "node_height t \<le> K"
  then have w: "wf_upto fits ops (sl_tree g)" by (simp add: slice_rel_def)
  from tree_append_ok [OF w wf_in_upto [OF r(2)]] tree_append_weight [OF w wf_in_upto [OF r(2)] r(4)] show
    "\<exists>g'. push_tree (slice_aggregate ops) t (node_summary t) g = Some g' \<and> slice_rel K N fits ops n g' (xs @ tree_items t)"
    using r by (fastforce simp: slice_aggregate_def slice_push_tree_def slice_rel_def)
qed

context slice_laws
begin

lemmas slice_seek_ok = slice.seek_internal_ok

end

lemma seek_split_End: "seek_split ops dim (past End Right) d is = (is, [])"
  by (induction "is" arbitrary: d) (simp_all add: End_def goes_past_def Let_def)

lemma monotone_End: "monotone_target ops dim End d is"
  by (simp add: monotone_target_def End_def sorted_wrt_iff_nth_less)

context dimension_laws
begin

lemma cursor_seek_ok:
  assumes "cursor_in fits ops dim cur pre suf" "target (d_zero dim) \<noteq> Less"
    and "monotone_target ops dim target (d_zero dim) (pre @ suf)"
    and "seek_split ops dim (past target bias) (d_zero dim) (pre @ suf) = (a, b)"
  shows "\<exists>cur'. cursor_seek dim target bias cur
      = Some (target (item_dim ops dim (d_zero dim) (if bias = Left then a @ take 1 b else a)) = Equal, cur')
    \<and> cursor_in fits ops dim cur' a b \<and> c_did_seek cur' \<and> c_tree cur' = c_tree cur"
proof -
  have p: "c_position (cursor_reset dim cur) = d_zero dim" "c_tree (cursor_reset dim cur) = c_tree cur"
    by (simp_all add: cursor_reset_def)
  from plain.seek_internal_ok [OF cursor_reset_at [OF assms(1)], where target = target and bias = bias and a = a and b = b and g = "()"] assms(2-4)
  show ?thesis using assms(1) by (auto simp: cursor_seek_def p cursor_in_def)
qed

lemma cursor_seek_forward_ok:
  assumes "cursor_in fits ops dim cur pre suf" "target (c_position cur) \<noteq> Less"
    and "monotone_target ops dim target (c_position cur) suf"
    and "seek_split ops dim (past target bias) (c_position cur) suf = (a, b)"
  shows "\<exists>cur'. cursor_seek_forward dim target bias cur
      = Some (target (item_dim ops dim (c_position cur) (if bias = Left then a @ take 1 b else a)) = Equal, cur')
    \<and> cursor_in fits ops dim cur' (pre @ a) b \<and> c_did_seek cur' \<and> c_tree cur' = c_tree cur"
  using plain.seek_internal_ok [OF assms(1,2,3) _ _ assms(4), where g = "()"] assms(1)
  by (auto simp: cursor_seek_forward_def cursor_in_def)

lemma cursor_slice_ok:
  assumes "cursor_in fits ops dim cur pre suf" "target (c_position cur) \<noteq> Less"
    and "monotone_target ops dim target (c_position cur) suf"
    and "seek_split ops dim (past target bias) (c_position cur) suf = (a, b)"
  shows "\<exists>t cur'. cursor_slice ops dim target bias cur = Some (t, cur') \<and> wf_in fits ops t \<and> tree_items t = a
    \<and> cursor_in fits ops dim cur' (pre @ a) b \<and> c_did_seek cur' \<and> c_tree cur' = c_tree cur
    \<and> node_height t \<le> node_height (c_tree cur) + 4"
proof -
  let ?H = "node_height (c_tree cur)"
  let ?N = "24 * ?H + 3"
  let ?g = "\<lparr>sl_tree = tree_new ops, leaf_items = [], leaf_item_summaries = [], leaf_summary = s_zero ops\<rparr>"
  have "slice_laws ops fits dim" by (rule slice_laws.intro) (rule dimension_laws_axioms)
  moreover have "slice_rel ?H ?N fits ops (24 * ?H + 2) ?g []"
    by (simp add: slice_rel_def broad_def tree_new_def)
  ultimately obtain g' cur' where r: "cursor_slice ops dim target bias cur = Some (sl_tree g', cur')"
    "slice_rel ?H ?N fits ops 0 g' a" "cursor_in fits ops dim cur' (pre @ a) b" "c_did_seek cur'" "c_tree cur' = c_tree cur"
    using slice_laws.slice_seek_ok [of ops fits dim cur pre suf target ?H ?N ?g "[]" bias a b] assms
    by (auto simp: cursor_slice_def)
  have "?H \<le> 15" using assms(1) by (simp add: cursor_in_def STACK_CAPACITY_def)
  then have "weight ?H (sl_tree g') \<le> 6 ^ 4" using r(2) by (simp add: slice_rel_def)
  then have "node_height (sl_tree g') \<le> ?H + 4" using r(2) by (intro broad_height) (simp_all add: slice_rel_def)
  moreover have "fits a" using cursor_in_fits [OF assms(1)] fits_part [of pre a b] seek_split_concat [OF assms(4)] by simp
  ultimately show ?thesis using r by (auto simp: slice_rel_def wf_in_iff)
qed

lemma cursor_suffix_ok:
  assumes "cursor_in fits ops dim cur pre suf"
  shows "\<exists>t cur'. cursor_suffix ops dim cur = Some (t, cur') \<and> wf_in fits ops t \<and> tree_items t = suf
    \<and> cursor_in fits ops dim cur' (pre @ suf) [] \<and> c_did_seek cur' \<and> c_tree cur' = c_tree cur
    \<and> node_height t \<le> node_height (c_tree cur) + 4"
  unfolding cursor_suffix_def
  by (rule cursor_slice_ok [OF assms _ monotone_End seek_split_End]) (simp add: End_def)

end

text \<open>
  The summary of a range, in any dimension \<open>out\<close> of the same summaries. Since it starts from
  zero, the dimension only has to add up lists of items that fit as a whole.
\<close>

locale total_laws = summary_laws ops fits for ops :: "('t, 's) item_ops" and fits +
  fixes out :: "('s, 'o) dim_ops"
  assumes out_flat: "ys \<noteq> [] \<Longrightarrow> fits (xs @ ys)
      \<Longrightarrow> d_add out (item_dim ops out (d_zero out) xs) (flat ops ys) = item_dim ops out (d_zero out) (xs @ ys)"

sublocale dimension_laws \<subseteq> self_total: total_laws ops fits dim
  by unfold_locales (auto simp: dim_flat dest: fits_append)

locale two_dimensions = dimension_laws ops fits dim + total_laws ops fits out
  for ops :: "('t, 's) item_ops" and fits and dim :: "('s, 'd) dim_ops" and out :: "('s, 'o) dim_ops"

sublocale two_dimensions \<subseteq> total: seek_laws ops fits dim "summary_aggregate out" STACK_CAPACITY
    "\<lambda>_ g xs. fits xs \<longrightarrow> g = item_dim ops out (d_zero out) xs" "\<lambda>_ _ g xs. fits xs \<longrightarrow> g = item_dim ops out (d_zero out) xs"
  by unfold_locales (auto simp: summary_aggregate_def wf_in_summary out_flat dest: fits_append)

context two_dimensions
begin

lemma cursor_summary_ok:
  assumes "cursor_in fits ops dim cur pre suf" "target (c_position cur) \<noteq> Less"
    and "monotone_target ops dim target (c_position cur) suf"
    and "seek_split ops dim (past target bias) (c_position cur) suf = (a, b)"
  shows "\<exists>cur'. cursor_summary dim out target bias cur = Some (item_dim ops out (d_zero out) a, cur')
    \<and> cursor_in fits ops dim cur' (pre @ a) b \<and> c_did_seek cur'"
  using total.seek_internal_ok [OF assms(1,2,3) _ _ assms(4), where g = "d_zero out" and xs = "[]"] assms(1) cursor_in_fits [OF assms(1)]
    fits_part [of pre a b] seek_split_concat [OF assms(4)]
  by (auto simp: cursor_summary_def cursor_in_def)

end

end
