(* ===== verification/CursorMove.thy ===== *)
theory CursorMove
  imports Cursor
begin

text \<open>
  Correctness of moving a cursor item by item: \<open>search_forward\<close>, \<open>next\<close>, the filter
  cursor, the iterators, and collecting all items of a tree. A filter is consulted on
  the summaries of whole subtrees; it must not reject a subtree that holds an item it
  accepts.
\<close>

section \<open>Skipping filtered children\<close>

definition sieve :: "('t list \<Rightarrow> bool) \<Rightarrow> ('t, 's) item_ops \<Rightarrow> ('s \<Rightarrow> bool) \<Rightarrow> bool" where
  "sieve fits ops F \<longleftrightarrow> (\<forall>xs i. fits xs \<longrightarrow> i \<in> set xs \<longrightarrow> F (it_summary ops i) \<longrightarrow> F (flat ops xs))"

abbreviation hit :: "('t, 's) item_ops \<Rightarrow> ('s \<Rightarrow> bool) \<Rightarrow> 't \<Rightarrow> bool" where
  "hit ops F \<equiv> \<lambda>i. F (it_summary ops i)"

lemma skip_filtered_eq:
  "skip_filtered dim F ix d d ss =
     (ix + length (takeWhile (\<lambda>s. \<not> F s) ss),
      foldl (d_add dim) d (takeWhile (\<lambda>s. \<not> F s) ss),
      foldl (d_add dim) d (takeWhile (\<lambda>s. \<not> F s) ss))"
  by (induction ss arbitrary: ix d) auto

lemma skip_filtered_pos:
  "\<exists>ep'. skip_filtered dim F ix ep d ss =
     (ix + length (takeWhile (\<lambda>s. \<not> F s) ss), ep', foldl (d_add dim) d (takeWhile (\<lambda>s. \<not> F s) ss))"
proof (induction ss arbitrary: ix ep d)
  case (Cons s ss)
  then show ?case using Cons [of "Suc ix" "d_add dim ep s" "d_add dim d s"] by simp
qed simp

lemma takeWhile_split:
  "\<exists>us vs. xs = us @ vs \<and> takeWhile P xs = us \<and> (\<forall>x \<in> set us. P x) \<and> (vs \<noteq> [] \<longrightarrow> \<not> P (hd vs))"
proof (intro exI conjI)
  show "xs = takeWhile P xs @ dropWhile P xs" by simp
  show "dropWhile P xs \<noteq> [] \<longrightarrow> \<not> P (hd (dropWhile P xs))" using hd_dropWhile by blast
qed (auto dest: set_takeWhileD)

text \<open>
  Where a forward search over the items \<open>ys\<close> ends, after the items \<open>pre\<close> of the tree.
\<close>

definition forwarded :: "('t, 's) item_ops \<Rightarrow> ('s, 'd) dim_ops \<Rightarrow> ('s \<Rightarrow> bool) \<Rightarrow> ('t, 's) node \<Rightarrow> 't list
    \<Rightarrow> 't list \<Rightarrow> (('t, 's, 'd) stack \<times> 'd \<times> bool) rust \<Rightarrow> bool" where
  "forwarded ops dim F root pre ys r \<longleftrightarrow>
     (\<exists>st. r = Some (st, item_dim ops dim (d_zero dim) (pre @ takeWhile (\<lambda>i. \<not> hit ops F i) ys), st \<noteq> [])
        \<and> stack_ok ops dim root st \<and> stack_rem st = dropWhile (\<lambda>i. \<not> hit ops F i) ys)"

lemma forwarded_skip:
  assumes "\<forall>i \<in> set us. \<not> hit ops F i" "forwarded ops dim F root (pre @ us) ys r"
  shows "forwarded ops dim F root pre (us @ ys) r"
  using assms by (auto simp: forwarded_def)

text \<open>
  The outcome of scanning the items \<open>zs\<close> of a subtree whose ancestors are on the stack
  \<open>rest\<close>: an accepted item is found there, or the search goes on above it.
\<close>

definition scanned :: "('t, 's) item_ops \<Rightarrow> ('s, 'd) dim_ops \<Rightarrow> ('s \<Rightarrow> bool) \<Rightarrow> ('t, 's) node
    \<Rightarrow> ('t, 's, 'd) stack \<Rightarrow> 't list \<Rightarrow> 't list \<Rightarrow> (('t, 's, 'd) stack \<times> 'd \<times> bool) rust \<Rightarrow> bool" where
  "scanned ops dim F root rest pre zs r \<longleftrightarrow>
     (if \<exists>i \<in> set zs. hit ops F i then forwarded ops dim F root pre (zs @ rem_below rest) r
      else r = forward_loop dim F rest (item_dim ops dim (d_zero dim) (pre @ zs)) False)"

lemma scanned_skip:
  assumes "\<forall>i \<in> set us. \<not> hit ops F i" "scanned ops dim F root rest (pre @ us) zs r"
  shows "scanned ops dim F root rest pre (us @ zs) r"
  using assms forwarded_skip [OF assms(1), of dim root pre "zs @ rem_below rest" r]
  by (auto simp: scanned_def split: if_splits)

context dimension_laws
begin

lemma foldl_kids: "kids_in fits ops h us \<Longrightarrow> foldl (d_add dim) d (map node_summary us) = item_dim ops dim d (concat (map tree_items us))"
  by (induction us arbitrary: d) (auto simp: dim_node)

lemma no_hit_kids:
  assumes "sieve fits ops F" "kids_in fits ops h us" "\<forall>c \<in> set us. \<not> F (node_summary c)"
  shows "\<forall>i \<in> set (concat (map tree_items us)). \<not> hit ops F i"
  using assms unfolding sieve_def by (fastforce simp: list_all_iff wf_in_summary [of fits] dest: wf_in_fits)

lemma children_scan:
  assumes F: "sieve fits ops F" and root: "wf_in fits ops root" "node_height root < STACK_CAPACITY"
    and t: "t = Internal h s css cts" "below_ok ops dim root t rest"
    and down: "\<And>c rest' pos'. c \<in> set cts \<Longrightarrow> below_ok ops dim root c rest'
      \<Longrightarrow> pos' = item_dim ops dim (d_zero dim) (pre_below rest')
      \<Longrightarrow> scanned ops dim F root rest' (pre_below rest') (tree_items c)
            (forward_loop dim F (entry_at c 0 pos' # rest') pos' True)"
  shows "se_tree e = t \<Longrightarrow> j = (if descend then se_index e else Suc (se_index e)) \<Longrightarrow> j \<le> length cts
    \<Longrightarrow> pos = item_dim ops dim (d_zero dim) (pre_below rest @ concat (map tree_items (take j cts)))
    \<Longrightarrow> (descend \<Longrightarrow> se_position e = pos)
    \<Longrightarrow> scanned ops dim F root rest (pre_below rest @ concat (map tree_items (take j cts)))
          (concat (map tree_items (drop j cts))) (forward_loop dim F (e # rest) pos descend)"
proof (induction "length cts - j" arbitrary: j e pos descend rule: less_induct)
  case less
  let ?pre = "pre_below rest @ concat (map tree_items (take j cts))"
  have k: "kids_in fits ops h cts" "css = map node_summary cts" and h: "0 < h" "h + length rest = node_height root"
    using below_ok_wf [OF t(2) root(1)] t(1) by (auto simp: neq_Nil_conv)
  obtain us vs where uv: "drop j cts = us @ vs" "takeWhile (\<lambda>c. \<not> F (node_summary c)) (drop j cts) = us"
    "\<forall>c \<in> set us. \<not> F (node_summary c)" "vs \<noteq> [] \<longrightarrow> \<not> \<not> F (node_summary (hd vs))"
    using takeWhile_split [of "drop j cts" "\<lambda>c. \<not> F (node_summary c)"] by blast
  have "kids_in fits ops h (us @ vs)"
    using k(1) unfolding uv(1) [symmetric] by (auto simp: list_all_iff dest: in_set_dropD)
  then have kuv: "kids_in fits ops h us" by simp
  note nohit = no_hit_kids [OF F kuv uv(3)]
  let ?pos = "item_dim ops dim pos (concat (map tree_items us))"
  let ?e = "e\<lparr>se_index := j + length us, se_position := ?pos\<rparr>"
  have step: "forward_loop dim F (e # rest) pos descend =
    (case get_ix cts (j + length us) of
       Some c \<Rightarrow> do { stack \<leftarrow> stack_push (entry_at c 0 ?pos) (?e # rest); forward_loop dim F stack ?pos True }
     | None \<Rightarrow> forward_loop dim F rest ?pos False)"
  proof -
    have ix: "(if descend then se_index e else se_index e + 1) = j" using less.prems(2) by simp
    have ep: "(if descend then se_position e else pos) = pos" using less.prems(5) by simp
    have "takeWhile (\<lambda>s. \<not> F s) (drop j css) = map node_summary us"
      using uv(2) k(2) by (simp add: drop_map takeWhile_map comp_def)
    then show ?thesis
      by (subst forward_loop.simps)
        (simp add: less.prems(1) t(1) ix ep skip_filtered_eq foldl_kids [OF kuv] cong: option.case_cong del: get_ix_lt)
  qed
  show ?case
  proof (cases vs)
    case Nil
    then have "j + length us = length cts" using uv(1) less.prems(3) by (metis append_Nil2 length_drop le_add_diff_inverse)
    then have "forward_loop dim F (e # rest) pos descend = forward_loop dim F rest ?pos False"
      using step by (simp add: get_ix_def)
    then show ?thesis using nohit uv(1) Nil less.prems(4) by (simp add: scanned_def)
  next
    case (Cons c ws)
    have j': "j + length us < length cts" "cts ! (j + length us) = c"
      using drop_add_us [OF uv(1)] Cons by (metis drop_eq_Nil2 list.distinct(1) not_le, metis hd_drop_conv_nth drop_eq_Nil2 list.distinct(1) list.sel(1) not_le)
    have below: "below_ok ops dim root c (?e # rest)"
      using j' t less.prems(1,4) take_add_us [OF uv(1)] by simp
    have pre: "pre_below (?e # rest) = ?pre @ concat (map tree_items us)"
      using take_add_us [OF uv(1)] t(1) less.prems(1) by simp
    have dws: "drop (Suc (j + length us)) cts = ws" "take (Suc (j + length us)) cts = take j cts @ us @ [c]"
      using drop_add_us [OF uv(1)] take_add_us [OF uv(1)] Cons j' by (simp_all add: drop_Suc take_Suc_conv_app_nth flip: tl_drop)
    have rem: "rem_below (?e # rest) = concat (map tree_items ws) @ rem_below rest"
      using dws(1) t(1) less.prems(1) by simp
    have "length rest < 15" using h root(2) by (simp add: STACK_CAPACITY_def)
    then have step': "forward_loop dim F (e # rest) pos descend = forward_loop dim F (entry_at c 0 ?pos # ?e # rest) ?pos True"
      using step j' by simp
    have c: "c \<in> set cts" using j' by auto
    have sc: "scanned ops dim F root (?e # rest) (pre_below (?e # rest)) (tree_items c) (forward_loop dim F (e # rest) pos descend)"
      unfolding step' by (rule down [OF c below]) (unfold pre, simp add: less.prems(4))
    have "scanned ops dim F root rest (?pre @ concat (map tree_items us)) (tree_items c @ concat (map tree_items ws))
      (forward_loop dim F (e # rest) pos descend)"
    proof (cases "\<exists>i \<in> set (tree_items c). hit ops F i")
      case True
      then show ?thesis using sc unfolding scanned_def pre rem by (auto split: if_splits)
    next
      case False
      let ?pos' = "item_dim ops dim (d_zero dim) (?pre @ concat (map tree_items us) @ tree_items c)"
      have eq: "forward_loop dim F (e # rest) pos descend = forward_loop dim F (?e # rest) ?pos' False"
        using sc False unfolding scanned_def pre rem by (auto split: if_splits)
      have "scanned ops dim F root rest (pre_below rest @ concat (map tree_items (take (Suc (j + length us)) cts)))
          (concat (map tree_items (drop (Suc (j + length us)) cts))) (forward_loop dim F (?e # rest) ?pos' False)"
        by (rule less.hyps) (use j' less.prems(1) dws in auto)
      then show ?thesis
        unfolding eq dws using False by (intro scanned_skip) auto
    qed
    from scanned_skip [OF nohit this] show ?thesis using uv(1) Cons by simp
  qed
qed

end

context dimension_laws
begin

lemma leaf_scan:
  assumes root: "wf_in fits ops root"
    and t: "se_tree e = Leaf s is ss" "below_ok ops dim root (se_tree e) rest"
    and j: "j = (if descend then se_index e else Suc (se_index e))" "j \<le> length is"
    and pos: "pos = item_dim ops dim (d_zero dim) (pre_below rest @ take (se_index e) is)"
      "se_position e = pos \<or> \<not> descend"
  shows "scanned ops dim F root rest (pre_below rest @ take j is) (drop j is)
    (forward_loop dim F (e # rest) pos descend)"
proof -
  let ?us = "takeWhile (\<lambda>i. \<not> hit ops F i) (drop j is)"
  let ?vs = "dropWhile (\<lambda>i. \<not> hit ops F i) (drop j is)"
  have ss: "ss = map (it_summary ops) is" using below_ok_wf [OF t(2) root] t(1) by simp
  have tw: "takeWhile (\<lambda>s. \<not> F s) (drop j ss) = map (it_summary ops) ?us"
    using ss by (simp add: drop_map takeWhile_map comp_def)
  let ?j = "j + length ?us"
  let ?posj = "item_dim ops dim (d_zero dim) (pre_below rest @ take j is)"
  have skip: "\<exists>ep'. skip_filtered dim F j ep ?posj (drop j ss) = (?j, ep', item_dim ops dim ?posj ?us)" for ep
    using skip_filtered_pos [of dim F j ep ?posj "drop j ss"] unfolding tw by (simp add: item_dim_def)
  have get: "\<not> descend \<Longrightarrow> get_ix ss (se_index e) = Some (it_summary ops (is ! se_index e))
      \<and> take j is = take (se_index e) is @ [is ! se_index e]"
    using j ss by (simp add: take_Suc_conv_app_nth)
  have len: "?j < length ss \<longleftrightarrow> ?vs \<noteq> []"
  proof -
    have "length is - j = length ?us + length ?vs" by (metis length_append length_drop takeWhile_dropWhile_id)
    then show ?thesis using j(2) ss by (cases ?vs) auto
  qed
  have "\<exists>ep. forward_loop dim F (e # rest) pos descend =
    (if ?vs \<noteq> [] then Some (e\<lparr>se_index := ?j, se_position := ep\<rparr> # rest, item_dim ops dim ?posj ?us, True)
     else forward_loop dim F rest (item_dim ops dim ?posj ?us) False)"
  proof (cases descend)
    case True
    obtain ep where "skip_filtered dim F j (se_position e) ?posj (drop j ss) = (?j, ep, item_dim ops dim ?posj ?us)"
      using skip by blast
    then show ?thesis using True pos j(1) t(1) len
      by (intro exI [of _ ep], subst forward_loop.simps) simp
  next
    case False
    let ?s = "it_summary ops (is ! se_index e)"
    obtain ep where "skip_filtered dim F j (d_add dim (se_position e) ?s) ?posj (drop j ss) = (?j, ep, item_dim ops dim ?posj ?us)"
      using skip by blast
    then show ?thesis using False pos j(1) t(1) len get
      by (intro exI [of _ ep], subst forward_loop.simps) simp
  qed
  then obtain ep where step: "forward_loop dim F (e # rest) pos descend =
    (if ?vs \<noteq> [] then Some (e\<lparr>se_index := ?j, se_position := ep\<rparr> # rest, item_dim ops dim ?posj ?us, True)
     else forward_loop dim F rest (item_dim ops dim ?posj ?us) False)" by blast
  have hit: "(\<exists>i \<in> set (drop j is). hit ops F i) \<longleftrightarrow> ?vs \<noteq> []" by auto
  show ?thesis
  proof (cases "?vs = []")
    case True
    then have us: "?us = drop j is" by (metis takeWhile_dropWhile_id append_Nil2)
    show ?thesis using step [unfolded us] True hit by (simp add: scanned_def)
  next
    case False
    have d: "drop j is = ?us @ ?vs" by simp
    from hit False obtain i where "i \<in> set (drop j is)" "\<not> \<not> hit ops F i" by blast
    then have tw': "takeWhile (\<lambda>i. \<not> hit ops F i) (drop j is @ rem_below rest) = ?us"
      "dropWhile (\<lambda>i. \<not> hit ops F i) (drop j is @ rem_below rest) = ?vs @ rem_below rest"
      by (rule takeWhile_append1, rule dropWhile_append1)
    have dj: "drop ?j is = ?vs" by (rule drop_add_us [OF d])
    have lj: "?j < length is" using len False ss by simp
    let ?st = "e\<lparr>se_index := ?j, se_position := ep\<rparr> # rest"
    have st: "stack_ok ops dim root ?st" "stack_rem ?st = ?vs @ rem_below rest"
      using t lj dj by simp_all
    have "forward_loop dim F (e # rest) pos descend = Some (?st, item_dim ops dim ?posj ?us, True)"
      using step by (simp only: False if_True not_False_eq_True)
    then have "forwarded ops dim F root (pre_below rest @ take j is) (drop j is @ rem_below rest)
        (forward_loop dim F (e # rest) pos descend)"
      unfolding forwarded_def tw' by (intro exI [of _ ?st]) (simp only: st item_dim_simps(3) list.simps(3) simp_thms)
    then show ?thesis unfolding scanned_def by (simp only: hit False if_True not_False_eq_True)
  qed
qed

lemma forward_descend:
  assumes F: "sieve fits ops F" and root: "wf_in fits ops root" "node_height root < STACK_CAPACITY"
  shows "below_ok ops dim root t rest \<Longrightarrow> pos = item_dim ops dim (d_zero dim) (pre_below rest)
    \<Longrightarrow> scanned ops dim F root rest (pre_below rest) (tree_items t)
          (forward_loop dim F (entry_at t 0 pos # rest) pos True)"
proof (induction t arbitrary: rest pos)
  case (Internal h s css cts)
  then show ?case
    using children_scan [OF F root refl, of h s css cts rest "entry_at (Internal h s css cts) 0 pos" 0 True pos]
    by (simp add: entry_at_def)
next
  case (Leaf s "is" ss)
  then show ?case
    using leaf_scan [OF root(1), of "entry_at (Leaf s is ss) 0 pos" s "is" ss rest 0 True pos F] by (simp add: entry_at_def)
qed

lemma forward_ascend:
  assumes F: "sieve fits ops F" and root: "wf_in fits ops root" "node_height root < STACK_CAPACITY"
  shows "below_ok ops dim root t rest \<Longrightarrow> pos = item_dim ops dim (d_zero dim) (pre_below rest @ tree_items t)
    \<Longrightarrow> forwarded ops dim F root (pre_below rest @ tree_items t) (rem_below rest)
          (forward_loop dim F rest pos False)"
proof (induction rest arbitrary: t pos)
  case Nil
  then show ?case by (subst forward_loop.simps) (simp add: forwarded_def)
next
  case (Cons e rest)
  then obtain h s css cts where e: "se_tree e = Internal h s css cts" by (cases "se_tree e") auto
  let ?j = "Suc (se_index e)"
  let ?Z = "concat (map tree_items (drop ?j cts))"
  have b: "below_ok ops dim root (se_tree e) rest" "se_index e < length cts" "cts ! se_index e = t"
    using Cons.prems(1) e by simp_all
  have pre: "pre_below (e # rest) @ tree_items t = pre_below rest @ concat (map tree_items (take ?j cts))"
    using b e by (simp add: take_Suc_conv_app_nth)
  have items: "tree_items (se_tree e) = concat (map tree_items (take ?j cts)) @ ?Z"
    using e by (metis append_take_drop_id concat_append map_append tree_items.simps(1))
  have sc: "scanned ops dim F root rest (pre_below rest @ concat (map tree_items (take ?j cts))) ?Z
      (forward_loop dim F (e # rest) pos False)"
    using children_scan [OF F root e b(1) forward_descend [OF F root], of e ?j False pos] b(2) Cons.prems(2)
    unfolding pre by simp
  have rem: "rem_below (e # rest) = ?Z @ rem_below rest" using e by simp
  show ?case
  proof (cases "\<exists>i \<in> set ?Z. hit ops F i")
    case True
    then show ?thesis using sc unfolding pre rem scanned_def by (auto split: if_splits)
  next
    case False
    let ?pos' = "item_dim ops dim (d_zero dim) (pre_below rest @ tree_items (se_tree e))"
    have eq: "forward_loop dim F (e # rest) pos False = forward_loop dim F rest ?pos' False"
      using sc False unfolding scanned_def items by (auto split: if_splits)
    show ?thesis
      unfolding eq pre rem
      using Cons.IH [OF b(1) refl] False by (intro forwarded_skip) (auto simp: items)
  qed
qed

end

section \<open>The moves of a cursor\<close>

context dimension_laws
begin

lemma search_forward_ok:
  assumes F: "sieve fits ops F" and cur: "cursor_in fits ops dim cur pre suf"
    and ys: "p = (if c_stack cur = [] then pre else pre @ take 1 suf)"
      "ys = (if c_stack cur = [] then suf else drop 1 suf)"
  shows "\<exists>cur'. search_forward dim F cur = Some cur' \<and> c_did_seek cur' \<and> c_tree cur' = c_tree cur
    \<and> cursor_in fits ops dim cur' (p @ takeWhile (\<lambda>i. \<not> hit ops F i) ys) (dropWhile (\<lambda>i. \<not> hit ops F i) ys)"
proof -
  let ?root = "c_tree cur" and ?pos = "c_position cur"
  let ?d = "c_stack cur = [] \<and> \<not> c_at_end cur"
  let ?st = "if ?d then [entry_at ?root 0 (d_zero dim)] else c_stack cur"
  have root: "wf_in fits ops ?root" "node_height ?root < STACK_CAPACITY" "tree_items ?root = pre @ suf"
    "?pos = item_dim ops dim (d_zero dim) pre" "stack_ok ops dim ?root (c_stack cur)"
    using cur by (simp_all add: cursor_in_def)
  have "forwarded ops dim F ?root p ys (forward_loop dim F ?st ?pos ?d)"
  proof (cases "c_stack cur")
    case Nil
    show ?thesis
    proof (cases "c_at_end cur")
      case True
      then have "suf = []" using cur Nil by (auto simp: cursor_in_def split: if_splits)
      then show ?thesis using Nil True ys root by (simp, subst forward_loop.simps) (simp add: forwarded_def)
    next
      case False
      then have p: "pre = []" using cur Nil by (auto simp: cursor_in_def split: if_splits)
      have sc: "scanned ops dim F ?root [] [] (tree_items ?root) (forward_loop dim F [entry_at ?root 0 (d_zero dim)] (d_zero dim) True)"
        using forward_descend [OF F root(1,2), of ?root "[]"] by simp
      have "forwarded ops dim F ?root [] (tree_items ?root) (forward_loop dim F [entry_at ?root 0 (d_zero dim)] (d_zero dim) True)"
      proof (cases "\<exists>i \<in> set (tree_items ?root). hit ops F i")
        case True
        then show ?thesis using sc by (simp add: scanned_def)
      next
        case no: False
        then have "forward_loop dim F [entry_at ?root 0 (d_zero dim)] (d_zero dim) True
            = Some ([], item_dim ops dim (d_zero dim) (tree_items ?root), False)"
          using sc by (simp add: scanned_def) (subst forward_loop.simps, simp)
        moreover have w: "takeWhile (\<lambda>i. \<not> hit ops F i) (tree_items ?root) = tree_items ?root"
          "dropWhile (\<lambda>i. \<not> hit ops F i) (tree_items ?root) = []" using no by auto
        ultimately show ?thesis unfolding forwarded_def w by simp
      qed
      then show ?thesis using Nil False p root ys by simp
    qed
  next
    case (Cons e rest)
    then obtain s "is" ss where l: "se_tree e = Leaf s is ss" using root(5) by (cases "se_tree e") auto
    have suf: "suf = drop (se_index e) is @ rem_below rest"
      using cur Cons l by (auto simp: cursor_in_def split: if_splits)
    have b: "below_ok ops dim ?root (se_tree e) rest" "se_index e < length is" using root(5) Cons l by simp_all
    have "pre @ suf = stack_pre (e # rest) @ suf"
      using stack_ok_items(1) [OF root(5)] Cons root(3) suf l by simp
    then have pre: "pre = pre_below rest @ take (se_index e) is" using l by simp
    have y: "p = pre_below rest @ take (Suc (se_index e)) is" "ys = drop (Suc (se_index e)) is @ rem_below rest"
      using ys Cons pre suf b(2) by (simp_all add: take_Suc_conv_app_nth Cons_nth_drop_Suc [symmetric])
    have sc: "scanned ops dim F ?root rest (pre_below rest @ take (Suc (se_index e)) is) (drop (Suc (se_index e)) is)
        (forward_loop dim F (e # rest) ?pos False)"
      by (rule leaf_scan [OF root(1) l b(1)]) (use b root(4) pre in auto)
    have "forwarded ops dim F ?root p ys (forward_loop dim F (e # rest) ?pos False)"
    proof (cases "\<exists>i \<in> set (drop (Suc (se_index e)) is). hit ops F i")
      case True
      then show ?thesis using sc y by (simp add: scanned_def)
    next
      case False
      then have eq: "forward_loop dim F (e # rest) ?pos False
          = forward_loop dim F rest (item_dim ops dim (d_zero dim) (pre_below rest @ tree_items (se_tree e))) False"
        using sc l by (simp add: scanned_def)
      show ?thesis unfolding y
      proof (rule forwarded_skip)
        show "\<forall>i \<in> set (drop (Suc (se_index e)) is). \<not> hit ops F i" using False by blast
        show "forwarded ops dim F ?root ((pre_below rest @ take (Suc (se_index e)) is) @ drop (Suc (se_index e)) is)
            (rem_below rest) (forward_loop dim F (e # rest) ?pos False)"
          using forward_ascend [OF F root(1,2) b(1) refl] l unfolding eq by simp
      qed
    qed
    then show ?thesis using Cons by simp
  qed
  then obtain st where r: "forward_loop dim F ?st ?pos ?d
      = Some (st, item_dim ops dim (d_zero dim) (p @ takeWhile (\<lambda>i. \<not> hit ops F i) ys), st \<noteq> [])"
    "stack_ok ops dim ?root st" "stack_rem st = dropWhile (\<lambda>i. \<not> hit ops F i) ys"
    by (auto simp: forwarded_def)
  have pys: "p @ ys = pre @ suf" using ys by (auto split: if_splits)
  have ne: "st \<noteq> [] \<Longrightarrow> \<not> c_at_end cur"
    using cur r stack_ok_items(2) [OF r(2)] ys by (auto simp: cursor_in_def split: if_splits)
  let ?cur = "cur\<lparr>c_did_seek := True, c_stack := st,
      c_position := item_dim ops dim (d_zero dim) (p @ takeWhile (\<lambda>i. \<not> hit ops F i) ys), c_at_end := (st = [])\<rparr>"
  have "search_forward dim F cur = Some ?cur"
    using r(1) ne cur
    by (auto simp: search_forward_def cursor_in_def Let_def split: if_splits)
  moreover have "cursor_in fits ops dim ?cur (p @ takeWhile (\<lambda>i. \<not> hit ops F i) ys) (dropWhile (\<lambda>i. \<not> hit ops F i) ys)"
    using root r pys by (auto simp: cursor_in_def)
  ultimately show ?thesis by simp
qed

lemma cursor_next_ok:
  assumes "cursor_in fits ops dim cur pre suf"
  shows "\<exists>cur'. cursor_next dim cur = Some cur' \<and> c_did_seek cur' \<and> c_tree cur' = c_tree cur
    \<and> (if c_did_seek cur then cursor_in fits ops dim cur' (pre @ take 1 suf) (drop 1 suf)
       else cursor_in fits ops dim cur' pre suf)"
proof -
  have sv: "sieve fits ops (\<lambda>_. True)" by (simp add: sieve_def)
  have tw: "takeWhile (\<lambda>i. False) xs = []" for xs :: "'t list" by (cases xs) simp_all
  have "c_did_seek cur \<Longrightarrow> c_stack cur = [] \<Longrightarrow> suf = []" "\<not> c_did_seek cur \<Longrightarrow> c_stack cur = []"
    using assms by (auto simp: cursor_in_def)
  then show ?thesis
    using search_forward_ok [OF sv assms refl refl] unfolding cursor_next_def
    by (cases "c_stack cur = []"; cases "c_did_seek cur") (auto simp: tw)
qed

end

section \<open>Iterators\<close>

context dimension_laws
begin

lemma cursor_iter_next_ok:
  assumes "cursor_in fits ops dim cur pre suf"
  shows "\<exists>cur'. cursor_iter_next dim cur = Some (first_opt suf, cur') \<and> c_did_seek cur'
    \<and> c_tree cur' = c_tree cur \<and> cursor_in fits ops dim cur' (pre @ take 1 suf) (drop 1 suf)"
proof -
  obtain c where c: "(if c_did_seek cur then Some cur else cursor_next dim cur) = Some c"
    "c_did_seek c" "c_tree c = c_tree cur" "cursor_in fits ops dim c pre suf"
    using cursor_next_ok [OF assms] assms by (cases "c_did_seek cur") auto
  show ?thesis
    using cursor_next_ok [OF c(4)] cursor_item_at(1) [OF c(4,2)] c
    by (cases suf) (auto simp: cursor_iter_next_def first_opt_def)
qed

lemma filter_iter_next_ok:
  assumes F: "sieve fits ops F" and cur: "cursor_in fits ops dim cur pre suf"
    and start: "if c_did_seek cur then ys = suf else ys = dropWhile (\<lambda>i. \<not> hit ops F i) suf"
  shows "\<exists>cur' pre'. filter_iter_next dim F cur = Some (first_opt ys, cur') \<and> c_did_seek cur'
    \<and> c_tree cur' = c_tree cur
    \<and> cursor_in fits ops dim cur' pre' (dropWhile (\<lambda>i. \<not> hit ops F i) (drop 1 ys))"
proof -
  have st: "\<not> c_did_seek cur \<Longrightarrow> c_stack cur = []" using cur by (simp add: cursor_in_def)
  obtain c p where c: "(if c_did_seek cur then Some cur else search_forward dim F cur) = Some c"
    "c_did_seek c" "c_tree c = c_tree cur" "cursor_in fits ops dim c p ys"
  proof (cases "c_did_seek cur")
    case True
    then show ?thesis using cur start that by simp
  next
    case False
    then show ?thesis
      using search_forward_ok [OF F cur refl refl] st start that by auto
  qed
  have "c_stack c = [] \<Longrightarrow> ys = []" using c(2,4) by (auto simp: cursor_in_def)
  then show ?thesis
    using search_forward_ok [OF F c(4) refl refl] cursor_item_at(1) [OF c(4,2)] c
    by (cases ys) (auto simp: filter_iter_next_def first_opt_def split: if_splits)
qed

end

sublocale summary_laws \<subseteq> unit: dimension_laws ops fits unit_dim
  by unfold_locales simp_all

context summary_laws
begin

lemma items_loop_ok:
  "cursor_in fits ops unit_dim cur pre suf \<Longrightarrow> c_did_seek cur \<Longrightarrow> items_loop cur acc = Some (acc @ suf)"
proof (induction suf arbitrary: cur pre acc)
  case Nil
  then show ?case
    using cursor_item_at(1) [OF Nil] by (subst items_loop.simps) (simp add: first_opt_def)
next
  case (Cons i suf)
  obtain cur' where c: "cursor_next unit_dim cur = Some cur'" "c_did_seek cur'" "cursor_in fits ops unit_dim cur' (pre @ [i]) suf"
    using unit.cursor_next_ok [OF Cons.prems(1)] Cons.prems(2) by auto
  show ?case
    using cursor_item_at(1) [OF Cons.prems] c(1) Cons.IH [OF c(3,2)]
    by (subst items_loop.simps) (simp add: first_opt_def)
qed

lemma sum_tree_items_ok:
  assumes "wf_in fits ops t" "node_height t < STACK_CAPACITY"
  shows "sum_tree_items t = Some (tree_items t)"
proof -
  have "\<not> c_did_seek (cursor_new unit_dim t)" by (simp add: cursor_new_def)
  then show ?thesis
    using unit.cursor_next_ok [OF cursor_new_at [OF assms]] items_loop_ok
    by (fastforce simp: sum_tree_items_def)
qed

end

text \<open>
  The borrowing iterator: descending always stops at the first item of a subtree, since
  no subtree of a well-formed tree is empty.
\<close>

context summary_laws
begin

lemma iter_descend:
  assumes root: "wf_in fits ops root" "node_height root < STACK_CAPACITY"
  shows "below_ok ops unit_dim root t rest \<Longrightarrow> tree_items t \<noteq> []
    \<Longrightarrow> \<exists>st. iter_loop (entry_at t 0 () # rest) True = Some (Some (hd (tree_items t)), st)
      \<and> stack_ok ops unit_dim root st \<and> st \<noteq> [] \<and> stack_rem st = tree_items t @ rem_below rest"
proof (induction t arbitrary: rest)
  case (Internal h s css cts)
  note bw = below_ok_wf [OF Internal.prems(1) root(1)]
  then obtain c cs where cts: "cts = c # cs" by (cases cts) auto
  then have c: "wf_in fits ops c" "tree_items c \<noteq> []" "0 < h" using bw by auto
  let ?e = "(entry_at (Internal h s css cts) 0 ())\<lparr>se_index := 0\<rparr>"
  have "below_ok ops unit_dim root c (?e # rest)" using Internal.prems(1) cts by (simp add: entry_at_def)
  from Internal.IH [OF _ this c(2)] cts obtain st where st:
    "iter_loop (entry_at c 0 () # ?e # rest) True = Some (Some (hd (tree_items c)), st)"
    "stack_ok ops unit_dim root st" "st \<noteq> []" "stack_rem st = tree_items c @ rem_below (?e # rest)" by auto
  have "length rest < 15" using bw c(3) root(2) by (simp add: STACK_CAPACITY_def)
  then have "iter_loop (entry_at (Internal h s css cts) 0 () # rest) True = iter_loop (entry_at c 0 () # ?e # rest) True"
    using cts by (subst iter_loop.simps) (simp add: entry_at_def)
  then show ?case using st c(2) cts by (auto simp: entry_at_def)
next
  case (Leaf s "is" ss)
  then show ?case
    by (intro exI [of _ "(entry_at (Leaf s is ss) 0 ())\<lparr>se_index := 0\<rparr> # rest"], subst iter_loop.simps)
      (simp add: entry_at_def hd_conv_nth)
qed

lemma iter_ascend:
  assumes root: "wf_in fits ops root" "node_height root < STACK_CAPACITY"
  shows "below_ok ops unit_dim root t rest
    \<Longrightarrow> \<exists>st. iter_loop rest False = Some (first_opt (rem_below rest), st)
      \<and> stack_ok ops unit_dim root st \<and> stack_rem st = rem_below rest"
proof (induction rest arbitrary: t)
  case Nil
  then show ?case by (subst iter_loop.simps) (simp add: first_opt_def)
next
  case (Cons e rest)
  then obtain h s css cts where e: "se_tree e = Internal h s css cts" by (cases "se_tree e") auto
  have b: "below_ok ops unit_dim root (se_tree e) rest" "se_index e < length cts"
    using Cons.prems e by simp_all
  note bw = below_ok_wf [OF b(1) root(1)]
  show ?case
  proof (cases "Suc (se_index e) < length cts")
    case False
    then have "iter_loop (e # rest) False = iter_loop rest False"
      using e by (subst iter_loop.simps) (simp add: get_ix_def)
    moreover have "rem_below (e # rest) = rem_below rest" using e False by simp
    ultimately show ?thesis using Cons.IH [OF b(1)] by (simp del: rem_below.simps)
  next
    case True
    let ?c = "cts ! Suc (se_index e)" and ?e = "e\<lparr>se_index := Suc (se_index e)\<rparr>"
    have c: "tree_items ?c \<noteq> []" "0 < h" using wf_child [of fits ops "se_tree e" "Suc (se_index e)"] bw e True by auto
    have "below_ok ops unit_dim root ?c (?e # rest)" using b True e by simp
    from iter_descend [OF root this c(1)] obtain st where st:
      "iter_loop (entry_at ?c 0 () # ?e # rest) True = Some (Some (hd (tree_items ?c)), st)"
      "stack_ok ops unit_dim root st" "stack_rem st = tree_items ?c @ rem_below (?e # rest)" by auto
    have "length rest < 15" using bw c(2) root(2) e by (simp add: STACK_CAPACITY_def)
    then have "iter_loop (e # rest) False = iter_loop (entry_at ?c 0 () # ?e # rest) True"
      using e True by (subst iter_loop.simps) simp
    moreover have "rem_below (e # rest) = tree_items ?c @ rem_below (?e # rest)"
      using e True by (simp add: Cons_nth_drop_Suc [symmetric])
    ultimately show ?thesis using st c(1) by (cases "tree_items ?c") (auto simp: first_opt_def)
  qed
qed

lemma iter_next_ok:
  assumes root: "wf_in fits ops t" "node_height t < STACK_CAPACITY"
    and st: "it_tree it = t" "stack_ok ops unit_dim t (it_stack it)"
  shows "\<exists>it'. iter_next it = Some (first_opt (if it_stack it = [] then tree_items t else drop 1 (stack_rem (it_stack it))), it')
    \<and> it_tree it' = t \<and> stack_ok ops unit_dim t (it_stack it')
    \<and> stack_rem (it_stack it') = (if it_stack it = [] then tree_items t else drop 1 (stack_rem (it_stack it)))"
proof (cases "it_stack it")
  case Nil
  show ?thesis
  proof (cases "tree_items t = []")
    case True
    then obtain s ss where "t = Leaf s [] ss" using root(1) wf_in_is_empty [OF root(1)] by (cases t) auto
    then have "iter_loop [entry_at t 0 ()] True = Some (None, [])"
      by (subst iter_loop.simps) (simp add: entry_at_def get_ix_def, subst iter_loop.simps, simp)
    then show ?thesis using Nil True st by (simp add: iter_next_def first_opt_def)
  next
    case False
    then show ?thesis
      using Nil st iter_descend [OF root, of t "[]"]
      by (cases "tree_items t") (auto simp: iter_next_def first_opt_def)
  qed
next
  case (Cons e rest)
  then obtain s "is" ss where l: "se_tree e = Leaf s is ss" "se_index e < length is"
    "below_ok ops unit_dim t (se_tree e) rest" using st by (cases "se_tree e") auto
  show ?thesis
  proof (cases "Suc (se_index e) < length is")
    case True
    then have "iter_loop (e # rest) False = Some (Some (is ! Suc (se_index e)), e\<lparr>se_index := Suc (se_index e)\<rparr> # rest)"
      using l by (subst iter_loop.simps) simp
    then show ?thesis using Cons st l True
      by (auto simp: iter_next_def first_opt_def Cons_nth_drop_Suc [symmetric])
  next
    case False
    then have "iter_loop (e # rest) False = iter_loop rest False"
      using l by (subst iter_loop.simps) (simp add: get_ix_def)
    moreover have "drop (se_index e) is = [is ! se_index e]"
      using l(2) False by (simp add: Cons_nth_drop_Suc [symmetric])
    ultimately show ?thesis using iter_ascend [OF root l(3)] Cons st l by (auto simp: iter_next_def)
  qed
qed

end

section \<open>Consuming iterators\<close>

text \<open>A \<open>for\<close> loop over a cursor or over \<open>iter()\<close>, collecting what it yields.\<close>

partial_function (option) cursor_collect :: "('s, 'd) dim_ops \<Rightarrow> ('t, 's, 'd) cursor \<Rightarrow> 't list \<Rightarrow> 't list rust" where
  "cursor_collect dim cursor acc = do {
     (item, cursor) \<leftarrow> cursor_iter_next dim cursor;
     case item of
       None \<Rightarrow> Some acc
     | Some i \<Rightarrow> cursor_collect dim cursor (acc @ [i])
   }"

partial_function (option) filter_collect :: "('s, 'd) dim_ops \<Rightarrow> ('s \<Rightarrow> bool) \<Rightarrow> ('t, 's, 'd) cursor
    \<Rightarrow> 't list \<Rightarrow> 't list rust" where
  "filter_collect dim F cursor acc = do {
     (item, cursor) \<leftarrow> filter_iter_next dim F cursor;
     case item of
       None \<Rightarrow> Some acc
     | Some i \<Rightarrow> filter_collect dim F cursor (acc @ [i])
   }"

partial_function (option) iter_collect :: "('t, 's) tree_iter \<Rightarrow> 't list \<Rightarrow> 't list rust" where
  "iter_collect it acc = do {
     (item, it) \<leftarrow> iter_next it;
     case item of
       None \<Rightarrow> Some acc
     | Some i \<Rightarrow> iter_collect it (acc @ [i])
   }"

text \<open>\<open>impl PartialEq for SumTree\<close>: the two iterators are compared in lockstep.\<close>

partial_function (option) iter_eq :: "('t, 's) tree_iter \<Rightarrow> ('t, 's) tree_iter \<Rightarrow> bool rust" where
  "iter_eq it other = do {
     (x, it) \<leftarrow> iter_next it;
     case x of
       None \<Rightarrow> do { (y, _) \<leftarrow> iter_next other; Some (y = None) }
     | Some i \<Rightarrow> do {
         (y, other) \<leftarrow> iter_next other;
         case y of None \<Rightarrow> Some False | Some j \<Rightarrow> if i \<noteq> j then Some False else iter_eq it other
       }
   }"

text \<open>The loops compute: their unfolding equations serve evaluation.\<close>

declare cursor_collect.simps [code] filter_collect.simps [code] iter_collect.simps [code] iter_eq.simps [code]

definition tree_eq :: "('t, 's) node \<Rightarrow> ('t, 's) node \<Rightarrow> bool rust" where
  "tree_eq self other = iter_eq (iter_new self) (iter_new other)"

context dimension_laws
begin

lemma cursor_collect_ok:
  "cursor_in fits ops dim cur pre suf \<Longrightarrow> cursor_collect dim cur acc = Some (acc @ suf)"
proof (induction suf arbitrary: cur pre acc)
  case Nil
  then show ?case
    using cursor_iter_next_ok [OF Nil] by (subst cursor_collect.simps) (auto simp: first_opt_def)
next
  case (Cons i suf)
  obtain cur' where "cursor_iter_next dim cur = Some (Some i, cur')" "cursor_in fits ops dim cur' (pre @ [i]) suf"
    using cursor_iter_next_ok [OF Cons.prems] by (auto simp: first_opt_def)
  then show ?case using Cons.IH by (subst cursor_collect.simps) simp
qed

lemma filter_collect_rest:
  assumes F: "sieve fits ops F"
  shows "cursor_in fits ops dim cur pre (dropWhile (\<lambda>i. \<not> hit ops F i) ys) \<Longrightarrow> c_did_seek cur
    \<Longrightarrow> filter_collect dim F cur acc = Some (acc @ filter (hit ops F) ys)"
proof (induction "length ys" arbitrary: cur pre ys acc rule: less_induct)
  case less
  from filter_iter_next_ok [OF F less.prems(1), of "dropWhile (\<lambda>i. \<not> hit ops F i) ys"] less.prems(2) obtain cur' pre' where c:
    "filter_iter_next dim F cur = Some (first_opt (dropWhile (\<lambda>i. \<not> hit ops F i) ys), cur')" "c_did_seek cur'"
    "cursor_in fits ops dim cur' pre' (dropWhile (\<lambda>i. \<not> hit ops F i) (drop 1 (dropWhile (\<lambda>i. \<not> hit ops F i) ys)))" by auto
  show ?case
  proof (cases "dropWhile (\<lambda>i. \<not> hit ops F i) ys")
    case Nil
    then have "filter (hit ops F) ys = []" by (simp add: dropWhile_eq_Nil_conv)
    then show ?thesis using c(1) Nil by (subst filter_collect.simps) (simp add: first_opt_def)
  next
    case (Cons i zs)
    have len: "length zs < length ys" using length_dropWhile_le [of "\<lambda>i. \<not> hit ops F i" ys] unfolding Cons by simp
    have "hit ops F i" using hd_dropWhile [of "\<lambda>i. \<not> hit ops F i" ys] unfolding Cons by simp
    moreover have "filter (hit ops F) (takeWhile (\<lambda>i. \<not> hit ops F i) ys) = []"
      by (auto simp: filter_empty_conv dest: set_takeWhileD)
    ultimately have "filter (hit ops F) ys = i # filter (hit ops F) zs"
      using takeWhile_dropWhile_id [of "\<lambda>i. \<not> hit ops F i" ys] unfolding Cons
      by (metis filter.simps(2) filter_append append_Nil)
    then show ?thesis using less.hyps [OF len, of cur' pre' "acc @ [i]"] c Cons
      by (subst filter_collect.simps) (simp add: first_opt_def)
  qed
qed

lemma filter_collect_ok:
  assumes F: "sieve fits ops F" and t: "wf_in fits ops t" "node_height t < STACK_CAPACITY"
  shows "filter_collect dim F (cursor_new dim t) acc = Some (acc @ filter (hit ops F) (tree_items t))"
proof -
  have new: "\<not> c_did_seek (cursor_new dim t)" "c_stack (cursor_new dim t) = []" by (simp_all add: cursor_new_def)
  from search_forward_ok [OF F cursor_new_at [OF t, of dim] refl refl] new obtain cur pre where c:
    "search_forward dim F (cursor_new dim t) = Some cur" "c_did_seek cur"
    "cursor_in fits ops dim cur pre (dropWhile (\<lambda>i. \<not> hit ops F i) (tree_items t))" by auto
  have "filter_iter_next dim F (cursor_new dim t) = filter_iter_next dim F cur"
    using new c(1,2) by (simp add: filter_iter_next_def)
  then have "filter_collect dim F (cursor_new dim t) acc = filter_collect dim F cur acc"
    by (subst (1 2) filter_collect.simps) simp
  then show ?thesis using filter_collect_rest [OF F c(3,2)] by simp
qed

end

context summary_laws
begin

lemma iter_collect_rest:
  assumes root: "wf_in fits ops t" "node_height t < STACK_CAPACITY"
  shows "it_tree it = t \<Longrightarrow> stack_ok ops unit_dim t (it_stack it) \<Longrightarrow> it_stack it \<noteq> []
    \<Longrightarrow> stack_rem (it_stack it) = i # ys \<Longrightarrow> iter_collect it acc = Some (acc @ ys)"
proof (induction ys arbitrary: it i acc)
  case Nil
  then show ?case using iter_next_ok [OF root Nil(1,2)] by (subst iter_collect.simps) (auto simp: first_opt_def)
next
  case (Cons j ys)
  from iter_next_ok [OF root Cons.prems(1,2)] Cons.prems(3,4) obtain it' where it:
    "iter_next it = Some (Some j, it')" "it_tree it' = t" "stack_ok ops unit_dim t (it_stack it')"
    "stack_rem (it_stack it') = j # ys" by (auto simp: first_opt_def)
  then have "it_stack it' \<noteq> []" by (cases "it_stack it'") auto
  then show ?case using Cons.IH [OF it(2,3) _ it(4)] it(1) by (subst iter_collect.simps) simp
qed

lemma iter_collect_ok:
  assumes root: "wf_in fits ops t" "node_height t < STACK_CAPACITY"
  shows "iter_collect (iter_new t) acc = Some (acc @ tree_items t)"
proof -
  from iter_next_ok [OF root, of "iter_new t"] obtain it' where it:
    "iter_next (iter_new t) = Some (first_opt (tree_items t), it')" "it_tree it' = t"
    "stack_ok ops unit_dim t (it_stack it')" "stack_rem (it_stack it') = tree_items t"
    by (auto simp: iter_new_def)
  show ?thesis
  proof (cases "tree_items t")
    case Nil
    then show ?thesis using it(1) by (subst iter_collect.simps) (simp add: first_opt_def)
  next
    case (Cons i ys)
    then have "it_stack it' \<noteq> []" using it(4) by (cases "it_stack it'") auto
    then show ?thesis using it iter_collect_rest [OF root it(2,3)] Cons
      by (subst iter_collect.simps) (simp add: first_opt_def)
  qed
qed

lemma iter_eq_rest:
  assumes root: "wf_in fits ops t" "node_height t < STACK_CAPACITY" "wf_in fits ops u" "node_height u < STACK_CAPACITY"
  shows "it_tree it = t \<Longrightarrow> stack_ok ops unit_dim t (it_stack it) \<Longrightarrow> it_tree it2 = u
    \<Longrightarrow> stack_ok ops unit_dim u (it_stack it2)
    \<Longrightarrow> xs = (if it_stack it = [] then tree_items t else drop 1 (stack_rem (it_stack it)))
    \<Longrightarrow> ys = (if it_stack it2 = [] then tree_items u else drop 1 (stack_rem (it_stack it2)))
    \<Longrightarrow> iter_eq it it2 = Some (xs = ys)"
proof (induction xs arbitrary: it it2 ys)
  case Nil
  from iter_next_ok [OF root(1,2) Nil.prems(1,2)] Nil.prems(5) obtain it' where
    "iter_next it = Some (None, it')" by (auto simp: first_opt_def)
  moreover from iter_next_ok [OF root(3,4) Nil.prems(3,4)] Nil.prems(6) obtain it2' where
    "iter_next it2 = Some (first_opt ys, it2')" by auto
  ultimately show ?case by (subst iter_eq.simps) (auto simp: first_opt_def split: list.splits)
next
  case (Cons i xs)
  from iter_next_ok [OF root(1,2) Cons.prems(1,2)] obtain it' where 1:
    "iter_next it = Some (Some i, it')" "it_tree it' = t" "stack_ok ops unit_dim t (it_stack it')"
    "stack_rem (it_stack it') = i # xs" unfolding Cons.prems(5) [symmetric] by (auto simp: first_opt_def)
  from iter_next_ok [OF root(3,4) Cons.prems(3,4)] obtain it2' where 2:
    "iter_next it2 = Some (first_opt ys, it2')" "it_tree it2' = u" "stack_ok ops unit_dim u (it_stack it2')"
    "stack_rem (it_stack it2') = ys" unfolding Cons.prems(6) [symmetric] by auto
  have n: "it_stack it' \<noteq> []" using 1(4) by (cases "it_stack it'") auto
  show ?case
  proof (cases ys)
    case Nil
    then show ?thesis using 1(1) 2(1) by (subst iter_eq.simps) (simp add: first_opt_def)
  next
    case (Cons j zs)
    then have "it_stack it2' \<noteq> []" using 2(4) by (cases "it_stack it2'") auto
    then have "iter_eq it' it2' = Some (xs = zs)"
      using Cons.IH [OF 1(2,3) 2(2,3), of zs] n 1(4) 2(4) Cons by simp
    then show ?thesis using 1(1) 2(1) Cons by (subst iter_eq.simps) (simp add: first_opt_def)
  qed
qed

lemma tree_eq_ok:
  assumes "wf_in fits ops t" "node_height t < STACK_CAPACITY" "wf_in fits ops u" "node_height u < STACK_CAPACITY"
  shows "tree_eq t u = Some (tree_items t = tree_items u)"
  using iter_eq_rest [OF assms, of "iter_new t" "iter_new u"] by (simp add: tree_eq_def iter_new_def)

end

end
