(* ===== verification/Keyed.thy ===== *)
theory Keyed
  imports CursorMove
begin

text \<open>
  The keyed operations of a summarising tree (\<open>impl SumTree<T: KeyedItem>\<close> in
  \<open>sum_tree.rs\<close>): insertion, removal, lookup and batches of edits, for items ordered by a
  key that is itself a dimension of their summaries.
\<close>

section \<open>Operations\<close>

record ('t, 's, 'k) keyed_ops = "('t, 's) item_ops" +
  it_key :: "'t \<Rightarrow> 'k"
  key_zero :: 'k
  key_add :: "'k \<Rightarrow> 's \<Rightarrow> 'k"

definition key_dim :: "('t, 's, 'k, 'z) keyed_ops_scheme \<Rightarrow> ('s, 'k) dim_ops" where
  "key_dim kops = \<lparr>d_zero = key_zero kops, d_add = key_add kops\<rparr>"

definition base_ops :: "('t, 's, 'k, 'z) keyed_ops_scheme \<Rightarrow> ('t, 's) item_ops" where
  "base_ops kops = \<lparr>it_summary = it_summary kops, s_zero = s_zero kops, s_add = s_add kops\<rparr>"

datatype ('t, 'k) keyed_edit = Insert 't | Remove 'k

fun edit_key :: "('t, 's, 'k) keyed_ops \<Rightarrow> ('t, 'k) keyed_edit \<Rightarrow> 'k" where
  "edit_key kops (Insert item) = it_key kops item"
| "edit_key kops (Remove key) = key"

definition insert_or_replace :: "('t, 's, 'k::linorder) keyed_ops \<Rightarrow> ('t, 's) node \<Rightarrow> 't
    \<Rightarrow> ('t option \<times> ('t, 's) node) rust" where
  "insert_or_replace kops self item = do {
     let ops = base_ops kops;
     let dim = key_dim kops;
     (new_tree, cursor) \<leftarrow> cursor_slice ops dim (cmp (it_key kops item)) Left (cursor_new dim self);
     cursor_item \<leftarrow> cursor_item cursor;
     (replaced, cursor) \<leftarrow>
       (case cursor_item of
          Some i \<Rightarrow> if it_key kops i = it_key kops item
                  then do { cursor \<leftarrow> cursor_next dim cursor; Some (Some i, cursor) }
                  else Some (None, cursor)
        | None \<Rightarrow> Some (None, cursor));
     new_tree \<leftarrow> tree_push ops new_tree item;
     (suffix, cursor) \<leftarrow> cursor_suffix ops dim cursor;
     new_tree \<leftarrow> tree_append ops new_tree suffix;
     Some (replaced, new_tree)
   }"

definition tree_remove :: "('t, 's, 'k::linorder) keyed_ops \<Rightarrow> ('t, 's) node \<Rightarrow> 'k
    \<Rightarrow> ('t option \<times> ('t, 's) node) rust" where
  "tree_remove kops self key = do {
     let ops = base_ops kops;
     let dim = key_dim kops;
     (new_tree, cursor) \<leftarrow> cursor_slice ops dim (cmp key) Left (cursor_new dim self);
     item \<leftarrow> cursor_item cursor;
     (removed, cursor) \<leftarrow>
       (case item of
          Some i \<Rightarrow> if it_key kops i = key
                  then do { cursor \<leftarrow> cursor_next dim cursor; Some (Some i, cursor) }
                  else Some (None, cursor)
        | None \<Rightarrow> Some (None, cursor));
     (suffix, cursor) \<leftarrow> cursor_suffix ops dim cursor;
     new_tree \<leftarrow> tree_append ops new_tree suffix;
     Some (removed, new_tree)
   }"

definition tree_get :: "('t, 's, 'k::linorder) keyed_ops \<Rightarrow> ('t, 's) node \<Rightarrow> 'k \<Rightarrow> 't option" where
  "tree_get kops self key =
     (case find_exact (key_dim kops) (cmp key) Left self of
        (_, _, Some item) \<Rightarrow> Some item
      | _ \<Rightarrow> None)"

text \<open>
  The loop of \<open>edit\<close> over the sorted edits; its state is the cursor, the new tree, the items
  waiting to be added to it and the removed items.
\<close>

fun edit_loop :: "('t, 's, 'k::linorder) keyed_ops \<Rightarrow> ('t, 'k) keyed_edit list \<Rightarrow> ('t, 's, 'k) cursor
    \<Rightarrow> ('t, 's) node \<Rightarrow> 't list \<Rightarrow> 't list
    \<Rightarrow> (('t, 's, 'k) cursor \<times> ('t, 's) node \<times> 't list \<times> 't list) rust" where
  "edit_loop kops [] cursor new_tree buffered_items removed =
     Some (cursor, new_tree, buffered_items, removed)"
| "edit_loop kops (edit # edits) cursor new_tree buffered_items removed = do {
     let ops = base_ops kops;
     let dim = key_dim kops;
     let new_key = edit_key kops edit;
     old_item \<leftarrow> cursor_item cursor;
     (cursor, new_tree, buffered_items, old_item) \<leftarrow>
       (case old_item of
          Some i \<Rightarrow>
            if it_key kops i < new_key then do {
              new_tree \<leftarrow> tree_extend ops new_tree buffered_items;
              (slice, cursor) \<leftarrow> cursor_slice ops dim (cmp new_key) Left cursor;
              new_tree \<leftarrow> tree_append ops new_tree slice;
              old_item \<leftarrow> cursor_item cursor;
              Some (cursor, new_tree, [], old_item)
            } else Some (cursor, new_tree, buffered_items, Some i)
        | None \<Rightarrow> Some (cursor, new_tree, buffered_items, None));
     (cursor, removed) \<leftarrow>
       (case old_item of
          Some i \<Rightarrow>
            if it_key kops i = new_key
            then do { cursor \<leftarrow> cursor_next dim cursor; Some (cursor, removed @ [i]) }
            else Some (cursor, removed)
        | None \<Rightarrow> Some (cursor, removed));
     let buffered_items = (case edit of Insert item \<Rightarrow> buffered_items @ [item] | Remove _ \<Rightarrow> buffered_items);
     edit_loop kops edits cursor new_tree buffered_items removed
   }"

text \<open>
  \<open>sort_unstable_by_key\<close> is modelled by the stable sort: which of two edits with equal
  keys comes first is left open by the standard library.
\<close>

definition tree_edit :: "('t, 's, 'k::linorder) keyed_ops \<Rightarrow> ('t, 's) node \<Rightarrow> ('t, 'k) keyed_edit list
    \<Rightarrow> ('t list \<times> ('t, 's) node) rust" where
  "tree_edit kops self edits =
     (if edits = [] then Some ([], self)
      else do {
        let ops = base_ops kops;
        let dim = key_dim kops;
        let edits = sort_key (edit_key kops) edits;
        (_, cursor) \<leftarrow> cursor_seek dim (cmp (key_zero kops)) Left (cursor_new dim self);
        (cursor, new_tree, buffered_items, removed) \<leftarrow> edit_loop kops edits cursor (tree_new ops) [] [];
        new_tree \<leftarrow> tree_extend ops new_tree buffered_items;
        (suffix, _) \<leftarrow> cursor_suffix ops dim cursor;
        new_tree \<leftarrow> tree_append ops new_tree suffix;
        Some (removed, new_tree)
      })"

section \<open>Sorted lists of keyed items\<close>

abbreviation key_sorted :: "('t, 's, 'k::linorder) keyed_ops \<Rightarrow> 't list \<Rightarrow> bool" where
  "key_sorted kops is \<equiv> sorted_wrt (<) (map (it_key kops) is)"

text \<open>
  What a key promises: it is a dimension of the summaries, no key is below its zero, and
  accumulating an item whose key is not below the position gives the item's key.
\<close>

locale keyed_laws = dimension_monoid "base_ops kops" "key_dim kops"
  for kops :: "('t, 's, 'k::linorder) keyed_ops" +
  assumes key_zero_le: "key_zero kops \<le> it_key kops i"
    and key_add_summary: "d \<le> it_key kops i \<Longrightarrow> key_add kops d (it_summary kops i) = it_key kops i"
begin

lemma d_add_key [simp]: "d_add (key_dim kops) = key_add kops" "d_zero (key_dim kops) = key_zero kops"
  "it_summary (base_ops kops) = it_summary kops"
  by (simp_all add: key_dim_def base_ops_def)

lemma key_pos:
  "key_sorted kops (pre @ suf) \<Longrightarrow> suf \<noteq> [] \<Longrightarrow> item_dim (base_ops kops) (key_dim kops) (key_zero kops) pre \<le> it_key kops (hd suf)"
proof (induction pre arbitrary: suf rule: rev_induct)
  case Nil
  then show ?case by (simp add: key_zero_le)
next
  case (snoc x pre)
  have "item_dim (base_ops kops) (key_dim kops) (key_zero kops) pre \<le> it_key kops x"
    using snoc.IH [of "x # suf"] snoc.prems by simp
  then show ?case using snoc.prems by (cases suf) (auto simp: key_add_summary sorted_wrt_append)
qed

lemma prefix_ends_key:
  "key_sorted kops is \<Longrightarrow> (is \<noteq> [] \<Longrightarrow> d \<le> it_key kops (hd is))
   \<Longrightarrow> prefix_ends (base_ops kops) (key_dim kops) d is = map (it_key kops) is"
proof (induction "is" arbitrary: d)
  case (Cons i "is")
  then have "\<And>j. j \<in> set is \<Longrightarrow> it_key kops i \<le> it_key kops j" by (auto simp: less_imp_le)
  then show ?case using Cons by (cases "is") (auto simp: Let_def key_add_summary)
qed simp

lemma monotone_key:
  assumes "key_sorted kops is" "is \<noteq> [] \<Longrightarrow> d \<le> it_key kops (hd is)"
  shows "monotone_target (base_ops kops) (key_dim kops) (cmp k) d is"
proof -
  have "sorted_wrt (\<lambda>x y. rank (cmp k y) \<le> rank (cmp k x)) (map (it_key kops) is)"
    using assms(1) by (rule sorted_wrt_mono_rel [rotated]) (auto simp: cmp_def)
  then show ?thesis using prefix_ends_key [OF assms] by (simp add: monotone_target_def)
qed

lemma seek_split_key:
  "key_sorted kops is \<Longrightarrow> (is \<noteq> [] \<Longrightarrow> d \<le> it_key kops (hd is))
   \<Longrightarrow> seek_split (base_ops kops) (key_dim kops) (past (cmp k) bias) d is =
     (takeWhile (\<lambda>i. goes_past (cmp k (it_key kops i)) bias) is,
      dropWhile (\<lambda>i. goes_past (cmp k (it_key kops i)) bias) is)"
proof (induction "is" arbitrary: d)
  case (Cons i "is")
  have "is \<noteq> [] \<Longrightarrow> it_key kops i \<le> it_key kops (hd is)" using Cons.prems(1) by (cases "is") (auto simp: less_imp_le)
  from Cons.IH [OF _ this] show ?case using Cons.prems by (simp add: Let_def key_add_summary)
qed simp

end

section \<open>Correctness of the single-item operations\<close>

definition key_lookup :: "('t, 's, 'k) keyed_ops \<Rightarrow> 't list \<Rightarrow> 'k \<Rightarrow> 't option" where
  "key_lookup kops is k = find (\<lambda>i. it_key kops i = k) is"

abbreviation keys_below :: "('t, 's, 'k::linorder) keyed_ops \<Rightarrow> 'k \<Rightarrow> 't list \<Rightarrow> 't list" where
  "keys_below kops k is \<equiv> takeWhile (\<lambda>i. it_key kops i < k) is"

abbreviation keys_from :: "('t, 's, 'k::linorder) keyed_ops \<Rightarrow> 'k \<Rightarrow> 't list \<Rightarrow> 't list" where
  "keys_from kops k is \<equiv> dropWhile (\<lambda>i. it_key kops i < k) is"

abbreviation keys_above :: "('t, 's, 'k::linorder) keyed_ops \<Rightarrow> 'k \<Rightarrow> 't list \<Rightarrow> 't list" where
  "keys_above kops k is \<equiv> dropWhile (\<lambda>i. it_key kops i \<le> k) is"

lemma keys_from_split:
  assumes "key_sorted kops is"
  shows "key_lookup kops is k = (case keys_from kops k is of i # _ \<Rightarrow> if it_key kops i = k then Some i else None | [] \<Rightarrow> None)"
    and "keys_above kops k is = (case keys_from kops k is of i # b \<Rightarrow> if it_key kops i = k then b else i # b | [] \<Rightarrow> [])"
proof -
  show "key_lookup kops is k = (case keys_from kops k is of i # _ \<Rightarrow> if it_key kops i = k then Some i else None | [] \<Rightarrow> None)"
    using assms unfolding key_lookup_def
  proof (induction "is")
    case (Cons i "is")
    have "k < it_key kops i \<Longrightarrow> find (\<lambda>i. it_key kops i = k) is = None"
      using Cons.prems by (auto simp: find_None_iff)
    then show ?case using Cons by (cases "it_key kops i" k rule: linorder_cases) auto
  qed simp
  show "keys_above kops k is = (case keys_from kops k is of i # b \<Rightarrow> if it_key kops i = k then b else i # b | [] \<Rightarrow> [])"
    using assms
  proof (induction "is")
    case (Cons i "is")
    then show ?case by (cases "it_key kops i < k"; cases "is") auto
  qed simp
qed

lemma key_sorted_parts:
  assumes "key_sorted kops is"
  shows "key_sorted kops (keys_below kops k is)" "key_sorted kops (keys_from kops k is)"
    "key_sorted kops (keys_above kops k is)"
    "\<forall>i \<in> set (keys_below kops k is). it_key kops i < k" "\<forall>i \<in> set (keys_above kops k is). k < it_key kops i"
proof -
  have split: "key_sorted kops (takeWhile P is)" "key_sorted kops (dropWhile P is)" for P
    using assms by (metis sorted_wrt_append map_append takeWhile_dropWhile_id)+
  show "key_sorted kops (keys_below kops k is)" "key_sorted kops (keys_from kops k is)"
    "key_sorted kops (keys_above kops k is)" by (rule split)+
  show "\<forall>i \<in> set (keys_below kops k is). it_key kops i < k" by (auto dest: set_takeWhileD)
  show "\<forall>i \<in> set (keys_above kops k is). k < it_key kops i"
    using assms by (induction "is") auto
qed

lemma keys_from_ge: "key_sorted kops is \<Longrightarrow> i \<in> set (keys_from kops k is) \<Longrightarrow> k \<le> it_key kops i"
  by (induction "is") (force split: if_splits)+

lemma key_sorted_insert:
  assumes "key_sorted kops is"
  shows "key_sorted kops (keys_below kops (it_key kops x) is @ x # keys_above kops (it_key kops x) is)"
  using key_sorted_parts [OF assms, of "it_key kops x"] by (fastforce simp: sorted_wrt_append)

lemma key_sorted_remove:
  assumes "key_sorted kops is"
  shows "key_sorted kops (keys_below kops k is @ keys_above kops k is)"
  using key_sorted_parts [OF assms, of k] by (fastforce simp: sorted_wrt_append)

lemma key_lookup_append:
  "key_lookup kops (xs @ ys) k = (case key_lookup kops xs k of None \<Rightarrow> key_lookup kops ys k | Some i \<Rightarrow> Some i)"
  unfolding key_lookup_def by (induction xs) auto

lemma key_lookup_Cons:
  "key_lookup kops (i # is) k = (if it_key kops i = k then Some i else key_lookup kops is k)"
  by (simp add: key_lookup_def)

lemma key_lookup_None: "key_lookup kops is k = None \<longleftrightarrow> (\<forall>i \<in> set is. it_key kops i \<noteq> k)"
  unfolding key_lookup_def by (auto simp: find_None_iff)

lemma key_lookup_mem:
  "distinct (map (it_key kops) is) \<Longrightarrow> key_lookup kops is k = Some i \<longleftrightarrow> i \<in> set is \<and> it_key kops i = k"
  by (induction "is") (auto simp: key_lookup_def)

lemma key_lookup_parts:
  assumes "key_sorted kops is" "k' \<noteq> k"
  shows "key_lookup kops (keys_below kops k is @ keys_above kops k is) k' = key_lookup kops is k'"
  using assms
proof (induction "is")
  case (Cons i "is")
  have "k \<le> it_key kops i \<Longrightarrow> keys_above kops k is = is" using Cons.prems(1) by (cases "is") auto
  then show ?case using Cons by (cases "it_key kops i" k rule: linorder_cases) (auto simp: key_lookup_def)
qed simp

context keyed_laws
begin

lemma slice_key:
  assumes cur: "cursor_at (base_ops kops) (key_dim kops) cur pre suf" and o: "key_sorted kops (pre @ suf)"
    and k: "c_position cur \<le> k"
  shows "\<exists>t cur'. cursor_slice (base_ops kops) (key_dim kops) (cmp k) Left cur = Some (t, cur') \<and> wf (base_ops kops) t
    \<and> tree_items t = keys_below kops k suf
    \<and> cursor_at (base_ops kops) (key_dim kops) cur' (pre @ keys_below kops k suf) (keys_from kops k suf)
    \<and> c_did_seek cur'"
proof -
  have "c_position cur = item_dim (base_ops kops) (key_dim kops) (key_zero kops) pre"
    using cur by (simp add: cursor_in_def)
  then have p: "suf \<noteq> [] \<Longrightarrow> c_position cur \<le> it_key kops (hd suf)" using key_pos [OF o] by simp
  have s: "key_sorted kops suf" using o by (simp add: sorted_wrt_append)
  have "cmp k (c_position cur) \<noteq> Less" using k by simp
  from cursor_slice_ok [OF cur this monotone_key [OF s p] seek_split_key [OF s p, where bias = Left and k = k]]
  show ?thesis by auto
qed

lemma skip_key:
  assumes cur: "cursor_at (base_ops kops) (key_dim kops) cur pre (keys_from kops k suf)" "c_did_seek cur"
    and s: "key_sorted kops suf"
  shows "\<exists>cur' pre'. (do {
      item \<leftarrow> cursor_item cur;
      (case item of
         Some i \<Rightarrow> if it_key kops i = k
                 then do { cursor \<leftarrow> cursor_next (key_dim kops) cur; Some (Some i, cursor) }
                 else Some (None, cur)
       | None \<Rightarrow> Some (None, cur)) }) = Some (key_lookup kops suf k, cur')
    \<and> cursor_at (base_ops kops) (key_dim kops) cur' pre' (keys_above kops k suf) \<and> c_did_seek cur'"
proof (cases "keys_from kops k suf")
  case Nil
  then show ?thesis
    using cursor_item_at(1) [OF cur] cur unfolding keys_from_split [OF s] Nil by (auto simp: first_opt_def)
next
  case (Cons i b)
  then show ?thesis
    using cursor_item_at(1) [OF cur] cursor_next_ok [OF cur(1)] cur
    by (auto simp: keys_from_split [OF s] first_opt_def)
qed

lemma insert_or_replace_ok:
  assumes t: "wf (base_ops kops) t" "node_height t < STACK_CAPACITY" "key_sorted kops (tree_items t)"
  shows "\<exists>t'. insert_or_replace kops t x = Some (key_lookup kops (tree_items t) (it_key kops x), t')
    \<and> wf (base_ops kops) t'
    \<and> tree_items t' = keys_below kops (it_key kops x) (tree_items t) @ x # keys_above kops (it_key kops x) (tree_items t)"
proof -
  let ?k = "it_key kops x" and ?ops = "base_ops kops" and ?dim = "key_dim kops"
  have "c_position (cursor_new ?dim t) \<le> ?k" by (simp add: cursor_new_def key_zero_le)
  from slice_key [OF cursor_new_at [OF t(1,2)] _ this] t(3) obtain t1 c1 where 1:
    "cursor_slice ?ops ?dim (cmp ?k) Left (cursor_new ?dim t) = Some (t1, c1)" "wf ?ops t1"
    "tree_items t1 = keys_below kops ?k (tree_items t)" "c_did_seek c1"
    "cursor_at ?ops ?dim c1 ([] @ keys_below kops ?k (tree_items t)) (keys_from kops ?k (tree_items t))" by auto
  from skip_key [OF 1(5,4) t(3)] obtain item c2 pre where 2:
    "cursor_item c1 = Some item"
    "(case item of
         Some i \<Rightarrow> if it_key kops i = ?k
                 then do { cursor \<leftarrow> cursor_next ?dim c1; Some (Some i, cursor) }
                 else Some (None, c1)
       | None \<Rightarrow> Some (None, c1)) = Some (key_lookup kops (tree_items t) ?k, c2)"
    "cursor_at ?ops ?dim c2 pre (keys_above kops ?k (tree_items t))" by (auto simp: bind_eq_Some_conv)
  from tree_push_ok [OF 1(2)] obtain t2 where 3:
    "tree_push ?ops t1 x = Some t2" "wf ?ops t2" "tree_items t2 = tree_items t1 @ [x]" by blast
  from cursor_suffix_ok [OF 2(3)] obtain t3 c3 where 4:
    "cursor_suffix ?ops ?dim c2 = Some (t3, c3)" "wf ?ops t3" "tree_items t3 = keys_above kops ?k (tree_items t)" by blast
  from tree_append_ok [OF 3(2) 4(2)] show ?thesis
    using 1 2(1,2) 3 4 by (auto simp: insert_or_replace_def Let_def)
qed

lemma tree_remove_ok:
  assumes t: "wf (base_ops kops) t" "node_height t < STACK_CAPACITY" "key_sorted kops (tree_items t)"
    and k: "key_zero kops \<le> k"
  shows "\<exists>t'. tree_remove kops t k = Some (key_lookup kops (tree_items t) k, t') \<and> wf (base_ops kops) t'
    \<and> tree_items t' = keys_below kops k (tree_items t) @ keys_above kops k (tree_items t)"
proof -
  let ?ops = "base_ops kops" and ?dim = "key_dim kops"
  have "c_position (cursor_new ?dim t) \<le> k" using k by (simp add: cursor_new_def)
  from slice_key [OF cursor_new_at [OF t(1,2)] _ this] t(3) obtain t1 c1 where 1:
    "cursor_slice ?ops ?dim (cmp k) Left (cursor_new ?dim t) = Some (t1, c1)" "wf ?ops t1"
    "tree_items t1 = keys_below kops k (tree_items t)" "c_did_seek c1"
    "cursor_at ?ops ?dim c1 ([] @ keys_below kops k (tree_items t)) (keys_from kops k (tree_items t))" by auto
  from skip_key [OF 1(5,4) t(3)] obtain item c2 pre where 2:
    "cursor_item c1 = Some item"
    "(case item of
         Some i \<Rightarrow> if it_key kops i = k
                 then do { cursor \<leftarrow> cursor_next ?dim c1; Some (Some i, cursor) }
                 else Some (None, c1)
       | None \<Rightarrow> Some (None, c1)) = Some (key_lookup kops (tree_items t) k, c2)"
    "cursor_at ?ops ?dim c2 pre (keys_above kops k (tree_items t))" by (auto simp: bind_eq_Some_conv)
  from cursor_suffix_ok [OF 2(3)] obtain t3 c3 where 4:
    "cursor_suffix ?ops ?dim c2 = Some (t3, c3)" "wf ?ops t3" "tree_items t3 = keys_above kops k (tree_items t)" by blast
  from tree_append_ok [OF 1(2) 4(2)] show ?thesis
    using 1 2(1,2) 4 by (auto simp: tree_remove_def Let_def)
qed

lemma tree_get_ok:
  assumes t: "wf (base_ops kops) t" "key_sorted kops (tree_items t)"
  shows "tree_get kops t k = key_lookup kops (tree_items t) k"
proof -
  have z: "tree_items t \<noteq> [] \<Longrightarrow> key_zero kops \<le> it_key kops (hd (tree_items t))" by (simp add: key_zero_le)
  have e: "seek_split (base_ops kops) (key_dim kops) (past (cmp k) Left) (key_zero kops) (tree_items t)
      = (keys_below kops k (tree_items t), keys_from kops k (tree_items t))"
    using seek_split_key [OF t(2) z, of k Left] by simp
  have key: "keys_from kops k (tree_items t) = i # b \<Longrightarrow>
      key_add kops (item_dim (base_ops kops) (key_dim kops) (key_zero kops) (keys_below kops k (tree_items t))) (it_summary kops i)
        = it_key kops i" for i b
    using key_pos [of "keys_below kops k (tree_items t)" "keys_from kops k (tree_items t)",
        unfolded takeWhile_dropWhile_id, OF t(2)]
    by (intro key_add_summary) simp
  have "snd (snd (find_exact (key_dim kops) (cmp k) Left t)) = key_lookup kops (tree_items t) k"
  proof (cases "keys_from kops k (tree_items t)")
    case Nil
    then show ?thesis
      using find_exact_ok [OF t(1), of "cmp k"] monotone_key [OF t(2) z]
      unfolding found_exact_def found_def d_add_key e keys_from_split [OF t(2)] Nil by simp
  next
    case (Cons i b)
    then show ?thesis
      using find_exact_ok [OF t(1), of "cmp k"] monotone_key [OF t(2) z] key [OF Cons]
      unfolding found_exact_def found_def d_add_key e keys_from_split [OF t(2)] Cons by auto
  qed
  then show ?thesis by (auto simp: tree_get_def split: prod.splits option.splits)
qed

end

section \<open>Correctness of batches of edits\<close>

text \<open>What a batch of edits, sorted by key, makes of a sorted list, and the items it removes.\<close>

fun edit_items :: "('t, 'k) keyed_edit \<Rightarrow> 't list" where
  "edit_items (Insert x) = [x]"
| "edit_items (Remove _) = []"

fun merge_edits :: "('t, 's, 'k::linorder) keyed_ops \<Rightarrow> ('t, 'k) keyed_edit list \<Rightarrow> 't list \<Rightarrow> 't list" where
  "merge_edits kops [] is = is"
| "merge_edits kops (e # es) is =
     (let k = edit_key kops e
      in keys_below kops k is @ edit_items e @ merge_edits kops es (keys_above kops k is))"

fun removed_by :: "('t, 's, 'k::linorder) keyed_ops \<Rightarrow> ('t, 'k) keyed_edit list \<Rightarrow> 't list \<Rightarrow> 't list" where
  "removed_by kops [] is = []"
| "removed_by kops (e # es) is =
     (let k = edit_key kops e
      in (case key_lookup kops is k of Some i \<Rightarrow> [i] | None \<Rightarrow> []) @ removed_by kops es (keys_above kops k is))"

lemma keys_from_self: "is \<noteq> [] \<longrightarrow> \<not> it_key kops (hd is) < k \<Longrightarrow> keys_below kops k is = [] \<and> keys_from kops k is = is"
  by (cases "is") auto

context keyed_laws
begin

lemma edit_slice_ok:
  assumes cur: "cursor_at (base_ops kops) (key_dim kops) cur pre suf" "c_did_seek cur"
    and o: "key_sorted kops (pre @ suf)" and w: "wf (base_ops kops) t"
  shows "\<exists>cur' t' buf'. (case first_opt suf of
          Some i \<Rightarrow>
            if it_key kops i < k then do {
              new_tree \<leftarrow> tree_extend (base_ops kops) t buf;
              (slice, cursor) \<leftarrow> cursor_slice (base_ops kops) (key_dim kops) (cmp k) Left cur;
              new_tree \<leftarrow> tree_append (base_ops kops) new_tree slice;
              old_item \<leftarrow> cursor_item cursor;
              Some (cursor, new_tree, [], old_item)
            } else Some (cur, t, buf, Some i)
        | None \<Rightarrow> Some (cur, t, buf, None)) = Some (cur', t', buf', first_opt (keys_from kops k suf))
    \<and> wf (base_ops kops) t' \<and> tree_items t' @ buf' = tree_items t @ buf @ keys_below kops k suf
    \<and> cursor_at (base_ops kops) (key_dim kops) cur' (pre @ keys_below kops k suf) (keys_from kops k suf) \<and> c_did_seek cur'"
proof (cases "suf \<noteq> [] \<and> it_key kops (hd suf) < k")
  case False
  then show ?thesis
    using keys_from_self [of suf kops k] cur w by (cases suf) (auto simp: first_opt_def)
next
  case True
  have "c_position cur = item_dim (base_ops kops) (key_dim kops) (key_zero kops) pre"
    using cur by (simp add: cursor_in_def)
  then have "c_position cur \<le> k" using key_pos [OF o] True by fastforce
  from slice_key [OF cur(1) o this] obtain s c where s:
    "cursor_slice (base_ops kops) (key_dim kops) (cmp k) Left cur = Some (s, c)" "wf (base_ops kops) s"
    "tree_items s = keys_below kops k suf" "c_did_seek c"
    "cursor_at (base_ops kops) (key_dim kops) c (pre @ keys_below kops k suf) (keys_from kops k suf)" by blast
  from tree_extend_ok [OF w, of buf] obtain t1 where t1:
    "tree_extend (base_ops kops) t buf = Some t1" "wf (base_ops kops) t1" "tree_items t1 = tree_items t @ buf" by blast
  from tree_append_ok [OF t1(2) s(2)] cursor_item_at(1) [OF s(5,4)] show ?thesis
    using True s t1 by (cases suf) (auto simp: first_opt_def)
qed

lemma edit_skip_ok:
  assumes cur: "cursor_at (base_ops kops) (key_dim kops) cur pre (keys_from kops k suf)" "c_did_seek cur"
    and s: "key_sorted kops suf"
  shows "\<exists>cur' pre'. (case first_opt (keys_from kops k suf) of
          Some i \<Rightarrow>
            if it_key kops i = k
            then do { cursor \<leftarrow> cursor_next (key_dim kops) cur; Some (cursor, removed @ [i]) }
            else Some (cur, removed)
        | None \<Rightarrow> Some (cur, removed))
      = Some (cur', removed @ (case key_lookup kops suf k of Some i \<Rightarrow> [i] | None \<Rightarrow> []))
    \<and> cursor_at (base_ops kops) (key_dim kops) cur' pre' (keys_above kops k suf) \<and> c_did_seek cur'
    \<and> pre' @ keys_above kops k suf = pre @ keys_from kops k suf"
proof (cases "keys_from kops k suf")
  case Nil
  then show ?thesis using cur unfolding keys_from_split [OF s] Nil by (auto simp: first_opt_def)
next
  case (Cons i b)
  then show ?thesis
    using cursor_next_ok [OF cur(1)] cur unfolding keys_from_split [OF s] Cons by (auto simp: first_opt_def)
qed

lemma edit_loop_ok:
  "cursor_at (base_ops kops) (key_dim kops) cur pre suf \<Longrightarrow> c_did_seek cur \<Longrightarrow> key_sorted kops (pre @ suf)
   \<Longrightarrow> wf (base_ops kops) t
   \<Longrightarrow> \<exists>cur' t' buf' pre' suf'. edit_loop kops es cur t buf removed
        = Some (cur', t', buf', removed @ removed_by kops es suf)
      \<and> wf (base_ops kops) t' \<and> cursor_at (base_ops kops) (key_dim kops) cur' pre' suf'
      \<and> tree_items t' @ buf' @ suf' = tree_items t @ buf @ merge_edits kops es suf"
proof (induction es arbitrary: cur pre suf t buf removed)
  case Nil
  then show ?case by auto
next
  case (Cons e es)
  let ?k = "edit_key kops e"
  have s: "key_sorted kops suf" using Cons.prems(3) by (simp add: sorted_wrt_append)
  from edit_slice_ok [OF Cons.prems, where k = ?k and buf = buf] obtain c1 t1 b1 where 1:
    "(case first_opt suf of
          Some i \<Rightarrow>
            if it_key kops i < ?k then do {
              new_tree \<leftarrow> tree_extend (base_ops kops) t buf;
              (slice, cursor) \<leftarrow> cursor_slice (base_ops kops) (key_dim kops) (cmp ?k) Left cur;
              new_tree \<leftarrow> tree_append (base_ops kops) new_tree slice;
              old_item \<leftarrow> cursor_item cursor;
              Some (cursor, new_tree, [], old_item)
            } else Some (cur, t, buf, Some i)
        | None \<Rightarrow> Some (cur, t, buf, None)) = Some (c1, t1, b1, first_opt (keys_from kops ?k suf))"
    "wf (base_ops kops) t1" "tree_items t1 @ b1 = tree_items t @ buf @ keys_below kops ?k suf"
    "cursor_at (base_ops kops) (key_dim kops) c1 (pre @ keys_below kops ?k suf) (keys_from kops ?k suf)" "c_did_seek c1"
    by blast
  from edit_skip_ok [OF 1(4,5) s, of removed] obtain c2 p2 where 2:
    "(case first_opt (keys_from kops ?k suf) of
          Some i \<Rightarrow>
            if it_key kops i = ?k
            then do { cursor \<leftarrow> cursor_next (key_dim kops) c1; Some (cursor, removed @ [i]) }
            else Some (c1, removed)
        | None \<Rightarrow> Some (c1, removed))
      = Some (c2, removed @ (case key_lookup kops suf ?k of Some i \<Rightarrow> [i] | None \<Rightarrow> []))"
    "cursor_at (base_ops kops) (key_dim kops) c2 p2 (keys_above kops ?k suf)" "c_did_seek c2"
    "p2 @ keys_above kops ?k suf = (pre @ keys_below kops ?k suf) @ keys_from kops ?k suf" by blast
  have o2: "key_sorted kops (p2 @ keys_above kops ?k suf)" using 2(4) Cons.prems(3) by simp
  let ?rem = "removed @ (case key_lookup kops suf ?k of Some i \<Rightarrow> [i] | None \<Rightarrow> [])"
  have app: "tree_items t1 @ b1 @ zs = tree_items t @ buf @ keys_below kops ?k suf @ zs" for zs
    using 1(3) by (metis append_assoc)
  have buffer: "(case e of Insert item \<Rightarrow> b1 @ [item] | Remove _ \<Rightarrow> b1) = b1 @ edit_items e" by (cases e) simp_all
  have step: "edit_loop kops (e # es) cur t buf removed = edit_loop kops es c2 t1 (b1 @ edit_items e) ?rem"
    using cursor_item_at(1) [OF Cons.prems(1,2)] 1(1) 2(1) by (simp add: Let_def buffer)
  from Cons.IH [OF 2(2,3) o2 1(2), of "b1 @ edit_items e" ?rem] show ?case
    unfolding step by (auto simp: Let_def app)
qed

end

text \<open>
  The meaning of a batch on lookups. With pairwise distinct keys each edit decides the
  lookup of its key and no other.
\<close>

definition edit_result :: "('t, 's, 'k::linorder) keyed_ops \<Rightarrow> ('t, 'k) keyed_edit list \<Rightarrow> 't list \<Rightarrow> 'k \<Rightarrow> 't option" where
  "edit_result kops es is k =
     (case find (\<lambda>e. edit_key kops e = k) es of
        Some (Insert x) \<Rightarrow> Some x
      | Some (Remove _) \<Rightarrow> None
      | None \<Rightarrow> key_lookup kops is k)"

lemma sort_key_strict:
  assumes "distinct (map f xs)"
  shows "sorted_wrt (<) (map f (sort_key f xs))"
proof -
  have "distinct (map f (sort_key f xs))" using assms
    by (metis distinct_map distinct_sort inj_on_def set_sort)
  then show ?thesis using sorted_sort_key [of f xs] by (simp add: strict_sorted_iff)
qed

lemma edit_items_key: "i \<in> set (edit_items e) \<Longrightarrow> it_key kops i = edit_key kops e"
  by (cases e) auto

lemma merge_edits_set:
  "i \<in> set (merge_edits kops es is) \<Longrightarrow> i \<in> set is \<or> (\<exists>e \<in> set es. it_key kops i = edit_key kops e)"
proof (induction es arbitrary: "is")
  case (Cons e es)
  then show ?case
    by (auto simp: Let_def edit_items_key [of i e kops] dest!: Cons.IH dest: set_takeWhileD set_dropWhileD)
qed simp

lemma key_lookup_above:
  assumes "key_sorted kops is" "k < k'"
  shows "key_lookup kops (keys_above kops k is) k' = key_lookup kops is k'"
  using assms by (induction "is") (auto simp: key_lookup_def)

lemma merge_edits_sorted:
  "key_sorted kops is \<Longrightarrow> sorted_wrt (<) (map (edit_key kops) es) \<Longrightarrow> key_sorted kops (merge_edits kops es is)"
proof (induction es arbitrary: "is")
  case (Cons e es)
  let ?k = "edit_key kops e"
  note p = key_sorted_parts [OF Cons.prems(1), of ?k]
  have above: "\<forall>i \<in> set (merge_edits kops es (keys_above kops ?k is)). ?k < it_key kops i"
    using merge_edits_set [of _ kops es "keys_above kops ?k is"] p(5) Cons.prems(2) by fastforce
  have "key_sorted kops (merge_edits kops es (keys_above kops ?k is))"
    using Cons.IH [OF p(3)] Cons.prems(2) by simp
  then show ?case using p(1,4) above
    by (cases e) (force simp: Let_def sorted_wrt_append)+
qed simp

lemma merge_edits_lookup:
  "key_sorted kops is \<Longrightarrow> sorted_wrt (<) (map (edit_key kops) es)
   \<Longrightarrow> key_lookup kops (merge_edits kops es is) k = edit_result kops es is k"
proof (induction es arbitrary: "is")
  case Nil
  then show ?case by (simp add: edit_result_def)
next
  case (Cons e es)
  let ?k = "edit_key kops e" and ?rest = "merge_edits kops es (keys_above kops (edit_key kops e) is)"
  note p = key_sorted_parts [OF Cons.prems(1), of ?k]
  have above: "\<forall>i \<in> set ?rest. ?k < it_key kops i"
    using merge_edits_set [of _ kops es "keys_above kops ?k is"] p(5) Cons.prems(2) by fastforce
  have IH: "key_lookup kops ?rest k = edit_result kops es (keys_above kops ?k is) k"
    using Cons.IH [OF p(3)] Cons.prems(2) by simp
  have m: "merge_edits kops (e # es) is = keys_below kops ?k is @ edit_items e @ ?rest" by (simp add: Let_def)
  show ?case
  proof (cases k ?k rule: linorder_cases)
    case less
    have "key_lookup kops ?rest k = None" "key_lookup kops (edit_items e) k = None"
      using above less edit_items_key [of _ e kops] by (fastforce simp: key_lookup_None)+
    moreover have "key_lookup kops (keys_above kops ?k is) k = None"
      using p(5) less by (fastforce simp: key_lookup_None)
    moreover have "find (\<lambda>e. edit_key kops e = k) (e # es) = None"
      using Cons.prems(2) less by (auto simp: find_None_iff)
    ultimately show ?thesis
      using key_lookup_parts [OF Cons.prems(1) less_imp_neq [OF less]]
      unfolding m edit_result_def by (simp add: key_lookup_append split: option.splits)
  next
    case equal
    have "key_lookup kops ?rest k = None" "key_lookup kops (keys_below kops ?k is) k = None"
      using above p(4) equal by (fastforce simp: key_lookup_None)+
    then show ?thesis using equal
      unfolding m edit_result_def key_lookup_append by (cases e) (simp_all add: key_lookup_def)
  next
    case greater
    have "key_lookup kops (edit_items e) k = None" "key_lookup kops (keys_below kops ?k is) k = None"
      using p(4) greater edit_items_key [of _ e kops] by (fastforce simp: key_lookup_None)+
    then show ?thesis
      using less_imp_neq [OF greater] IH key_lookup_above [OF Cons.prems(1) greater]
      unfolding m edit_result_def key_lookup_append by (simp cong: option.case_cong)
  qed
qed

lemma edit_result_inserts:
  assumes "distinct (map (it_key kops) xs)" "set es = Insert ` set xs"
  shows "edit_result kops es is k = (case key_lookup kops xs k of Some x \<Rightarrow> Some x | None \<Rightarrow> key_lookup kops is k)"
proof (cases "find (\<lambda>e. edit_key kops e = k) es")
  case None
  then have "key_lookup kops xs k = None" using assms(2) by (auto simp: find_None_iff key_lookup_None)
  then show ?thesis using None by (simp add: edit_result_def)
next
  case (Some e)
  then have "e \<in> set es" "edit_key kops e = k" by (auto simp: find_Some_iff)
  then obtain x where "e = Insert x" "x \<in> set xs" "it_key kops x = k" using assms(2) by auto
  then show ?thesis using Some key_lookup_mem [OF assms(1), of k x] by (simp add: edit_result_def)
qed

lemma removed_by_above:
  assumes "key_sorted kops is" "sorted_wrt (<) (map (edit_key kops) es)" "\<forall>e \<in> set es. k < edit_key kops e"
  shows "removed_by kops es (keys_above kops k is) = List.map_filter (\<lambda>e. key_lookup kops is (edit_key kops e)) es
    \<and> removed_by kops es is = List.map_filter (\<lambda>e. key_lookup kops is (edit_key kops e)) es"
  using assms
proof (induction es arbitrary: "is" k)
  case Nil
  then show ?case by (simp add: List.map_filter_def)
next
  case (Cons e es)
  let ?k = "edit_key kops e"
  have 1: "removed_by kops es (keys_above kops ?k js) = List.map_filter (\<lambda>e. key_lookup kops js (edit_key kops e)) es"
    if "key_sorted kops js" for js
    using Cons.IH [OF that, of ?k] Cons.prems(2) by simp
  have 2: "key_lookup kops (keys_above kops k is) (edit_key kops x) = key_lookup kops is (edit_key kops x)"
    if "x \<in> set (e # es)" for x
    using Cons.prems(3) that by (intro key_lookup_above [OF Cons.prems(1)]) auto
  have 3: "List.map_filter (\<lambda>e. key_lookup kops (keys_above kops k is) (edit_key kops e)) es
      = List.map_filter (\<lambda>e. key_lookup kops is (edit_key kops e)) es"
    using 2 by (auto simp: List.map_filter_def intro!: map_cong filter_cong)
  show ?case
    using 1 [OF key_sorted_parts(3) [OF Cons.prems(1)]] 1 [OF Cons.prems(1)] 2 [of e] 3
    by (auto simp: Let_def List.map_filter_simps split: option.splits)
qed

lemma removed_by_sorted:
  assumes "key_sorted kops is" "sorted_wrt (<) (map (edit_key kops) es)"
  shows "removed_by kops es is = List.map_filter (\<lambda>e. key_lookup kops is (edit_key kops e)) es"
proof (cases es)
  case (Cons e es')
  then show ?thesis
    using removed_by_above [OF assms(1), of es' "edit_key kops e"] assms(2)
    by (auto simp: Let_def List.map_filter_simps split: option.splits)
qed (simp add: List.map_filter_simps)

context keyed_laws
begin

lemma seek_key:
  assumes "wf (base_ops kops) t" "node_height t < STACK_CAPACITY" "key_sorted kops (tree_items t)" "key_zero kops \<le> k"
  shows "\<exists>r cur. cursor_seek (key_dim kops) (cmp k) Left (cursor_new (key_dim kops) t) = Some (r, cur)
    \<and> cursor_at (base_ops kops) (key_dim kops) cur (keys_below kops k (tree_items t)) (keys_from kops k (tree_items t))
    \<and> c_did_seek cur"
proof -
  have z: "tree_items t \<noteq> [] \<Longrightarrow> key_zero kops \<le> it_key kops (hd (tree_items t))" by (simp add: key_zero_le)
  have "seek_split (base_ops kops) (key_dim kops) (past (cmp k) Left) (d_zero (key_dim kops)) ([] @ tree_items t)
      = (keys_below kops k (tree_items t), keys_from kops k (tree_items t))"
    using seek_split_key [OF assms(3) z, where k = k and bias = Left] by simp
  from cursor_seek_ok [OF cursor_new_at [OF assms(1,2)] _ _ this] monotone_key [OF assms(3) z] assms(4)
  show ?thesis by (auto simp: not_less)
qed

lemma seek_zero:
  assumes "wf (base_ops kops) t" "node_height t < STACK_CAPACITY" "key_sorted kops (tree_items t)"
  shows "\<exists>r cur. cursor_seek (key_dim kops) (cmp (key_zero kops)) Left (cursor_new (key_dim kops) t) = Some (r, cur)
    \<and> cursor_at (base_ops kops) (key_dim kops) cur [] (tree_items t) \<and> c_did_seek cur"
proof -
  have "keys_below kops (key_zero kops) (tree_items t) = []" "keys_from kops (key_zero kops) (tree_items t) = tree_items t"
    using keys_from_self [of "tree_items t" kops "key_zero kops"] by (simp_all add: key_zero_le not_less)
  then show ?thesis using seek_key [OF assms, of "key_zero kops"] by simp
qed

lemma tree_edit_ok:
  assumes t: "wf (base_ops kops) t" "node_height t < STACK_CAPACITY" "key_sorted kops (tree_items t)"
  shows "\<exists>t'. tree_edit kops t es = Some (removed_by kops (sort_key (edit_key kops) es) (tree_items t), t')
    \<and> wf (base_ops kops) t'
    \<and> tree_items t' = merge_edits kops (sort_key (edit_key kops) es) (tree_items t)"
proof (cases "es = []")
  case True
  then show ?thesis using t(1) by (simp add: tree_edit_def)
next
  case False
  let ?ops = "base_ops kops" and ?dim = "key_dim kops" and ?es = "sort_key (edit_key kops) es"
  from seek_zero [OF t] obtain r c1 where 1:
    "cursor_seek ?dim (cmp (key_zero kops)) Left (cursor_new ?dim t) = Some (r, c1)"
    "cursor_at ?ops ?dim c1 [] (tree_items t)" "c_did_seek c1" by blast
  from edit_loop_ok [OF 1(2,3) _ wf_in_tree_new(1), of ?es "[]" "[]"] t(3) obtain c2 t2 buf pre suf where 2:
    "edit_loop kops ?es c1 (tree_new ?ops) [] [] = Some (c2, t2, buf, removed_by kops ?es (tree_items t))"
    "wf ?ops t2" "cursor_at ?ops ?dim c2 pre suf"
    "tree_items t2 @ buf @ suf = merge_edits kops ?es (tree_items t)" by auto
  from tree_extend_ok [OF 2(2)] obtain t3 where 3:
    "tree_extend ?ops t2 buf = Some t3" "wf ?ops t3" "tree_items t3 = tree_items t2 @ buf" by blast
  from cursor_suffix_ok [OF 2(3)] obtain t4 c4 where 4:
    "cursor_suffix ?ops ?dim c2 = Some (t4, c4)" "wf ?ops t4" "tree_items t4 = suf" by blast
  from tree_append_ok [OF 3(2) 4(2)] show ?thesis
    using False 1(1) 2(1,4) 3 4 by (auto simp: tree_edit_def Let_def)
qed

lemma tree_insert_batch:
  assumes t: "wf (base_ops kops) t" "node_height t < STACK_CAPACITY" "key_sorted kops (tree_items t)"
    and d: "distinct (map (it_key kops) xs)"
  shows "\<exists>r t'. tree_edit kops t (map Insert xs) = Some (r, t') \<and> wf (base_ops kops) t'
    \<and> key_sorted kops (tree_items t')
    \<and> (\<forall>k. key_lookup kops (tree_items t') k
        = (case key_lookup kops xs k of Some x \<Rightarrow> Some x | None \<Rightarrow> key_lookup kops (tree_items t) k))"
proof -
  let ?es = "sort_key (edit_key kops) (map Insert xs)"
  have "map (edit_key kops) (map Insert xs) = map (it_key kops) xs" by simp
  then have s: "sorted_wrt (<) (map (edit_key kops) ?es)" using d by (intro sort_key_strict) metis
  from tree_edit_ok [OF t, of "map Insert xs"] obtain r t' where
    "tree_edit kops t (map Insert xs) = Some (r, t')" "wf (base_ops kops) t'"
    "tree_items t' = merge_edits kops ?es (tree_items t)" by blast
  then show ?thesis
    using merge_edits_sorted [OF t(3) s] merge_edits_lookup [OF t(3) s] edit_result_inserts [OF d, of ?es] by simp
qed

end

end
