(* ===== verification/CursorBack.thy ===== *)
theory CursorBack
  imports CursorMove
begin

text \<open>
  Correctness of moving a cursor to the previous item (\<open>prev\<close>), and of looking at the
  items next to the current one (\<open>next_item\<close>, \<open>prev_item\<close>) without moving.
\<close>

section \<open>Stepping back\<close>

text \<open>Up to the last item the filter accepts, and the items skipped after it.\<close>

definition kept :: "('t, 's) item_ops \<Rightarrow> ('s \<Rightarrow> bool) \<Rightarrow> 't list \<Rightarrow> 't list" where
  "kept ops F xs = rev (dropWhile (\<lambda>i. \<not> hit ops F i) (rev xs))"

definition skipped :: "('t, 's) item_ops \<Rightarrow> ('s \<Rightarrow> bool) \<Rightarrow> 't list \<Rightarrow> 't list" where
  "skipped ops F xs = rev (takeWhile (\<lambda>i. \<not> hit ops F i) (rev xs))"

lemma kept_Nil: "kept ops F xs = [] \<longleftrightarrow> (\<forall>i \<in> set xs. \<not> hit ops F i)"
  by (simp add: kept_def dropWhile_eq_Nil_conv)

lemma kept_empty [simp]: "kept ops F [] = []" "skipped ops F [] = []"
  by (simp_all add: kept_def skipped_def)

lemma kept_single: "kept ops F [i] = (if hit ops F i then [i] else [])" "skipped ops F [i] = (if hit ops F i then [] else [i])"
  by (simp_all add: kept_def skipped_def)

lemma kept_skip:
  assumes "kept ops F ys = []"
  shows "kept ops F (xs @ ys) = kept ops F xs" "skipped ops F (xs @ ys) = skipped ops F xs @ ys"
  using assms by (simp_all add: kept_Nil) (simp_all add: kept_def skipped_def dropWhile_append takeWhile_append)

lemma kept_hit:
  assumes "kept ops F ys \<noteq> []"
  shows "kept ops F (xs @ ys) = xs @ kept ops F ys" "skipped ops F (xs @ ys) = skipped ops F ys"
  using assms by (auto simp: kept_def skipped_def dropWhile_append takeWhile_append)

lemma kept_skipped: "kept ops F xs @ skipped ops F xs = xs"
  by (metis kept_def skipped_def rev_append rev_rev_ident takeWhile_dropWhile_id)

lemma kept_last: "kept ops F xs \<noteq> [] \<Longrightarrow> hit ops F (last (kept ops F xs))"
  using hd_dropWhile [of "\<lambda>i. \<not> hit ops F i" "rev xs"] by (auto simp: kept_def last_rev)

lemma skipped_no_hit: "i \<in> set (skipped ops F xs) \<Longrightarrow> \<not> hit ops F i"
  by (auto simp: skipped_def dest: set_takeWhileD)

lemma kept_all: "kept ops (\<lambda>_. True) xs = xs" "skipped ops (\<lambda>_. True) xs = []"
  by (cases xs rule: rev_cases; simp add: kept_def skipped_def)+

definition stepped_back :: "('t, 's) item_ops \<Rightarrow> ('s, 'd) dim_ops \<Rightarrow> ('s \<Rightarrow> bool) \<Rightarrow> ('t, 's) node \<Rightarrow> 't list \<Rightarrow> 't list
    \<Rightarrow> 't list \<Rightarrow> (('t, 's, 'd) stack \<times> 'd) rust \<Rightarrow> bool" where
  "stepped_back ops dim F root p xs s res \<longleftrightarrow> (\<exists>st. res = Some (st, item_dim ops dim (d_zero dim) (p @ butlast (kept ops F xs)))
     \<and> stack_ok ops dim root st \<and> st \<noteq> [] \<and> stack_rem st = last (kept ops F xs) # skipped ops F xs @ s)"

text \<open>What a search through some items below a stack gives: a stack at the last hit, or a search of the rest.\<close>

definition back_scanned :: "('t, 's) item_ops \<Rightarrow> ('s, 'd) dim_ops \<Rightarrow> ('s \<Rightarrow> bool) \<Rightarrow> ('t, 's) node \<Rightarrow> ('t, 's, 'd) stack \<Rightarrow> 't list \<Rightarrow> 't list
    \<Rightarrow> (('t, 's, 'd) stack \<times> 'd) rust \<Rightarrow> bool" where
  "back_scanned ops dim F root rest xs s res \<longleftrightarrow>
     (if kept ops F xs = []
      then res = backward_loop dim F rest (case rest of [] \<Rightarrow> d_zero dim | parent # _ \<Rightarrow> se_position parent) False
      else stepped_back ops dim F root (pre_below rest) xs (s @ rem_below rest) res)"

lemma back_scanned_skip:
  assumes "kept ops F ys = []" "back_scanned ops dim F root rest xs (ys @ s) res"
  shows "back_scanned ops dim F root rest (xs @ ys) s res"
  using assms(2) unfolding back_scanned_def stepped_back_def kept_skip [OF assms(1)] by (simp only: append_assoc)

lemma backward_loop_position: "backward_loop dim F (e # rest) p d = backward_loop dim F (e # rest) q d"
  by (subst (1 2) backward_loop.simps) simp

text \<open>Before the first item a cursor has no stack but is not at the end, unless the tree is empty; it stays there.\<close>

definition before_first :: "('s, 'd) dim_ops \<Rightarrow> ('t, 's, 'd) cursor \<Rightarrow> bool" where
  "before_first dim cur \<longleftrightarrow> c_did_seek cur \<and> c_stack cur = [] \<and> c_position cur = d_zero dim \<and> c_at_end cur = tree_is_empty (c_tree cur)"

lemma before_first_item: "before_first dim cur \<Longrightarrow> cursor_item cur = Some None"
  by (simp add: before_first_def cursor_item_def assert_did_seek_def)

lemma before_first_search: "before_first dim cur \<Longrightarrow> search_backward dim F cur = Some cur"
  by (cases cur) (simp add: before_first_def search_backward_def backward_loop.simps [of _ _ "[]"] Let_def)

context dimension_laws
begin

lemma back_position:
  assumes "wf_in fits ops t" "j \<le> length (child_summaries_of t)" "below_ok ops dim root t rest"
  shows "foldl (d_add dim) (case rest of [] \<Rightarrow> d_zero dim | parent # _ \<Rightarrow> se_position parent)
      (take j (child_summaries_of t)) = item_dim ops dim (d_zero dim) (pre_below rest @
      (if is_leaf t then take j (tree_items t) else concat (map tree_items (take j (child_trees_of t)))))"
proof -
  have p: "(case rest of [] \<Rightarrow> d_zero dim | parent # _ \<Rightarrow> se_position parent) = item_dim ops dim (d_zero dim) (pre_below rest)"
    using assms(3) by (cases rest) simp_all
  show ?thesis
  proof (cases t)
    case (Leaf s "is" ss)
    then show ?thesis using assms(1) unfolding p by (simp add: take_map) (simp add: item_dim_def)
  next
    case (Internal h s css cts)
    then have "kids_in fits ops h (take j cts)" "css = map node_summary cts"
      using assms(1) by (auto simp: list_all_iff dest: in_set_takeD)
    then show ?thesis using Internal unfolding p by (simp add: take_map foldl_kids)
  qed
qed

lemma back_leaf_scan:
  assumes root: "wf_in fits ops root"
  shows "se_tree e = Leaf s is ss \<Longrightarrow> below_ok ops dim root (se_tree e) rest
    \<Longrightarrow> n = (if descending then Suc (se_index e) else se_index e) \<Longrightarrow> n \<le> length is
    \<Longrightarrow> back_scanned ops dim F root rest (take n is) (drop n is) (backward_loop dim F (e # rest) p descending)"
proof (induction n arbitrary: e descending p)
  case 0
  then show ?case by (subst backward_loop.simps) (simp add: back_scanned_def split: if_splits)
next
  case (Suc j)
  have w: "wf_in fits ops (se_tree e)" using below_ok_wf [OF Suc.prems(2) root] by simp
  have ss: "ss = map (it_summary ops) is" and j: "j < length is" using w Suc.prems by auto
  let ?pos = "item_dim ops dim (d_zero dim) (pre_below rest @ take j is)"
  let ?e = "e\<lparr>se_index := j, se_position := ?pos\<rparr>"
  have ix: "descending \<Longrightarrow> se_index e = j" "\<not> descending \<Longrightarrow> se_index e = Suc j" using Suc.prems(3) by simp_all
  have pos: "foldl (d_add dim) (case rest of [] \<Rightarrow> d_zero dim | parent # _ \<Rightarrow> se_position parent) (take j ss) = ?pos"
    using back_position [OF w, of j root rest] Suc.prems(1,2) j ss by simp
  have step: "backward_loop dim F (e # rest) p descending
      = (if F (ss ! j) then Some (?e # rest, ?pos) else backward_loop dim F (?e # rest) ?pos False)"
    using j Suc.prems(1) ix pos ss by (cases descending; subst backward_loop.simps) (auto simp: Let_def)
  have xs: "take (Suc j) is = take j is @ [is ! j]" "drop j is = is ! j # drop (Suc j) is"
    using j by (simp_all add: take_Suc_conv_app_nth Cons_nth_drop_Suc)
  show ?case
  proof (cases "F (ss ! j)")
    case True
    then have k: "kept ops F [is ! j] = [is ! j]" "skipped ops F [is ! j] = []" using ss j by (simp_all add: kept_single)
    have "stack_ok ops dim root (?e # rest)" "stack_rem (?e # rest) = drop j is @ rem_below rest" using Suc.prems(1,2) j by simp_all
    then show ?thesis unfolding back_scanned_def stepped_back_def xs(1) step using True xs(2) k by (simp add: kept_hit)
  next
    case False
    have "back_scanned ops dim F root rest (take j is) ([is ! j] @ drop (Suc j) is) (backward_loop dim F (?e # rest) ?pos False)"
      using Suc.IH [of ?e False ?pos] Suc.prems(1,2) j xs(2) by simp
    moreover have "kept ops F [is ! j] = []" using False ss j by (simp add: kept_single)
    ultimately show ?thesis unfolding xs(1) step using False by (intro back_scanned_skip) simp_all
  qed
qed

lemma back_children_scan:
  assumes F: "sieve fits ops F" and root: "wf_in fits ops root" "node_height root < STACK_CAPACITY"
    and down: "\<And>c rest' p. c \<in> set cts \<Longrightarrow> below_ok ops dim root c rest' \<Longrightarrow> back_scanned ops dim F root rest' (tree_items c) []
        (backward_loop dim F (entry_at c (length (child_summaries_of c) - 1) (d_zero dim) # rest') p True)"
  shows "se_tree e = Internal h s css cts \<Longrightarrow> below_ok ops dim root (se_tree e) rest
    \<Longrightarrow> n = (if descending then Suc (se_index e) else se_index e) \<Longrightarrow> n \<le> length cts
    \<Longrightarrow> back_scanned ops dim F root rest (concat (map tree_items (take n cts))) (concat (map tree_items (drop n cts)))
          (backward_loop dim F (e # rest) p descending)"
proof (induction n arbitrary: e descending p)
  case 0
  then show ?case by (subst backward_loop.simps) (simp add: back_scanned_def split: if_splits)
next
  case (Suc j)
  note bw = below_ok_wf [OF Suc.prems(2) root(1)]
  then have w: "wf_in fits ops (se_tree e)" by simp
  have css: "css = map node_summary cts" and j: "j < length cts" using w Suc.prems by auto
  let ?c = "cts ! j"
  let ?pos = "item_dim ops dim (d_zero dim) (pre_below rest @ concat (map tree_items (take j cts)))"
  let ?e = "e\<lparr>se_index := j, se_position := ?pos\<rparr>"
  have ix: "descending \<Longrightarrow> se_index e = j" "\<not> descending \<Longrightarrow> se_index e = Suc j" using Suc.prems(3) by simp_all
  have pos: "foldl (d_add dim) (case rest of [] \<Rightarrow> d_zero dim | parent # _ \<Rightarrow> se_position parent) (take j css) = ?pos"
    using back_position [OF w, of j root rest] Suc.prems(1,2) j css by simp
  have c: "wf_in fits ops ?c" "tree_items ?c \<noteq> []" using wf_child [OF w, of j] Suc.prems(1) j by simp_all
  then have "1 \<le> length (child_summaries_of ?c)" by (cases ?c) (auto simp: Suc_le_eq)
  moreover have "length rest < 15" using bw Suc.prems(1) root(2) by (auto simp: STACK_CAPACITY_def neq_Nil_conv)
  ultimately have step: "backward_loop dim F (e # rest) p descending = (if F (node_summary ?c)
      then backward_loop dim F (entry_at ?c (length (child_summaries_of ?c) - 1) (d_zero dim) # ?e # rest) ?pos True
      else backward_loop dim F (?e # rest) ?pos False)"
    using j Suc.prems(1) ix css pos by (cases descending; subst backward_loop.simps) (auto simp: Let_def)
  have xs: "concat (map tree_items (take (Suc j) cts)) = concat (map tree_items (take j cts)) @ tree_items ?c"
    "concat (map tree_items (drop j cts)) = tree_items ?c @ concat (map tree_items (drop (Suc j) cts))"
    using j by (simp_all add: take_Suc_conv_app_nth flip: Cons_nth_drop_Suc)
  have rest: "back_scanned ops dim F root rest (concat (map tree_items (take j cts))) (tree_items ?c @ concat (map tree_items (drop (Suc j) cts)))
      (backward_loop dim F (?e # rest) q False)" for q
    using Suc.IH [of ?e False q] Suc.prems(1,2) j xs(2) by simp
  show ?case
  proof (cases "F (node_summary ?c) \<and> kept ops F (tree_items ?c) \<noteq> []")
    case True
    have b: "below_ok ops dim root ?c (?e # rest)" using Suc.prems(1,2) j by simp
    have pb: "pre_below (?e # rest) = pre_below rest @ concat (map tree_items (take j cts))"
      "rem_below (?e # rest) = concat (map tree_items (drop (Suc j) cts)) @ rem_below rest" using Suc.prems(1) by simp_all
    from True have t: "F (node_summary ?c)" "kept ops F (tree_items ?c) \<noteq> []" by blast+
    from down [OF nth_mem [OF j] b, of ?pos]
    have "stepped_back ops dim F root (pre_below (?e # rest)) (tree_items ?c) (rem_below (?e # rest)) (backward_loop dim F (e # rest) p descending)"
      unfolding step back_scanned_def by (simp add: t)
    then show ?thesis unfolding back_scanned_def stepped_back_def pb xs(1) kept_hit [OF t(2)] using t(2) by (simp add: butlast_append)
  next
    case False
    have "kept ops F (tree_items ?c) = []"
    proof (cases "F (node_summary ?c)")
      case no: False
      then have "\<not> F (flat ops (tree_items ?c))" using wf_in_summary [OF c(1)] by simp
      then show ?thesis using F wf_in_fits [OF c(1)] unfolding kept_Nil sieve_def by blast
    qed (use False in simp)
    moreover have "backward_loop dim F (e # rest) p descending = backward_loop dim F (?e # rest) ?pos False"
    proof (cases "F (node_summary ?c)")
      case True
      have b: "below_ok ops dim root ?c (?e # rest)" using Suc.prems(1,2) j by simp
      from down [OF nth_mem [OF j] b, of ?pos] show ?thesis
        unfolding step back_scanned_def by (simp add: True \<open>kept ops F (tree_items ?c) = []\<close>)
    qed (simp add: step)
    ultimately show ?thesis unfolding xs(1) using rest [of ?pos] by (intro back_scanned_skip) simp_all
  qed
qed

end

context dimension_laws
begin

lemma back_descend:
  assumes F: "sieve fits ops F" and root: "wf_in fits ops root" "node_height root < STACK_CAPACITY"
  shows "below_ok ops dim root t rest \<Longrightarrow> tree_items t \<noteq> [] \<Longrightarrow> back_scanned ops dim F root rest (tree_items t) []
    (backward_loop dim F (entry_at t (length (child_summaries_of t) - 1) (d_zero dim) # rest) p True)"
proof (induction t arbitrary: rest p)
  case (Internal h s css cts)
  have w: "wf_in fits ops (Internal h s css cts)" using below_ok_wf [OF Internal.prems(1) root(1)] by simp
  have ne: "c \<in> set cts \<Longrightarrow> tree_items c \<noteq> []" for c using wf_child(2) [OF w] by (fastforce simp: in_set_conv_nth)
  have down: "\<And>c rest' p. c \<in> set cts \<Longrightarrow> below_ok ops dim root c rest' \<Longrightarrow> back_scanned ops dim F root rest' (tree_items c) []
      (backward_loop dim F (entry_at c (length (child_summaries_of c) - 1) (d_zero dim) # rest') p True)"
    using Internal.IH ne by blast
  have k: "length css = length cts" "cts \<noteq> []" using w by auto
  have "back_scanned ops dim F root rest (concat (map tree_items (take (length cts) cts))) (concat (map tree_items (drop (length cts) cts)))
      (backward_loop dim F (entry_at (Internal h s css cts) (length css - 1) (d_zero dim) # rest) p True)"
    by (rule back_children_scan [OF F root], erule (1) down) (use Internal.prems k in \<open>simp_all add: entry_at_def\<close>)
  then show ?case by simp
next
  case (Leaf s "is" ss)
  have "length ss = length is" using below_ok_wf [OF Leaf.prems(1) root(1)] by auto
  then have "back_scanned ops dim F root rest (take (length is) is) (drop (length is) is)
      (backward_loop dim F (entry_at (Leaf s is ss) (length ss - 1) (d_zero dim) # rest) p True)"
    by (intro back_leaf_scan [OF root(1)]) (use Leaf.prems in \<open>simp_all add: entry_at_def\<close>)
  then show ?case by simp
qed

lemma back_ascend:
  assumes F: "sieve fits ops F" and root: "wf_in fits ops root" "node_height root < STACK_CAPACITY"
  shows "below_ok ops dim root t rest \<Longrightarrow>
    (if kept ops F (pre_below rest) = []
     then \<exists>q. backward_loop dim F rest p False = Some ([], q) \<and> (rest \<noteq> [] \<longrightarrow> q = d_zero dim)
     else stepped_back ops dim F root [] (pre_below rest) (tree_items t @ rem_below rest) (backward_loop dim F rest p False))"
proof (induction rest arbitrary: t p)
  case Nil
  then show ?case by (simp, subst backward_loop.simps) simp
next
  case (Cons e rest)
  then obtain h s css cts where e: "se_tree e = Internal h s css cts" by (cases "se_tree e") auto
  have b: "below_ok ops dim root (se_tree e) rest" "se_index e < length cts" "cts ! se_index e = t"
    using Cons.prems e by simp_all
  have w: "wf_in fits ops (se_tree e)" using below_ok_wf [OF b(1) root(1)] by simp
  let ?A = "concat (map tree_items (take (se_index e) cts))" and ?p = "case rest of [] \<Rightarrow> d_zero dim | parent # _ \<Rightarrow> se_position parent"
  have ne: "c \<in> set cts \<Longrightarrow> tree_items c \<noteq> []" for c using wf_child(2) [OF w] e by (fastforce simp: in_set_conv_nth)
  have down: "\<And>c rest' p. c \<in> set cts \<Longrightarrow> below_ok ops dim root c rest' \<Longrightarrow> back_scanned ops dim F root rest' (tree_items c) []
      (backward_loop dim F (entry_at c (length (child_summaries_of c) - 1) (d_zero dim) # rest') p True)"
    using back_descend [OF F root] ne by blast
  have d: "concat (map tree_items (drop (se_index e) cts)) = tree_items t @ concat (map tree_items (drop (Suc (se_index e)) cts))"
    using b by (simp flip: Cons_nth_drop_Suc)
  have pre: "pre_below (e # rest) = pre_below rest @ ?A" and rem: "tree_items t @ rem_below (e # rest)
      = concat (map tree_items (drop (se_index e) cts)) @ rem_below rest" using e d by simp_all
  have items: "?A @ concat (map tree_items (drop (se_index e) cts)) = tree_items (se_tree e)"
    using e by (metis append_take_drop_id concat_append map_append tree_items.simps(1))
  have sc: "back_scanned ops dim F root rest ?A (concat (map tree_items (drop (se_index e) cts))) (backward_loop dim F (e # rest) p False)"
    by (rule back_children_scan [OF F root down e b(1)]) (use b(2) in simp_all)
  show ?case
  proof (cases "kept ops F ?A = []")
    case True
    then have step: "backward_loop dim F (e # rest) p False = backward_loop dim F rest ?p False" using sc unfolding back_scanned_def by simp
    have "rest = [] \<Longrightarrow> backward_loop dim F rest ?p False = Some ([], d_zero dim)" by (subst backward_loop.simps) simp
    then show ?thesis using Cons.IH [OF b(1), of ?p] unfolding step pre rem stepped_back_def kept_skip [OF True] items [symmetric]
      by (cases "rest = []") (auto split: if_splits)
  next
    case False
    show ?thesis using sc False unfolding back_scanned_def stepped_back_def pre rem kept_hit [OF False] by (simp add: butlast_append)
  qed
qed

text \<open>The leaf on top of a stack, or the root, and then the rest of the stack.\<close>

lemma back_from:
  assumes F: "sieve fits ops F" and root: "wf_in fits ops root" "node_height root < STACK_CAPACITY"
    and b: "below_ok ops dim root t rest" and sc: "back_scanned ops dim F root rest xs ys res" and items: "xs @ ys = tree_items t"
  shows "if kept ops F (pre_below rest @ xs) = [] then res = Some ([], d_zero dim)
    else stepped_back ops dim F root [] (pre_below rest @ xs) (ys @ rem_below rest) res"
proof (cases "kept ops F xs = []")
  case True
  let ?p = "case rest of [] \<Rightarrow> d_zero dim | parent # _ \<Rightarrow> se_position parent"
  have res: "res = backward_loop dim F rest ?p False" using True sc unfolding back_scanned_def by simp
  have "rest = [] \<Longrightarrow> backward_loop dim F rest ?p False = Some ([], d_zero dim)" by (subst backward_loop.simps) simp
  then show ?thesis using back_ascend [OF F root b, of ?p] unfolding res stepped_back_def kept_skip [OF True] items [symmetric]
    by (cases "rest = []") (auto split: if_splits)
next
  case False
  show ?thesis using sc False unfolding back_scanned_def stepped_back_def kept_hit [OF False] by (simp add: butlast_append)
qed

lemma back_root:
  assumes F: "sieve fits ops F" and root: "wf_in fits ops root" "node_height root < STACK_CAPACITY"
  shows "if kept ops F (tree_items root) = [] then backward_loop dim F [entry_at root (length (child_summaries_of root)) q] p False = Some ([], d_zero dim)
    else stepped_back ops dim F root [] (tree_items root) [] (backward_loop dim F [entry_at root (length (child_summaries_of root)) q] p False)"
proof -
  have "back_scanned ops dim F root [] (tree_items root) [] (backward_loop dim F [entry_at root (length (child_summaries_of root)) q] p False)"
  proof (cases root)
    case (Leaf s "is" ss)
    then have "length ss = length is" using root by auto
    then have "back_scanned ops dim F root [] (take (length is) is) (drop (length is) is) (backward_loop dim F [entry_at root (length ss) q] p False)"
      by (intro back_leaf_scan [OF root(1)]) (use Leaf in \<open>simp_all add: entry_at_def\<close>)
    then show ?thesis using Leaf by simp
  next
    case (Internal h s css cts)
    then have k: "length css = length cts" using root(1) by auto
    have ne: "c \<in> set cts \<Longrightarrow> tree_items c \<noteq> []" for c using wf_child(2) [OF root(1)] Internal by (fastforce simp: in_set_conv_nth)
    have down: "\<And>c rest' p. c \<in> set cts \<Longrightarrow> below_ok ops dim root c rest' \<Longrightarrow> back_scanned ops dim F root rest' (tree_items c) []
        (backward_loop dim F (entry_at c (length (child_summaries_of c) - 1) (d_zero dim) # rest') p True)"
      using back_descend [OF F root] ne by blast
    have "back_scanned ops dim F root [] (concat (map tree_items (take (length cts) cts))) (concat (map tree_items (drop (length cts) cts)))
        (backward_loop dim F [entry_at root (length css) q] p False)"
      by (rule back_children_scan [OF F root], erule (1) down) (use Internal k in \<open>simp_all add: entry_at_def\<close>)
    then show ?thesis using Internal by simp
  qed
  from back_from [OF F root _ this, of root] show ?thesis by (simp split: if_splits)
qed

lemma search_backward_ok:
  assumes F: "sieve fits ops F" and cur: "cursor_in fits ops dim cur pre suf"
    and ps: "p = (if c_did_seek cur then pre else suf)" "s = (if c_did_seek cur then suf else [])"
  shows "\<exists>cur'. search_backward dim F cur = Some cur' \<and> c_did_seek cur' \<and> c_tree cur' = c_tree cur
    \<and> (if kept ops F p = [] then cursor_item cur' = Some None \<and> c_position cur' = d_zero dim \<and> before_first dim cur'
       else cursor_in fits ops dim cur' (butlast (kept ops F p)) (last (kept ops F p) # skipped ops F p @ s))"
proof -
  let ?root = "c_tree cur" and ?pos = "c_position cur"
  have root: "wf_in fits ops ?root" "node_height ?root < STACK_CAPACITY" "tree_items ?root = pre @ suf"
    "?pos = item_dim ops dim (d_zero dim) pre" "stack_ok ops dim ?root (c_stack cur)"
    using cur by (simp_all add: cursor_in_def)
  have em: "tree_is_empty ?root \<longleftrightarrow> tree_items ?root = []" using wf_in_is_empty [OF root(1)] .
  have pp: "p @ s = tree_items ?root" using ps root(3) cur by (auto simp: cursor_in_def)
  have none: "cursor_item cur' = Some None \<and> before_first dim cur'"
    if "c_did_seek cur'" "c_stack cur' = []" "c_position cur' = d_zero dim" "c_at_end cur' = tree_is_empty (c_tree cur')" for cur' :: "('t, 's, 'd) cursor"
    using that by (simp add: before_first_item before_first_def)
  have moved: "cursor_in fits ops dim cur' (butlast (kept ops F p)) (last (kept ops F p) # skipped ops F p @ s)"
    if "kept ops F p \<noteq> []" "c_did_seek cur'" "\<not> c_at_end cur'" "c_tree cur' = ?root" "c_stack cur' = st" "stack_ok ops dim ?root st" "st \<noteq> []"
      "stack_rem st = last (kept ops F p) # skipped ops F p @ s" "c_position cur' = item_dim ops dim (d_zero dim) (butlast (kept ops F p))" for cur' st
  proof -
    have "tree_items ?root = butlast (kept ops F p) @ last (kept ops F p) # skipped ops F p @ s"
      using append_butlast_last_id [OF that(1)] kept_skipped [of ops F p] pp by (metis append.assoc append_Cons append_Nil)
    then show ?thesis using that root by (simp add: cursor_in_def)
  qed
  show ?thesis
  proof (cases "c_stack cur = []")
    case True
    have s: "s = []" and p: "p = tree_items ?root" using cur True ps root(3) by (auto simp: cursor_in_def)
    have ae: "\<not> c_did_seek cur \<or> c_at_end cur" using cur True by (auto simp: cursor_in_def)
    show ?thesis
    proof (cases "tree_items ?root = []")
      case e: True
      have bl: "backward_loop dim F [] q False = Some ([], q)" for q :: 'd and dim
        by (subst backward_loop.simps) simp
      have "\<exists>cur'. search_backward dim F cur = Some cur' \<and> c_did_seek cur' \<and> c_tree cur' = ?root \<and> c_stack cur' = []
          \<and> c_position cur' = d_zero dim \<and> c_at_end cur' = tree_is_empty ?root"
        using e ae True em by (cases "c_did_seek cur") (auto simp: search_backward_def Let_def bl)
      then show ?thesis using e p none by auto
    next
      case ne: False
      let ?entry = "entry_at ?root (length (child_summaries_of ?root)) (d_add dim (d_zero dim) (node_summary ?root))"
      let ?res = "backward_loop dim F [?entry] (d_zero dim) False"
      let ?c = "(if c_did_seek cur then cur else cur\<lparr>c_did_seek := True, c_at_end := True\<rparr>)
        \<lparr>c_position := d_zero dim, c_at_end := False, c_stack := [?entry]\<rparr>"
      have step: "search_backward dim F cur = do { (stack, pos) \<leftarrow> ?res; Some (?c\<lparr>c_stack := stack, c_position := pos\<rparr>) }"
        using ne ae True em by (cases "c_did_seek cur") (simp_all add: search_backward_def Let_def)
      note br = back_root [OF F root(1,2), of "d_add dim (d_zero dim) (node_summary ?root)" "d_zero dim", folded p]
      show ?thesis
      proof (cases "kept ops F p = []")
        case True
        then have "?res = Some ([], d_zero dim)" using br by simp
        then show ?thesis using step True none ne em by simp
      next
        case False
        then obtain st where "?res = Some (st, item_dim ops dim (d_zero dim) (butlast (kept ops F p)))" "stack_ok ops dim ?root st" "st \<noteq> []"
          "stack_rem st = last (kept ops F p) # skipped ops F p @ s" using br s unfolding stepped_back_def by auto
        then show ?thesis using step False moved [OF False] by simp
      qed
    qed
  next
    case False
    then have ds: "c_did_seek cur" "\<not> c_at_end cur" "p = pre" "s = suf" "suf = stack_rem (c_stack cur)"
      using cur ps by (auto simp: cursor_in_def split: if_splits)
    obtain e rest where er: "c_stack cur = e # rest" using False by (cases "c_stack cur") auto
    then obtain u "is" ss where l: "se_tree e = Leaf u is ss" using root(5) by (cases "se_tree e") auto
    have b: "below_ok ops dim ?root (se_tree e) rest" "se_index e < length is" using root(5) er l by simp_all
    have "pre @ suf = stack_pre (c_stack cur) @ suf"
      using stack_ok_items(1) [OF root(5) False] root(3) ds(5) by simp
    then have pre: "pre = pre_below rest @ take (se_index e) is" using er l by simp
    have suf: "suf = drop (se_index e) is @ rem_below rest" using ds(5) er l by simp
    let ?res = "backward_loop dim F (e # rest) ?pos False"
    have step: "search_backward dim F cur = do { (stack, pos) \<leftarrow> ?res; Some (cur\<lparr>c_stack := stack, c_position := pos\<rparr>) }"
      using ds er by (simp add: search_backward_def Let_def)
    have "back_scanned ops dim F ?root rest (take (se_index e) is) (drop (se_index e) is) ?res"
      by (rule back_leaf_scan [OF root(1) l b(1)]) (use b(2) in simp_all)
    note bf = back_from [OF F root(1,2) b(1) this, unfolded pre [symmetric] suf [symmetric], unfolded ds(3,4) [symmetric]]
    show ?thesis
    proof (cases "kept ops F p = []")
      case True
      then have "?res = Some ([], d_zero dim)" using bf l by simp
      moreover have "tree_items ?root \<noteq> []" using root(3) suf b(2) by simp
      ultimately show ?thesis using step True none ds em by simp
    next
      case False
      then obtain st where "?res = Some (st, item_dim ops dim (d_zero dim) (butlast (kept ops F p)))" "stack_ok ops dim ?root st" "st \<noteq> []"
        "stack_rem st = last (kept ops F p) # skipped ops F p @ s" using bf l unfolding stepped_back_def by auto
      then show ?thesis using step False moved [OF False] ds by simp
    qed
  qed
qed

lemma cursor_prev_ok:
  assumes cur: "cursor_in fits ops dim cur pre suf"
    and ps: "p = (if c_did_seek cur then pre else suf)" "s = (if c_did_seek cur then suf else [])"
  shows "\<exists>cur'. cursor_prev dim cur = Some cur' \<and> c_did_seek cur' \<and> c_tree cur' = c_tree cur
    \<and> (if p = [] then cursor_item cur' = Some None \<and> c_position cur' = d_zero dim \<and> before_first dim cur'
       else cursor_in fits ops dim cur' (butlast p) (last p # s))"
proof -
  have "sieve fits ops (\<lambda>_. True)" by (simp add: sieve_def)
  from search_backward_ok [OF this assms] show ?thesis unfolding cursor_prev_def kept_all append_Nil .
qed

end

section \<open>Looking at the neighbours\<close>

lemma next_leaf_ok:
  assumes root: "wf_in fits ops root"
  shows "below_ok ops dim root t rest \<Longrightarrow>
    (if rem_below rest = [] then next_leaf rest = Some None
     else \<exists>s is ss. next_leaf rest = Some (Some (Leaf s is ss)) \<and> is \<noteq> [] \<and> hd is = hd (rem_below rest))"
proof (induction rest arbitrary: t)
  case (Cons e rest)
  then obtain h s css cts where e: "se_tree e = Internal h s css cts" by (cases "se_tree e") auto
  have b: "below_ok ops dim root (se_tree e) rest" "se_index e < length cts" using Cons.prems e by simp_all
  have w: "wf_in fits ops (se_tree e)" using below_ok_wf [OF b(1) root] by simp
  show ?case
  proof (cases "Suc (se_index e) < length cts")
    case False
    then have "next_leaf (e # rest) = next_leaf rest" "rem_below (e # rest) = rem_below rest" using e b(2) by auto
    then show ?thesis using Cons.IH [OF b(1)] by (simp only: split: if_splits)
  next
    case True
    let ?c = "cts ! Suc (se_index e)"
    have c: "wf_in fits ops ?c" "tree_items ?c \<noteq> []" using wf_child [OF w, of "Suc (se_index e)"] e True by simp_all
    from leftmost_leaf_ok [OF c(1)] c(2) obtain s' is' ss' where
      "leftmost_leaf ?c = Some (Leaf s' is' ss')" "is' \<noteq> []" "hd is' = hd (tree_items ?c)"
      by (fastforce simp: first_opt_def split: list.splits)
    moreover have "rem_below (e # rest) = tree_items ?c @ concat (map tree_items (drop (Suc (Suc (se_index e))) cts)) @ rem_below rest"
      using e True by (simp add: Cons_nth_drop_Suc [symmetric])
    moreover have "se_index e < length cts - Suc 0" using True by simp
    ultimately show ?thesis using c(2) e True by (simp del: rem_below.simps)
  qed
qed simp

lemma prev_leaf_ok:
  assumes root: "wf_in fits ops root"
  shows "below_ok ops dim root t rest \<Longrightarrow>
    (if pre_below rest = [] then prev_leaf rest = Some None
     else \<exists>s is ss. prev_leaf rest = Some (Some (Leaf s is ss)) \<and> is \<noteq> [] \<and> last is = last (pre_below rest))"
proof (induction rest arbitrary: t)
  case (Cons e rest)
  then obtain h s css cts where e: "se_tree e = Internal h s css cts" by (cases "se_tree e") auto
  have b: "below_ok ops dim root (se_tree e) rest" "se_index e < length cts" using Cons.prems e by simp_all
  have w: "wf_in fits ops (se_tree e)" using below_ok_wf [OF b(1) root] by simp
  show ?case
  proof (cases "se_index e")
    case 0
    then have "prev_leaf (e # rest) = prev_leaf rest" "pre_below (e # rest) = pre_below rest" by simp_all
    then show ?thesis using Cons.IH [OF b(1)] by (simp only: split: if_splits)
  next
    case (Suc j)
    have c: "wf_in fits ops (cts ! j)" "tree_items (cts ! j) \<noteq> []" using wf_child [OF w, of j] e Suc b(2) by simp_all
    from rightmost_leaf_ok [OF c(1)] c(2) obtain s' is' ss' where
      "rightmost_leaf (cts ! j) = Some (Leaf s' is' ss')" "is' \<noteq> []" "last is' = last (tree_items (cts ! j))"
      by (fastforce simp: last_opt_def)
    moreover have "pre_below (e # rest) = (pre_below rest @ concat (map tree_items (take j cts))) @ tree_items (cts ! j)"
      using e Suc b(2) by (simp add: take_Suc_conv_app_nth)
    ultimately show ?thesis using c(2) e Suc b(2) by (simp del: pre_below.simps)
  qed
qed simp

lemma cursor_neighbours_ok:
  assumes cur: "cursor_in fits ops dim cur pre suf" and ds: "c_did_seek cur"
  shows "cursor_next_item cur = Some (first_opt (drop 1 suf))"
    and "cursor_prev_item cur = Some (last_opt pre)"
proof -
  have root: "wf_in fits ops (c_tree cur)" "tree_items (c_tree cur) = pre @ suf" "stack_ok ops dim (c_tree cur) (c_stack cur)"
    "c_at_end cur = (c_stack cur = [])" "suf = stack_rem (c_stack cur)"
    using cur ds by (simp_all add: cursor_in_def)
  have "cursor_next_item cur = Some (first_opt (drop 1 suf)) \<and> cursor_prev_item cur = Some (last_opt pre)"
  proof (cases "c_stack cur")
    case Nil
    then show ?thesis using root ds tree_last_ok [OF root(1)]
      by (simp add: cursor_next_item_def cursor_prev_item_def assert_did_seek_def first_opt_def)
  next
    case (Cons e rest)
    then obtain u "is" ss where l: "se_tree e = Leaf u is ss" using root(3) by (cases "se_tree e") auto
    have b: "below_ok ops dim (c_tree cur) (se_tree e) rest" "se_index e < length is" using root(3) Cons l by simp_all
    have "pre @ suf = stack_pre (c_stack cur) @ suf"
      using stack_ok_items(1) [OF root(3)] root(2,5) Cons by simp
    then have pre: "pre = pre_below rest @ take (se_index e) is" using Cons l by simp
    have suf: "drop 1 suf = drop (Suc (se_index e)) is @ rem_below rest"
      using root(5) Cons l b(2) by (simp add: Cons_nth_drop_Suc [symmetric])
    have "cursor_next_item cur = Some (first_opt (drop 1 suf))"
    proof (cases "Suc (se_index e) < length is")
      case True
      then show ?thesis unfolding suf using ds Cons l b(2)
        by (auto simp: cursor_next_item_def assert_did_seek_def first_opt_def Cons_nth_drop_Suc [symmetric])
    next
      case False
      then have "se_index e = length is - 1" using b(2) by simp
      then show ?thesis unfolding suf using ds Cons l b(2) next_leaf_ok [OF root(1) b(1)]
        by (auto simp: cursor_next_item_def assert_did_seek_def first_opt_def neq_Nil_conv split: if_splits list.splits)
    qed
    moreover have "cursor_prev_item cur = Some (last_opt pre)"
    proof (cases "se_index e")
      case 0
      then show ?thesis unfolding pre using ds Cons l prev_leaf_ok [OF root(1) b(1)]
        by (auto simp: cursor_prev_item_def assert_did_seek_def last_opt_def split: if_splits)
    next
      case (Suc j)
      then show ?thesis unfolding pre using ds Cons l b(2)
        by (auto simp: cursor_prev_item_def assert_did_seek_def last_opt_def take_Suc_conv_app_nth)
    qed
    ultimately show ?thesis by blast
  qed
  then show "cursor_next_item cur = Some (first_opt (drop 1 suf))" "cursor_prev_item cur = Some (last_opt pre)" by simp_all
qed

end
