(* ===== verification/TreeMap.thy ===== *)
theory TreeMap
  imports Keyed CursorBack "HOL-Library.Option_ord"
begin

text \<open>
  The ordered map and set built on the summarising tree
  (\<open>crates/sum_tree/src/tree_map.rs\<close>). \<open>MapKey\<close> and \<open>MapKeyRef\<close> wrap an optional key, ordered
  with \<open>None\<close> first: both are \<open>'k option\<close>. The summary of a subtree is its last key.
\<close>

section \<open>Entries, summaries and targets\<close>

record ('k, 'v) map_entry =
  me_key :: 'k
  me_value :: 'v

type_synonym 'k map_key = "'k option"
type_synonym ('k, 'v) tree_map = "(('k, 'v) map_entry, 'k map_key) node"

definition entry_key :: "('k, 'v) map_entry \<Rightarrow> 'k map_key" where
  "entry_key e = Some (me_key e)"

definition map_key_add_summary :: "'k map_key \<Rightarrow> 'k map_key \<Rightarrow> 'k map_key" where
  "map_key_add_summary self summary = summary"

definition map_ops :: "(('k, 'v) map_entry, 'k map_key, 'k map_key) keyed_ops" where
  "map_ops = \<lparr>it_summary = entry_key, s_zero = None, s_add = map_key_add_summary,
     it_key = entry_key, key_zero = None, key_add = map_key_add_summary\<rparr>"

definition map_item_ops :: "(('k, 'v) map_entry, 'k map_key) item_ops" where
  "map_item_ops = \<lparr>it_summary = entry_key, s_zero = None, s_add = map_key_add_summary\<rparr>"

definition map_key_ref_dim :: "('k map_key, 'k map_key) dim_ops" where
  "map_key_ref_dim = \<lparr>d_zero = None, d_add = (\<lambda>self summary. summary)\<rparr>"

fun map_seek_target_adaptor :: "('k \<Rightarrow> ordering) \<Rightarrow> 'k map_key \<Rightarrow> ordering" where
  "map_seek_target_adaptor cmp_cursor (Some key) = cmp_cursor key"
| "map_seek_target_adaptor cmp_cursor None = Greater"

abbreviation mk_entry :: "'k \<Rightarrow> 'v \<Rightarrow> ('k, 'v) map_entry" where
  "mk_entry k v \<equiv> \<lparr>me_key = k, me_value = v\<rparr>"

section \<open>The map\<close>

definition tm_default :: "('k, 'v) tree_map" where
  "tm_default = tree_new map_item_ops"

definition tm_from_ordered_entries :: "('k \<times> 'v) list \<Rightarrow> ('k, 'v) tree_map rust" where
  "tm_from_ordered_entries entries = tree_from_iter map_item_ops (map (\<lambda>(k, v). mk_entry k v) entries)"

definition tm_get :: "('k::linorder, 'v) tree_map \<Rightarrow> 'k \<Rightarrow> 'v option" where
  "tm_get self key =
     (case tree_find map_key_ref_dim (cmp (Some key)) Left self of
        (_, _, Some item) \<Rightarrow> if Some key = entry_key item then Some (me_value item) else None
      | (_, _, None) \<Rightarrow> None)"

definition tm_contains_key :: "('k::linorder, 'v) tree_map \<Rightarrow> 'k \<Rightarrow> bool" where
  "tm_contains_key self key = (tm_get self key \<noteq> None)"

definition tm_insert_or_replace :: "('k::linorder, 'v) tree_map \<Rightarrow> 'k \<Rightarrow> 'v
    \<Rightarrow> ('v option \<times> ('k, 'v) tree_map) rust" where
  "tm_insert_or_replace self key value = do {
     (replaced, self) \<leftarrow> insert_or_replace map_ops self (mk_entry key value);
     Some (map_option me_value replaced, self)
   }"

definition tm_insert :: "('k::linorder, 'v) tree_map \<Rightarrow> 'k \<Rightarrow> 'v \<Rightarrow> ('k, 'v) tree_map rust" where
  "tm_insert self key value = map_option snd (insert_or_replace map_ops self (mk_entry key value))"

definition tm_extend :: "('k::linorder, 'v) tree_map \<Rightarrow> ('k \<times> 'v) list \<Rightarrow> ('k, 'v) tree_map rust" where
  "tm_extend self entries =
     map_option snd (tree_edit map_ops self (map (\<lambda>(k, v). Insert (mk_entry k v)) entries))"

definition tm_clear :: "('k, 'v) tree_map \<Rightarrow> ('k, 'v) tree_map" where
  "tm_clear self = tree_new map_item_ops"

definition tm_remove :: "('k::linorder, 'v) tree_map \<Rightarrow> 'k \<Rightarrow> ('v option \<times> ('k, 'v) tree_map) rust" where
  "tm_remove self key = do {
     let key = Some key;
     (new_tree, cursor) \<leftarrow> cursor_slice map_item_ops map_key_ref_dim (cmp key) Left (cursor_new map_key_ref_dim self);
     end_key \<leftarrow> cursor_end map_key_ref_dim cursor;
     (removed, cursor) \<leftarrow>
       (if cmp key end_key = Equal then do {
          item \<leftarrow> cursor_item cursor;
          i \<leftarrow> item;
          cursor \<leftarrow> cursor_next map_key_ref_dim cursor;
          Some (Some (me_value i), cursor)
        } else Some (None, cursor));
     (suffix, _) \<leftarrow> cursor_suffix map_item_ops map_key_ref_dim cursor;
     new_tree \<leftarrow> tree_append map_item_ops new_tree suffix;
     Some (removed, new_tree)
   }"

definition tm_remove_range :: "('k::linorder, 'v) tree_map \<Rightarrow> ('k \<Rightarrow> ordering) \<Rightarrow> ('k \<Rightarrow> ordering)
    \<Rightarrow> ('k, 'v) tree_map rust" where
  "tm_remove_range self start end_target = do {
     (new_tree, cursor) \<leftarrow> cursor_slice map_item_ops map_key_ref_dim (map_seek_target_adaptor start) Left
       (cursor_new map_key_ref_dim self);
     (_, cursor) \<leftarrow> cursor_seek map_key_ref_dim (map_seek_target_adaptor end_target) Left cursor;
     (suffix, _) \<leftarrow> cursor_suffix map_item_ops map_key_ref_dim cursor;
     tree_append map_item_ops new_tree suffix
   }"

definition tm_closest :: "('k::linorder, 'v) tree_map \<Rightarrow> 'k \<Rightarrow> ('k \<times> 'v) option rust" where
  "tm_closest self key = do {
     (_, cursor) \<leftarrow> cursor_seek map_key_ref_dim (cmp (Some key)) Right (cursor_new map_key_ref_dim self);
     cursor \<leftarrow> cursor_prev map_key_ref_dim cursor;
     item \<leftarrow> cursor_item cursor;
     Some (map_option (\<lambda>e. (me_key e, me_value e)) item)
   }"

definition tm_iter_from :: "('k::linorder, 'v) tree_map \<Rightarrow> 'k \<Rightarrow> ('k \<times> 'v) list rust" where
  "tm_iter_from self from_key = do {
     (_, cursor) \<leftarrow> cursor_seek map_key_ref_dim (cmp (Some from_key)) Left (cursor_new map_key_ref_dim self);
     entries \<leftarrow> cursor_collect map_key_ref_dim cursor [];
     Some (map (\<lambda>e. (me_key e, me_value e)) entries)
   }"

definition tm_update :: "('k::linorder, 'v) tree_map \<Rightarrow> 'k \<Rightarrow> ('v \<Rightarrow> 'r \<times> 'v)
    \<Rightarrow> ('r option \<times> ('k, 'v) tree_map) rust" where
  "tm_update self key f = do {
     let key = Some key;
     (new_tree, cursor) \<leftarrow> cursor_slice map_item_ops map_key_ref_dim (cmp key) Left (cursor_new map_key_ref_dim self);
     end_key \<leftarrow> cursor_end map_key_ref_dim cursor;
     (result, new_tree, cursor) \<leftarrow>
       (if cmp key end_key = Equal then do {
          item \<leftarrow> cursor_item cursor;
          updated \<leftarrow> item;
          let (r, value) = f (me_value updated);
          new_tree \<leftarrow> tree_push map_item_ops new_tree (updated\<lparr>me_value := value\<rparr>);
          cursor \<leftarrow> cursor_next map_key_ref_dim cursor;
          Some (Some r, new_tree, cursor)
        } else Some (None, new_tree, cursor));
     (suffix, _) \<leftarrow> cursor_suffix map_item_ops map_key_ref_dim cursor;
     new_tree \<leftarrow> tree_append map_item_ops new_tree suffix;
     Some (result, new_tree)
   }"

partial_function (option) retain_loop :: "('k \<Rightarrow> 'v \<Rightarrow> bool) \<Rightarrow> (('k, 'v) map_entry, 'k map_key, 'k map_key) cursor
    \<Rightarrow> ('k, 'v) tree_map \<Rightarrow> ('k, 'v) tree_map rust" where
  "retain_loop predicate cursor new_map = do {
     item \<leftarrow> cursor_item cursor;
     case item of
       None \<Rightarrow> Some new_map
     | Some i \<Rightarrow> do {
         new_map \<leftarrow> (if predicate (me_key i) (me_value i) then tree_push map_item_ops new_map i else Some new_map);
         cursor \<leftarrow> cursor_next map_key_ref_dim cursor;
         retain_loop predicate cursor new_map
       }
   }"

text \<open>The loops compute: their unfolding equations serve evaluation.\<close>

declare retain_loop.simps [code]

definition tm_retain :: "('k, 'v) tree_map \<Rightarrow> ('k \<Rightarrow> 'v \<Rightarrow> bool) \<Rightarrow> ('k, 'v) tree_map rust" where
  "tm_retain self predicate = do {
     cursor \<leftarrow> cursor_next map_key_ref_dim (cursor_new map_key_ref_dim self);
     retain_loop predicate cursor (tree_new map_item_ops)
   }"

definition tm_iter :: "('k, 'v) tree_map \<Rightarrow> ('k \<times> 'v) list rust" where
  "tm_iter self = map_option (map (\<lambda>e. (me_key e, me_value e))) (iter_collect (iter_new self) [])"

definition tm_values :: "('k, 'v) tree_map \<Rightarrow> 'v list rust" where
  "tm_values self = map_option (map me_value) (iter_collect (iter_new self) [])"

definition tm_first :: "('k, 'v) tree_map \<Rightarrow> ('k \<times> 'v) option rust" where
  "tm_first self = map_option (map_option (\<lambda>e. (me_key e, me_value e))) (tree_first self)"

definition tm_last :: "('k, 'v) tree_map \<Rightarrow> ('k \<times> 'v) option rust" where
  "tm_last self = map_option (map_option (\<lambda>e. (me_key e, me_value e))) (tree_last self)"

definition tm_insert_tree :: "('k::linorder, 'v) tree_map \<Rightarrow> ('k, 'v) tree_map \<Rightarrow> ('k, 'v) tree_map rust" where
  "tm_insert_tree self other = do {
     entries \<leftarrow> tm_iter other;
     map_option snd (tree_edit map_ops self (map (\<lambda>(k, v). Insert (mk_entry k v)) entries))
   }"

section \<open>The set\<close>

type_synonym 'k tree_set = "('k, unit) tree_map"

definition ts_from_ordered_entries :: "'k list \<Rightarrow> 'k tree_set rust" where
  "ts_from_ordered_entries entries = tm_from_ordered_entries (map (\<lambda>key. (key, ())) entries)"

definition ts_insert :: "'k::linorder tree_set \<Rightarrow> 'k \<Rightarrow> 'k tree_set rust" where
  "ts_insert self key = tm_insert self key ()"

definition ts_remove :: "'k::linorder tree_set \<Rightarrow> 'k \<Rightarrow> (bool \<times> 'k tree_set) rust" where
  "ts_remove self key = map_option (\<lambda>(r, self). (r \<noteq> None, self)) (tm_remove self key)"

definition ts_extend :: "'k::linorder tree_set \<Rightarrow> 'k list \<Rightarrow> 'k tree_set rust" where
  "ts_extend self keys = tm_extend self (map (\<lambda>key. (key, ())) keys)"

definition ts_contains :: "'k::linorder tree_set \<Rightarrow> 'k \<Rightarrow> bool" where
  "ts_contains self key = (tm_get self key \<noteq> None)"

definition ts_iter :: "'k tree_set \<Rightarrow> 'k list rust" where
  "ts_iter self = map_option (map fst) (tm_iter self)"

definition ts_iter_from :: "'k::linorder tree_set \<Rightarrow> 'k \<Rightarrow> 'k list rust" where
  "ts_iter_from self key = map_option (map fst) (tm_iter_from self key)"

section \<open>The laws of the map's summaries\<close>

lemma base_map_ops: "base_ops map_ops = map_item_ops"
  by (simp add: base_ops_def map_ops_def map_item_ops_def)

lemma key_dim_map_ops: "key_dim map_ops = map_key_ref_dim"
  by (simp add: key_dim_def map_ops_def map_key_ref_dim_def map_key_add_summary_def fun_eq_iff)

lemma map_ops_simps [simp]:
  "it_summary map_ops = entry_key" "it_key map_ops = entry_key" "key_zero map_ops = None"
  "key_add map_ops d s = s" "it_summary map_item_ops = entry_key"
  "d_zero map_key_ref_dim = None" "d_add map_key_ref_dim d s = s"
  "entry_key e = Some (me_key e)"
  by (simp_all add: map_ops_def map_key_add_summary_def map_item_ops_def map_key_ref_dim_def entry_key_def)

interpretation tm: keyed_laws map_ops
  rewrites "base_ops map_ops = map_item_ops" and "key_dim map_ops = map_key_ref_dim"
proof -
  show "keyed_laws map_ops"
    by unfold_locales
      (simp_all add: base_map_ops key_dim_map_ops, simp_all add: map_item_ops_def map_key_add_summary_def)
qed (rule base_map_ops key_dim_map_ops)+

section \<open>Refinement of finite maps\<close>

text \<open>
  \<open>tm_map\<close> is the finite map a tree stands for, and \<open>tm_ok\<close> the invariant of the
  representation: a well-formed tree whose keys increase strictly.
\<close>

definition tm_entries :: "('k, 'v) tree_map \<Rightarrow> ('k \<times> 'v) list" where
  "tm_entries t = map (\<lambda>e. (me_key e, me_value e)) (tree_items t)"

definition tm_map :: "('k, 'v) tree_map \<Rightarrow> 'k \<rightharpoonup> 'v" where
  "tm_map t = map_of (tm_entries t)"

definition tm_ok :: "('k::linorder, 'v) tree_map \<Rightarrow> bool" where
  "tm_ok t \<longleftrightarrow> wf map_item_ops t \<and> sorted_wrt (<) (map fst (tm_entries t))"

abbreviation tm_shallow :: "('k, 'v) tree_map \<Rightarrow> bool" where
  "tm_shallow t \<equiv> node_height t < STACK_CAPACITY"

lemma key_sorted_map: "key_sorted map_ops is \<longleftrightarrow> sorted_wrt (<) (map me_key is)"
  by (simp add: sorted_wrt_map)

lemma tm_ok_iff: "tm_ok t \<longleftrightarrow> wf map_item_ops t \<and> key_sorted map_ops (tree_items t)"
  by (simp add: tm_ok_def tm_entries_def sorted_wrt_map)

lemma key_lookup_map:
  "map_option me_value (key_lookup map_ops is (Some k)) = map_of (map (\<lambda>e. (me_key e, me_value e)) is) k"
  by (induction "is") (auto simp: key_lookup_def)

lemma key_lookup_tm_map: "map_option me_value (key_lookup map_ops (tree_items t) (Some k)) = tm_map t k"
  by (simp add: tm_map_def tm_entries_def key_lookup_map)

lemma tm_get_ok: "tm_ok t \<Longrightarrow> tm_get t k = tm_map t k"
proof -
  assume "tm_ok t"
  then have t: "wf map_item_ops t" "key_sorted map_ops (tree_items t)" by (simp_all add: tm_ok_iff)
  have z: "tree_items t \<noteq> [] \<Longrightarrow> (None :: 'a map_key) \<le> it_key map_ops (hd (tree_items t))" by simp
  note s = tm.seek_split_key [OF t(2) z, where k = "Some k" and bias = Left]
  show ?thesis
    using tm.tree_find_ok [OF t(1), of "cmp (Some k)" Left] tm.monotone_key [OF t(2) z, of "Some k"] s
      keys_from_split(1) [OF t(2), of "Some k"]
    by (auto simp: tm_get_def key_lookup_tm_map [symmetric] simp del: dropWhile_eq_Nil_conv split: list.splits)
qed

lemma tm_map_insert_items:
  assumes "key_sorted map_ops is"
  shows "map_of (map (\<lambda>e. (me_key e, me_value e))
      (keys_below map_ops (Some k) is @ mk_entry k v # keys_above map_ops (Some k) is))
    = (map_of (map (\<lambda>e. (me_key e, me_value e)) is))(k \<mapsto> v)"
proof
  fix k'
  let ?xs = "keys_below map_ops (Some k) is" and ?ys = "keys_above map_ops (Some k) is"
  show "map_of (map (\<lambda>e. (me_key e, me_value e)) (?xs @ mk_entry k v # ?ys)) k'
      = ((map_of (map (\<lambda>e. (me_key e, me_value e)) is))(k \<mapsto> v)) k'"
  proof (cases "k' = k")
    case True
    have "key_lookup map_ops ?xs (Some k) = None"
      using key_sorted_parts(4) [OF assms, of "Some k"] by (auto simp: key_lookup_None)
    then show ?thesis using True
      unfolding key_lookup_map [symmetric] key_lookup_append fun_upd_apply by (simp add: key_lookup_def)
  next
    case False
    then have "key_lookup map_ops (?xs @ mk_entry k v # ?ys) (Some k') = key_lookup map_ops (?xs @ ?ys) (Some k')"
      by (simp add: key_lookup_append key_lookup_Cons split: option.split)
    then show ?thesis using False key_lookup_parts [OF assms, of "Some k'" "Some k"]
      unfolding key_lookup_map [symmetric] fun_upd_apply by simp
  qed
qed

lemma tm_map_remove_items:
  assumes "key_sorted map_ops is"
  shows "map_of (map (\<lambda>e. (me_key e, me_value e)) (keys_below map_ops (Some k) is @ keys_above map_ops (Some k) is))
    = (map_of (map (\<lambda>e. (me_key e, me_value e)) is))(k := None)"
proof
  fix k'
  let ?xs = "keys_below map_ops (Some k) is" and ?ys = "keys_above map_ops (Some k) is"
  show "map_of (map (\<lambda>e. (me_key e, me_value e)) (?xs @ ?ys)) k' = ((map_of (map (\<lambda>e. (me_key e, me_value e)) is))(k := None)) k'"
  proof (cases "k' = k")
    case True
    have "key_lookup map_ops ?xs (Some k) = None" "key_lookup map_ops ?ys (Some k) = None"
      using key_sorted_parts(4,5) [OF assms, of "Some k"] by (auto simp: key_lookup_None)
    then show ?thesis using True
      unfolding key_lookup_map [symmetric] key_lookup_append fun_upd_apply by simp
  next
    case False
    then show ?thesis using key_lookup_parts [OF assms, of "Some k'" "Some k"]
      unfolding key_lookup_map [symmetric] fun_upd_apply by simp
  qed
qed

lemma tm_insert_or_replace_ok:
  assumes "tm_ok t" "tm_shallow t"
  shows "\<exists>t'. tm_insert_or_replace t k v = Some (tm_map t k, t') \<and> tm_insert t k v = Some t'
    \<and> tm_ok t' \<and> tm_map t' = (tm_map t)(k \<mapsto> v)"
proof -
  have t: "wf map_item_ops t" "key_sorted map_ops (tree_items t)" using assms(1) by (simp_all add: tm_ok_iff)
  from tm.insert_or_replace_ok [OF t(1) assms(2) t(2), of "mk_entry k v"] obtain t' where t':
    "insert_or_replace map_ops t (mk_entry k v) = Some (key_lookup map_ops (tree_items t) (Some k), t')"
    "wf map_item_ops t'"
    "tree_items t' = keys_below map_ops (Some k) (tree_items t) @ mk_entry k v # keys_above map_ops (Some k) (tree_items t)"
    by auto
  then show ?thesis
    using key_sorted_insert [OF t(2), of "mk_entry k v"] tm_map_insert_items [OF t(2), of k v] key_lookup_tm_map [of t k]
    by (simp add: tm_insert_or_replace_def tm_insert_def tm_ok_iff) (simp add: tm_map_def tm_entries_def)
qed

text \<open>The step \<open>remove\<close> and \<open>update\<close> share: slicing before the key and comparing with the cursor's end.\<close>

lemma tm_slice_ok:
  assumes "tm_ok t" "tm_shallow t"
  shows "\<exists>t1 cur. cursor_slice map_item_ops map_key_ref_dim (cmp (Some k)) Left (cursor_new map_key_ref_dim t) = Some (t1, cur)
    \<and> wf map_item_ops t1 \<and> tree_items t1 = keys_below map_ops (Some k) (tree_items t)
    \<and> cursor_at map_item_ops map_key_ref_dim cur (keys_below map_ops (Some k) (tree_items t)) (keys_from map_ops (Some k) (tree_items t))
    \<and> c_did_seek cur
    \<and> (\<exists>e. cursor_end map_key_ref_dim cur = Some e \<and> (cmp (Some k) e = Equal \<longleftrightarrow> tm_map t k \<noteq> None))"
proof -
  have t: "wf map_item_ops t" "key_sorted map_ops (tree_items t)" using assms(1) by (simp_all add: tm_ok_iff)
  have "c_position (cursor_new map_key_ref_dim t) \<le> Some k" by (simp add: cursor_new_def)
  from tm.slice_key [OF cursor_new_at [OF t(1) assms(2)] _ this] t(2) obtain t1 cur where 1:
    "cursor_slice map_item_ops map_key_ref_dim (cmp (Some k)) Left (cursor_new map_key_ref_dim t) = Some (t1, cur)"
    "wf map_item_ops t1" "tree_items t1 = keys_below map_ops (Some k) (tree_items t)" "c_did_seek cur"
    "cursor_at map_item_ops map_key_ref_dim cur (keys_below map_ops (Some k) (tree_items t)) (keys_from map_ops (Some k) (tree_items t))"
    by auto
  have pos: "c_position cur = item_dim map_item_ops map_key_ref_dim None (keys_below map_ops (Some k) (tree_items t))"
    using 1(5) by (simp add: cursor_in_def)
  have lt: "item_dim map_item_ops map_key_ref_dim None xs < Some k" if "\<forall>i \<in> set xs. me_key i < k" for xs :: "('a, 'b) map_entry list"
    using that by (induction xs rule: rev_induct) simp_all
  have "\<exists>e. cursor_end map_key_ref_dim cur = Some e \<and> (cmp (Some k) e = Equal \<longleftrightarrow> tm_map t k \<noteq> None)"
  proof (cases "keys_from map_ops (Some k) (tree_items t)")
    case Nil
    have "key_lookup map_ops (tree_items t) (Some k) = None"
      using keys_from_split(1) [OF t(2), of "Some k"] unfolding Nil by simp
    moreover have "c_position cur \<noteq> Some k"
      using lt [of "keys_below map_ops (Some k) (tree_items t)"] key_sorted_parts(4) [OF t(2), of "Some k"] pos by auto
    ultimately show ?thesis
      using cursor_item_at(2) [OF 1(5,4)] key_lookup_tm_map [of t k] unfolding Nil
      by (auto simp: cursor_end_def first_opt_def cmp_def)
  next
    case (Cons i b)
    then have "tm_map t k = (if me_key i = k then Some (me_value i) else None)"
      using keys_from_split(1) [OF t(2), of "Some k"] by (simp flip: key_lookup_tm_map)
    then show ?thesis
      using cursor_item_at(2) [OF 1(5,4)] unfolding Cons
      by (simp add: cursor_end_def first_opt_def)
  qed
  then show ?thesis using 1 by blast
qed

lemma tm_remove_ok:
  assumes "tm_ok t" "tm_shallow t"
  shows "\<exists>t'. tm_remove t k = Some (tm_map t k, t') \<and> tm_ok t' \<and> tm_map t' = (tm_map t)(k := None)"
proof -
  have t: "wf map_item_ops t" "key_sorted map_ops (tree_items t)" using assms(1) by (simp_all add: tm_ok_iff)
  from tm_slice_ok [OF assms, of k] obtain t1 cur e where 1:
    "cursor_slice map_item_ops map_key_ref_dim (cmp (Some k)) Left (cursor_new map_key_ref_dim t) = Some (t1, cur)"
    "wf map_item_ops t1" "tree_items t1 = keys_below map_ops (Some k) (tree_items t)"
    "cursor_at map_item_ops map_key_ref_dim cur (keys_below map_ops (Some k) (tree_items t)) (keys_from map_ops (Some k) (tree_items t))"
    "c_did_seek cur" "cursor_end map_key_ref_dim cur = Some e" "cmp (Some k) e = Equal \<longleftrightarrow> tm_map t k \<noteq> None" by blast
  have "\<exists>cur' pre'. (if cmp (Some k) e = Equal then do {
          item \<leftarrow> cursor_item cur;
          i \<leftarrow> item;
          cursor \<leftarrow> cursor_next map_key_ref_dim cur;
          Some (Some (me_value i), cursor)
        } else Some (None, cur)) = Some (tm_map t k, cur')
      \<and> cursor_at map_item_ops map_key_ref_dim cur' pre' (keys_above map_ops (Some k) (tree_items t))"
  proof (cases "keys_from map_ops (Some k) (tree_items t)")
    case Nil
    have n: "tm_map t k = None" "keys_above map_ops (Some k) (tree_items t) = []"
      using keys_from_split [OF t(2), of "Some k"] key_lookup_tm_map [of t k] unfolding Nil by simp_all
    show ?thesis using 1 unfolding Nil n by auto
  next
    case (Cons i b)
    then have "tm_map t k = (if me_key i = k then Some (me_value i) else None)"
      "keys_above map_ops (Some k) (tree_items t) = (if me_key i = k then b else i # b)"
      using keys_from_split [OF t(2), of "Some k"] key_lookup_tm_map [of t k] by auto
    then show ?thesis using 1 cursor_item_at(1) [OF 1(4,5)] tm.cursor_next_ok [OF 1(4)] unfolding Cons
      by (auto simp: first_opt_def)
  qed
  then obtain cur' pre' where 2: "(if cmp (Some k) e = Equal then do {
          item \<leftarrow> cursor_item cur;
          i \<leftarrow> item;
          cursor \<leftarrow> cursor_next map_key_ref_dim cur;
          Some (Some (me_value i), cursor)
        } else Some (None, cur)) = Some (tm_map t k, cur')"
    "cursor_at map_item_ops map_key_ref_dim cur' pre' (keys_above map_ops (Some k) (tree_items t))" by blast
  from tm.cursor_suffix_ok [OF 2(2)] obtain t3 c3 where 3:
    "cursor_suffix map_item_ops map_key_ref_dim cur' = Some (t3, c3)" "wf map_item_ops t3"
    "tree_items t3 = keys_above map_ops (Some k) (tree_items t)" by blast
  from tm.tree_append_ok [OF 1(2) 3(2)] obtain t' where 4:
    "tree_append map_item_ops t1 t3 = Some t'" "wf map_item_ops t'" "tree_items t' = tree_items t1 @ tree_items t3" by blast
  have "tm_remove t k = Some (tm_map t k, t')"
    unfolding tm_remove_def Let_def using 1(1,6) 2(1) 3(1) 4(1) by simp
  moreover have "tm_ok t'" "tm_map t' = (tm_map t)(k := None)"
    using 4 1(3) 3(3) key_sorted_remove [OF t(2), of "Some k"] tm_map_remove_items [OF t(2), of k]
    by (simp_all add: tm_ok_iff tm_map_def tm_entries_def)
  ultimately show ?thesis by blast
qed

lemma tm_update_ok:
  assumes "tm_ok t" "tm_shallow t"
  shows "\<exists>t'. tm_update t k f = Some (map_option (fst \<circ> f) (tm_map t k), t') \<and> tm_ok t'
    \<and> tm_map t' = (case tm_map t k of None \<Rightarrow> tm_map t | Some v \<Rightarrow> (tm_map t)(k \<mapsto> snd (f v)))"
proof -
  have t: "wf map_item_ops t" "key_sorted map_ops (tree_items t)" using assms(1) by (simp_all add: tm_ok_iff)
  from tm_slice_ok [OF assms, of k] obtain t1 cur e where 1:
    "cursor_slice map_item_ops map_key_ref_dim (cmp (Some k)) Left (cursor_new map_key_ref_dim t) = Some (t1, cur)"
    "wf map_item_ops t1" "tree_items t1 = keys_below map_ops (Some k) (tree_items t)"
    "cursor_at map_item_ops map_key_ref_dim cur (keys_below map_ops (Some k) (tree_items t)) (keys_from map_ops (Some k) (tree_items t))"
    "c_did_seek cur" "cursor_end map_key_ref_dim cur = Some e" "cmp (Some k) e = Equal \<longleftrightarrow> tm_map t k \<noteq> None" by blast
  show ?thesis
  proof (cases "tm_map t k")
    case None
    from tm.cursor_suffix_ok [OF 1(4)] obtain t3 c3 where 3:
      "cursor_suffix map_item_ops map_key_ref_dim cur = Some (t3, c3)" "wf map_item_ops t3"
      "tree_items t3 = keys_from map_ops (Some k) (tree_items t)" by blast
    from tm.tree_append_ok [OF 1(2) 3(2)] obtain t' where 4:
      "tree_append map_item_ops t1 t3 = Some t'" "wf map_item_ops t'" "tree_items t' = tree_items t1 @ tree_items t3" by blast
    have "tree_items t' = tree_items t" using 4(3) 1(3) 3(3) by simp
    moreover have "tm_update t k f = Some (None, t')"
      unfolding tm_update_def Let_def using 1(1,6,7) 3(1) 4(1) None by simp
    ultimately show ?thesis using None t 4(2) by (simp add: tm_ok_iff tm_map_def tm_entries_def)
  next
    case (Some v)
    then obtain i b where ib: "keys_from map_ops (Some k) (tree_items t) = i # b" "me_key i = k" "me_value i = v"
      "keys_above map_ops (Some k) (tree_items t) = b"
      using keys_from_split [OF t(2), of "Some k"] key_lookup_tm_map [of t k]
      by (cases "keys_from map_ops (Some k) (tree_items t)") (auto split: if_splits simp del: dropWhile_eq_Nil_conv)
    from tm.cursor_next_ok [OF 1(4)] 1(5) obtain cur' where 2:
      "cursor_next map_key_ref_dim cur = Some cur'"
      "cursor_at map_item_ops map_key_ref_dim cur' (keys_below map_ops (Some k) (tree_items t) @ [i]) b"
      unfolding ib(1) by auto
    have item: "cursor_item cur = Some (Some i)" using cursor_item_at(1) [OF 1(4,5)] unfolding ib(1) by (simp add: first_opt_def)
    let ?i = "i\<lparr>me_value := snd (f v)\<rparr>"
    have upd: "?i = mk_entry k (snd (f v))" using ib(2) by (cases i) simp
    from tm.tree_push_ok [OF 1(2), of ?i] obtain t2 where p:
      "tree_push map_item_ops t1 ?i = Some t2" "wf map_item_ops t2" "tree_items t2 = tree_items t1 @ [?i]" by blast
    from tm.cursor_suffix_ok [OF 2(2)] obtain t3 c3 where 3:
      "cursor_suffix map_item_ops map_key_ref_dim cur' = Some (t3, c3)" "wf map_item_ops t3" "tree_items t3 = b" by blast
    from tm.tree_append_ok [OF p(2) 3(2)] obtain t' where 4:
      "tree_append map_item_ops t2 t3 = Some t'" "wf map_item_ops t'" "tree_items t' = tree_items t2 @ tree_items t3" by blast
    have "tm_update t k f = Some (Some (fst (f v)), t')"
      unfolding tm_update_def Let_def using 1(1,6,7) item 2(1) p(1) 3(1) 4(1) Some ib(3) by (simp add: split_beta)
    moreover have "tree_items t' = keys_below map_ops (Some k) (tree_items t) @ mk_entry k (snd (f v)) # keys_above map_ops (Some k) (tree_items t)"
      unfolding ib(4) using 4(3) p(3) 3(3) 1(3) upd by simp
    ultimately show ?thesis
      using Some 4(2) key_sorted_insert [OF t(2), of "mk_entry k (snd (f v))"] tm_map_insert_items [OF t(2), of k "snd (f v)"]
      by (simp add: tm_ok_iff) (simp add: tm_map_def tm_entries_def)
  qed
qed

lemma retain_loop_ok:
  "cursor_at map_item_ops map_key_ref_dim cur pre suf \<Longrightarrow> c_did_seek cur
   \<Longrightarrow> wf map_item_ops (m :: ('k::linorder, 'v) tree_map) \<Longrightarrow> \<exists>t'. retain_loop P cur m = Some t' \<and> wf map_item_ops t'
     \<and> tree_items t' = tree_items m @ filter (\<lambda>e. P (me_key e) (me_value e)) suf"
proof (induction suf arbitrary: cur pre m)
  case Nil
  then show ?case
    using cursor_item_at(1) [OF Nil(1,2)] by (subst retain_loop.simps) (simp add: first_opt_def)
next
  case (Cons i suf)
  obtain cur' where c: "cursor_next map_key_ref_dim cur = Some cur'" "c_did_seek cur'"
    "cursor_at map_item_ops map_key_ref_dim cur' (pre @ [i]) suf"
    using tm.cursor_next_ok [OF Cons.prems(1)] Cons.prems(2) by auto
  obtain m' where m: "(if P (me_key i) (me_value i) then tree_push map_item_ops m i else Some m) = Some m'"
    "wf map_item_ops m'" "tree_items m' = tree_items m @ (if P (me_key i) (me_value i) then [i] else [])"
    using tm.tree_push_ok [OF Cons.prems(3), of i] Cons.prems(3) by (cases "P (me_key i) (me_value i)") auto
  have "retain_loop P cur m = retain_loop P cur' m'"
    using cursor_item_at(1) [OF Cons.prems(1,2)] c(1) m(1) by (subst retain_loop.simps) (simp add: first_opt_def)
  then show ?case using Cons.IH [OF c(3,2) m(2)] m(3) by (simp split: if_splits)
qed

lemma tm_retain_ok:
  assumes "tm_ok t" "tm_shallow t"
  shows "\<exists>t'. tm_retain t P = Some t' \<and> tm_ok t'
    \<and> tm_entries t' = filter (\<lambda>(k, v). P k v) (tm_entries t)"
proof -
  have t: "wf map_item_ops t" "key_sorted map_ops (tree_items t)" using assms(1) by (simp_all add: tm_ok_iff)
  have "\<not> c_did_seek (cursor_new map_key_ref_dim t)" by (simp add: cursor_new_def)
  with tm.cursor_next_ok [OF cursor_new_at [OF t(1) assms(2)]] obtain cur where c:
    "cursor_next map_key_ref_dim (cursor_new map_key_ref_dim t) = Some cur" "c_did_seek cur"
    "cursor_at map_item_ops map_key_ref_dim cur [] (tree_items t)" by auto
  from retain_loop_ok [OF c(3,2) tm.wf_in_tree_new, of P] obtain t' where t':
    "retain_loop P cur (tree_new map_item_ops) = Some t'" "wf map_item_ops t'"
    "tree_items t' = filter (\<lambda>e. P (me_key e) (me_value e)) (tree_items t)" by auto
  have "key_sorted map_ops (tree_items t')" using t(2) t'(3) by (simp add: sorted_wrt_map sorted_wrt_filter)
  then show ?thesis using t' c(1)
    by (auto simp: tm_retain_def tm_ok_iff tm_entries_def filter_map comp_def split_beta)
qed

lemma tm_iter_ok:
  assumes "tm_ok t" "tm_shallow t"
  shows "tm_iter t = Some (tm_entries t)" "tm_values t = Some (map snd (tm_entries t))"
  using assms tm.iter_collect_ok [of t "[]"] by (simp_all add: tm_iter_def tm_values_def tm_ok_iff tm_entries_def)

lemma tm_ends_ok:
  assumes "tm_ok t"
  shows "tm_first t = Some (first_opt (tm_entries t))" "tm_last t = Some (last_opt (tm_entries t))"
  using assms tree_first_ok [of "\<lambda>_. True" map_item_ops t] tree_last_ok [of "\<lambda>_. True" map_item_ops t]
  by (auto simp: tm_first_def tm_last_def tm_ok_iff tm_entries_def first_opt_def last_opt_def last_map split: list.splits)

lemma seek_split_map:
  "seek_split map_item_ops map_key_ref_dim p d is =
     (takeWhile (\<lambda>e. p (Some (me_key e))) is, dropWhile (\<lambda>e. p (Some (me_key e))) is)"
  by (induction "is" arbitrary: d) (simp_all add: Let_def)

lemma prefix_ends_map: "prefix_ends map_item_ops map_key_ref_dim d is = map (\<lambda>e. Some (me_key e)) is"
  by (induction "is" arbitrary: d) (simp_all add: Let_def)

definition monotone_on_keys :: "('k \<Rightarrow> ordering) \<Rightarrow> ('k, 'v) tree_map \<Rightarrow> bool" where
  "monotone_on_keys target t = sorted_wrt (\<lambda>x y. rank (target y) \<le> rank (target x)) (map fst (tm_entries t))"

lemma monotone_map:
  "monotone_on_keys target t
   \<Longrightarrow> monotone_target map_item_ops map_key_ref_dim (map_seek_target_adaptor target) d (tree_items t)"
  by (simp add: monotone_target_def monotone_on_keys_def prefix_ends_map tm_entries_def sorted_wrt_map)

lemma rank_2: "2 \<le> rank c \<longleftrightarrow> c = Greater"
  by (cases c) simp_all

lemma takeWhile_sorted_filter:
  "sorted_wrt (\<lambda>x y. P y \<longrightarrow> P x) is \<Longrightarrow> takeWhile P is = filter P is \<and> dropWhile P is = filter (\<lambda>x. \<not> P x) is"
proof (induction "is")
  case (Cons x xs)
  then show ?case by (cases "P x") (auto simp: filter_empty_conv filter_id_conv)
qed simp

lemma filter_entries:
  "map (\<lambda>e. (me_key e, me_value e)) (filter (\<lambda>e. P (me_key e)) is)
     = filter (\<lambda>(k, v). P k) (map (\<lambda>e. (me_key e, me_value e)) is)"
  by (induction "is") auto

lemma tm_remove_range_ok:
  assumes t: "tm_ok t" "tm_shallow t"
    and m: "monotone_on_keys start t" "monotone_on_keys end_target t"
    and le: "\<forall>k \<in> fst ` set (tm_entries t). start k = Greater \<longrightarrow> end_target k = Greater"
  shows "\<exists>t'. tm_remove_range t start end_target = Some t' \<and> tm_ok t'
    \<and> tm_entries t' = filter (\<lambda>(k, v). start k = Greater \<or> end_target k \<noteq> Greater) (tm_entries t)"
proof -
  have w: "wf map_item_ops t" "key_sorted map_ops (tree_items t)" using t(1) by (simp_all add: tm_ok_iff)
  let ?a = "takeWhile (\<lambda>e. start (me_key e) = Greater) (tree_items t)"
  let ?b = "dropWhile (\<lambda>e. end_target (me_key e) = Greater) (tree_items t)"
  note at = cursor_new_at [OF w(1) t(2), of map_key_ref_dim]
  have p0: "c_position (cursor_new map_key_ref_dim t) = None" by (simp add: cursor_new_def)
  from tm.cursor_slice_ok [OF at _ monotone_map [OF m(1)] seek_split_map, of Left] obtain t1 c1 where 1:
    "cursor_slice map_item_ops map_key_ref_dim (map_seek_target_adaptor start) Left (cursor_new map_key_ref_dim t) = Some (t1, c1)"
    "wf map_item_ops t1" "tree_items t1 = ?a"
    "cursor_at map_item_ops map_key_ref_dim c1 ?a (dropWhile (\<lambda>e. start (me_key e) = Greater) (tree_items t))"
    by (auto simp: p0)
  have whole: "?a @ dropWhile (\<lambda>e. start (me_key e) = Greater) (tree_items t) = tree_items t" by simp
  from tm.cursor_seek_ok [OF 1(4), unfolded whole, OF _ monotone_map [OF m(2)] seek_split_map, of Left] obtain r c2 where 2:
    "cursor_seek map_key_ref_dim (map_seek_target_adaptor end_target) Left c1 = Some (r, c2)"
    "cursor_at map_item_ops map_key_ref_dim c2 (takeWhile (\<lambda>e. end_target (me_key e) = Greater) (tree_items t)) ?b"
    by auto
  from tm.cursor_suffix_ok [OF 2(2)] obtain t3 c3 where 3:
    "cursor_suffix map_item_ops map_key_ref_dim c2 = Some (t3, c3)" "wf map_item_ops t3" "tree_items t3 = ?b" by blast
  from tm.tree_append_ok [OF 1(2) 3(2)] obtain t' where 4:
    "tree_append map_item_ops t1 t3 = Some t'" "wf map_item_ops t'" "tree_items t' = ?a @ ?b" using 1(3) 3(3) by auto
  have mw: "sorted_wrt (\<lambda>x y. rank (f (me_key y)) \<le> rank (f (me_key x))) (tree_items t)" if "monotone_on_keys f t" for f
    using that by (simp add: monotone_on_keys_def tm_entries_def sorted_wrt_map)
  have mono: "sorted_wrt (\<lambda>x y. f (me_key y) = Greater \<longrightarrow> f (me_key x) = Greater) (tree_items t)" if "monotone_on_keys f t" for f
    by (rule sorted_wrt_mono_rel [OF _ mw [OF that]]) (auto simp: rank_2)
  have "?a @ ?b = filter (\<lambda>e. start (me_key e) = Greater \<or> end_target (me_key e) \<noteq> Greater) (tree_items t)"
  proof -
    have lt: "\<forall>e \<in> set (tree_items t). start (me_key e) = Greater \<longrightarrow> end_target (me_key e) = Greater"
      using le by (auto simp: tm_entries_def)
    have "filter P is @ filter (\<lambda>x. \<not> Q x) is = filter (\<lambda>x. P x \<or> \<not> Q x) is"
      if "sorted_wrt (\<lambda>x y. P y \<longrightarrow> P x) is" "sorted_wrt (\<lambda>x y. Q y \<longrightarrow> Q x) is" "\<forall>x \<in> set is. P x \<longrightarrow> Q x" for P Q and "is" :: "'z list"
      using that
    proof (induction "is")
      case (Cons x xs)
      then show ?case by (cases "P x"; cases "Q x") (auto simp: filter_empty_conv intro!: filter_cong)
    qed simp
    from this [OF mono [OF m(1)] mono [OF m(2)] lt] show ?thesis
      using takeWhile_sorted_filter [OF mono [OF m(1)]] takeWhile_sorted_filter [OF mono [OF m(2)]] by simp
  qed
  then have "tree_items t' = filter (\<lambda>e. start (me_key e) = Greater \<or> end_target (me_key e) \<noteq> Greater) (tree_items t)"
    using 4(3) by simp
  moreover have "key_sorted map_ops (tree_items t')"
    unfolding calculation using w(2) by (simp add: sorted_wrt_map sorted_wrt_filter)
  ultimately show ?thesis
    using 4(2) 1(1) 2(1) 3(1) 4(1)
    by (simp add: tm_remove_range_def tm_ok_iff tm_entries_def filter_entries [of "\<lambda>k. start k = Greater \<or> end_target k \<noteq> Greater"])
qed

lemma sorted_key_prefix:
  assumes "key_sorted map_ops is"
  shows "takeWhile (\<lambda>e. me_key e \<le> k) is = filter (\<lambda>e. me_key e \<le> k) is"
    "dropWhile (\<lambda>e. me_key e < k) is = filter (\<lambda>e. k \<le> me_key e) is"
proof -
  have s: "sorted_wrt (\<lambda>x y. me_key x < me_key y) is" using assms by (simp add: sorted_wrt_map)
  have "sorted_wrt (\<lambda>x y. me_key y \<le> k \<longrightarrow> me_key x \<le> k) is"
    by (rule sorted_wrt_mono_rel [OF _ s]) auto
  then show "takeWhile (\<lambda>e. me_key e \<le> k) is = filter (\<lambda>e. me_key e \<le> k) is"
    using takeWhile_sorted_filter by fast
  have "sorted_wrt (\<lambda>x y. me_key y < k \<longrightarrow> me_key x < k) is"
    by (rule sorted_wrt_mono_rel [OF _ s]) auto
  then have "dropWhile (\<lambda>e. me_key e < k) is = filter (\<lambda>e. \<not> me_key e < k) is"
    using takeWhile_sorted_filter by fast
  then show "dropWhile (\<lambda>e. me_key e < k) is = filter (\<lambda>e. k \<le> me_key e) is" by (simp add: not_less)
qed

lemma tm_seek_ok:
  assumes "tm_ok t" "tm_shallow t"
  shows "\<exists>r cur. cursor_seek map_key_ref_dim (cmp (Some k)) bias (cursor_new map_key_ref_dim t) = Some (r, cur)
    \<and> c_did_seek cur \<and> cursor_at map_item_ops map_key_ref_dim cur
        (takeWhile (\<lambda>e. goes_past (cmp (Some k) (Some (me_key e))) bias) (tree_items t))
        (dropWhile (\<lambda>e. goes_past (cmp (Some k) (Some (me_key e))) bias) (tree_items t))"
proof -
  have t: "wf map_item_ops t" "key_sorted map_ops (tree_items t)" using assms(1) by (simp_all add: tm_ok_iff)
  have z: "tree_items t \<noteq> [] \<Longrightarrow> (None :: 'a map_key) \<le> it_key map_ops (hd (tree_items t))" by simp
  have "monotone_target map_item_ops map_key_ref_dim (cmp (Some k)) None ([] @ tree_items t)"
    using tm.monotone_key [OF t(2) z, of "Some k"] by simp
  from tm.cursor_seek_ok [OF cursor_new_at [OF t(1) assms(2)], of "cmp (Some k)" bias] this seek_split_map
  show ?thesis by fastforce
qed

lemma tm_closest_ok:
  assumes "tm_ok t" "tm_shallow t"
  shows "tm_closest t k = Some (last_opt (filter (\<lambda>(k', v). k' \<le> k) (tm_entries t)))"
proof -
  have t: "key_sorted map_ops (tree_items t)" using assms(1) by (simp add: tm_ok_iff)
  have g: "goes_past (cmp (Some k) (Some x)) Right \<longleftrightarrow> x \<le> k" for x :: 'a
    by (auto simp: goes_past_def)
  let ?p = "filter (\<lambda>e. me_key e \<le> k) (tree_items t)"
  from tm_seek_ok [OF assms, of k Right] obtain r cur where 1:
    "cursor_seek map_key_ref_dim (cmp (Some k)) Right (cursor_new map_key_ref_dim t) = Some (r, cur)" "c_did_seek cur"
    "cursor_at map_item_ops map_key_ref_dim cur ?p (dropWhile (\<lambda>e. me_key e \<le> k) (tree_items t))"
    unfolding g sorted_key_prefix(1) [OF t] by blast
  from tm.cursor_prev_ok [OF 1(3) refl refl] 1(2) obtain cur' where 2:
    "cursor_prev map_key_ref_dim cur = Some cur'" "c_did_seek cur'"
    "if ?p = [] then cursor_item cur' = Some None
     else cursor_at map_item_ops map_key_ref_dim cur' (butlast ?p) (last ?p # dropWhile (\<lambda>e. me_key e \<le> k) (tree_items t))"
    by (auto split: if_splits)
  have "cursor_item cur' = Some (last_opt ?p)"
  proof (cases "?p = []")
    case True
    then show ?thesis using 2(3) by (simp add: last_opt_def)
  next
    case False
    then have "cursor_at map_item_ops map_key_ref_dim cur' (butlast ?p) (last ?p # dropWhile (\<lambda>e. me_key e \<le> k) (tree_items t))"
      using 2(3) by argo
    from cursor_item_at(1) [OF this 2(2)] show ?thesis unfolding last_opt_def using False by (simp add: first_opt_def)
  qed
  moreover have "filter (\<lambda>(k', v). k' \<le> k) (tm_entries t) = map (\<lambda>e. (me_key e, me_value e)) ?p"
    using filter_entries [of "\<lambda>k'. k' \<le> k" "tree_items t"] by (simp add: tm_entries_def)
  ultimately show ?thesis using 1(1) 2(1) by (simp add: tm_closest_def last_opt_def last_map)
qed

lemma tm_iter_from_ok:
  assumes "tm_ok t" "tm_shallow t"
  shows "tm_iter_from t k = Some (filter (\<lambda>(k', v). k \<le> k') (tm_entries t))"
proof -
  have t: "key_sorted map_ops (tree_items t)" using assms(1) by (simp add: tm_ok_iff)
  have g: "goes_past (cmp (Some k) (Some x)) Left \<longleftrightarrow> x < k" for x :: 'a by simp
  from tm_seek_ok [OF assms, of k Left] obtain r cur where 1:
    "cursor_seek map_key_ref_dim (cmp (Some k)) Left (cursor_new map_key_ref_dim t) = Some (r, cur)"
    "cursor_at map_item_ops map_key_ref_dim cur (takeWhile (\<lambda>e. me_key e < k) (tree_items t)) (filter (\<lambda>e. k \<le> me_key e) (tree_items t))"
    unfolding g sorted_key_prefix(2) [OF t] by blast
  then show ?thesis
    using tm.cursor_collect_ok [OF 1(2), of "[]"] filter_entries [of "\<lambda>k'. k \<le> k'" "tree_items t"]
    by (simp add: tm_iter_from_def tm_entries_def)
qed

text \<open>Batches of insertions: \<open>extend\<close> and \<open>insert_tree\<close>.\<close>

abbreviation insert_edits :: "('k \<times> 'v) list \<Rightarrow> (('k, 'v) map_entry, 'k map_key) keyed_edit list" where
  "insert_edits entries \<equiv> map (\<lambda>(k, v). Insert (mk_entry k v)) entries"

lemma tm_edit_inserts:
  assumes "tm_ok t" "tm_shallow t" "distinct (map fst entries)"
  shows "\<exists>t'. map_option snd (tree_edit map_ops t (insert_edits entries)) = Some t' \<and> tm_ok t'
    \<and> tm_map t' = tm_map t ++ map_of entries"
proof -
  let ?xs = "map (\<lambda>(k, v). mk_entry k v) entries"
  have t: "wf map_item_ops t" "key_sorted map_ops (tree_items t)" using assms(1) by (simp_all add: tm_ok_iff)
  have e: "insert_edits entries = map Insert ?xs" by (simp add: split_def)
  have d: "distinct (map (it_key map_ops) ?xs)"
    using assms(3) by (auto simp: distinct_map inj_on_def split_def)
  from tm.tree_insert_batch [OF t(1) assms(2) t(2) d] obtain r t' where t':
    "tree_edit map_ops t (insert_edits entries) = Some (r, t')" "wf map_item_ops t'" "key_sorted map_ops (tree_items t')"
    "\<And>k. key_lookup map_ops (tree_items t') k
      = (case key_lookup map_ops ?xs k of Some x \<Rightarrow> Some x | None \<Rightarrow> key_lookup map_ops (tree_items t) k)"
    unfolding e by auto
  have x: "map_option me_value (key_lookup map_ops ?xs (Some k)) = map_of entries k" for k
    unfolding key_lookup_map by (simp add: comp_def split_def)
  have "tm_map t' k = (tm_map t ++ map_of entries) k" for k
    unfolding key_lookup_tm_map [symmetric] t'(4) map_add_def x [symmetric] by (simp split: option.split)
  then show ?thesis using t' by (auto simp: tm_ok_iff)
qed

lemma tm_from_ordered_entries_ok:
  assumes "sorted_wrt (<) (map fst entries)"
  shows "\<exists>t. tm_from_ordered_entries entries = Some t \<and> tm_ok t \<and> tm_entries t = entries"
proof -
  from tm.tree_from_iter_total [of "map (\<lambda>(k, v). mk_entry k v) entries"] obtain t where
    "tm_from_ordered_entries entries = Some t" "wf map_item_ops t" "tree_items t = map (\<lambda>(k, v). mk_entry k v) entries"
    unfolding tm_from_ordered_entries_def by blast
  moreover have "map (\<lambda>e. (me_key e, me_value e)) (map (\<lambda>(k, v). mk_entry k v) entries) = entries"
    by (simp add: comp_def split_beta)
  ultimately have "tm_entries t = entries" "tm_from_ordered_entries entries = Some t" "wf map_item_ops t"
    unfolding tm_entries_def by metis+
  then show ?thesis using assms by (simp add: tm_ok_def)
qed

end
