(* ===== verification/TreeContract.thy ===== *)
theory TreeContract
  imports TreeMap
begin

text \<open>
  The contract of the summarising tree towards its clients, stated for every instance of
  the traits \<open>Item\<close>, \<open>Summary\<close> and \<open>Dimension\<close> that obeys their laws, and checked on trees of
  map entries: appending, building, searching, cutting, filtering, updating and editing. The
  laws may be restricted to lists of items that fit, because sums of machine integers only
  add up below their width; for the map every list fits.
\<close>

section \<open>Trees the examples use\<close>

definition leaf_low :: "(nat, nat) tree_map" where
  "leaf_low = Leaf (Some 3) [mk_entry 1 10, mk_entry 3 30] [Some 1, Some 3]"

definition leaf_high :: "(nat, nat) tree_map" where
  "leaf_high = Leaf (Some 7) [mk_entry 5 50, mk_entry 6 60, mk_entry 7 70] [Some 5, Some 6, Some 7]"

definition two_leaves :: "(nat, nat) tree_map" where
  "two_leaves = Internal 1 (Some 7) [Some 3, Some 7] [leaf_low, leaf_high]"

lemma flat_map_ops [simp]:
  "flat map_item_ops is = (case last_opt is of None \<Rightarrow> None | Some e \<Rightarrow> Some (me_key e))"
  by (induction "is" rule: rev_induct)
    (simp_all add: flat_def last_opt_def map_item_ops_def map_key_add_summary_def)

lemma example_trees [simp]:
  "tree_items leaf_low = [mk_entry 1 10, mk_entry 3 30]"
  "tree_items leaf_high = [mk_entry 5 50, mk_entry 6 60, mk_entry 7 70]"
  "tree_items two_leaves = [mk_entry 1 10, mk_entry 3 30, mk_entry 5 50, mk_entry 6 60, mk_entry 7 70]"
  "wf map_item_ops leaf_low" "wf map_item_ops leaf_high" "wf map_item_ops two_leaves"
  "node_height leaf_low = 0" "node_height leaf_high = 0" "node_height two_leaves = 1"
  by (simp_all add: leaf_low_def leaf_high_def two_leaves_def TREE_BASE_def last_opt_def)

lemma example_map [simp]: "tm_ok two_leaves" "tm_shallow two_leaves"
  "tm_entries two_leaves = [(1, 10), (3, 30), (5, 50), (6, 60), (7, 70)]"
  by (simp_all add: tm_ok_def tm_entries_def STACK_CAPACITY_def)

lemma prefix_ends_example [simp]: "prefix_ends map_item_ops map_key_ref_dim d is = map (\<lambda>e. Some (me_key e)) is"
  by (rule prefix_ends_map)

section \<open>Building and appending\<close>

text \<open>
  C3: \<open>append\<close> of two well-formed trees never panics; the result is well-formed (all
  leaves at one depth, no node over capacity, every cached summary the sum of the items
  below it as far as they fit), holds the items of the first tree followed by those of the second, and is at
  most one level higher than the higher of the two.
\<close>

theorem tree_append_concat:
  assumes "summary_laws ops fits" "wf_upto fits ops a" "wf_upto fits ops b"
  shows "\<exists>t. tree_append ops a b = Some t \<and> wf_upto fits ops t \<and> tree_items t = tree_items a @ tree_items b
    \<and> (fits (tree_items t) \<longrightarrow> node_summary t = flat ops (tree_items a @ tree_items b))
    \<and> node_height t \<le> Suc (max (node_height a) (node_height b))"
  using summary_laws.tree_append_ok [OF assms] wf_summary [of fits ops] by fastforce

theorem tree_append_concat_witness:
  "\<exists>t. tree_append map_item_ops leaf_low two_leaves = Some t \<and> wf map_item_ops t
    \<and> map me_key (tree_items t) = [1, 3, 1, 3, 5, 6, 7] \<and> node_height t \<le> 2"
  using tree_append_concat [OF tm.summary_laws_axioms, of leaf_low two_leaves] by auto

text \<open>
  C28: \<open>from_iter\<close> terminates and builds a well-formed tree of its items; a list of at most
  \<open>12 ^ (k + 1)\<close> items gives a tree of height at most \<open>k\<close>.
\<close>

theorem tree_from_iter_height:
  assumes "summary_laws ops fits" "length is \<le> (2 * TREE_BASE) ^ Suc k"
  shows "\<exists>t. tree_from_iter ops is = Some t \<and> wf_upto fits ops t \<and> tree_items t = is \<and> node_height t \<le> k"
  using summary_laws.tree_from_iter_ok [OF assms(1), of "is" k] assms(2) by (simp add: TREE_BASE_def)

theorem tree_from_iter_height_witness:
  "\<exists>t. tree_from_iter map_item_ops (map (\<lambda>k. mk_entry k k) [0..<100]) = Some t
    \<and> wf map_item_ops t \<and> tree_items t = map (\<lambda>k. mk_entry k k) [0..<100] \<and> node_height t \<le> 1"
  using tree_from_iter_height [OF tm.summary_laws_axioms, of "map (\<lambda>k. mk_entry k k) [0..<100]" 1]
  by (simp add: TREE_BASE_def)

text \<open>
  Round trip. Every list of at most \<open>12 ^ 16\<close> items that fits goes through \<open>from_iter\<close> and comes
  back from \<open>items\<close>, from the iterator \<open>iter\<close> and from a \<open>for\<close> loop over a cursor; the trees
  of two such lists are equal (\<open>PartialEq\<close>) exactly when the lists are.
\<close>

theorem tree_from_iter_items:
  assumes "dimension_laws ops fits dim" "fits is" "fits js" "length is \<le> 12 ^ 16" "length js \<le> 12 ^ 16"
  shows "\<exists>t u. tree_from_iter ops is = Some t \<and> tree_from_iter ops js = Some u
    \<and> sum_tree_items t = Some is \<and> iter_collect (iter_new t) [] = Some is
    \<and> cursor_collect dim (cursor_new dim t) [] = Some is \<and> tree_eq t u = Some (is = js)"
proof -
  note sl = dimension_laws.axioms(1) [OF assms(1)]
  have "\<exists>t. tree_from_iter ops xs = Some t \<and> wf_in fits ops t \<and> tree_items t = xs \<and> node_height t < STACK_CAPACITY"
    if "fits xs" "length xs \<le> 12 ^ 16" for xs
    using summary_laws.tree_from_iter_ok [OF sl, of xs 15] that
    by (fastforce simp: summary_laws.wf_in_iff [OF sl] STACK_CAPACITY_def)
  with assms(2-5) obtain t u where
    t: "tree_from_iter ops is = Some t" "wf_in fits ops t" "tree_items t = is" "node_height t < STACK_CAPACITY" and
    u: "tree_from_iter ops js = Some u" "wf_in fits ops u" "tree_items u = js" "node_height u < STACK_CAPACITY"
    by metis
  show ?thesis
    using t u summary_laws.sum_tree_items_ok [OF sl t(2,4)] summary_laws.iter_collect_ok [OF sl t(2,4)]
      dimension_laws.cursor_collect_ok [OF assms(1) cursor_new_at [OF t(2,4)]]
      summary_laws.tree_eq_ok [OF sl t(2,4) u(2,4)] by auto
qed

theorem tree_from_iter_items_witness:
  "\<exists>t. tree_from_iter map_item_ops (map (\<lambda>k. mk_entry k True) [0..<30]) = Some t
    \<and> sum_tree_items t = Some (map (\<lambda>k. mk_entry k True) [0..<30])"
  using tree_from_iter_items [OF tm.dimension_laws_axioms, of "map (\<lambda>k. mk_entry k True) [0..<30]" "[]"]
  by auto

section \<open>Searching\<close>

text \<open>
  C19: the descent of \<open>find\<close> and \<open>find_with_prev\<close> through the cached summaries is a linear
  search. For a target that compares greater, then equal, then less along the items, they
  return the first item the target does not pass, the dimension before and after it, and
  (for \<open>find_with_prev\<close>) the item before it; \<open>find_exact\<close> with a left bias returns that item
  if the target compares equal with its end.
\<close>

theorem tree_find_linear:
  assumes "dimension_laws ops fits dim" "wf_in fits ops t" "monotone_target ops dim target (d_zero dim) (tree_items t)"
  shows "(case seek_split ops dim (\<lambda>d. goes_past (target d) bias) (d_zero dim) (tree_items t) of
      (a, []) \<Rightarrow>
        tree_find dim target bias t = (item_dim ops dim (d_zero dim) a, item_dim ops dim (d_zero dim) a, None)
        \<and> find_with_prev dim target bias t
            = Some (item_dim ops dim (d_zero dim) a, item_dim ops dim (d_zero dim) a, None)
    | (a, i # b) \<Rightarrow>
        tree_find dim target bias t
          = (item_dim ops dim (d_zero dim) a, item_dim ops dim (d_zero dim) (a @ [i]), Some i)
        \<and> find_with_prev dim target bias t
          = Some (item_dim ops dim (d_zero dim) a, item_dim ops dim (d_zero dim) (a @ [i]), Some (last_opt a, i)))
    \<and> snd (snd (find_exact dim target Left t)) =
      (case seek_split ops dim (\<lambda>d. target d = Greater) (d_zero dim) (tree_items t) of
         (a, i # b) \<Rightarrow> if target (item_dim ops dim (d_zero dim) (a @ [i])) = Equal then Some i else None
       | (a, []) \<Rightarrow> None)"
  using dimension_laws.tree_find_ok [OF assms, of bias] dimension_laws.find_with_prev_ok [OF assms, of bias]
    dimension_laws.find_exact_ok [OF assms]
  by (auto simp: found_exact_def found_def split: prod.splits list.splits)

theorem tree_find_linear_witness:
  "tree_find map_key_ref_dim (cmp (Some 5)) Left two_leaves = (Some 3, Some 5, Some (mk_entry 5 50))"
  using tree_find_linear [OF tm.dimension_laws_axioms, of two_leaves "cmp (Some 5)" Left]
  by (simp add: monotone_target_def cmp_def Let_def)

section \<open>Cursors\<close>

text \<open>
  C4: a cursor cuts a tree in two without losing or reordering an item. After a seek to the
  place \<open>pre | suf\<close>, \<open>slice\<close> up to a target yields a well-formed tree of exactly the items of
  \<open>suf\<close> the target passes, at most four levels higher than the tree it was cut from, and
  leaves the cursor behind them; \<open>suffix\<close> then yields the rest,
  and \<open>summary\<close> up to the same target is the sum of the sliced items.
\<close>

theorem cursor_slice_suffix:
  assumes "two_dimensions ops fits dim out" "cursor_in fits ops dim cur pre suf" "target (c_position cur) \<noteq> Less"
    and "monotone_target ops dim target (c_position cur) suf"
  shows "\<exists>a b s1 cur1 s2 cur2 cur3.
      seek_split ops dim (\<lambda>d. goes_past (target d) bias) (c_position cur) suf = (a, b) \<and> suf = a @ b
    \<and> cursor_slice ops dim target bias cur = Some (s1, cur1) \<and> wf_in fits ops s1 \<and> tree_items s1 = a
    \<and> node_height s1 \<le> node_height (c_tree cur) + 4
    \<and> cursor_in fits ops dim cur1 (pre @ a) b
    \<and> cursor_suffix ops dim cur1 = Some (s2, cur2) \<and> wf_in fits ops s2 \<and> tree_items s2 = b
    \<and> cursor_in fits ops dim cur2 (pre @ suf) []
    \<and> cursor_summary dim out target bias cur = Some (item_dim ops out (d_zero out) a, cur3)"
proof -
  note td = assms(1)
  note dl = two_dimensions.axioms(1) [OF td]
  obtain a b where ab: "seek_split ops dim (\<lambda>d. goes_past (target d) bias) (c_position cur) suf = (a, b)"
    by fastforce
  from dimension_laws.cursor_slice_ok [OF dl assms(2-4) ab] obtain s1 cur1 where 1:
    "cursor_slice ops dim target bias cur = Some (s1, cur1)" "wf_in fits ops s1" "tree_items s1 = a"
    "cursor_in fits ops dim cur1 (pre @ a) b" "node_height s1 \<le> node_height (c_tree cur) + 4" by blast
  from dimension_laws.cursor_suffix_ok [OF dl 1(4)] obtain s2 cur2 where 2:
    "cursor_suffix ops dim cur1 = Some (s2, cur2)" "wf_in fits ops s2" "tree_items s2 = b"
    "cursor_in fits ops dim cur2 ((pre @ a) @ b) []" by blast
  from two_dimensions.cursor_summary_ok [OF td assms(2-4) ab] obtain cur3 where
    "cursor_summary dim out target bias cur = Some (item_dim ops out (d_zero out) a, cur3)" by blast
  then show ?thesis using ab 1 2 seek_split_concat [OF ab] by auto
qed

theorem cursor_slice_suffix_witness:
  "\<exists>s cur. cursor_slice map_item_ops map_key_ref_dim (cmp (Some 6)) Left (cursor_new map_key_ref_dim two_leaves)
      = Some (s, cur) \<and> map me_key (tree_items s) = [1, 3, 5]"
proof -
  have "cursor_at map_item_ops map_key_ref_dim (cursor_new map_key_ref_dim two_leaves) [] (tree_items two_leaves)"
    by (rule cursor_new_at) (simp_all add: STACK_CAPACITY_def)
  moreover have "two_dimensions (map_item_ops :: ((nat, nat) map_entry, nat map_key) item_ops)
      (\<lambda>_. True) map_key_ref_dim map_key_ref_dim"
    by (intro two_dimensions.intro tm.dimension_laws_axioms tm.self_total.total_laws_axioms)
  ultimately show ?thesis
    using cursor_slice_suffix [of map_item_ops "\<lambda>_. True" map_key_ref_dim map_key_ref_dim
        "cursor_new map_key_ref_dim two_leaves" "[]" "tree_items two_leaves" "cmp (Some 6)" Left]
    by (auto simp: monotone_target_def cmp_def Let_def cursor_new_def seek_split_map)
qed

text \<open>
  Walking. On a cursor that has been positioned at \<open>pre | suf\<close>, \<open>item\<close> is the first item
  of \<open>suf\<close>, \<open>next_item\<close> the second and \<open>prev_item\<close> the last of \<open>pre\<close>; \<open>next\<close> moves one item
  right and stays at the end; \<open>prev\<close> moves one item left, and from the first item to before
  the tree, where \<open>item\<close> is \<open>None\<close>.
\<close>

theorem cursor_walk:
  assumes "dimension_laws ops fits dim" "cursor_in fits ops dim cur pre suf" "c_did_seek cur"
  shows "cursor_item cur = Some (first_opt suf) \<and> cursor_next_item cur = Some (first_opt (drop 1 suf))
    \<and> cursor_prev_item cur = Some (last_opt pre)
    \<and> (\<exists>cur'. cursor_next dim cur = Some cur' \<and> cursor_in fits ops dim cur' (pre @ take 1 suf) (drop 1 suf))
    \<and> (\<exists>cur'. cursor_prev dim cur = Some cur' \<and>
      (if pre = [] then cursor_item cur' = Some None else cursor_in fits ops dim cur' (butlast pre) (last pre # suf)))"
  using cursor_item_at(1) [OF assms(2,3)] cursor_neighbours_ok [OF assms(2,3)]
    dimension_laws.cursor_next_ok [OF assms(1,2)] dimension_laws.cursor_prev_ok [OF assms(1,2) refl refl] assms(3)
  by (auto split: if_splits)

theorem cursor_walk_witness:
  "\<exists>cur. cursor_next map_key_ref_dim (cursor_new map_key_ref_dim two_leaves) = Some cur
    \<and> cursor_next_item cur = Some (Some (mk_entry 3 30)) \<and> cursor_prev_item cur = Some None"
proof -
  have "cursor_at map_item_ops map_key_ref_dim (cursor_new map_key_ref_dim two_leaves) [] (tree_items two_leaves)"
    by (rule cursor_new_at) (simp_all add: STACK_CAPACITY_def)
  from tm.cursor_next_ok [OF this] obtain cur where c:
    "cursor_next map_key_ref_dim (cursor_new map_key_ref_dim two_leaves) = Some cur" "c_did_seek cur"
    "cursor_at map_item_ops map_key_ref_dim cur [] (tree_items two_leaves)"
    by (auto simp: cursor_new_def)
  show ?thesis
    using cursor_walk [OF tm.dimension_laws_axioms c(3,2)] c(1) by (auto simp: first_opt_def last_opt_def)
qed

text \<open>
  Among the entries of a map, which are sorted by their keys, a filter that bounds the largest key from below skips
  the subtrees of smaller keys.
\<close>

lemma dimension_laws_fewer:
  assumes "dimension_laws ops fits dim" "fits' []" "\<And>xs ys zs. fits' (xs @ ys @ zs) \<Longrightarrow> fits' ys" "\<And>xs. fits' xs \<Longrightarrow> fits xs"
  shows "dimension_laws ops fits' dim"
proof (unfold_locales, fact assms(2), fact assms(3))
  note laws = assms(1) [THEN dimension_laws.axioms(1)]
  show "s_add ops (s_zero ops) (it_summary ops i) = it_summary ops i" if "fits' [i]" for i
    by (rule summary_laws.item_add [OF laws assms(4) [OF that]])
  show "flat ops (xs @ ys) = s_add ops (flat ops xs) (flat ops ys)" if "ys \<noteq> []" "fits' (xs @ ys)" for ys xs
    by (rule summary_laws.flat_append [OF laws that(1) assms(4) [OF that(2)]])
  show "d_add dim d (flat ops xs) = item_dim ops dim d xs" if "xs \<noteq> []" "fits' xs" for xs d
    by (rule dimension_laws.dim_flat [OF assms(1) that(1) assms(4) [OF that(2)]])
qed (rule dimension_laws.dim_zero [OF assms(1)])

lemma sorted_dimension_laws:
  "dimension_laws map_item_ops (sorted_wrt (\<lambda>a b. me_key a < (me_key b :: 'k::linorder))) map_key_ref_dim"
  by (rule dimension_laws_fewer [OF tm.dimension_laws_axioms]) (simp_all add: sorted_wrt_append)

lemma example_sorted: "wf_in (sorted_wrt (\<lambda>a b. me_key a < me_key b)) map_item_ops leaf_high"
  "wf_in (sorted_wrt (\<lambda>a b. me_key a < me_key b)) map_item_ops two_leaves"
  by (simp_all add: leaf_low_def leaf_high_def two_leaves_def TREE_BASE_def last_opt_def)

lemma sorted_entries_last:
  fixes xs :: "('k::linorder, 'v) map_entry list"
  assumes "sorted_wrt (\<lambda>a b. me_key a < me_key b) xs" "i \<in> set xs" "k \<le> me_key i"
  shows "Some k \<le> flat map_item_ops xs"
  using assms by (cases xs rule: rev_cases) (auto simp: last_opt_def sorted_wrt_append)

text \<open>
  C37: iterating a filter cursor yields, in order and once each, exactly the items whose
  summary the filter accepts, although whole subtrees are skipped on the strength of their
  summaries, provided the filter accepts the sum of any items one of which it accepts.
\<close>

theorem filter_cursor_complete:
  assumes "dimension_laws ops fits dim" "wf_in fits ops t" "node_height t < STACK_CAPACITY"
    and "\<forall>xs i. fits xs \<longrightarrow> i \<in> set xs \<longrightarrow> F (it_summary ops i) \<longrightarrow> F (flat ops xs)"
  shows "filter_collect dim F (cursor_new dim t) [] = Some (filter (\<lambda>i. F (it_summary ops i)) (tree_items t))"
  using dimension_laws.filter_collect_ok [OF assms(1) _ assms(2,3), of F "[]"] assms(4) by (simp add: sieve_def)

theorem filter_cursor_complete_witness:
  "filter_collect map_key_ref_dim (\<lambda>s. Some 6 \<le> s) (cursor_new map_key_ref_dim two_leaves) [] = Some [mk_entry 6 60, mk_entry 7 70]"
proof -
  have "\<forall>xs i. sorted_wrt (\<lambda>a b. me_key a < me_key b) xs \<longrightarrow> i \<in> set xs \<longrightarrow> Some 6 \<le> it_summary map_item_ops i
      \<longrightarrow> Some 6 \<le> flat map_item_ops (xs :: (nat, nat) map_entry list)"
    using sorted_entries_last by (fastforce simp: map_item_ops_def)
  from filter_cursor_complete [OF sorted_dimension_laws example_sorted(2) _ this] show ?thesis
    by (simp add: STACK_CAPACITY_def map_item_ops_def)
qed

text \<open>
  Misuse panics. Reading a cursor that was never positioned, and seeking to a target
  before the cursor's position with \<open>seek_forward\<close>, \<open>slice\<close> or \<open>summary\<close>, panics on every
  tree; on a well-formed tree a fresh cursor accepts any target not before the start.
\<close>

theorem cursor_misuse_panics:
  assumes "dimension_laws ops fits dim" "wf_in fits ops t" "node_height t < STACK_CAPACITY" "target (d_zero dim) \<noteq> Less"
    and "monotone_target ops dim target (d_zero dim) (tree_items t)"
  shows "(\<not> c_did_seek cur \<longrightarrow> cursor_item cur = None \<and> cursor_item_summary cur = None \<and> cursor_end dim cur = None
       \<and> cursor_next_item cur = None \<and> cursor_prev_item cur = None)
    \<and> (before (c_position cur) = Less \<longrightarrow> cursor_seek_forward dim before bias cur = None
       \<and> cursor_slice ops dim before bias cur = None \<and> cursor_summary dim out before bias cur = None)
    \<and> cursor_seek dim target bias (cursor_new dim t) \<noteq> None"
proof (intro conjI [rotated] impI)
  show "cursor_seek dim target bias (cursor_new dim t) \<noteq> None"
    using dimension_laws.cursor_seek_ok [OF assms(1), of "cursor_new dim t" "[]" "tree_items t" target bias]
      cursor_new_at [OF assms(2,3), of dim] assms(4,5)
    by (cases "seek_split ops dim (\<lambda>d. goes_past (target d) bias) (d_zero dim) (tree_items t)") fastforce
qed (simp_all add: cursor_item_def cursor_item_summary_def cursor_end_def cursor_next_item_def cursor_prev_item_def
    assert_did_seek_def cursor_seek_forward_def cursor_slice_def cursor_summary_def seek_internal_def assert_that_def)

theorem cursor_misuse_panics_witness:
  "cursor_item (cursor_new map_key_ref_dim two_leaves) = None
    \<and> cursor_seek map_key_ref_dim (cmp (Some 5)) Right (cursor_new map_key_ref_dim two_leaves) \<noteq> None"
  using cursor_misuse_panics [OF tm.dimension_laws_axioms, of two_leaves "cmp (Some 5)"
      "cursor_new map_key_ref_dim two_leaves" End Right map_key_ref_dim]
  by (simp add: cursor_new_def STACK_CAPACITY_def monotone_target_def cmp_def)

section \<open>Updating and editing\<close>

text \<open>
  \<open>update_first\<close> and \<open>update_last\<close> replace exactly the first and the last item and
  refresh every cached summary on the way to the root; an empty tree is left alone.
\<close>

theorem update_ends:
  assumes "summary_laws ops fits" "wf_upto fits ops t"
  shows "\<exists>t1 t2. update_first ops f t = Some t1 \<and> wf_upto fits ops t1 \<and> node_height t1 = node_height t
    \<and> tree_items t1 = (case tree_items t of [] \<Rightarrow> [] | i # is \<Rightarrow> f i # is)
    \<and> update_last ops f t = Some t2 \<and> wf_upto fits ops t2 \<and> node_height t2 = node_height t
    \<and> rev (tree_items t2) = (case rev (tree_items t) of [] \<Rightarrow> [] | i # is \<Rightarrow> f i # is)"
proof -
  from summary_laws.update_first_ok [OF assms, of f] summary_laws.update_last_ok [OF assms, of f] obtain t1 t2 where
    1: "update_first ops f t = Some t1" "wf_upto fits ops t1" "node_height t1 = node_height t"
      "tree_items t1 = (if tree_items t = [] then [] else f (hd (tree_items t)) # tl (tree_items t))" and
    2: "update_last ops f t = Some t2" "wf_upto fits ops t2" "node_height t2 = node_height t"
      "tree_items t2 = (if tree_items t = [] then [] else butlast (tree_items t) @ [f (last (tree_items t))])" by blast
  have "rev (tree_items t2) = (case rev (tree_items t) of [] \<Rightarrow> [] | i # is \<Rightarrow> f i # is)"
    using 2(4) by (cases "tree_items t" rule: rev_cases) simp_all
  moreover have "tree_items t1 = (case tree_items t of [] \<Rightarrow> [] | i # is \<Rightarrow> f i # is)"
    using 1(4) by (cases "tree_items t") simp_all
  ultimately show ?thesis using 1 2 by auto
qed

theorem update_ends_witness:
  "\<exists>t. update_last map_item_ops (\<lambda>e. e\<lparr>me_key := 9\<rparr>) two_leaves = Some t \<and> wf map_item_ops t
    \<and> map me_key (rev (tree_items t)) = [9, 6, 5, 3, 1]"
  using update_ends [OF tm.summary_laws_axioms, of two_leaves "\<lambda>e. e\<lparr>me_key := 9\<rparr>"] by fastforce

text \<open>
  C13: a batch of edits with distinct keys does to a key-sorted tree what the edits do to the
  map of its keys: an inserted key finds the new item, a removed key finds nothing, every
  other key finds what it found before; the tree stays well-formed and sorted by key, and
  the call returns the items that were replaced or removed, in key order.
\<close>

theorem tree_edit_batch:
  assumes "keyed_laws kops" "wf (base_ops kops) t" "node_height t < STACK_CAPACITY"
    and "sorted_wrt (<) (map (it_key kops) (tree_items t))" "distinct (map (edit_key kops) edits)"
  shows "\<exists>removed t'. tree_edit kops t edits = Some (removed, t') \<and> wf (base_ops kops) t'
    \<and> sorted_wrt (<) (map (it_key kops) (tree_items t'))
    \<and> removed = List.map_filter (\<lambda>e. tree_get kops t (edit_key kops e)) (sort_key (edit_key kops) edits)
    \<and> (\<forall>k. tree_get kops t' k =
        (case find (\<lambda>e. edit_key kops e = k) (sort_key (edit_key kops) edits) of
           Some (Insert x) \<Rightarrow> Some x | Some (Remove _) \<Rightarrow> None | None \<Rightarrow> tree_get kops t k))"
proof -
  let ?es = "sort_key (edit_key kops) edits"
  have s: "sorted_wrt (<) (map (edit_key kops) ?es)" using assms(5) by (rule sort_key_strict)
  from keyed_laws.tree_edit_ok [OF assms(1-4), of edits] obtain t' where t':
    "tree_edit kops t edits = Some (removed_by kops ?es (tree_items t), t')" "wf (base_ops kops) t'"
    "tree_items t' = merge_edits kops ?es (tree_items t)" by blast
  note sorted' = merge_edits_sorted [OF assms(4) s]
  have get: "tree_get kops u k = key_lookup kops (tree_items u) k"
    if "wf (base_ops kops) u" "sorted_wrt (<) (map (it_key kops) (tree_items u))" for u k
    by (rule keyed_laws.tree_get_ok [OF assms(1) that])
  have "removed_by kops ?es (tree_items t) = List.map_filter (\<lambda>e. tree_get kops t (edit_key kops e)) ?es"
    using removed_by_sorted [OF assms(4) s] get [OF assms(2,4)] by simp
  moreover have "tree_get kops t' k = edit_result kops ?es (tree_items t) k" for k
    using get [OF t'(2)] sorted' merge_edits_lookup [OF assms(4) s] t'(3) by simp
  ultimately show ?thesis using t' sorted' get [OF assms(2,4)]
    by (auto simp: edit_result_def split: option.split keyed_edit.split)
qed

theorem tree_edit_batch_witness:
  "\<exists>t. tree_edit map_ops two_leaves [Remove (Some 6), Insert (mk_entry 4 40), Insert (mk_entry 3 31)]
      = Some ([mk_entry 3 30, mk_entry 6 60], t)
    \<and> tree_get map_ops t (Some 3) = Some (mk_entry 3 31) \<and> tree_get map_ops t (Some 6) = None"
proof -
  let ?es = "[Remove (Some 6), Insert (mk_entry 4 40), Insert (mk_entry 3 31)] :: ((nat, nat) map_entry, nat map_key) keyed_edit list"
  have srt: "sort_key (edit_key map_ops) ?es = [Insert (mk_entry 3 31), Insert (mk_entry 4 40), Remove (Some 6)]"
    by simp
  have get: "tree_get map_ops two_leaves k = key_lookup map_ops (tree_items two_leaves) k" for k
    by (rule tm.tree_get_ok) simp_all
  from tree_edit_batch [OF tm.keyed_laws_axioms, of two_leaves ?es, unfolded srt get base_map_ops] obtain t where
    "tree_edit map_ops two_leaves ?es = Some ([mk_entry 3 30, mk_entry 6 60], t)" and
    k: "\<And>k. tree_get map_ops t k = (case find (\<lambda>e. edit_key map_ops e = k) [Insert (mk_entry 3 31), Insert (mk_entry 4 40), Remove (Some 6)] of
           Some (Insert x) \<Rightarrow> Some x | Some (Remove _) \<Rightarrow> None | None \<Rightarrow> key_lookup map_ops (tree_items two_leaves) k)"
    by (auto simp add: STACK_CAPACITY_def key_lookup_def List.map_filter_simps)
  moreover have "tree_get map_ops t (Some 3) = Some (mk_entry 3 31)" "tree_get map_ops t (Some 6) = None"
    unfolding k by simp_all
  ultimately show ?thesis by blast
qed

section \<open>The ordered map\<close>

text \<open>
  C15: the tree map refines finite maps. On a map whose keys increase strictly, \<open>get\<close> and
  \<open>contains_key\<close> read the finite map it stands for; \<open>insert\<close>, \<open>insert_or_replace\<close>, \<open>remove\<close>
  and \<open>update\<close> never panic, keep the invariant, change the finite map at their key only, and
  return the value that was there.
\<close>

theorem tree_map_refines:
  assumes "tm_ok t" "tm_shallow t"
  shows "tm_get t k = tm_map t k \<and> tm_contains_key t k = (k \<in> dom (tm_map t))
    \<and> (\<exists>t'. tm_insert_or_replace t k v = Some (tm_map t k, t') \<and> tm_insert t k v = Some t' \<and> tm_ok t'
      \<and> tm_map t' = (tm_map t)(k \<mapsto> v))
    \<and> (\<exists>t'. tm_remove t k = Some (tm_map t k, t') \<and> tm_ok t' \<and> tm_map t' = (tm_map t)(k := None))
    \<and> (\<exists>t'. tm_update t k f = Some (map_option (fst \<circ> f) (tm_map t k), t') \<and> tm_ok t'
      \<and> tm_map t' = (case tm_map t k of None \<Rightarrow> tm_map t | Some v \<Rightarrow> (tm_map t)(k \<mapsto> snd (f v))))"
  using tm_get_ok [OF assms(1)] tm_insert_or_replace_ok [OF assms] tm_remove_ok [OF assms] tm_update_ok [OF assms, of k f]
  by (auto simp: tm_contains_key_def)

theorem tree_map_refines_witness:
  "\<exists>t. tm_remove two_leaves 5 = Some (Some 50, t) \<and> tm_ok t \<and> tm_map t 5 = None \<and> tm_map t 6 = Some 60"
  using tree_map_refines [OF example_map(1,2), of 5 0 "\<lambda>v. ((), v)"] by (auto simp: tm_map_def)

text \<open>
  C38: the ordered queries. \<open>iter\<close>, \<open>first\<close> and \<open>last\<close> list the entries in key order, \<open>iter_from\<close>
  those from a key on, and \<open>closest\<close> finds the last entry at or below a key.
\<close>

theorem tree_map_ordered_queries:
  assumes "tm_ok t" "tm_shallow t"
  shows "tm_iter t = Some (tm_entries t) \<and> tm_values t = Some (map snd (tm_entries t))
    \<and> tm_first t = Some (first_opt (tm_entries t)) \<and> tm_last t = Some (last_opt (tm_entries t))
    \<and> tm_iter_from t k = Some (filter (\<lambda>(k', v). k \<le> k') (tm_entries t))
    \<and> tm_closest t k = Some (last_opt (filter (\<lambda>(k', v). k' \<le> k) (tm_entries t)))"
  by (intro conjI) (rule tm_iter_ok [OF assms] tm_ends_ok [OF assms(1)] tm_iter_from_ok [OF assms] tm_closest_ok [OF assms])+

theorem tree_map_ordered_queries_witness:
  "tm_closest two_leaves 4 = Some (Some (3, 30)) \<and> tm_closest two_leaves 0 = Some None
    \<and> tm_iter_from two_leaves 6 = Some [(6, 60), (7, 70)]"
  using tree_map_ordered_queries [OF example_map(1,2), of 6]
    tree_map_ordered_queries [OF example_map(1,2), of 4] tree_map_ordered_queries [OF example_map(1,2), of 0]
  by (simp add: last_opt_def)

text \<open>
  \<open>remove_range\<close> drops exactly the entries at or after the start target and before the
  end target, and \<open>retain\<close> exactly those its predicate rejects; both keep the order of the rest.
\<close>

theorem tree_map_bulk_removal:
  assumes "tm_ok t" "tm_shallow t" "monotone_on_keys start t" "monotone_on_keys end_target t"
    and "\<forall>k \<in> fst ` set (tm_entries t). start k = Greater \<longrightarrow> end_target k = Greater"
  shows "(\<exists>t'. tm_remove_range t start end_target = Some t' \<and> tm_ok t'
      \<and> tm_entries t' = filter (\<lambda>(k, v). start k = Greater \<or> end_target k \<noteq> Greater) (tm_entries t))
    \<and> (\<exists>t'. tm_retain t P = Some t' \<and> tm_ok t' \<and> tm_entries t' = filter (\<lambda>(k, v). P k v) (tm_entries t))"
  by (intro conjI) (rule tm_remove_range_ok [OF assms] tm_retain_ok [OF assms(1,2)])+

theorem tree_map_bulk_removal_witness:
  "\<exists>t. tm_remove_range two_leaves (cmp 3) (cmp 6) = Some t \<and> tm_entries t = [(1, 10), (6, 60), (7, 70)]"
  using tree_map_bulk_removal [OF example_map(1,2), of "cmp 3" "cmp 6"]
  by (auto simp: monotone_on_keys_def cmp_def)

text \<open>
  \<open>extend\<close> with entries of distinct keys and \<open>insert_tree\<close> overlay the new entries on
  the map; a map built from entries in strictly increasing key order iterates as those entries.
\<close>

theorem tree_map_batches:
  assumes t: "tm_ok t" "tm_shallow t" and u: "tm_ok u" "tm_shallow u"
    and d: "distinct (map fst entries)" and s: "sorted_wrt (<) (map fst ordered)"
  shows "(\<exists>t'. tm_extend t entries = Some t' \<and> tm_ok t' \<and> tm_map t' = tm_map t ++ map_of entries)
    \<and> (\<exists>t'. tm_insert_tree t u = Some t' \<and> tm_ok t' \<and> tm_map t' = tm_map t ++ tm_map u)
    \<and> (\<exists>t'. tm_from_ordered_entries ordered = Some t' \<and> tm_ok t' \<and> tm_entries t' = ordered)"
proof (intro conjI)
  show "\<exists>t'. tm_extend t entries = Some t' \<and> tm_ok t' \<and> tm_map t' = tm_map t ++ map_of entries"
    unfolding tm_extend_def by (rule tm_edit_inserts [OF t d])
  have "distinct (map fst (tm_entries u))" using u(1) by (auto simp: tm_ok_def strict_sorted_iff)
  from tm_edit_inserts [OF t this]
  show "\<exists>t'. tm_insert_tree t u = Some t' \<and> tm_ok t' \<and> tm_map t' = tm_map t ++ tm_map u"
    by (simp add: tm_insert_tree_def tm_iter_ok [OF u]) (simp add: tm_map_def)
  show "\<exists>t'. tm_from_ordered_entries ordered = Some t' \<and> tm_ok t' \<and> tm_entries t' = ordered"
    by (rule tm_from_ordered_entries_ok [OF s])
qed

theorem tree_map_batches_witness:
  "\<exists>t. tm_extend two_leaves [(6, 61), (2, 20)] = Some t \<and> tm_map t 6 = Some 61 \<and> tm_map t 2 = Some 20 \<and> tm_map t 7 = Some 70"
  using tree_map_batches [OF example_map(1,2) example_map(1,2), of "[(6, 61), (2, 20)]" "[] :: (nat \<times> nat) list"] by (auto simp: tm_map_def)

text \<open>
  Without distinct keys the overlay fails: \<open>extend\<close> with two entries of one key leaves two
  entries with that key in the map.
\<close>

theorem tm_extend_duplicate_keys:
  "\<exists>t. tm_extend tm_default [(1::nat, a), (1, b)] = Some t \<and> length (tm_entries t) = 2 \<and> \<not> tm_ok t"
proof -
  let ?es = "[Insert (mk_entry 1 a), Insert (mk_entry 1 b)] :: ((nat, 'a) map_entry, nat map_key) keyed_edit list"
  have srt: "sort_key (edit_key map_ops) ?es = ?es" by simp
  have "wf map_item_ops (tm_default :: (nat, 'a) tree_map)" "tree_items (tm_default :: (nat, 'a) tree_map) = []"
    "node_height (tm_default :: (nat, 'a) tree_map) < STACK_CAPACITY"
    unfolding tm_default_def by (rule tm.wf_in_tree_new) (simp_all add: tree_new_def STACK_CAPACITY_def)
  with tm.tree_edit_ok [of "tm_default :: (nat, 'a) tree_map" ?es, unfolded srt] obtain r t where
    "tree_edit map_ops tm_default ?es = Some (r, t)" "tree_items t = [mk_entry 1 a, mk_entry 1 b]"
    by (auto simp: Let_def)
  then show ?thesis by (auto simp: tm_extend_def tm_entries_def tm_ok_def)
qed

end
