(* ===== verification/UndoMap.thy ===== *)
theory UndoMap
  imports Clock Keyed
begin

text \<open>
  The undo map of a buffer (\<open>crates/text/src/undo_map.rs\<close>): for every edit, how often it was
  undone and redone, recorded per undo operation. An edit is undone when its count is odd.
  Replicas receive undo operations in different orders; the maps they build agree.
\<close>

section \<open>Keys, entries and operations\<close>

datatype undo_map_key = UndoMapKey (key_edit_id: lamport) (key_undo_id: lamport)

text \<open>The derived order of \<open>UndoMapKey\<close> compares the edit and then the undo operation.\<close>

instantiation undo_map_key :: linorder
begin

definition less_eq_undo_map_key :: "undo_map_key \<Rightarrow> undo_map_key \<Rightarrow> bool" where
  "less_eq_undo_map_key a b \<longleftrightarrow>
     key_edit_id a < key_edit_id b \<or> key_edit_id a = key_edit_id b \<and> key_undo_id a \<le> key_undo_id b"

definition less_undo_map_key :: "undo_map_key \<Rightarrow> undo_map_key \<Rightarrow> bool" where
  "less_undo_map_key a b \<longleftrightarrow>
     key_edit_id a < key_edit_id b \<or> key_edit_id a = key_edit_id b \<and> key_undo_id a < key_undo_id b"

instance
  by standard (auto simp: less_eq_undo_map_key_def less_undo_map_key_def intro: undo_map_key.expand)

end

record undo_map_entry =
  ue_key :: undo_map_key
  ue_undo_count :: u32

text \<open>The hash map of counts is a list of pairs in some iteration order, with distinct keys.\<close>

record undo_operation =
  uo_timestamp :: lamport
  uo_version :: global
  uo_counts :: "(lamport \<times> u32) list"

type_synonym undo_map = "(undo_map_entry, undo_map_key) node"

definition undo_key_zero :: undo_map_key where
  "undo_key_zero = UndoMapKey lamport_MIN lamport_MIN"

definition undo_key_add :: "undo_map_key \<Rightarrow> undo_map_key \<Rightarrow> undo_map_key" where
  "undo_key_add self summary = max self summary"

definition undo_ops :: "(undo_map_entry, undo_map_key, undo_map_key) keyed_ops" where
  "undo_ops = \<lparr>it_summary = ue_key, s_zero = undo_key_zero, s_add = undo_key_add,
     it_key = ue_key, key_zero = undo_key_zero, key_add = undo_key_add\<rparr>"

definition undo_map_default :: undo_map where
  "undo_map_default = tree_new (base_ops undo_ops)"

section \<open>Operations\<close>

abbreviation mk_undo_entry :: "lamport \<Rightarrow> lamport \<Rightarrow> u32 \<Rightarrow> undo_map_entry" where
  "mk_undo_entry e u c \<equiv> \<lparr>ue_key = UndoMapKey e u, ue_undo_count = c\<rparr>"

definition undo_map_insert :: "undo_map \<Rightarrow> undo_operation \<Rightarrow> undo_map rust" where
  "undo_map_insert self undo = do {
     let edits = map (\<lambda>(edit_id, count). Insert (mk_undo_entry edit_id (uo_timestamp undo) count)) (uo_counts undo);
     (_, self) \<leftarrow> tree_edit undo_ops self edits;
     Some self
   }"

text \<open>
  The loop of \<open>undo_count\<close> and \<open>was_undone\<close> over the cursor: it stops at the first entry of
  another edit, and takes the maximum over the entries whose undo operation \<open>seen\<close> admits.
\<close>

partial_function (option) undo_count_loop :: "lamport \<Rightarrow> (lamport \<Rightarrow> bool)
    \<Rightarrow> (undo_map_entry, undo_map_key, undo_map_key) cursor \<Rightarrow> u32 \<Rightarrow> u32 rust" where
  "undo_count_loop edit_id seen cursor undo_count = do {
     (entry, cursor) \<leftarrow> cursor_iter_next (key_dim undo_ops) cursor;
     case entry of
       None \<Rightarrow> Some undo_count
     | Some entry \<Rightarrow>
         if key_edit_id (ue_key entry) \<noteq> edit_id then Some undo_count
         else undo_count_loop edit_id seen cursor
           (if seen (key_undo_id (ue_key entry)) then max undo_count (ue_undo_count entry) else undo_count)
   }"

text \<open>The loops compute: their unfolding equations serve evaluation.\<close>

declare undo_count_loop.simps [code]

definition undo_count :: "undo_map \<Rightarrow> lamport \<Rightarrow> u32 rust" where
  "undo_count self edit_id = do {
     (_, cursor) \<leftarrow> cursor_seek (key_dim undo_ops) (cmp (UndoMapKey edit_id lamport_MIN)) Left
       (cursor_new (key_dim undo_ops) self);
     undo_count_loop edit_id (\<lambda>_. True) cursor 0
   }"

definition is_undone :: "undo_map \<Rightarrow> lamport \<Rightarrow> bool rust" where
  "is_undone self edit_id = map_option (\<lambda>c. c mod 2 = 1) (undo_count self edit_id)"

definition was_undone :: "undo_map \<Rightarrow> lamport \<Rightarrow> global \<Rightarrow> bool rust" where
  "was_undone self edit_id version = do {
     (_, cursor) \<leftarrow> cursor_seek (key_dim undo_ops) (cmp (UndoMapKey edit_id lamport_MIN)) Left
       (cursor_new (key_dim undo_ops) self);
     undo_count \<leftarrow> undo_count_loop edit_id (global_observed version) cursor 0;
     Some (undo_count mod 2 = 1)
   }"

section \<open>The laws of the keys\<close>

lemma undo_key_zero_le [simp]: "undo_key_zero \<le> k"
  by (cases k) (auto simp: undo_key_zero_def less_eq_undo_map_key_def le_less [symmetric])

lemma undo_ops_simps [simp]:
  "it_summary undo_ops = ue_key" "it_key undo_ops = ue_key" "key_zero undo_ops = undo_key_zero"
  "key_add undo_ops = max" "d_zero (key_dim undo_ops) = undo_key_zero" "d_add (key_dim undo_ops) = max"
  "it_summary (base_ops undo_ops) = ue_key" "s_zero (base_ops undo_ops) = undo_key_zero" "s_add (base_ops undo_ops) = max"
  by (simp_all add: undo_ops_def key_dim_def base_ops_def undo_key_add_def fun_eq_iff)

interpretation um: keyed_laws undo_ops
  by unfold_locales (simp_all add: max.assoc max.absorb2)

section \<open>The history a map stands for\<close>

definition undo_map_ok :: "undo_map \<Rightarrow> bool" where
  "undo_map_ok t \<longleftrightarrow> wf (base_ops undo_ops) t \<and> node_height t < STACK_CAPACITY \<and> key_sorted undo_ops (tree_items t)"

text \<open>The counts recorded for an edit, by undo operation.\<close>

definition recorded :: "undo_map \<Rightarrow> lamport \<Rightarrow> lamport \<rightharpoonup> u32" where
  "recorded t edit_id undo_id = map_option ue_undo_count (key_lookup undo_ops (tree_items t) (UndoMapKey edit_id undo_id))"

definition entries_of :: "lamport \<Rightarrow> (lamport \<Rightarrow> bool) \<Rightarrow> undo_map_entry list \<Rightarrow> undo_map_entry list" where
  "entries_of e seen is = filter (\<lambda>i. key_edit_id (ue_key i) = e \<and> seen (key_undo_id (ue_key i))) is"

lemma undo_count_loop_ok:
  "cursor_at (base_ops undo_ops) (key_dim undo_ops) cur pre suf \<Longrightarrow> key_sorted undo_ops suf
   \<Longrightarrow> \<forall>i \<in> set suf. e \<le> key_edit_id (ue_key i)
   \<Longrightarrow> undo_count_loop e seen cur c = Some (fold max (map ue_undo_count (entries_of e seen suf)) c)"
proof (induction suf arbitrary: cur pre c)
  case Nil
  then show ?case using um.cursor_iter_next_ok [OF Nil(1)]
    by (subst undo_count_loop.simps) (auto simp: first_opt_def entries_of_def)
next
  case (Cons i suf)
  obtain cur' where c: "cursor_iter_next (key_dim undo_ops) cur = Some (Some i, cur')"
    "cursor_at (base_ops undo_ops) (key_dim undo_ops) cur' (pre @ [i]) suf"
    using um.cursor_iter_next_ok [OF Cons.prems(1)] by (auto simp: first_opt_def)
  show ?case
  proof (cases "key_edit_id (ue_key i) = e")
    case True
    then show ?thesis using Cons.IH [OF c(2)] Cons.prems(2,3) c(1)
      by (subst undo_count_loop.simps) (auto simp: entries_of_def max.commute)
  next
    case False
    have "\<forall>j \<in> set (i # suf). key_edit_id (ue_key j) \<noteq> e"
    proof
      fix j assume "j \<in> set (i # suf)"
      then have "ue_key i \<le> ue_key j" using Cons.prems(2) by (auto simp: less_imp_le)
      moreover have "e < key_edit_id (ue_key i)" using False Cons.prems(3) by auto
      ultimately show "key_edit_id (ue_key j) \<noteq> e" by (auto simp: less_eq_undo_map_key_def)
    qed
    then have "entries_of e seen (i # suf) = []" by (auto simp: entries_of_def filter_empty_conv)
    then show ?thesis using False c(1) by (subst undo_count_loop.simps) simp
  qed
qed

lemma entries_of_from:
  "key_sorted undo_ops is \<Longrightarrow> entries_of e seen (keys_from undo_ops (UndoMapKey e lamport_MIN) is) = entries_of e seen is"
proof (induction "is")
  case (Cons i "is")
  have "ue_key i < UndoMapKey e lamport_MIN \<Longrightarrow> key_edit_id (ue_key i) \<noteq> e"
    using lamport_MIN_least [of "key_undo_id (ue_key i)"] by (auto simp: less_undo_map_key_def not_less [symmetric])
  then show ?case using Cons by (auto simp: entries_of_def)
qed simp

lemma undo_scan_ok:
  assumes "undo_map_ok t"
  shows "\<exists>r cur. cursor_seek (key_dim undo_ops) (cmp (UndoMapKey e lamport_MIN)) Left
      (cursor_new (key_dim undo_ops) t) = Some (r, cur)
    \<and> undo_count_loop e seen cur 0 = Some (fold max (map ue_undo_count (entries_of e seen (tree_items t))) 0)"
proof -
  have t: "wf (base_ops undo_ops) t" "node_height t < STACK_CAPACITY" "key_sorted undo_ops (tree_items t)"
    using assms by (simp_all add: undo_map_ok_def)
  let ?k = "UndoMapKey e lamport_MIN" and ?suf = "keys_from undo_ops (UndoMapKey e lamport_MIN) (tree_items t)"
  from um.seek_key [OF t, of ?k] obtain r cur where c:
    "cursor_seek (key_dim undo_ops) (cmp ?k) Left (cursor_new (key_dim undo_ops) t) = Some (r, cur)"
    "cursor_at (base_ops undo_ops) (key_dim undo_ops) cur (keys_below undo_ops ?k (tree_items t)) ?suf" by auto
  have s: "key_sorted undo_ops ?suf" by (rule key_sorted_parts(2) [OF t(3)])
  have "\<forall>i \<in> set ?suf. ?k \<le> ue_key i" using keys_from_ge [OF t(3)] by fastforce
  then have "\<forall>i \<in> set ?suf. e \<le> key_edit_id (ue_key i)" by (auto simp: less_eq_undo_map_key_def)
  from undo_count_loop_ok [OF c(2) s this] c(1) entries_of_from [OF t(3)] show ?thesis by auto
qed

section \<open>Counts as maxima over the recorded history\<close>

definition max_count :: "(lamport \<Rightarrow> bool) \<Rightarrow> (lamport \<rightharpoonup> u32) \<Rightarrow> u32" where
  "max_count seen counts = Max (insert 0 {c. \<exists>u. seen u \<and> counts u = Some c})"

lemma fold_max_entries:
  assumes "key_sorted undo_ops (tree_items t)"
  shows "fold max (map ue_undo_count (entries_of e seen (tree_items t))) 0 = max_count seen (recorded t e)"
proof -
  have d: "distinct (map (it_key undo_ops) (tree_items t))" using assms by (simp add: strict_sorted_iff)
  have "set (map ue_undo_count (entries_of e seen (tree_items t))) = {c. \<exists>u. seen u \<and> recorded t e u = Some c}"
    by (force simp: entries_of_def recorded_def key_lookup_mem [OF d])
  then show ?thesis unfolding max_count_def using Max.set_eq_fold [of 0 "map ue_undo_count (entries_of e seen (tree_items t))"]
    by simp
qed

lemma undo_count_ok:
  assumes "undo_map_ok t"
  shows "undo_count t e = Some (max_count (\<lambda>_. True) (recorded t e))"
    and "was_undone t e v = Some (max_count (global_observed v) (recorded t e) mod 2 = 1)"
  using undo_scan_ok [OF assms, of e "\<lambda>_. True"] undo_scan_ok [OF assms, of e "global_observed v"]
    fold_max_entries [of t e] assms
  by (auto simp: undo_count_def was_undone_def undo_map_ok_def)

lemma undo_map_insert_ok:
  assumes "undo_map_ok t" "distinct (map fst (uo_counts undo))"
  shows "\<exists>t'. undo_map_insert t undo = Some t' \<and> wf (base_ops undo_ops) t' \<and> key_sorted undo_ops (tree_items t')
    \<and> (\<forall>e u. recorded t' e u = (if u = uo_timestamp undo then
         (case map_of (uo_counts undo) e of Some c \<Rightarrow> Some c | None \<Rightarrow> recorded t e u) else recorded t e u))"
proof -
  let ?xs = "map (\<lambda>(e, c). mk_undo_entry e (uo_timestamp undo) c) (uo_counts undo)"
  have t: "wf (base_ops undo_ops) t" "node_height t < STACK_CAPACITY" "key_sorted undo_ops (tree_items t)"
    using assms(1) by (simp_all add: undo_map_ok_def)
  have e: "map (\<lambda>(e, c). Insert (mk_undo_entry e (uo_timestamp undo) c)) (uo_counts undo) = map Insert ?xs"
    by (simp add: split_def)
  have d: "distinct (map (it_key undo_ops) ?xs)" using assms(2) by (auto simp: distinct_map inj_on_def split_def)
  have x: "map_option ue_undo_count (key_lookup undo_ops (map (\<lambda>(e, c). mk_undo_entry e (uo_timestamp undo) c) cs) (UndoMapKey e u)) =
      (if u = uo_timestamp undo then map_of cs e else None)" for e u cs
    by (induction cs) (auto simp: key_lookup_def)
  from um.tree_insert_batch [OF t d] obtain r t' where t':
    "tree_edit undo_ops t (map Insert ?xs) = Some (r, t')" "wf (base_ops undo_ops) t'" "key_sorted undo_ops (tree_items t')"
    "\<And>k. key_lookup undo_ops (tree_items t') k
      = (case key_lookup undo_ops ?xs k of Some x \<Rightarrow> Some x | None \<Rightarrow> key_lookup undo_ops (tree_items t) k)"
    by blast
  have "recorded t' e u = (if u = uo_timestamp undo then
         (case map_of (uo_counts undo) e of Some c \<Rightarrow> Some c | None \<Rightarrow> recorded t e u) else recorded t e u)" for e u
    using x [of "uo_counts undo" e u] unfolding recorded_def t'(4) by (auto split: option.split)
  then show ?thesis using t' by (simp add: undo_map_insert_def e)
qed

section \<open>Histories\<close>

text \<open>
  The undo maps a replica can reach, with the operations it has received in order. A cursor
  can walk a tree of fewer than \<open>STACK_CAPACITY\<close> levels.
\<close>

inductive undo_history :: "undo_operation list \<Rightarrow> undo_map \<Rightarrow> bool" where
  empty: "undo_history [] undo_map_default"
| receive: "undo_history ops t \<Longrightarrow> node_height t < STACK_CAPACITY \<Longrightarrow> undo_map_insert t undo = Some t'
    \<Longrightarrow> undo_history (ops @ [undo]) t'"

text \<open>Timestamps are unique, and a hash map has each key once.\<close>

definition undos_ok :: "undo_operation list \<Rightarrow> bool" where
  "undos_ok ops \<longleftrightarrow> distinct (map uo_timestamp ops) \<and> list_all (\<lambda>undo. distinct (map fst (uo_counts undo))) ops"

lemma undo_history_recorded:
  "undo_history ops t \<Longrightarrow> undos_ok ops \<Longrightarrow> wf (base_ops undo_ops) t \<and> key_sorted undo_ops (tree_items t)
     \<and> (\<forall>e u c. recorded t e u = Some c \<longleftrightarrow> (\<exists>undo \<in> set ops. uo_timestamp undo = u \<and> map_of (uo_counts undo) e = Some c))"
proof (induction rule: undo_history.induct)
  case empty
  then show ?case by (simp add: undo_map_default_def recorded_def key_lookup_def)
next
  case (receive ops t undo t')
  then have ok: "undo_map_ok t" "distinct (map fst (uo_counts undo))" "uo_timestamp undo \<notin> uo_timestamp ` set ops"
    by (auto simp: undo_map_ok_def undos_ok_def)
  have IH: "recorded t e u = Some c \<longleftrightarrow> (\<exists>undo \<in> set ops. uo_timestamp undo = u \<and> map_of (uo_counts undo) e = Some c)" for e u c
    using receive by (auto simp: undos_ok_def)
  have "recorded t e (uo_timestamp undo) = None" for e
    using IH [of e "uo_timestamp undo"] ok(3) by (metis image_eqI not_None_eq)
  note none = this
  from undo_map_insert_ok [OF ok(1,2)] receive.hyps(3) have t': "wf (base_ops undo_ops) t'" "key_sorted undo_ops (tree_items t')"
    and r: "recorded t' e u = (if u = uo_timestamp undo then
       (case map_of (uo_counts undo) e of Some c \<Rightarrow> Some c | None \<Rightarrow> recorded t e u) else recorded t e u)" for e u
    by auto
  have "recorded t' e u = Some c
      \<longleftrightarrow> (\<exists>undo \<in> set (ops @ [undo]). uo_timestamp undo = u \<and> map_of (uo_counts undo) e = Some c)" for e u c
  proof (cases "u = uo_timestamp undo")
    case True
    then have "\<forall>undo \<in> set ops. uo_timestamp undo \<noteq> u" using ok(3) by (metis image_eqI)
    then show ?thesis using True none [of e] by (auto simp: r split: option.split)
  next
    case False
    then show ?thesis by (simp add: r IH)
  qed
  then show ?case using t' by blast
qed

lemma max_count_history:
  assumes "undo_history ops t" "undos_ok ops"
  shows "max_count seen (recorded t e)
    = Max (insert 0 {c. \<exists>undo \<in> set ops. seen (uo_timestamp undo) \<and> map_of (uo_counts undo) e = Some c})"
proof -
  have "{c. \<exists>u. seen u \<and> recorded t e u = Some c}
      = {c. \<exists>undo \<in> set ops. seen (uo_timestamp undo) \<and> map_of (uo_counts undo) e = Some c}"
    using undo_history_recorded [OF assms] by auto
  then show ?thesis by (simp add: max_count_def)
qed

lemma undo_history_ok:
  "undo_history ops t \<Longrightarrow> undos_ok ops \<Longrightarrow> node_height t < STACK_CAPACITY \<Longrightarrow> undo_map_ok t"
  using undo_history_recorded by (simp add: undo_map_ok_def)

text \<open>Two undo operations: the first undoes an edit, the second redoes it.\<close>

definition example_undo :: undo_operation where
  "example_undo = \<lparr>uo_timestamp = Lamport 5 0, uo_version = global_new, uo_counts = [(Lamport 3 0, 1)]\<rparr>"

definition example_redo :: undo_operation where
  "example_redo = \<lparr>uo_timestamp = Lamport 6 1, uo_version = global_new, uo_counts = [(Lamport 3 0, 2)]\<rparr>"

definition example_undone :: undo_map where
  "example_undone = Leaf (UndoMapKey (Lamport 3 0) (Lamport 5 0))
     [mk_undo_entry (Lamport 3 0) (Lamport 5 0) 1] [UndoMapKey (Lamport 3 0) (Lamport 5 0)]"

definition example_both :: undo_map where
  "example_both = Leaf (UndoMapKey (Lamport 3 0) (Lamport 6 1))
     [mk_undo_entry (Lamport 3 0) (Lamport 5 0) 1, mk_undo_entry (Lamport 3 0) (Lamport 6 1) 2]
     [UndoMapKey (Lamport 3 0) (Lamport 5 0), UndoMapKey (Lamport 3 0) (Lamport 6 1)]"

lemma example_inserts:
  "undo_map_insert undo_map_default example_undo = Some example_undone"
  "undo_map_insert example_undone example_redo = Some example_both"
  by code_simp+

lemma example_histories:
  "undo_history [example_undo, example_redo] example_both"
  "undos_ok [example_undo, example_redo]" "node_height example_both < STACK_CAPACITY"
proof -
  have h: "node_height undo_map_default < STACK_CAPACITY" "node_height example_undone < STACK_CAPACITY"
    by (simp_all add: undo_map_default_def tree_new_def example_undone_def STACK_CAPACITY_def)
  show "undo_history [example_undo, example_redo] example_both"
    using receive [OF receive [OF empty h(1) example_inserts(1)] h(2) example_inserts(2)] by simp
  show "undos_ok [example_undo, example_redo]" "node_height example_both < STACK_CAPACITY"
    by (simp_all add: undos_ok_def example_undo_def example_redo_def example_both_def STACK_CAPACITY_def)
qed

text \<open>
  C29: the undo count of an edit is the largest count any received undo operation gives it,
  and \<open>was_undone\<close> at a version takes only the operations that version has observed; no query
  panics.
\<close>

theorem undo_count_history:
  assumes "undo_history ops t" "undos_ok ops" "node_height t < STACK_CAPACITY"
  shows "undo_count t e = Some (Max (insert 0 {c. \<exists>undo \<in> set ops. map_of (uo_counts undo) e = Some c}))
    \<and> is_undone t e = map_option odd (undo_count t e)
    \<and> was_undone t e v = Some (odd (Max (insert 0
        {c. \<exists>undo \<in> set ops. global_observed v (uo_timestamp undo) \<and> map_of (uo_counts undo) e = Some c})))"
  using undo_count_ok [OF undo_history_ok [OF assms], of e] max_count_history [OF assms(1,2), where e = e]
  by (simp add: is_undone_def odd_iff_mod_2_eq_one)

theorem undo_count_history_witness:
  "undo_count example_both (Lamport 3 0) = Some 2"
proof -
  have "{c. \<exists>undo \<in> set [example_undo, example_redo]. map_of (uo_counts undo) (Lamport 3 0) = Some c} = {1, 2}"
    by (auto simp: example_undo_def example_redo_def)
  then show ?thesis
    using undo_count_history [OF example_histories, of "Lamport 3 0"] by simp
qed

end
