(* ===== verification/Points.thy ===== *)
theory Points
  imports Prelude
begin

text \<open>
  Positions in a text (\<open>crates/rope/src/point.rs\<close>, \<open>point_utf16.rs\<close>, \<open>offset_utf16.rs\<close>,
  \<open>unclipped.rs\<close>): a row and a column, both \<open>u32\<close>, where adding an extent that spans rows
  replaces the column. Arithmetic wraps, as in the release build.
\<close>

section \<open>Characters\<close>

text \<open>A \<open>char\<close> is its code point; a \<open>str\<close> is the list of its characters.\<close>

type_synonym rchar = nat
type_synonym rstr = "rchar list"

definition newline :: rchar where "newline = 10"

definition len_utf8 :: "rchar \<Rightarrow> nat" where
  "len_utf8 c = (if c < 0x80 then 1 else if c < 0x800 then 2 else if c < 0x10000 then 3 else 4)"

definition len_utf16 :: "rchar \<Rightarrow> nat" where
  "len_utf16 c = (if c < 0x10000 then 1 else 2)"

definition str_len :: "rstr \<Rightarrow> nat" where
  "str_len s = sum_list (map len_utf8 s)"

section \<open>Points\<close>

datatype point = Point (pt_row: u32) (pt_column: u32)

definition point_MAX :: point where "point_MAX = Point (- 1) (- 1)"

definition point_zero :: point where "point_zero = Point 0 0"

definition point_row_range :: "u32 \<times> u32 \<Rightarrow> point \<times> point" where
  "point_row_range rows = (Point (fst rows) 0, Point (snd rows) 0)"

text \<open>\<open>str::split\<close> at a character: always at least one part.\<close>

fun split_lines :: "rstr \<Rightarrow> rstr list" where
  "split_lines [] = [[]]"
| "split_lines (c # s) =
     (if c = newline then [] # split_lines s
      else (case split_lines s of [] \<Rightarrow> [[c]] | l # ls \<Rightarrow> (c # l) # ls))"

definition point_parse_str :: "rstr \<Rightarrow> point" where
  "point_parse_str s =
     foldl (\<lambda>point (row, line). Point (of_nat row) (of_nat (str_len line))) point_zero (enumerate 0 (split_lines s))"

definition point_is_zero :: "point \<Rightarrow> bool" where
  "point_is_zero self \<longleftrightarrow> pt_row self = 0 \<and> pt_column self = 0"

definition point_add :: "point \<Rightarrow> point \<Rightarrow> point" where
  "point_add self other =
     (if pt_row other = 0 then Point (pt_row self) (pt_column self + pt_column other)
      else Point (pt_row self + pt_row other) (pt_column other))"

definition point_sub :: "point \<Rightarrow> point \<Rightarrow> point" where
  "point_sub self other =
     (if pt_row self = pt_row other then Point 0 (pt_column self - pt_column other)
      else Point (pt_row self - pt_row other) (pt_column self))"

definition point_cmp :: "point \<Rightarrow> point \<Rightarrow> ordering" where
  "point_cmp self other =
     (let a = push_bit 32 (ucast (pt_row self) :: u64) OR ucast (pt_column self);
          b = push_bit 32 (ucast (pt_row other) :: u64) OR ucast (pt_column other)
      in cmp a b)"

definition point_saturating_sub :: "point \<Rightarrow> point \<Rightarrow> point" where
  "point_saturating_sub self other = (if point_cmp self other = Less then point_zero else point_sub self other)"

section \<open>UTF-16 points, offsets, unclipped coordinates\<close>

datatype point_utf16 = PointUtf16 (pt16_row: u32) (pt16_column: u32)

definition point_utf16_MAX :: point_utf16 where "point_utf16_MAX = PointUtf16 (- 1) (- 1)"

definition point_utf16_zero :: point_utf16 where "point_utf16_zero = PointUtf16 0 0"

definition point_utf16_is_zero :: "point_utf16 \<Rightarrow> bool" where
  "point_utf16_is_zero self \<longleftrightarrow> pt16_row self = 0 \<and> pt16_column self = 0"

definition point_utf16_add :: "point_utf16 \<Rightarrow> point_utf16 \<Rightarrow> point_utf16" where
  "point_utf16_add self other =
     (if pt16_row other = 0 then PointUtf16 (pt16_row self) (pt16_column self + pt16_column other)
      else PointUtf16 (pt16_row self + pt16_row other) (pt16_column other))"

definition point_utf16_sub :: "point_utf16 \<Rightarrow> point_utf16 \<Rightarrow> point_utf16" where
  "point_utf16_sub self other =
     (if pt16_row self = pt16_row other then PointUtf16 0 (pt16_column self - pt16_column other)
      else PointUtf16 (pt16_row self - pt16_row other) (pt16_column self))"

definition point_utf16_cmp :: "point_utf16 \<Rightarrow> point_utf16 \<Rightarrow> ordering" where
  "point_utf16_cmp self other =
     (let a = push_bit 32 (ucast (pt16_row self) :: u64) OR ucast (pt16_column self);
          b = push_bit 32 (ucast (pt16_row other) :: u64) OR ucast (pt16_column other)
      in cmp a b)"

definition point_utf16_saturating_sub :: "point_utf16 \<Rightarrow> point_utf16 \<Rightarrow> point_utf16" where
  "point_utf16_saturating_sub self other =
     (if point_utf16_cmp self other = Less then point_utf16_zero else point_utf16_sub self other)"

datatype offset_utf16 = OffsetUtf16 (offset_value: nat)

definition offset_utf16_add :: "offset_utf16 \<Rightarrow> offset_utf16 \<Rightarrow> offset_utf16" where
  "offset_utf16_add self other = OffsetUtf16 (offset_value self + offset_value other)"

definition offset_utf16_sub :: "offset_utf16 \<Rightarrow> offset_utf16 \<Rightarrow> offset_utf16" where
  "offset_utf16_sub self other = OffsetUtf16 (usize_sub (offset_value self) (offset_value other))"

datatype 'a unclipped = Unclipped (clipped_value: 'a)

definition unclipped_add :: "('a \<Rightarrow> 'a \<Rightarrow> 'a) \<Rightarrow> 'a unclipped \<Rightarrow> 'a unclipped \<Rightarrow> 'a unclipped" where
  "unclipped_add add self rhs = Unclipped (add (clipped_value self) (clipped_value rhs))"

definition unclipped_sub :: "('a \<Rightarrow> 'a \<Rightarrow> 'a) \<Rightarrow> 'a unclipped \<Rightarrow> 'a unclipped \<Rightarrow> 'a unclipped" where
  "unclipped_sub sub self rhs = Unclipped (sub (clipped_value self) (clipped_value rhs))"

section \<open>The packed comparison\<close>

lemma unat_pack:
  fixes row column :: u32
  shows "unat (push_bit 32 (ucast row :: u64) OR ucast column) = unat row * 2 ^ 32 + unat column"
proof -
  let ?hi = "push_bit 32 (ucast row) :: u64" and ?lo = "ucast column :: u64"
  have r: "unat row < 2 ^ 32" and c: "unat column < 2 ^ 32"
    using unsigned_less [of row] unsigned_less [of column] by auto
  have "?hi AND ?lo = 0"
    by (rule bit_word_eqI) (auto simp: bit_simps dest!: bit_imp_le_length)
  then have "?hi OR ?lo = ?hi + ?lo" by (simp add: disjunctive_add_eq_or)
  moreover have "unat ?hi = unat row * 2 ^ 32"
    using r by (simp add: push_bit_eq_mult unat_word_ariths unsigned_ucast_eq take_bit_eq_mod)
  moreover have "unat ?lo = unat column" using c by (simp add: unsigned_ucast_eq take_bit_eq_mod)
  ultimately show ?thesis using r c by (simp add: unat_word_ariths)
qed

lemma pack_cmp:
  fixes r c r' c' :: u32
  shows "cmp (push_bit 32 (ucast r :: u64) OR ucast c) (push_bit 32 (ucast r' :: u64) OR ucast c')
    = then_with (cmp r r') (cmp c c')"
proof -
  have c: "unat c < 2 ^ 32" "unat c' < 2 ^ 32" using unsigned_less [of c] unsigned_less [of c'] by auto
  have less: "a * 2 ^ 32 + b < a' * 2 ^ 32 + b' \<longleftrightarrow> a < a' \<or> a = a' \<and> b < b'"
    if "b < 2 ^ 32" "b' < 2 ^ 32" for a b a' b' :: nat using that by auto
  have "unat r * 2 ^ 32 + unat c = unat r' * 2 ^ 32 + unat c' \<longleftrightarrow> unat r = unat r' \<and> unat c = unat c'"
    using less [OF c, of "unat r" "unat r'"] less [OF c(2,1), of "unat r'" "unat r"] by (metis nat_neq_iff)
  with less [OF c] show ?thesis
    unfolding cmp_def word_less_nat_alt word_unat_eq_iff unat_pack by auto
qed

section \<open>Positions as an interface\<close>

text \<open>
  What points and UTF-16 points share: a row and a column that determine the position, and
  the addition and subtraction of extents.
\<close>

locale text_position =
  fixes mk :: "u32 \<Rightarrow> u32 \<Rightarrow> 'p" and row column :: "'p \<Rightarrow> u32"
    and add sub :: "'p \<Rightarrow> 'p \<Rightarrow> 'p" and compare :: "'p \<Rightarrow> 'p \<Rightarrow> ordering"
  assumes row_mk [simp]: "row (mk r c) = r" and column_mk [simp]: "column (mk r c) = c"
    and mk_row_column [simp]: "mk (row p) (column p) = p"
    and add_eq: "add p q = (if row q = 0 then mk (row p) (column p + column q) else mk (row p + row q) (column q))"
    and sub_eq: "sub p q = (if row p = row q then mk 0 (column p - column q) else mk (row p - row q) (column p))"
    and compare_eq: "compare p q = then_with (cmp (row p) (row q)) (cmp (column p) (column q))"
begin

lemma position_eqI: "row p = row q \<Longrightarrow> column p = column q \<Longrightarrow> p = q"
  by (metis mk_row_column)

lemma compare_order:
  "compare p q = Equal \<longleftrightarrow> p = q" "compare p q = Greater \<longleftrightarrow> compare q p = Less"
  "compare p q = Less \<longleftrightarrow> row p < row q \<or> row p = row q \<and> column p < column q"
  by (auto simp: compare_eq cmp_def split: if_splits intro: position_eqI)

lemma add_zero: "add p (mk 0 0) = p" "add (mk 0 0) p = p"
  by (auto simp: add_eq intro: position_eqI)

lemma add_sub_cancel: "compare q p \<noteq> Greater \<Longrightarrow> add q (sub p q) = p"
  by (auto simp: add_eq sub_eq compare_eq cmp_def split: if_splits intro: position_eqI)

text \<open>No row overflow: the rows of the two extents add up to less than \<open>2 ^ 32\<close>.\<close>

lemma no_wrap: "unat (a::u32) + unat b < 2 ^ 32 \<Longrightarrow> unat (a + b) = unat a + unat b"
  by (simp add: unat_word_ariths)

lemma sub_add_cancel: "unat (row p) + unat (row q) < 2 ^ 32 \<Longrightarrow> sub (add p q) p = q"
  by (auto simp: add_eq sub_eq intro: position_eqI)

lemma add_assoc_position:
  assumes "unat (row q) + unat (row r) < 2 ^ 32"
  shows "add (add p q) r = add p (add q r)"
proof -
  have "row q + row r = 0 \<Longrightarrow> row q = 0 \<and> row r = 0"
    using no_wrap [OF assms] by (metis add_eq_0_iff_both_eq_0 unat_0 unat_eq_zero)
  then show ?thesis by (auto simp: add_eq add.assoc)
qed

lemma add_mono:
  assumes "compare q r = Less" "unat (row p) + unat (row r) < 2 ^ 32" "unat (column p) + unat (column r) < 2 ^ 32"
  shows "compare (add p q) (add p r) = Less"
proof -
  have r: "row q \<le> row r" using assms(1) by (auto simp: compare_order(3))
  have le: "unat (row q) \<le> unat (row r)" using r by (simp add: word_le_nat_alt)
  have rows: "unat (row p + row q) = unat (row p) + unat (row q)" "unat (row p + row r) = unat (row p) + unat (row r)"
    using assms(2) le by (auto intro!: no_wrap)
  have cols: "unat (column p + column r) = unat (column p) + unat (column r)" using assms(3) by (rule no_wrap)
  have colq: "unat (column p + column q) = unat (column p) + unat (column q)" if "column q < column r"
    using that assms(3) by (intro no_wrap) (simp add: word_less_nat_alt)
  show ?thesis
    using assms(1) rows cols colq le unsigned_eq_0_iff [of "row r"] unsigned_eq_0_iff [of "row q"]
    by (auto simp: compare_order(3) add_eq word_less_nat_alt word_unat_eq_iff)
qed

end

interpretation pt: text_position Point pt_row pt_column point_add point_sub point_cmp
  by unfold_locales (simp_all add: point_add_def point_sub_def point_cmp_def Let_def pack_cmp)

interpretation pt16: text_position PointUtf16 pt16_row pt16_column point_utf16_add point_utf16_sub point_utf16_cmp
  by unfold_locales
    (simp_all add: point_utf16_add_def point_utf16_sub_def point_utf16_cmp_def Let_def pack_cmp)

instantiation point :: linorder
begin

definition less_eq_point :: "point \<Rightarrow> point \<Rightarrow> bool" where
  "less_eq_point a b \<longleftrightarrow> point_cmp a b \<noteq> Greater"

definition less_point :: "point \<Rightarrow> point \<Rightarrow> bool" where
  "less_point a b \<longleftrightarrow> point_cmp a b = Less"

instance
  by standard
    (auto simp: less_eq_point_def less_point_def pt.compare_eq cmp_def split: if_splits intro: pt.position_eqI)

end

instantiation point_utf16 :: linorder
begin

definition less_eq_point_utf16 :: "point_utf16 \<Rightarrow> point_utf16 \<Rightarrow> bool" where
  "less_eq_point_utf16 a b \<longleftrightarrow> point_utf16_cmp a b \<noteq> Greater"

definition less_point_utf16 :: "point_utf16 \<Rightarrow> point_utf16 \<Rightarrow> bool" where
  "less_point_utf16 a b \<longleftrightarrow> point_utf16_cmp a b = Less"

instance
  by standard
    (auto simp: less_eq_point_utf16_def less_point_utf16_def pt16.compare_eq cmp_def split: if_splits
       intro: pt16.position_eqI)

end

instantiation offset_utf16 :: linorder
begin

definition less_eq_offset_utf16 :: "offset_utf16 \<Rightarrow> offset_utf16 \<Rightarrow> bool" where
  "less_eq_offset_utf16 a b \<longleftrightarrow> offset_value a \<le> offset_value b"

definition less_offset_utf16 :: "offset_utf16 \<Rightarrow> offset_utf16 \<Rightarrow> bool" where
  "less_offset_utf16 a b \<longleftrightarrow> offset_value a < offset_value b"

instance
  by standard (auto simp: less_eq_offset_utf16_def less_offset_utf16_def intro: offset_utf16.expand)

end

section \<open>Properties\<close>

text \<open>
  C39: comparing points through their packed 64-bit image is the lexicographic comparison of
  rows and columns, for byte points and for UTF-16 points.
\<close>

theorem point_cmp_lexicographic:
  "point_cmp (Point r c) (Point r' c') = then_with (cmp (unat r) (unat r')) (cmp (unat c) (unat c'))
   \<and> point_utf16_cmp (PointUtf16 r c) (PointUtf16 r' c') = then_with (cmp (unat r) (unat r')) (cmp (unat c) (unat c'))"
  by (simp add: pt.compare_eq pt16.compare_eq) (simp add: cmp_def word_less_nat_alt word_unat_eq_iff)

text \<open>
  Extents. Adding back the difference of two ordered points gives the later one;
  subtracting the start from a sum whose rows do not overflow gives the extent; adding
  extents is associative there, and \<open>saturating_sub\<close> is zero below and the difference above.
\<close>

theorem point_extent_arithmetic:
  assumes "q \<le> p" "unat (pt_row a) + unat (pt_row b) < 2 ^ 32"
  shows "point_add q (point_sub p q) = p \<and> point_sub (point_add a b) a = b
    \<and> point_add (point_add p a) b = point_add p (point_add a b)
    \<and> point_saturating_sub p q = point_sub p q \<and> (q \<noteq> p \<longrightarrow> point_saturating_sub q p = point_zero)"
proof -
  have "point_cmp q p \<noteq> Greater" using assms(1) by (simp add: less_eq_point_def)
  moreover have "point_cmp p q \<noteq> Less" "q \<noteq> p \<Longrightarrow> point_cmp q p = Less"
    using assms(1) by (auto simp: less_point_def [symmetric])
  ultimately show ?thesis
    using pt.add_sub_cancel [of q p] pt.sub_add_cancel [OF assms(2)] pt.add_assoc_position [OF assms(2)]
    by (simp add: point_saturating_sub_def)
qed

theorem point_extent_arithmetic_witness:
  "point_add (Point 1 4) (point_sub (Point 3 2) (Point 1 4)) = Point 3 2
    \<and> point_saturating_sub (Point 1 4) (Point 3 2) = point_zero"
proof -
  have "Point 1 4 \<le> Point 3 2" by (simp add: less_eq_point_def pt.compare_eq cmp_def)
  from point_extent_arithmetic [OF this, of "Point 0 0" "Point 0 0"] show ?thesis by simp
qed

end
