(* ===== verification/TextSummary.thy ===== *)
theory TextSummary
  imports Points
begin

text \<open>
  Summaries of text (\<open>TextSummary\<close> of \<open>crates/rope/src/rope.rs\<close>): lengths in bytes, characters
  and UTF-16 units, the position after the text, and the longest row. They are computed from
  a string in one pass, and the summaries of two strings add up to that of their
  concatenation. Rows, columns and line lengths are \<open>u32\<close>.
\<close>

section \<open>Definitions\<close>

record text_summary =
  ts_len :: nat
  ts_chars :: nat
  ts_len_utf16 :: offset_utf16
  ts_lines :: point
  ts_first_line_chars :: u32
  ts_last_line_chars :: u32
  ts_last_line_len_utf16 :: u32
  ts_longest_row :: u32
  ts_longest_row_chars :: u32

definition text_summary_zero :: text_summary where
  "text_summary_zero = \<lparr>ts_len = 0, ts_chars = 0, ts_len_utf16 = OffsetUtf16 0, ts_lines = Point 0 0,
     ts_first_line_chars = 0, ts_last_line_chars = 0, ts_last_line_len_utf16 = 0,
     ts_longest_row = 0, ts_longest_row_chars = 0\<rparr>"

definition lines_utf16 :: "text_summary \<Rightarrow> point_utf16" where
  "lines_utf16 self = PointUtf16 (pt_row (ts_lines self)) (ts_last_line_len_utf16 self)"

definition text_summary_newline :: text_summary where
  "text_summary_newline = \<lparr>ts_len = 1, ts_chars = 1, ts_len_utf16 = OffsetUtf16 1, ts_lines = Point 1 0,
     ts_first_line_chars = 0, ts_last_line_chars = 0, ts_last_line_len_utf16 = 0,
     ts_longest_row = 0, ts_longest_row_chars = 0\<rparr>"

definition add_newline :: "text_summary \<Rightarrow> text_summary" where
  "add_newline self = self\<lparr>ts_len := ts_len self + 1,
     ts_len_utf16 := offset_utf16_add (ts_len_utf16 self) (OffsetUtf16 (offset_value (ts_len_utf16 self) + 1)),
     ts_last_line_chars := 0, ts_last_line_len_utf16 := 0,
     ts_lines := point_add (ts_lines self) (Point 1 0)\<rparr>"

text \<open>
  The loop of \<open>TextSummary::from\<close>; its local variables are the fields of a summary whose
  length is filled in at the end.
\<close>

definition summary_char :: "text_summary \<Rightarrow> rchar \<Rightarrow> text_summary" where
  "summary_char s c =
     (let s = s\<lparr>ts_chars := ts_chars s + 1,
                ts_len_utf16 := OffsetUtf16 (offset_value (ts_len_utf16 s) + len_utf16 c)\<rparr>;
          s = (if c = newline
               then s\<lparr>ts_lines := point_add (ts_lines s) (Point 1 0), ts_last_line_len_utf16 := 0, ts_last_line_chars := 0\<rparr>
               else s\<lparr>ts_lines := Point (pt_row (ts_lines s)) (pt_column (ts_lines s) + of_nat (len_utf8 c)),
                      ts_last_line_len_utf16 := ts_last_line_len_utf16 s + of_nat (len_utf16 c),
                      ts_last_line_chars := ts_last_line_chars s + 1\<rparr>);
          s = (if pt_row (ts_lines s) = 0 then s\<lparr>ts_first_line_chars := ts_last_line_chars s\<rparr> else s)
      in if ts_last_line_chars s > ts_longest_row_chars s
         then s\<lparr>ts_longest_row := pt_row (ts_lines s), ts_longest_row_chars := ts_last_line_chars s\<rparr> else s)"

definition text_summary_from :: "rstr \<Rightarrow> text_summary" where
  "text_summary_from text = (foldl summary_char text_summary_zero text)\<lparr>ts_len := str_len text\<rparr>"

definition text_summary_add :: "text_summary \<Rightarrow> text_summary \<Rightarrow> text_summary" where
  "text_summary_add self other =
     (let joined_chars = ts_last_line_chars self + ts_first_line_chars other;
          self = (if joined_chars > ts_longest_row_chars self
                  then self\<lparr>ts_longest_row := pt_row (ts_lines self), ts_longest_row_chars := joined_chars\<rparr> else self);
          self = (if ts_longest_row_chars other > ts_longest_row_chars self
                  then self\<lparr>ts_longest_row := pt_row (ts_lines self) + ts_longest_row other,
                            ts_longest_row_chars := ts_longest_row_chars other\<rparr> else self);
          self = (if pt_row (ts_lines self) = 0
                  then self\<lparr>ts_first_line_chars := ts_first_line_chars self + ts_first_line_chars other\<rparr> else self);
          self = (if pt_row (ts_lines other) = 0
                  then self\<lparr>ts_last_line_chars := ts_last_line_chars self + ts_first_line_chars other,
                            ts_last_line_len_utf16 := ts_last_line_len_utf16 self + ts_last_line_len_utf16 other\<rparr>
                  else self\<lparr>ts_last_line_chars := ts_last_line_chars other,
                            ts_last_line_len_utf16 := ts_last_line_len_utf16 other\<rparr>)
      in self\<lparr>ts_chars := ts_chars self + ts_chars other, ts_len := ts_len self + ts_len other,
              ts_len_utf16 := offset_utf16_add (ts_len_utf16 self) (ts_len_utf16 other),
              ts_lines := point_add (ts_lines self) (ts_lines other)\<rparr>)"

section \<open>Specification by lines\<close>

text \<open>The first longest line: its index and its length in characters.\<close>

fun longest_from :: "nat \<Rightarrow> nat \<times> nat \<Rightarrow> rstr list \<Rightarrow> nat \<times> nat" where
  "longest_from k best [] = best"
| "longest_from k best (l # ls) =
     longest_from (Suc k) (if length l > snd best then (k, length l) else best) ls"

definition str_len_utf16 :: "rstr \<Rightarrow> nat" where
  "str_len_utf16 s = sum_list (map len_utf16 s)"

definition summary_spec :: "rstr \<Rightarrow> text_summary" where
  "summary_spec s =
     (let ls = split_lines s; best = longest_from 0 (0, 0) ls
      in \<lparr>ts_len = str_len s, ts_chars = length s, ts_len_utf16 = OffsetUtf16 (str_len_utf16 s),
          ts_lines = Point (of_nat (length ls - 1)) (of_nat (str_len (last ls))),
          ts_first_line_chars = of_nat (length (hd ls)), ts_last_line_chars = of_nat (length (last ls)),
          ts_last_line_len_utf16 = of_nat (str_len_utf16 (last ls)),
          ts_longest_row = of_nat (fst best), ts_longest_row_chars = of_nat (snd best)\<rparr>)"

lemma str_len_simps [simp]: "str_len [] = 0" "str_len (c # s) = len_utf8 c + str_len s" "str_len (s @ t) = str_len s + str_len t"
  by (simp_all add: str_len_def)

lemma str_len_utf16_simps [simp]: "str_len_utf16 [] = 0" "str_len_utf16 (c # s) = len_utf16 c + str_len_utf16 s"
  "str_len_utf16 (s @ t) = str_len_utf16 s + str_len_utf16 t"
  by (simp_all add: str_len_utf16_def)

lemma len_utf8_bounds: "1 \<le> len_utf8 c" "len_utf16 c \<le> len_utf8 c" "1 \<le> len_utf16 c"
  by (simp_all add: len_utf8_def len_utf16_def)

lemma length_le_str_len: "length s \<le> str_len s"
proof (induction s)
  case (Cons c s)
  then show ?case using len_utf8_bounds(1) [of c] by simp
qed simp

lemma split_lines_not_Nil [simp]: "split_lines s \<noteq> []"
  by (cases s) (auto split: list.splits)

lemma split_lines_snoc:
  "split_lines (s @ [c]) = (if c = newline then split_lines s @ [[]]
     else butlast (split_lines s) @ [last (split_lines s) @ [c]])"
proof (induction s)
  case (Cons d s)
  then show ?case by (cases "split_lines s") (auto split: list.splits)
qed simp

lemma split_lines_append:
  "split_lines (s @ t) = butlast (split_lines s) @ [last (split_lines s) @ hd (split_lines t)] @ tl (split_lines t)"
proof (induction s)
  case Nil
  then show ?case by simp
next
  case (Cons d s)
  then show ?case by (cases "split_lines s") (auto split: list.splits)
qed

lemma split_lines_sizes:
  "length (split_lines s) \<le> Suc (length s)" "l \<in> set (split_lines s) \<Longrightarrow> length l \<le> length s"
  "l \<in> set (split_lines s) \<Longrightarrow> str_len l \<le> str_len s" "l \<in> set (split_lines s) \<Longrightarrow> str_len_utf16 l \<le> str_len_utf16 s"
proof -
  show "length (split_lines s) \<le> Suc (length s)"
    by (induction s) (auto split: list.splits)
  have "\<forall>l \<in> set (split_lines s). length l \<le> length s \<and> str_len l \<le> str_len s \<and> str_len_utf16 l \<le> str_len_utf16 s"
  proof (induction s)
    case (Cons c s)
    then show ?case by (cases "split_lines s") (auto simp: le_SucI trans_le_add2)
  qed simp
  then show "l \<in> set (split_lines s) \<Longrightarrow> length l \<le> length s"
    "l \<in> set (split_lines s) \<Longrightarrow> str_len l \<le> str_len s" "l \<in> set (split_lines s) \<Longrightarrow> str_len_utf16 l \<le> str_len_utf16 s" by auto
qed

lemma longest_from_append:
  "longest_from k best (xs @ ys) = longest_from (k + length xs) (longest_from k best xs) ys"
  by (induction xs arbitrary: k best) auto

lemma longest_from_best:
  "longest_from k best ls = (let b = longest_from 0 (0, 0) ls in if snd b > snd best then (k + fst b, snd b) else best)"
proof (induction ls arbitrary: k best rule: rev_induct)
  case (snoc l ls)
  show ?case unfolding longest_from_append snoc.IH [of k best] by (auto simp: Let_def)
qed simp

lemma longest_from_bounds:
  "fst (longest_from 0 (0, 0) ls) < max 1 (length ls)" "\<forall>l \<in> set ls. length l \<le> b \<Longrightarrow> snd (longest_from 0 (0, 0) ls) \<le> b"
  by (induction ls rule: rev_induct) (auto simp: longest_from_append)

lemma longest_from_ge: "l \<in> set ls \<Longrightarrow> length l \<le> snd (longest_from 0 (0, 0) ls)"
  by (induction ls rule: rev_induct) (auto simp: longest_from_append)

lemma longest_spec_bounds:
  "fst (longest_from 0 (0, 0) (split_lines s)) \<le> length s" "snd (longest_from 0 (0, 0) (split_lines s)) \<le> length s"
  using longest_from_bounds(1) [of "split_lines s"] split_lines_sizes(1) [of s]
    longest_from_bounds(2) [of "split_lines s" "length s"] split_lines_sizes(2) [of _ s] by auto

lemma of_nat_u32 [simp]:
  "n < 2 ^ 32 \<Longrightarrow> unat (of_nat n :: u32) = n"
  "m < 2 ^ 32 \<Longrightarrow> n < 2 ^ 32 \<Longrightarrow> (of_nat m :: u32) < of_nat n \<longleftrightarrow> m < n"
  "n < 2 ^ 32 \<Longrightarrow> (of_nat n :: u32) = 0 \<longleftrightarrow> n = 0"
proof -
  show u: "n < 2 ^ 32 \<Longrightarrow> unat (of_nat n :: u32) = n" for n
    by (simp only: unsigned_of_nat) (simp add: take_bit_nat_eq_self)
  show "m < 2 ^ 32 \<Longrightarrow> n < 2 ^ 32 \<Longrightarrow> (of_nat m :: u32) < of_nat n \<longleftrightarrow> m < n"
    by (simp add: word_less_nat_alt u)
  show "n < 2 ^ 32 \<Longrightarrow> (of_nat n :: u32) = 0 \<longleftrightarrow> n = 0" 
    by (simp only: word_unat_eq_iff u unsigned_0)
qed

lemma summary_spec_lines:
  assumes "split_lines s = xs @ [x]" "b = longest_from 0 (0, 0) xs"
  shows "summary_spec s = \<lparr>ts_len = str_len s, ts_chars = length s, ts_len_utf16 = OffsetUtf16 (str_len_utf16 s),
      ts_lines = Point (of_nat (length xs)) (of_nat (str_len x)),
      ts_first_line_chars = of_nat (if xs = [] then length x else length (hd xs)), ts_last_line_chars = of_nat (length x),
      ts_last_line_len_utf16 = of_nat (str_len_utf16 x),
      ts_longest_row = of_nat (if length x > snd b then length xs else fst b),
      ts_longest_row_chars = of_nat (if length x > snd b then length x else snd b)\<rparr>"
  by (simp add: summary_spec_def longest_from_append assms Let_def hd_append)

text \<open>The loop computes the specification as long as the number of characters fits \<open>u32\<close>.\<close>

lemma summary_loop_spec:
  "length s < 2 ^ 32 \<Longrightarrow> foldl summary_char text_summary_zero s = (summary_spec s)\<lparr>ts_len := 0\<rparr>"
proof (induction s rule: rev_induct)
  case Nil
  then show ?case by (simp add: summary_spec_def text_summary_zero_def Let_def)
next
  case (snoc c s)
  obtain xs x where ls: "split_lines s = xs @ [x]" by (metis split_lines_not_Nil rev_exhaust)
  define b where "b = longest_from 0 (0, 0) xs"
  have b: "fst b \<le> length s" "snd b \<le> length s" "length xs \<le> length s" "length x \<le> length s"
    using longest_from_bounds(1) [of xs] split_lines_sizes(1) [of s] longest_from_bounds(2) [of xs "length s"]
      split_lines_sizes(2) [of _ s] unfolding b_def ls by auto
  have bounds: "length x < 2 ^ 32" "Suc (length x) < 2 ^ 32" "length xs < 2 ^ 32" "Suc (length xs) < 2 ^ 32" "snd b < 2 ^ 32"
    using b snoc.prems by simp_all
  have step: "foldl summary_char text_summary_zero (s @ [c]) = summary_char ((summary_spec s)\<lparr>ts_len := 0\<rparr>) c"
    using snoc by simp
  have suc: "of_nat n + (1::u32) = of_nat (Suc n)" for n by simp
  note spec = summary_spec_lines [OF ls b_def]
  show ?case
  proof (cases "c = newline")
    case True
    have "split_lines (s @ [c]) = (xs @ [x]) @ [[]]" using True by (simp add: split_lines_snoc ls)
    from summary_spec_lines [OF this refl] True bounds show ?thesis unfolding step spec
      by (simp add: summary_char_def longest_from_append b_def [symmetric]
          point_add_def Let_def len_utf16_def newline_def suc hd_append del: of_nat_Suc)
  next
    case False
    have "split_lines (s @ [c]) = xs @ [x @ [c]]" using False by (simp add: split_lines_snoc ls)
    from summary_spec_lines [OF this b_def] False bounds show ?thesis unfolding step spec
      by (simp add: summary_char_def Let_def suc del: of_nat_Suc)
  qed
qed

section \<open>Addition\<close>

lemma longest_join:
  "longest_from 0 (0, 0) (xs @ [x @ z] @ zs) =
     (let b = longest_from 0 (0, 0) (xs @ [x]); d = longest_from 0 (0, 0) (z # zs);
          b = (if length x + length z > snd b then (length xs, length x + length z) else b)
      in if snd d > snd b then (length xs + fst d, snd d) else b)"
proof -
  define b where "b = longest_from 0 (0, 0) xs"
  define e where "e = longest_from 0 (0, 0) zs"
  have rest: "longest_from k c zs = (if snd e > snd c then (k + fst e, snd e) else c)" for k c
    using longest_from_best [of k c zs] by (simp add: e_def Let_def)
  show ?thesis
    by (simp add: longest_from_append b_def [symmetric] rest Let_def)
qed

lemma text_summary_add_simps [simp]:
  "ts_len (text_summary_add a b) = ts_len a + ts_len b"
  "ts_chars (text_summary_add a b) = ts_chars a + ts_chars b"
  "ts_len_utf16 (text_summary_add a b) = offset_utf16_add (ts_len_utf16 a) (ts_len_utf16 b)"
  "ts_lines (text_summary_add a b) = point_add (ts_lines a) (ts_lines b)"
  "ts_first_line_chars (text_summary_add a b) =
     (if pt_row (ts_lines a) = 0 then ts_first_line_chars a + ts_first_line_chars b else ts_first_line_chars a)"
  "ts_last_line_chars (text_summary_add a b) =
     (if pt_row (ts_lines b) = 0 then ts_last_line_chars a + ts_first_line_chars b else ts_last_line_chars b)"
  "ts_last_line_len_utf16 (text_summary_add a b) =
     (if pt_row (ts_lines b) = 0 then ts_last_line_len_utf16 a + ts_last_line_len_utf16 b else ts_last_line_len_utf16 b)"
  "text_summary.more (text_summary_add a b) = text_summary.more a"
  by (simp_all add: text_summary_add_def Let_def)

lemma text_summary_add_longest:
  "(ts_longest_row (text_summary_add a b), ts_longest_row_chars (text_summary_add a b)) =
     (let joined = ts_last_line_chars a + ts_first_line_chars b;
          best = (if joined > ts_longest_row_chars a then (pt_row (ts_lines a), joined) else (ts_longest_row a, ts_longest_row_chars a))
      in if ts_longest_row_chars b > snd best then (pt_row (ts_lines a) + ts_longest_row b, ts_longest_row_chars b) else best)"
  by (simp add: text_summary_add_def Let_def)

lemma summary_add_spec:
  assumes "length s + length t < 2 ^ 32"
  shows "text_summary_add (summary_spec s) (summary_spec t) = summary_spec (s @ t)"
proof -
  obtain xs x where s: "split_lines s = xs @ [x]" by (metis split_lines_not_Nil rev_exhaust)
  obtain z zs where t: "split_lines t = z # zs" by (meson split_lines_not_Nil list.exhaust)
  have st: "split_lines (s @ t) = xs @ [x @ z] @ zs" by (simp add: split_lines_append s t)
  define b where "b = longest_from 0 (0, 0) (xs @ [x])"
  define d where "d = longest_from 0 (0, 0) (z # zs)"
  have sz: "length x \<le> length s" "length xs \<le> length s" "snd b \<le> length s" "length z \<le> length t" "length zs \<le> length t"
    "snd d \<le> length t"
    using split_lines_sizes(1) [of s] split_lines_sizes(1) [of t] split_lines_sizes(2) [of x s] split_lines_sizes(2) [of z t]
      longest_spec_bounds(2) [of s] longest_spec_bounds(2) [of t]
    by (auto simp: s t b_def d_def)
  have bounds: "length x + length z < 2 ^ 32" "length x < 2 ^ 32" "length xs < 2 ^ 32" "snd b < 2 ^ 32" "length z < 2 ^ 32" "length zs < 2 ^ 32"
    "snd d < 2 ^ 32"
    using sz assms by linarith+
  have add: "of_nat m + of_nat n = (of_nat (m + n) :: u32)" for m n by simp
  have A: "summary_spec s = \<lparr>ts_len = str_len s, ts_chars = length s, ts_len_utf16 = OffsetUtf16 (str_len_utf16 s),
      ts_lines = Point (of_nat (length xs)) (of_nat (str_len x)),
      ts_first_line_chars = of_nat (length (hd (xs @ [x]))), ts_last_line_chars = of_nat (length x),
      ts_last_line_len_utf16 = of_nat (str_len_utf16 x),
      ts_longest_row = of_nat (fst b), ts_longest_row_chars = of_nat (snd b)\<rparr>"
    by (simp add: summary_spec_def s Let_def b_def)
  have B: "summary_spec t = \<lparr>ts_len = str_len t, ts_chars = length t, ts_len_utf16 = OffsetUtf16 (str_len_utf16 t),
      ts_lines = Point (of_nat (length zs)) (of_nat (str_len (last (z # zs)))),
      ts_first_line_chars = of_nat (length z), ts_last_line_chars = of_nat (length (last (z # zs))),
      ts_last_line_len_utf16 = of_nat (str_len_utf16 (last (z # zs))),
      ts_longest_row = of_nat (fst d), ts_longest_row_chars = of_nat (snd d)\<rparr>"
    by (simp add: summary_spec_def t Let_def d_def del: last.simps)
  have C: "longest_from 0 (0, 0) (split_lines (s @ t)) =
     (let b = (if length x + length z > snd b then (length xs, length x + length z) else b)
      in if snd d > snd b then (length xs + fst d, snd d) else b)"
    unfolding st longest_join by (simp add: b_def d_def Let_def)
  have L: "(ts_longest_row (text_summary_add (summary_spec s) (summary_spec t)), ts_longest_row_chars (text_summary_add (summary_spec s) (summary_spec t)))
      = (ts_longest_row (summary_spec (s @ t)), ts_longest_row_chars (summary_spec (s @ t)))"
    unfolding text_summary_add_longest A B summary_spec_def [of "s @ t"] C Let_def using bounds
    by (simp add: add del: of_nat_add)
  show ?thesis
  proof (rule text_summary.equality)
    show "ts_first_line_chars (text_summary_add (summary_spec s) (summary_spec t)) = ts_first_line_chars (summary_spec (s @ t))"
      using bounds by (simp add: A B summary_spec_def Let_def st s t hd_append)
    have row: "(of_nat (length zs) :: u32) = 0 \<longleftrightarrow> zs = []" using bounds(6) by simp
    show "ts_lines (text_summary_add (summary_spec s) (summary_spec t)) = ts_lines (summary_spec (s @ t))"
      by (cases zs rule: rev_cases) (use row in \<open>simp_all add: A B summary_spec_def Let_def st s t point_add_def\<close>)
    show "ts_last_line_chars (text_summary_add (summary_spec s) (summary_spec t)) = ts_last_line_chars (summary_spec (s @ t))"
      "ts_last_line_len_utf16 (text_summary_add (summary_spec s) (summary_spec t)) = ts_last_line_len_utf16 (summary_spec (s @ t))"
      by (cases zs rule: rev_cases; use row in \<open>simp add: A B summary_spec_def Let_def st s t\<close>)+
  qed (use L in \<open>simp_all add: summary_spec_def Let_def offset_utf16_add_def\<close>)
qed

lemma text_summary_from_spec: "length s < 2 ^ 32 \<Longrightarrow> text_summary_from s = summary_spec s"
  by (simp add: text_summary_from_def summary_loop_spec) (simp add: summary_spec_def Let_def)

lemma point_parse_str_spec:
  "point_parse_str s = Point (of_nat (length (split_lines s) - 1)) (of_nat (str_len (last (split_lines s))))"
proof -
  obtain xs x where "split_lines s = xs @ [x]" by (metis split_lines_not_Nil rev_exhaust)
  then show ?thesis by (simp add: point_parse_str_def enumerate_append_eq)
qed

section \<open>Properties\<close>

text \<open>
  The one-pass loop of \<open>TextSummary::from\<close> agrees with the line-by-line description of a
  text with fewer than \<open>2 ^ 32\<close> characters: bytes, characters, UTF-16 units, the end point (which
  is what \<open>Point::parse_str\<close> computes), the sizes of the first and last line, and the first
  of the longest lines.
\<close>

theorem text_summary_from_describes:
  assumes "length s < 2 ^ 32"
  shows "text_summary_from s = summary_spec s \<and> ts_lines (text_summary_from s) = point_parse_str s
    \<and> unat (pt_row (ts_lines (text_summary_from s))) = length (filter (\<lambda>c. c = newline) s)
    \<and> unat (ts_longest_row_chars (text_summary_from s)) = Max (length ` set (split_lines s))"
proof -
  have rows: "length (split_lines s) = Suc (length (filter (\<lambda>c. c = newline) s))"
    by (induction s) (auto split: list.splits)
  have "length (filter (\<lambda>c. c = newline) s) < 2 ^ 32" using assms by (meson le_less_trans length_filter_le)
  moreover have "snd (longest_from 0 (0, 0) (split_lines s)) = Max (length ` set (split_lines s))"
  proof (rule antisym)
    show "snd (longest_from 0 (0, 0) (split_lines s)) \<le> Max (length ` set (split_lines s))"
      by (rule longest_from_bounds(2)) simp
    show "Max (length ` set (split_lines s)) \<le> snd (longest_from 0 (0, 0) (split_lines s))"
      using longest_from_ge by (simp add: Max_le_iff)
  qed
  moreover have "snd (longest_from 0 (0, 0) (split_lines s)) < 2 ^ 32"
    using longest_spec_bounds(2) [of s] assms by (rule le_less_trans)
  ultimately show ?thesis
    using rows by (simp add: text_summary_from_spec [OF assms] point_parse_str_spec summary_spec_def Let_def)
qed

theorem text_summary_from_describes_witness:
  "ts_longest_row_chars (text_summary_from [97, newline, 98, 233, 99]) = 3
    \<and> ts_lines (text_summary_from [97, newline, 98, 233, 99]) = Point 1 4"
  using text_summary_from_describes [of "[97, newline, 98, 233, 99]"]
  by (simp add: summary_spec_def Let_def newline_def len_utf8_def)

text \<open>
  C26: summaries compose. The summary of a concatenation of at most \<open>2 ^ 32 - 1\<close> characters is
  the sum of the summaries; addition is associative on summaries of such texts, with the
  empty summary as its unit.
\<close>

theorem text_summary_append:
  assumes "length s + length t + length u < 2 ^ 32"
  shows "text_summary_from (s @ t) = text_summary_add (text_summary_from s) (text_summary_from t)
    \<and> text_summary_add (text_summary_add (text_summary_from s) (text_summary_from t)) (text_summary_from u)
      = text_summary_add (text_summary_from s) (text_summary_add (text_summary_from t) (text_summary_from u))
    \<and> text_summary_add text_summary_zero (text_summary_from s) = text_summary_from s"
proof -
  have "text_summary_zero = summary_spec []" by (simp add: text_summary_zero_def summary_spec_def Let_def)
  then show ?thesis
    using assms summary_add_spec [of s t] summary_add_spec [of t u] summary_add_spec [of "s @ t" u]
      summary_add_spec [of s "t @ u"] summary_add_spec [of "[]" s]
    by (simp add: text_summary_from_spec)
qed

theorem text_summary_append_witness:
  "text_summary_from ([97, newline] @ [98]) = text_summary_add (text_summary_from [97, newline]) (text_summary_from [98])"
  using text_summary_append [of "[97, newline]" "[98]" "[]"] by simp

text \<open>
  \<open>add_newline\<close> does not give the summary of the text followed by a newline: on every
  nonempty text (of fewer than \<open>2 ^ 32\<close> characters) it counts the UTF-16 units twice and
  leaves the number of characters unchanged. Adding the summary \<open>newline()\<close> does give it.
\<close>

theorem add_newline_miscounts:
  assumes "length s + 1 < 2 ^ 32" "s \<noteq> []"
  shows "ts_len_utf16 (add_newline (text_summary_from s)) \<noteq> ts_len_utf16 (text_summary_from (s @ [newline]))
    \<and> ts_chars (add_newline (text_summary_from s)) \<noteq> ts_chars (text_summary_from (s @ [newline]))
    \<and> text_summary_add (text_summary_from s) text_summary_newline = text_summary_from (s @ [newline])"
proof -
  have n: "text_summary_newline = summary_spec [newline]"
    by (simp add: text_summary_newline_def summary_spec_def Let_def len_utf8_def len_utf16_def newline_def)
  have "str_len_utf16 s \<noteq> 0"
    using assms(2) len_utf8_bounds(3) by (cases s) (auto simp: len_utf16_def)
  then show ?thesis
    using assms(1) summary_add_spec [of s "[newline]"] n
    by (simp add: text_summary_from_spec) (simp add: add_newline_def summary_spec_def Let_def offset_utf16_add_def len_utf16_def newline_def)
qed

theorem add_newline_miscounts_witness:
  "ts_len_utf16 (add_newline (text_summary_from [97])) \<noteq> ts_len_utf16 (text_summary_from ([97] @ [newline]))"
  using add_newline_miscounts [of "[97]"] by simp

end
