(* ===== verification/StreamingDiff.thy ===== *)
theory StreamingDiff
  imports Points "HOL-Library.Signed_Division"
begin

text \<open>
  The streaming diff of \<open>crates/streaming_diff\<close>: it compares a known old text with a new text
  that arrives piece by piece, and emits insertions, deletions and kept spans as soon as a
  piece has arrived. Scores are \<open>f64\<close>; the floating-point operations the code calls are
  parameters of the model, and no theorem depends on what they return.
\<close>

section \<open>Floating-point operations\<close>

record 'f float_ops =
  f_lit :: "int \<Rightarrow> nat \<Rightarrow> 'f"
  f_neg_infinity :: 'f
  f_of_usize :: "nat \<Rightarrow> 'f"
  f_add :: "'f \<Rightarrow> 'f \<Rightarrow> 'f"
  f_mul :: "'f \<Rightarrow> 'f \<Rightarrow> 'f"
  f_max :: "'f \<Rightarrow> 'f \<Rightarrow> 'f"
  f_powi :: "'f \<Rightarrow> int \<Rightarrow> 'f"
  f_gt :: "'f \<Rightarrow> 'f \<Rightarrow> bool"
  f_ordered_cmp :: "'f \<Rightarrow> 'f \<Rightarrow> ordering"

text \<open>\<open>f_lit F m k\<close> is the literal \<open>m\<close> divided by \<open>10 ^ k\<close>.\<close>

definition INSERTION_SCORE :: "'f float_ops \<Rightarrow> 'f" where "INSERTION_SCORE F = f_lit F (- 1) 0"
definition DELETION_SCORE :: "'f float_ops \<Rightarrow> 'f" where "DELETION_SCORE F = f_lit F (- 20) 0"
definition EQUALITY_BASE :: "'f float_ops \<Rightarrow> 'f" where "EQUALITY_BASE F = f_lit F 18 1"
definition MAX_EQUALITY_EXPONENT :: int where "MAX_EQUALITY_EXPONENT = 16"

section \<open>The score matrix\<close>

record 'f matrix =
  m_cells :: "'f list"
  m_rows :: nat
  m_cols :: nat

definition matrix_new :: "'f matrix" where
  "matrix_new = \<lparr>m_cells = [], m_rows = 0, m_cols = 0\<rparr>"

definition matrix_resize :: "'f float_ops \<Rightarrow> 'f matrix \<Rightarrow> nat \<Rightarrow> nat \<Rightarrow> 'f matrix" where
  "matrix_resize F self rows cols =
     \<lparr>m_cells = resize (rows * cols) (f_lit F 0 0) (m_cells self), m_rows = rows, m_cols = cols\<rparr>"

text \<open>Columns are contiguous blocks of \<open>rows\<close> cells, swapped cell by cell.\<close>

definition swap_columns :: "'f matrix \<Rightarrow> nat \<Rightarrow> nat \<Rightarrow> 'f matrix rust" where
  "swap_columns self col1 col2 =
     (if col1 = col2 then Some self
      else if col1 \<ge> m_cols self then None
      else if col2 \<ge> m_cols self then None
      else let rows = m_rows self; cells = m_cells self
           in Some (self\<lparr>m_cells := map (\<lambda>k.
                if k div rows = col1 then cells ! (col2 * rows + k mod rows)
                else if k div rows = col2 then cells ! (col1 * rows + k mod rows)
                else cells ! k) [0..<length cells]\<rparr>))"

definition matrix_get :: "'f matrix \<Rightarrow> nat \<Rightarrow> nat \<Rightarrow> 'f rust" where
  "matrix_get self row col =
     (if row \<ge> m_rows self then None
      else if col \<ge> m_cols self then None
      else get_ix (m_cells self) (col * m_rows self + row))"

definition matrix_set :: "'f matrix \<Rightarrow> nat \<Rightarrow> nat \<Rightarrow> 'f \<Rightarrow> 'f matrix rust" where
  "matrix_set self row col value =
     (if row \<ge> m_rows self then None
      else if col \<ge> m_cols self then None
      else if col * m_rows self + row \<ge> length (m_cells self) then None
      else Some (self\<lparr>m_cells := (m_cells self)[col * m_rows self + row := value]\<rparr>))"

section \<open>The differ\<close>

datatype char_operation = InsertText (op_text: rstr) | DeleteBytes nat | KeepBytes nat

record 'f streaming_diff =
  sd_old :: rstr
  sd_new :: rstr
  sd_scores :: "'f matrix"
  sd_old_text_ix :: nat
  sd_new_text_ix :: nat
  sd_equal_runs :: "nat \<times> nat \<rightharpoonup> u32"

definition sd_create :: "'f float_ops \<Rightarrow> rstr \<Rightarrow> 'f streaming_diff rust" where
  "sd_create F old = do {
     let scores = matrix_resize F matrix_new (length old + 1) 1;
     scores \<leftarrow> for_each (\<lambda>i scores. matrix_set scores i 0 (f_mul F (f_of_usize F i) (DELETION_SCORE F)))
       [0..<length old + 1] scores;
     Some \<lparr>sd_old = old, sd_new = [], sd_scores = scores, sd_old_text_ix = 0, sd_new_text_ix = 0,
           sd_equal_runs = (\<lambda>_. None)\<rparr>
   }"

text \<open>One cell of the matrix: the body of the inner loop of \<open>push_new\<close>.\<close>

definition score_cell :: "'f float_ops \<Rightarrow> rstr \<Rightarrow> rstr \<Rightarrow> nat \<Rightarrow> nat \<Rightarrow> nat
    \<Rightarrow> 'f matrix \<times> (nat \<times> nat \<rightharpoonup> u32) \<Rightarrow> ('f matrix \<times> (nat \<times> nat \<rightharpoonup> u32)) rust" where
  "score_cell F old new j relative_j i state = do {
     let (scores, equal_runs) = state;
     left \<leftarrow> matrix_get scores i (relative_j - 1);
     let insertion_score = f_add F left (INSERTION_SCORE F);
     above \<leftarrow> matrix_get scores (i - 1) relative_j;
     let deletion_score = f_add F above (DELETION_SCORE F);
     old_char \<leftarrow> get_ix old (i - 1);
     new_char \<leftarrow> get_ix new (j - 1);
     (equality_score, equal_runs) \<leftarrow>
       (if old_char = new_char then do {
          let equal_run = (case equal_runs (i - 1, j - 1) of Some r \<Rightarrow> r | None \<Rightarrow> 0) + 1;
          let exponent = min (sint equal_run sdiv 4) MAX_EQUALITY_EXPONENT;
          diagonal \<leftarrow> matrix_get scores (i - 1) (relative_j - 1);
          Some (f_add F diagonal (f_powi F (EQUALITY_BASE F) exponent), equal_runs((i, j) \<mapsto> equal_run))
        } else Some (f_neg_infinity F, equal_runs));
     let score = f_max F (f_max F insertion_score deletion_score) equality_score;
     scores \<leftarrow> matrix_set scores i relative_j score;
     Some (scores, equal_runs)
   }"

definition score_column :: "'f float_ops \<Rightarrow> rstr \<Rightarrow> rstr \<Rightarrow> nat \<Rightarrow> nat
    \<Rightarrow> 'f matrix \<times> (nat \<times> nat \<rightharpoonup> u32) \<Rightarrow> ('f matrix \<times> (nat \<times> nat \<rightharpoonup> u32)) rust" where
  "score_column F old new new_text_ix j state = do {
     let (scores, equal_runs) = state;
     let relative_j = j - new_text_ix;
     scores \<leftarrow> matrix_set scores 0 relative_j (f_mul F (f_of_usize F j) (INSERTION_SCORE F));
     for_each (score_cell F old new j relative_j) [1..<length old + 1] (scores, equal_runs)
   }"

text \<open>The candidate predecessors of a cell, and their scores, in the order of \<open>backtrack\<close>.\<close>

definition predecessors :: "'f streaming_diff \<Rightarrow> nat \<Rightarrow> nat \<Rightarrow> (nat \<times> nat) option list rust" where
  "predecessors self i j = do {
     equality \<leftarrow>
       (if i > sd_old_text_ix self \<and> j > sd_new_text_ix self then do {
          old_char \<leftarrow> get_ix (sd_old self) (i - 1);
          new_char \<leftarrow> get_ix (sd_new self) (j - 1);
          Some (if old_char = new_char then Some (i - 1, j - 1) else None)
        } else Some None);
     Some [if j > sd_new_text_ix self then Some (i, j - 1) else None,
           if i > sd_old_text_ix self then Some (i - 1, j) else None,
           equality]
   }"

definition key_cmp :: "'f float_ops \<Rightarrow> 'f option \<times> 'a \<Rightarrow> 'f option \<times> 'a \<Rightarrow> ordering" where
  "key_cmp F x y =
     (case (fst x, fst y) of
        (None, None) \<Rightarrow> Equal | (None, Some _) \<Rightarrow> Less | (Some _, None) \<Rightarrow> Greater
      | (Some a, Some b) \<Rightarrow> f_ordered_cmp F a b)"

definition cell_key :: "'f streaming_diff \<Rightarrow> (nat \<times> nat) option \<Rightarrow> ('f option \<times> (nat \<times> nat) option) rust" where
  "cell_key self cell =
     (case cell of
        None \<Rightarrow> Some (None, None)
      | Some (i, j) \<Rightarrow> do {
          rel \<leftarrow> checked_sub j (sd_new_text_ix self);
          score \<leftarrow> matrix_get (sd_scores self) i rel;
          Some (Some score, cell)
        })"

fun cell_keys :: "'f streaming_diff \<Rightarrow> (nat \<times> nat) option list \<Rightarrow> ('f option \<times> (nat \<times> nat) option) list rust" where
  "cell_keys self [] = Some []"
| "cell_keys self (c # cs) = do { k \<leftarrow> cell_key self c; ks \<leftarrow> cell_keys self cs; Some (k # ks) }"

definition best_predecessor :: "'f float_ops \<Rightarrow> 'f streaming_diff \<Rightarrow> nat \<Rightarrow> nat \<Rightarrow> (nat \<times> nat) rust" where
  "best_predecessor F self i j = do {
     cells \<leftarrow> predecessors self i j;
     keys \<leftarrow> cell_keys self cells;
     (_, cell) \<leftarrow> max_by (key_cmp F) keys;
     cell
   }"

definition push_delete :: "char_operation list \<Rightarrow> nat \<Rightarrow> char_operation list" where
  "push_delete hunks char_len =
     (case last_opt hunks of
        Some (DeleteBytes len) \<Rightarrow> butlast hunks @ [DeleteBytes (len + char_len)]
      | _ \<Rightarrow> hunks @ [DeleteBytes char_len])"

definition push_keep :: "char_operation list \<Rightarrow> nat \<Rightarrow> char_operation list" where
  "push_keep hunks char_len =
     (case last_opt hunks of
        Some (KeepBytes len) \<Rightarrow> butlast hunks @ [KeepBytes (len + char_len)]
      | _ \<Rightarrow> hunks @ [KeepBytes char_len])"

definition flush_pending :: "rstr \<Rightarrow> (nat \<times> nat) option \<Rightarrow> char_operation list \<Rightarrow> char_operation list rust" where
  "flush_pending new pending hunks =
     (case pending of
        None \<Rightarrow> Some hunks
      | Some (a, b) \<Rightarrow> do { text \<leftarrow> slice_range new a b; Some (hunks @ [InsertText text]) })"

text \<open>
  The loop of \<open>backtrack\<close>. Every predecessor lies before the cell, so the loop ends; the
  model has no result where the code would panic.
\<close>

partial_function (option) backtrack_loop :: "'f float_ops \<Rightarrow> 'f streaming_diff \<Rightarrow> (nat \<times> nat) option
    \<Rightarrow> char_operation list \<Rightarrow> nat \<Rightarrow> nat \<Rightarrow> ((nat \<times> nat) option \<times> char_operation list) rust" where
  "backtrack_loop F self pending hunks i j =
     (if (i, j) = (sd_old_text_ix self, sd_new_text_ix self) then Some (pending, hunks)
      else do {
        (prev_i, prev_j) \<leftarrow> best_predecessor F self i j;
        if prev_i = i \<and> prev_j = j - 1
        then backtrack_loop F self (Some (case pending of Some (a, b) \<Rightarrow> (prev_j, b) | None \<Rightarrow> (prev_j, j))) hunks prev_i prev_j
        else do {
          hunks \<leftarrow> flush_pending (sd_new self) pending hunks;
          c \<leftarrow> get_ix (sd_old self) (i - 1);
          backtrack_loop F self None
            (if prev_i = i - 1 \<and> prev_j = j then push_delete hunks (len_utf8 c) else push_keep hunks (len_utf8 c))
            prev_i prev_j
        }
      })"

declare backtrack_loop.simps [code]

definition backtrack :: "'f float_ops \<Rightarrow> 'f streaming_diff \<Rightarrow> nat \<Rightarrow> nat \<Rightarrow> char_operation list rust" where
  "backtrack F self old_text_ix new_text_ix = do {
     (pending, hunks) \<leftarrow> backtrack_loop F self None [] old_text_ix new_text_ix;
     hunks \<leftarrow> flush_pending (sd_new self) pending hunks;
     Some (rev hunks)
   }"

text \<open>The row of the last column from which the next piece continues.\<close>

definition best_row :: "'f float_ops \<Rightarrow> 'f matrix \<Rightarrow> nat \<Rightarrow> nat list \<Rightarrow> 'f \<times> nat \<Rightarrow> ('f \<times> nat) rust" where
  "best_row F scores col = for_each (\<lambda>i (max_score, next_ix). do {
     score \<leftarrow> matrix_get scores i col;
     Some (if f_gt F score max_score then (score, i) else (max_score, next_ix))
   })"

definition push_new :: "'f float_ops \<Rightarrow> 'f streaming_diff \<Rightarrow> rstr \<Rightarrow> (char_operation list \<times> 'f streaming_diff) rust" where
  "push_new F self text = do {
     let new = sd_new self @ text;
     last_col \<leftarrow> checked_sub (m_cols (sd_scores self)) 1;
     scores \<leftarrow> swap_columns (sd_scores self) 0 last_col;
     added \<leftarrow> checked_sub (length new) (sd_new_text_ix self);
     let scores = matrix_resize F scores (length (sd_old self) + 1) (added + 1);
     let equal_runs = (\<lambda>(i, j). if j = sd_new_text_ix self then sd_equal_runs self (i, j) else None);
     (scores, equal_runs) \<leftarrow> for_each (score_column F (sd_old self) new (sd_new_text_ix self))
       [sd_new_text_ix self + 1..<length new + 1] (scores, equal_runs);
     (_, next_old_text_ix) \<leftarrow> best_row F scores added [sd_old_text_ix self..<length (sd_old self) + 1]
       (f_neg_infinity F, sd_old_text_ix self);
     let self = self\<lparr>sd_new := new, sd_scores := scores, sd_equal_runs := equal_runs\<rparr>;
     hunks \<leftarrow> backtrack F self next_old_text_ix (length new);
     Some (hunks, self\<lparr>sd_old_text_ix := next_old_text_ix, sd_new_text_ix := length new\<rparr>)
   }"

definition sd_finish :: "'f float_ops \<Rightarrow> 'f streaming_diff \<Rightarrow> char_operation list rust" where
  "sd_finish F self = backtrack F self (length (sd_old self)) (length (sd_new self))"

section \<open>What operations do to a text\<close>

text \<open>
  \<open>split_bytes n s\<close> cuts off the characters that make up the first \<open>n\<close> bytes, if \<open>n\<close> is a
  character boundary. \<open>apply_ops\<close> returns the new text and what is left of the old one.
\<close>

fun split_bytes :: "nat \<Rightarrow> rstr \<Rightarrow> (rstr \<times> rstr) option" where
  "split_bytes n s =
     (if n = 0 then Some ([], s)
      else case s of
        [] \<Rightarrow> None
      | c # s \<Rightarrow> if len_utf8 c \<le> n then map_option (\<lambda>(a, b). (c # a, b)) (split_bytes (n - len_utf8 c) s) else None)"

declare split_bytes.simps [simp del]

fun apply_ops :: "char_operation list \<Rightarrow> rstr \<Rightarrow> (rstr \<times> rstr) option" where
  "apply_ops [] old = Some ([], old)"
| "apply_ops (InsertText t # ops) old = map_option (\<lambda>(out, rest). (t @ out, rest)) (apply_ops ops old)"
| "apply_ops (DeleteBytes n # ops) old = do { (_, old) \<leftarrow> split_bytes n old; apply_ops ops old }"
| "apply_ops (KeepBytes n # ops) old = do {
     (kept, old) \<leftarrow> split_bytes n old;
     (out, rest) \<leftarrow> apply_ops ops old;
     Some (kept @ out, rest)
   }"

text \<open>A whole session: the pieces in order, then \<open>finish\<close>.\<close>

fun push_all :: "'f float_ops \<Rightarrow> 'f streaming_diff \<Rightarrow> rstr list \<Rightarrow> (char_operation list \<times> 'f streaming_diff) rust" where
  "push_all F self [] = Some ([], self)"
| "push_all F self (t # ts) = do {
     (ops, self) \<leftarrow> push_new F self t;
     (ops', self) \<leftarrow> push_all F self ts;
     Some (ops @ ops', self)
   }"

definition run_session :: "'f float_ops \<Rightarrow> rstr \<Rightarrow> rstr list \<Rightarrow> char_operation list rust" where
  "run_session F old pieces = do {
     self \<leftarrow> sd_create F old;
     (ops, self) \<leftarrow> push_all F self pieces;
     ops' \<leftarrow> sd_finish F self;
     Some (ops @ ops')
   }"

section \<open>Laws of \<open>apply_ops\<close>\<close>

lemma split_bytes_0 [simp]: "split_bytes 0 s = Some ([], s)"
  by (simp add: split_bytes.simps)

lemma split_bytes_char [simp]:
  "split_bytes (len_utf8 c + n) (c # s) = map_option (\<lambda>(a, b). (c # a, b)) (split_bytes n s)"
  "split_bytes (n + len_utf8 c) (c # s) = map_option (\<lambda>(a, b). (c # a, b)) (split_bytes n s)"
  "split_bytes (len_utf8 c) (c # s) = Some ([c], s)"
  by (simp_all add: split_bytes.simps [of _ "c # s"] len_utf8_def)

lemma split_bytes_append:
  "split_bytes n s = Some (a, b) \<Longrightarrow> split_bytes n (s @ t) = Some (a, b @ t)"
proof (induction s arbitrary: n a b)
  case Nil
  then show ?case by (auto simp: split_bytes.simps split: if_splits)
next
  case (Cons c s)
  show ?case
  proof (cases "n = 0")
    case False
    with Cons.prems obtain a' where "len_utf8 c \<le> n" "split_bytes (n - len_utf8 c) s = Some (a', b)" "a = c # a'"
      by (subst (asm) split_bytes.simps) (auto split: if_splits)
    then show ?thesis using Cons.IH False by (subst split_bytes.simps) simp
  qed (use Cons.prems in auto)
qed

lemma apply_ops_frame:
  "apply_ops ops s = Some (out, rest) \<Longrightarrow> apply_ops ops (s @ t) = Some (out, rest @ t)"
proof (induction ops s arbitrary: out rest rule: apply_ops.induct)
  case (3 n ops old)
  then obtain a old' where "split_bytes n old = Some (a, old')" "apply_ops ops old' = Some (out, rest)"
    by (auto split: bind_splits)
  then show ?case using "3.IH" split_bytes_append by fastforce
next
  case (4 n ops old)
  then obtain a old' o' where "split_bytes n old = Some (a, old')" "apply_ops ops old' = Some (o', rest)" "out = a @ o'"
    by (auto split: bind_splits)
  then show ?case using "4.IH" split_bytes_append by fastforce
qed auto

lemma apply_ops_append:
  "apply_ops (ops @ ops') s = do {
     (out, rest) \<leftarrow> apply_ops ops s; (out', rest) \<leftarrow> apply_ops ops' rest; Some (out @ out', rest) }"
  by (induction ops s rule: apply_ops.induct) (auto split: bind_splits option.splits simp: map_option_case)

lemma apply_ops_seq:
  assumes "apply_ops ops s = Some (out, [])" "apply_ops ops' s' = Some (out', rest)"
  shows "apply_ops (ops @ ops') (s @ s') = Some (out @ out', rest)"
  using apply_ops_frame [OF assms(1), of s'] assms(2) by (simp add: apply_ops_append)

lemma apply_push:
  assumes "apply_ops (rev hunks) s = Some (out, rest)"
  shows "apply_ops (rev (push_delete hunks (len_utf8 c))) (c # s) = Some (out, rest)"
    and "apply_ops (rev (push_keep hunks (len_utf8 c))) (c # s) = Some (c # out, rest)"
proof -
  show "apply_ops (rev (push_delete hunks (len_utf8 c))) (c # s) = Some (out, rest)"
  proof (cases hunks rule: rev_cases)
    case (snoc hs h)
    then show ?thesis using assms by (cases h) (auto simp: push_delete_def last_opt_def split: bind_splits)
  qed (use assms in \<open>simp add: push_delete_def last_opt_def\<close>)
  show "apply_ops (rev (push_keep hunks (len_utf8 c))) (c # s) = Some (c # out, rest)"
  proof (cases hunks rule: rev_cases)
    case (snoc hs h)
    then show ?thesis using assms by (cases h) (auto simp: push_keep_def last_opt_def split: bind_splits)
  qed (use assms in \<open>simp add: push_keep_def last_opt_def\<close>)
qed

section \<open>The matrix never goes out of bounds\<close>

definition matrix_shape :: "nat \<Rightarrow> nat \<Rightarrow> 'f matrix \<Rightarrow> bool" where
  "matrix_shape r c m \<longleftrightarrow> m_rows m = r \<and> m_cols m = c \<and> length (m_cells m) = r * c"

lemma cell_index: "row < r \<Longrightarrow> col < c \<Longrightarrow> col * r + row < r * (c::nat)"
proof -
  assume "row < r" "col < c"
  then have "col * r + row < Suc col * r" by simp
  also have "\<dots> \<le> c * r" using \<open>col < c\<close> by (intro mult_le_mono1) simp
  finally show ?thesis by (simp add: mult.commute)
qed

lemma matrix_get_ok: "matrix_shape r c m \<Longrightarrow> row < r \<Longrightarrow> col < c \<Longrightarrow> \<exists>v. matrix_get m row col = Some v"
  using cell_index [of row r col c] by (auto simp: matrix_shape_def matrix_get_def)

lemma matrix_set_ok:
  "matrix_shape r c m \<Longrightarrow> row < r \<Longrightarrow> col < c \<Longrightarrow> \<exists>m'. matrix_set m row col v = Some m' \<and> matrix_shape r c m'"
  using cell_index [of row r col c] by (auto simp: matrix_shape_def matrix_set_def)

lemma matrix_resize_shape [simp]: "matrix_shape r c (matrix_resize F m r c)"
  by (simp add: matrix_shape_def matrix_resize_def)

lemma swap_columns_ok:
  "matrix_shape r c m \<Longrightarrow> a < c \<Longrightarrow> b < c \<Longrightarrow> \<exists>m'. swap_columns m a b = Some m' \<and> matrix_shape r c m'"
  by (auto simp: matrix_shape_def swap_columns_def Let_def)

lemma score_cell_ok:
  assumes "matrix_shape (length old + 1) c (fst state)" "0 < i" "i \<le> length old" "0 < rj" "rj < c" "0 < j" "j \<le> length new"
  shows "\<exists>state'. score_cell F old new j rj i state = Some state' \<and> matrix_shape (length old + 1) c (fst state')"
proof -
  obtain scores runs where st: "state = (scores, runs)" by (cases state)
  with assms obtain l a d where "matrix_get scores i (rj - 1) = Some l" "matrix_get scores (i - 1) rj = Some a"
    "matrix_get scores (i - 1) (rj - 1) = Some d"
    using matrix_get_ok [of "length old + 1" c scores] by (metis fst_conv less_Suc_eq_le Suc_eq_plus1 less_imp_diff_less)
  moreover have "\<exists>m'. matrix_set scores i rj v = Some m' \<and> matrix_shape (length old + 1) c m'" for v
    using assms st by (intro matrix_set_ok) auto
  then obtain g where "\<And>v. matrix_set scores i rj v = Some (g v)" "\<And>v. matrix_shape (length old + 1) c (g v)" by metis
  ultimately show ?thesis
    using assms st by (auto simp: score_cell_def Let_def)
qed

lemma score_column_ok:
  fixes F :: "'f float_ops"
  assumes "matrix_shape (length old + 1) c (fst state)" "ni < j" "j \<le> length new" "j - ni < c"
  shows "\<exists>state'. score_column F old new ni j state = Some state' \<and> matrix_shape (length old + 1) c (fst state')"
proof -
  obtain scores runs where st: "state = (scores, runs)" by (cases state)
  with assms obtain m where m: "matrix_set scores 0 (j - ni) (f_mul F (f_of_usize F j) (INSERTION_SCORE F)) = Some m"
    "matrix_shape (length old + 1) c m"
    using matrix_set_ok [of "length old + 1" c scores 0 "j - ni"] by auto
  have "\<exists>s'. for_each (score_cell F old new j (j - ni)) [1..<length old + 1] (m, runs) = Some s'
      \<and> matrix_shape (length old + 1) c (fst s')"
  proof (rule for_each_invariant)
    fix i and s :: "'f matrix \<times> (nat \<times> nat \<rightharpoonup> u32)"
    assume "i \<in> set [1..<length old + 1]" "matrix_shape (length old + 1) c (fst s)"
    then show "\<exists>s'. score_cell F old new j (j - ni) i s = Some s' \<and> matrix_shape (length old + 1) c (fst s')"
      using assms by (intro score_cell_ok) auto
  qed (use m in simp)
  then show ?thesis using m(1) st by (simp add: score_column_def Let_def)
qed

lemma best_row_ok:
  fixes F :: "'f float_ops"
  assumes "matrix_shape r c m" "col < c" "\<forall>i \<in> set rows. i < r" "ix \<in> A" "set rows \<subseteq> A"
  shows "\<exists>s ix'. best_row F m col rows (s0, ix) = Some (s, ix') \<and> ix' \<in> A"
proof -
  have "\<exists>s'. best_row F m col rows (s0, ix) = Some s' \<and> snd s' \<in> A"
    unfolding best_row_def
  proof (rule for_each_invariant)
    fix i and s :: "'f \<times> nat" assume "i \<in> set rows" "snd s \<in> A"
    moreover from this obtain v where "matrix_get m i col = Some v" using matrix_get_ok [OF assms(1) _ assms(2)] assms(3) by blast
    ultimately show "\<exists>s'. (case s of (max_score, next_ix) \<Rightarrow> matrix_get m i col \<bind>
        (\<lambda>score. Some (if f_gt F score max_score then (score, i) else (max_score, next_ix)))) = Some s' \<and> snd s' \<in> A"
      using assms(5) by (cases s) auto
  qed (use assms(4) in simp)
  then show ?thesis by auto
qed

section \<open>Backtracking\<close>

lemma max_by_key_Some:
  fixes ks :: "('f option \<times> 'a) list"
  shows "\<exists>k \<in> set ks. fst k \<noteq> None \<Longrightarrow> \<exists>k \<in> set ks. max_by (key_cmp F) ks = Some k \<and> fst k \<noteq> None"
proof (induction "key_cmp F :: 'f option \<times> 'a \<Rightarrow> _" ks rule: max_by.induct)
  case (3 x y xs)
  define w where "w = (if key_cmp F x y = Greater then x else y)"
  have "\<exists>k \<in> set (w # xs). fst k \<noteq> None"
    using "3.prems" by (cases "fst x"; cases "fst y") (auto simp: w_def key_cmp_def)
  from "3.hyps" [folded w_def, OF this] show ?case by (auto simp: w_def split: if_splits)
qed simp_all

lemma cell_keys_ok:
  assumes "\<forall>c \<in> set cs. \<forall>i j. c = Some (i, j) \<longrightarrow> sd_new_text_ix self \<le> j \<and> (\<exists>v. matrix_get (sd_scores self) i (j - sd_new_text_ix self) = Some v)"
  shows "\<exists>ks. cell_keys self cs = Some ks \<and> map snd ks = cs \<and> (\<forall>k \<in> set ks. fst k = None \<longleftrightarrow> snd k = None)"
  using assms
proof (induction cs)
  case (Cons c cs)
  then obtain ks where ks: "cell_keys self cs = Some ks" "map snd ks = cs" "\<forall>k \<in> set ks. fst k = None \<longleftrightarrow> snd k = None"
    by auto
  obtain k where "cell_key self c = Some k" "snd k = c" "fst k = None \<longleftrightarrow> c = None"
    using Cons.prems by (cases c) (auto simp: cell_key_def)
  with ks show ?case by auto
qed simp

text \<open>The bounds a backtrack works within, and the moves it can make.\<close>

definition backtrack_in :: "'f streaming_diff \<Rightarrow> nat \<Rightarrow> nat \<Rightarrow> bool" where
  "backtrack_in self i j \<longleftrightarrow>
     sd_old_text_ix self \<le> i \<and> i \<le> length (sd_old self) \<and> sd_new_text_ix self \<le> j \<and> j \<le> length (sd_new self)
     \<and> (\<exists>c. matrix_shape (length (sd_old self) + 1) c (sd_scores self) \<and> j - sd_new_text_ix self < c)"

lemma best_predecessor_ok:
  assumes "backtrack_in self i j" "(i, j) \<noteq> (sd_old_text_ix self, sd_new_text_ix self)"
  obtains (insertion) "best_predecessor F self i j = Some (i, j - 1)" "sd_new_text_ix self < j"
  | (deletion) "best_predecessor F self i j = Some (i - 1, j)" "sd_old_text_ix self < i"
  | (equality) "best_predecessor F self i j = Some (i - 1, j - 1)" "sd_old_text_ix self < i" "sd_new_text_ix self < j"
      "sd_old self ! (i - 1) = sd_new self ! (j - 1)"
proof -
  let ?oi = "sd_old_text_ix self" and ?ni = "sd_new_text_ix self"
  let ?cells = "[if j > ?ni then Some (i, j - 1) else None, if i > ?oi then Some (i - 1, j) else None,
     if i > ?oi \<and> j > ?ni \<and> sd_old self ! (i - 1) = sd_new self ! (j - 1) then Some (i - 1, j - 1) else None]"
  from assms(1) obtain c where c: "matrix_shape (length (sd_old self) + 1) c (sd_scores self)" "j - ?ni < c"
    and b: "?oi \<le> i" "i \<le> length (sd_old self)" "?ni \<le> j" "j \<le> length (sd_new self)"
    by (auto simp: backtrack_in_def)
  have cells: "predecessors self i j = Some ?cells" using b by (auto simp: predecessors_def)
  have "\<exists>v. matrix_get (sd_scores self) i' d = Some v" if "i' \<le> i" "d \<le> j - ?ni" for i' d
    using that b c by (intro matrix_get_ok [OF c(1)]) auto
  then have "\<exists>ks. cell_keys self ?cells = Some ks \<and> map snd ks = ?cells \<and> (\<forall>k \<in> set ks. fst k = None \<longleftrightarrow> snd k = None)"
    using b by (intro cell_keys_ok) (auto split: if_splits)
  then obtain ks where ks: "cell_keys self ?cells = Some ks" "map snd ks = ?cells" "\<forall>k \<in> set ks. fst k = None \<longleftrightarrow> snd k = None"
    by (elim exE conjE)
  have "\<exists>x \<in> snd ` set ks. x \<noteq> None"
    unfolding set_map [symmetric] ks(2) using assms(2) b by auto
  then have "\<exists>k \<in> set ks. fst k \<noteq> None" using ks(3) by auto
  then obtain k where k: "k \<in> set ks" "max_by (key_cmp F) ks = Some k" "snd k \<noteq> None" using max_by_key_Some ks(3) by metis
  have "snd k \<in> set ?cells" using k(1) unfolding ks(2) [symmetric] by simp
  moreover have "best_predecessor F self i j = snd k"
    using cells ks(1) k(2) by (simp add: best_predecessor_def split_beta)
  ultimately show thesis using k(3) that by (auto split: if_splits)
qed

text \<open>
  The invariant of the loop at \<open>(i, j)\<close>, having started at \<open>(I, J)\<close>: the operations collected
  so far, with the pending insertion flushed, turn the old text between \<open>i\<close> and \<open>I\<close> into the
  new text between \<open>j\<close> and \<open>J\<close>.
\<close>

definition segment :: "nat \<Rightarrow> nat \<Rightarrow> rstr \<Rightarrow> rstr" where
  "segment a b s = take (b - a) (drop a s)"

lemma segment_Cons: "a < b \<Longrightarrow> b \<le> length s \<Longrightarrow> segment a b s = s ! a # segment (Suc a) b s"
  by (simp add: segment_def Cons_nth_drop_Suc [symmetric] take_Suc_conv_app_nth Suc_diff_Suc take_Cons')

lemma segment_simps [simp]: "segment a a s = []" "segment 0 (length s) s = s"
  by (simp_all add: segment_def)

lemma segment_append: "a \<le> b \<Longrightarrow> b \<le> c \<Longrightarrow> segment a b s @ segment b c s = segment a c s"
proof -
  assume "a \<le> b" "b \<le> c"
  then have "c - a = (b - a) + (c - b)" "drop b s = drop (b - a) (drop a s)" by simp_all
  then show ?thesis by (simp only: segment_def take_add)
qed

definition covered :: "'f streaming_diff \<Rightarrow> nat \<Rightarrow> nat \<Rightarrow> (nat \<times> nat) option \<Rightarrow> char_operation list \<Rightarrow> nat \<Rightarrow> nat \<Rightarrow> bool" where
  "covered self I J pending hunks i j \<longleftrightarrow>
     (case pending of
        None \<Rightarrow> apply_ops (rev hunks) (segment i I (sd_old self)) = Some (segment j J (sd_new self), [])
      | Some (a, b) \<Rightarrow> a = j \<and> j \<le> b \<and> b \<le> J
          \<and> apply_ops (rev hunks) (segment i I (sd_old self)) = Some (segment b J (sd_new self), []))"

lemma covered_flush:
  assumes "covered self I J pending hunks i j" "J \<le> length (sd_new self)"
  shows "\<exists>hunks'. flush_pending (sd_new self) pending hunks = Some hunks'
    \<and> apply_ops (rev hunks') (segment i I (sd_old self)) = Some (segment j J (sd_new self), [])"
proof (cases pending)
  case (Some ab)
  then obtain b where b: "pending = Some (j, b)" "j \<le> b" "b \<le> J"
    "apply_ops (rev hunks) (segment i I (sd_old self)) = Some (segment b J (sd_new self), [])"
    using assms(1) by (cases ab) (auto simp: covered_def)
  then show ?thesis using assms(2) segment_append [OF b(2,3), of "sd_new self"]
    by (simp add: flush_pending_def slice_range_def) (simp add: segment_def)
qed (use assms in \<open>simp add: covered_def flush_pending_def\<close>)

lemma backtrack_loop_ok:
  assumes "I \<le> length (sd_old self)" "J \<le> length (sd_new self)"
  shows "backtrack_in self i j \<Longrightarrow> i \<le> I \<Longrightarrow> j \<le> J \<Longrightarrow> covered self I J pending hunks i j
    \<Longrightarrow> \<exists>pending' hunks'. backtrack_loop F self pending hunks i j = Some (pending', hunks')
      \<and> covered self I J pending' hunks' (sd_old_text_ix self) (sd_new_text_ix self)"
proof (induction "i + j" arbitrary: i j pending hunks rule: less_induct)
  case less
  let ?oi = "sd_old_text_ix self" and ?ni = "sd_new_text_ix self"
  have down: "backtrack_in self i' j'" if "i' \<le> i" "j' \<le> j" "?oi \<le> i'" "?ni \<le> j'" for i' j'
    using less.prems(1) that by (fastforce simp: backtrack_in_def)
  show ?case
  proof (cases "(i, j) = (?oi, ?ni)")
    case True
    then show ?thesis using less.prems(4) by (subst backtrack_loop.simps) auto
  next
    case False
    note step = backtrack_loop.simps [of F self pending hunks i j]
    from covered_flush [OF less.prems(4) assms(2)] obtain hs where hs:
      "flush_pending (sd_new self) pending hunks = Some hs"
      "apply_ops (rev hs) (segment i I (sd_old self)) = Some (segment j J (sd_new self), [])" by blast
    have char: "get_ix (sd_old self) (i - 1) = Some (sd_old self ! (i - 1))"
      "segment (i - 1) I (sd_old self) = sd_old self ! (i - 1) # segment i I (sd_old self)" if "?oi < i"
      using that less.prems(2) assms(1) segment_Cons [of "i - 1" I "sd_old self"] by auto
    from less.prems(1) False show ?thesis
    proof (cases rule: best_predecessor_ok [where F = F])
      case insertion
      let ?p = "Some (case pending of Some (a, b) \<Rightarrow> (j - 1, b) | None \<Rightarrow> (j - 1, j))"
      have "covered self I J ?p hunks i (j - 1)"
        using less.prems(3,4) insertion(2) by (auto simp: covered_def split: option.splits)
      moreover have "backtrack_loop F self pending hunks i j = backtrack_loop F self ?p hunks i (j - 1)"
        unfolding step using insertion(1) False by (auto split: option.split)
      ultimately show ?thesis
        using less.hyps [of i "j - 1" ?p hunks, OF _ down] insertion(2) less.prems(1,2,3) by (simp add: backtrack_in_def)
    next
      case deletion
      have "covered self I J None (push_delete hs (len_utf8 (sd_old self ! (i - 1)))) (i - 1) j"
        using apply_push(1) [OF hs(2)] char(2) [OF deletion(2)] by (simp add: covered_def)
      moreover have "backtrack_loop F self pending hunks i j
          = backtrack_loop F self None (push_delete hs (len_utf8 (sd_old self ! (i - 1)))) (i - 1) j"
        unfolding step using deletion hs(1) char(1) [OF deletion(2)] False by (cases i) simp_all
      ultimately show ?thesis
        using less.hyps [of "i - 1" j None, OF _ down] deletion(2) less.prems(1,2,3) by (simp add: backtrack_in_def)
    next
      case equality
      have "segment (j - 1) J (sd_new self) = sd_new self ! (j - 1) # segment j J (sd_new self)"
        using equality(3) less.prems(3) assms(2) segment_Cons [of "j - 1" J "sd_new self"] by auto
      then have "covered self I J None (push_keep hs (len_utf8 (sd_old self ! (i - 1)))) (i - 1) (j - 1)"
        using apply_push(2) [OF hs(2)] char(2) [OF equality(2)] equality(4) by (simp add: covered_def)
      moreover have "backtrack_loop F self pending hunks i j
          = backtrack_loop F self None (push_keep hs (len_utf8 (sd_old self ! (i - 1)))) (i - 1) (j - 1)"
        unfolding step using equality(1-3) hs(1) char(1) [OF equality(2)] False by (cases i; cases j) simp_all
      ultimately show ?thesis
        using less.hyps [of "i - 1" "j - 1" None, OF _ down] equality(2,3) less.prems(1,2,3) by (simp add: backtrack_in_def)
    qed
  qed
qed

lemma backtrack_ok:
  assumes "backtrack_in self I J"
  shows "\<exists>ops. backtrack F self I J = Some ops
    \<and> apply_ops ops (segment (sd_old_text_ix self) I (sd_old self)) = Some (segment (sd_new_text_ix self) J (sd_new self), [])"
proof -
  have IJ: "I \<le> length (sd_old self)" "J \<le> length (sd_new self)" using assms by (auto simp: backtrack_in_def)
  have "covered self I J None [] I J" by (simp add: covered_def)
  from backtrack_loop_ok [OF IJ assms order.refl order.refl this] obtain p hs where
    "backtrack_loop F self None [] I J = Some (p, hs)" "covered self I J p hs (sd_old_text_ix self) (sd_new_text_ix self)" by blast
  then show ?thesis using covered_flush [OF _ IJ(2)] by (fastforce simp: backtrack_def)
qed

section \<open>Sessions\<close>

text \<open>The state between two calls: everything that has arrived is accounted for.\<close>

definition sd_ok :: "'f streaming_diff \<Rightarrow> bool" where
  "sd_ok self \<longleftrightarrow> sd_old_text_ix self \<le> length (sd_old self) \<and> sd_new_text_ix self = length (sd_new self)
     \<and> (\<exists>c. 0 < c \<and> matrix_shape (length (sd_old self) + 1) c (sd_scores self))"

lemma sd_create_ok: "\<exists>self. sd_create F old = Some self \<and> sd_ok self \<and> sd_old self = old \<and> sd_new self = [] \<and> sd_old_text_ix self = 0"
proof -
  have "\<exists>m. for_each (\<lambda>i scores. matrix_set scores i 0 (f_mul F (f_of_usize F i) (DELETION_SCORE F)))
       [0..<length old + 1] (matrix_resize F matrix_new (length old + 1) 1) = Some m \<and> matrix_shape (length old + 1) 1 m"
    by (rule for_each_invariant) (auto intro!: matrix_set_ok)
  then obtain m where "for_each (\<lambda>i scores. matrix_set scores i 0 (f_mul F (f_of_usize F i) (DELETION_SCORE F)))
       [0..<length old + 1] (matrix_resize F matrix_new (length old + 1) 1) = Some m" "matrix_shape (length old + 1) 1 m" by blast
  then show ?thesis unfolding sd_create_def Let_def by (auto simp: sd_ok_def)
qed

lemma push_new_ok:
  assumes "sd_ok self"
  shows "\<exists>ops self'. push_new F self text = Some (ops, self') \<and> sd_ok self' \<and> sd_old self' = sd_old self
    \<and> sd_new self' = sd_new self @ text \<and> sd_old_text_ix self \<le> sd_old_text_ix self'
    \<and> apply_ops ops (segment (sd_old_text_ix self) (sd_old_text_ix self') (sd_old self)) = Some (text, [])"
proof -
  let ?old = "sd_old self" and ?ni = "sd_new_text_ix self" and ?oi = "sd_old_text_ix self"
  let ?new = "sd_new self @ text" and ?r = "length (sd_old self) + 1" and ?c = "length text + 1"
  let ?runs = "\<lambda>(i, j). if j = ?ni then sd_equal_runs self (i, j) else None"
  from assms obtain c where c: "0 < c" "matrix_shape ?r c (sd_scores self)" and ni: "?ni = length (sd_new self)" and oi: "?oi < ?r"
    by (auto simp: sd_ok_def)
  from swap_columns_ok [OF c(2) c(1), of "c - 1"] c(1) obtain m1 where m1: "swap_columns (sd_scores self) 0 (c - 1) = Some m1" by auto
  have "\<exists>s. for_each (score_column F ?old ?new ?ni) [?ni + 1..<length ?new + 1] (matrix_resize F m1 ?r ?c, ?runs) = Some s
      \<and> matrix_shape ?r ?c (fst s)"
  proof (rule for_each_invariant)
    fix j and s :: "'a matrix \<times> (nat \<times> nat \<rightharpoonup> u32)"
    assume "j \<in> set [?ni + 1..<length ?new + 1]" "matrix_shape ?r ?c (fst s)"
    then show "\<exists>s'. score_column F ?old ?new ?ni j s = Some s' \<and> matrix_shape ?r ?c (fst s')"
      using ni by (intro score_column_ok) auto
  qed simp
  then obtain m2 runs where m2: "for_each (score_column F ?old ?new ?ni) [?ni + 1..<length ?new + 1]
      (matrix_resize F m1 ?r ?c, ?runs) = Some (m2, runs)" "matrix_shape ?r ?c m2" by auto
  have "\<exists>sc ix. best_row F m2 (length text) [?oi..<?r] (f_neg_infinity F, ?oi) = Some (sc, ix) \<and> ix \<in> {?oi..<?r}"
    using oi by (intro best_row_ok [OF m2(2)]) auto
  then obtain sc ix where ix: "best_row F m2 (length text) [?oi..<?r] (f_neg_infinity F, ?oi) = Some (sc, ix)" "?oi \<le> ix" "ix < ?r"
    by auto
  let ?self = "self\<lparr>sd_new := ?new, sd_scores := m2, sd_equal_runs := runs\<rparr>"
  have "backtrack_in ?self ix (length ?new)" using ix m2(2) ni by (auto simp: backtrack_in_def)
  from backtrack_ok [OF this, of F] obtain ops where ops: "backtrack F ?self ix (length ?new) = Some ops"
    "apply_ops ops (segment ?oi ix ?old) = Some (text, [])" using ni by (auto simp: segment_def)
  have cols: "m_cols (sd_scores self) = c" using c(2) by (simp add: matrix_shape_def)
  have "push_new F self text = Some (ops, ?self\<lparr>sd_old_text_ix := ix, sd_new_text_ix := length ?new\<rparr>)"
    unfolding push_new_def Let_def using c(1) cols m1 m2(1) ix(1) ops(1) ni by simp
  then show ?thesis using ops(2) m2(2) ix by (auto simp: sd_ok_def)
qed

lemma push_all_ok:
  "sd_ok self \<Longrightarrow> \<exists>ops self'. push_all F self ts = Some (ops, self') \<and> sd_ok self' \<and> sd_old self' = sd_old self
    \<and> sd_new self' = sd_new self @ concat ts \<and> sd_old_text_ix self \<le> sd_old_text_ix self'
    \<and> apply_ops ops (segment (sd_old_text_ix self) (sd_old_text_ix self') (sd_old self)) = Some (concat ts, [])"
proof (induction ts arbitrary: self)
  case (Cons t ts)
  from push_new_ok [OF Cons.prems, of F t] obtain ops self1 where 1: "push_new F self t = Some (ops, self1)" "sd_ok self1"
    "sd_old self1 = sd_old self" "sd_new self1 = sd_new self @ t" "sd_old_text_ix self \<le> sd_old_text_ix self1"
    "apply_ops ops (segment (sd_old_text_ix self) (sd_old_text_ix self1) (sd_old self)) = Some (t, [])" by blast
  from Cons.IH [OF 1(2)] obtain ops' self2 where 2: "push_all F self1 ts = Some (ops', self2)" "sd_ok self2"
    "sd_old self2 = sd_old self1" "sd_new self2 = sd_new self1 @ concat ts" "sd_old_text_ix self1 \<le> sd_old_text_ix self2"
    "apply_ops ops' (segment (sd_old_text_ix self1) (sd_old_text_ix self2) (sd_old self1)) = Some (concat ts, [])" by blast
  show ?case
    using 1 2 apply_ops_seq [OF 1(6) 2(6)] segment_append [OF 1(5) 2(5), of "sd_old self"] by simp
qed simp

lemma sd_finish_ok:
  assumes "sd_ok self"
  shows "\<exists>ops. sd_finish F self = Some ops
    \<and> apply_ops ops (segment (sd_old_text_ix self) (length (sd_old self)) (sd_old self)) = Some ([], [])"
  using backtrack_ok [of self "length (sd_old self)" "length (sd_new self)" F] assms
  by (auto simp: sd_finish_def sd_ok_def backtrack_in_def)

section \<open>Properties\<close>

text \<open>
  C14: a session never panics, and the operations it emits rebuild the new text from the old
  one: applied to the old text they produce the concatenation of the pieces and use the old
  text up, whatever the scores are.
\<close>

theorem streaming_diff_rebuilds:
  "\<exists>ops. run_session F old pieces = Some ops \<and> apply_ops ops old = Some (concat pieces, [])"
proof -
  from sd_create_ok [of F old] obtain s0 where 0: "sd_create F old = Some s0" "sd_ok s0" "sd_old s0 = old" "sd_old_text_ix s0 = 0" by blast
  from push_all_ok [OF 0(2), of F pieces] obtain ops s1 where 1: "push_all F s0 pieces = Some (ops, s1)" "sd_ok s1" "sd_old s1 = old"
    "apply_ops ops (segment 0 (sd_old_text_ix s1) old) = Some (concat pieces, [])" using 0 by auto
  from sd_finish_ok [OF 1(2), of F] obtain ops' where 2: "sd_finish F s1 = Some ops'"
    "apply_ops ops' (segment (sd_old_text_ix s1) (length old) old) = Some ([], [])" using 1(3) by auto
  have "segment 0 (sd_old_text_ix s1) old @ segment (sd_old_text_ix s1) (length old) old = old"
    using segment_append [of 0 "sd_old_text_ix s1" "length old" old] 1(2,3) by (simp add: sd_ok_def)
  then show ?thesis using 0(1) 1(1) 2(1) apply_ops_seq [OF 1(4) 2(2)] by (simp add: run_session_def)
qed

text \<open>
  C33: the diff is live. After any pieces have been pushed, the operations emitted so far
  already produce the whole new text received so far from a prefix of the old text: no part
  of a piece is held back for a later call.
\<close>

theorem streaming_diff_live:
  "\<exists>self ops self'. sd_create F old = Some self \<and> push_all F self pieces = Some (ops, self')
    \<and> apply_ops ops (take (sd_old_text_ix self') old) = Some (concat pieces, [])"
proof -
  from sd_create_ok [of F old] obtain s0 where 0: "sd_create F old = Some s0" "sd_ok s0" "sd_old s0 = old" "sd_old_text_ix s0 = 0" by blast
  from push_all_ok [OF 0(2), of F pieces] 0 show ?thesis by (auto simp: segment_def)
qed

end
