(* ===== verification/BitSelect.thy ===== *)
theory BitSelect
  imports Prelude
begin

text \<open>
  Selecting the n-th set bit of a bitmap (\<open>nth_set_bit\<close> of \<open>crates/rope/src/chunk.rs\<close>): a
  branchless search that counts bits in parallel, in fields of 2, 4, 8 and 16 bits of the
  reversed word, and then halves the interval that holds the bit. The arithmetic wraps.
\<close>

section \<open>The code\<close>

text \<open>\<open>count_ones\<close> of the standard library.\<close>

definition count_ones :: "'w::len word \<Rightarrow> nat" where
  "count_ones v = length (filter (bit v) [0..<LENGTH('w)])"

definition nth_set_bit_u64 :: "u64 \<Rightarrow> u64 \<Rightarrow> u64" where
  "nth_set_bit_u64 v n =
     (let v = word_reverse v;
          s = 64;
          a = v - (drop_bit 1 v AND 0x5555555555555555);
          b = (a AND 0x3333333333333333) + (drop_bit 2 a AND 0x3333333333333333);
          c = (b + drop_bit 4 b) AND 0x0F0F0F0F0F0F0F0F;
          d = (c + drop_bit 8 c) AND 0x00FF00FF00FF00FF;
          t = drop_bit 32 d + drop_bit 48 d;
          s = s - drop_bit 3 ((t - n) AND 256);
          n = n - (t AND drop_bit 8 (t - n));
          t = drop_bit (unat (s - 16)) d AND 0xff;
          s = s - drop_bit 4 ((t - n) AND 256);
          n = n - (t AND drop_bit 8 (t - n));
          t = drop_bit (unat (s - 8)) c AND 0xf;
          s = s - drop_bit 5 ((t - n) AND 256);
          n = n - (t AND drop_bit 8 (t - n));
          t = drop_bit (unat (s - 4)) b AND 0x7;
          s = s - drop_bit 6 ((t - n) AND 256);
          n = n - (t AND drop_bit 8 (t - n));
          t = drop_bit (unat (s - 2)) a AND 0x3;
          s = s - drop_bit 7 ((t - n) AND 256);
          n = n - (t AND drop_bit 8 (t - n));
          t = drop_bit (unat (s - 1)) v AND 0x1;
          s = s - drop_bit 8 ((t - n) AND 256)
      in 65 - s - 1)"

definition nth_set_bit :: "u128 \<Rightarrow> nat \<Rightarrow> nat" where
  "nth_set_bit v n =
     (let low = (ucast v :: u64);
          high = (ucast (drop_bit 64 v) :: u64);
          low_count = count_ones low
      in if n > low_count then 64 + unat (nth_set_bit_u64 high (of_nat (n - low_count)))
         else unat (nth_set_bit_u64 low (of_nat n)))"

section \<open>Fields of bits\<close>

text \<open>\<open>field m k x\<close> is the \<open>k\<close>-th field of \<open>m\<close> bits, \<open>pop x i l\<close> the number of set bits from \<open>i\<close> on.\<close>

definition field :: "nat \<Rightarrow> nat \<Rightarrow> nat \<Rightarrow> nat" where
  "field m k x = take_bit m (drop_bit (m * k) x)"

definition pop :: "nat \<Rightarrow> nat \<Rightarrow> nat \<Rightarrow> nat" where
  "pop x i l = (\<Sum>j<l. of_bool (bit x (i + j)))"

lemma pop_simps [simp]: "pop x i 0 = 0" "pop x i (Suc l) = pop x i l + of_bool (bit x (i + l))"
  by (simp_all add: pop_def)

lemma pop_add: "pop x i (l + l') = pop x i l + pop x (i + l) l'"
  by (induction l') (simp_all add: add.assoc)

lemma pop_le: "pop x i l \<le> l"
proof (induction l)
  case (Suc l)
  then show ?case by (cases "bit x (i + l)") simp_all
qed simp

lemma field_rec: "field m 0 x = x mod 2 ^ m" "field m (Suc k) x = field m k (x div 2 ^ m)"
  by (simp_all add: field_def take_bit_eq_mod drop_bit_eq_div add.commute power_add div_mult2_eq)

text \<open>Sums and differences that do not carry work field by field.\<close>

lemma field_add:
  "(\<And>k. field m k x + field m k y < 2 ^ m) \<Longrightarrow> field m k (x + y) = field m k x + field m k y"
proof (induction k arbitrary: x y)
  case 0
  have "x mod 2 ^ m + y mod 2 ^ m < 2 ^ m" using 0 [of 0] by (simp add: field_rec)
  then have "(x mod 2 ^ m + y mod 2 ^ m) mod 2 ^ m = x mod 2 ^ m + y mod 2 ^ m" by (rule mod_less)
  then show ?case unfolding field_rec mod_add_eq .
next
  case (Suc k)
  have "x mod 2 ^ m + y mod 2 ^ m < 2 ^ m" using Suc.prems [of 0] by (simp add: field_rec)
  then have "(x + y) div 2 ^ m = x div 2 ^ m + y div 2 ^ m"
    by (subst div_add1_eq) (simp only: div_less add_0_right)
  moreover have "field m k (x div 2 ^ m + y div 2 ^ m) = field m k (x div 2 ^ m) + field m k (y div 2 ^ m)"
  proof (rule Suc.IH)
    fix k show "field m k (x div 2 ^ m) + field m k (y div 2 ^ m) < 2 ^ m"
      using Suc.prems [of "Suc k"] by (simp only: field_rec)
  qed
  ultimately show ?case by (simp add: field_rec)
qed

lemma diff_div_mod:
  fixes x y b :: nat
  assumes "y \<le> x" "y mod b \<le> x mod b"
  shows "(x - y) div b = x div b - y div b \<and> (x - y) mod b = x mod b - y mod b"
proof (cases "b = 0")
  case False
  have q: "y div b \<le> x div b" using assms(1) by (rule div_le_mono)
  have "x - y = b * (x div b) + x mod b - (b * (y div b) + y mod b)" by simp
  also have "\<dots> = b * (x div b - y div b) + (x mod b - y mod b)"
    using q assms(2) mult_le_mono2 [OF q, of b] by (simp add: diff_mult_distrib2)
  finally have e: "x - y = b * (x div b - y div b) + (x mod b - y mod b)" .
  have "x mod b - y mod b < b" using False by (meson less_imp_diff_less mod_less_divisor neq0_conv)
  then show ?thesis unfolding e by simp
qed (use assms in auto)

lemma field_diff:
  assumes "y \<le> x" "\<And>k. field m k y \<le> field m k x"
  shows "field m k (x - y) = field m k x - field m k y"
  using assms
proof (induction k arbitrary: x y)
  case 0
  then show ?case using diff_div_mod [OF 0(1), of "2 ^ m"] 0(2) [of 0] by (simp add: field_rec)
next
  case (Suc k)
  have "(x - y) div 2 ^ m = x div 2 ^ m - y div 2 ^ m"
    using diff_div_mod [OF Suc.prems(1), of "2 ^ m"] Suc.prems(2) [of 0] by (simp add: field_rec)
  moreover have "field m k (x div 2 ^ m - y div 2 ^ m) = field m k (x div 2 ^ m) - field m k (y div 2 ^ m)"
    by (rule Suc.IH) (use Suc.prems(2) [of "Suc _"] div_le_mono [OF Suc.prems(1)] in \<open>simp_all add: field_rec\<close>)
  ultimately show ?case by (simp add: field_rec)
qed

lemma field_bit: "bit (field m k x) n \<longleftrightarrow> n < m \<and> bit x (m * k + n)"
  by (simp add: field_def bit_take_bit_iff bit_drop_bit_eq)

text \<open>Masking every other field merges a field with the empty one above it.\<close>

lemma field_mask:
  assumes "\<And>j. bit M j \<longleftrightarrow> j < 64 \<and> j mod (2 * m) < m" "x < 2 ^ 64"
  shows "field (2 * m) k (x AND M) = field m (2 * k) x"
proof (rule bit_eqI)
  fix n
  have x: "bit x j \<Longrightarrow> j < 64" for j using assms(2) by (metis bit_take_bit_iff take_bit_nat_eq_self)
  have "n < 2 * m \<Longrightarrow> (2 * m * k + n) mod (2 * m) = n" by simp
  then show "bit (field (2 * m) k (x AND M)) n \<longleftrightarrow> bit (field m (2 * k) x) n"
    using x [of "2 * m * k + n"] by (auto simp: field_bit bit_and_iff assms(1) ac_simps)
qed

lemma field_shift: "field m k (drop_bit m x) = field m (Suc k) x"
  by (simp add: field_def add.commute)

lemma field_bits2: "field 2 k x = of_bool (bit x (2 * k)) + 2 * of_bool (bit x (2 * k + 1))"
proof -
  have "take_bit 2 y = of_bool (bit y 0) + 2 * of_bool (bit y 1)" for y :: nat
    by (simp add: take_bit_eq_mod bit_0 numeral_2_eq_2 bit_Suc) presburger
  from this [of "drop_bit (2 * k) x"] show ?thesis by (simp add: field_def bit_drop_bit_eq)
qed

text \<open>The masks of the code.\<close>

lemma mask_bits:
  assumes "list_all (\<lambda>j. bit M j \<longleftrightarrow> j mod (2 * m) < m) [0..<64]" "M < (2::nat) ^ 64"
  shows "bit M j \<longleftrightarrow> j < 64 \<and> j mod (2 * m) < m"
proof (cases "j < 64")
  case True
  then show ?thesis using assms(1) by (simp add: list_all_iff)
next
  case False
  have "bit M j \<Longrightarrow> j < 64" using assms(2) by (metis bit_take_bit_iff take_bit_nat_eq_self)
  then show ?thesis using False by blast
qed

lemma masks:
  "bit (0x5555555555555555 :: nat) j \<longleftrightarrow> j < 64 \<and> j mod (2 * 1) < 1"
  "bit (0x3333333333333333 :: nat) j \<longleftrightarrow> j < 64 \<and> j mod (2 * 2) < 2"
  "bit (0x0F0F0F0F0F0F0F0F :: nat) j \<longleftrightarrow> j < 64 \<and> j mod (2 * 4) < 4"
  "bit (0x00FF00FF00FF00FF :: nat) j \<longleftrightarrow> j < 64 \<and> j mod (2 * 8) < 8"
  by (rule mask_bits; simp add: upt_rec bit_0)+

section \<open>The parallel counts\<close>

lemma unat_and: "unat (x AND y :: 'w::len word) = unat x AND unat y"
  by (simp add: unsigned_and_eq)

lemma unat_less64: "unat (x :: u64) < 2 ^ 64"
  using unsigned_less [of x] by simp

lemma and_le_word: "unat (x AND M :: u64) \<le> unat M"
  using word_and_le1 [of x M] by (simp add: word_le_nat_alt)

lemma drop_le: "drop_bit i (x::nat) \<le> x"
  by (simp add: drop_bit_eq_div)

definition counts :: "nat \<Rightarrow> nat \<Rightarrow> nat \<Rightarrow> bool" where
  "counts V m x \<longleftrightarrow> (\<forall>k. field m k x = pop V (m * k) m)"

lemma counts_pairs:
  fixes v :: u64
  shows "counts (unat v) 2 (unat (v - (drop_bit 1 v AND 0x5555555555555555)))"
proof -
  let ?y = "drop_bit 1 v AND 0x5555555555555555"
  have y: "unat ?y = drop_bit 1 (unat v) AND 0x5555555555555555"
    by (simp add: unat_and unat_drop_bit_eq)
  have f: "field 2 k (unat ?y) = of_bool (bit (unat v) (2 * k + 1))" for k
  proof -
    have "drop_bit 1 (unat v) < 2 ^ 64" using drop_le unat_less64 by (rule order.strict_trans1)
    from field_mask [OF masks(1) this, of k] show ?thesis unfolding y
      by (simp add: field_def bit_iff_odd_drop_bit take_bit_eq_mod mod_2_eq_odd)
  qed
  have le: "?y \<le> v"
  proof -
    have "?y \<le> drop_bit 1 v" by (rule word_and_le2)
    also have "\<dots> \<le> v" unfolding word_le_nat_alt unat_drop_bit_eq by (rule drop_le)
    finally show ?thesis .
  qed
  have "unat (v - ?y) = unat v - unat ?y" using le by (simp add: unat_sub word_le_nat_alt)
  moreover have "field 2 k (unat v - unat ?y) = field 2 k (unat v) - field 2 k (unat ?y)" for k
  proof (rule field_diff)
    show "unat ?y \<le> unat v" using le by (simp only: word_le_nat_alt)
    show "field 2 k (unat ?y) \<le> field 2 k (unat v)" for k
      unfolding f field_bits2 [of k "unat v"] by simp
  qed
  ultimately show ?thesis
    unfolding counts_def by (simp only: f field_bits2 [of _ "unat v"]) (simp add: numeral_2_eq_2)
qed

lemma counts_quads:
  fixes a :: u64
  assumes "counts V 2 (unat a)"
  shows "counts V 4 (unat ((a AND 0x3333333333333333) + (drop_bit 2 a AND 0x3333333333333333)))"
    and "unat ((a AND 0x3333333333333333) + (drop_bit 2 a AND 0x3333333333333333)) < 2 ^ 63"
proof -
  let ?x = "a AND 0x3333333333333333" and ?y = "drop_bit 2 a AND 0x3333333333333333"
  have b: "unat ?x + unat ?y < 2 ^ 63"
    using and_le_word [of a "0x3333333333333333"] and_le_word [of "drop_bit 2 a" "0x3333333333333333"] by simp
  then have s: "unat (?x + ?y) = unat ?x + unat ?y" by (subst unat_add_lem [symmetric]) simp
  then show "unat (?x + ?y) < 2 ^ 63" using b by simp
  have x: "field 4 k (unat ?x) = pop V (4 * k) 2" for k
    using field_mask [OF masks(2) unat_less64 [of a], of k] assms by (simp add: unat_and counts_def)
  have "drop_bit 2 (unat a) < 2 ^ 64" using drop_le unat_less64 by (rule order.strict_trans1)
  then have y: "field 4 k (unat ?y) = pop V (4 * k + 2) 2" for k
    using field_mask [OF masks(2), of "drop_bit 2 (unat a)" k] assms
    by (simp add: unat_and unat_drop_bit_eq counts_def field_shift)
  have "field 4 k (unat ?x + unat ?y) = field 4 k (unat ?x) + field 4 k (unat ?y)" for k
  proof (rule field_add)
    fix k
    show "field 4 k (unat ?x) + field 4 k (unat ?y) < 2 ^ 4"
      using pop_le [of V "4 * k" 2] pop_le [of V "4 * k + 2" 2] unfolding x y by simp
  qed
  then show "counts V 4 (unat (?x + ?y))"
    using pop_add [of V _ 2 2] by (simp add: counts_def s x y)
qed

lemma counts_double:
  fixes b M :: u64
  assumes "counts V m (unat b)" "unat b < 2 ^ 63" "2 * m < 2 ^ m" "0 < m"
    and M: "\<And>j. bit (unat M) j \<longleftrightarrow> j < 64 \<and> j mod (2 * m) < m"
  shows "counts V (2 * m) (unat ((b + drop_bit m b) AND M))"
proof -
  have d: "unat (drop_bit m b) < 2 ^ 63"
    using drop_le [of m "unat b"] assms(2) by (simp add: unat_drop_bit_eq)
  then have s: "unat (b + drop_bit m b) = unat b + drop_bit m (unat b)"
    using assms(2) by (subst unat_add_lem [THEN iffD1]) (simp_all add: unat_drop_bit_eq)
  have "field m k (unat b + drop_bit m (unat b)) = field m k (unat b) + field m k (drop_bit m (unat b))" for k
  proof (rule field_add)
    fix k
    show "field m k (unat b) + field m k (drop_bit m (unat b)) < 2 ^ m"
      using assms(1,3) pop_le [of V "m * k" m] pop_le [of V "m * Suc k" m]
      by (simp add: counts_def field_shift)
  qed
  moreover have "field (2 * m) k (unat ((b + drop_bit m b) AND M)) = field m (2 * k) (unat (b + drop_bit m b))" for k
    using field_mask [OF M unat_less64] by (simp add: unat_and)
  ultimately show ?thesis
    using assms(1) pop_add [of V _ m m]
    by (simp add: counts_def s field_shift mult_2 [symmetric] algebra_simps)
qed


section \<open>Halving the interval\<close>

text \<open>
  The comparison of the code: \<open>t - n\<close> borrows from bit 8 exactly when \<open>t < n\<close>, also when the first
  count carries a copy of its upper half from bit 16 on.
\<close>

lemma wrapping_sub_div:
  fixes t n :: u64
  assumes "unat t = T + F * 65536" "T < 256" "F < 256" "unat n \<le> 256"
  shows "unat (t - n) div 256 =
    (if unat n \<le> T then F * 256 else if F = 0 then 2 ^ 56 - 1 else F * 256 - 1)"
proof (cases "unat n \<le> unat t")
  case True
  then have d: "unat (t - n) = unat t - unat n" by (simp add: unat_sub word_le_nat_alt)
  show ?thesis
  proof (cases "unat n \<le> T")
    case True
    then have "unat (t - n) = (T - unat n) + (F * 256) * 256" using assms d by simp
    then show ?thesis using True assms(2) by simp
  next
    case n: False
    then have F: "F \<noteq> 0" using True assms(1) by auto
    then have "unat (t - n) = (256 - (unat n - T)) + (F * 256 - 1) * 256"
      using n assms d by (simp add: diff_mult_distrib)
    moreover have "256 - (unat n - T) < 256" using n by simp
    ultimately show ?thesis using n F by simp
  qed
next
  case False
  then have F: "F = 0" "T < unat n" using assms by auto
  have "unat (t - n) = 2 ^ 64 - (unat n - unat t)"
    using False by (simp add: unat_sub_if')
  then show ?thesis using F assms by simp
qed

lemma low_and:
  fixes t y :: nat
  assumes "t = T + F * 65536" "T < 256" "F = 0 \<or> y < 65536"
  shows "t AND y = T AND (y mod 256)"
proof -
  have T: "take_bit 8 T = T" using assms(2) by (simp add: take_bit_nat_eq_self)
  have ty: "t AND y = T AND y"
  proof (cases "F = 0")
    case False
    then have y: "take_bit 16 y = y" using assms(3) by (simp add: take_bit_nat_eq_self)
    have "take_bit 16 t = T" using assms(1,2) by (simp add: take_bit_eq_mod)
    then have "t AND take_bit 16 y = T AND y"
      by (metis y and.assoc and.commute take_bit_eq_mask)
    then show ?thesis by (simp add: y)
  qed (simp add: assms(1))
  have "T AND y = take_bit 8 T AND y" by (simp add: T)
  also have "\<dots> = T AND take_bit 8 y" by (metis and.assoc and.commute take_bit_eq_mask)
  finally show ?thesis by (simp add: ty take_bit_eq_mod)
qed

lemma and_exp: "x AND 2 ^ k = of_bool (bit x k) * (2 ^ k :: nat)"
  by (rule bit_eqI) (auto simp: bit_simps)

lemma select_compare:
  fixes t n :: u64
  assumes "unat t = T + F * 65536" "T < 256" "F < 256" "unat n \<le> 256"
  shows "unat ((t - n) AND 256) = (if T < unat n then 256 else 0)"
    and "unat (t AND drop_bit 8 (t - n)) = (if T < unat n then T else 0)"
proof -
  note d = wrapping_sub_div [OF assms]
  have "unat ((t - n) AND 256) = unat (t - n) AND 2 ^ 8" by (simp add: unat_and)
  also have "\<dots> = of_bool (bit (unat (t - n)) 8) * 2 ^ 8"
    by (rule and_exp)
  also have "bit (unat (t - n)) 8 \<longleftrightarrow> odd (unat (t - n) div 256)" by (simp add: bit_iff_odd)
  also have "\<dots> \<longleftrightarrow> T < unat n" unfolding d by (cases "F = 0") (auto simp: odd_pos)
  finally show "unat ((t - n) AND 256) = (if T < unat n then 256 else 0)" by simp
  have "unat (t AND drop_bit 8 (t - n)) = unat t AND (unat (t - n) div 256)"
    by (simp only: unat_and unat_drop_bit_eq) (simp add: drop_bit_eq_div)
  also have "\<dots> = T AND (unat (t - n) div 256 mod 256)"
    by (rule low_and [OF assms(1,2)]) (use assms(3) in \<open>auto simp: d\<close>)
  also have "unat (t - n) div 256 mod 256 = (if T < unat n then 255 else 0)"
    unfolding d using assms(3) by (cases F) auto
  also have "T AND (if T < unat n then 255 else 0) = (if T < unat n then T else 0)"
    using assms(2) take_bit_nat_eq_self [of T 8] by (simp add: take_bit_eq_mask mask_eq_exp_minus_1)
  finally show "unat (t AND drop_bit 8 (t - n)) = (if T < unat n then T else 0)" .
qed


text \<open>
  The search keeps an interval of \<open>h\<close> bits that ends at bit \<open>s\<close> of \<open>V\<close> and holds the bit looked for,
  the \<open>n\<close>-th from its upper end.
\<close>

definition narrowed :: "nat \<Rightarrow> nat \<Rightarrow> nat \<Rightarrow> u64 \<Rightarrow> u64 \<Rightarrow> bool" where
  "narrowed V N h s n \<longleftrightarrow> h dvd unat s \<and> h \<le> unat s \<and> unat s \<le> 64 \<and> 1 \<le> unat n \<and>
     unat n \<le> pop V (unat s - h) h \<and> N = unat n + pop V (unat s) (64 - unat s)"

lemma narrow:
  fixes s n t :: u64
  assumes inv: "narrowed V N (2 * h) s n" and k: "2 ^ k * h = (256::nat)"
    and t: "unat t = pop V (unat s - h) h + F * 65536" "F < 256"
  shows "narrowed V N h (s - drop_bit k ((t - n) AND 256)) (n - (t AND drop_bit 8 (t - n)))"
proof -
  note i = inv [unfolded narrowed_def]
  define T where "T = pop V (unat s - h) h"
  have h64: "2 * h \<le> 64" using i by linarith
  have T: "T < 256" using pop_le [of V "unat s - h" h] h64 unfolding T_def by linarith
  have n: "unat n \<le> 256" using i pop_le [of V "unat s - 2 * h" "2 * h"] h64 by linarith
  note c = select_compare [OF t(1) [folded T_def] T t(2) n]
  have dvd: "h dvd unat s" using i by (meson dvd_mult_left dvd_trans dvd_triv_right)
  have split: "pop V (unat s - 2 * h) (2 * h) = pop V (unat s - 2 * h) h + T"
    using i pop_add [of V "unat s - 2 * h" h h] by (simp add: T_def mult_2)
  show ?thesis
  proof (cases "T < unat n")
    case True
    let ?s = "unat s - h"
    have un: "unat (n - (t AND drop_bit 8 (t - n))) = unat n - T"
      using True c(2) by (simp add: unat_sub word_le_nat_alt)
    have "256 div 2 ^ k = h" by (simp flip: k)
    then have "unat (drop_bit k ((t - n) AND 256)) = h"
      using True c(1) unfolding unat_drop_bit_eq by (simp add: drop_bit_eq_div)
    then have us: "unat (s - drop_bit k ((t - n) AND 256)) = ?s"
      using i by (simp add: unat_sub word_le_nat_alt)
    have p: "pop V ?s (64 - ?s) = T + pop V (unat s) (64 - unat s)"
      using i pop_add [of V "unat s - h" h "64 - unat s"] by (simp add: T_def add.commute)
    have h2: "?s - h = unat s - 2 * h" by simp
    show ?thesis unfolding narrowed_def un us p h2
    proof (intro conjI)
      show "h dvd ?s" using dvd by (simp add: dvd_diff_nat)
    qed (use i True split in linarith)+
  next
    case False
    then have "t AND drop_bit 8 (t - n) = 0" "(t - n) AND 256 = 0" using c by (metis unat_eq_zero)+
    then show ?thesis
      using False i dvd unfolding narrowed_def by (simp add: T_def)
  qed
qed

text \<open>The count of the upper half, read from a field.\<close>

lemma upper_count:
  fixes X s M :: u64
  assumes "counts V h (unat X)" "narrowed V N (2 * h) s n" "0 < h" "w \<le> h" "h < 2 ^ w"
    and M: "unat M = mask w" and hw: "hw = of_nat h"
  shows "unat (drop_bit (unat (s - hw)) X AND M) = pop V (unat s - h) h"
proof -
  note i = assms(2) [unfolded narrowed_def]
  have "unat hw = h" using i hw by (simp add: unat_of_nat)
  then have sh: "unat (s - hw) = unat s - h" using i by (simp add: unat_sub word_le_nat_alt)
  have "h dvd unat s - h" using i by (auto intro: dvd_diff_nat dvd_trans [of h "2 * h"])
  then obtain k where k: "unat s - h = h * k" by blast
  have "unat (drop_bit (unat (s - hw)) X AND M) = take_bit w (drop_bit (h * k) (unat X))"
    by (simp add: unat_and unat_drop_bit_eq sh k M take_bit_eq_mask)
  also have "\<dots> = take_bit w (field h k (unat X))" using assms(4) by (simp add: field_def min_def)
  also have "\<dots> = take_bit w (pop V (h * k) h)" using assms(1) by (simp add: counts_def)
  also have "\<dots> = pop V (h * k) h"
    using pop_le [of V "h * k" h] assms(5) by (simp add: take_bit_nat_eq_self)
  finally show ?thesis by (simp add: k)
qed


section \<open>The bit found\<close>

lemma counts_bits: "counts V 1 V"
  by (simp add: counts_def field_def take_bit_eq_mod drop_bit_eq_div bit_iff_odd mod_2_eq_odd)

lemma first_count:
  fixes d :: u64
  assumes "counts V 16 (unat d)"
  shows "unat (drop_bit 32 d + drop_bit 48 d) = pop V 32 32 + pop V 48 16 * 65536"
proof -
  define D where "D = unat d"
  have D: "D < 2 ^ 64" unfolding D_def by (rule unat_less64)
  have "D div 2 ^ 48 = field 16 3 D" using D by (simp add: field_def drop_bit_eq_div take_bit_eq_mod)
  also have "\<dots> = pop V 48 16" using assms by (simp add: counts_def D_def)
  finally have d3: "D div 2 ^ 48 = pop V 48 16" .
  have "D div 2 ^ 32 = D div 2 ^ 32 mod 2 ^ 16 + D div 2 ^ 32 div 2 ^ 16 * 2 ^ 16" by presburger
  also have "D div 2 ^ 32 mod 2 ^ 16 = field 16 2 D" by (simp add: field_def drop_bit_eq_div take_bit_eq_mod)
  also have "\<dots> = pop V 32 16" using assms by (simp add: counts_def D_def)
  also have "D div 2 ^ 32 div 2 ^ 16 = pop V 48 16" using d3 by (simp add: div_mult2_eq [symmetric])
  finally have d2: "D div 2 ^ 32 = pop V 32 16 + pop V 48 16 * 65536" by simp
  have p: "pop V 32 32 = pop V 32 16 + pop V 48 16" using pop_add [of V 32 16 16] by simp
  have u: "unat (drop_bit 32 d) = D div 2 ^ 32" "unat (drop_bit 48 d) = D div 2 ^ 48"
    unfolding unat_drop_bit_eq by (simp_all add: drop_bit_eq_div D_def)
  have "unat (drop_bit 32 d + drop_bit 48 d) = D div 2 ^ 32 + D div 2 ^ 48"
    using pop_le [of V 32 16] pop_le [of V 48 16]
    by (subst unat_add_lem [THEN iffD1]) (simp_all only: u d2 d3, simp_all)
  then show ?thesis unfolding d2 d3 p by simp
qed

lemma nth_set_bit_u64_narrowed:
  fixes v :: u64
  assumes "1 \<le> unat n" "unat n \<le> pop (unat (word_reverse v)) 0 64"
  obtains s m where "nth_set_bit_u64 v n = 65 - s - 1" "narrowed (unat (word_reverse v)) (unat n) 1 s m"
proof -
  define w where "w = word_reverse v"
  define V where "V = unat w"
  define a where "a = w - (drop_bit 1 w AND 0x5555555555555555)"
  define b where "b = (a AND 0x3333333333333333) + (drop_bit 2 a AND 0x3333333333333333)"
  define c where "c = (b + drop_bit 4 b) AND 0x0F0F0F0F0F0F0F0F"
  define d where "d = (c + drop_bit 8 c) AND 0x00FF00FF00FF00FF"
  have a: "counts V 2 (unat a)" unfolding a_def V_def by (rule counts_pairs)
  have b: "counts V 4 (unat b)" "unat b < 2 ^ 63" unfolding b_def using counts_quads [OF a] by simp_all
  have c: "counts V 8 (unat c)" unfolding c_def
    using counts_double [OF b, of "0x0F0F0F0F0F0F0F0F"] masks(3) by simp
  have "unat c < 2 ^ 63" unfolding c_def using and_le_word [of _ "0x0F0F0F0F0F0F0F0F"]
    by (rule order.strict_trans1) simp
  then have d: "counts V 16 (unat d)" unfolding d_def
    using counts_double [OF c, of "0x00FF00FF00FF00FF"] masks(4) by simp
  have v: "counts V 1 (unat w)" unfolding V_def by (rule counts_bits)
  let ?s = "\<lambda>k t s m. s - drop_bit k ((t - m) AND 256)" and ?n = "\<lambda>t m. m - (t AND drop_bit 8 (t - m))"
  define t1 where "t1 = drop_bit 32 d + drop_bit 48 d"
  define s1 where "s1 = ?s 3 t1 64 n"
  define n1 where "n1 = ?n t1 n"
  define t2 where "t2 = drop_bit (unat (s1 - 16)) d AND 0xff"
  define s2 where "s2 = ?s 4 t2 s1 n1"
  define n2 where "n2 = ?n t2 n1"
  define t3 where "t3 = drop_bit (unat (s2 - 8)) c AND 0xf"
  define s3 where "s3 = ?s 5 t3 s2 n2"
  define n3 where "n3 = ?n t3 n2"
  define t4 where "t4 = drop_bit (unat (s3 - 4)) b AND 0x7"
  define s4 where "s4 = ?s 6 t4 s3 n3"
  define n4 where "n4 = ?n t4 n3"
  define t5 where "t5 = drop_bit (unat (s4 - 2)) a AND 0x3"
  define s5 where "s5 = ?s 7 t5 s4 n4"
  define n5 where "n5 = ?n t5 n4"
  define t6 where "t6 = drop_bit (unat (s5 - 1)) w AND 0x1"
  define s6 where "s6 = ?s 8 t6 s5 n5"
  define n6 where "n6 = ?n t6 n5"
  note fold = s6_def t6_def n5_def s5_def t5_def n4_def s4_def t4_def n3_def s3_def t3_def n2_def s2_def
    t2_def n1_def s1_def t1_def d_def c_def b_def a_def w_def
  have "narrowed V (unat n) (2 * 32) 64 n"
    using assms by (simp add: narrowed_def V_def w_def)
  then have "narrowed V (unat n) (2 * 16) s1 n1" unfolding s1_def n1_def
    using narrow [where h = 32 and k = 3] first_count [OF d] pop_le [of V 48 16] by (simp add: t1_def)
  then have "narrowed V (unat n) (2 * 8) s2 n2" unfolding s2_def n2_def
    using narrow [where h = 16 and k = 4 and F = 0] upper_count [OF d, where w = 8 and M = "0xff" and hw = 16]
    by (simp add: t2_def mask_eq_exp_minus_1)
  then have "narrowed V (unat n) (2 * 4) s3 n3" unfolding s3_def n3_def
    using narrow [where h = 8 and k = 5 and F = 0] upper_count [OF c, where w = 4 and M = "0xf" and hw = 8]
    by (simp add: t3_def mask_eq_exp_minus_1)
  then have "narrowed V (unat n) (2 * 2) s4 n4" unfolding s4_def n4_def
    using narrow [where h = 4 and k = 6 and F = 0] upper_count [OF b(1), where w = 3 and M = "0x7" and hw = 4]
    by (simp add: t4_def mask_eq_exp_minus_1)
  then have "narrowed V (unat n) (2 * 1) s5 n5" unfolding s5_def n5_def
    using narrow [where h = 2 and k = 7 and F = 0] upper_count [OF a, where w = 2 and M = "0x3" and hw = 2]
    by (simp add: t5_def mask_eq_exp_minus_1)
  then have "narrowed V (unat n) 1 s6 n6" unfolding s6_def n6_def
    using narrow [where h = 1 and k = 8 and F = 0] upper_count [OF v, where w = 1 and M = "0x1" and hw = 1]
    by (simp add: t6_def mask_eq_exp_minus_1)
  moreover have "nth_set_bit_u64 v n = 65 - s6 - 1"
    unfolding nth_set_bit_u64_def Let_def fold ..
  ultimately show thesis using that unfolding V_def w_def by blast
qed


lemma bit_reverse: "j < 64 \<Longrightarrow> bit (unat (word_reverse (v::u64))) (63 - j) = bit v j"
  by (auto simp: bit_unsigned_iff bit_word_reverse_iff)

lemma pop_reverse:
  fixes v :: u64
  shows "l \<le> 64 \<Longrightarrow> pop (unat (word_reverse v)) (64 - l) l = length (filter (bit v) [0..<l])"
proof (induction l)
  case (Suc l)
  have "64 - l = Suc (64 - Suc l)" "64 - Suc l = 63 - l" using Suc.prems by simp_all
  then show ?case
    using Suc pop_add [of "unat (word_reverse v)" "64 - Suc l" 1 l] bit_reverse [of l v] by simp
qed simp

text \<open>What it means to be the \<open>n\<close>-th set bit, counted from one.\<close>

definition is_nth_bit :: "'w::len word \<Rightarrow> nat \<Rightarrow> nat \<Rightarrow> bool" where
  "is_nth_bit v n r \<longleftrightarrow> r < LENGTH('w) \<and> bit v r \<and> length (filter (bit v) [0..<r]) + 1 = n"

lemma nth_set_bit_u64_correct:
  assumes "1 \<le> unat n" "unat n \<le> count_ones v"
  shows "is_nth_bit v (unat n) (unat (nth_set_bit_u64 v n))"
proof -
  let ?V = "unat (word_reverse v)"
  have "unat n \<le> pop ?V 0 64" using assms(2) pop_reverse [of 64 v] by (simp add: count_ones_def)
  with assms(1) obtain s m where s: "nth_set_bit_u64 v n = 65 - s - 1" "narrowed ?V (unat n) 1 s m"
    by (rule nth_set_bit_u64_narrowed)
  then have i: "1 \<le> unat s" "unat s \<le> 64" "1 \<le> unat m" "unat m \<le> pop ?V (unat s - 1) 1"
    "unat n = unat m + pop ?V (unat s) (64 - unat s)" by (simp_all add: narrowed_def)
  then have m: "unat m = 1" and b: "bit ?V (unat s - 1)"
    by (cases "bit ?V (unat s - 1)"; simp)+
  have "nth_set_bit_u64 v n = 64 - s" unfolding s(1) by simp
  moreover have "s \<le> 64" using i(2) by (simp add: word_le_nat_alt)
  ultimately have r: "unat (nth_set_bit_u64 v n) = 64 - unat s" by (simp add: unat_sub)
  have lt: "64 - unat s < 64" and e: "63 - (64 - unat s) = unat s - 1" using i by linarith+
  have "length (filter (bit v) [0..<64 - unat s]) + 1 = unat n"
    using i m pop_reverse [of "64 - unat s" v] by simp
  then show ?thesis
    unfolding is_nth_bit_def r using lt b bit_reverse [OF lt, of v, unfolded e] by simp
qed

lemma filter_shift: "length (filter P [m..<m + k]) = length (filter (\<lambda>j. P (m + j)) [0..<k])"
  by (induction k) simp_all

lemma bits_split:
  fixes v :: u128
  shows "r \<le> 64 \<Longrightarrow> length (filter (bit v) [0..<r]) = length (filter (bit (ucast v :: u64)) [0..<r])"
    and "r \<le> 64 \<Longrightarrow> length (filter (bit v) [0..<64 + r]) =
      count_ones (ucast v :: u64) + length (filter (bit (ucast (drop_bit 64 v) :: u64)) [0..<r])"
proof -
  show low: "length (filter (bit v) [0..<r]) = length (filter (bit (ucast v :: u64)) [0..<r])" if "r \<le> 64" for r
    using that by (auto simp: bit_unsigned_iff intro!: arg_cong [where f = length] filter_cong)
  assume r: "r \<le> 64"
  have "[0..<64 + r] = [0..<64] @ [64..<64 + r]" by (rule upt_add_eq_append) simp
  then have "length (filter (bit v) [0..<64 + r]) =
      length (filter (bit v) [0..<64]) + length (filter (\<lambda>j. bit v (64 + j)) [0..<r])"
    by (simp add: filter_shift)
  moreover have "filter (\<lambda>j. bit v (64 + j)) [0..<r] = filter (bit (ucast (drop_bit 64 v) :: u64)) [0..<r]"
    using r by (auto simp: bit_unsigned_iff bit_drop_bit_eq intro!: filter_cong)
  ultimately show "length (filter (bit v) [0..<64 + r]) =
      count_ones (ucast v :: u64) + length (filter (bit (ucast (drop_bit 64 v) :: u64)) [0..<r])"
    using low [of 64] by (simp add: count_ones_def)
qed

lemma count_ones_le: "count_ones (v :: 'w::len word) \<le> LENGTH('w)"
  using length_filter_le [of "bit v" "[0..<LENGTH('w)]"] by (simp add: count_ones_def)

text \<open>
  C34: for every count from one to the number of set bits, \<open>nth_set_bit\<close> returns the position of that set
  bit: the bit is set and exactly \<open>n - 1\<close> set bits lie below it.
\<close>

theorem nth_set_bit_correct:
  assumes "1 \<le> n" "n \<le> count_ones v"
  shows "is_nth_bit v n (nth_set_bit v n)"
proof -
  let ?low = "ucast v :: u64" and ?high = "ucast (drop_bit 64 v) :: u64"
  have total: "count_ones v = count_ones ?low + count_ones ?high"
    using bits_split(2) [of 64 v] by (simp add: count_ones_def)
  have bound: "count_ones ?low \<le> 64" "count_ones ?high \<le> 64"
    using count_ones_le [of ?low] count_ones_le [of ?high] by simp_all
  have word: "unat (of_nat k :: u64) = k" if "k \<le> 128" for k using that by (simp add: unat_of_nat)
  show ?thesis
  proof (cases "n > count_ones ?low")
    case True
    let ?k = "n - count_ones ?low"
    have "is_nth_bit ?high ?k (unat (nth_set_bit_u64 ?high (of_nat ?k)))"
      using nth_set_bit_u64_correct [of "of_nat ?k" ?high] word [of ?k] True assms total bound by simp
    then show ?thesis
      using True bits_split(2) [of "unat (nth_set_bit_u64 ?high (of_nat ?k))" v]
      by (auto simp: is_nth_bit_def nth_set_bit_def Let_def bit_unsigned_iff bit_drop_bit_eq add.commute)
  next
    case False
    have "is_nth_bit ?low n (unat (nth_set_bit_u64 ?low (of_nat n)))"
      using nth_set_bit_u64_correct [of "of_nat n" ?low] word [of n] False assms bound by simp
    then show ?thesis
      using False bits_split(1) [of "unat (nth_set_bit_u64 ?low (of_nat n))" v]
      by (auto simp: is_nth_bit_def nth_set_bit_def Let_def bit_unsigned_iff)
  qed
qed

theorem nth_set_bit_correct_witness:
  "count_ones (0x80000000000000000000000000000005 :: u128) = 3 \<and>
   nth_set_bit 0x80000000000000000000000000000005 3 = 127 \<and>
   is_nth_bit (0x80000000000000000000000000000005 :: u128) 3 127"
proof -
  have c: "count_ones (0x80000000000000000000000000000005 :: u128) = 3" by code_simp
  have "nth_set_bit 0x80000000000000000000000000000005 3 = 127" by code_simp
  then show ?thesis using nth_set_bit_correct [of 3 "0x80000000000000000000000000000005"] c by simp
qed

end
