(* ===== verification/Chunk.thy ===== *)
theory Chunk
  imports TextSummary BitSelect
begin

text \<open>
  The leaves of a rope (\<open>crates/rope/src/chunk.rs\<close>): at most 128 bytes of text with four 128-bit
  bitmaps over its bytes, which mark the first bytes of characters, the UTF-16 code units, the
  newlines and the tabs. This theory has construction, concatenation, slicing and the summary;
  \<open>ChunkCoords\<close> has the conversions between coordinates. Shifts take their amount modulo the
  width, as in the release build. The fixed-capacity string of the package \<open>heapless\<close> is a
  parameter \<open>push\<close>, its \<open>push_str\<close>.
\<close>

section \<open>Strings and words of the standard library\<close>

definition encode_utf8 :: "rchar \<Rightarrow> u8 list" where
  "encode_utf8 c =
     (if c < 0x80 then [of_nat c]
      else if c < 0x800 then [of_nat (0xC0 + c div 64), of_nat (0x80 + c mod 64)]
      else if c < 0x10000
        then [of_nat (0xE0 + c div 4096), of_nat (0x80 + c div 64 mod 64), of_nat (0x80 + c mod 64)]
      else [of_nat (0xF0 + c div 262144), of_nat (0x80 + c div 4096 mod 64),
            of_nat (0x80 + c div 64 mod 64), of_nat (0x80 + c mod 64)])"

definition as_bytes :: "rstr \<Rightarrow> u8 list" where
  "as_bytes s = concat (map encode_utf8 s)"

fun str_split_at :: "rstr \<Rightarrow> nat \<Rightarrow> (rstr \<times> rstr) rust" where
  "str_split_at s 0 = Some ([], s)"
| "str_split_at [] (Suc n) = None"
| "str_split_at (c # s) (Suc n) =
     (if len_utf8 c \<le> Suc n
      then map_option (\<lambda>(l, r). (c # l, r)) (str_split_at s (Suc n - len_utf8 c)) else None)"

definition str_is_char_boundary :: "rstr \<Rightarrow> nat \<Rightarrow> bool" where
  "str_is_char_boundary s i \<longleftrightarrow> str_split_at s i \<noteq> None"

fun back_to_boundary :: "rstr \<Rightarrow> nat \<Rightarrow> nat" where
  "back_to_boundary s i = (if i = 0 \<or> str_is_char_boundary s i then i else back_to_boundary s (i - 1))"

declare back_to_boundary.simps [simp del]

definition str_floor_char_boundary :: "rstr \<Rightarrow> nat \<Rightarrow> nat" where
  "str_floor_char_boundary s i = (if str_len s \<le> i then str_len s else back_to_boundary s i)"

definition str_ceil_char_boundary :: "rstr \<Rightarrow> nat \<Rightarrow> nat" where
  "str_ceil_char_boundary s i =
     (case find (str_is_char_boundary s) [i..<str_len s] of None \<Rightarrow> str_len s | Some j \<Rightarrow> j)"

definition str_slice :: "rstr \<Rightarrow> nat \<Rightarrow> nat \<Rightarrow> rstr rust" where
  "str_slice s a b = do { (l, _) \<leftarrow> str_split_at s b; (_, r) \<leftarrow> str_split_at l a; Some r }"

definition trailing_zeros :: "'w::len word \<Rightarrow> nat" where
  "trailing_zeros v = length (takeWhile (\<lambda>i. \<not> bit v i) [0..<LENGTH('w)])"

definition leading_zeros :: "'w::len word \<Rightarrow> nat" where
  "leading_zeros v = length (takeWhile (\<lambda>i. \<not> bit v i) (rev [0..<LENGTH('w)]))"

definition shl :: "u128 \<Rightarrow> nat \<Rightarrow> u128" where "shl v n = push_bit (n mod 128) v"
definition shr :: "u128 \<Rightarrow> nat \<Rightarrow> u128" where "shr v n = drop_bit (n mod 128) v"
definition unbounded_shl :: "u128 \<Rightarrow> u32 \<Rightarrow> u128" where "unbounded_shl v n = push_bit (unat n) v"
definition unbounded_shr :: "u128 \<Rightarrow> u32 \<Rightarrow> u128" where "unbounded_shr v n = drop_bit (unat n) v"

definition from_le_bytes :: "u8 list \<Rightarrow> u128" where
  "from_le_bytes bs = horner_sum ucast (2 ^ 8) bs"

section \<open>Chunks\<close>

definition MAX_BASE :: nat where "MAX_BASE = 128"
definition MIN_BASE :: nat where "MIN_BASE = MAX_BASE div 2"

record chunk =
  ck_chars :: u128
  ck_chars_utf16 :: u128
  ck_newlines :: u128
  ck_tabs :: u128
  ck_text :: rstr

record chunk_slice =
  sl_chars :: u128
  sl_chars_utf16 :: u128
  sl_newlines :: u128
  sl_tabs :: u128
  sl_text :: rstr

definition saturating_shl_mask :: "u32 \<Rightarrow> u128" where
  "saturating_shl_mask offset = unbounded_shl 1 offset - 1"

definition saturating_shr_mask :: "u32 \<Rightarrow> u128" where
  "saturating_shr_mask offset = NOT (unbounded_shr (- 1) offset)"

definition is_utf8_char_boundary :: "u8 \<Rightarrow> bool" where
  "is_utf8_char_boundary b \<longleftrightarrow> sint b \<ge> - 0x40"

text \<open>
  The two loops of \<open>Chunk::new\<close>: over the bytes of a group of eight, and over the groups, which
  fill four arrays of bytes.
\<close>

type_synonym 'a four = "'a \<times> 'a \<times> 'a \<times> 'a"

definition mark_byte :: "u8 four \<Rightarrow> nat \<times> u8 \<Rightarrow> u8 four" where
  "mark_byte = (\<lambda>(chars, newlines, tabs, chars_utf16) (ix, b).
     (chars OR push_bit ix (of_bool (is_utf8_char_boundary b)),
      newlines OR push_bit ix (of_bool (b = 10)),
      tabs OR push_bit ix (of_bool (b = 9)),
      chars_utf16 OR push_bit ix (of_bool (b \<ge> 240))))"

definition mark_bytes :: "u8 list \<Rightarrow> u8 four" where
  "mark_bytes chunk = foldl mark_byte (0, 0, 0, 0) (enumerate 0 chunk)"

function mark_groups :: "u8 list \<Rightarrow> nat \<Rightarrow> u8 list four \<Rightarrow> u8 list four rust" where
  "mark_groups bytes chunk_ix arrays =
     (if bytes = [] then Some arrays
      else let (chunk, rest) = (take (min (length bytes) 8) bytes, drop (min (length bytes) 8) bytes);
               (chars, newlines, tabs, chars_utf16) = mark_bytes chunk;
               (chars_bytes, newlines_bytes, tabs_bytes, chars_utf16_bytes) = arrays
           in if chunk_ix < MAX_BASE div 8
              then mark_groups rest (chunk_ix + 1)
                     (chars_bytes[chunk_ix := chars], newlines_bytes[chunk_ix := newlines],
                      tabs_bytes[chunk_ix := tabs], chars_utf16_bytes[chunk_ix := chars_utf16])
              else None)"
  by pat_completeness auto
termination
  by (relation "measure (\<lambda>(bytes, chunk_ix, arrays). length bytes)") auto

declare mark_groups.simps [simp del]

definition chunk_new :: "(rstr \<Rightarrow> rstr \<Rightarrow> rstr rust) \<Rightarrow> rstr \<Rightarrow> chunk rust" where
  "chunk_new push text = do {
     text \<leftarrow> push [] text;
     let zeros = replicate (MAX_BASE div 8) 0;
     (chars_bytes, newlines_bytes, tabs_bytes, chars_utf16_bytes)
       \<leftarrow> mark_groups (as_bytes text) 0 (zeros, zeros, zeros, zeros);
     let chars = from_le_bytes chars_bytes;
     Some \<lparr>ck_chars = chars, ck_chars_utf16 = shl (from_le_bytes chars_utf16_bytes) 1 OR chars,
           ck_newlines = from_le_bytes newlines_bytes, ck_tabs = from_le_bytes tabs_bytes, ck_text = text\<rparr> }"

definition as_slice :: "chunk \<Rightarrow> chunk_slice" where
  "as_slice self = \<lparr>sl_chars = ck_chars self, sl_chars_utf16 = ck_chars_utf16 self,
     sl_newlines = ck_newlines self, sl_tabs = ck_tabs self, sl_text = ck_text self\<rparr>"

definition slice_is_empty :: "chunk_slice \<Rightarrow> bool" where
  "slice_is_empty self \<longleftrightarrow> sl_text self = []"

definition chunk_append :: "(rstr \<Rightarrow> rstr \<Rightarrow> rstr rust) \<Rightarrow> chunk \<Rightarrow> chunk_slice \<Rightarrow> chunk rust" where
  "chunk_append push self sl =
     (if slice_is_empty sl then Some self
      else do {
        let base_ix = str_len (ck_text self);
        text \<leftarrow> push (ck_text self) (sl_text sl);
        Some \<lparr>ck_chars = ck_chars self OR shl (sl_chars sl) base_ix,
              ck_chars_utf16 = ck_chars_utf16 self OR shl (sl_chars_utf16 sl) base_ix,
              ck_newlines = ck_newlines self OR shl (sl_newlines sl) base_ix,
              ck_tabs = ck_tabs self OR shl (sl_tabs sl) base_ix, ck_text = text\<rparr> })"

definition chunk_prepend :: "(rstr \<Rightarrow> rstr \<Rightarrow> rstr rust) \<Rightarrow> chunk \<Rightarrow> chunk_slice \<Rightarrow> chunk rust" where
  "chunk_prepend push self sl =
     (if slice_is_empty sl then Some self
      else if ck_text self = [] then chunk_new push (sl_text sl)
      else do {
        let shift = str_len (sl_text sl);
        new_text \<leftarrow> push [] (sl_text sl);
        new_text \<leftarrow> push new_text (ck_text self);
        Some \<lparr>ck_chars = sl_chars sl OR shl (ck_chars self) shift,
              ck_chars_utf16 = sl_chars_utf16 sl OR shl (ck_chars_utf16 self) shift,
              ck_newlines = sl_newlines sl OR shl (ck_newlines self) shift,
              ck_tabs = sl_tabs sl OR shl (ck_tabs self) shift, ck_text = new_text\<rparr> })"

definition chunk_push_str :: "(rstr \<Rightarrow> rstr \<Rightarrow> rstr rust) \<Rightarrow> chunk \<Rightarrow> rstr \<Rightarrow> chunk rust" where
  "chunk_push_str push self text = do { c \<leftarrow> chunk_new push text; chunk_append push self (as_slice c) }"

definition chunk_prepend_str :: "(rstr \<Rightarrow> rstr \<Rightarrow> rstr rust) \<Rightarrow> chunk \<Rightarrow> rstr \<Rightarrow> chunk rust" where
  "chunk_prepend_str push self text = do { c \<leftarrow> chunk_new push text; chunk_prepend push self (as_slice c) }"

definition chunk_is_char_boundary :: "chunk \<Rightarrow> nat \<Rightarrow> bool" where
  "chunk_is_char_boundary self offset \<longleftrightarrow>
     unbounded_shl 1 (of_nat offset) AND ck_chars self \<noteq> 0 \<or> offset = str_len (ck_text self)"

fun chunk_floor_loop :: "u8 list \<Rightarrow> nat \<Rightarrow> nat" where
  "chunk_floor_loop bytes i =
     (if i > 0 then if is_utf8_char_boundary (bytes ! i) then i else chunk_floor_loop bytes (i - 1) else i)"

declare chunk_floor_loop.simps [simp del]

definition chunk_floor_char_boundary :: "chunk \<Rightarrow> nat \<Rightarrow> nat" where
  "chunk_floor_char_boundary self index =
     (if index \<ge> str_len (ck_text self) then str_len (ck_text self)
      else chunk_floor_loop (as_bytes (ck_text self)) index)"

section \<open>Slices\<close>

definition slice_into_chunk :: "(rstr \<Rightarrow> rstr \<Rightarrow> rstr rust) \<Rightarrow> chunk_slice \<Rightarrow> chunk rust" where
  "slice_into_chunk push self = do {
     text \<leftarrow> push [] (sl_text self);
     Some \<lparr>ck_chars = sl_chars self, ck_chars_utf16 = sl_chars_utf16 self, ck_newlines = sl_newlines self,
           ck_tabs = sl_tabs self, ck_text = text\<rparr> }"

definition slice_is_char_boundary :: "chunk_slice \<Rightarrow> nat \<Rightarrow> bool" where
  "slice_is_char_boundary self offset \<longleftrightarrow>
     unbounded_shl 1 (of_nat offset) AND sl_chars self \<noteq> 0 \<or> offset = str_len (sl_text self)"

definition empty_slice :: chunk_slice where
  "empty_slice = \<lparr>sl_chars = 0, sl_chars_utf16 = 0, sl_newlines = 0, sl_tabs = 0, sl_text = []\<rparr>"

definition slice_split_at :: "chunk_slice \<Rightarrow> nat \<Rightarrow> (chunk_slice \<times> chunk_slice) rust" where
  "slice_split_at self mid =
     (if mid = MAX_BASE then Some (self, empty_slice)
      else do {
        let mask = shl 1 mid - 1;
        (left_text, right_text) \<leftarrow> str_split_at (sl_text self) mid;
        Some (\<lparr>sl_chars = sl_chars self AND mask, sl_chars_utf16 = sl_chars_utf16 self AND mask,
               sl_newlines = sl_newlines self AND mask, sl_tabs = sl_tabs self AND mask, sl_text = left_text\<rparr>,
              \<lparr>sl_chars = shr (sl_chars self) mid, sl_chars_utf16 = shr (sl_chars_utf16 self) mid,
               sl_newlines = shr (sl_newlines self) mid, sl_tabs = shr (sl_tabs self) mid, sl_text = right_text\<rparr>) })"

definition slice_slice :: "chunk_slice \<Rightarrow> nat \<Rightarrow> nat \<Rightarrow> chunk_slice rust" where
  "slice_slice self range_start range_end =
     (if range_start = MAX_BASE then Some empty_slice
      else do {
        let range_start = (if \<not> slice_is_char_boundary self range_start
                           then str_ceil_char_boundary (sl_text self) range_start else range_start);
        let range_end = (if \<not> slice_is_char_boundary self range_end
                         then if range_end < range_start then range_start
                              else str_floor_char_boundary (sl_text self) range_end
                         else range_end);
        let mask = unbounded_shl 1 (of_nat range_end) - 1;
        text \<leftarrow> str_slice (sl_text self) range_start range_end;
        Some \<lparr>sl_chars = shr (sl_chars self AND mask) range_start, sl_chars_utf16 = shr (sl_chars_utf16 self AND mask) range_start,
              sl_newlines = shr (sl_newlines self AND mask) range_start, sl_tabs = shr (sl_tabs self AND mask) range_start,
              sl_text = text\<rparr> })"

definition chunk_slice_range :: "chunk \<Rightarrow> nat \<Rightarrow> nat \<Rightarrow> chunk_slice rust" where
  "chunk_slice_range self a b = slice_slice (as_slice self) a b"

definition slice_len :: "chunk_slice \<Rightarrow> nat" where
  "slice_len self = str_len (sl_text self)"

definition slice_len_utf16 :: "chunk_slice \<Rightarrow> offset_utf16" where
  "slice_len_utf16 self = OffsetUtf16 (count_ones (sl_chars_utf16 self))"

definition slice_lines :: "chunk_slice \<Rightarrow> point" where
  "slice_lines self =
     (let row = of_nat (count_ones (sl_newlines self));
          column = of_nat (leading_zeros (sl_newlines self)) - (128 - of_nat (str_len (sl_text self)))
      in Point row column)"

definition first_line_chars :: "chunk_slice \<Rightarrow> u32" where
  "first_line_chars self =
     of_nat (count_ones (sl_chars self AND saturating_shl_mask (of_nat (trailing_zeros (sl_newlines self)))))"

definition last_line_chars :: "chunk_slice \<Rightarrow> u32" where
  "last_line_chars self =
     of_nat (count_ones (sl_chars self AND saturating_shr_mask (of_nat (leading_zeros (sl_newlines self)))))"

definition last_line_len_utf16 :: "chunk_slice \<Rightarrow> u32" where
  "last_line_len_utf16 self =
     of_nat (count_ones (sl_chars_utf16 self AND saturating_shr_mask (of_nat (leading_zeros (sl_newlines self)))))"

lemma shr_decreases:
  assumes "v > 0"
  shows "unat (shr (shr v ix) 1) < unat v"
proof -
  have "0 < unat v" using assms by (simp add: word_less_nat_alt)
  have "unat (shr (shr v ix) 1) = unat v div 2 ^ (ix mod 128) div 2"
    unfolding shr_def unat_drop_bit_eq by (simp add: drop_bit_eq_div)
  also have "\<dots> \<le> unat v div 2" by (simp add: div_le_mono)
  also have "\<dots> < unat v" using \<open>0 < unat v\<close> by simp
  finally show ?thesis .
qed

text \<open>\<open>longest_row\<close>: the row, its characters, and the total number of characters.\<close>

function longest_row_loop :: "u128 \<Rightarrow> u128 \<Rightarrow> nat \<Rightarrow> u32 \<Rightarrow> u32 \<Rightarrow> u8 \<Rightarrow> u32 \<times> u32 \<times> nat" where
  "longest_row_loop chars newlines total_chars row longest_row longest_row_chars =
     (if newlines > 0
      then let newline_ix = trailing_zeros newlines;
               row_chars = (of_nat (count_ones (chars AND (shl 1 newline_ix - 1))) :: u8);
               total_chars = total_chars + unat row_chars;
               (longest_row, longest_row_chars) =
                 (if row_chars > longest_row_chars then (row, row_chars) else (longest_row, longest_row_chars));
               newlines = shr (shr newlines newline_ix) 1;
               chars = shr (shr chars newline_ix) 1
           in longest_row_loop chars newlines (total_chars + 1) (row + 1) longest_row longest_row_chars
      else let row_chars = (of_nat (count_ones chars) :: u8);
               total_chars = total_chars + unat row_chars
           in if row_chars > longest_row_chars then (row, ucast row_chars, total_chars)
              else (longest_row, ucast longest_row_chars, total_chars))"
  by pat_completeness auto
termination
  by (relation "measure (\<lambda>(chars, newlines, _). unat newlines)") (auto simp: shr_decreases [simplified])

declare longest_row_loop.simps [simp del]

definition longest_row :: "chunk_slice \<Rightarrow> u32 \<times> u32 \<times> nat" where
  "longest_row self = longest_row_loop (sl_chars self) (sl_newlines self) 0 0 0 0"

definition slice_text_summary :: "chunk_slice \<Rightarrow> text_summary" where
  "slice_text_summary self =
     (let (longest_row, longest_row_chars, chars) = longest_row self
      in \<lparr>ts_len = slice_len self, ts_chars = chars, ts_len_utf16 = slice_len_utf16 self,
          ts_lines = slice_lines self, ts_first_line_chars = first_line_chars self,
          ts_last_line_chars = last_line_chars self, ts_last_line_len_utf16 = last_line_len_utf16 self,
          ts_longest_row = longest_row, ts_longest_row_chars = longest_row_chars\<rparr>)"


section \<open>Bitmaps as lists of booleans\<close>

definition bm :: "bool list \<Rightarrow> u128" where
  "bm xs = horner_sum of_bool 2 xs"

named_theorems bitmap_simps \<open>operations on bitmaps, as operations on lists of booleans\<close>

lemma bit_bm: "bit (bm xs) j \<longleftrightarrow> j < 128 \<and> j < length xs \<and> xs ! j"
  by (simp add: bm_def bit_horner_sum_bit_word_iff)

lemma bm_eqI: "(\<And>j. j < 128 \<Longrightarrow> bit v j \<longleftrightarrow> bit (bm xs) j) \<Longrightarrow> v = bm xs"
  by (rule bit_word_eqI) simp

lemma bm_Nil [simp]: "bm [] = 0"
  by (simp add: bm_def)

lemma bm_append: "bm (xs @ ys) = bm xs OR push_bit (length xs) (bm ys)"
  by (rule bm_eqI [symmetric]) (auto simp: bit_bm bit_simps nth_append)

lemma bm_take: "bm xs AND (2 ^ k - 1) = bm (take k xs)"
proof -
  have "2 ^ k - (1::u128) = mask k" by (simp add: mask_eq_exp_minus_1)
  then show ?thesis by (auto intro!: bm_eqI simp: bit_bm bit_simps)
qed

lemma bm_drop: "length xs \<le> 128 \<Longrightarrow> drop_bit k (bm xs) = bm (drop k xs)"
  by (rule bm_eqI) (auto simp: bit_bm bit_simps add.commute)

lemma bm_or: "length xs = length ys \<Longrightarrow> bm xs OR bm ys = bm (map2 (\<or>) xs ys)"
  by (rule bm_eqI) (auto simp: bit_bm bit_simps)

lemma bm_False [simp]: "bm (xs @ replicate n False) = bm xs"
  by (rule bm_eqI [symmetric]) (auto simp: bit_bm nth_append)

lemma unbounded_shl_1: "n < 2 ^ 32 \<Longrightarrow> unbounded_shl 1 (of_nat n) = 2 ^ n"
  by (simp add: unbounded_shl_def)

lemma filter_upt_nth: "n \<le> length xs \<Longrightarrow> length (filter (\<lambda>i. xs ! i) [0..<n]) = length (filter id (take n xs))"
  by (induction n) (auto simp: take_Suc_conv_app_nth)

lemma count_ones_bm: "length xs \<le> 128 \<Longrightarrow> count_ones (bm xs) = length (filter id xs)"
proof -
  assume l: "length xs \<le> 128"
  then have "[0..<128] = [0..<length xs] @ [length xs..<128]" by (metis le_add_diff_inverse upt_add_eq_append zero_le)
  moreover have "filter (bit (bm xs)) [length xs..<128] = []" by (simp add: bit_bm)
  moreover have "filter (bit (bm xs)) [0..<length xs] = filter (\<lambda>i. xs ! i) [0..<length xs]"
    using l by (auto simp: bit_bm intro!: filter_cong)
  ultimately show ?thesis using filter_upt_nth [of "length xs" xs] by (simp add: count_ones_def)
qed

lemma takeWhile_length:
  "length (takeWhile P xs) = n \<longleftrightarrow> n \<le> length xs \<and> (\<forall>i < n. P (xs ! i)) \<and> (n < length xs \<longrightarrow> \<not> P (xs ! n))"
proof
  assume n: "length (takeWhile P xs) = n"
  have "P (xs ! i)" if "i < n" for i
    using that n nth_mem [of i "takeWhile P xs"] set_takeWhileD [of _ P xs] by (auto simp: takeWhile_nth)
  then show "n \<le> length xs \<and> (\<forall>i < n. P (xs ! i)) \<and> (n < length xs \<longrightarrow> \<not> P (xs ! n))"
    using n length_takeWhile_le [of P xs] nth_length_takeWhile [of P xs] by blast
next
  assume "n \<le> length xs \<and> (\<forall>i < n. P (xs ! i)) \<and> (n < length xs \<longrightarrow> \<not> P (xs ! n))"
  then have "takeWhile P xs = take n xs" "n \<le> length xs" by (auto intro: takeWhile_eq_take_P_nth)
  then show "length (takeWhile P xs) = n" by simp
qed

lemma trailing_zeros_bm:
  assumes "length xs \<le> 128"
  shows "trailing_zeros (bm xs) = (if True \<in> set xs then length (takeWhile Not xs) else 128)"
proof -
  have "(if True \<in> set xs then length (takeWhile Not xs) else 128) = n" if n: "n = trailing_zeros (bm xs)" for n
  proof -
    have *: "n \<le> 128" "\<forall>i < n. \<not> bit (bm xs) i" "n < 128 \<longrightarrow> bit (bm xs) n"
      using n takeWhile_length [of "\<lambda>i. \<not> bit (bm xs) i" "[0..<128]" n] by (auto simp: trailing_zeros_def)
    show ?thesis
    proof (cases "n < 128")
      case True
      then have "n < length xs" "xs ! n" using * by (auto simp: bit_bm)
      then show ?thesis using * True takeWhile_length [of Not xs n] by (auto simp: bit_bm in_set_conv_nth)
    next
      case False
      then show ?thesis using * assms by (auto simp: bit_bm in_set_conv_nth)
    qed
  qed
  then show ?thesis by simp
qed

lemma leading_zeros_bm:
  assumes "length xs \<le> 128"
  shows "leading_zeros (bm xs) = 128 - length xs + length (takeWhile Not (rev xs))"
  unfolding leading_zeros_def
proof (subst takeWhile_length, intro conjI allI impI)
  let ?n = "128 - length xs + length (takeWhile Not (rev xs))"
  note t = takeWhile_length [of Not "rev xs", THEN iffD1, OF refl]
  show "?n \<le> length (rev [0..<LENGTH(128)])" using t assms by simp linarith
  fix i assume i: "i < ?n"
  then show "\<not> bit (bm xs) (rev [0..<LENGTH(128)] ! i)"
    using t assms by (auto simp: rev_nth bit_bm dest!: spec [of _ "i - (128 - length xs)"])
next
  let ?n = "128 - length xs + length (takeWhile Not (rev xs))"
  note t = takeWhile_length [of Not "rev xs", THEN iffD1, OF refl]
  assume "?n < length (rev [0..<LENGTH(128)])"
  then show "\<not> \<not> bit (bm xs) (rev [0..<LENGTH(128)] ! ?n)"
    using t assms by (auto simp: rev_nth bit_bm)
qed


section \<open>What the bitmaps of a text are\<close>

text \<open>\<open>marks k s\<close> marks the first \<open>k c\<close> bytes of every character \<open>c\<close> of \<open>s\<close>.\<close>

definition marks :: "(rchar \<Rightarrow> nat) \<Rightarrow> rstr \<Rightarrow> bool list" where
  "marks k s = concat (map (\<lambda>c. map (\<lambda>i. i < k c) [0..<len_utf8 c]) s)"

definition tab :: rchar where "tab = 9"

definition slice_of :: "rstr \<Rightarrow> chunk_slice" where
  "slice_of s = \<lparr>sl_chars = bm (marks (\<lambda>_. 1) s), sl_chars_utf16 = bm (marks len_utf16 s),
     sl_newlines = bm (marks (\<lambda>c. of_bool (c = newline)) s), sl_tabs = bm (marks (\<lambda>c. of_bool (c = tab)) s), sl_text = s\<rparr>"

definition chunk_of :: "rstr \<Rightarrow> chunk" where
  "chunk_of s = \<lparr>ck_chars = bm (marks (\<lambda>_. 1) s), ck_chars_utf16 = bm (marks len_utf16 s),
     ck_newlines = bm (marks (\<lambda>c. of_bool (c = newline)) s), ck_tabs = bm (marks (\<lambda>c. of_bool (c = tab)) s), ck_text = s\<rparr>"

text \<open>Characters are code points below \<open>0x110000\<close>; the string type holds at most 128 bytes.\<close>

definition valid_str :: "rstr \<Rightarrow> bool" where
  "valid_str s \<longleftrightarrow> (\<forall>c \<in> set s. c < 0x110000)"

definition push_str_spec :: "(rstr \<Rightarrow> rstr \<Rightarrow> rstr rust) \<Rightarrow> bool" where
  "push_str_spec push \<longleftrightarrow> (\<forall>t s. push t s = (if str_len t + str_len s \<le> MAX_BASE then Some (t @ s) else None))"

lemma marks_simps [simp]:
  "marks k [] = []" "marks k (c # s) = map (\<lambda>i. i < k c) [0..<len_utf8 c] @ marks k s"
  "marks k (s @ t) = marks k s @ marks k t"
  by (simp_all add: marks_def)

lemma length_marks [simp]: "length (marks k s) = str_len s"
  by (induction s) simp_all

lemma as_bytes_simps [simp]: "as_bytes [] = []" "as_bytes (c # s) = encode_utf8 c @ as_bytes s"
  by (simp_all add: as_bytes_def)

lemma length_encode_utf8 [simp]: "length (encode_utf8 c) = len_utf8 c"
  by (simp add: encode_utf8_def len_utf8_def)

lemma length_as_bytes [simp]: "length (as_bytes s) = str_len s"
  by (induction s) simp_all

lemma valid_str_simps [simp]:
  "valid_str []" "valid_str (c # s) \<longleftrightarrow> c < 0x110000 \<and> valid_str s" "valid_str (s @ t) \<longleftrightarrow> valid_str s \<and> valid_str t"
  by (auto simp: valid_str_def)

lemma sl_text_slice_of [simp]: "sl_text (slice_of s) = s"
  by (simp add: slice_of_def)

lemma as_slice_chunk_of [simp]: "as_slice (chunk_of s) = slice_of s"
  by (simp add: as_slice_def chunk_of_def slice_of_def)

text \<open>A predicate that picks lead bytes marks the characters with such a lead byte.\<close>

lemma of_nat_u8:
  fixes n :: nat assumes "n < 256" shows "unat (of_nat n :: u8) = n"
  using assms by (simp add: unat_of_nat)

lemma is_utf8_char_boundary_nat:
  assumes "n < 256" shows "is_utf8_char_boundary (of_nat n) \<longleftrightarrow> n < 128 \<or> 192 \<le> n"
proof -
  have "sint (of_nat n :: u8) = int n - 256 * of_bool (bit (int n) 7)"
    using assms by (simp add: sint_uint uint_nat of_nat_u8 signed_take_bit_eq_take_bit_minus take_bit_eq_mod)
  also have "bit (int n) 7 \<longleftrightarrow> 128 \<le> n"
  proof -
    have "n div 128 = 0 \<or> n div 128 = 1" using assms by auto
    moreover have "bit (int n) 7 \<longleftrightarrow> odd (n div 128)" by (simp add: bit_of_nat_iff_bit) (simp add: bit_iff_odd)
    ultimately show ?thesis by auto
  qed
  finally show ?thesis using assms by (auto simp: is_utf8_char_boundary_def)
qed

lemma byte_tests:
  assumes "n < 256"
  shows "(of_nat n :: u8) = 10 \<longleftrightarrow> n = 10" "(of_nat n :: u8) = 9 \<longleftrightarrow> n = 9" "(240 :: u8) \<le> of_nat n \<longleftrightarrow> 240 \<le> n"
  using of_nat_u8 [OF assms] by (auto simp: word_le_nat_alt word_unat_eq_iff)

lemma map_below: "k \<le> 1 \<Longrightarrow> map (\<lambda>i. i < k) [0..<Suc n] = (0 < k) # replicate n False" for k :: nat
  by (rule nth_equalityI) (simp_all add: nth_Cons' del: upt_Suc)

lemma lead_byte_marks:
  assumes "c < 0x110000"
  shows "map is_utf8_char_boundary (encode_utf8 c) = map (\<lambda>i. i < 1) [0..<len_utf8 c]"
    and "map (\<lambda>b. b = 10) (encode_utf8 c) = map (\<lambda>i. i < of_bool (c = newline)) [0..<len_utf8 c]"
    and "map (\<lambda>b. b = 9) (encode_utf8 c) = map (\<lambda>i. i < of_bool (c = tab)) [0..<len_utf8 c]"
    and "map (\<lambda>b. b \<ge> 240) (encode_utf8 c) = map (\<lambda>i. i < of_bool (len_utf8 c = 4)) [0..<len_utf8 c]"
proof -
  have m: "x mod 64 < 64" for x :: nat by simp
  define enc where "enc = (\<lambda>b bs. (of_nat b :: u8) # map (\<lambda>x. of_nat (128 + x mod 64)) (bs::nat list))"
  have "\<exists>b bs. encode_utf8 c = enc b bs \<and> len_utf8 c = Suc (length bs) \<and> b < 256 \<and> (b < 128 \<or> 192 \<le> b)
      \<and> (b = 10 \<longleftrightarrow> c = newline) \<and> (b = 9 \<longleftrightarrow> c = tab) \<and> (240 \<le> b \<longleftrightarrow> len_utf8 c = 4)"
  proof -
    consider "c < 0x80" | "0x80 \<le> c" "c < 0x800" | "0x800 \<le> c" "c < 0x10000" | "0x10000 \<le> c" by linarith
    then show ?thesis
    proof cases
      case 1
      then show ?thesis
        by (intro exI [of _ c] exI [of _ "[]"]) (simp add: enc_def encode_utf8_def len_utf8_def newline_def tab_def)
    next
      case 2
      then show ?thesis
        by (intro exI [of _ "0xC0 + c div 64"] exI [of _ "[c]"]) (auto simp: enc_def encode_utf8_def len_utf8_def newline_def tab_def)
    next
      case 3
      then show ?thesis
        by (intro exI [of _ "0xE0 + c div 4096"] exI [of _ "[c div 64, c]"]) (auto simp: enc_def encode_utf8_def len_utf8_def newline_def tab_def)
    next
      case 4
      then show ?thesis using assms
        by (intro exI [of _ "0xF0 + c div 262144"] exI [of _ "[c div 4096, c div 64, c]"]) (auto simp: enc_def encode_utf8_def len_utf8_def newline_def tab_def)
    qed
  qed
  then obtain b bs where e: "encode_utf8 c = enc b bs" "len_utf8 c = Suc (length bs)" and b: "b < 256" "b < 128 \<or> 192 \<le> b"
    "b = 10 \<longleftrightarrow> c = newline" "b = 9 \<longleftrightarrow> c = tab" "240 \<le> b \<longleftrightarrow> len_utf8 c = 4" by blast
  have tail: "map (\<lambda>i. i < k) [0..<len_utf8 c] = (0 < k) # replicate (length bs) False" if "k \<le> 1" for k :: nat
    unfolding e(2) using that by (rule map_below)
  have cont: "128 + x mod 64 < 256" "\<not> (128 + x mod 64 < 128 \<or> 192 \<le> 128 + x mod 64)" for x :: nat
    using m [of x] by simp_all
  note t = byte_tests [OF b(1)] byte_tests [OF cont(1)] is_utf8_char_boundary_nat [OF b(1)] is_utf8_char_boundary_nat [OF cont(1)]
  show "map is_utf8_char_boundary (encode_utf8 c) = map (\<lambda>i. i < 1) [0..<len_utf8 c]"
    by (subst tail, simp) (use b cont in \<open>auto simp: e(1) enc_def t map_replicate_const comp_def simp del: of_nat_add\<close>)
  show "map (\<lambda>b. b = 10) (encode_utf8 c) = map (\<lambda>i. i < of_bool (c = newline)) [0..<len_utf8 c]"
    by (subst tail, simp) (use b in \<open>auto simp: e(1) enc_def t map_replicate_const comp_def simp del: of_nat_add\<close>)
  show "map (\<lambda>b. b = 9) (encode_utf8 c) = map (\<lambda>i. i < of_bool (c = tab)) [0..<len_utf8 c]"
    by (subst tail, simp) (use b in \<open>auto simp: e(1) enc_def t map_replicate_const comp_def simp del: of_nat_add\<close>)
  have "\<not> 240 \<le> 128 + x mod 64" for x :: nat using m [of x] by simp
  then show "map (\<lambda>b. b \<ge> 240) (encode_utf8 c) = map (\<lambda>i. i < of_bool (len_utf8 c = 4)) [0..<len_utf8 c]"
    by (subst tail, simp) (use b in \<open>auto simp: e(1) enc_def t map_replicate_const comp_def simp del: of_nat_add\<close>)
qed


lemma byte_marks:
  assumes "valid_str s"
  shows "map is_utf8_char_boundary (as_bytes s) = marks (\<lambda>_. 1) s"
    and "map (\<lambda>b. b = 10) (as_bytes s) = marks (\<lambda>c. of_bool (c = newline)) s"
    and "map (\<lambda>b. b = 9) (as_bytes s) = marks (\<lambda>c. of_bool (c = tab)) s"
    and "map (\<lambda>b. b \<ge> 240) (as_bytes s) = marks (\<lambda>c. of_bool (len_utf8 c = 4)) s"
  using assms by (induction s) (simp_all add: lead_byte_marks)

text \<open>The second unit of a surrogate pair is the byte after the lead byte of a four-byte character.\<close>

lemma upt_len_utf8: "[0..<len_utf8 c] = (if c < 0x80 then [0] else if c < 0x800 then [0, 1]
    else if c < 0x10000 then [0, 1, 2] else [0, 1, 2, 3])"
  by (simp add: len_utf8_def upt_rec)

lemma utf16_marks:
  "map2 (\<or>) (False # marks (\<lambda>c. of_bool (len_utf8 c = 4)) s) (marks (\<lambda>_. 1) s @ [False]) = marks len_utf16 s @ [False]"
  by (induction s) (simp_all add: upt_len_utf8, simp_all add: len_utf8_def len_utf16_def)

lemma bm_Cons_False: "bm (False # xs) = shl (bm xs) 1"
  using bm_append [of "[False]" xs] by (simp add: shl_def bm_def)

lemma bm_utf16: "shl (bm (marks (\<lambda>c. of_bool (len_utf8 c = 4)) s)) 1 OR bm (marks (\<lambda>_. 1) s) = bm (marks len_utf16 s)"
proof -
  have "bm (False # marks (\<lambda>c. of_bool (len_utf8 c = 4)) s) OR bm (marks (\<lambda>_. 1) s @ [False]) = bm (marks len_utf16 s @ [False])"
    unfolding utf16_marks [symmetric] by (rule bm_or) simp
  then show ?thesis using bm_False [of _ 1] by (simp add: bm_Cons_False)
qed

subsection \<open>The loops of construction\<close>

definition byte_bits :: "(u8 \<Rightarrow> bool) \<Rightarrow> u8 list \<Rightarrow> u8" where
  "byte_bits p bs = horner_sum of_bool 2 (map p bs)"

function groups :: "(u8 \<Rightarrow> bool) \<Rightarrow> u8 list \<Rightarrow> u8 list" where
  "groups p bs = (if bs = [] then [] else byte_bits p (take 8 bs) # groups p (drop 8 bs))"
  by pat_completeness auto
termination
  by (relation "measure (\<lambda>(p, bs). length bs)") auto

declare groups.simps [simp del]

lemma byte_bits_snoc: "byte_bits p (bs @ [b]) = byte_bits p bs OR push_bit (length bs) (of_bool (p b))"
  by (rule bit_word_eqI)
    (auto simp: byte_bits_def bit_simps bit_horner_sum_bit_word_iff nth_append less_Suc_eq)

lemma mark_bytes_eq:
  "mark_bytes bs = (byte_bits is_utf8_char_boundary bs, byte_bits (\<lambda>b. b = 10) bs, byte_bits (\<lambda>b. b = 9) bs, byte_bits (\<lambda>b. b \<ge> 240) bs)"
proof (induction bs rule: rev_induct)
  case Nil
  then show ?case by (simp add: mark_bytes_def byte_bits_def)
next
  case (snoc b bs)
  then show ?case by (simp add: mark_bytes_def enumerate_append_eq mark_byte_def byte_bits_snoc)
qed

lemma length_groups [simp]: "length (groups p bs) = (length bs + 7) div 8"
proof (induction p bs rule: groups.induct)
  case (1 p bs)
  show ?case
  proof (cases "bs = []")
    case False
    then have "length (groups p bs) = Suc ((length bs - 8 + 7) div 8)" using 1 by (simp add: groups.simps [of p bs])
    also have "\<dots> = (length bs + 7) div 8" using False by (cases "length bs \<le> 8") (auto simp: div_if [of "length bs + 7"] le_Suc_eq)
    finally show ?thesis .
  qed (simp add: groups.simps)
qed

definition put_groups :: "nat \<Rightarrow> (u8 \<Rightarrow> bool) \<Rightarrow> u8 list \<Rightarrow> u8 list \<Rightarrow> u8 list" where
  "put_groups ix p bs xs = take ix xs @ groups p bs @ drop (ix + (length bs + 7) div 8) xs"

lemma put_groups_step:
  assumes "bs \<noteq> []" "ix < length xs"
  shows "put_groups (Suc ix) p (drop 8 bs) (xs[ix := byte_bits p (take 8 bs)]) = put_groups ix p bs xs"
proof -
  have "(length bs + 7) div 8 = Suc ((length bs - 8 + 7) div 8)"
    using arg_cong [OF groups.simps [of p bs], of length] assms(1) by simp
  then show ?thesis
    using assms by (simp add: put_groups_def groups.simps [of p bs] take_Suc_conv_app_nth)
qed

lemma mark_groups_eq:
  assumes "ix + (length bs + 7) div 8 \<le> 16" "length A = 16" "length B = 16" "length C = 16" "length D = 16"
  shows "mark_groups bs ix (A, B, C, D) =
    Some (put_groups ix is_utf8_char_boundary bs A, put_groups ix (\<lambda>b. b = 10) bs B,
          put_groups ix (\<lambda>b. b = 9) bs C, put_groups ix (\<lambda>b. b \<ge> 240) bs D)"
  using assms
proof (induction "length bs" arbitrary: bs ix A B C D rule: less_induct)
  case less
  show ?case
  proof (cases "bs = []")
    case True
    then show ?thesis by (simp add: mark_groups.simps put_groups_def groups.simps)
  next
    case False
    have m: "take (min (length bs) 8) bs = take 8 bs" "drop (min (length bs) 8) bs = drop 8 bs" by (simp_all add: min_def)
    have d: "(length bs + 7) div 8 = Suc ((length (drop 8 bs) + 7) div 8)"
      using arg_cong [OF groups.simps [of "\<lambda>_. True" bs], of length] False by simp
    then have ix: "ix < 16" "Suc ix + (length (drop 8 bs) + 7) div 8 \<le> 16" using less.prems(1) by simp_all
    have "mark_groups bs ix (A, B, C, D) = mark_groups (drop 8 bs) (Suc ix)
      (A[ix := byte_bits is_utf8_char_boundary (take 8 bs)], B[ix := byte_bits (\<lambda>b. b = 10) (take 8 bs)],
       C[ix := byte_bits (\<lambda>b. b = 9) (take 8 bs)], D[ix := byte_bits (\<lambda>b. b \<ge> 240) (take 8 bs)])"
      using False ix(1) by (simp add: mark_groups.simps [of bs] m mark_bytes_eq MAX_BASE_def)
    also have "\<dots> = Some (put_groups ix is_utf8_char_boundary bs A, put_groups ix (\<lambda>b. b = 10) bs B,
          put_groups ix (\<lambda>b. b = 9) bs C, put_groups ix (\<lambda>b. b \<ge> 240) bs D)"
      using less.hyps [of "drop 8 bs" "Suc ix"] ix False less.prems by (simp add: put_groups_step)
    finally show ?thesis .
  qed
qed

lemma ucast_byte_bits: "length bs \<le> 8 \<Longrightarrow> ucast (byte_bits p bs) = bm (map p bs)"
  by (rule bm_eqI) (auto simp: byte_bits_def bm_def bit_simps bit_horner_sum_bit_word_iff)

lemma from_le_bytes_groups: "from_le_bytes (groups p bs @ replicate n 0) = bm (map p bs)"
proof (induction p bs rule: groups.induct)
  case (1 p bs)
  have zeros: "from_le_bytes (replicate n 0) = 0" for n
    by (induction n) (simp_all add: from_le_bytes_def)
  show ?case
  proof (cases "bs = []")
    case True
    then show ?thesis by (simp add: groups.simps zeros)
  next
    case False
    have "from_le_bytes (groups p bs @ replicate n 0) = bm (map p (take 8 bs)) + 2 ^ 8 * bm (map p (drop 8 bs))"
      using 1 False by (simp add: groups.simps [of p bs] from_le_bytes_def ucast_byte_bits)
    also have "\<dots> = bm (map p (take 8 bs) @ map p (drop 8 bs))"
    proof (cases "length bs \<le> 8")
      case False
      then show ?thesis by (simp add: bm_def horner_sum_append)
    qed simp
    also have "\<dots> = bm (map p bs)" by (simp flip: map_append)
    finally show ?thesis .
  qed
qed

lemma chunk_new_eq:
  assumes "push_str_spec push" "valid_str s"
  shows "chunk_new push s = (if str_len s \<le> MAX_BASE then Some (chunk_of s) else None)"
proof (cases "str_len s \<le> MAX_BASE")
  case True
  let ?z = "replicate 16 0 :: u8 list"
  have le: "str_len s \<le> 128" using True by (simp add: MAX_BASE_def)
  then have g: "(length (as_bytes s) + 7) div 8 \<le> 16" by simp
  have "mark_groups (as_bytes s) 0 (?z, ?z, ?z, ?z) =
    Some (put_groups 0 is_utf8_char_boundary (as_bytes s) ?z, put_groups 0 (\<lambda>b. b = 10) (as_bytes s) ?z,
          put_groups 0 (\<lambda>b. b = 9) (as_bytes s) ?z, put_groups 0 (\<lambda>b. b \<ge> 240) (as_bytes s) ?z)"
    by (rule mark_groups_eq) (use g in simp_all)
  moreover have "from_le_bytes (put_groups 0 p (as_bytes s) ?z) = bm (map p (as_bytes s))" for p
    by (simp add: put_groups_def from_le_bytes_groups)
  moreover have "MAX_BASE div 8 = 16" by (simp add: MAX_BASE_def)
  ultimately show ?thesis
    using True assms(1) by (simp add: chunk_new_def push_str_spec_def byte_marks [OF assms(2)] bm_utf16 [simplified] chunk_of_def Let_def)
next
  case False
  then show ?thesis using assms(1) by (simp add: chunk_new_def push_str_spec_def)
qed

subsection \<open>Concatenation\<close>

lemma shl_bm: "length xs + length ys \<le> 128 \<Longrightarrow> ys \<noteq> [] \<Longrightarrow> bm xs OR shl (bm ys) (length xs) = bm (xs @ ys)"
  by (cases ys) (simp_all add: shl_def bm_append)

lemma str_len_pos: "s \<noteq> [] \<longleftrightarrow> 0 < str_len s"
  using len_utf8_bounds(1) by (cases s) (auto simp: less_le_trans add_pos_nonneg Suc_le_eq)

lemma marks_or:
  assumes "str_len s + str_len t \<le> 128" "t \<noteq> []"
  shows "bm (marks k s) OR shl (bm (marks k t)) (str_len s) = bm (marks k (s @ t))"
proof -
  have "marks k t \<noteq> []" using assms(2) length_marks [of k t] str_len_pos [of t] by (metis length_0_conv less_irrefl)
  then show ?thesis using shl_bm [of "marks k s" "marks k t"] assms(1) by simp
qed

lemma chunk_append_eq:
  assumes "push_str_spec push" "str_len s \<le> MAX_BASE"
  shows "chunk_append push (chunk_of s) (slice_of t) = (if str_len s + str_len t \<le> MAX_BASE then Some (chunk_of (s @ t)) else None)"
  using assms by (auto simp: chunk_append_def slice_is_empty_def chunk_of_def slice_of_def push_str_spec_def MAX_BASE_def marks_or Let_def
      simp del: marks_simps(3))

lemma chunk_prepend_eq:
  assumes "push_str_spec push" "str_len s \<le> MAX_BASE" "valid_str t"
  shows "chunk_prepend push (chunk_of s) (slice_of t) = (if str_len t + str_len s \<le> MAX_BASE then Some (chunk_of (t @ s)) else None)"
proof (cases "s = []")
  case True
  then show ?thesis using chunk_new_eq [OF assms(1,3)]
    by (auto simp: chunk_prepend_def slice_is_empty_def chunk_of_def slice_of_def)
next
  case False
  then show ?thesis using assms(1,2)
    by (auto simp: chunk_prepend_def slice_is_empty_def chunk_of_def slice_of_def push_str_spec_def MAX_BASE_def marks_or Let_def
        simp del: marks_simps(3))
qed


subsection \<open>Boundaries, splitting and slicing\<close>

lemma str_split_at_Some: "str_split_at s n = Some (l, r) \<longleftrightarrow> s = l @ r \<and> str_len l = n"
proof (induction s n arbitrary: l rule: str_split_at.induct)
  case (1 s)
  have "str_len l = 0 \<longleftrightarrow> l = []" using str_len_pos [of l] by auto
  then show ?case by auto
next
  case (3 c s n)
  show ?case
  proof (cases "len_utf8 c \<le> Suc n")
    case True
    then have "str_split_at (c # s) (Suc n) = Some (l, r) \<longleftrightarrow> (\<exists>l'. l = c # l' \<and> str_split_at s (Suc n - len_utf8 c) = Some (l', r))"
      by auto
    also have "\<dots> \<longleftrightarrow> (\<exists>l'. l = c # l' \<and> s = l' @ r \<and> str_len l' = Suc n - len_utf8 c)" using 3 True by simp
    finally show ?thesis using True by (cases l) auto
  next
    case False
    then show ?thesis by (cases l) auto
  qed
qed auto

lemma boundary_iff: "str_is_char_boundary s n \<longleftrightarrow> (\<exists>l r. s = l @ r \<and> str_len l = n)"
  unfolding str_is_char_boundary_def using str_split_at_Some by fastforce

lemma boundary_le: "str_is_char_boundary s n \<Longrightarrow> n \<le> str_len s"
  by (auto simp: boundary_iff)

lemma boundary_0 [simp]: "str_is_char_boundary s 0"
  by (simp add: str_is_char_boundary_def)

lemma boundary_len [simp]: "str_is_char_boundary s (str_len s)"
  by (auto simp: boundary_iff)

lemma prefix_unique: "l @ r = l' @ r' \<Longrightarrow> str_len l = str_len l' \<Longrightarrow> l = l' \<and> r = r'"
  using str_split_at_Some [of "l @ r" "str_len l" l r] str_split_at_Some [of "l @ r" "str_len l" l' r'] by simp

lemma boundary_marks: "n < str_len s \<Longrightarrow> marks (\<lambda>_. 1) s ! n \<longleftrightarrow> str_is_char_boundary s n"
proof (induction s arbitrary: n)
  case (Cons c s)
  show ?case
  proof (cases "n < len_utf8 c")
    case True
    then have "str_is_char_boundary (c # s) n \<longleftrightarrow> n = 0" by (cases n) (simp_all add: str_is_char_boundary_def)
    then show ?thesis using True by (simp add: nth_append)
  next
    case False
    then have "str_is_char_boundary (c # s) n \<longleftrightarrow> str_is_char_boundary s (n - len_utf8 c)"
      using len_utf8_bounds(1) [of c] by (cases n) (auto simp: str_is_char_boundary_def)
    then show ?thesis using False Cons by (simp add: nth_append)
  qed
qed simp

lemma and_exp_word: "2 ^ k AND v \<noteq> 0 \<longleftrightarrow> bit v k" for v :: "'w::len word"
proof
  assume "bit v k"
  then have "bit (2 ^ k AND v) k" by (auto simp: bit_simps dest: bit_imp_le_length)
  then show "2 ^ k AND v \<noteq> 0" by auto
next
  assume "2 ^ k AND v \<noteq> 0"
  then obtain j where "bit (2 ^ k AND v) j" by (auto simp: bit_eq_iff)
  then show "bit v k" by (auto simp: bit_simps)
qed

lemma slice_boundary_eq:
  assumes "str_len s \<le> 128" "n < 2 ^ 32"
  shows "slice_is_char_boundary (slice_of s) n \<longleftrightarrow> str_is_char_boundary s n"
proof -
  have "unbounded_shl 1 (of_nat n) AND bm (marks (\<lambda>_. 1) s) \<noteq> 0 \<longleftrightarrow> n < str_len s \<and> marks (\<lambda>_. 1) s ! n"
    using assms by (auto simp: unbounded_shl_def and_exp_word bit_bm)
  then show ?thesis
    using boundary_marks [of n s] boundary_le [of s n] by (auto simp: slice_is_char_boundary_def slice_of_def)
qed

lemma take_marks [simp]: "take (str_len l) (marks k l @ xs) = marks k l" "drop (str_len l) (marks k l @ xs) = xs"
  by simp_all

lemma slice_split_at_eq:
  assumes "str_len s \<le> 128"
  shows "slice_split_at (slice_of s) mid =
    (if mid = 128 then Some (slice_of s, slice_of []) else map_option (map_prod slice_of slice_of) (str_split_at s mid))"
proof (cases "mid = 128")
  case False
  show ?thesis
  proof (cases "str_split_at s mid")
    case (Some p)
    obtain l r where p: "p = (l, r)" by (cases p)
    then have s: "s = l @ r" "mid = str_len l" using Some by (simp_all add: str_split_at_Some)
    then have m: "str_len l < 128" "str_len l + str_len r \<le> 128" using assms False by simp_all
    have "bm (marks k s) AND (shl 1 mid - 1) = bm (marks k l)" "shr (bm (marks k s)) mid = bm (marks k r)" for k
      using m by (simp_all add: s shl_def shr_def bm_take bm_drop)
    then show ?thesis using False Some p by (simp add: slice_split_at_def slice_of_def MAX_BASE_def)
  qed (use False in \<open>simp add: slice_split_at_def slice_of_def MAX_BASE_def\<close>)
qed (simp add: slice_split_at_def MAX_BASE_def slice_of_def empty_slice_def)

text \<open>Splitting by the boundaries of the text: at 128 the end of a full text, or no boundary at all.\<close>

lemma slice_split_at_cases:
  assumes "str_len s \<le> 128"
  shows "if str_is_char_boundary s mid
    then (\<exists>l r. s = l @ r \<and> str_len l = mid \<and> slice_split_at (slice_of s) mid = Some (slice_of l, slice_of r))
    else slice_split_at (slice_of s) mid = (if mid = 128 then Some (slice_of s, slice_of []) else None)"
proof (cases "str_split_at s mid")
  case None
  then show ?thesis using slice_split_at_eq [OF assms] by (simp add: str_is_char_boundary_def)
next
  case (Some p)
  obtain l r where p: "p = (l, r)" by (cases p)
  then have s: "s = l @ r" "str_len l = mid" using Some by (simp_all add: str_split_at_Some)
  have "r = []" if "mid = 128" using assms s that str_len_pos [of r] by (cases "r = []") simp_all
  then show ?thesis using slice_split_at_eq [OF assms, of mid] Some p s by (auto simp: str_is_char_boundary_def)
qed

lemma str_slice_Some: "str_slice s a b = Some m \<longleftrightarrow> (\<exists>l r. s = l @ m @ r \<and> str_len l = a \<and> str_len l + str_len m = b)"
proof -
  have "str_slice s a b = Some m \<longleftrightarrow> (\<exists>p r l. str_split_at s b = Some (p, r) \<and> str_split_at p a = Some (l, m))"
    unfolding str_slice_def by (auto simp: bind_eq_Some_conv)
  also have "\<dots> \<longleftrightarrow> (\<exists>l r. s = (l @ m) @ r \<and> str_len (l @ m) = b \<and> str_len l = a)"
    unfolding str_split_at_Some by blast
  finally show ?thesis by auto
qed

definition slice_start :: "rstr \<Rightarrow> nat \<Rightarrow> nat" where
  "slice_start s a = (if str_is_char_boundary s a then a else str_ceil_char_boundary s a)"

definition slice_end :: "rstr \<Rightarrow> nat \<Rightarrow> nat \<Rightarrow> nat" where
  "slice_end s a b = (if str_is_char_boundary s b then b else if b < slice_start s a then slice_start s a
     else str_floor_char_boundary s b)"

lemma ceil_boundary:
  shows "str_is_char_boundary s (str_ceil_char_boundary s a)"
    and "a \<le> j \<Longrightarrow> str_is_char_boundary s j \<Longrightarrow> str_ceil_char_boundary s a \<le> j"
    and "a \<le> str_len s \<Longrightarrow> a \<le> str_ceil_char_boundary s a"
proof -
  let ?f = "find (str_is_char_boundary s) [a..<str_len s]"
  have None: "?f = None \<Longrightarrow> a \<le> j \<Longrightarrow> str_is_char_boundary s j \<Longrightarrow> str_len s \<le> j" for j
    by (auto simp: find_None_iff) (meson not_le)
  have Some: "str_is_char_boundary s k \<and> a \<le> k \<and> (\<forall>j. a \<le> j \<longrightarrow> str_is_char_boundary s j \<longrightarrow> k \<le> j)" if "?f = Some k" for k
  proof -
    obtain i where i: "i < length [a..<str_len s]" "str_is_char_boundary s ([a..<str_len s] ! i)" "k = [a..<str_len s] ! i"
      "\<forall>j<i. \<not> str_is_char_boundary s ([a..<str_len s] ! j)" using \<open>?f = Some k\<close> by (auto simp: find_Some_iff)
    have k: "k = a + i" using i(1,3) by simp
    have "k \<le> j" if "a \<le> j" "str_is_char_boundary s j" for j
    proof (rule ccontr)
      assume "\<not> k \<le> j"
      then have "j - a < i" "[a..<str_len s] ! (j - a) = j" using that i(1) k by simp_all
      then show False using i(4) that(2) by metis
    qed
    then show ?thesis using i(2,3) k by simp
  qed
  show "str_is_char_boundary s (str_ceil_char_boundary s a)"
    using Some by (cases ?f) (auto simp: str_ceil_char_boundary_def)
  show "a \<le> j \<Longrightarrow> str_is_char_boundary s j \<Longrightarrow> str_ceil_char_boundary s a \<le> j"
    using Some [of "the ?f"] None [of j] by (cases ?f) (simp_all add: str_ceil_char_boundary_def)
  show "a \<le> str_len s \<Longrightarrow> a \<le> str_ceil_char_boundary s a"
    using Some by (cases ?f) (auto simp: str_ceil_char_boundary_def)
qed

lemma back_boundary:
  "str_is_char_boundary s (back_to_boundary s a) \<and> back_to_boundary s a \<le> a
    \<and> (\<forall>j \<le> a. str_is_char_boundary s j \<longrightarrow> j \<le> back_to_boundary s a)"
proof (induction s a rule: back_to_boundary.induct)
  case (1 s i)
  show ?case
  proof (cases "i = 0 \<or> str_is_char_boundary s i")
    case False
    then have "j \<le> i \<Longrightarrow> str_is_char_boundary s j \<Longrightarrow> j \<le> i - 1" for j by (cases "j = i") auto
    then show ?thesis using 1 [OF False] False by (auto simp: back_to_boundary.simps [of s i])
  qed (auto simp: back_to_boundary.simps [of s i])
qed

lemma floor_boundary:
  shows "str_is_char_boundary s (str_floor_char_boundary s a)"
    and "j \<le> a \<Longrightarrow> str_is_char_boundary s j \<Longrightarrow> j \<le> str_floor_char_boundary s a"
    and "str_floor_char_boundary s a \<le> a"
  using back_boundary [of s a] boundary_le [of s j] by (auto simp: str_floor_char_boundary_def)

lemma slice_bounds:
  shows "str_is_char_boundary s (slice_start s a)" "str_is_char_boundary s (slice_end s a b)"
    and "a \<le> b \<Longrightarrow> slice_start s a \<le> slice_end s a b"
proof -
  show start: "str_is_char_boundary s (slice_start s a)" by (simp add: slice_start_def ceil_boundary)
  show "str_is_char_boundary s (slice_end s a b)" using start by (simp add: slice_end_def floor_boundary)
  assume ab: "a \<le> b"
  then have "str_is_char_boundary s b \<Longrightarrow> slice_start s a \<le> b"
    using ceil_boundary(2) [of a b s] by (simp add: slice_start_def)
  then show "slice_start s a \<le> slice_end s a b"
    using start floor_boundary(2) [of "slice_start s a" b s] by (auto simp: slice_end_def)
qed

lemma str_slice_boundaries:
  assumes "str_is_char_boundary s a" "str_is_char_boundary s b" "a \<le> b"
  obtains l m r where "s = l @ m @ r" "str_len l = a" "str_len l + str_len m = b" "str_slice s a b = Some m"
proof -
  obtain l r where l: "s = l @ r" "str_len l = a" using assms(1) by (auto simp: boundary_iff)
  obtain l' r' where l': "s = l' @ r'" "str_len l' = b" using assms(2) by (auto simp: boundary_iff)
  from l(1) l'(1) have "l @ r = l' @ r'" by simp
  then obtain us where "(l = l' @ us \<and> us @ r = r') \<or> (l @ us = l' \<and> r = us @ r')" by (auto simp: append_eq_append_conv2)
  moreover have "us = []" if "l = l' @ us" using that l l' assms(3) str_len_pos [of us] by auto
  ultimately have "l' = l @ us" by auto
  then show thesis using that [of l us r'] l l' str_slice_Some [of s a b us] by auto
qed

lemma slice_ends:
  assumes "str_len s \<le> 128" "a < 2 ^ 32" "b < 2 ^ 32"
  shows "(if \<not> slice_is_char_boundary (slice_of s) a then str_ceil_char_boundary s a else a) = slice_start s a"
    "(if \<not> slice_is_char_boundary (slice_of s) b
      then if b < slice_start s a then slice_start s a else str_floor_char_boundary s b else b) = slice_end s a b"
  using slice_boundary_eq [OF assms(1,2)] slice_boundary_eq [OF assms(1,3)] by (simp_all add: slice_start_def slice_end_def)

lemma slice_slice_eq:
  assumes "str_len s \<le> 128" "a < 2 ^ 32" "b < 2 ^ 32" "a \<noteq> 128" "slice_start s a \<noteq> 128"
  shows "slice_slice (slice_of s) a b = map_option slice_of (str_slice s (slice_start s a) (slice_end s a b))"
proof -
  let ?a = "slice_start s a" and ?b = "slice_end s a b"
  note e = slice_ends [OF assms(1-3)]
  have b: "?b \<le> 128" using boundary_le [OF slice_bounds(2)] assms(1) by (rule order.trans)
  have "slice_slice (slice_of s) a b = do {
        text \<leftarrow> str_slice s ?a ?b;
        let mask = unbounded_shl 1 (of_nat ?b) - 1;
        Some \<lparr>sl_chars = shr (sl_chars (slice_of s) AND mask) ?a, sl_chars_utf16 = shr (sl_chars_utf16 (slice_of s) AND mask) ?a,
              sl_newlines = shr (sl_newlines (slice_of s) AND mask) ?a, sl_tabs = shr (sl_tabs (slice_of s) AND mask) ?a,
              sl_text = text\<rparr> }"
    using assms(4) by (simp only: slice_slice_def MAX_BASE_def Let_def sl_text_slice_of e if_False)
  also have "\<dots> = map_option slice_of (str_slice s ?a ?b)"
  proof (cases "str_slice s ?a ?b")
    case (Some m)
    then obtain l r where s: "s = l @ m @ r" "?a = str_len l" "?b = str_len l + str_len m"
      by (metis str_slice_Some)
    have l: "str_len l < 128" using s assms(1,5) by (metis le_neq_implies_less s(2) boundary_le slice_bounds(1) order.trans)
    have "shr (bm (marks k s) AND (unbounded_shl 1 (of_nat ?b) - 1)) ?a = bm (marks k m)" for k
    proof -
      have "bm (marks k s) AND (unbounded_shl 1 (of_nat ?b) - 1) = bm (marks k (l @ m))"
        using b unfolding s(3) by (subst unbounded_shl_1) (simp_all add: bm_take s(1))
      then show ?thesis using b l unfolding s(2,3) by (simp add: shr_def bm_drop)
    qed
    then show ?thesis using Some by (simp add: slice_of_def Let_def)
  qed simp
  finally show ?thesis .
qed


lemma chunk_floor_eq:
  assumes "valid_str s"
  shows "chunk_floor_char_boundary (chunk_of s) i = str_floor_char_boundary s i"
proof -
  have b: "is_utf8_char_boundary (as_bytes s ! j) \<longleftrightarrow> str_is_char_boundary s j" if "j < str_len s" for j
    using that byte_marks(1) [OF assms] boundary_marks [of j s] nth_map [of j "as_bytes s" is_utf8_char_boundary] by simp
  have "i < str_len s \<Longrightarrow> chunk_floor_loop (as_bytes s) i = back_to_boundary s i" for i
  proof (induction i)
    case (Suc i)
    then show ?case
      by (simp add: chunk_floor_loop.simps [of _ "Suc i"] back_to_boundary.simps [of _ "Suc i"] b)
  qed (simp add: chunk_floor_loop.simps back_to_boundary.simps)
  then show ?thesis by (simp add: chunk_floor_char_boundary_def str_floor_char_boundary_def chunk_of_def)
qed

lemma chunk_boundary_eq: "chunk_is_char_boundary c n = slice_is_char_boundary (as_slice c) n"
  by (simp add: chunk_is_char_boundary_def slice_is_char_boundary_def as_slice_def)

text \<open>Rounding inside the last character of a full chunk: the shift by 128 does nothing.\<close>

lemma slice_slice_overflow:
  assumes "str_len s \<le> 128" "a < 2 ^ 32" "b < 2 ^ 32" "a \<noteq> 128" "slice_start s a = 128" "a \<le> b"
  shows "slice_slice (slice_of s) a b = Some ((slice_of s)\<lparr>sl_text := []\<rparr>)"
proof -
  have len: "str_len s = 128" using boundary_le [OF slice_bounds(1), of s a] assms(1,5) by simp
  have "128 \<le> slice_end s a b" using slice_bounds(3) [OF assms(6), of s] assms(5) by simp
  moreover have "slice_end s a b \<le> 128" using boundary_le [OF slice_bounds(2), of s a b] len by simp
  ultimately have e: "slice_end s a b = 128" by simp
  note ab = slice_ends [OF assms(1-3), unfolded assms(5) e]
  have "str_slice s 128 128 = Some []" using len str_slice_Some [of s 128 128 "[]"] by auto
  moreover have "unbounded_shl 1 (of_nat 128) - 1 = (- 1 :: u128)" by (simp add: unbounded_shl_def)
  ultimately show ?thesis using assms(4)
    by (simp only: slice_slice_def MAX_BASE_def Let_def sl_text_slice_of ab if_False) (simp add: shr_def slice_of_def)
qed

section \<open>Properties\<close>

text \<open>
  C12: chunks implement text. Given a string type that holds 128 bytes, building a chunk, appending
  and prepending produce exactly the chunk of the resulting text (its four bitmaps included) and
  fail exactly when the text exceeds 128 bytes; converting a slice back and the two boundary queries read
  the bitmaps as the string functions read the text. Splitting a slice is splitting its text, with the
  bitmaps of both parts, at every boundary of the text, and panics elsewhere, with one exception: at 128 it
  always returns the whole slice and an empty one, also when the text is shorter, where splitting the text
  would panic.
\<close>

theorem chunk_refines_text:
  assumes "push_str_spec push" "valid_str s" "valid_str t" "str_len s \<le> MAX_BASE" "str_len t \<le> MAX_BASE" "valid_str u" "i < 2 ^ 32"
  shows "chunk_new push u = (if str_len u \<le> MAX_BASE then Some (chunk_of u) else None)
    \<and> chunk_push_str push (chunk_of s) t = (if str_len s + str_len t \<le> MAX_BASE then Some (chunk_of (s @ t)) else None)
    \<and> chunk_prepend_str push (chunk_of s) t = (if str_len t + str_len s \<le> MAX_BASE then Some (chunk_of (t @ s)) else None)
    \<and> slice_into_chunk push (as_slice (chunk_of s)) = Some (chunk_of s)
    \<and> (if str_is_char_boundary s i
       then (\<exists>l r. s = l @ r \<and> str_len l = i \<and> slice_split_at (as_slice (chunk_of s)) i = Some (slice_of l, slice_of r))
       else slice_split_at (as_slice (chunk_of s)) i = (if i = MAX_BASE then Some (slice_of s, slice_of []) else None))
    \<and> chunk_is_char_boundary (chunk_of s) i = str_is_char_boundary s i
    \<and> chunk_floor_char_boundary (chunk_of s) i = str_floor_char_boundary s i"
proof -
  have "slice_into_chunk push (slice_of s) = Some (chunk_of s)"
    using assms(1,4) by (simp add: slice_into_chunk_def push_str_spec_def slice_of_def chunk_of_def)
  moreover have s: "str_len s \<le> 128" using assms(4) by (simp add: MAX_BASE_def)
  moreover note slice_split_at_cases [OF s, of i, folded MAX_BASE_def]
  ultimately show ?thesis
    using assms by (simp add: chunk_new_eq chunk_push_str_def chunk_prepend_str_def chunk_append_eq chunk_prepend_eq
        slice_boundary_eq chunk_boundary_eq chunk_floor_eq MAX_BASE_def)
qed

definition push_str :: "rstr \<Rightarrow> rstr \<Rightarrow> rstr rust" where
  "push_str t s = (if str_len t + str_len s \<le> MAX_BASE then Some (t @ s) else None)"

theorem chunk_refines_text_witness:
  "chunk_new push_str [97, 128512] = Some (chunk_of [97, 128512])
    \<and> chunk_push_str push_str (chunk_of [97]) [128512] = Some (chunk_of [97, 128512])
    \<and> \<not> chunk_is_char_boundary (chunk_of [97]) 3"
proof -
  have "push_str_spec push_str" by (simp add: push_str_spec_def push_str_def)
  from chunk_refines_text [OF this, of "[97]" "[128512]" "[97, 128512]" 3] show ?thesis
    by (simp add: MAX_BASE_def len_utf8_def str_is_char_boundary_def numeral_3_eq_3)
qed

text \<open>
  Slicing never fails on an ordered range. The ends are rounded to character boundaries inside
  the range, and the slice holds the text between them with its bitmaps, except in one case: a start
  inside the last character of a full chunk is rounded to 128, where the shift of the bitmaps by
  their own width leaves them unchanged while the text is empty.
\<close>

theorem chunk_slice_range_rounds:
  assumes "str_len s \<le> MAX_BASE" "a \<le> b" "b < 2 ^ 32"
  shows "\<exists>l m r. s = l @ m @ r \<and> (a \<noteq> MAX_BASE \<longrightarrow> str_len l = slice_start s a \<and> str_len (l @ m) = slice_end s a b)
    \<and> (a = MAX_BASE \<longrightarrow> m = [])
    \<and> chunk_slice_range (chunk_of s) a b =
       Some (if slice_start s a = MAX_BASE \<and> a \<noteq> MAX_BASE then (slice_of s)\<lparr>sl_text := []\<rparr> else slice_of m)"
proof (cases "a = 128")
  case True
  show ?thesis by (rule exI [of _ s], rule exI [of _ "[]"], rule exI [of _ "[]"])
      (simp add: True chunk_slice_range_def slice_slice_def MAX_BASE_def slice_of_def empty_slice_def)
next
  case False
  have s: "str_len s \<le> 128" "a < 2 ^ 32" using assms by (simp_all add: MAX_BASE_def)
  obtain l m r where m: "s = l @ m @ r" "str_len l = slice_start s a" "str_len l + str_len m = slice_end s a b"
    "str_slice s (slice_start s a) (slice_end s a b) = Some m"
    by (rule str_slice_boundaries [OF slice_bounds(1,2) slice_bounds(3) [OF assms(2)]])
  show ?thesis
  proof (rule exI [of _ l], rule exI [of _ m], rule exI [of _ r], intro conjI)
    show "chunk_slice_range (chunk_of s) a b =
       Some (if slice_start s a = MAX_BASE \<and> a \<noteq> MAX_BASE then (slice_of s)\<lparr>sl_text := []\<rparr> else slice_of m)"
      using slice_slice_overflow [OF s assms(3) False _ assms(2)] slice_slice_eq [OF s assms(3) False] m(4) False
      by (simp add: chunk_slice_range_def MAX_BASE_def)
  qed (use m False in \<open>simp_all add: MAX_BASE_def\<close>)
qed

theorem chunk_slice_range_rounds_witness:
  "chunk_slice_range (chunk_of (replicate 32 128512)) 125 128 = Some ((slice_of (replicate 32 128512))\<lparr>sl_text := []\<rparr>)"
proof -
  have len: "str_len (replicate n 128512) = 4 * n" for n by (induction n) (simp_all add: len_utf8_def)
  have b: "str_is_char_boundary (replicate n 128512) i \<Longrightarrow> 4 dvd i" for n i
  proof -
    assume "str_is_char_boundary (replicate n 128512) i"
    then obtain l r where l: "replicate n 128512 = l @ r" "i = str_len l" by (auto simp: boundary_iff)
    have "\<forall>x \<in> set l. x = 128512" using l(1) by (metis UnCI in_set_replicate set_append)
    then have "replicate (length l) 128512 = l" by (rule replicate_length_same)
    then show ?thesis using len [of "length l"] l(2) by simp
  qed
  have "\<not> str_is_char_boundary (replicate 32 128512) i" if "i \<in> {125, 126, 127}" for i
    using b [of 32 i] that by auto
  then have "slice_start (replicate 32 128512) 125 = 128"
    by (simp add: slice_start_def str_ceil_char_boundary_def len upt_rec)
  with chunk_slice_range_rounds [of "replicate 32 128512" 125 128] show ?thesis by (simp add: MAX_BASE_def len) blast
qed

end
