(* ===== verification/ChunkSummary.thy ===== *)
theory ChunkSummary
  imports Chunk
begin

text \<open>
  The summary of a chunk is computed from its bitmaps alone; it is the summary of its text. The
  first and last lines, their lengths and the longest row come from counting bits, leading and
  trailing zeros.
\<close>

abbreviation newline_marks :: "rstr \<Rightarrow> bool list" where
  "newline_marks \<equiv> marks (\<lambda>c. of_bool (c = newline))"

section \<open>Lines and newline marks\<close>

lemma newline_1 [simp]: "len_utf8 newline = 1" "len_utf16 newline = 1"
  by (simp_all add: newline_def len_utf8_def len_utf16_def)

lemma count_marks: "(\<And>c. k c \<le> len_utf8 c) \<Longrightarrow> length (filter id (marks k s)) = sum_list (map k s)"
proof (induction s)
  case (Cons c s)
  have "length (filter id (map (\<lambda>i. i < k c) [0..<n])) = min (k c) n" for n
    by (induction n) (auto simp: min_def)
  then show ?case using Cons by (simp add: min_absorb1 comp_def)
qed simp

lemma count_char_marks: "length (filter id (marks (\<lambda>_. 1) s)) = length s"
  using count_marks [of "\<lambda>_. 1" s] len_utf8_bounds(1) by (simp add: sum_list_triv)

lemma count_utf16_marks: "length (filter id (marks len_utf16 s)) = str_len_utf16 s"
  using count_marks [of len_utf16 s] len_utf8_bounds(2) by (simp add: str_len_utf16_def)

lemma count_newline_marks: "length (filter id (newline_marks s)) = length (split_lines s) - 1"
proof -
  have "length (filter id (newline_marks s)) = sum_list (map (\<lambda>c. of_bool (c = newline)) s)"
    by (rule count_marks) (use len_utf8_bounds(1) in \<open>auto simp: Suc_le_eq\<close>)
  also have "Suc \<dots> = length (split_lines s)" by (induction s) (auto split: list.splits)
  finally show ?thesis by simp
qed

lemma newline_marks_line: "newline \<notin> set l \<Longrightarrow> newline_marks l = replicate (str_len l) False"
proof (induction l)
  case (Cons c l)
  then show ?case by (auto simp: replicate_add map_replicate_const)
qed simp

lemma split_lines_line: "newline \<notin> set l \<Longrightarrow> split_lines l = [l]"
  by (induction l) auto

lemma split_lines_newline: "newline \<notin> set l \<Longrightarrow> split_lines (l @ newline # t) = l # split_lines t"
  by (induction l) (auto split: list.splits)

lemma split_first_line:
  obtains "newline \<notin> set s" | l t where "s = l @ newline # t" "newline \<notin> set l"
  by (meson split_list_first)

lemma split_last_line:
  obtains "newline \<notin> set s" | t l where "s = t @ newline # l" "newline \<notin> set l"
  by (meson split_list_last)

lemma split_lines_last: "newline \<notin> set l \<Longrightarrow> last (split_lines (t @ newline # l)) = l"
  using split_lines_append [of "t @ [newline]" l] by (simp add: split_lines_line split_lines_snoc)

lemma takeWhile_replicate: "takeWhile Not (replicate n False @ True # xs) = replicate n False"
  by (induction n) simp_all

lemma takeWhile_replicate_all: "takeWhile Not (replicate n False) = replicate n False"
  by (induction n) simp_all

lemma first_newline:
  assumes "str_len s \<le> 128"
  shows "trailing_zeros (bm (newline_marks s)) = (if newline \<in> set s then str_len (hd (split_lines s)) else 128)"
proof (rule split_first_line [of s])
  assume "newline \<notin> set s"
  then show ?thesis using assms by (simp add: trailing_zeros_bm newline_marks_line)
next
  fix l t assume "s = l @ newline # t" "newline \<notin> set l"
  then show ?thesis using assms
    by (simp add: trailing_zeros_bm newline_marks_line split_lines_newline takeWhile_replicate)
qed

lemma last_newline:
  assumes "str_len s \<le> 128"
  shows "leading_zeros (bm (newline_marks s)) = 128 - str_len s + str_len (last (split_lines s))"
proof (rule split_last_line [of s])
  assume "newline \<notin> set s"
  then show ?thesis using assms
    by (simp add: leading_zeros_bm newline_marks_line split_lines_line takeWhile_replicate_all)
next
  fix t l assume "s = t @ newline # l" "newline \<notin> set l"
  then show ?thesis using assms
    by (simp add: leading_zeros_bm newline_marks_line split_lines_last takeWhile_replicate)
qed

section \<open>The fields of the summary\<close>

lemma slice_lines_eq:
  assumes "str_len s \<le> 128"
  shows "slice_lines (slice_of s) = Point (of_nat (length (split_lines s) - 1)) (of_nat (str_len (last (split_lines s))))"
proof -
  have "(of_nat (128 - str_len s) :: u32) = 128 - of_nat (str_len s)" using assms by (simp add: of_nat_diff)
  then show ?thesis using assms
    by (simp add: slice_lines_def slice_of_def count_ones_bm count_newline_marks last_newline)
qed

lemma slice_len_utf16_eq: "str_len s \<le> 128 \<Longrightarrow> slice_len_utf16 (slice_of s) = OffsetUtf16 (str_len_utf16 s)"
  by (simp add: slice_len_utf16_def slice_of_def count_ones_bm count_utf16_marks)

lemma shl_mask: "n < 2 ^ 32 \<Longrightarrow> bm xs AND saturating_shl_mask (of_nat n) = bm (take n xs)"
  by (simp add: saturating_shl_mask_def unbounded_shl_1 bm_take)

lemma first_line_chars_eq:
  assumes "str_len s \<le> 128"
  shows "first_line_chars (slice_of s) = of_nat (length (hd (split_lines s)))"
proof -
  define z where "z = trailing_zeros (bm (newline_marks s))"
  have z: "z = (if newline \<in> set s then str_len (hd (split_lines s)) else 128)" unfolding z_def by (rule first_newline [OF assms])
  have take: "take z (marks (\<lambda>_. 1) s) = marks (\<lambda>_. 1) (hd (split_lines s))"
  proof (rule split_first_line [of s])
    fix l t assume "s = l @ newline # t" "newline \<notin> set l"
    then show ?thesis by (simp add: z split_lines_newline)
  qed (use assms in \<open>simp add: z split_lines_line\<close>)
  have hd: "str_len (hd (split_lines s)) \<le> 128"
    using assms split_lines_sizes(3) [of "hd (split_lines s)" s] by simp
  then have "z \<le> 128" unfolding z by simp
  then have "first_line_chars (slice_of s) = of_nat (count_ones (bm (take z (marks (\<lambda>_. 1) s))))"
    using shl_mask [of z "marks (\<lambda>_. 1) s"] by (simp add: first_line_chars_def slice_of_def z_def)
  also have "\<dots> = of_nat (length (hd (split_lines s)))"
    unfolding take using hd by (subst count_ones_bm) (simp_all add: count_char_marks [simplified])
  finally show ?thesis .
qed

lemma shr_mask:
  assumes "n \<le> 128" "n = length xs"
  shows "bm (xs @ ys) AND saturating_shr_mask (of_nat (128 - n)) = bm (replicate n False @ ys)"
proof -
  have "unat (of_nat (128 - n) :: u32) = 128 - n" by (rule of_nat_u32(1)) simp
  then show ?thesis using assms
    by (intro bm_eqI) (auto simp: saturating_shr_mask_def unbounded_shr_def bit_bm bit_simps nth_append)
qed

text \<open>Counting the marks of the last line.\<close>

lemma last_line_count:
  assumes "str_len s \<le> 128"
  shows "count_ones (bm (marks k s) AND saturating_shr_mask (of_nat (leading_zeros (bm (newline_marks s)))))
    = length (filter id (marks k (last (split_lines s))))"
proof -
  obtain t l where s: "s = t @ l" "last (split_lines s) = l"
  proof (rule split_last_line [of s])
    assume "newline \<notin> set s"
    then show thesis using that [of "[]" s] by (simp add: split_lines_line)
  next
    fix t l assume "s = t @ newline # l" "newline \<notin> set l"
    then show thesis using that [of "t @ [newline]" l] by (simp add: split_lines_last)
  qed
  have "leading_zeros (bm (newline_marks s)) = 128 - str_len t" using assms by (simp add: last_newline s(2)) (simp add: s(1))
  moreover have "bm (marks k s) AND saturating_shr_mask (of_nat (128 - str_len t)) = bm (replicate (str_len t) False @ marks k l)"
    unfolding s(1) marks_simps by (rule shr_mask) (use assms in \<open>simp_all add: s(1)\<close>)
  moreover have "length (replicate (str_len t) False @ marks k l) \<le> 128" using assms by (simp add: s(1))
  ultimately show ?thesis unfolding s(2) by (simp add: count_ones_bm)
qed

lemma last_line_eq:
  assumes "str_len s \<le> 128"
  shows "last_line_chars (slice_of s) = of_nat (length (last (split_lines s)))"
    and "last_line_len_utf16 (slice_of s) = of_nat (str_len_utf16 (last (split_lines s)))"
  using last_line_count [OF assms, of "\<lambda>_. 1"] last_line_count [OF assms, of len_utf16]
  by (simp_all add: last_line_chars_def last_line_len_utf16_def slice_of_def count_char_marks [simplified] count_utf16_marks)

section \<open>The longest row\<close>

lemma length_le_128: "str_len s \<le> 128 \<Longrightarrow> length s \<le> 128"
  using length_le_str_len [of s] by simp

lemma unat_u8: "n < 256 \<Longrightarrow> unat (of_nat n :: u8) = n"
  by (simp add: unat_of_nat)

lemma ucast_u8: "n < 256 \<Longrightarrow> (ucast (of_nat n :: u8) :: u32) = of_nat n"
  by (metis unat_u8 of_nat_unat)

lemma longest_row_loop_eq:
  assumes "str_len s \<le> 128" "n \<le> 128"
  shows "longest_row_loop (bm (marks (\<lambda>_. 1) s)) (bm (newline_marks s)) tot (of_nat r) (of_nat lr) (of_nat n) =
    (let b = longest_from r (lr, n) (split_lines s) in (of_nat (fst b), of_nat (snd b), tot + length s))"
  using assms
proof (induction "length s" arbitrary: s tot r lr n rule: less_induct)
  case less
  show ?case
  proof (rule split_first_line [of s])
    assume s: "newline \<notin> set s"
    then have "bm (newline_marks s) = 0" using bm_False [of "[]" "str_len s"] by (simp add: newline_marks_line)
    moreover have "length s < 256" "n < 256" using length_le_128 [OF less.prems(1)] less.prems(2) by simp_all
    ultimately show ?thesis using less.prems s
      by (simp add: longest_row_loop.simps count_ones_bm count_char_marks [simplified] split_lines_line Let_def
          word_less_nat_alt unat_u8 ucast_u8)
  next
    fix l t assume s: "s = l @ newline # t" "newline \<notin> set l"
    have len: "str_len l + str_len t + 1 \<le> 128" using less.prems(1) s(1) by simp
    then have l: "length l < 256" "str_len l < 128" using length_le_128 [of l] by simp_all
    have n: "n < 256" using less.prems(2) by simp
    have "bit (bm (newline_marks s)) (str_len l)"
      using len by (simp add: bit_bm s(1) nth_append)
    then have pos: "bm (newline_marks s) > 0" by (metis bit_0_eq bot_apply bot_bool_def word_gt_0)
    have z: "trailing_zeros (bm (newline_marks s)) = str_len l"
      using first_newline [OF less.prems(1)] s by (simp add: split_lines_newline)
    have c: "count_ones (bm (marks (\<lambda>_. 1) s) AND (shl 1 (str_len l) - 1)) = length l"
      using l len by (simp add: shl_def bm_take s(1) count_ones_bm count_char_marks [simplified])
    have rest: "shr (shr (bm (marks k s)) (str_len l)) 1 = bm (marks k t)" for k
      using l len by (simp add: shr_def bm_drop s(1))
    let ?lr = "if n < length l then r else lr" and ?n = "if n < length l then length l else n"
    have "longest_row_loop (bm (marks (\<lambda>_. 1) s)) (bm (newline_marks s)) tot (of_nat r) (of_nat lr) (of_nat n) =
        longest_row_loop (bm (marks (\<lambda>_. 1) t)) (bm (newline_marks t)) (tot + length l + 1) (of_nat (Suc r)) (of_nat ?lr) (of_nat ?n)"
      using l n pos
      by (subst longest_row_loop.simps) (simp add: z c [simplified] rest [simplified] Let_def word_less_nat_alt unat_u8 add.commute)
    also have "\<dots> = (let b = longest_from (Suc r) (?lr, ?n) (split_lines t) in (of_nat (fst b), of_nat (snd b), tot + length l + 1 + length t))"
      by (rule less.hyps) (use s less.prems(2) len length_le_128 [of l] in simp_all)
    also have "\<dots> = (let b = longest_from r (lr, n) (split_lines s) in (of_nat (fst b), of_nat (snd b), tot + length s))"
      using s by (simp add: split_lines_newline Let_def)
    finally show ?thesis .
  qed
qed

lemma slice_text_summary_spec:
  assumes "str_len s \<le> 128"
  shows "slice_text_summary (slice_of s) = summary_spec s"
proof -
  have "longest_row (slice_of s) = (let b = longest_from 0 (0, 0) (split_lines s) in (of_nat (fst b), of_nat (snd b), length s))"
    using longest_row_loop_eq [OF assms, of 0 0 0 0] by (simp add: longest_row_def slice_of_def)
  then show ?thesis
    by (simp add: slice_text_summary_def summary_spec_def Let_def slice_len_def slice_len_utf16_eq [OF assms] slice_lines_eq [OF assms]
        first_line_chars_eq [OF assms] last_line_eq [OF assms])
qed


section \<open>Properties\<close>

text \<open>
  C25: the summary that a chunk computes from its bitmaps is the summary \<open>TextSummary::from\<close> computes
  from its text, and slicing a chunk at a boundary summarises the parts, whose sum is the whole.
\<close>

theorem chunk_summary_correct:
  assumes "str_len s + str_len t \<le> MAX_BASE"
  shows "slice_text_summary (as_slice (chunk_of s)) = text_summary_from s
    \<and> slice_text_summary (as_slice (chunk_of (s @ t))) =
        text_summary_add (slice_text_summary (as_slice (chunk_of s))) (slice_text_summary (as_slice (chunk_of t)))"
proof -
  have st: "str_len (s @ t) \<le> 128" using assms by (simp add: MAX_BASE_def)
  then have "length (s @ t) < 2 ^ 32" using length_le_128 [OF st] by simp
  then show ?thesis
    using st summary_add_spec [of s t] by (simp add: slice_text_summary_spec text_summary_from_spec)
qed

theorem chunk_summary_correct_witness:
  "slice_text_summary (as_slice (chunk_of [97, newline, 98])) = text_summary_from [97, newline, 98]
    \<and> ts_longest_row (text_summary_from [97, newline, 98]) = 0"
proof -
  have "ts_longest_row (text_summary_from [97, newline, 98]) = 0"
    by (simp add: text_summary_from_spec summary_spec_def Let_def newline_def)
  then show ?thesis
    using chunk_summary_correct [of "[97, newline, 98]" "[]"] by (simp add: MAX_BASE_def len_utf8_def)
qed

end
