(* ===== verification/ChunkCoords.thy ===== *)
theory ChunkCoords
  imports ChunkSummary SumTree
begin

text \<open>
  Coordinates inside a chunk (\<open>crates/rope/src/chunk.rs\<close>): conversions between byte offsets, UTF-16
  offsets, points and UTF-16 points, clipping to character boundaries, and the positions of tabs.
  All of them work on the bitmaps. \<open>debug_panic\<close> only writes to the log in the release build.
  Grapheme boundaries come from the package \<open>unicode_segmentation\<close> and are a parameter.
\<close>

section \<open>Offsets and points\<close>

definition offset_range_for_row :: "chunk_slice \<Rightarrow> u32 \<Rightarrow> nat \<times> nat" where
  "offset_range_for_row self row =
     (let row_start = (if row > 0 then nth_set_bit (sl_newlines self) (unat row) + 1 else 0);
          row_len = (if row_start = MAX_BASE then 0
                     else min (of_nat (trailing_zeros (shr (sl_newlines self) row_start)))
                              (of_nat (usize_sub (str_len (sl_text self)) row_start) :: u32))
      in (row_start, row_start + unat row_len))"

definition offset_to_point :: "chunk_slice \<Rightarrow> nat \<Rightarrow> point" where
  "offset_to_point self offset =
     (let mask = unbounded_shl 1 (of_nat offset) - 1;
          row = of_nat (count_ones (sl_newlines self AND mask));
          newline_ix = 128 - leading_zeros (sl_newlines self AND mask);
          column = of_nat (usize_sub offset newline_ix)
      in Point row column)"

definition point_to_offset :: "chunk_slice \<Rightarrow> point \<Rightarrow> nat" where
  "point_to_offset self point =
     (if pt_row point > pt_row (slice_lines self) then slice_len self
      else let (start, stop) = offset_range_for_row self (pt_row point)
           in if pt_column point > of_nat (stop - start) then stop else start + unat (pt_column point))"

definition offset_to_offset_utf16 :: "chunk_slice \<Rightarrow> nat \<Rightarrow> offset_utf16" where
  "offset_to_offset_utf16 self offset =
     (let mask = unbounded_shl 1 (of_nat offset) - 1
      in OffsetUtf16 (count_ones (sl_chars_utf16 self AND mask)))"

definition point_to_offset_utf16 :: "chunk_slice \<Rightarrow> point \<Rightarrow> offset_utf16" where
  "point_to_offset_utf16 self point =
     (if pt_row point > pt_row (slice_lines self) then slice_len_utf16 self
      else offset_to_offset_utf16 self (point_to_offset self point))"

definition offset_utf16_to_offset :: "chunk_slice \<Rightarrow> offset_utf16 \<Rightarrow> nat" where
  "offset_utf16_to_offset self target =
     (if offset_value target = 0 then 0
      else let ix = nth_set_bit (sl_chars_utf16 self) (offset_value target) + 1
           in if ix = MAX_BASE then MAX_BASE
              else ix + min (trailing_zeros (shr (sl_chars_utf16 self) ix))
                            (usize_sub (str_len (sl_text self)) ix))"

definition offset_to_point_utf16 :: "chunk_slice \<Rightarrow> nat \<Rightarrow> point_utf16" where
  "offset_to_point_utf16 self offset =
     (let mask = saturating_shl_mask (of_nat offset);
          row = of_nat (count_ones (sl_newlines self AND saturating_shl_mask (of_nat offset)));
          newline_ix = 128 - leading_zeros (sl_newlines self AND mask);
          column = (if newline_ix = MAX_BASE then 0
                    else of_nat (count_ones (shr (sl_chars_utf16 self AND mask) newline_ix)))
      in PointUtf16 row column)"

definition point_to_point_utf16 :: "chunk_slice \<Rightarrow> point \<Rightarrow> point_utf16" where
  "point_to_point_utf16 self point = offset_to_point_utf16 self (point_to_offset self point)"

definition point_utf16_to_offset :: "chunk_slice \<Rightarrow> point_utf16 \<Rightarrow> bool \<Rightarrow> nat rust" where
  "point_utf16_to_offset self point clip =
     (let lines = slice_lines self
      in if pt16_row point > pt_row lines then Some (slice_len self)
         else do {
           let (start, stop) = offset_range_for_row self (pt16_row point);
           line \<leftarrow> slice_slice self start stop;
           if pt16_column point > last_line_len_utf16 line then Some stop
           else if pt16_column point > 0
           then let offset = start + offset_utf16_to_offset line (OffsetUtf16 (unat (pt16_column point)))
                in Some (if \<not> str_is_char_boundary (sl_text self) offset
                         then back_to_boundary (sl_text self) (offset - 1) else offset)
           else Some start })"

definition unclipped_point_utf16_to_point :: "chunk_slice \<Rightarrow> point_utf16 unclipped \<Rightarrow> point rust" where
  "unclipped_point_utf16_to_point self point =
     (let max_point = slice_lines self; row = pt16_row (clipped_value point); col = pt16_column (clipped_value point)
      in if row > pt_row max_point then Some max_point
         else do {
           let (start, stop) = offset_range_for_row self row;
           line \<leftarrow> slice_slice self start stop;
           if col = 0 then Some (Point row 0)
           else if col \<ge> of_nat (offset_value (slice_len_utf16 line)) then Some (Point row (of_nat (slice_len line)))
           else let column = back_to_boundary (sl_text line) (offset_utf16_to_offset line (OffsetUtf16 (unat col)))
                in Some (Point row (of_nat column)) })"

section \<open>Clipping\<close>

text \<open>The loop of \<open>clip_point\<close> asks the grapheme cursor, set to the column, for a boundary.\<close>

partial_function (option) clip_loop :: "(rstr \<Rightarrow> nat \<Rightarrow> bool) \<Rightarrow> chunk_slice \<Rightarrow> bias \<Rightarrow> u64 \<Rightarrow> u64 rust" where
  "clip_loop is_grapheme line bias column =
     (if slice_is_char_boundary line (unat column) \<and> is_grapheme (sl_text line) (unat column) then Some column
      else clip_loop is_grapheme line bias (case bias of Left \<Rightarrow> column - 1 | Right \<Rightarrow> column + 1))"

definition clip_point :: "(rstr \<Rightarrow> nat \<Rightarrow> bool) \<Rightarrow> chunk_slice \<Rightarrow> point \<Rightarrow> bias \<Rightarrow> point rust" where
  "clip_point is_grapheme self point bias =
     (let max_point = slice_lines self
      in if pt_row point > pt_row max_point then Some max_point
         else do {
           let (start, stop) = offset_range_for_row self (pt_row point);
           line \<leftarrow> slice_slice self start stop;
           if pt_column point = 0 then Some point
           else if pt_column point \<ge> of_nat (slice_len line) then Some (Point (pt_row point) (of_nat (slice_len line)))
           else do {
             let column = unat (pt_column point);
             let bytes = as_bytes (sl_text line);
             if bytes ! (column - 1) < 128 \<and> bytes ! column < 128 then Some (Point (pt_row point) (of_nat column))
             else do {
               column \<leftarrow> clip_loop is_grapheme line bias (of_nat column);
               Some (Point (pt_row point) (ucast column)) } } })"

text \<open>The loop of \<open>clip_offset_utf16\<close>; offset 0 is always a boundary.\<close>

partial_function (option) seek_boundary :: "rstr \<Rightarrow> bias \<Rightarrow> nat \<Rightarrow> nat rust" where
  "seek_boundary text bias offset =
     (if str_is_char_boundary text offset then Some offset
      else seek_boundary text bias (if bias = Left then offset - 1 else offset + 1))"

declare clip_loop.simps [code] seek_boundary.simps [code]

definition clip_offset_utf16 :: "chunk_slice \<Rightarrow> offset_utf16 \<Rightarrow> bias \<Rightarrow> offset_utf16 rust" where
  "clip_offset_utf16 self target bias =
     (if target = OffsetUtf16 0 then Some (OffsetUtf16 0)
      else if offset_value target \<ge> offset_value (slice_len_utf16 self) then Some (slice_len_utf16 self)
      else do {
        offset \<leftarrow> seek_boundary (sl_text self) bias (offset_utf16_to_offset self target);
        Some (offset_to_offset_utf16 self offset) })"

definition clip_point_utf16 :: "chunk_slice \<Rightarrow> point_utf16 unclipped \<Rightarrow> bias \<Rightarrow> point_utf16 rust" where
  "clip_point_utf16 self point bias =
     (let max_point = slice_lines self; row = pt16_row (clipped_value point)
      in if row > pt_row max_point then Some (PointUtf16 (pt_row max_point) (last_line_len_utf16 self))
         else do {
           let (start, stop) = offset_range_for_row self row;
           line \<leftarrow> slice_slice self start stop;
           column \<leftarrow> clip_offset_utf16 line (OffsetUtf16 (unat (pt16_column (clipped_value point)))) bias;
           Some (PointUtf16 row (of_nat (offset_value column))) })"

section \<open>Tabs\<close>

record tab_iter =
  it_tabs :: u128
  it_chars :: u128

record tab_position =
  byte_offset :: nat
  char_offset :: nat

definition slice_tabs :: "chunk_slice \<Rightarrow> tab_iter" where
  "slice_tabs self = \<lparr>it_tabs = sl_tabs self, it_chars = sl_chars self\<rparr>"

definition tabs_next :: "tab_iter \<Rightarrow> tab_position option \<times> tab_iter" where
  "tabs_next self =
     (if it_tabs self = 0 then (None, self)
      else let tab_offset = trailing_zeros (it_tabs self);
               chars_mask = shl 1 tab_offset - 1;
               position = \<lparr>byte_offset = tab_offset, char_offset = count_ones (it_chars self AND chars_mask)\<rparr>
           in (Some position, self\<lparr>it_tabs := it_tabs self XOR shl 1 tab_offset\<rparr>))"


section \<open>Selecting marked bytes\<close>

lemma is_nth_bit_unique:
  assumes "is_nth_bit v n i" "is_nth_bit v n j"
  shows "i = j"
proof (rule ccontr)
  have less: "length (filter (bit v) [0..<i]) < length (filter (bit v) [0..<j])" if "i < j" "bit v i" for i j
  proof -
    have "[0..<j] = [0..<i] @ i # [Suc i..<j]" using that by (metis less_imp_le_nat upt_add_eq_append upt_conv_Cons le_add_diff_inverse zero_le)
    then show ?thesis using that(2) by simp
  qed
  assume "i \<noteq> j"
  then consider "i < j" | "j < i" by linarith
  then show False using assms less [of i j] less [of j i] by cases (auto simp: is_nth_bit_def)
qed

lemma nth_set_bit_bm:
  assumes "length (xs @ True # ys) \<le> 128" "n = length (filter id xs) + 1"
  shows "nth_set_bit (bm (xs @ True # ys)) n = length xs"
proof -
  let ?zs = "xs @ True # ys"
  have "filter (bit (bm ?zs)) [0..<length xs] = filter (\<lambda>i. xs ! i) [0..<length xs]"
    using assms(1) by (auto simp: bit_bm nth_append intro!: filter_cong)
  then have "is_nth_bit (bm ?zs) n (length xs)"
    using assms filter_upt_nth [of "length xs" xs] by (simp add: is_nth_bit_def bit_bm)
  moreover have "is_nth_bit (bm ?zs) n (nth_set_bit (bm ?zs) n)"
    by (rule nth_set_bit_correct) (use assms in \<open>simp_all add: count_ones_bm\<close>)
  ultimately show ?thesis by (metis is_nth_bit_unique)
qed

lemma slice_of_sel:
  "sl_chars (slice_of s) = bm (marks (\<lambda>_. 1) s)" "sl_chars_utf16 (slice_of s) = bm (marks len_utf16 s)"
  "sl_newlines (slice_of s) = bm (newline_marks s)" "sl_tabs (slice_of s) = bm (marks (\<lambda>c. of_bool (c = tab)) s)"
  by (simp_all add: slice_of_def)

section \<open>Rows\<close>

definition rows :: "rstr \<Rightarrow> nat" where
  "rows s = length (split_lines s) - 1"

definition last_line :: "rstr \<Rightarrow> rstr" where "last_line s = last (split_lines s)"
definition first_line :: "rstr \<Rightarrow> rstr" where "first_line s = hd (split_lines s)"

definition line_start :: "rstr \<Rightarrow> bool" where
  "line_start p \<longleftrightarrow> p = [] \<or> last p = newline"

definition line_end :: "rstr \<Rightarrow> bool" where
  "line_end q \<longleftrightarrow> q = [] \<or> hd q = newline"

lemma last_line_split:
  obtains p where "s = p @ last_line s" "newline \<notin> set (last_line s)" "line_start p" "rows p = rows s"
proof (rule split_last_line [of s])
  assume "newline \<notin> set s"
  then show thesis using that [of "[]"] by (simp add: last_line_def split_lines_line line_start_def rows_def)
next
  fix t l assume s: "s = t @ newline # l" "newline \<notin> set l"
  have "split_lines (t @ newline # l) = split_lines t @ [l]"
    using split_lines_append [of "t @ [newline]" l] by (simp add: split_lines_snoc split_lines_line s(2))
  then show thesis using that [of "t @ [newline]"] s
    by (simp add: last_line_def line_start_def rows_def split_lines_snoc)
qed

lemma first_line_split:
  obtains q where "s = first_line s @ q" "newline \<notin> set (first_line s)" "line_end q"
proof (rule split_first_line [of s])
  assume "newline \<notin> set s"
  then show thesis using that [of "[]"] by (simp add: first_line_def split_lines_line line_end_def)
next
  fix l t assume "s = l @ newline # t" "newline \<notin> set l"
  then show thesis using that [of "newline # t"] by (simp add: first_line_def split_lines_newline line_end_def)
qed

lemma row_split:
  assumes "r \<le> rows s"
  obtains p l q where "s = p @ l @ q" "line_start p" "newline \<notin> set l" "line_end q" "rows p = r"
  using assms
proof (induction r arbitrary: s thesis)
  case 0
  obtain q where "s = first_line s @ q" "newline \<notin> set (first_line s)" "line_end q" by (rule first_line_split)
  then show ?case using 0(1) [of "[]" "first_line s" q] by (simp add: line_start_def rows_def)
next
  case (Suc r)
  have "newline \<in> set s" using Suc.prems(2) split_lines_line [of s] by (cases "newline \<in> set s") (simp_all add: rows_def)
  then obtain l0 t where s: "s = l0 @ newline # t" "newline \<notin> set l0" by (meson split_list_first)
  then have "r \<le> rows t" using Suc.prems(2) by (simp add: rows_def split_lines_newline)
  then obtain p l q where t: "t = p @ l @ q" "line_start p" "newline \<notin> set l" "line_end q" "rows p = r"
    using Suc.IH by metis
  have "rows (l0 @ newline # p) = Suc (rows p)" using s(2) by (simp add: rows_def split_lines_newline Suc_diff_le)
  then show ?case
    using Suc.prems(1) [of "l0 @ newline # p" l q] s t by (auto simp: line_start_def)
qed

lemma min_u32: "m < 2 ^ 32 \<Longrightarrow> n < 2 ^ 32 \<Longrightarrow> min (of_nat m) (of_nat n :: u32) = of_nat (min m n)"
  by (auto simp: min_def word_le_nat_alt)

lemma row_range:
  assumes len: "str_len (p @ l @ q) \<le> 128" and p: "line_start p" and l: "newline \<notin> set l" and q: "line_end q"
  shows "offset_range_for_row (slice_of (p @ l @ q)) (of_nat (rows p)) = (str_len p, str_len p + str_len l)"
proof -
  let ?s = "p @ l @ q"
  have r: "rows p \<le> 128" using split_lines_sizes(1) [of p] length_le_str_len [of p] len by (simp add: rows_def)
  have start: "(if (of_nat (rows p) :: u32) > 0 then nth_set_bit (bm (newline_marks ?s)) (unat (of_nat (rows p) :: u32)) + 1 else 0) = str_len p"
  proof (cases p rule: rev_cases)
    case Nil
    then show ?thesis by (simp add: rows_def)
  next
    case (snoc p' c)
    then have c: "c = newline" using p by (simp add: line_start_def)
    have rp: "rows p = length (filter id (newline_marks p')) + 1"
      unfolding snoc c count_newline_marks rows_def by (simp add: split_lines_snoc)
    have "nth_set_bit (bm (newline_marks p' @ True # newline_marks (l @ q))) (rows p) = str_len p'"
      using nth_set_bit_bm [of "newline_marks p'" "newline_marks (l @ q)" "rows p"] len snoc c rp by simp
    moreover have "(0::u32) < of_nat (rows p)" using rp r of_nat_u32(2) [of 0 "rows p"] by simp
    moreover have "unat (of_nat (rows p) :: u32) = rows p" by (rule of_nat_u32(1)) (use r in simp)
    ultimately show ?thesis unfolding snoc c by simp
  qed
  have len_l: "(if str_len p = MAX_BASE then 0 else min (of_nat (trailing_zeros (shr (bm (newline_marks ?s)) (str_len p))))
      (of_nat (usize_sub (str_len ?s) (str_len p)) :: u32)) = of_nat (str_len l)"
  proof (cases "str_len p = 128")
    case True
    then show ?thesis using len by (simp add: MAX_BASE_def)
  next
    case False
    then have p128: "str_len p < 128" using len by simp
    then have "shr (bm (newline_marks ?s)) (str_len p) = bm (newline_marks (l @ q))"
      using len by (simp add: shr_def bm_drop)
    moreover have "min (trailing_zeros (bm (newline_marks (l @ q)))) (str_len l + str_len q) = str_len l"
    proof (cases q)
      case Nil
      then show ?thesis using first_newline [of "l @ q"] l len by simp
    next
      case (Cons c q')
      then show ?thesis using first_newline [of "l @ q"] l q len by (simp add: line_end_def split_lines_newline)
    qed
    moreover have "trailing_zeros v \<le> 128" for v :: u128
      unfolding trailing_zeros_def by (rule order.trans [OF length_takeWhile_le]) simp
    then have "trailing_zeros (bm (newline_marks (l @ q))) < 2 ^ 32" by (rule order.strict_trans1) simp
    ultimately show ?thesis using False len
      by (simp add: MAX_BASE_def min_u32 del: marks_simps of_nat_add)
  qed
  have "unat (of_nat (str_len l) :: u32) = str_len l" by (rule of_nat_u32(1)) (use len in simp)
  then show ?thesis
    by (simp only: offset_range_for_row_def slice_of_sel sl_text_slice_of Let_def start len_l)
qed


text \<open>The slice of a row.\<close>

lemma slice_text_part:
  assumes "str_len (p @ l @ q) \<le> 128"
  shows "slice_slice (slice_of (p @ l @ q)) (str_len p) (str_len p + str_len l) = Some (slice_of l)"
proof (cases "str_len p = 128")
  case True
  then have "str_len l = 0" using assms by simp
  then have "l = []" using str_len_pos [of l] by auto
  then show ?thesis using True by (simp add: slice_slice_def MAX_BASE_def empty_slice_def slice_of_def)
next
  case False
  let ?s = "p @ l @ q"
  have b: "str_is_char_boundary ?s (str_len p)" "str_is_char_boundary ?s (str_len p + str_len l)"
    by (auto simp: boundary_iff) (metis append.assoc str_len_simps(3))
  then have e: "slice_start ?s (str_len p) = str_len p" "slice_end ?s (str_len p) (str_len p + str_len l) = str_len p + str_len l"
    by (simp_all add: slice_start_def slice_end_def)
  have "str_slice ?s (str_len p) (str_len p + str_len l) = Some l" by (auto simp: str_slice_Some)
  then show ?thesis
    using slice_slice_eq [of ?s "str_len p" "str_len p + str_len l"] assms False by (simp add: e)
qed

lemma rows_bound: "str_len s \<le> 128 \<Longrightarrow> rows s \<le> 128"
  using split_lines_sizes(1) [of s] length_le_str_len [of s] by (simp add: rows_def)

lemma slice_lines_rows: "str_len s \<le> 128 \<Longrightarrow> slice_lines (slice_of s) = Point (of_nat (rows s)) (of_nat (str_len (last_line s)))"
  by (simp add: slice_lines_eq rows_def last_line_def)

lemma row_cases:
  fixes row :: u32
  assumes "str_len s \<le> 128" "\<not> row > pt_row (slice_lines (slice_of s))"
  obtains p l q where "s = p @ l @ q" "line_start p" "newline \<notin> set l" "line_end q" "row = of_nat (rows p)"
    "offset_range_for_row (slice_of s) row = (str_len p, str_len p + str_len l)"
    "slice_slice (slice_of s) (str_len p) (str_len p + str_len l) = Some (slice_of l)"
proof -
  have "rows s < 2 ^ 32" using rows_bound [OF assms(1)] by simp
  then have "unat (of_nat (rows s) :: u32) = rows s" by simp
  then have "unat row \<le> rows s" using assms by (simp add: slice_lines_rows word_less_nat_alt)
  then obtain p l q where s: "s = p @ l @ q" "line_start p" "newline \<notin> set l" "line_end q" "rows p = unat row"
    by (rule row_split)
  moreover from s(5) have "row = of_nat (rows p)" by simp
  ultimately show thesis using that [of p l q] row_range [of p l q] slice_text_part [of p l q] assms(1) by simp
qed

section \<open>Byte offsets\<close>

text \<open>Any byte offset of a text lies after a whole number of characters, or inside one.\<close>

lemma offset_split:
  assumes "n \<le> str_len s"
  obtains p j q where "s = p @ q" "n = str_len p + j" "j = 0 \<or> (\<exists>c q'. q = c # q' \<and> j < len_utf8 c)"
  using assms
proof (induction s arbitrary: n thesis)
  case Nil
  then show ?case by force
next
  case (Cons c s)
  show ?case
  proof (cases "n < len_utf8 c")
    case True
    then show ?thesis using Cons.prems(1) [of "[]" "c # s" n] by simp
  next
    case False
    show ?thesis
    proof (rule Cons.IH [of "n - len_utf8 c"])
      fix p j q assume "s = p @ q" "n - len_utf8 c = str_len p + j" "j = 0 \<or> (\<exists>c q'. q = c # q' \<and> j < len_utf8 c)"
      then show ?thesis using False Cons.prems(1) [of "c # p" q j] by simp
    qed (use Cons.prems(2) in simp)
  qed
qed

lemma take_newline_marks:
  assumes "j = 0 \<or> (\<exists>c q'. q = c # q' \<and> j < len_utf8 c)"
  shows "take (str_len p + j) (newline_marks (p @ q)) = newline_marks p @ replicate j False"
proof -
  have "take j (newline_marks q) = replicate j False"
    using assms by (auto simp: take_map map_replicate_const take_append)
  then show ?thesis by simp
qed

lemma offset_to_point_eq:
  assumes "str_len (p @ q) \<le> 128" and j: "j = 0 \<or> (\<exists>c q'. q = c # q' \<and> j < len_utf8 c)"
  shows "offset_to_point (slice_of (p @ q)) (str_len p + j) = Point (of_nat (rows p)) (of_nat (str_len (last_line p) + j))"
proof -
  have o: "str_len p + j \<le> 128" "str_len p \<le> 128" using assms by auto
  have "bm (newline_marks (p @ q)) AND (unbounded_shl 1 (of_nat (str_len p + j)) - 1) = bm (newline_marks p @ replicate j False)"
    using o take_newline_marks [OF j, of p] by (subst unbounded_shl_1) (simp_all add: bm_take)
  then have mask: "bm (newline_marks (p @ q)) AND (unbounded_shl 1 (of_nat (str_len p + j)) - 1) = bm (newline_marks p)" by simp
  have "str_len (last_line p) \<le> str_len p" unfolding last_line_def by (rule split_lines_sizes(3)) simp
  then have "usize_sub (str_len p + j) (128 - leading_zeros (bm (newline_marks p))) = str_len (last_line p) + j"
    using o by (simp add: last_newline last_line_def)
  then show ?thesis
    using o by (simp only: offset_to_point_def Let_def slice_of_sel mask)
      (simp add: count_ones_bm count_newline_marks rows_def del: of_nat_add)
qed


lemma rows_append: "rows (p @ q) = rows p + rows q"
  unfolding rows_def split_lines_append
  by (cases "split_lines p" rule: rev_cases; cases "split_lines q") simp_all

text \<open>The row around a position between two parts of a text.\<close>

lemma row_around:
  obtains p0 q0 where "p = p0 @ last_line p" "q = first_line q @ q0" "line_start p0" "rows p0 = rows p" "line_end q0"
    "newline \<notin> set (last_line p @ first_line q)"
proof -
  obtain p0 where p0: "p = p0 @ last_line p" "newline \<notin> set (last_line p)" "line_start p0" "rows p0 = rows p" by (rule last_line_split)
  obtain q0 where "q = first_line q @ q0" "newline \<notin> set (first_line q)" "line_end q0" by (rule first_line_split)
  with p0 show thesis using that [of p0 q0] by auto
qed

lemma row_range_around:
  assumes "str_len (p @ q) \<le> 128"
  shows "offset_range_for_row (slice_of (p @ q)) (of_nat (rows p)) =
      (str_len p - str_len (last_line p), str_len p + str_len (first_line q))"
    and "slice_slice (slice_of (p @ q)) (str_len p - str_len (last_line p)) (str_len p + str_len (first_line q)) =
      Some (slice_of (last_line p @ first_line q))"
    and "\<not> of_nat (rows p) > pt_row (slice_lines (slice_of (p @ q)))"
proof -
  obtain p0 q0 where r: "p = p0 @ last_line p" "q = first_line q @ q0" "line_start p0" "rows p0 = rows p" "line_end q0"
    "newline \<notin> set (last_line p @ first_line q)" by (rule row_around)
  have pq: "p @ q = p0 @ (last_line p @ first_line q) @ q0" using r(1,2) by (metis append.assoc)
  have lp: "str_len p = str_len p0 + str_len (last_line p)" by (subst r(1)) simp
  have "offset_range_for_row (slice_of (p @ q)) (of_nat (rows p0)) = (str_len p0, str_len p0 + str_len (last_line p @ first_line q))"
    using row_range [of p0 "last_line p @ first_line q" q0] assms r(3,5,6) unfolding pq by simp
  then show "offset_range_for_row (slice_of (p @ q)) (of_nat (rows p)) =
      (str_len p - str_len (last_line p), str_len p + str_len (first_line q))" using lp r(4) by simp
  show "slice_slice (slice_of (p @ q)) (str_len p - str_len (last_line p)) (str_len p + str_len (first_line q)) =
      Some (slice_of (last_line p @ first_line q))"
    using slice_text_part [of p0 "last_line p @ first_line q" q0] assms lp unfolding pq by (simp add: add.assoc)
  have "rows p \<le> rows (p @ q)" "rows (p @ q) < 2 ^ 32" using rows_append [of p q] rows_bound [OF assms] by simp_all
  then show "\<not> of_nat (rows p) > pt_row (slice_lines (slice_of (p @ q)))"
    using of_nat_u32(2) [of "rows (p @ q)" "rows p"] by (simp add: slice_lines_rows [OF assms])
qed

lemma last_line_le: "str_len (last_line p) \<le> str_len p" "str_len_utf16 (last_line p) \<le> str_len_utf16 p"
  unfolding last_line_def by (rule split_lines_sizes; simp)+

lemma first_line_le: "str_len (first_line p) \<le> str_len p" "str_len_utf16 (first_line p) \<le> str_len_utf16 p"
  unfolding first_line_def by (rule split_lines_sizes; simp)+

lemma point_to_offset_eq:
  assumes len: "str_len (p @ q) \<le> 128" and j: "j \<le> str_len (first_line q)"
  shows "point_to_offset (slice_of (p @ q)) (Point (of_nat (rows p)) (of_nat (str_len (last_line p) + j))) = str_len p + j"
proof -
  have b: "str_len (last_line p) + j < 2 ^ 32" "str_len (last_line p) + str_len (first_line q) < 2 ^ 32"
    using last_line_le(1) [of p] first_line_le(1) [of q] len j by simp_all
  have "\<not> (of_nat (str_len (last_line p) + j) :: u32) > of_nat (str_len p + str_len (first_line q) - (str_len p - str_len (last_line p)))"
  proof -
    have "str_len p + str_len (first_line q) - (str_len p - str_len (last_line p)) = str_len (last_line p) + str_len (first_line q)"
      using last_line_le(1) [of p] by simp
    then show ?thesis using of_nat_u32(2) [OF b(2,1)] j by simp
  qed
  moreover have "unat (of_nat (str_len (last_line p) + j) :: u32) = str_len (last_line p) + j" using b(1) by (rule of_nat_u32(1))
  ultimately show ?thesis
    using row_range_around [OF len] last_line_le(1) [of p] by (simp add: point_to_offset_def del: of_nat_add)
qed

lemma inside_char_first_line:
  assumes "j = 0 \<or> (\<exists>c q'. q = c # q' \<and> j < len_utf8 c)"
  shows "j \<le> str_len (first_line q)"
proof (cases "j = 0")
  case False
  then obtain c q' where q: "q = c # q'" "j < len_utf8 c" using assms by auto
  then have "c \<noteq> newline" using False by auto
  then have "first_line q = c # first_line q'" using q by (auto simp: first_line_def split: list.splits)
  then show ?thesis using q by simp
qed simp


section \<open>UTF-16 offsets\<close>

lemma len_utf16_cases: "len_utf16 c = 1 \<or> len_utf16 c = 2 \<and> len_utf8 c = 4"
  by (simp add: len_utf16_def len_utf8_def)

lemma offset_to_offset_utf16_eq:
  assumes "str_len (p @ q) \<le> 128"
  shows "offset_to_offset_utf16 (slice_of (p @ q)) (str_len p) = OffsetUtf16 (str_len_utf16 p)"
proof -
  have "bm (marks len_utf16 (p @ q)) AND (unbounded_shl 1 (of_nat (str_len p)) - 1) = bm (marks len_utf16 p)"
    using assms by (subst unbounded_shl_1) (simp_all add: bm_take)
  then show ?thesis
    using assms by (simp only: offset_to_offset_utf16_def Let_def slice_of_sel) (simp add: count_ones_bm count_utf16_marks)
qed

lemma utf16_char_marks:
  "map (\<lambda>i. i < len_utf16 c) [0..<len_utf8 c] =
     (if len_utf16 c = 1 then True # replicate (len_utf8 c - 1) False else [True, True, False, False])"
  by (simp add: upt_len_utf8) (simp add: len_utf16_def len_utf8_def numeral_2_eq_2)

lemma tz_padding:
  assumes "length (replicate n False @ marks len_utf16 q) \<le> 128"
  shows "min (trailing_zeros (bm (replicate n False @ marks len_utf16 q))) (n + str_len q) = n"
proof (cases q)
  case Nil
  then show ?thesis using assms by (simp add: trailing_zeros_bm)
next
  case (Cons c q')
  then have "marks len_utf16 q = True # tl (marks len_utf16 q)" by (simp add: utf16_char_marks)
  then obtain ys where "marks len_utf16 q = True # ys" by blast
  then show ?thesis using assms by (simp add: trailing_zeros_bm takeWhile_replicate)
qed

text \<open>After a whole character the result is its end; after half a surrogate pair it is the byte after its first.\<close>

lemma offset_utf16_to_offset_eq:
  assumes "str_len (p @ q) \<le> 128"
  shows "offset_utf16_to_offset (slice_of (p @ q)) (OffsetUtf16 (str_len_utf16 p)) = str_len p"
proof (cases p rule: rev_cases)
  case Nil
  then show ?thesis by (simp add: offset_utf16_to_offset_def)
next
  case (snoc p' c)
  have pos: "0 < str_len_utf16 p" using len_utf8_bounds(3) [of c] snoc by simp
  define k where "k = len_utf16 c"
  have k: "1 \<le> k" "k \<le> len_utf8 c" using len_utf8_bounds [of c] by (simp_all add: k_def)
  define xs where "xs = marks len_utf16 p' @ replicate (k - 1) True"
  define ys where "ys = replicate (len_utf8 c - k) False @ marks len_utf16 q"
  have split: "marks len_utf16 (p @ q) = xs @ True # ys"
    using len_utf16_cases [of c] by (auto simp: snoc xs_def ys_def utf16_char_marks k_def numeral_2_eq_2 numeral_3_eq_3 eval_nat_numeral)
  have len: "length (xs @ True # ys) \<le> 128" unfolding split [symmetric] using assms by simp
  have "length (filter id xs) + 1 = str_len_utf16 p" using k by (simp add: xs_def snoc count_utf16_marks k_def)
  then have ix: "nth_set_bit (bm (xs @ True # ys)) (str_len_utf16 p) + 1 = str_len p' + k"
    using nth_set_bit_bm [OF len, of "str_len_utf16 p"] k by (simp add: xs_def)
  show ?thesis
  proof (cases "str_len p' + k = 128")
    case True
    then have "len_utf8 c = k" "str_len q = 0" using assms snoc k by simp_all
    then show ?thesis unfolding offset_utf16_to_offset_def Let_def slice_of_sel split using True pos ix
      by (simp add: MAX_BASE_def) (simp add: snoc)
  next
    case False
    have le: "str_len p' + k < 128" using False assms snoc k by simp
    have "shr (bm (xs @ True # ys)) (str_len p' + k) = bm ys"
      using le len k by (simp add: shr_def bm_drop xs_def)
    moreover have "min (trailing_zeros (bm ys)) (str_len (p @ q) - (str_len p' + k)) = len_utf8 c - k"
      using tz_padding [of "len_utf8 c - k" q] len k by (simp add: ys_def snoc)
    moreover have "str_len p' + k \<le> str_len (p @ q)" "str_len p = str_len p' + len_utf8 c" using snoc k by simp_all
    ultimately show ?thesis unfolding offset_utf16_to_offset_def Let_def slice_of_sel split using pos ix False k
      by (simp add: MAX_BASE_def)
  qed
qed

lemma offset_utf16_inside:
  assumes "str_len (p @ c # q) \<le> 128" "len_utf16 c = 2"
  shows "offset_utf16_to_offset (slice_of (p @ c # q)) (OffsetUtf16 (str_len_utf16 p + 1)) = str_len p + 1"
proof -
  define ys where "ys = [True, False, False] @ marks len_utf16 q"
  have split: "marks len_utf16 (p @ c # q) = marks len_utf16 p @ True # ys"
    unfolding marks_simps utf16_char_marks using assms(2) by (simp add: ys_def)
  have len: "length (marks len_utf16 p @ True # ys) \<le> 128" unfolding split [symmetric] using assms by simp
  have ix: "nth_set_bit (bm (marks len_utf16 p @ True # ys)) (str_len_utf16 p + 1) = str_len p"
    using nth_set_bit_bm [OF len, of "str_len_utf16 p + 1"] by (simp add: count_utf16_marks)
  have c4: "len_utf8 c = 4" using len_utf16_cases [of c] assms(2) by simp
  then have lt: "str_len p + 1 < 128" using assms(1) by simp
  have "shr (bm (marks len_utf16 p @ True # ys)) (str_len p + 1) = bm ys"
    using lt len by (simp add: shr_def bm_drop)
  moreover have "trailing_zeros (bm ys) = 0" using len by (simp add: trailing_zeros_bm ys_def)
  ultimately show ?thesis using ix lt
    by (simp add: offset_utf16_to_offset_def Let_def slice_of_sel split MAX_BASE_def del: marks_simps)
qed

lemma utf16_split:
  assumes "n \<le> str_len_utf16 s"
  obtains p q where "s = p @ q" "n = str_len_utf16 p"
  | p c q where "s = p @ c # q" "len_utf16 c = 2" "n = str_len_utf16 p + 1"
  using assms
proof (induction s arbitrary: n thesis)
  case Nil
  then show ?case by force
next
  case (Cons c s)
  consider "n = 0" | "n = 1" "len_utf16 c = 2" | "len_utf16 c \<le> n" using len_utf16_cases [of c] by linarith
  then show ?case
  proof cases
    case 1
    then show ?thesis using Cons.prems(1) [of "[]" "c # s"] by simp
  next
    case 2
    then show ?thesis using Cons.prems(2) [of "[]" c s] by simp
  next
    case 3
    show ?thesis
    proof (rule Cons.IH [of "n - len_utf16 c"])
      fix p q assume "s = p @ q" "n - len_utf16 c = str_len_utf16 p"
      then show ?thesis using Cons.prems(1) [of "c # p" q] 3 by simp
    next
      fix p d q assume "s = p @ d # q" "len_utf16 d = 2" "n - len_utf16 c = str_len_utf16 p + 1"
      then show ?thesis using Cons.prems(2) [of "c # p" d q] 3 by simp
    qed (use Cons.prems(3) in simp)
  qed
qed


lemma inside_not_boundary:
  assumes "0 < j" "j < len_utf8 c"
  shows "\<not> str_is_char_boundary (p @ c # q) (str_len p + j)"
  using assms boundary_marks [of "str_len p + j" "p @ c # q"] by (simp add: nth_append)

lemma prefix_boundary [simp]: "str_is_char_boundary (p @ q) (str_len p)"
  by (auto simp: boundary_iff)

lemma line_position:
  assumes "line_start p" "newline \<notin> set a"
  shows "last_line (p @ a) = a" "rows (p @ a) = rows p"
proof -
  have "split_lines (p @ a) = butlast (split_lines p) @ [last (split_lines p) @ a]"
    using assms(2) by (simp add: split_lines_append split_lines_line)
  moreover have "last (split_lines p) = []"
    using assms(1) by (cases p rule: rev_cases) (auto simp: line_start_def split_lines_snoc)
  ultimately show "last_line (p @ a) = a" "rows (p @ a) = rows p" by (simp_all add: last_line_def rows_def)
qed

lemma offset_to_point_utf16_eq:
  assumes "str_len (p @ q) \<le> 128"
  shows "offset_to_point_utf16 (slice_of (p @ q)) (str_len p) = PointUtf16 (of_nat (rows p)) (of_nat (str_len_utf16 (last_line p)))"
proof -
  let ?L = "str_len (last_line p)"
  obtain p0 where p0: "p = p0 @ last_line p" by (rule last_line_split)
  then have lp: "str_len p = str_len p0 + ?L" by (metis str_len_simps(3))
  have le: "str_len p \<le> 128" using assms by simp
  have mask: "bm (marks k (p @ q)) AND saturating_shl_mask (of_nat (str_len p)) = bm (marks k p)" for k
    using le by (simp add: shl_mask)
  have ix: "128 - leading_zeros (bm (newline_marks p)) = str_len p0"
    using le lp by (simp add: last_newline last_line_def)
  have "(if str_len p0 = MAX_BASE then 0 else of_nat (count_ones (shr (bm (marks len_utf16 p)) (str_len p0)))) = (of_nat (str_len_utf16 (last_line p)) :: u32)"
  proof (cases "str_len p0 = 128")
    case True
    then have "?L = 0" using lp le by simp
    then have "last_line p = []" using str_len_pos [of "last_line p"] by simp
    then show ?thesis using True by (simp add: MAX_BASE_def)
  next
    case False
    have "marks len_utf16 p = marks len_utf16 p0 @ marks len_utf16 (last_line p)" by (subst p0) simp
    then have "shr (bm (marks len_utf16 p)) (str_len p0) = bm (marks len_utf16 (last_line p))"
      using False lp le by (simp add: shr_def bm_drop)
    then show ?thesis using False lp le by (simp add: MAX_BASE_def count_ones_bm count_utf16_marks)
  qed
  then show ?thesis
    using le by (simp only: offset_to_point_utf16_def Let_def slice_of_sel mask ix)
      (simp add: count_ones_bm count_newline_marks rows_def)
qed

lemma last_line_len_utf16_line:
  assumes "newline \<notin> set l" "str_len l \<le> 128"
  shows "last_line_len_utf16 (slice_of l) = of_nat (str_len_utf16 l)"
  using last_line_eq(2) [OF assms(2)] assms(1) by (simp add: split_lines_line)

lemma str_len_utf16_le: "str_len_utf16 s \<le> str_len s"
proof (induction s)
  case (Cons c s)
  then show ?case using len_utf8_bounds(2) [of c] by simp
qed simp

lemma str_len_utf16_0: "str_len_utf16 s = 0 \<longleftrightarrow> s = []"
  using len_utf8_bounds(3) by (cases s) (auto simp: Suc_le_eq)

section \<open>Clipping to boundaries\<close>

text \<open>Where a column of UTF-16 units falls on a line.\<close>

lemma column_cases:
  fixes col :: u32
  assumes "str_len l \<le> 128"
  obtains "col > of_nat (str_len_utf16 l)"
  | a b where "l = a @ b" "unat col = str_len_utf16 a"
  | a c b where "l = a @ c # b" "len_utf16 c = 2" "unat col = str_len_utf16 a + 1"
proof (cases "col > of_nat (str_len_utf16 l)")
  case False
  have "unat (of_nat (str_len_utf16 l) :: u32) = str_len_utf16 l" using str_len_utf16_le [of l] assms by simp
  then have "unat col \<le> str_len_utf16 l" using False by (simp add: word_less_nat_alt)
  then show thesis by (rule utf16_split) (use that in blast)+
qed (use that in blast)

lemma utf16_prefix_unique:
  assumes "a @ b = a' @ b'" "str_len_utf16 a = str_len_utf16 a'"
  shows "a = a'"
proof -
  from assms(1) obtain us where "a = a' @ us \<or> a' = a @ us" by (auto simp: append_eq_append_conv2)
  then show ?thesis using assms(2) str_len_utf16_0 [of us] by auto
qed

lemma utf16_inside_no_prefix:
  assumes "a @ c # b = a' @ b'" "len_utf16 c = 2"
  shows "str_len_utf16 a' \<noteq> str_len_utf16 a + 1"
proof -
  from assms(1) consider us where "a = a' @ us" | us where "a' = a @ us" "c # b = us @ b'"
    by (auto simp: append_eq_append_conv2)
  then show ?thesis
  proof cases
    case 2
    then show ?thesis using assms(2) by (cases us) auto
  qed auto
qed

lemma row_not_beyond:
  assumes "str_len (p @ l @ q) \<le> 128"
  shows "\<not> of_nat (rows p) > pt_row (slice_lines (slice_of (p @ l @ q)))"
proof -
  have "rows p \<le> rows (p @ l @ q)" "rows (p @ l @ q) < 2 ^ 32" using rows_append [of p "l @ q"] rows_bound [OF assms] by simp_all
  then show ?thesis using of_nat_u32(2) [of "rows (p @ l @ q)" "rows p"] by (simp add: slice_lines_rows [OF assms])
qed

lemma back_at_boundary [simp]: "str_is_char_boundary s i \<Longrightarrow> back_to_boundary s i = i"
  by (simp add: back_to_boundary.simps)

lemma boundary_in_row: "str_is_char_boundary (p @ a @ q) (str_len p + str_len a)"
  using prefix_boundary [of "p @ a" q] by simp

lemma point_utf16_to_offset_row:
  assumes len: "str_len (p @ l @ q) \<le> 128" and p: "line_start p" and l: "newline \<notin> set l" and q: "line_end q"
  obtains a b where "l = a @ b" "point_utf16_to_offset (slice_of (p @ l @ q)) (PointUtf16 (of_nat (rows p)) col) clip = Some (str_len (p @ a))"
    "\<And>a' b'. l = a' @ b' \<Longrightarrow> unat col = str_len_utf16 a' \<Longrightarrow> a = a'"
proof -
  let ?s = "p @ l @ q"
  have l128: "str_len l \<le> 128" using len by simp
  then have uu: "unat (of_nat (str_len_utf16 l) :: u32) = str_len_utf16 l" using str_len_utf16_le [of l] by simp
  have row: "point_utf16_to_offset (slice_of ?s) (PointUtf16 (of_nat (rows p)) col) clip =
     (if col > of_nat (str_len_utf16 l) then Some (str_len (p @ l))
      else if col > 0
      then let offset = str_len p + offset_utf16_to_offset (slice_of l) (OffsetUtf16 (unat col))
           in Some (if \<not> str_is_char_boundary ?s offset then back_to_boundary ?s (offset - 1) else offset)
      else Some (str_len p))"
    using row_not_beyond [OF len] slice_text_part [OF len] last_line_len_utf16_line [OF l l128]
    by (simp add: point_utf16_to_offset_def row_range [OF len p l q] Let_def)
  show thesis
  proof (rule column_cases [OF l128, of col])
    assume col: "col > of_nat (str_len_utf16 l)"
    then have "unat col > str_len_utf16 l" by (simp add: word_less_nat_alt uu)
    then have "unat col \<noteq> str_len_utf16 a'" if "l = a' @ b'" for a' b' using that by auto
    moreover have "point_utf16_to_offset (slice_of ?s) (PointUtf16 (of_nat (rows p)) col) clip = Some (str_len (p @ l))"
      using row col by simp
    ultimately show thesis using that [of l "[]"] by (metis append_Nil2)
  next
    fix a b assume a: "l = a @ b" "unat col = str_len_utf16 a"
    have "unat col \<le> str_len_utf16 l" using a by simp
    then have le: "\<not> col > of_nat (str_len_utf16 l)" by (simp add: word_less_nat_alt uu)
    have off: "offset_utf16_to_offset (slice_of l) (OffsetUtf16 (unat col)) = str_len a"
      using offset_utf16_to_offset_eq [of a b] l128 a by simp
    have "col > 0 \<or> a = []" using a(2) str_len_utf16_0 [of a] by (auto simp: word_less_nat_alt)
    then have "point_utf16_to_offset (slice_of ?s) (PointUtf16 (of_nat (rows p)) col) clip = Some (str_len (p @ a))"
      unfolding row using le off boundary_in_row [of p a "b @ q"] a(1) by (auto simp: Let_def)
    then show thesis using that [of a b] a utf16_prefix_unique by metis
  next
    fix a c b assume a: "l = a @ c # b" "len_utf16 c = 2" "unat col = str_len_utf16 a + 1"
    have c4: "len_utf8 c = 4" using len_utf16_cases [of c] a(2) by simp
    have "unat col \<le> str_len_utf16 l" using a by simp
    then have le: "\<not> col > of_nat (str_len_utf16 l)" by (simp add: word_less_nat_alt uu)
    have pos: "col > 0" using a(3) by (simp add: word_less_nat_alt)
    have off: "offset_utf16_to_offset (slice_of l) (OffsetUtf16 (unat col)) = str_len a + 1"
      using offset_utf16_inside [of a c b] l128 a by simp
    have "\<not> str_is_char_boundary ?s (str_len p + (str_len a + 1))"
      using inside_not_boundary [of 1 c "p @ a" "b @ q"] c4 a(1) by (simp add: add.assoc)
    moreover have "back_to_boundary ?s (str_len p + str_len a) = str_len p + str_len a"
      using boundary_in_row [of p a "c # b @ q"] a(1) by simp
    ultimately have "point_utf16_to_offset (slice_of ?s) (PointUtf16 (of_nat (rows p)) col) clip = Some (str_len (p @ a))"
      unfolding row using le off pos by (simp add: Let_def)
    moreover have "unat col \<noteq> str_len_utf16 a'" if "l = a' @ b'" for a' b'
      using utf16_inside_no_prefix [of a c b a' b'] a that by simp
    ultimately show thesis using that [of a "c # b"] a(1) by metis
  qed
qed


text \<open>The position after a prefix of the text, in both kinds of points.\<close>

definition position :: "rstr \<Rightarrow> point" where
  "position p = Point (of_nat (rows p)) (of_nat (str_len (last_line p)))"

definition position_utf16 :: "rstr \<Rightarrow> point_utf16" where
  "position_utf16 p = PointUtf16 (of_nat (rows p)) (of_nat (str_len_utf16 (last_line p)))"

lemma seek_inside:
  assumes "len_utf8 c = 4"
  shows "seek_boundary (a @ c # b) Left (str_len a + 1) = Some (str_len a)"
    and "seek_boundary (a @ c # b) Right (str_len a + 1) = Some (str_len a + 4)"
proof -
  have n: "\<not> str_is_char_boundary (a @ c # b) (str_len a + j)" if "0 < j" "j < 4" for j
    using inside_not_boundary that assms by simp
  have e: "str_is_char_boundary (a @ c # b) (str_len a + 4)" using prefix_boundary [of "a @ [c]" b] assms by simp
  show "seek_boundary (a @ c # b) Left (str_len a + 1) = Some (str_len a)"
    using n [of 1] by (simp add: seek_boundary.simps [of _ _ "str_len a + 1", simplified] seek_boundary.simps [of _ _ "str_len a"])
  have "seek_boundary (a @ c # b) Right (str_len a + j) = seek_boundary (a @ c # b) Right (str_len a + Suc j)" if "0 < j" "j < 4" for j
    using n [OF that] by (subst seek_boundary.simps) simp
  from this [of 1] this [of 2] this [of 3] have "seek_boundary (a @ c # b) Right (str_len a + 1) = seek_boundary (a @ c # b) Right (str_len a + 4)"
    by (simp add: eval_nat_numeral)
  also have "\<dots> = Some (str_len a + 4)" using e by (subst seek_boundary.simps) simp
  finally show "seek_boundary (a @ c # b) Right (str_len a + 1) = Some (str_len a + 4)" .
qed

lemma clip_offset_utf16_cases:
  assumes "str_len s \<le> 128"
  obtains a b where "s = a @ b" "clip_offset_utf16 (slice_of s) (OffsetUtf16 n) bias = Some (OffsetUtf16 (str_len_utf16 a))"
    "\<And>a' b'. s = a' @ b' \<Longrightarrow> n = str_len_utf16 a' \<Longrightarrow> a = a'"
proof -
  have len16: "slice_len_utf16 (slice_of s) = OffsetUtf16 (str_len_utf16 s)" using assms by (rule slice_len_utf16_eq)
  consider "n = 0" | "0 < n" "str_len_utf16 s \<le> n" | "0 < n" "n < str_len_utf16 s" by linarith
  then show thesis
  proof cases
    case 1
    then show thesis using that [of "[]" s] str_len_utf16_0 by (auto simp: clip_offset_utf16_def)
  next
    case 2
    then have "a' = s" if "s = a' @ b'" "n = str_len_utf16 a'" for a' b' using that str_len_utf16_0 [of b'] by auto
    then show thesis using that [of s "[]"] 2 by (auto simp: clip_offset_utf16_def len16)
  next
    case 3
    then have step: "clip_offset_utf16 (slice_of s) (OffsetUtf16 n) bias = do {
        offset \<leftarrow> seek_boundary s bias (offset_utf16_to_offset (slice_of s) (OffsetUtf16 n));
        Some (offset_to_offset_utf16 (slice_of s) offset) }" by (simp add: clip_offset_utf16_def len16)
    from 3 have "n \<le> str_len_utf16 s" by simp
    then show thesis
    proof (rule utf16_split)
      fix a b assume a: "s = a @ b" "n = str_len_utf16 a"
      have "seek_boundary s bias (str_len a) = Some (str_len a)" using a by (subst seek_boundary.simps) simp
      then have "clip_offset_utf16 (slice_of s) (OffsetUtf16 n) bias = Some (OffsetUtf16 (str_len_utf16 a))"
        unfolding step using offset_utf16_to_offset_eq [of a b] offset_to_offset_utf16_eq [of a b] assms a by simp
      then show thesis using that [of a b] a utf16_prefix_unique by metis
    next
      fix a c b assume a: "s = a @ c # b" "len_utf16 c = 2" "n = str_len_utf16 a + 1"
      have c4: "len_utf8 c = 4" using len_utf16_cases [of c] a(2) by simp
      have off: "offset_utf16_to_offset (slice_of s) (OffsetUtf16 n) = str_len a + 1" using offset_utf16_inside [of a c b] assms a by simp
      have no: "n \<noteq> str_len_utf16 a'" if "s = a' @ b'" for a' b' using utf16_inside_no_prefix [of a c b a' b'] a that by simp
      show thesis
      proof (cases bias)
        case Left
        then have "clip_offset_utf16 (slice_of s) (OffsetUtf16 n) bias = Some (OffsetUtf16 (str_len_utf16 a))"
          unfolding step off using seek_inside(1) [OF c4, of a b] offset_to_offset_utf16_eq [of a "c # b"] assms a by simp
        then show thesis using that [of a "c # b"] a(1) no by metis
      next
        case Right
        then have "clip_offset_utf16 (slice_of s) (OffsetUtf16 n) bias = Some (OffsetUtf16 (str_len_utf16 (a @ [c])))"
          unfolding step off using seek_inside(2) [OF c4, of a b] offset_to_offset_utf16_eq [of "a @ [c]" b] assms a c4 by simp
        then show thesis using that [of "a @ [c]" b] a(1) no by (metis append.assoc append_Cons append_Nil)
      qed
    qed
  qed
qed


lemma position_in_row:
  assumes "line_start p" "newline \<notin> set (a @ b)"
  shows "position (p @ a) = Point (of_nat (rows p)) (of_nat (str_len a))"
    "position_utf16 (p @ a) = PointUtf16 (of_nat (rows p)) (of_nat (str_len_utf16 a))"
  using line_position [of p a] assms by (simp_all add: position_def position_utf16_def)

lemma clip_point_utf16_row:
  assumes len: "str_len (p @ l @ q) \<le> 128" and p: "line_start p" and l: "newline \<notin> set l" and q: "line_end q"
  obtains a b where "l = a @ b"
    "clip_point_utf16 (slice_of (p @ l @ q)) (Unclipped (PointUtf16 (of_nat (rows p)) col)) bias = Some (position_utf16 (p @ a))"
    "\<And>a' b'. l = a' @ b' \<Longrightarrow> unat col = str_len_utf16 a' \<Longrightarrow> a = a'"
proof -
  have l128: "str_len l \<le> 128" using len by simp
  obtain a b where a: "l = a @ b" "clip_offset_utf16 (slice_of l) (OffsetUtf16 (unat col)) bias = Some (OffsetUtf16 (str_len_utf16 a))"
    "\<And>a' b'. l = a' @ b' \<Longrightarrow> unat col = str_len_utf16 a' \<Longrightarrow> a = a'"
    by (rule clip_offset_utf16_cases [OF l128, where n = "unat col" and bias = bias]) (rule that)
  have "clip_point_utf16 (slice_of (p @ l @ q)) (Unclipped (PointUtf16 (of_nat (rows p)) col)) bias = Some (position_utf16 (p @ a))"
    using row_not_beyond [OF len] slice_text_part [OF len] a(2) position_in_row(2) [OF p l [unfolded a(1)]]
    by (simp add: clip_point_utf16_def row_range [OF len p l q] Let_def)
  then show thesis using that a by blast
qed

lemma unclipped_row:
  assumes len: "str_len (p @ l @ q) \<le> 128" and p: "line_start p" and l: "newline \<notin> set l" and q: "line_end q"
  obtains a b where "l = a @ b"
    "unclipped_point_utf16_to_point (slice_of (p @ l @ q)) (Unclipped (PointUtf16 (of_nat (rows p)) col)) = Some (position (p @ a))"
    "\<And>a' b'. l = a' @ b' \<Longrightarrow> unat col = str_len_utf16 a' \<Longrightarrow> a = a'"
proof -
  have l128: "str_len l \<le> 128" using len by simp
  then have uu: "unat (of_nat (str_len_utf16 l) :: u32) = str_len_utf16 l" using str_len_utf16_le [of l] by simp
  have row: "unclipped_point_utf16_to_point (slice_of (p @ l @ q)) (Unclipped (PointUtf16 (of_nat (rows p)) col)) =
     (if col = 0 then Some (Point (of_nat (rows p)) 0)
      else if col \<ge> of_nat (str_len_utf16 l) then Some (Point (of_nat (rows p)) (of_nat (str_len l)))
      else Some (Point (of_nat (rows p)) (of_nat (back_to_boundary l (offset_utf16_to_offset (slice_of l) (OffsetUtf16 (unat col)))))))"
    using row_not_beyond [OF len] slice_text_part [OF len] slice_len_utf16_eq [OF l128]
    by (simp add: unclipped_point_utf16_to_point_def row_range [OF len p l q] Let_def slice_len_def)
  show thesis
  proof (rule column_cases [OF l128, of col])
    assume col: "col > of_nat (str_len_utf16 l)"
    then have "unat col > str_len_utf16 l" by (simp add: word_less_nat_alt uu)
    then have "unat col \<noteq> str_len_utf16 a'" if "l = a' @ b'" for a' b' using that by auto
    moreover have "unclipped_point_utf16_to_point (slice_of (p @ l @ q)) (Unclipped (PointUtf16 (of_nat (rows p)) col)) = Some (position (p @ l))"
      using row col position_in_row(1) [OF p, of l "[]"] l by auto
    ultimately show thesis using that [of l "[]"] by (metis append_Nil2)
  next
    fix a b assume a: "l = a @ b" "unat col = str_len_utf16 a"
    have off: "offset_utf16_to_offset (slice_of l) (OffsetUtf16 (unat col)) = str_len a"
      using offset_utf16_to_offset_eq [of a b] l128 a by simp
    have z: "col = 0 \<longleftrightarrow> a = []" using a(2) str_len_utf16_0 [of a] by (simp add: word_unat_eq_iff)
    have e: "col \<ge> of_nat (str_len_utf16 l) \<Longrightarrow> l = a"
      using a str_len_utf16_0 [of b] uu by (simp add: word_le_nat_alt del: of_nat_add)
    have "back_to_boundary l (str_len a) = str_len a" using a(1) by simp
    then have "unclipped_point_utf16_to_point (slice_of (p @ l @ q)) (Unclipped (PointUtf16 (of_nat (rows p)) col)) = Some (position (p @ a))"
      unfolding row using off z e position_in_row(1) [OF p, of a b] a(1) l by auto
    then show thesis using that [of a b] a utf16_prefix_unique by metis
  next
    fix a c b assume a: "l = a @ c # b" "len_utf16 c = 2" "unat col = str_len_utf16 a + 1"
    have c4: "len_utf8 c = 4" using len_utf16_cases [of c] a(2) by simp
    have off: "offset_utf16_to_offset (slice_of l) (OffsetUtf16 (unat col)) = str_len a + 1"
      using offset_utf16_inside [of a c b] l128 a by simp
    have "unat col < str_len_utf16 l" using a by simp
    then have lt: "\<not> col \<ge> of_nat (str_len_utf16 l)" by (simp add: word_le_nat_alt uu)
    have pos: "col \<noteq> 0" using a(3) by auto
    have "back_to_boundary l (str_len a + 1) = str_len a"
      using inside_not_boundary [of 1 c a b] c4 a(1) by (simp add: back_to_boundary.simps [of _ "Suc _"])
    then have "unclipped_point_utf16_to_point (slice_of (p @ l @ q)) (Unclipped (PointUtf16 (of_nat (rows p)) col)) = Some (position (p @ a))"
      unfolding row using off lt pos position_in_row(1) [OF p, of a "c # b"] a(1) l by simp
    moreover have "unat col \<noteq> str_len_utf16 a'" if "l = a' @ b'" for a' b'
      using utf16_inside_no_prefix [of a c b a' b'] a that by simp
    ultimately show thesis using that [of a "c # b"] a(1) by metis
  qed
qed

text \<open>The loop over grapheme boundaries ends at a boundary, at the latest at an end of the line.\<close>

definition grapheme_ends :: "(rstr \<Rightarrow> nat \<Rightarrow> bool) \<Rightarrow> bool" where
  "grapheme_ends is_grapheme \<longleftrightarrow> (\<forall>t. is_grapheme t 0 \<and> is_grapheme t (str_len t))"

lemma clip_loop_ends:
  assumes g: "grapheme_ends is_grapheme" and len: "str_len l \<le> 128" and k: "k \<le> str_len l"
  shows "\<exists>j \<le> str_len l. clip_loop is_grapheme (slice_of l) bias (of_nat k) = Some (of_nat j)
    \<and> str_is_char_boundary l j \<and> is_grapheme l j \<and> (if bias = Left then j \<le> k else k \<le> j)"
proof -
  let ?stop = "\<lambda>k. str_is_char_boundary l k \<and> is_grapheme l k"
  have stop: "?stop 0" "?stop (str_len l)" using g by (simp_all add: grapheme_ends_def)
  have step: "clip_loop is_grapheme (slice_of l) bias (of_nat k) = (if ?stop k then Some (of_nat k)
      else clip_loop is_grapheme (slice_of l) bias (case bias of Left \<Rightarrow> of_nat k - 1 | Right \<Rightarrow> of_nat k + 1))"
    if "k \<le> str_len l" for k
  proof -
    have "unat (of_nat k :: u64) = k" using that len by (simp add: unat_of_nat)
    then show ?thesis using slice_boundary_eq [OF len, of k] that len by (subst clip_loop.simps) simp
  qed
  show ?thesis
  proof (cases bias)
    case Left
    have "k \<le> str_len l \<Longrightarrow> \<exists>j \<le> k. clip_loop is_grapheme (slice_of l) bias (of_nat k) = Some (of_nat j) \<and> ?stop j" for k
    proof (induction k)
      case 0
      then show ?case using step [of 0] stop by auto
    next
      case (Suc k)
      then obtain j where j: "j \<le> k" "clip_loop is_grapheme (slice_of l) bias (of_nat k) = Some (of_nat j)" "?stop j" by auto
      show ?case
      proof (cases "?stop (Suc k)")
        case True
        then show ?thesis using step [OF Suc.prems] by auto
      next
        case False
        then show ?thesis using step [OF Suc.prems] Left j by (auto intro!: exI [of _ j])
      qed
    qed
    then show ?thesis using k Left by (metis order.trans)
  next
    case Right
    have "n \<le> str_len l \<Longrightarrow> \<exists>j \<le> str_len l. str_len l - n \<le> j \<and> clip_loop is_grapheme (slice_of l) bias (of_nat (str_len l - n)) = Some (of_nat j) \<and> ?stop j" for n
    proof (induction n)
      case 0
      then show ?case using step [of "str_len l"] stop by auto
    next
      case (Suc n)
      then obtain j where j: "j \<le> str_len l" "str_len l - n \<le> j" "clip_loop is_grapheme (slice_of l) bias (of_nat (str_len l - n)) = Some (of_nat j)" "?stop j" by auto
      have "(of_nat (str_len l - Suc n) :: u64) + 1 = of_nat (str_len l - n)" using Suc.prems by (metis Suc_diff_Suc Suc_le_lessD of_nat_Suc add.commute)
      moreover have "clip_loop is_grapheme (slice_of l) bias (of_nat (str_len l - Suc n)) =
          clip_loop is_grapheme (slice_of l) bias (of_nat (str_len l - Suc n) + 1)" if "\<not> ?stop (str_len l - Suc n)"
        using step [of "str_len l - Suc n"] that Right by (simp only: if_False bias.case)
      ultimately have next_step: "\<not> ?stop (str_len l - Suc n) \<Longrightarrow>
          clip_loop is_grapheme (slice_of l) bias (of_nat (str_len l - Suc n)) = Some (of_nat j)"
        using j(3) by simp
      show ?case
      proof (cases "?stop (str_len l - Suc n)")
        case True
        then show ?thesis using step [of "str_len l - Suc n"] by (intro exI [of _ "str_len l - Suc n"]) simp
      next
        case False
        then show ?thesis using next_step j by (intro exI [of _ j]) auto
      qed
    qed
    from this [of "str_len l - k"] show ?thesis using k Right by auto
  qed
qed


lemma clip_loop_stays:
  assumes "str_len l \<le> 128" "k \<le> str_len l" "str_is_char_boundary l k" "is_grapheme l k"
  shows "clip_loop is_grapheme (slice_of l) bias (of_nat k) = Some (of_nat k)"
proof -
  have "unat (of_nat k :: u64) = k" using assms(1,2) by (simp add: unat_of_nat)
  then show ?thesis using slice_boundary_eq [OF assms(1), of k] assms by (subst clip_loop.simps) simp
qed

lemma ascii_boundary:
  assumes "valid_str l" "k < str_len l" "as_bytes l ! k < 128"
  shows "str_is_char_boundary l k"
proof -
  have "unat (as_bytes l ! k) < 128" using assms(3) by (simp add: word_less_nat_alt)
  then have "is_utf8_char_boundary (of_nat (unat (as_bytes l ! k)))" by (subst is_utf8_char_boundary_nat) simp_all
  then show ?thesis
    using assms(1,2) byte_marks(1) [of l] boundary_marks [of k l] nth_map [of k "as_bytes l" is_utf8_char_boundary] by simp
qed

lemma clip_point_row:
  assumes len: "str_len (p @ l @ q) \<le> 128" and p: "line_start p" and l: "newline \<notin> set l" and q: "line_end q"
    and v: "valid_str l" and g: "grapheme_ends is_grapheme"
  obtains a b where "l = a @ b"
    "clip_point is_grapheme (slice_of (p @ l @ q)) (Point (of_nat (rows p)) col) bias = Some (position (p @ a))"
    "\<And>a' b'. l = a' @ b' \<Longrightarrow> is_grapheme l (str_len a') \<Longrightarrow> unat col = str_len a' \<Longrightarrow> a = a'"
proof -
  let ?clip = "clip_point is_grapheme (slice_of (p @ l @ q)) (Point (of_nat (rows p)) col) bias"
  have l128: "str_len l \<le> 128" using len by simp
  then have uu: "unat (of_nat (str_len l) :: u32) = str_len l" by simp
  have row: "?clip =
     (if col = 0 then Some (Point (of_nat (rows p)) col)
      else if col \<ge> of_nat (str_len l) then Some (Point (of_nat (rows p)) (of_nat (str_len l)))
      else if as_bytes l ! (unat col - 1) < 128 \<and> as_bytes l ! unat col < 128 then Some (Point (of_nat (rows p)) (of_nat (unat col)))
      else do {
        column \<leftarrow> clip_loop is_grapheme (slice_of l) bias (of_nat (unat col));
        Some (Point (of_nat (rows p)) (ucast column)) })"
    using row_not_beyond [OF len] slice_text_part [OF len]
    by (simp add: clip_point_def row_range [OF len p l q] Let_def slice_len_def)
  note found = that
  have finish: thesis if k: "str_is_char_boundary l k" "?clip = Some (Point (of_nat (rows p)) (of_nat k))"
    and stays: "\<And>a' b'. l = a' @ b' \<Longrightarrow> is_grapheme l (str_len a') \<Longrightarrow> unat col = str_len a' \<Longrightarrow> k = str_len a'" for k
  proof -
    obtain a b where a: "l = a @ b" "str_len a = k" using k(1) by (auto simp: boundary_iff)
    have "a = a'" if "l = a' @ b'" "is_grapheme l (str_len a')" "unat col = str_len a'" for a' b'
      using prefix_unique [of a b a' b'] a that stays [OF that] by simp
    moreover have "?clip = Some (position (p @ a))" using k(2) position_in_row(1) [OF p, of a b] l a by simp
    ultimately show thesis using found [OF a(1)] by blast
  qed
  consider "col = 0" | "col \<noteq> 0" "col \<ge> of_nat (str_len l)" | "col \<noteq> 0" "\<not> col \<ge> of_nat (str_len l)" by blast
  then show thesis
  proof cases
    case 1
    then show thesis using finish [of 0] row by simp
  next
    case 2
    then have "str_len l \<le> unat col" by (simp add: word_le_nat_alt uu)
    then have whole: "str_len l = str_len a'" if "l = a' @ b'" "unat col = str_len a'" for a' b' using that by simp
    have "?clip = Some (Point (of_nat (rows p)) (of_nat (str_len l)))" using row 2 by simp
    then show thesis by (rule finish [OF boundary_len]) (rule whole)
  next
    case 3
    then have lt: "unat col < str_len l" by (simp add: word_le_nat_alt uu)
    show thesis
    proof (cases "as_bytes l ! (unat col - 1) < 128 \<and> as_bytes l ! unat col < 128")
      case True
      then show thesis using finish [of "unat col"] row 3 ascii_boundary [OF v lt] by simp
    next
      case False
      obtain j where j: "j \<le> str_len l" "clip_loop is_grapheme (slice_of l) bias (of_nat (unat col)) = Some (of_nat j)"
        "str_is_char_boundary l j" "is_grapheme l j" using clip_loop_ends [OF g l128, of "unat col" bias] lt by auto
      have "unat (of_nat j :: u64) = j" using j(1) l128 by (simp add: unat_of_nat)
      then have "(ucast (of_nat j :: u64) :: u32) = of_nat j" by (metis of_nat_unat)
      then have "?clip = Some (Point (of_nat (rows p)) (of_nat j))"
        unfolding row by (simp only: False 3 if_False j(2) bind.bind_lunit)
      moreover have "j = str_len a'" if "l = a' @ b'" "is_grapheme l (str_len a')" "unat col = str_len a'" for a' b'
      proof -
        have "clip_loop is_grapheme (slice_of l) bias (of_nat (unat col)) = Some (of_nat (unat col))"
          by (rule clip_loop_stays [OF l128]) (use that lt in simp_all)
        then have "(of_nat (unat col) :: u64) = of_nat j" using j(2) by simp
        then have "unat (of_nat (unat col) :: u64) = j" using \<open>unat (of_nat j :: u64) = j\<close> by simp
        then show ?thesis using lt l128 that(3) by (simp add: unat_of_nat)
      qed
      ultimately show thesis using finish [of j] j(3) by blast
    qed
  qed
qed


section \<open>Tabs\<close>

text \<open>The positions an iterator over tabs yields, until it returns none.\<close>

fun tabs_collect :: "nat \<Rightarrow> tab_iter \<Rightarrow> tab_position list" where
  "tabs_collect 0 it = []"
| "tabs_collect (Suc n) it = (case tabs_next it of (None, _) \<Rightarrow> [] | (Some t, it) \<Rightarrow> t # tabs_collect n it)"

fun tab_positions :: "nat \<Rightarrow> nat \<Rightarrow> rstr \<Rightarrow> tab_position list" where
  "tab_positions b i [] = []"
| "tab_positions b i (c # s) =
     (if c = tab then [\<lparr>byte_offset = b, char_offset = i\<rparr>] else []) @ tab_positions (b + len_utf8 c) (Suc i) s"

abbreviation tab_marks :: "rstr \<Rightarrow> bool list" where
  "tab_marks \<equiv> marks (\<lambda>c. of_bool (c = tab))"

lemma tab_1 [simp]: "len_utf8 tab = 1"
  by (simp add: tab_def len_utf8_def)

lemma tab_marks_none: "tab \<notin> set l \<Longrightarrow> tab_marks l = replicate (str_len l) False"
proof (induction l)
  case (Cons c l)
  then show ?case by (auto simp: replicate_add map_replicate_const)
qed simp

lemma tab_positions_none: "tab \<notin> set l \<Longrightarrow> tab_positions b i (l @ s) = tab_positions (b + str_len l) (i + length l) s"
  by (induction l arbitrary: b i) (auto simp: add.assoc)

lemma tabs_next_none:
  assumes "tab \<notin> set q"
  shows "tabs_next \<lparr>it_tabs = bm (replicate n False @ tab_marks q), it_chars = v\<rparr>
    = (None, \<lparr>it_tabs = bm (replicate n False @ tab_marks q), it_chars = v\<rparr>)"
proof -
  have "bm (replicate n False @ tab_marks q) = 0"
    using bm_False [of "[]" "n + str_len q"] assms by (simp add: tab_marks_none replicate_add)
  then show ?thesis by (simp add: tabs_next_def)
qed

lemma xor_tab:
  assumes "n < 128"
  shows "bm (replicate n False @ True # xs) XOR shl 1 n = bm (replicate (Suc n) False @ xs)"
proof (rule bm_eqI)
  fix j :: nat assume "j < 128"
  then show "bit (bm (replicate n False @ True # xs) XOR shl 1 n) j \<longleftrightarrow> bit (bm (replicate (Suc n) False @ xs)) j"
    using assms by (auto simp: shl_def bit_bm bit_simps nth_append nth_Cons' Suc_diff_Suc simp del: replicate_Suc)
qed

lemma tabs_next_some:
  assumes len: "str_len (p @ l @ tab # q) \<le> 128" and l: "tab \<notin> set l"
  shows "tabs_next \<lparr>it_tabs = bm (replicate (str_len p) False @ tab_marks (l @ tab # q)), it_chars = bm (marks (\<lambda>_. 1) (p @ l @ tab # q))\<rparr> =
    (Some \<lparr>byte_offset = str_len p + str_len l, char_offset = length p + length l\<rparr>,
     \<lparr>it_tabs = bm (replicate (str_len (p @ l @ [tab])) False @ tab_marks q), it_chars = bm (marks (\<lambda>_. 1) (p @ l @ tab # q))\<rparr>)"
proof -
  let ?n = "str_len p + str_len l"
  have n: "?n < 128" using len by simp
  have t: "replicate (str_len p) False @ tab_marks (l @ tab # q) = replicate ?n False @ True # tab_marks q"
    using l by (simp add: tab_marks_none replicate_add)
  have "bit (bm (replicate ?n False @ True # tab_marks q)) ?n" using n by (simp add: bit_bm nth_append)
  then have nz: "bm (replicate ?n False @ True # tab_marks q) \<noteq> 0" by auto
  have z: "trailing_zeros (bm (replicate ?n False @ True # tab_marks q)) = ?n"
    using len by (simp add: trailing_zeros_bm takeWhile_replicate)
  have "bm (marks (\<lambda>_. 1) (p @ l @ tab # q)) AND (shl 1 ?n - 1) = bm (marks (\<lambda>_. 1) (p @ l))"
    using n by (simp add: shl_def bm_take)
  then have c: "count_ones (bm (marks (\<lambda>_. 1) (p @ l @ tab # q)) AND (shl 1 ?n - 1)) = length p + length l"
    using n by (simp only: count_ones_bm length_marks count_char_marks) (simp add: count_ones_bm count_char_marks [simplified])
  show ?thesis unfolding t by (simp only: tabs_next_def Let_def tab_iter.simps z c nz if_False xor_tab [OF n]) simp
qed

lemma tabs_collect_from:
  assumes "str_len (p @ q) \<le> 128" "length q < n"
  shows "tabs_collect n \<lparr>it_tabs = bm (replicate (str_len p) False @ tab_marks q), it_chars = bm (marks (\<lambda>_. 1) (p @ q))\<rparr>
    = tab_positions (str_len p) (length p) q"
  using assms
proof (induction n arbitrary: p q)
  case (Suc n)
  show ?case
  proof (cases "tab \<in> set q")
    case False
    then show ?thesis using tab_positions_none [of q _ _ "[]"] by (simp add: tabs_next_none)
  next
    case True
    then obtain l t where q: "q = l @ tab # t" "tab \<notin> set l" by (meson split_list_first)
    have "tabs_collect n \<lparr>it_tabs = bm (replicate (str_len (p @ l @ [tab])) False @ tab_marks t), it_chars = bm (marks (\<lambda>_. 1) ((p @ l @ [tab]) @ t))\<rparr>
      = tab_positions (str_len (p @ l @ [tab])) (length (p @ l @ [tab])) t"
      by (rule Suc.IH) (use Suc.prems q in simp_all)
    then show ?thesis
      using tabs_next_some [of p l t] Suc.prems(1) q tab_positions_none [of l "str_len p" "length p" "tab # t"]
      by (simp del: marks_simps str_len_simps) (simp del: marks_simps)
  qed
qed simp


lemma tabs_collect_eq:
  assumes "str_len s \<le> 128" "length s < n"
  shows "tabs_collect n (slice_tabs (slice_of s)) = tab_positions 0 0 s"
  using tabs_collect_from [of "[]" s n] assms by (simp add: slice_tabs_def slice_of_sel del: One_nat_def)

section \<open>Properties\<close>

lemma position_summary:
  assumes "str_len p \<le> 128"
  shows "position p = ts_lines (text_summary_from p)" "position_utf16 p = lines_utf16 (text_summary_from p)"
  using length_le_128 [OF assms]
  by (simp_all add: text_summary_from_spec summary_spec_def position_def position_utf16_def lines_utf16_def Let_def rows_def last_line_def)

lemma point_to_offset_le:
  assumes "str_len s \<le> 128"
  shows "point_to_offset (slice_of s) pt \<le> str_len s"
proof (cases "pt_row pt > pt_row (slice_lines (slice_of s))")
  case False
  from assms False obtain p l q where s: "s = p @ l @ q"
    and r: "offset_range_for_row (slice_of s) (pt_row pt) = (str_len p, str_len p + str_len l)" by (rule row_cases)
  have "unat (of_nat (str_len l) :: u32) = str_len l" using assms s by simp
  then have "\<not> pt_column pt > of_nat (str_len l) \<Longrightarrow> unat (pt_column pt) \<le> str_len l" by (simp add: word_less_nat_alt)
  then show ?thesis using False r s by (auto simp: point_to_offset_def)
qed (simp add: point_to_offset_def slice_len_def)

text \<open>
  Byte offsets and points of a chunk. The point of a boundary is the end of the text before it;
  every byte offset, also one inside a character, comes back from its point; and any point, also
  one beyond the text, is taken to an offset within the chunk.
\<close>

theorem chunk_offset_point_roundtrip:
  assumes "str_len (p @ q) \<le> MAX_BASE" "n \<le> str_len (p @ q)"
  shows "offset_to_point (as_slice (chunk_of (p @ q))) (str_len p) = ts_lines (text_summary_from p)
    \<and> point_to_offset (as_slice (chunk_of (p @ q))) (offset_to_point (as_slice (chunk_of (p @ q))) n) = n
    \<and> point_to_offset_utf16 (as_slice (chunk_of (p @ q))) (ts_lines (text_summary_from p)) = OffsetUtf16 (str_len_utf16 p)
    \<and> point_to_offset (as_slice (chunk_of (p @ q))) pt \<le> str_len (p @ q)"
proof -
  have len: "str_len (p @ q) \<le> 128" and p: "str_len p \<le> 128" using assms(1) by (simp_all add: MAX_BASE_def)
  have "offset_to_point (slice_of (p @ q)) (str_len p) = position p" using offset_to_point_eq [OF len, of 0] by (simp add: position_def)
  moreover have "point_to_offset (slice_of (p @ q)) (offset_to_point (slice_of (p @ q)) n) = n"
  proof (rule offset_split [OF assms(2)])
    fix a j b assume a: "p @ q = a @ b" "n = str_len a + j" "j = 0 \<or> (\<exists>c q'. b = c # q' \<and> j < len_utf8 c)"
    then show ?thesis using len offset_to_point_eq [of a b j] point_to_offset_eq [of a b j] inside_char_first_line [OF a(3)] by simp
  qed
  moreover have "point_to_offset_utf16 (slice_of (p @ q)) (position p) = OffsetUtf16 (str_len_utf16 p)"
    using row_range_around(3) [OF len] point_to_offset_eq [OF len, of 0] offset_to_offset_utf16_eq [OF len]
    by (simp add: point_to_offset_utf16_def position_def)
  ultimately show ?thesis using position_summary(1) [OF p] point_to_offset_le [OF len] by simp
qed

theorem chunk_offset_point_roundtrip_witness:
  "offset_to_point (as_slice (chunk_of ([97, newline, 233] @ [98]))) 4 = Point 1 2
    \<and> point_to_offset (as_slice (chunk_of ([97, newline, 233] @ [98]))) (offset_to_point (as_slice (chunk_of ([97, newline, 233] @ [98]))) 3) = 3"
proof -
  have len: "str_len [97, newline, 233] = 4" "str_len ([97, newline, 233] @ [98]) = 5"
    "str_len ([97, newline, 233] @ [98]) \<le> MAX_BASE" by (simp_all add: len_utf8_def newline_def MAX_BASE_def)
  have "ts_lines (text_summary_from [97, newline, 233]) = Point 1 2"
    by (simp add: text_summary_from_spec summary_spec_def Let_def newline_def len_utf8_def)
  then show ?thesis using chunk_offset_point_roundtrip [OF len(3), of 3] unfolding len by simp
qed

lemma row_prefix:
  obtains p0 q0 where "p = p0 @ last_line p" "p @ q = p0 @ (last_line p @ first_line q) @ q0" "line_start p0" "rows p0 = rows p" "line_end q0"
    "newline \<notin> set (last_line p @ first_line q)"
proof -
  obtain p0 q0 where "p = p0 @ last_line p" "q = first_line q @ q0" "line_start p0" "rows p0 = rows p" "line_end q0"
    "newline \<notin> set (last_line p @ first_line q)" by (rule row_around)
  then show thesis using that [of p0 q0] by (metis append.assoc)
qed

lemma utf16_of_position:
  assumes "str_len (p @ q) \<le> 128"
  shows "point_utf16_to_offset (slice_of (p @ q)) (position_utf16 p) clip = Some (str_len p)"
    and "clip_point_utf16 (slice_of (p @ q)) (Unclipped (position_utf16 p)) bias = Some (position_utf16 p)"
    and "unclipped_point_utf16_to_point (slice_of (p @ q)) (Unclipped (position_utf16 p)) = Some (position p)"
proof -
  obtain p0 q0 where r: "p = p0 @ last_line p" "p @ q = p0 @ (last_line p @ first_line q) @ q0" "line_start p0" "rows p0 = rows p" "line_end q0"
    "newline \<notin> set (last_line p @ first_line q)" by (rule row_prefix)
  let ?l = "last_line p @ first_line q" and ?col = "of_nat (str_len_utf16 (last_line p)) :: u32"
  have len: "str_len (p0 @ ?l @ q0) \<le> 128" using assms r(2) by simp
  have col: "unat ?col = str_len_utf16 (last_line p)"
    using str_len_utf16_le [of "last_line p"] last_line_le(1) [of p] assms by simp
  have pos: "position_utf16 p = PointUtf16 (of_nat (rows p0)) ?col" by (simp add: position_utf16_def r(4))
  show "point_utf16_to_offset (slice_of (p @ q)) (position_utf16 p) clip = Some (str_len p)"
    unfolding r(2) pos by (rule point_utf16_to_offset_row [OF len r(3,6,5), of ?col clip]) (use col r(1) in metis)
  show "clip_point_utf16 (slice_of (p @ q)) (Unclipped (position_utf16 p)) bias = Some (position_utf16 p)"
    by (rule clip_point_utf16_row [OF len r(3,6,5), of ?col bias]) (use col r(1,2) pos in metis)
  show "unclipped_point_utf16_to_point (slice_of (p @ q)) (Unclipped (position_utf16 p)) = Some (position p)"
    by (rule unclipped_row [OF len r(3,6,5), of ?col]) (use col r(1,2) pos in metis)
qed

text \<open>
  UTF-16 coordinates of a chunk. At every character boundary the UTF-16 offset is the number of
  code units before it and the UTF-16 point the end of the text before it, and both convert back
  to the byte offset and to the byte point.
\<close>

theorem chunk_utf16_roundtrip:
  assumes "str_len (p @ q) \<le> MAX_BASE"
  shows "offset_to_offset_utf16 (as_slice (chunk_of (p @ q))) (str_len p) = OffsetUtf16 (str_len_utf16 p)
    \<and> offset_utf16_to_offset (as_slice (chunk_of (p @ q))) (OffsetUtf16 (str_len_utf16 p)) = str_len p
    \<and> offset_to_point_utf16 (as_slice (chunk_of (p @ q))) (str_len p) = lines_utf16 (text_summary_from p)
    \<and> point_to_point_utf16 (as_slice (chunk_of (p @ q))) (ts_lines (text_summary_from p)) = lines_utf16 (text_summary_from p)
    \<and> point_utf16_to_offset (as_slice (chunk_of (p @ q))) (lines_utf16 (text_summary_from p)) clip = Some (str_len p)
    \<and> unclipped_point_utf16_to_point (as_slice (chunk_of (p @ q))) (Unclipped (lines_utf16 (text_summary_from p)))
        = Some (ts_lines (text_summary_from p))"
proof -
  have len: "str_len (p @ q) \<le> 128" and p: "str_len p \<le> 128" using assms(1) by (simp_all add: MAX_BASE_def)
  have "offset_to_point_utf16 (slice_of (p @ q)) (str_len p) = position_utf16 p"
    using offset_to_point_utf16_eq [OF len] by (simp add: position_utf16_def)
  moreover have "point_to_offset (slice_of (p @ q)) (position p) = str_len p"
    using point_to_offset_eq [OF len, of 0] by (simp add: position_def)
  ultimately show ?thesis
    using offset_to_offset_utf16_eq [OF len] offset_utf16_to_offset_eq [OF len] utf16_of_position [OF len] position_summary [OF p]
    by (simp add: point_to_point_utf16_def)
qed

theorem chunk_utf16_roundtrip_witness:
  "offset_to_offset_utf16 (as_slice (chunk_of ([97, 128512] @ [98]))) 5 = OffsetUtf16 3
    \<and> offset_utf16_to_offset (as_slice (chunk_of ([97, 128512] @ [98]))) (OffsetUtf16 3) = 5"
  using chunk_utf16_roundtrip [of "[97, 128512]" "[98]" True] by (simp add: MAX_BASE_def len_utf8_def len_utf16_def numeral_3_eq_3)


lemma clip_anywhere:
  assumes len: "str_len s \<le> 128" and v: "valid_str s" and g: "grapheme_ends is_grapheme"
  shows "\<exists>p q. s = p @ q \<and> clip_point is_grapheme (slice_of s) pt bias = Some (position p)"
    and "\<exists>p q. s = p @ q \<and> clip_point_utf16 (slice_of s) (Unclipped pt16) bias = Some (position_utf16 p)"
    and "\<exists>p q. s = p @ q \<and> point_utf16_to_offset (slice_of s) pt16 clip = Some (str_len p)"
    and "\<exists>p q. s = p @ q \<and> unclipped_point_utf16_to_point (slice_of s) (Unclipped pt16) = Some (position p)"
proof -
  have whole: "slice_lines (slice_of s) = position s" "PointUtf16 (pt_row (position s)) (last_line_len_utf16 (slice_of s)) = position_utf16 s"
    using len by (simp_all add: slice_lines_rows position_def position_utf16_def last_line_eq last_line_def)
  show "\<exists>p q. s = p @ q \<and> clip_point is_grapheme (slice_of s) pt bias = Some (position p)"
  proof (cases "pt_row pt > pt_row (slice_lines (slice_of s))")
    case True
    show ?thesis by (rule exI [of _ s], rule exI [of _ "[]"]) (use True in \<open>simp add: clip_point_def whole\<close>)
  next
    case False
    from len False obtain p l q where r: "s = p @ l @ q" "line_start p" "newline \<notin> set l" "line_end q" "pt_row pt = of_nat (rows p)"
      by (rule row_cases)
    then have "str_len (p @ l @ q) \<le> 128" "valid_str l" using len v by simp_all
    then show ?thesis
      using clip_point_row [of p l q is_grapheme "pt_column pt" bias] r(2-5) g unfolding r(1) by (cases pt) (metis append.assoc point.sel)
  qed
  show "\<exists>p q. s = p @ q \<and> clip_point_utf16 (slice_of s) (Unclipped pt16) bias = Some (position_utf16 p)"
  proof (cases "pt16_row pt16 > pt_row (slice_lines (slice_of s))")
    case True
    show ?thesis by (rule exI [of _ s], rule exI [of _ "[]"]) (use True in \<open>simp add: clip_point_utf16_def whole\<close>)
  next
    case False
    from len False obtain p l q where r: "s = p @ l @ q" "line_start p" "newline \<notin> set l" "line_end q" "pt16_row pt16 = of_nat (rows p)"
      by (rule row_cases)
    then show ?thesis
      using clip_point_utf16_row [of p l q "pt16_column pt16" bias] len unfolding r(1) by (cases pt16) (metis append.assoc point_utf16.sel)
  qed
  show "\<exists>p q. s = p @ q \<and> point_utf16_to_offset (slice_of s) pt16 clip = Some (str_len p)"
  proof (cases "pt16_row pt16 > pt_row (slice_lines (slice_of s))")
    case True
    show ?thesis by (rule exI [of _ s], rule exI [of _ "[]"]) (use True in \<open>simp add: point_utf16_to_offset_def slice_len_def\<close>)
  next
    case False
    from len False obtain p l q where r: "s = p @ l @ q" "line_start p" "newline \<notin> set l" "line_end q" "pt16_row pt16 = of_nat (rows p)"
      by (rule row_cases)
    then show ?thesis
      using point_utf16_to_offset_row [of p l q "pt16_column pt16" clip] len unfolding r(1) by (cases pt16) (metis append.assoc point_utf16.sel)
  qed
  show "\<exists>p q. s = p @ q \<and> unclipped_point_utf16_to_point (slice_of s) (Unclipped pt16) = Some (position p)"
  proof (cases "pt16_row pt16 > pt_row (slice_lines (slice_of s))")
    case True
    show ?thesis by (rule exI [of _ s], rule exI [of _ "[]"]) (use True in \<open>simp add: unclipped_point_utf16_to_point_def whole\<close>)
  next
    case False
    from len False obtain p l q where r: "s = p @ l @ q" "line_start p" "newline \<notin> set l" "line_end q" "pt16_row pt16 = of_nat (rows p)"
      by (rule row_cases)
    then show ?thesis
      using unclipped_row [of p l q "pt16_column pt16"] len unfolding r(1) by (cases pt16) (metis append.assoc point_utf16.sel)
  qed
qed

text \<open>
  Clipping returns, for every input: a point clipped on graphemes, a UTF-16 point clipped to
  either side, and the conversions of UTF-16 points all end at a character boundary of the chunk,
  whatever row, column or half of a surrogate pair they start from, provided the segmentation
  treats both ends of a text as boundaries. A UTF-16 point at a boundary is clipped to itself.
\<close>

theorem chunk_clipping:
  assumes "str_len s \<le> MAX_BASE" "valid_str s" "grapheme_ends is_grapheme"
  shows "(\<exists>p q. s = p @ q \<and> clip_point is_grapheme (as_slice (chunk_of s)) pt bias = Some (ts_lines (text_summary_from p)))
    \<and> (\<exists>p q. s = p @ q \<and> clip_point_utf16 (as_slice (chunk_of s)) (Unclipped pt16) bias = Some (lines_utf16 (text_summary_from p)))
    \<and> (\<exists>p q. s = p @ q \<and> point_utf16_to_offset (as_slice (chunk_of s)) pt16 clip = Some (str_len p))
    \<and> (\<exists>p q. s = p @ q \<and> unclipped_point_utf16_to_point (as_slice (chunk_of s)) (Unclipped pt16) = Some (ts_lines (text_summary_from p)))
    \<and> (\<forall>p q. s = p @ q \<longrightarrow> clip_point_utf16 (as_slice (chunk_of s)) (Unclipped (lines_utf16 (text_summary_from p))) bias
        = Some (lines_utf16 (text_summary_from p)))"
proof -
  have len: "str_len s \<le> 128" using assms(1) by (simp add: MAX_BASE_def)
  have pos: "position p = ts_lines (text_summary_from p)" "position_utf16 p = lines_utf16 (text_summary_from p)" if "s = p @ q" for p q
    using position_summary [of p] len that by simp_all
  note clip = clip_anywhere [OF len assms(2,3)]
  have "clip_point_utf16 (slice_of s) (Unclipped (lines_utf16 (text_summary_from p))) bias = Some (lines_utf16 (text_summary_from p))"
    if "s = p @ q" for p q using utf16_of_position(2) [of p q bias] len pos(2) [OF that] that by simp
  then show ?thesis
    using clip(1) [of pt bias] clip(2) [of pt16 bias] clip(3) [of pt16 clip] clip(4) [of pt16] pos unfolding as_slice_chunk_of by metis
qed

theorem chunk_clipping_witness:
  "\<exists>p q. [97, 128512] = p @ q \<and>
     clip_point_utf16 (as_slice (chunk_of [97, 128512])) (Unclipped (PointUtf16 0 2)) Left = Some (lines_utf16 (text_summary_from p))"
proof -
  have "grapheme_ends (\<lambda>t i. i = 0 \<or> i = str_len t)" by (simp add: grapheme_ends_def)
  moreover have "str_len [97, 128512] \<le> MAX_BASE" "valid_str [97, 128512]" by (simp_all add: MAX_BASE_def len_utf8_def)
  ultimately show ?thesis using chunk_clipping [of "[97, 128512]"] by blast
qed

end
