(* ===== verification/ParTree.thy ===== *)
theory ParTree
  imports SumTree
begin

text \<open>
  Building a tree in parallel (\<open>from_par_iter\<close>, \<open>par_extend\<close> of
  \<open>crates/sum_tree/src/sum_tree.rs\<close>). The package \<open>rayon\<close> is a parameter: \<open>chunks\<close>, its grouping of an
  indexed parallel iterator, at the two types it is used at, items and nodes; mapping over the
  groups and collecting keeps their order, so that the threads do not show in the result.
\<close>

section \<open>Definitions\<close>

definition par_leaf :: "('t, 's) item_ops \<Rightarrow> 't list \<Rightarrow> ('t, 's) node rust" where
  "par_leaf ops items = do {
     items \<leftarrow> arrayvec items;
     let item_summaries = map (it_summary ops) items;
     first \<leftarrow> get_ix item_summaries 0;
     Some (Leaf (foldl (s_add ops) first (drop 1 item_summaries)) items item_summaries)
   }"

definition par_parent :: "('t, 's) item_ops \<Rightarrow> nat \<Rightarrow> ('t, 's) node list \<Rightarrow> ('t, 's) node rust" where
  "par_parent ops height child_nodes = do {
     child_trees \<leftarrow> arrayvec child_nodes;
     let child_summaries = map node_summary child_trees;
     first \<leftarrow> get_ix child_summaries 0;
     Some (Internal height (foldl (s_add ops) first (drop 1 child_summaries)) child_summaries child_trees)
   }"

partial_function (option) par_levels_loop ::
    "('t, 's) item_ops \<Rightarrow> (nat \<Rightarrow> ('t, 's) node list \<Rightarrow> ('t, 's) node list list) \<Rightarrow> nat \<Rightarrow> ('t, 's) node list
      \<Rightarrow> ('t, 's) node list rust" where
  "par_levels_loop ops chunks height nodes =
     (if length nodes > 1
      then do {
        let height = height + 1;
        nodes \<leftarrow> those (map (par_parent ops height) (chunks (2 * TREE_BASE) nodes));
        par_levels_loop ops chunks height nodes
      }
      else Some nodes)"

declare par_levels_loop.simps [code]

definition tree_from_par_iter ::
    "('t, 's) item_ops \<Rightarrow> (nat \<Rightarrow> 't list \<Rightarrow> 't list list) \<Rightarrow> (nat \<Rightarrow> ('t, 's) node list \<Rightarrow> ('t, 's) node list list)
      \<Rightarrow> 't list \<Rightarrow> ('t, 's) node rust" where
  "tree_from_par_iter ops chunks node_chunks iter = do {
     nodes \<leftarrow> those (map (par_leaf ops) (chunks (2 * TREE_BASE) iter));
     nodes \<leftarrow> par_levels_loop ops node_chunks 0 nodes;
     Some (if nodes = [] then tree_new ops else last nodes)
   }"

definition tree_par_extend ::
    "('t, 's) item_ops \<Rightarrow> (nat \<Rightarrow> 't list \<Rightarrow> 't list list) \<Rightarrow> (nat \<Rightarrow> ('t, 's) node list \<Rightarrow> ('t, 's) node list list)
      \<Rightarrow> ('t, 's) node \<Rightarrow> 't list \<Rightarrow> ('t, 's) node rust" where
  "tree_par_extend ops chunks node_chunks self iter = do {
     t \<leftarrow> tree_from_par_iter ops chunks node_chunks iter;
     tree_append ops self t
   }"

section \<open>Groups\<close>

text \<open>What \<open>rayon\<close> documents of \<open>chunks\<close>: groups of the given size in order, the last one maybe shorter.\<close>

definition chunks_spec :: "(nat \<Rightarrow> 'a list \<Rightarrow> 'a list list) \<Rightarrow> bool" where
  "chunks_spec chunks \<longleftrightarrow>
     (\<forall>n xs. 0 < n \<longrightarrow> chunks n xs = (if xs = [] then [] else take n xs # chunks n (drop n xs)))"

lemma chunks_props:
  assumes "chunks_spec chunks" "0 < n"
  shows "concat (chunks n xs) = xs" "\<forall>g \<in> set (chunks n xs). g \<noteq> [] \<and> length g \<le> n"
    "length (chunks n xs) = (length xs + (n - 1)) div n"
proof (induction xs rule: length_induct)
  case (1 xs)
  have step: "chunks n xs = (if xs = [] then [] else take n xs # chunks n (drop n xs))"
    using assms by (simp add: chunks_spec_def)
  have IH: "concat (chunks n (drop n xs)) = drop n xs"
    "\<forall>g \<in> set (chunks n (drop n xs)). g \<noteq> [] \<and> length g \<le> n"
    "length (chunks n (drop n xs)) = (length (drop n xs) + (n - 1)) div n" if "xs \<noteq> []"
  proof -
    have "length (drop n xs) < length xs" using that assms(2) by simp
    from 1 [rule_format, OF this] show "concat (chunks n (drop n xs)) = drop n xs"
      "\<forall>g \<in> set (chunks n (drop n xs)). g \<noteq> [] \<and> length g \<le> n"
      "length (chunks n (drop n xs)) = (length (drop n xs) + (n - 1)) div n" by blast+
  qed
  { case 1 show ?case
    proof (cases "xs = []")
      case False
      then show ?thesis using step IH(1) [OF False] by simp
    qed (use step in simp) }
  { case 2 show ?case
    proof (cases "xs = []")
      case False
      then show ?thesis using step IH(2) [OF False] assms(2) by simp
    qed (use step in simp) }
  { case 3
    show ?case
    proof (cases "xs = []")
      case False
      then have "length (chunks n xs) = Suc ((length xs - n + (n - 1)) div n)" using step IH(3) [OF False] by simp
      also have "\<dots> = (length xs + (n - 1)) div n"
      proof (cases "length xs \<le> n")
        case True
        have e: "length xs + (n - 1) = (length xs - 1) + n"
          using \<open>xs \<noteq> []\<close> assms(2) by (cases xs) simp_all
        have "length xs - 1 < n" using True assms(2) by simp
        then have "((length xs - 1) + n) div n = Suc 0" using assms(2) by (simp add: div_add_self2)
        moreover have "(length xs - n + (n - 1)) div n = 0" using True assms(2) by simp
        ultimately show ?thesis unfolding e by (simp only:)
      next
        case False
        then have "length xs + (n - 1) = (length xs - n + (n - 1)) + n" by simp
        then show ?thesis using assms(2) by (simp only: div_add_self2)
      qed
      finally show ?thesis .
    qed (use step assms(2) in simp) }
qed

section \<open>Correctness\<close>

context summary_laws
begin

lemma par_leaf_ok:
  "is \<noteq> [] \<Longrightarrow> length is \<le> 12 \<Longrightarrow> par_leaf ops is = Some (leaf_of ops is)"
  by (cases "is") (simp_all add: par_leaf_def leaf_of_def arrayvec_def TREE_BASE_def Let_def)

lemma foldl_kids_flat:
  assumes "kids fits ops h (c # cs)" "fits (tree_items c @ concat (map tree_items cs))"
  shows "foldl (s_add ops) (node_summary c) (map node_summary cs) = flat ops (tree_items c @ concat (map tree_items cs))"
  using assms
proof (induction cs rule: rev_induct)
  case Nil
  then show ?case using node_flat by simp
next
  case (snoc d cs)
  then have "fits ((tree_items c @ concat (map tree_items cs)) @ tree_items d)" by simp
  note f = this fits_append [OF this]
  show ?case using snoc f node_flat [of d] flat_append [OF _ f(1)] by simp
qed

lemma par_parent_ok:
  assumes "kids fits ops h cs" "cs \<noteq> []" "length cs \<le> 12"
  shows "\<exists>p. par_parent ops h cs = Some p \<and> full fits ops h p \<and> tree_items p = concat (map tree_items cs)"
  using assms foldl_kids_flat [of h "hd cs" "tl cs"]
  by (cases cs) (auto simp: par_parent_def arrayvec_def TREE_BASE_def Let_def)

lemma those_map_ok:
  assumes "\<forall>g \<in> set gs. \<exists>p. f g = Some p \<and> P p \<and> tree_items p = q g"
  shows "\<exists>ps. those (map f gs) = Some ps \<and> list_all P ps \<and> length ps = length gs
    \<and> concat (map tree_items ps) = concat (map q gs)"
  using assms by (induction gs) fastforce+

lemma par_levels_loop_ok:
  assumes "chunks_spec chunks" "list_all (full fits ops h) nodes"
  shows "\<exists>qs h'. par_levels_loop ops chunks h nodes = Some qs \<and> length qs \<le> 1 \<and> list_all (full fits ops h') qs
     \<and> concat (map tree_items qs) = concat (map tree_items nodes)"
  using assms(2)
proof (induction "length nodes" arbitrary: h nodes rule: less_induct)
  case less
  show ?case
  proof (cases "length nodes \<le> 1")
    case True
    then show ?thesis using less.prems by (subst par_levels_loop.simps) (auto intro!: exI [of _ h])
  next
    case False
    let ?gs = "chunks 12 nodes"
    note c = chunks_props [OF assms(1), of 12 nodes, simplified]
    have sub: "g \<in> set ?gs \<Longrightarrow> set g \<subseteq> set nodes" for g
      using c(1) by (metis Sup_upper image_eqI set_concat)
    have "\<forall>g \<in> set ?gs. \<exists>p. par_parent ops (h + 1) g = Some p \<and> full fits ops (h + 1) p
        \<and> tree_items p = concat (map tree_items g)"
    proof
      fix g assume g: "g \<in> set ?gs"
      then have "kids fits ops (h + 1) g" using sub [OF g] less.prems by (auto simp: list_all_iff)
      then show "\<exists>p. par_parent ops (h + 1) g = Some p \<and> full fits ops (h + 1) p \<and> tree_items p = concat (map tree_items g)"
        by (rule par_parent_ok) (use c(2) g in auto)
    qed
    from those_map_ok [OF this] obtain ps where p:
      "those (map (par_parent ops (h + 1)) ?gs) = Some ps" "list_all (full fits ops (h + 1)) ps"
      "length ps = length ?gs" "concat (map tree_items ps) = concat (map (\<lambda>g. concat (map tree_items g)) ?gs)" by blast
    have "concat (map (\<lambda>g. concat (map tree_items g)) gs) = concat (map tree_items (concat gs))"
      for gs :: "('t, 's) node list list" by (induction gs) simp_all
    then have items: "concat (map tree_items ps) = concat (map tree_items nodes)" using p(4) c(1) by simp
    have "length ps < length nodes" using p(3) c(3) False by simp
    from less.hyps [OF this p(2)] obtain qs h' where
      "par_levels_loop ops chunks (h + 1) ps = Some qs" "length qs \<le> 1" "list_all (full fits ops h') qs"
      "concat (map tree_items qs) = concat (map tree_items ps)" by blast
    then show ?thesis
      using False p(1) items by (intro exI [of _ qs] exI [of _ h'], subst par_levels_loop.simps) (simp add: TREE_BASE_def)
  qed
qed

lemma tree_from_par_iter_ok:
  assumes "chunks_spec chunks" "chunks_spec node_chunks"
  shows "\<exists>t. tree_from_par_iter ops chunks node_chunks is = Some t \<and> wf_upto fits ops t \<and> tree_items t = is"
proof -
  note c = chunks_props [OF assms(1), of 12 "is", simplified]
  have "\<forall>g \<in> set (chunks 12 is). \<exists>p. par_leaf ops g = Some p \<and> full fits ops 0 p \<and> tree_items p = g"
    using c(2) par_leaf_ok full_leaf_of by (fastforce simp: leaf_of_def Let_def)
  from those_map_ok [OF this] obtain ps where p: "those (map (par_leaf ops) (chunks 12 is)) = Some ps"
    "list_all (full fits ops 0) ps" "concat (map tree_items ps) = is" using c(1) by auto
  from par_levels_loop_ok [OF assms(2) p(2)] obtain qs h' where
    "par_levels_loop ops node_chunks 0 ps = Some qs" "length qs \<le> 1" "list_all (full fits ops h') qs"
    "concat (map tree_items qs) = is" using p(3) by auto
  then show ?thesis using p(1) by (cases qs) (auto simp: tree_from_par_iter_def TREE_BASE_def)
qed

lemma tree_par_extend_ok:
  assumes "chunks_spec chunks" "chunks_spec node_chunks" "wf_upto fits ops a"
  shows "\<exists>t. tree_par_extend ops chunks node_chunks a is = Some t \<and> wf_upto fits ops t \<and> tree_items t = tree_items a @ is"
  using tree_from_par_iter_ok [OF assms(1,2), of "is"] tree_append_ok [OF assms(3)] unfolding tree_par_extend_def by fastforce

end

end
