(* ===== verification/Rope.thy ===== *)
theory Rope
  imports ChunkCoords CursorBack ParTree
begin

text \<open>
  The rope (\<open>crates/rope/src/rope.rs\<close>): a text as a summarising tree of chunks. This theory has
  its building, cutting and joining; \<open>RopeCoords\<close> converts between coordinates, \<open>RopeIter\<close> iterates.
  The packages \<open>heapless\<close> (strings of bounded length) and \<open>rayon\<close> (parallel iterators) are
  parameters, collected in a record.
\<close>

section \<open>Summaries and dimensions\<close>

datatype chunk_summary = ChunkSummary (cs_text: text_summary)

definition chunk_summary_zero :: chunk_summary where
  "chunk_summary_zero = ChunkSummary text_summary_zero"

definition chunk_summary_add :: "chunk_summary \<Rightarrow> chunk_summary \<Rightarrow> chunk_summary" where
  "chunk_summary_add self summary = ChunkSummary (text_summary_add (cs_text self) (cs_text summary))"

definition chunk_summary_of :: "chunk \<Rightarrow> chunk_summary" where
  "chunk_summary_of self = ChunkSummary (slice_text_summary (as_slice self))"

definition chunk_ops :: "(chunk, chunk_summary) item_ops" where
  "chunk_ops = \<lparr>it_summary = chunk_summary_of, s_zero = chunk_summary_zero, s_add = chunk_summary_add\<rparr>"

definition usize_dim :: "(chunk_summary, nat) dim_ops" where
  "usize_dim = \<lparr>d_zero = 0, d_add = \<lambda>self summary. self + ts_len (cs_text summary)\<rparr>"

definition offset_utf16_dim :: "(chunk_summary, offset_utf16) dim_ops" where
  "offset_utf16_dim = \<lparr>d_zero = OffsetUtf16 0,
     d_add = \<lambda>self summary. offset_utf16_add self (ts_len_utf16 (cs_text summary))\<rparr>"

definition point_dim :: "(chunk_summary, point) dim_ops" where
  "point_dim = \<lparr>d_zero = point_zero, d_add = \<lambda>self summary. point_add self (ts_lines (cs_text summary))\<rparr>"

definition point_utf16_dim :: "(chunk_summary, point_utf16) dim_ops" where
  "point_utf16_dim = \<lparr>d_zero = point_utf16_zero,
     d_add = \<lambda>self summary. point_utf16_add self (lines_utf16 (cs_text summary))\<rparr>"

definition text_summary_dim :: "(chunk_summary, text_summary) dim_ops" where
  "text_summary_dim = \<lparr>d_zero = text_summary_zero, d_add = \<lambda>self summary. text_summary_add self (cs_text summary)\<rparr>"

text \<open>\<open>Dimensions\<close> of \<open>sum_tree.rs\<close>, with two components, of which the first is compared.\<close>

definition dimensions :: "('s, 'a) dim_ops \<Rightarrow> ('s, 'b) dim_ops \<Rightarrow> ('s, 'a \<times> 'b) dim_ops" where
  "dimensions d1 d2 = \<lparr>d_zero = (d_zero d1, d_zero d2), d_add = \<lambda>(a, b) summary. (d_add d1 a summary, d_add d2 b summary)\<rparr>"

section \<open>Ropes\<close>

type_synonym rope = "(chunk, chunk_summary) node"

record packages =
  pk_push_str :: "rstr \<Rightarrow> rstr \<Rightarrow> rstr rust"
  pk_chunks :: "nat \<Rightarrow> chunk list \<Rightarrow> chunk list list"
  pk_node_chunks :: "nat \<Rightarrow> rope list \<Rightarrow> rope list list"

definition rope_new :: rope where
  "rope_new = tree_new chunk_ops"

definition rope_summary :: "rope \<Rightarrow> text_summary" where
  "rope_summary self = cs_text (node_summary self)"

definition rope_len :: "rope \<Rightarrow> nat" where
  "rope_len self = extent usize_dim self"

definition rope_is_empty :: "rope \<Rightarrow> bool" where
  "rope_is_empty self \<longleftrightarrow> rope_len self = 0"

definition max_point :: "rope \<Rightarrow> point" where
  "max_point self = extent point_dim self"

definition max_point_utf16 :: "rope \<Rightarrow> point_utf16" where
  "max_point_utf16 self = extent point_utf16_dim self"

subsection \<open>Pushing text\<close>

text \<open>
  \<open>update_last\<close> with a closure that may panic and assigns to a captured variable: the closure
  runs once, on the last chunk, if there is one.
\<close>

definition update_last_with :: "(chunk \<Rightarrow> (chunk \<times> 'a) rust) \<Rightarrow> rope \<Rightarrow> 'a \<Rightarrow> (rope \<times> 'a) rust" where
  "update_last_with f self captured = do {
     last \<leftarrow> tree_last self;
     (case last of
        None \<Rightarrow> Some (self, captured)
      | Some last_chunk \<Rightarrow> do {
          (last_chunk, captured) \<leftarrow> f last_chunk;
          self \<leftarrow> update_last chunk_ops (\<lambda>_. last_chunk) self;
          Some (self, captured) })
   }"

partial_function (option) up_to_boundary :: "(nat \<Rightarrow> bool) \<Rightarrow> nat \<Rightarrow> nat rust" where
  "up_to_boundary is_char_boundary split_ix =
     (if is_char_boundary split_ix then Some split_ix else up_to_boundary is_char_boundary (split_ix + 1))"

declare up_to_boundary.simps [code]

definition push_into_last :: "packages \<Rightarrow> rstr \<Rightarrow> chunk \<Rightarrow> (chunk \<times> rstr) rust" where
  "push_into_last pk text last_chunk = do {
     split_ix \<leftarrow> (if str_len (ck_text last_chunk) + str_len text \<le> MAX_BASE then Some (str_len text)
       else up_to_boundary (str_is_char_boundary text) (min (MIN_BASE - str_len (ck_text last_chunk)) (str_len text)));
     (suffix, remainder) \<leftarrow> str_split_at text split_ix;
     last_chunk \<leftarrow> chunk_push_str (pk_push_str pk) last_chunk suffix;
     Some (last_chunk, remainder)
   }"

text \<open>Cutting a text into the texts of chunks; the vector of \<open>push\<close> has a capacity, that of \<open>push_large\<close> grows.\<close>

partial_function (option) split_text :: "nat option \<Rightarrow> rstr \<Rightarrow> rstr list \<Rightarrow> rstr list rust" where
  "split_text capacity text new_chunks =
     (if text = [] then Some new_chunks
      else do {
        let split_ix = back_to_boundary text (min MAX_BASE (str_len text));
        (chunk, remainder) \<leftarrow> str_split_at text split_ix;
        assert_that (case capacity of None \<Rightarrow> True | Some n \<Rightarrow> length new_chunks < n);
        split_text capacity remainder (new_chunks @ [chunk])
      })"

declare split_text.simps [code]

definition NUM_CHUNKS :: nat where "NUM_CHUNKS = 4"
definition PARALLEL_THRESHOLD :: nat where "PARALLEL_THRESHOLD = 84 * (2 * TREE_BASE)"

definition push_large :: "packages \<Rightarrow> rope \<Rightarrow> rstr \<Rightarrow> rope rust" where
  "push_large pk self text = do {
     new_chunks \<leftarrow> split_text None text [];
     cs \<leftarrow> those (map (chunk_new (pk_push_str pk)) new_chunks);
     if length new_chunks \<ge> PARALLEL_THRESHOLD
     then tree_par_extend chunk_ops (pk_chunks pk) (pk_node_chunks pk) self cs
     else tree_extend chunk_ops self cs
   }"

definition rope_push :: "packages \<Rightarrow> rope \<Rightarrow> rstr \<Rightarrow> rope rust" where
  "rope_push pk self text = do {
     (self, text) \<leftarrow> update_last_with (push_into_last pk text) self text;
     if text = [] then Some self
     else if str_len text > NUM_CHUNKS * MAX_BASE - NUM_CHUNKS * 4 then push_large pk self text
     else do {
       new_chunks \<leftarrow> split_text (Some NUM_CHUNKS) text [];
       cs \<leftarrow> those (map (chunk_new (pk_push_str pk)) new_chunks);
       tree_extend chunk_ops self cs
     }
   }"

definition rope_from :: "packages \<Rightarrow> rstr \<Rightarrow> rope rust" where
  "rope_from pk text = rope_push pk rope_new text"

definition rope_from_iter :: "packages \<Rightarrow> rstr list \<Rightarrow> rope rust" where
  "rope_from_iter pk iter = for_each (\<lambda>chunk rope. rope_push pk rope chunk) iter rope_new"

subsection \<open>Joining\<close>

definition chunk_into_last :: "packages \<Rightarrow> chunk_slice \<Rightarrow> chunk \<Rightarrow> (chunk \<times> chunk_slice) rust" where
  "chunk_into_last pk chunk last_chunk = do {
     split_ix \<leftarrow> (if str_len (ck_text last_chunk) + slice_len chunk \<le> MAX_BASE then Some (slice_len chunk)
       else up_to_boundary (slice_is_char_boundary chunk) (min (MIN_BASE - str_len (ck_text last_chunk)) (slice_len chunk)));
     (suffix, remainder) \<leftarrow> slice_split_at chunk split_ix;
     last_chunk \<leftarrow> chunk_append (pk_push_str pk) last_chunk suffix;
     Some (last_chunk, remainder)
   }"

definition push_chunk :: "packages \<Rightarrow> rope \<Rightarrow> chunk_slice \<Rightarrow> rope rust" where
  "push_chunk pk self chunk = do {
     (self, chunk) \<leftarrow> update_last_with (chunk_into_last pk chunk) self chunk;
     if \<not> slice_is_empty chunk
     then do { c \<leftarrow> slice_into_chunk (pk_push_str pk) chunk; tree_push chunk_ops self c }
     else Some self
   }"

definition rope_append :: "packages \<Rightarrow> rope \<Rightarrow> rope \<Rightarrow> rope rust" where
  "rope_append pk self rope = do {
     first \<leftarrow> tree_first rope;
     (case first of
        None \<Rightarrow> tree_append chunk_ops self rope
      | Some chunk \<Rightarrow> do {
          last \<leftarrow> tree_last self;
          if (case last of None \<Rightarrow> False | Some c \<Rightarrow> str_len (ck_text c) < MIN_BASE) \<or> str_len (ck_text chunk) < MIN_BASE
          then do {
            self \<leftarrow> push_chunk pk self (as_slice chunk);
            chunks \<leftarrow> cursor_next unit_dim (cursor_new unit_dim rope);
            chunks \<leftarrow> cursor_next unit_dim chunks;
            (suffix, _) \<leftarrow> cursor_suffix chunk_ops unit_dim chunks;
            tree_append chunk_ops self suffix
          }
          else tree_append chunk_ops self rope })
   }"

text \<open>
  \<open>push_front\<close>; the closure of \<open>update_first\<close> prepends to the first chunk, the one \<open>first\<close> has
  just returned.
\<close>

definition push_front :: "packages \<Rightarrow> rope \<Rightarrow> rstr \<Rightarrow> rope rust" where
  "push_front pk self text =
     (if text = [] then Some self
      else if rope_is_empty self then rope_push pk self text
      else do {
        first \<leftarrow> tree_first self;
        (case first of
           Some c \<Rightarrow>
             if str_len (ck_text c) + str_len text \<le> MAX_BASE
             then do {
               first_chunk \<leftarrow> chunk_prepend_str (pk_push_str pk) c text;
               update_first chunk_ops (\<lambda>_. first_chunk) self
             }
             else do { front \<leftarrow> rope_from pk text; rope_append pk front self }
         | None \<Rightarrow> do { front \<leftarrow> rope_from pk text; rope_append pk front self })
      })"

subsection \<open>Cutting\<close>

record rope_cursor =
  rc_rope :: rope
  rc_chunks :: "(chunk, chunk_summary, nat) cursor"
  rc_offset :: nat

definition rope_cursor_new :: "rope \<Rightarrow> nat \<Rightarrow> rope_cursor rust" where
  "rope_cursor_new rope offset = do {
     (_, chunks) \<leftarrow> cursor_seek usize_dim (cmp offset) Right (cursor_new usize_dim rope);
     Some \<lparr>rc_rope = rope, rc_chunks = chunks, rc_offset = offset\<rparr>
   }"

definition rope_cursor_seek_forward :: "rope_cursor \<Rightarrow> nat \<Rightarrow> rope_cursor rust" where
  "rope_cursor_seek_forward self end_offset = do {
     assert_that (end_offset \<ge> rc_offset self);
     assert_that (end_offset \<le> rope_len (rc_rope self));
     (_, chunks) \<leftarrow> cursor_seek_forward usize_dim (cmp end_offset) Right (rc_chunks self);
     Some (self\<lparr>rc_chunks := chunks, rc_offset := end_offset\<rparr>)
   }"

definition rope_cursor_slice :: "packages \<Rightarrow> rope_cursor \<Rightarrow> nat \<Rightarrow> (rope \<times> rope_cursor) rust" where
  "rope_cursor_slice pk self end_offset = do {
     assert_that (end_offset \<ge> rc_offset self);
     assert_that (end_offset \<le> rope_len (rc_rope self));
     let chunks = rc_chunks self;
     let slice = rope_new;
     item \<leftarrow> cursor_item chunks;
     slice \<leftarrow> (case item of
         None \<Rightarrow> Some slice
       | Some start_chunk \<Rightarrow> do {
           chunks_end \<leftarrow> cursor_end usize_dim chunks;
           let start_ix = usize_sub (rc_offset self) (c_position chunks);
           let end_ix = usize_sub (min end_offset chunks_end) (c_position chunks);
           part \<leftarrow> chunk_slice_range start_chunk start_ix end_ix;
           push_chunk pk slice part });
     chunks_end \<leftarrow> cursor_end usize_dim chunks;
     (slice, chunks) \<leftarrow>
       (if end_offset > chunks_end then do {
          chunks \<leftarrow> cursor_next usize_dim chunks;
          (tree, chunks) \<leftarrow> cursor_slice chunk_ops usize_dim (cmp end_offset) Right chunks;
          slice \<leftarrow> rope_append pk slice tree;
          item \<leftarrow> cursor_item chunks;
          slice \<leftarrow> (case item of
              None \<Rightarrow> Some slice
            | Some end_chunk \<Rightarrow> do {
                let end_ix = usize_sub end_offset (c_position chunks);
                part \<leftarrow> chunk_slice_range end_chunk 0 end_ix;
                push_chunk pk slice part });
          Some (slice, chunks)
        }
        else Some (slice, chunks));
     Some (slice, self\<lparr>rc_chunks := chunks, rc_offset := end_offset\<rparr>)
   }"

definition rope_cursor_suffix :: "packages \<Rightarrow> rope_cursor \<Rightarrow> rope rust" where
  "rope_cursor_suffix pk self = map_option fst (rope_cursor_slice pk self (extent usize_dim (rc_rope self)))"

definition rope_slice :: "packages \<Rightarrow> rope \<Rightarrow> nat \<Rightarrow> nat \<Rightarrow> rope rust" where
  "rope_slice pk self range_start range_end = do {
     cursor \<leftarrow> rope_cursor_new self 0;
     cursor \<leftarrow> rope_cursor_seek_forward cursor range_start;
     map_option fst (rope_cursor_slice pk cursor range_end)
   }"

definition rope_replace :: "packages \<Rightarrow> rope \<Rightarrow> nat \<Rightarrow> nat \<Rightarrow> rstr \<Rightarrow> rope rust" where
  "rope_replace pk self range_start range_end text = do {
     cursor \<leftarrow> rope_cursor_new self 0;
     (prefix, cursor) \<leftarrow> rope_cursor_slice pk cursor range_start;
     new_rope \<leftarrow> rope_append pk rope_new prefix;
     cursor \<leftarrow> rope_cursor_seek_forward cursor range_end;
     new_rope \<leftarrow> rope_push pk new_rope text;
     suffix \<leftarrow> rope_cursor_suffix pk cursor;
     rope_append pk new_rope suffix
   }"

section \<open>The text of a rope and its invariant\<close>

text \<open>
  Every chunk has the bitmaps of its text and is not empty, and the whole text is shorter than
  4 GiB, so that the 32-bit sums of the summaries are right.
\<close>

definition chunk_ok :: "chunk \<Rightarrow> bool" where
  "chunk_ok c \<longleftrightarrow> c = chunk_of (ck_text c) \<and> ck_text c \<noteq> [] \<and> str_len (ck_text c) \<le> MAX_BASE \<and> valid_str (ck_text c)"

definition text_of :: "chunk list \<Rightarrow> rstr" where
  "text_of cs = concat (map ck_text cs)"

definition rope_fits :: "chunk list \<Rightarrow> bool" where
  "rope_fits cs \<longleftrightarrow> list_all chunk_ok cs \<and> str_len (text_of cs) < 2 ^ 32"

definition rope_ok :: "rope \<Rightarrow> bool" where
  "rope_ok r \<longleftrightarrow> wf_in rope_fits chunk_ops r"

definition rope_str :: "rope \<Rightarrow> rstr" where
  "rope_str r = text_of (tree_items r)"

definition packages_spec :: "packages \<Rightarrow> bool" where
  "packages_spec pk \<longleftrightarrow> push_str_spec (pk_push_str pk) \<and> chunks_spec (pk_chunks pk) \<and> chunks_spec (pk_node_chunks pk)"

lemma text_of_simps [simp]: "text_of [] = []" "text_of (c # cs) = ck_text c @ text_of cs"
  "text_of (cs @ ds) = text_of cs @ text_of ds"
  by (simp_all add: text_of_def)

lemma ck_text_chunk_of [simp]: "ck_text (chunk_of s) = s"
  by (simp add: chunk_of_def)

lemma chunk_ok_of [simp]: "chunk_ok (chunk_of s) \<longleftrightarrow> s \<noteq> [] \<and> str_len s \<le> MAX_BASE \<and> valid_str s"
  by (simp add: chunk_ok_def)

lemma chunk_okE:
  assumes "chunk_ok c"
  obtains s where "c = chunk_of s" "s \<noteq> []" "str_len s \<le> MAX_BASE" "valid_str s"
  using assms by (auto simp: chunk_ok_def)

lemma rope_fits_simps: "rope_fits (cs @ ds) \<Longrightarrow> rope_fits cs" "rope_fits (cs @ ds) \<Longrightarrow> rope_fits ds"
  by (simp_all add: rope_fits_def)

lemma rope_fits_Nil [simp]: "rope_fits []"
  by (simp add: rope_fits_def)

lemma rope_fits_lengths: "rope_fits cs \<Longrightarrow> length (text_of cs) < 2 ^ 32" "rope_fits cs \<Longrightarrow> list_all chunk_ok cs"
  using length_le_str_len [of "text_of cs"] by (auto simp: rope_fits_def)

section \<open>The laws of the summaries\<close>

lemma chunk_ops_simps [simp]:
  "it_summary chunk_ops = chunk_summary_of" "s_zero chunk_ops = ChunkSummary text_summary_zero"
  "s_add chunk_ops (ChunkSummary a) (ChunkSummary b) = ChunkSummary (text_summary_add a b)"
  by (simp_all add: chunk_ops_def chunk_summary_zero_def chunk_summary_add_def)

lemma summary_spec_Nil: "summary_spec [] = text_summary_zero"
  by (simp add: summary_spec_def text_summary_zero_def str_len_utf16_def str_len_def)

lemma chunk_summary_spec: "chunk_ok c \<Longrightarrow> chunk_summary_of c = ChunkSummary (summary_spec (ck_text c))"
  by (erule chunk_okE) (simp add: chunk_summary_of_def slice_text_summary_spec MAX_BASE_def)

lemma flat_rope: "rope_fits cs \<Longrightarrow> flat chunk_ops cs = ChunkSummary (summary_spec (text_of cs))"
proof (induction cs rule: rev_induct)
  case (snoc c cs)
  then have "length (text_of cs) + length (ck_text c) < 2 ^ 32" using rope_fits_lengths(1) [of "cs @ [c]"] by simp
  moreover have "chunk_ok c" "rope_fits cs" using snoc.prems by (auto simp: rope_fits_def)
  ultimately show ?case using snoc.IH
    by (simp add: flat_def chunk_summary_spec summary_add_spec)
qed (simp add: flat_def summary_spec_Nil)

interpretation rp: summary_laws chunk_ops rope_fits
proof
  show "rope_fits (xs @ ys @ zs) \<Longrightarrow> rope_fits ys" for xs ys zs by (auto simp: rope_fits_def)
  show "rope_fits [i] \<Longrightarrow> s_add chunk_ops (s_zero chunk_ops) (it_summary chunk_ops i) = it_summary chunk_ops i" for i
    using flat_rope [of "[i]"] by (simp add: flat_def rope_fits_def chunk_summary_spec)
  show "ys \<noteq> [] \<Longrightarrow> rope_fits (xs @ ys) \<Longrightarrow> flat chunk_ops (xs @ ys) = s_add chunk_ops (flat chunk_ops xs) (flat chunk_ops ys)" for xs ys
    using rope_fits_lengths(1) [of "xs @ ys"] rope_fits_simps [of xs ys] by (simp add: flat_rope summary_add_spec)
qed simp

lemma rope_ok_iff: "rope_ok r \<longleftrightarrow> wf_upto rope_fits chunk_ops r \<and> rope_fits (tree_items r)"
  by (simp add: rope_ok_def rp.wf_in_iff)

lemma rope_summary_spec: "rope_ok r \<Longrightarrow> rope_summary r = summary_spec (rope_str r)"
  using wf_in_summary [of rope_fits chunk_ops r] wf_in_fits [of rope_fits chunk_ops r]
  by (simp add: rope_ok_def rope_summary_def rope_str_def flat_rope)

section \<open>Dimensions of text\<close>

text \<open>
  What a dimension of chunk summaries promises (the trait \<open>TextDimension\<close>): it measures texts,
  \<open>measure s\<close> being its value after the text \<open>s\<close>, and adding the summary of a text measures that text.
\<close>

locale rope_dimension =
  fixes dim :: "(chunk_summary, 'd) dim_ops" and measure :: "rstr \<Rightarrow> 'd"
  assumes measure_Nil: "d_zero dim = measure []"
    and measure_zero: "d_add dim (d_zero dim) (ChunkSummary (summary_spec [])) = d_zero dim"
    and measure_append: "str_len (s @ t) < 2 ^ 32 \<Longrightarrow> d_add dim (measure s) (ChunkSummary (summary_spec t)) = measure (s @ t)"
    and measure_regroup: "str_len (s @ t) < 2 ^ 32 \<Longrightarrow>
      d_add dim (d_add dim d (ChunkSummary (summary_spec s))) (ChunkSummary (summary_spec t))
        = d_add dim d (ChunkSummary (summary_spec (s @ t)))"
begin

lemma item_dim_text: "cs \<noteq> [] \<Longrightarrow> rope_fits cs \<Longrightarrow> item_dim chunk_ops dim d cs = d_add dim d (ChunkSummary (summary_spec (text_of cs)))"
proof (induction cs rule: rev_nonempty_induct)
  case (single c)
  then show ?case by (simp add: rope_fits_def chunk_summary_spec)
next
  case (snoc c cs)
  then have "chunk_ok c" "rope_fits cs" "str_len (text_of cs @ ck_text c) < 2 ^ 32" by (auto simp: rope_fits_def)
  then show ?case using snoc.IH by (simp add: chunk_summary_spec measure_regroup)
qed

lemma item_dim_measure: "rope_fits (as @ cs) \<Longrightarrow> item_dim chunk_ops dim (measure (text_of as)) cs = measure (text_of (as @ cs))"
  using item_dim_text [of cs] rope_fits_simps [of as cs] measure_append [of "text_of as" "text_of cs"]
  by (cases "cs = []") (simp_all add: rope_fits_def)

lemma item_dim_start: "rope_fits cs \<Longrightarrow> item_dim chunk_ops dim (d_zero dim) cs = measure (text_of cs)"
  using item_dim_measure [of "[]" cs] by (simp add: measure_Nil)

end

sublocale rope_dimension \<subseteq> dimension_laws chunk_ops rope_fits dim
proof
  show "xs \<noteq> [] \<Longrightarrow> rope_fits xs \<Longrightarrow> d_add dim d (flat chunk_ops xs) = item_dim chunk_ops dim d xs" for xs d
    by (simp add: item_dim_text flat_rope)
qed (use measure_zero in \<open>simp add: summary_spec_Nil\<close>)

text \<open>Seeking compares a key of the dimension, which grows with the text.\<close>

locale seek_dimension = rope_dimension dim measure
  for dim :: "(chunk_summary, 'd) dim_ops" and measure +
  fixes key :: "'d \<Rightarrow> 'k::linorder"
  assumes key_mono: "str_len (s @ t) < 2 ^ 32 \<Longrightarrow> key (measure s) \<le> key (measure (s @ t))"
begin

lemma prefix_ends_sorted:
  "rope_fits (as @ cs) \<Longrightarrow> sorted_wrt (\<lambda>x y. key x \<le> key y) (prefix_ends chunk_ops dim (measure (text_of as)) cs)
    \<and> (\<forall>e \<in> set (prefix_ends chunk_ops dim (measure (text_of as)) cs). key (measure (text_of as)) \<le> key e)"
proof (induction cs arbitrary: as)
  case (Cons c cs)
  have f: "rope_fits ((as @ [c]) @ cs)" "rope_fits (as @ [c])" using Cons.prems rope_fits_simps(1) [of "as @ [c]" cs] by simp_all
  then have e: "d_add dim (measure (text_of as)) (chunk_summary_of c) = measure (text_of (as @ [c]))"
    using item_dim_measure [OF f(2)] by simp
  have "key (measure (text_of as)) \<le> key (measure (text_of (as @ [c])))"
    using f(2) key_mono [of "text_of as" "ck_text c"] by (simp add: rope_fits_def)
  with Cons.IH [OF f(1)] show ?case by (auto simp: e Let_def)
qed simp

lemma monotone_key: "rope_fits (as @ cs) \<Longrightarrow> monotone_target chunk_ops dim (\<lambda>d. cmp x (key d)) (measure (text_of as)) cs"
  using prefix_ends_sorted [of as cs] unfolding monotone_target_def
  by (auto elim!: sorted_wrt_mono_rel [rotated] simp: cmp_def)

lemma monotone_key_start: "rope_fits cs \<Longrightarrow> monotone_target chunk_ops dim (\<lambda>d. cmp x (key d)) (d_zero dim) cs"
  using monotone_key [of "[]" cs x] by (simp add: measure_Nil)

end

lemma goes_past_cmp: "goes_past (cmp x y) Left \<longleftrightarrow> y < x" "goes_past (cmp x y) Right \<longleftrightarrow> y \<le> x"
  by (auto simp: goes_past_def cmp_def)

definition reached :: "bias \<Rightarrow> 'k::linorder \<Rightarrow> 'k \<Rightarrow> bool" where
  "reached bias x y \<longleftrightarrow> (if bias = Left then y < x else y \<le> x)"

lemma goes_past_reached: "goes_past (cmp x y) bias \<longleftrightarrow> reached bias x y"
  by (cases bias) (simp_all add: reached_def goes_past_cmp)

lemma seek_split_ends:
  "seek_split ops dim p d xs = (a, b) \<Longrightarrow> xs = a @ b \<and> (a \<noteq> [] \<longrightarrow> p (item_dim ops dim d a))
    \<and> (b \<noteq> [] \<longrightarrow> \<not> p (item_dim ops dim d (a @ [hd b])))"
  by (induction xs arbitrary: d a b) (fastforce simp: Let_def split: if_splits prod.splits)+

context seek_dimension
begin

lemma split_found:
  assumes "rope_fits (pre @ suf)" "seek_split chunk_ops dim (past (\<lambda>d. cmp x (key d)) bias) (measure (text_of pre)) suf = (a, b)"
  shows "suf = a @ b" "a \<noteq> [] \<Longrightarrow> reached bias x (key (measure (text_of (pre @ a))))"
    "b \<noteq> [] \<Longrightarrow> \<not> reached bias x (key (measure (text_of (pre @ a @ [hd b]))))"
proof -
  note e = seek_split_ends [OF assms(2)]
  show s: "suf = a @ b" using e by simp
  have f: "rope_fits (pre @ a)" using assms(1) s rope_fits_simps(1) [of "pre @ a" b] by simp
  then show "a \<noteq> [] \<Longrightarrow> reached bias x (key (measure (text_of (pre @ a))))"
    using e item_dim_measure [OF f] by (simp add: goes_past_reached)
  assume "b \<noteq> []"
  then have "rope_fits (pre @ (a @ [hd b]))" using assms(1) s rope_fits_simps(1) [of "pre @ a @ [hd b]" "tl b"] by simp
  from item_dim_measure [OF this] \<open>b \<noteq> []\<close> e show "\<not> reached bias x (key (measure (text_of (pre @ a @ [hd b]))))"
    by (simp add: goes_past_reached)
qed

lemma rope_find:
  assumes "rope_ok r"
  obtains a b where "tree_items r = a @ b"
    "tree_find dim (\<lambda>d. cmp x (key d)) bias r = (measure (text_of a), measure (text_of (a @ take 1 b)), first_opt b)"
    "a \<noteq> [] \<Longrightarrow> reached bias x (key (measure (text_of a)))"
    "b \<noteq> [] \<Longrightarrow> \<not> reached bias x (key (measure (text_of (a @ [hd b]))))"
proof -
  have f: "rope_fits (tree_items r)" and w: "wf_in rope_fits chunk_ops r" using assms by (simp_all add: rope_ok_def wf_in_fits)
  obtain a b where ab: "seek_split chunk_ops dim (past (\<lambda>d. cmp x (key d)) bias) (measure (text_of [])) (tree_items r) = (a, b)"
    by fastforce
  note s = split_found [of "[]", simplified, OF f ab [simplified]]
  have fits: "rope_fits a" "rope_fits (a @ take 1 b)"
    using f s(1) rope_fits_simps(1) [of a b] rope_fits_simps(1) [of "a @ take 1 b" "drop 1 b"] by simp_all
  show thesis
  proof (rule that [of a b])
    show "tree_find dim (\<lambda>d. cmp x (key d)) bias r = (measure (text_of a), measure (text_of (a @ take 1 b)), first_opt b)"
      using tree_find_ok [OF w monotone_key_start [OF f], of x bias] ab item_dim_start [OF fits(1)] item_dim_start [OF fits(2)]
      by (cases b) (simp_all add: measure_Nil first_opt_def)
  qed (use s in auto)
qed

end

section \<open>The dimensions of ropes\<close>

lemma rows_0: "rows t = 0 \<Longrightarrow> split_lines t = [t]"
proof (rule split_first_line [of t])
  fix l u assume "rows t = 0" "t = l @ newline # u" "newline \<notin> set l"
  then show ?thesis using split_lines_not_Nil [of u] by (simp add: rows_def split_lines_newline)
qed (simp add: split_lines_line)

lemma last_line_append: "last_line (s @ t) = (if rows t = 0 then last_line s @ t else last_line t)"
  using rows_0 [of t] by (cases "split_lines t") (auto simp: last_line_def split_lines_append rows_def)

lemma rows_le_str_len: "rows s \<le> str_len s"
  using split_lines_sizes(1) [of s] length_le_str_len [of s] by (simp add: rows_def)

lemma summary_positions: "ts_lines (summary_spec s) = position s" "lines_utf16 (summary_spec s) = position_utf16 s"
  by (simp_all add: summary_spec_def position_def position_utf16_def lines_utf16_def Let_def rows_def last_line_def)

lemma position_add:
  assumes "str_len t < 2 ^ 32"
  shows "point_add (position s) (position t) = position (s @ t)"
    "point_utf16_add (position_utf16 s) (position_utf16 t) = position_utf16 (s @ t)"
proof -
  have r: "(of_nat (rows t) :: u32) = 0 \<longleftrightarrow> rows t = 0" using rows_le_str_len [of t] assms by (intro of_nat_u32(3)) simp
  have "rows t = 0 \<Longrightarrow> last_line t = t" using rows_0 [of t] by (simp add: last_line_def)
  then show "point_add (position s) (position t) = position (s @ t)"
    "point_utf16_add (position_utf16 s) (position_utf16 t) = position_utf16 (s @ t)"
    using r by (auto simp: point_add_def point_utf16_add_def position_def position_utf16_def rows_append last_line_append)
qed

lemma point_le:
  assumes "r < 2 ^ 32" "r' \<le> r" "c < 2 ^ 32" "r' = r \<Longrightarrow> c' \<le> c"
  shows "Point (of_nat r') (of_nat c') \<le> Point (of_nat r) (of_nat c)"
    "PointUtf16 (of_nat r') (of_nat c') \<le> PointUtf16 (of_nat r) (of_nat c)"
proof -
  have "unat (of_nat r :: u32) = r" "unat (of_nat r' :: u32) = r'" "unat (of_nat c :: u32) = c"
    "r' = r \<Longrightarrow> unat (of_nat c' :: u32) = c'" using assms by simp_all
  then show "Point (of_nat r') (of_nat c') \<le> Point (of_nat r) (of_nat c)"
    "PointUtf16 (of_nat r') (of_nat c') \<le> PointUtf16 (of_nat r) (of_nat c)"
    using assms(2,4) by (auto simp: less_eq_point_def less_eq_point_utf16_def pt.compare_order pt16.compare_order
        word_less_nat_alt word_unat_eq_iff)
qed

lemma position_mono:
  assumes "str_len (s @ t) < 2 ^ 32"
  shows "position s \<le> position (s @ t)" "position_utf16 s \<le> position_utf16 (s @ t)"
proof -
  have l: "str_len (last_line (s @ t)) < 2 ^ 32" "str_len_utf16 (last_line (s @ t)) < 2 ^ 32" "rows (s @ t) < 2 ^ 32"
    using assms last_line_le [of "s @ t"] str_len_utf16_le [of "s @ t"] rows_le_str_len [of "s @ t"] by linarith+
  have c: "rows t = 0 \<Longrightarrow> str_len (last_line s) \<le> str_len (last_line (s @ t))"
    "rows t = 0 \<Longrightarrow> str_len_utf16 (last_line s) \<le> str_len_utf16 (last_line (s @ t))"
    by (simp_all add: last_line_append)
  show "position s \<le> position (s @ t)" unfolding position_def
    by (rule point_le) (use l c rows_append [of s t] in auto)
  show "position_utf16 s \<le> position_utf16 (s @ t)" unfolding position_utf16_def
    by (rule point_le) (use l c rows_append [of s t] in auto)
qed

lemma spec_lengths [simp]: "ts_len (summary_spec s) = str_len s" "ts_len_utf16 (summary_spec s) = OffsetUtf16 (str_len_utf16 s)"
  by (simp_all add: summary_spec_def Let_def)

lemma str_len_utf16_append [simp]: "str_len_utf16 (s @ t) = str_len_utf16 s + str_len_utf16 t"
  by (simp add: str_len_utf16_def)

lemma unat_rows: "str_len s < 2 ^ 32 \<Longrightarrow> unat (pt_row (position s)) = rows s"
  "str_len s < 2 ^ 32 \<Longrightarrow> unat (pt16_row (position_utf16 s)) = rows s"
  using rows_le_str_len [of s] by (simp_all add: position_def position_utf16_def)

lemma position_regroup:
  assumes "str_len (s @ t) < 2 ^ 32"
  shows "point_add (point_add d (position s)) (position t) = point_add d (position (s @ t))"
    "point_utf16_add (point_utf16_add e (position_utf16 s)) (position_utf16 t) = point_utf16_add e (position_utf16 (s @ t))"
proof -
  have "rows s + rows t < 2 ^ 32" using rows_le_str_len [of "s @ t"] rows_append [of s t] assms by simp
  then show "point_add (point_add d (position s)) (position t) = point_add d (position (s @ t))"
    "point_utf16_add (point_utf16_add e (position_utf16 s)) (position_utf16 t) = point_utf16_add e (position_utf16 (s @ t))"
    using assms unat_rows [of s] unat_rows [of t] position_add [of t s]
    by (simp_all add: pt.add_assoc_position pt16.add_assoc_position)
qed

lemma position_Nil [simp]: "position [] = point_zero" "position_utf16 [] = point_utf16_zero"
  by (simp_all add: position_def position_utf16_def point_zero_def point_utf16_zero_def rows_def last_line_def)

interpretation bytes: seek_dimension usize_dim str_len "\<lambda>d. d"
  by unfold_locales (simp_all add: usize_dim_def)

interpretation utf16: seek_dimension offset_utf16_dim "\<lambda>s. OffsetUtf16 (str_len_utf16 s)" "\<lambda>d. d"
  by unfold_locales (simp_all add: offset_utf16_dim_def offset_utf16_add_def less_eq_offset_utf16_def)

interpretation points: seek_dimension point_dim position "\<lambda>d. d"
  by unfold_locales (simp_all add: point_dim_def summary_positions position_add position_regroup position_mono
      pt.add_zero [folded point_zero_def])

interpretation points16: seek_dimension point_utf16_dim position_utf16 "\<lambda>d. d"
  by unfold_locales (simp_all add: point_utf16_dim_def summary_positions position_add position_regroup position_mono
      pt16.add_zero [folded point_utf16_zero_def])

lemma rope_dimensions:
  assumes "rope_dimension d1 m1" "rope_dimension d2 m2"
  shows "rope_dimension (dimensions d1 d2) (\<lambda>s. (m1 s, m2 s))"
  using assms by (simp add: rope_dimension_def dimensions_def split: prod.splits)

lemma seek_dimensions:
  assumes "seek_dimension d1 m1 (\<lambda>d. d)" "rope_dimension d2 m2"
  shows "seek_dimension (dimensions d1 d2) (\<lambda>s. (m1 s, m2 s)) fst"
  using rope_dimensions [OF seek_dimension.axioms(1) [OF assms(1)] assms(2)] assms(1)
  by (simp add: seek_dimension_def seek_dimension_axioms_def)

lemma rope_lengths:
  assumes "rope_ok r"
  shows "rope_len r = str_len (rope_str r)" "max_point r = position (rope_str r)" "max_point_utf16 r = position_utf16 (rope_str r)"
    "rope_is_empty r \<longleftrightarrow> rope_str r = []"
proof -
  have w: "wf_in rope_fits chunk_ops r" "rope_fits (tree_items r)" using assms by (simp_all add: rope_ok_def wf_in_fits)
  show l: "rope_len r = str_len (rope_str r)" using bytes.tree_end_ok [OF w(1)] bytes.item_dim_start [OF w(2)]
    by (simp add: rope_len_def extent_def rope_str_def)
  show "max_point r = position (rope_str r)" using points.tree_end_ok [OF w(1)] points.item_dim_start [OF w(2)]
    by (simp add: max_point_def extent_def rope_str_def)
  show "max_point_utf16 r = position_utf16 (rope_str r)" using points16.tree_end_ok [OF w(1)] points16.item_dim_start [OF w(2)]
    by (simp add: max_point_utf16_def extent_def rope_str_def)
  show "rope_is_empty r \<longleftrightarrow> rope_str r = []" using str_len_pos [of "rope_str r"] by (auto simp: rope_is_empty_def l)
qed

text \<open>The summary of a range of text is the summary of its text, in every dimension and as a \<open>TextSummary\<close>.\<close>

interpretation summaries: total_laws chunk_ops rope_fits text_summary_dim
proof
  have spec: "rope_fits xs \<Longrightarrow> item_dim chunk_ops text_summary_dim (d_zero text_summary_dim) xs = summary_spec (text_of xs)" for xs
  proof (induction xs rule: rev_induct)
    case (snoc c cs)
    then have "length (text_of cs) + length (ck_text c) < 2 ^ 32" using rope_fits_lengths(1) [of "cs @ [c]"] by simp
    moreover have "chunk_ok c" "rope_fits cs" using snoc.prems by (auto simp: rope_fits_def)
    ultimately show ?case using snoc.IH by (simp add: chunk_summary_spec summary_add_spec text_summary_dim_def)
  qed (simp add: text_summary_dim_def summary_spec_Nil)
  fix xs ys assume f: "rope_fits (xs @ ys)"
  then have "length (text_of xs) + length (text_of ys) < 2 ^ 32" using rope_fits_lengths(1) [of "xs @ ys"] by simp
  with f show "d_add text_summary_dim (item_dim chunk_ops text_summary_dim (d_zero text_summary_dim) xs) (flat chunk_ops ys)
      = item_dim chunk_ops text_summary_dim (d_zero text_summary_dim) (xs @ ys)"
    using rope_fits_simps [OF f] spec [OF f] spec [of xs] flat_rope [of ys]
    by (simp add: text_summary_dim_def summary_add_spec)
qed

section \<open>Pushing\<close>

lemma up_to_boundary_ok:
  "p n \<Longrightarrow> i \<le> n \<Longrightarrow> \<exists>j. up_to_boundary p i = Some j \<and> i \<le> j \<and> j \<le> n \<and> p j"
proof (induction "n - i" arbitrary: i)
  case 0
  then show ?case by (subst up_to_boundary.simps) auto
next
  case (Suc k)
  show ?case
  proof (cases "p i")
    case False
    then have "i \<noteq> n" using Suc.prems by auto
    then obtain j where "up_to_boundary p (i + 1) = Some j" "i + 1 \<le> j" "j \<le> n" "p j"
      using Suc.hyps(1) [of "i + 1"] Suc.hyps(2) Suc.prems by (metis Suc_eq_plus1 diff_Suc_eq_diff_pred diff_commute diff_Suc_1 le_neq_implies_less Suc_leI)
    then show ?thesis using False by (subst up_to_boundary.simps) auto
  qed (use Suc.prems in \<open>subst up_to_boundary.simps, auto\<close>)
qed

lemma len_utf8_le_4: "len_utf8 c \<le> 4"
  by (simp add: len_utf8_def)

text \<open>Every offset is less than four bytes away from the next and from the last character boundary.\<close>

lemma boundary_near:
  assumes "i \<le> str_len s"
  shows "\<exists>j. i \<le> j \<and> j \<le> i + 3 \<and> str_is_char_boundary s j" "\<exists>j. j \<le> i \<and> i \<le> j + 3 \<and> str_is_char_boundary s j"
proof -
  have "\<exists>j k. j \<le> i \<and> i \<le> k \<and> k \<le> i + 3 \<and> i \<le> j + 3 \<and> str_is_char_boundary s j \<and> str_is_char_boundary s k"
    using assms
  proof (induction s arbitrary: i)
    case (Cons c s)
    show ?case
    proof (cases "len_utf8 c \<le> i")
      case True
      then obtain j k where "j \<le> i - len_utf8 c" "i - len_utf8 c \<le> k" "k \<le> i - len_utf8 c + 3" "i - len_utf8 c \<le> j + 3"
        "str_is_char_boundary s j" "str_is_char_boundary s k" using Cons.IH [of "i - len_utf8 c"] Cons.prems by (metis le_diff_conv add.commute str_len_simps(2))
      moreover have "str_is_char_boundary s j \<Longrightarrow> str_is_char_boundary (c # s) (len_utf8 c + j)" for j
        unfolding boundary_iff by (metis append_Cons str_len_simps(2))
      ultimately show ?thesis using True by (intro exI [of _ "len_utf8 c + j"] exI [of _ "len_utf8 c + k"]) auto
    next
      case False
      have "str_is_char_boundary (c # s) (len_utf8 c)" unfolding boundary_iff
        by (metis append_Cons append_Nil str_len_simps(1,2) add.right_neutral)
      then show ?thesis using False len_utf8_le_4 [of c]
        by (rule_tac exI [of _ 0], rule_tac exI [of _ "if i = 0 then 0 else len_utf8 c"]) auto
    qed
  qed (auto intro: exI [of _ 0])
  then show "\<exists>j. i \<le> j \<and> j \<le> i + 3 \<and> str_is_char_boundary s j" "\<exists>j. j \<le> i \<and> i \<le> j + 3 \<and> str_is_char_boundary s j" by blast+
qed

lemma packages_specD:
  "packages_spec pk \<Longrightarrow> push_str_spec (pk_push_str pk)" "packages_spec pk \<Longrightarrow> chunks_spec (pk_chunks pk)"
  "packages_spec pk \<Longrightarrow> chunks_spec (pk_node_chunks pk)"
  by (simp_all add: packages_spec_def)

text \<open>Where the last chunk is filled up: at a boundary that leaves it at most 128 bytes.\<close>

lemma fill_boundary:
  assumes "str_len s \<le> MAX_BASE" "\<And>i. i \<le> str_len t \<Longrightarrow> p i \<longleftrightarrow> str_is_char_boundary t i"
  shows "\<exists>l r. (if str_len s + str_len t \<le> MAX_BASE then Some (str_len t)
      else up_to_boundary p (min (MIN_BASE - str_len s) (str_len t))) = Some (str_len l)
    \<and> t = l @ r \<and> str_len (s @ l) \<le> MAX_BASE"
proof (cases "str_len s + str_len t \<le> MAX_BASE")
  case False
  let ?i = "min (MIN_BASE - str_len s) (str_len t)"
  obtain n where n: "?i \<le> n" "n \<le> ?i + 3" "str_is_char_boundary t n" using boundary_near(1) [of ?i t] by auto
  have "p n" using assms(2) [OF boundary_le [OF n(3)]] n(3) by simp
  then obtain j where j: "up_to_boundary p ?i = Some j" "?i \<le> j" "j \<le> n" "p j" using up_to_boundary_ok [of p n ?i] n(1) by auto
  then have b: "str_is_char_boundary t j" using assms(2) [of j] boundary_le [OF n(3)] by simp
  have "str_len s + j \<le> MAX_BASE"
  proof (cases "str_len s < MIN_BASE")
    case True
    then show ?thesis using j(3) n(2) by (simp add: MIN_BASE_def MAX_BASE_def)
  next
    case s: False
    then have "?i = 0" by simp
    then have "p ?i" using assms(2) [of 0] by simp
    then have "j = ?i" using j(1) by (subst (asm) up_to_boundary.simps) simp
    then show ?thesis using s assms(1) by simp
  qed
  with b j(1) False show ?thesis by (auto simp: boundary_iff)
qed (auto intro: exI [of _ "[]"])

lemma push_into_last_ok:
  assumes "packages_spec pk" "chunk_ok c" "valid_str t"
  shows "\<exists>l r. push_into_last pk t c = Some (chunk_of (ck_text c @ l), r) \<and> t = l @ r \<and> str_len (ck_text c @ l) \<le> MAX_BASE"
proof -
  note push = packages_specD(1) [OF assms(1)]
  obtain s where c: "c = chunk_of s" "str_len s \<le> MAX_BASE" using assms(2) by (auto elim: chunk_okE)
  from fill_boundary [OF c(2), of t "str_is_char_boundary t"] obtain l r where
    l: "(if str_len s + str_len t \<le> MAX_BASE then Some (str_len t)
      else up_to_boundary (str_is_char_boundary t) (min (MIN_BASE - str_len s) (str_len t))) = Some (str_len l)"
    "t = l @ r" "str_len (s @ l) \<le> MAX_BASE" by blast
  have "str_split_at t (str_len l) = Some (l, r)" using l(2) by (simp add: str_split_at_Some)
  moreover have "chunk_push_str (pk_push_str pk) c l = Some (chunk_of (s @ l))"
    using c l assms(3) chunk_new_eq [OF push, of l] chunk_append_eq [OF push c(2), of l]
    by (simp add: chunk_push_str_def)
  ultimately have "push_into_last pk t c = Some (chunk_of (s @ l), r)"
    unfolding push_into_last_def c(1) ck_text_chunk_of l(1) by simp
  then show ?thesis using l c by (rule_tac exI [of _ l], rule_tac exI [of _ r]) simp
qed

lemma chunk_into_last_ok:
  assumes "packages_spec pk" "chunk_ok c" "str_len t \<le> MAX_BASE"
  shows "\<exists>l r. chunk_into_last pk (slice_of t) c = Some (chunk_of (ck_text c @ l), slice_of r) \<and> t = l @ r \<and> str_len (ck_text c @ l) \<le> MAX_BASE"
proof -
  note push = packages_specD(1) [OF assms(1)]
  obtain s where c: "c = chunk_of s" "s \<noteq> []" "str_len s \<le> MAX_BASE" using assms(2) by (auto elim: chunk_okE)
  have t: "str_len t \<le> 128" using assms(3) by (simp add: MAX_BASE_def)
  from fill_boundary [OF c(3), of t "slice_is_char_boundary (slice_of t)"] slice_boundary_eq [OF t] t obtain l r where
    l: "(if str_len s + str_len t \<le> MAX_BASE then Some (str_len t)
      else up_to_boundary (slice_is_char_boundary (slice_of t)) (min (MIN_BASE - str_len s) (str_len t))) = Some (str_len l)"
    "t = l @ r" "str_len (s @ l) \<le> MAX_BASE" by fastforce
  have "str_len l < 128" using l(3) c(2) str_len_pos [of s] by (simp add: MAX_BASE_def)
  moreover have "str_split_at t (str_len l) = Some (l, r)" using l(2) by (simp add: str_split_at_Some)
  ultimately have "slice_split_at (slice_of t) (str_len l) = Some (slice_of l, slice_of r)"
    using slice_split_at_eq [OF t, of "str_len l"] by simp
  moreover have "chunk_append (pk_push_str pk) c (slice_of l) = Some (chunk_of (s @ l))"
    using c l chunk_append_eq [OF push c(3), of l] by simp
  ultimately have "chunk_into_last pk (slice_of t) c = Some (chunk_of (s @ l), slice_of r)"
    unfolding chunk_into_last_def slice_len_def sl_text_slice_of c(1) ck_text_chunk_of l(1) by simp
  then show ?thesis using l c by (rule_tac exI [of _ l], rule_tac exI [of _ r]) simp
qed

lemma update_last_with_ok:
  assumes "rope_ok r" "tree_items r = cs @ [c]" "f c = Some (c', x')"
  shows "\<exists>r'. update_last_with f r x = Some (r', x') \<and> wf_upto rope_fits chunk_ops r' \<and> tree_items r' = cs @ [c']
    \<and> node_height r' = node_height r"
  using assms tree_last_ok [of rope_fits chunk_ops r] rp.update_last_ok [of r "\<lambda>_. c'"]
  by (auto simp: update_last_with_def rope_ok_def wf_in_upto last_opt_def)

lemma update_last_with_none:
  assumes "rope_ok r" "tree_items r = []"
  shows "update_last_with f r x = Some (r, x)"
  using assms tree_last_ok [of rope_fits chunk_ops r] by (simp add: update_last_with_def rope_ok_def last_opt_def)

lemma split_text_ok:
  assumes "str_len t \<le> 125 * k" "valid_str t" "\<And>n. capacity = Some n \<Longrightarrow> length acc + k \<le> n"
  shows "\<exists>ts. split_text capacity t acc = Some (acc @ ts) \<and> concat ts = t \<and> length ts \<le> k
    \<and> (\<forall>u \<in> set ts. u \<noteq> [] \<and> str_len u \<le> MAX_BASE \<and> valid_str u)"
  using assms
proof (induction k arbitrary: t acc)
  case 0
  then have "t = []" using str_len_pos [of t] by simp
  then show ?case by (subst split_text.simps) simp
next
  case (Suc k)
  show ?case
  proof (cases "t = []")
    case True
    then show ?thesis by (subst split_text.simps) simp
  next
    case False
    let ?i = "min MAX_BASE (str_len t)"
    note b = back_boundary [of t ?i]
    obtain j where j: "j \<le> ?i" "?i \<le> j + 3" "str_is_char_boundary t j" using boundary_near(2) [of ?i t] by auto
    then have "j \<le> back_to_boundary t ?i" using b by blast
    then have ge: "?i \<le> back_to_boundary t ?i + 3" using j(2) by linarith
    obtain u v where u: "t = u @ v" "str_len u = back_to_boundary t ?i"
      using b [THEN conjunct1, unfolded boundary_iff] by blast
    have full: "back_to_boundary t ?i = str_len t \<or> 125 \<le> back_to_boundary t ?i"
      using ge b by (cases "str_len t \<le> MAX_BASE") (auto simp: MAX_BASE_def min_def)
    have "0 < str_len t" using False str_len_pos [of t] by simp
    then have "0 < str_len u" using full u(2) by linarith
    then have un: "u \<noteq> []" by (simp add: str_len_pos)
    have "str_len t = str_len u + str_len v" by (simp add: u(1))
    moreover have "str_len t \<le> 125 * k + 125" using Suc.prems(1) by simp
    ultimately have "str_len v \<le> 125 * k" using full u(2) by linarith
    moreover have "capacity = Some n \<Longrightarrow> length (acc @ [u]) + k \<le> n" for n using Suc.prems(3) [of n] by simp
    ultimately obtain ts where ts: "split_text capacity v (acc @ [u]) = Some ((acc @ [u]) @ ts)" "concat ts = v" "length ts \<le> k"
      "\<forall>u \<in> set ts. u \<noteq> [] \<and> str_len u \<le> MAX_BASE \<and> valid_str u"
      using Suc.IH [of v "acc @ [u]"] Suc.prems(2) u(1) by auto
    have "str_split_at t (back_to_boundary t ?i) = Some (u, v)" using u by (simp add: str_split_at_Some)
    moreover have "(case capacity of None \<Rightarrow> True | Some n \<Rightarrow> length acc < n)" using Suc.prems(3) by (auto split: option.split)
    ultimately have "split_text capacity t acc = split_text capacity v (acc @ [u])"
      using False by (subst split_text.simps) (simp add: Let_def)
    moreover have "str_len u \<le> MAX_BASE" using u(2) b by simp
    ultimately show ?thesis using ts un u(1) Suc.prems(2) by (rule_tac exI [of _ "u # ts"]) simp
  qed
qed

lemma chunks_new_ok:
  assumes "packages_spec pk" "\<forall>u \<in> set ts. u \<noteq> [] \<and> str_len u \<le> MAX_BASE \<and> valid_str u"
  shows "those (map (chunk_new (pk_push_str pk)) ts) = Some (map chunk_of ts) \<and> list_all chunk_ok (map chunk_of ts)
    \<and> text_of (map chunk_of ts) = concat ts"
  using assms(2) by (induction ts) (simp_all add: chunk_new_eq [OF packages_specD(1) [OF assms(1)]])

lemma push_large_ok:
  assumes "packages_spec pk" "wf_upto rope_fits chunk_ops r" "valid_str t"
  shows "\<exists>r' cs. push_large pk r t = Some r' \<and> wf_upto rope_fits chunk_ops r' \<and> tree_items r' = tree_items r @ cs
    \<and> list_all chunk_ok cs \<and> text_of cs = t"
proof -
  have "str_len t \<le> 125 * str_len t" by simp
  from split_text_ok [OF this assms(3), of None "[]"] obtain ts where ts: "split_text None t [] = Some ts" "concat ts = t"
    "\<forall>u \<in> set ts. u \<noteq> [] \<and> str_len u \<le> MAX_BASE \<and> valid_str u" by auto
  note cs = chunks_new_ok [OF assms(1) ts(3)]
  show ?thesis
    using ts cs rp.tree_extend_ok [OF assms(2), of "map chunk_of ts"]
      rp.tree_par_extend_ok [OF packages_specD(2) [OF assms(1)] packages_specD(3) [OF assms(1)] assms(2), of "map chunk_of ts"]
    by (auto simp: push_large_def)
qed

lemma push_small_ok:
  assumes "packages_spec pk" "wf_upto rope_fits chunk_ops r" "valid_str t" "str_len t \<le> 496"
  shows "\<exists>new_chunks cs r'. split_text (Some NUM_CHUNKS) t [] = Some new_chunks
    \<and> those (map (chunk_new (pk_push_str pk)) new_chunks) = Some cs \<and> tree_extend chunk_ops r cs = Some r'
    \<and> wf_upto rope_fits chunk_ops r' \<and> tree_items r' = tree_items r @ cs \<and> list_all chunk_ok cs \<and> text_of cs = t"
proof -
  have "str_len t \<le> 125 * 4" using assms(4) by simp
  from split_text_ok [OF this assms(3), of "Some NUM_CHUNKS" "[]"] obtain ts where ts:
    "split_text (Some NUM_CHUNKS) t [] = Some ts" "concat ts = t"
    "\<forall>u \<in> set ts. u \<noteq> [] \<and> str_len u \<le> MAX_BASE \<and> valid_str u" by (auto simp: NUM_CHUNKS_def)
  then show ?thesis using chunks_new_ok [OF assms(1) ts(3)] rp.tree_extend_ok [OF assms(2), of "map chunk_of ts"] by auto
qed

lemma push_last_ok:
  assumes "packages_spec pk" "rope_ok r" "valid_str t"
  shows "\<exists>r' u. update_last_with (push_into_last pk t) r t = Some (r', u) \<and> wf_upto rope_fits chunk_ops r'
    \<and> list_all chunk_ok (tree_items r') \<and> rope_str r' @ u = rope_str r @ t \<and> valid_str u"
proof (cases "tree_items r" rule: rev_cases)
  case Nil
  then have "update_last_with (push_into_last pk t) r t = Some (r, t)" by (rule update_last_with_none [OF assms(2)])
  then show ?thesis using assms by (auto simp: rope_ok_iff rope_fits_def)
next
  case (snoc cs c)
  then have c: "chunk_ok c" "list_all chunk_ok cs" using assms(2) by (auto simp: rope_ok_iff rope_fits_def)
  from push_into_last_ok [OF assms(1) c(1) assms(3)] obtain l u where
    l: "push_into_last pk t c = Some (chunk_of (ck_text c @ l), u)" "t = l @ u" "str_len (ck_text c @ l) \<le> MAX_BASE" by blast
  from update_last_with_ok [where f = "push_into_last pk t", OF assms(2) snoc l(1)] obtain r' where
    "update_last_with (push_into_last pk t) r t = Some (r', u)" "wf_upto rope_fits chunk_ops r'"
    "tree_items r' = cs @ [chunk_of (ck_text c @ l)]" by blast
  then show ?thesis using l c snoc assms(3) by (auto simp: rope_str_def chunk_ok_def)
qed

lemma rope_push_ok:
  assumes "packages_spec pk" "rope_ok r" "valid_str t" "str_len (rope_str r @ t) < 2 ^ 32"
  shows "\<exists>r'. rope_push pk r t = Some r' \<and> rope_ok r' \<and> rope_str r' = rope_str r @ t"
proof -
  from push_last_ok [OF assms(1-3)] obtain q u where q: "update_last_with (push_into_last pk t) r t = Some (q, u)"
    "wf_upto rope_fits chunk_ops q" "list_all chunk_ok (tree_items q)" "rope_str q @ u = rope_str r @ t" "valid_str u" by blast
  have ok: "rope_ok r'" if "wf_upto rope_fits chunk_ops r'" "tree_items r' = tree_items q @ cs" "list_all chunk_ok cs" "text_of cs = u"
    for r' cs
    using that q(3,4) assms(4) by (simp add: rope_ok_iff rope_fits_def rope_str_def flip: str_len_simps(3))
  consider "u = []" | "u \<noteq> []" "str_len u > 496" | "u \<noteq> []" "str_len u \<le> 496" by linarith
  then show ?thesis
  proof cases
    case 1
    then show ?thesis using q ok [of q "[]"] by (simp add: rope_push_def)
  next
    case 2
    then show ?thesis using q push_large_ok [OF assms(1) q(2,5)] ok
      by (fastforce simp: rope_push_def NUM_CHUNKS_def MAX_BASE_def rope_str_def)
  next
    case 3
    then show ?thesis using q push_small_ok [OF assms(1) q(2,5)] ok
      by (fastforce simp: rope_push_def NUM_CHUNKS_def MAX_BASE_def rope_str_def)
  qed
qed

section \<open>Joining\<close>

lemma slice_into_chunk_eq: "packages_spec pk \<Longrightarrow> str_len t \<le> MAX_BASE \<Longrightarrow> slice_into_chunk (pk_push_str pk) (slice_of t) = Some (chunk_of t)"
  by (simp add: slice_into_chunk_def packages_spec_def push_str_spec_def slice_of_def chunk_of_def)

lemma slice_is_empty_of [simp]: "slice_is_empty (slice_of t) \<longleftrightarrow> t = []"
  by (simp add: slice_is_empty_def)

lemma rope_okI: "wf_upto rope_fits chunk_ops r \<Longrightarrow> list_all chunk_ok (tree_items r) \<Longrightarrow> str_len (rope_str r) < 2 ^ 32 \<Longrightarrow> rope_ok r"
  by (simp add: rope_ok_iff rope_fits_def rope_str_def)

lemma rope_okD: "rope_ok r \<Longrightarrow> wf_upto rope_fits chunk_ops r" "rope_ok r \<Longrightarrow> list_all chunk_ok (tree_items r)"
  "rope_ok r \<Longrightarrow> str_len (rope_str r) < 2 ^ 32"
  by (simp_all add: rope_ok_iff rope_fits_def rope_str_def)

lemma rope_new_ok [simp]: "rope_ok rope_new" "rope_str rope_new = []" "node_height rope_new = 0"
  by (simp_all add: rope_ok_def rope_new_def rope_str_def)

lemma chunk_last_ok:
  assumes "packages_spec pk" "rope_ok r" "str_len t \<le> MAX_BASE" "valid_str t"
  shows "\<exists>r' u. update_last_with (chunk_into_last pk (slice_of t)) r (slice_of t) = Some (r', slice_of u) \<and> wf_upto rope_fits chunk_ops r'
    \<and> list_all chunk_ok (tree_items r') \<and> rope_str r' @ u = rope_str r @ t \<and> valid_str u \<and> str_len u \<le> MAX_BASE
    \<and> node_height r' = node_height r"
proof (cases "tree_items r" rule: rev_cases)
  case Nil
  then have "update_last_with (chunk_into_last pk (slice_of t)) r (slice_of t) = Some (r, slice_of t)"
    by (rule update_last_with_none [OF assms(2)])
  then show ?thesis using assms rope_okD [OF assms(2)] by auto
next
  case (snoc cs c)
  then have c: "chunk_ok c" "list_all chunk_ok cs" using rope_okD(2) [OF assms(2)] by auto
  from chunk_into_last_ok [OF assms(1) c(1) assms(3)] obtain l u where
    l: "chunk_into_last pk (slice_of t) c = Some (chunk_of (ck_text c @ l), slice_of u)" "t = l @ u" "str_len (ck_text c @ l) \<le> MAX_BASE"
    by blast
  from update_last_with_ok [where f = "chunk_into_last pk (slice_of t)", OF assms(2) snoc l(1)] obtain r' where
    "update_last_with (chunk_into_last pk (slice_of t)) r (slice_of t) = Some (r', slice_of u)" "wf_upto rope_fits chunk_ops r'"
    "tree_items r' = cs @ [chunk_of (ck_text c @ l)]" "node_height r' = node_height r" by blast
  then show ?thesis using l c snoc assms(3,4) by (auto simp: rope_str_def chunk_ok_def)
qed

lemma push_chunk_ok:
  assumes "packages_spec pk" "rope_ok r" "str_len t \<le> MAX_BASE" "valid_str t" "str_len (rope_str r @ t) < 2 ^ 32"
  shows "\<exists>r'. push_chunk pk r (slice_of t) = Some r' \<and> rope_ok r' \<and> rope_str r' = rope_str r @ t \<and> node_height r' \<le> Suc (node_height r)"
proof -
  from chunk_last_ok [OF assms(1-4)] obtain q u where
    q: "update_last_with (chunk_into_last pk (slice_of t)) r (slice_of t) = Some (q, slice_of u)" "wf_upto rope_fits chunk_ops q"
    "list_all chunk_ok (tree_items q)" "rope_str q @ u = rope_str r @ t" "valid_str u" "str_len u \<le> MAX_BASE"
    "node_height q = node_height r" by blast
  show ?thesis
  proof (cases "u = []")
    case True
    then show ?thesis using q assms(5) rope_okI [of q] by (simp add: push_chunk_def)
  next
    case False
    from rp.tree_push_ok [OF q(2), of "chunk_of u"] obtain r' where
      r': "tree_push chunk_ops q (chunk_of u) = Some r'" "wf_upto rope_fits chunk_ops r'" "tree_items r' = tree_items q @ [chunk_of u]"
      "node_height r' \<le> Suc (node_height q)" by blast
    then have s: "rope_str r' = rope_str r @ t" using q(4) by (simp add: rope_str_def)
    moreover have "rope_ok r'" using r' q False assms(5) s by (intro rope_okI) simp_all
    ultimately show ?thesis using False q r' assms(1) by (simp add: push_chunk_def slice_into_chunk_eq)
  qed
qed

lemma rope_tree_append_ok:
  assumes "rope_ok a" "rope_ok b" "str_len (rope_str a @ rope_str b) < 2 ^ 32"
  shows "\<exists>r. tree_append chunk_ops a b = Some r \<and> rope_ok r \<and> rope_str r = rope_str a @ rope_str b
    \<and> node_height r \<le> Suc (max (node_height a) (node_height b))"
proof -
  from rp.tree_append_ok [OF rope_okD(1) [OF assms(1)] rope_okD(1) [OF assms(2)]] obtain r where
    r: "tree_append chunk_ops a b = Some r" "wf_upto rope_fits chunk_ops r" "tree_items r = tree_items a @ tree_items b"
    "node_height r \<le> Suc (max (node_height a) (node_height b))" by blast
  then have "rope_str r = rope_str a @ rope_str b" by (simp add: rope_str_def)
  moreover have "rope_ok r" using r rope_okD(2) [OF assms(1)] rope_okD(2) [OF assms(2)] assms(3) calculation
    by (intro rope_okI) simp_all
  ultimately show ?thesis using r by blast
qed

text \<open>The tree without its first chunk, as \<open>append\<close> cuts it off.\<close>

lemma rest_after_first:
  assumes "rope_ok b" "node_height b < STACK_CAPACITY" "tree_items b = c # cs"
  shows "\<exists>c1 c2 t c3. cursor_next unit_dim (cursor_new unit_dim b) = Some c1 \<and> cursor_next unit_dim c1 = Some c2
    \<and> cursor_suffix chunk_ops unit_dim c2 = Some (t, c3) \<and> rope_ok t \<and> tree_items t = cs \<and> node_height t \<le> node_height b + 4"
proof -
  have w: "wf_in rope_fits chunk_ops b" using assms(1) by (simp add: rope_ok_def)
  from rp.unit.cursor_next_ok [OF cursor_new_at [OF w assms(2)]] obtain c1 where
    c1: "cursor_next unit_dim (cursor_new unit_dim b) = Some c1" "c_did_seek c1" "c_tree c1 = b"
      "cursor_in rope_fits chunk_ops unit_dim c1 [] (c # cs)" using assms(3) by (auto simp: cursor_new_def)
  from rp.unit.cursor_next_ok [OF c1(4)] c1(2,3) obtain c2 where
    c2: "cursor_next unit_dim c1 = Some c2" "c_tree c2 = b" "cursor_in rope_fits chunk_ops unit_dim c2 [c] cs" by auto
  from rp.unit.cursor_suffix_ok [OF c2(3)] c1 c2 show ?thesis by (auto simp: rope_ok_def)
qed

lemma rope_append_ok:
  assumes "packages_spec pk" "rope_ok a" "rope_ok b" "node_height b < STACK_CAPACITY" "str_len (rope_str a @ rope_str b) < 2 ^ 32"
  shows "\<exists>r. rope_append pk a b = Some r \<and> rope_ok r \<and> rope_str r = rope_str a @ rope_str b
    \<and> node_height r \<le> Suc (max (Suc (node_height a)) (node_height b + 4))"
proof -
  have first: "tree_first b = Some (first_opt (tree_items b))" and last: "tree_last a = Some (last_opt (tree_items a))"
    using assms(2,3) tree_first_ok [of rope_fits chunk_ops b] tree_last_ok [of rope_fits chunk_ops a] by (simp_all add: rope_ok_def)
  from rope_tree_append_ok [OF assms(2,3,5)] obtain r0 where
    r0: "tree_append chunk_ops a b = Some r0" "rope_ok r0" "rope_str r0 = rope_str a @ rope_str b"
    "node_height r0 \<le> Suc (max (node_height a) (node_height b))" by blast
  show ?thesis
  proof (cases "tree_items b")
    case Nil
    then show ?thesis using first r0 by (simp add: rope_append_def first_opt_def)
  next
    case (Cons c cs)
    then have c: "chunk_ok c" using rope_okD(2) [OF assms(3)] by simp
    then obtain s where s: "c = chunk_of s" "str_len s \<le> MAX_BASE" "valid_str s" by (auto elim: chunk_okE)
    have str: "rope_str b = s @ text_of cs" using Cons s(1) by (simp add: rope_str_def)
    have "str_len (rope_str a @ s) < 2 ^ 32" using assms(5) str by simp
    from push_chunk_ok [OF assms(1,2) s(2,3) this] obtain q where
      q: "push_chunk pk a (slice_of s) = Some q" "rope_ok q" "rope_str q = rope_str a @ s" "node_height q \<le> Suc (node_height a)" by blast
    from rest_after_first [OF assms(3,4) Cons] obtain c1 c2 t c3 where
      t: "cursor_next unit_dim (cursor_new unit_dim b) = Some c1" "cursor_next unit_dim c1 = Some c2"
      "cursor_suffix chunk_ops unit_dim c2 = Some (t, c3)" "rope_ok t" "tree_items t = cs" "node_height t \<le> node_height b + 4" by blast
    have "str_len (rope_str q @ rope_str t) < 2 ^ 32" using q(3) t(5) assms(5) str by (simp add: rope_str_def)
    from rope_tree_append_ok [OF q(2) t(4) this] obtain r1 where
      r1: "tree_append chunk_ops q t = Some r1" "rope_ok r1" "rope_str r1 = rope_str a @ rope_str b"
      "node_height r1 \<le> Suc (max (node_height q) (node_height t))" using q(3) t(5) str by (auto simp: rope_str_def)
    have "rope_append pk a b = Some r0 \<or> rope_append pk a b = Some r1"
      unfolding rope_append_def first last using Cons s(1) q(1) t(1-3) r0(1) r1(1) by (simp add: first_opt_def)
    then show ?thesis using r0 r1 q(4) t(6) by (auto simp: max_def split: if_splits)
  qed
qed

lemma rope_from_ok:
  assumes "packages_spec pk" "valid_str t" "str_len t < 2 ^ 32"
  shows "\<exists>r. rope_from pk t = Some r \<and> rope_ok r \<and> rope_str r = t"
  using rope_push_ok [OF assms(1) rope_new_ok(1) assms(2)] assms(3) by (simp add: rope_from_def)

lemma push_front_ok:
  assumes "packages_spec pk" "rope_ok r" "node_height r < STACK_CAPACITY" "valid_str t" "str_len (t @ rope_str r) < 2 ^ 32"
  shows "\<exists>r'. push_front pk r t = Some r' \<and> rope_ok r' \<and> rope_str r' = t @ rope_str r"
proof (cases "t = [] \<or> rope_str r = []")
  case True
  then show ?thesis using assms rope_lengths(4) [OF assms(2)] rope_push_ok [OF assms(1,2,4)] by (auto simp: push_front_def)
next
  case False
  then obtain c cs where items: "tree_items r = c # cs" by (cases "tree_items r") (auto simp: rope_str_def)
  then obtain s where s: "c = chunk_of s" "s \<noteq> []" "str_len s \<le> MAX_BASE" "valid_str s"
    using rope_okD(2) [OF assms(2)] by (auto elim: chunk_okE)
  have first: "tree_first r = Some (Some c)"
    using tree_first_ok [of rope_fits chunk_ops r] assms(2) items by (simp add: rope_ok_def first_opt_def)
  show ?thesis
  proof (cases "str_len s + str_len t \<le> MAX_BASE")
    case True
    note push = packages_specD(1) [OF assms(1)]
    have c': "chunk_prepend_str (pk_push_str pk) c t = Some (chunk_of (t @ s))"
      using True s chunk_new_eq [OF push assms(4)] chunk_prepend_eq [OF push s(3) assms(4)]
      by (simp add: chunk_prepend_str_def add.commute)
    from rp.update_first_ok [OF rope_okD(1) [OF assms(2)], of "\<lambda>_. chunk_of (t @ s)"] obtain r' where
      r': "update_first chunk_ops (\<lambda>_. chunk_of (t @ s)) r = Some r'" "wf_upto rope_fits chunk_ops r'"
      "tree_items r' = chunk_of (t @ s) # cs" using items by auto
    then have str: "rope_str r' = t @ rope_str r" using items s(1) by (simp add: rope_str_def)
    moreover have "rope_ok r'" using r' True s assms(4,5) rope_okD(2) [OF assms(2)] items str
      by (intro rope_okI) (simp_all add: add.commute)
    ultimately show ?thesis
      using False first True s(1) c' r'(1) rope_lengths(4) [OF assms(2)] by (simp add: push_front_def)
  next
    case big: False
    from rope_from_ok [OF assms(1,4)] assms(5) obtain f where f: "rope_from pk t = Some f" "rope_ok f" "rope_str f = t" by auto
    from rope_append_ok [OF assms(1) f(2) assms(2,3)] f assms(5) obtain r' where
      "rope_append pk f r = Some r'" "rope_ok r'" "rope_str r' = t @ rope_str r" by auto
    then show ?thesis using False first big s(1) f(1) rope_lengths(4) [OF assms(2)] by (simp add: push_front_def)
  qed
qed

section \<open>Cutting\<close>

lemma prefix_len:
  assumes "p @ q = l @ r" "str_len p \<le> str_len l"
  obtains l' where "l = p @ l'" "q = l' @ r"
proof -
  from assms(1) consider us where "p = l @ us" "us @ q = r" | us where "p @ us = l" "q = us @ r"
    by (auto simp: append_eq_append_conv2)
  then show thesis
  proof cases
    case 1
    then have "us = []" using assms(2) str_len_pos [of us] by auto
    then show thesis using that [of "[]"] 1 by simp
  qed (use that in auto)
qed

lemma boundary_inside: "str_is_char_boundary (p @ s @ q) (str_len p + k) \<and> k \<le> str_len s \<longleftrightarrow> str_is_char_boundary s k"
proof
  assume a: "str_is_char_boundary (p @ s @ q) (str_len p + k) \<and> k \<le> str_len s"
  then obtain l r where l: "p @ s @ q = l @ r" "str_len l = str_len p + k" by (auto simp: boundary_iff)
  obtain l' where l': "l = p @ l'" "s @ q = l' @ r" using prefix_len [OF l(1)] l(2) by auto
  then have k: "str_len l' = k" using l(2) by simp
  obtain r' where "s = l' @ r'" using prefix_len [OF l'(2) [symmetric]] a k by auto
  with k show "str_is_char_boundary s k" by (auto simp: boundary_iff)
next
  assume "str_is_char_boundary s k"
  then obtain l r where "s = l @ r" "str_len l = k" by (auto simp: boundary_iff)
  then have "p @ s @ q = (p @ l) @ (r @ q)" "str_len (p @ l) = str_len p + k" "k \<le> str_len s" by simp_all
  then show "str_is_char_boundary (p @ s @ q) (str_len p + k) \<and> k \<le> str_len s" unfolding boundary_iff by blast
qed

lemma chunk_slice_ok:
  assumes "str_len (l @ m @ r) \<le> MAX_BASE"
  shows "chunk_slice_range (chunk_of (l @ m @ r)) (str_len l) (str_len l + str_len m) = Some (slice_of m)"
proof (cases "str_len l = MAX_BASE")
  case True
  then have "m = []" using assms str_len_pos [of m] by auto
  then show ?thesis using True by (simp add: chunk_slice_range_def slice_slice_def empty_slice_def slice_of_def)
next
  case False
  let ?s = "l @ m @ r"
  have b: "str_is_char_boundary ?s (str_len l)" "str_is_char_boundary ?s (str_len l + str_len m)"
    using prefix_boundary [of l "m @ r"] prefix_boundary [of "l @ m" r] by simp_all
  then have e: "slice_start ?s (str_len l) = str_len l" "slice_end ?s (str_len l) (str_len l + str_len m) = str_len l + str_len m"
    by (simp_all add: slice_start_def slice_end_def)
  have "str_slice ?s (str_len l) (str_len l + str_len m) = Some m" by (auto simp: str_slice_Some)
  then show ?thesis
    using slice_slice_eq [of ?s "str_len l" "str_len l + str_len m"] assms False e
    by (simp add: chunk_slice_range_def MAX_BASE_def)
qed

definition rope_cursor_at :: "rope_cursor \<Rightarrow> rope \<Rightarrow> nat \<Rightarrow> chunk list \<Rightarrow> chunk list \<Rightarrow> bool" where
  "rope_cursor_at rc r offset pre suf \<longleftrightarrow> rc_rope rc = r \<and> c_tree (rc_chunks rc) = r \<and> rc_offset rc = offset
     \<and> cursor_in rope_fits chunk_ops usize_dim (rc_chunks rc) pre suf \<and> c_did_seek (rc_chunks rc)
     \<and> str_len (text_of pre) \<le> offset \<and> offset \<le> str_len (rope_str r)
     \<and> (suf \<noteq> [] \<longrightarrow> offset \<le> str_len (text_of (pre @ [hd suf])))"

lemma usize_zero [simp]: "d_zero usize_dim = 0"
  by (simp add: usize_dim_def)

lemma rope_cursor_new_ok:
  assumes "rope_ok r" "node_height r < STACK_CAPACITY" "offset \<le> str_len (rope_str r)"
  shows "\<exists>rc pre suf. rope_cursor_new r offset = Some rc \<and> rope_cursor_at rc r offset pre suf"
proof -
  have w: "wf_in rope_fits chunk_ops r" "rope_fits (tree_items r)" using assms(1) by (simp_all add: rope_ok_def wf_in_fits)
  obtain a b where ab: "seek_split chunk_ops usize_dim (past (cmp offset) Right) 0 (tree_items r) = (a, b)" by fastforce
  note s = bytes.split_found [of "[]", simplified, OF w(2) ab]
  from bytes.cursor_seek_ok [OF cursor_new_at [OF w(1) assms(2)], of "cmp offset" Right a b] ab
    bytes.monotone_key_start [OF w(2), of offset] obtain eq cur where
    c: "cursor_seek usize_dim (cmp offset) Right (cursor_new usize_dim r) = Some (eq, cur)"
    "cursor_in rope_fits chunk_ops usize_dim cur a b" "c_did_seek cur" "c_tree cur = r"
    by (auto simp: cmp_neq_Less cursor_new_def)
  have "str_len (text_of a) \<le> offset" using s(2) by (cases "a = []") (auto simp: reached_def)
  moreover have "b \<noteq> [] \<Longrightarrow> offset \<le> str_len (text_of (a @ [hd b]))" using s(3) by (auto simp: reached_def)
  ultimately show ?thesis using c assms(3) by (auto simp: rope_cursor_new_def rope_cursor_at_def)
qed

lemma cursor_in_position:
  assumes "cursor_in rope_fits chunk_ops usize_dim cur pre suf"
  shows "c_position cur = str_len (text_of pre)"
  using bytes.item_dim_start [of pre] cursor_in_fits [OF assms] rope_fits_simps(1) [of pre suf] assms
  by (simp add: cursor_in_def)

lemma rope_cursor_seek_forward_ok:
  assumes "rope_cursor_at rc r offset pre suf" "offset \<le> e" "e \<le> str_len (rope_str r)" "rope_ok r"
  shows "\<exists>rc' pre' suf'. rope_cursor_seek_forward rc e = Some rc' \<and> rope_cursor_at rc' r e pre' suf'"
proof -
  let ?cur = "rc_chunks rc"
  have at: "cursor_in rope_fits chunk_ops usize_dim ?cur pre suf" "rc_rope rc = r" "c_tree ?cur = r" "rc_offset rc = offset"
    "str_len (text_of pre) \<le> offset" using assms(1) by (simp_all add: rope_cursor_at_def)
  have f: "rope_fits (pre @ suf)" by (rule cursor_in_fits [OF at(1)])
  note p = cursor_in_position [OF at(1)]
  obtain a b where ab: "seek_split chunk_ops usize_dim (past (cmp e) Right) (str_len (text_of pre)) suf = (a, b)" by fastforce
  note s = bytes.split_found [OF f, simplified, OF ab]
  from bytes.cursor_seek_forward_ok [OF at(1), of "cmp e" Right a b] ab p bytes.monotone_key [OF f, of e] at(5) assms(2)
  obtain eq cur where
    c: "cursor_seek_forward usize_dim (cmp e) Right ?cur = Some (eq, cur)"
    "cursor_in rope_fits chunk_ops usize_dim cur (pre @ a) b" "c_did_seek cur" "c_tree cur = c_tree ?cur"
    by (auto simp: cmp_neq_Less)
  have "str_len (text_of (pre @ a)) \<le> e" using s(2) at(5) assms(2) by (cases "a = []") (auto simp: reached_def)
  moreover have "b \<noteq> [] \<Longrightarrow> e \<le> str_len (text_of ((pre @ a) @ [hd b]))" using s(3) by (auto simp: reached_def)
  ultimately have "rope_cursor_at (rc\<lparr>rc_chunks := cur, rc_offset := e\<rparr>) r e (pre @ a) b"
    using c at assms(3) by (simp add: rope_cursor_at_def)
  moreover have "rope_cursor_seek_forward rc e = Some (rc\<lparr>rc_chunks := cur, rc_offset := e\<rparr>)"
    using c(1) assms(2,3) at rope_lengths(1) [OF assms(4)] by (simp add: rope_cursor_seek_forward_def)
  ultimately show ?thesis by blast
qed

lemma rope_cursor_end:
  assumes "cursor_in rope_fits chunk_ops usize_dim cur pre suf" "c_did_seek cur"
  shows "cursor_end usize_dim cur = Some (str_len (text_of (pre @ take 1 suf)))"
proof -
  have "rope_fits (pre @ take 1 suf)"
    using cursor_in_fits [OF assms(1)] rope_fits_simps(1) [of "pre @ take 1 suf" "drop 1 suf"] by simp
  from bytes.item_dim_measure [OF this] show ?thesis
    using cursor_item_at(2) [OF assms] cursor_in_position [OF assms(1)]
    by (cases suf) (simp_all add: cursor_end_def first_opt_def)
qed

text \<open>The part of the first chunk a slice starts with.\<close>

lemma slice_start_chunk:
  assumes "packages_spec pk" "chunk_ok c" "ck_text c = l @ m @ r"
  shows "\<exists>q. chunk_slice_range c (str_len l) (str_len l + str_len m) = Some (slice_of m)
    \<and> push_chunk pk rope_new (slice_of m) = Some q \<and> rope_ok q \<and> rope_str q = m \<and> node_height q \<le> 1"
proof -
  have c: "c = chunk_of (l @ m @ r)" "str_len (l @ m @ r) \<le> MAX_BASE" "valid_str m" using assms(2,3) by (auto simp: chunk_ok_def)
  from push_chunk_ok [OF assms(1) rope_new_ok(1), of m] c show ?thesis
    using chunk_slice_ok [OF c(2)] by (auto simp: MAX_BASE_def)
qed

text \<open>The part of the last chunk it ends with, if it does not end between chunks.\<close>

lemma slice_end_chunk:
  assumes "packages_spec pk" "rope_ok q" "list_all chunk_ok b" "text_of b = w @ z" "b \<noteq> [] \<Longrightarrow> str_len w \<le> str_len (ck_text (hd b))"
    and "str_len (rope_str q @ w) < 2 ^ 32"
  shows "\<exists>q'. (case first_opt b of None \<Rightarrow> Some q
      | Some end_chunk \<Rightarrow> do { part \<leftarrow> chunk_slice_range end_chunk 0 (str_len w); push_chunk pk q part }) = Some q'
    \<and> rope_ok q' \<and> rope_str q' = rope_str q @ w \<and> node_height q' \<le> Suc (node_height q)"
proof (cases b)
  case Nil
  then show ?thesis using assms(2,4) by (simp add: first_opt_def)
next
  case (Cons d ds)
  with assms(4,5) obtain n where n: "ck_text d = w @ n" using prefix_len [of w z "ck_text d" "text_of ds"] by auto
  then have d: "d = chunk_of (w @ n)" "str_len w + str_len n \<le> MAX_BASE" "valid_str w" using assms(3) Cons by (auto simp: chunk_ok_def)
  from push_chunk_ok [OF assms(1,2) _ d(3) assms(6)] d(2) obtain q' where
    "push_chunk pk q (slice_of w) = Some q'" "rope_ok q'" "rope_str q' = rope_str q @ w" "node_height q' \<le> Suc (node_height q)" by auto
  then show ?thesis using Cons d chunk_slice_ok [of "[]" w n] by (simp add: first_opt_def)
qed

lemma slice_in_chunk:
  assumes "packages_spec pk" "rope_ok r" "rope_cursor_at rc r offset pre (c # suf)"
    and "rope_str r = x @ y @ z" "str_len x = offset" "str_len (x @ y) \<le> str_len (text_of (pre @ [c]))"
  shows "\<exists>q rc'. rope_cursor_slice pk rc (str_len (x @ y)) = Some (q, rc') \<and> rope_ok q \<and> rope_str q = y \<and> node_height q \<le> 1
    \<and> rope_cursor_at rc' r (str_len (x @ y)) pre (c # suf)"
proof -
  let ?cur = "rc_chunks rc" and ?e = "str_len (x @ y)" and ?P = "str_len (text_of pre)"
  have at: "cursor_in rope_fits chunk_ops usize_dim ?cur pre (c # suf)" "c_did_seek ?cur" "rc_rope rc = r" "rc_offset rc = offset"
    "?P \<le> offset" "c_tree ?cur = r" using assms(3) by (simp_all add: rope_cursor_at_def)
  have items: "rope_str r = text_of pre @ ck_text c @ text_of suf" using at(1,6) by (simp add: cursor_in_def rope_str_def)
  have ck: "chunk_ok c" using cursor_in_fits [OF at(1)] by (simp add: rope_fits_def)
  obtain l where l: "x = text_of pre @ l" "ck_text c @ text_of suf = l @ y @ z"
    using prefix_len [of "text_of pre" "ck_text c @ text_of suf" x "y @ z"] items assms(4,5) at(5) by auto
  then obtain n where n: "ck_text c = l @ y @ n"
    using prefix_len [of "l @ y" z "ck_text c" "text_of suf"] assms(6) by auto
  from slice_start_chunk [OF assms(1) ck n] obtain q where
    q: "chunk_slice_range c (str_len l) (str_len l + str_len y) = Some (slice_of y)"
    "push_chunk pk rope_new (slice_of y) = Some q" "rope_ok q" "rope_str q = y" "node_height q \<le> 1" by blast
  have "rope_cursor_slice pk rc ?e = Some (q, rc\<lparr>rc_chunks := ?cur, rc_offset := ?e\<rparr>)"
    using at q(1,2) assms(4,6) assms(5) [symmetric] l(1) n rope_lengths(1) [OF assms(2)] cursor_item_at(1) [OF at(1,2)] rope_cursor_end [OF at(1,2)]
      cursor_in_position [OF at(1)]
    by (simp add: rope_cursor_slice_def first_opt_def min_def)
  moreover have "rope_cursor_at (rc\<lparr>rc_chunks := ?cur, rc_offset := ?e\<rparr>) r ?e pre (c # suf)"
    using assms(3-6) by (simp add: rope_cursor_at_def)
  ultimately show ?thesis using q by blast
qed

lemma slice_at_end:
  assumes "rope_ok r" "rope_cursor_at rc r offset pre []"
    and "rope_str r = x @ y @ z" "str_len x = offset"
  shows "y = []" "\<exists>rc'. rope_cursor_slice pk rc (str_len (x @ y)) = Some (rope_new, rc') \<and> rope_cursor_at rc' r (str_len (x @ y)) pre []"
proof -
  let ?cur = "rc_chunks rc" and ?e = "str_len (x @ y)"
  have at: "cursor_in rope_fits chunk_ops usize_dim ?cur pre []" "c_did_seek ?cur" "rc_rope rc = r" "rc_offset rc = offset"
    "str_len (text_of pre) \<le> offset" "c_tree ?cur = r" using assms(2) by (simp_all add: rope_cursor_at_def)
  have items: "rope_str r = text_of pre" using at(1,6) by (simp add: cursor_in_def rope_str_def)
  then have "str_len (x @ y @ z) \<le> offset" using assms(3) at(5) by simp
  then have "str_len y = 0" using assms(4) by simp
  then show y: "y = []" using str_len_pos [of y] by auto
  have "rope_cursor_slice pk rc ?e = Some (rope_new, rc\<lparr>rc_chunks := ?cur, rc_offset := ?e\<rparr>)"
    using at y assms(3,4) items rope_lengths(1) [OF assms(1)] cursor_item_at(1) [OF at(1,2)] rope_cursor_end [OF at(1,2)]
    by (simp add: rope_cursor_slice_def first_opt_def)
  then show "\<exists>rc'. rope_cursor_slice pk rc ?e = Some (rope_new, rc') \<and> rope_cursor_at rc' r ?e pre []"
    using assms(2,4) y by (simp add: rope_cursor_at_def)
qed

lemma slice_across:
  assumes "packages_spec pk" "rope_ok r" "node_height r + 4 < STACK_CAPACITY" "rope_cursor_at rc r offset pre (c # suf)"
    and "rope_str r = x @ y @ z" "str_len x = offset" "str_len (text_of (pre @ [c])) < str_len (x @ y)"
  shows "\<exists>q rc' pre' suf'. rope_cursor_slice pk rc (str_len (x @ y)) = Some (q, rc') \<and> rope_ok q \<and> rope_str q = y
    \<and> node_height q \<le> node_height r + 10 \<and> rope_cursor_at rc' r (str_len (x @ y)) pre' suf'"
proof -
  let ?cur = "rc_chunks rc" and ?e = "str_len (x @ y)" and ?P = "str_len (text_of pre)"
  have at: "cursor_in rope_fits chunk_ops usize_dim ?cur pre (c # suf)" "c_did_seek ?cur" "rc_rope rc = r" "rc_offset rc = offset"
    "?P \<le> offset" "c_tree ?cur = r" "offset \<le> str_len (text_of (pre @ [c]))" using assms(4) by (simp_all add: rope_cursor_at_def)
  have items: "rope_str r = text_of pre @ ck_text c @ text_of suf" using at(1,6) by (simp add: cursor_in_def rope_str_def)
  have f: "rope_fits ((pre @ [c]) @ suf)" using cursor_in_fits [OF at(1)] by simp
  then have ck: "chunk_ok c" by (simp add: rope_fits_def)
  obtain l where l: "x = text_of pre @ l" "ck_text c @ text_of suf = l @ y @ z"
    using prefix_len [of "text_of pre" "ck_text c @ text_of suf" x "y @ z"] items assms(5,6) at(5) by auto
  have "str_len l \<le> str_len (ck_text c)" using at(7) l(1) assms(6) by simp
  with l(2) obtain m where m: "ck_text c = l @ m" "y @ z = m @ text_of suf"
    using prefix_len [of l "y @ z" "ck_text c" "text_of suf"] by auto
  have "str_len m \<le> str_len y" using assms(7) l(1) m(1) by simp
  with m(2) obtain y' where y': "y = m @ y'" "text_of suf = y' @ z" using prefix_len [of m "text_of suf" y z] by auto
  from slice_start_chunk [OF assms(1) ck, of l m "[]"] m(1) obtain q where
    q: "chunk_slice_range c (str_len l) (str_len l + str_len m) = Some (slice_of m)"
    "push_chunk pk rope_new (slice_of m) = Some q" "rope_ok q" "rope_str q = m" "node_height q \<le> 1" by auto
  from bytes.cursor_next_ok [OF at(1)] at(2,6) obtain cur1 where
    c1: "cursor_next usize_dim ?cur = Some cur1" "c_did_seek cur1" "c_tree cur1 = r"
    "cursor_in rope_fits chunk_ops usize_dim cur1 (pre @ [c]) suf" by auto
  note p1 = cursor_in_position [OF c1(4)]
  obtain a b where ab: "seek_split chunk_ops usize_dim (past (cmp ?e) Right) (str_len (text_of (pre @ [c]))) suf = (a, b)" by fastforce
  note s = bytes.split_found [OF f, simplified, OF ab [simplified]]
  from bytes.cursor_slice_ok [OF c1(4), of "cmp ?e" Right a b] ab p1 bytes.monotone_key [OF f, of ?e] assms(7) c1(3)
  obtain t cur2 where
    c2: "cursor_slice chunk_ops usize_dim (cmp ?e) Right cur1 = Some (t, cur2)" "wf_in rope_fits chunk_ops t" "tree_items t = a"
    "cursor_in rope_fits chunk_ops usize_dim cur2 (pre @ [c] @ a) b" "c_did_seek cur2" "c_tree cur2 = r"
    "node_height t \<le> node_height r + 4"
    by (auto simp: cmp_neq_Less)
  have t: "rope_ok t" "rope_str t = text_of a" using c2(2,3) by (simp_all add: rope_ok_def rope_str_def)
  have pos: "str_len (text_of (pre @ [c] @ a)) \<le> ?e" using s(2) assms(7) by (cases "a = []") (auto simp: reached_def)
  then have "str_len (text_of a) \<le> str_len y'" using l(1) m(1) y'(1) by simp
  with y'(2) s(1) obtain w where w: "y' = text_of a @ w" "text_of b = w @ z" using prefix_len [of "text_of a" "text_of b" y' z] by auto
  have total: "str_len (m @ text_of a @ w) < 2 ^ 32" using rope_okD(3) [OF assms(2)] assms(5) y'(1) w(1) by simp
  have "node_height t < STACK_CAPACITY" "str_len (rope_str q @ rope_str t) < 2 ^ 32"
    using c2(7) assms(3) total q(4) t(2) by simp_all
  from rope_append_ok [OF assms(1) q(3) t(1) this] q(4,5) t(2) c2(7) obtain q2 where
    q2: "rope_append pk q t = Some q2" "rope_ok q2" "rope_str q2 = m @ text_of a" "node_height q2 \<le> node_height r + 9"
    by (auto simp: max_def split: if_splits)
  have at2: "rope_cursor_at (rc\<lparr>rc_chunks := cur2, rc_offset := ?e\<rparr>) r ?e (pre @ [c] @ a) b"
    using c2 pos at(3) s(3) assms(5) by (auto simp: rope_cursor_at_def reached_def)
  have ix2: "usize_sub ?e (c_position cur2) = str_len w"
    using cursor_in_position [OF c2(4)] l(1) m(1) y'(1) w(1) by simp
  have "list_all chunk_ok b" "b \<noteq> [] \<Longrightarrow> str_len w \<le> str_len (ck_text (hd b))"
    using f s(1) s(3) l(1) m(1) y'(1) w(1) by (auto simp: rope_fits_def reached_def)
  from slice_end_chunk [OF assms(1) q2(2) this(1) w(2) this(2)] q2(3) total obtain q3 where
    q3: "(case first_opt b of None \<Rightarrow> Some q2
      | Some end_chunk \<Rightarrow> do { part \<leftarrow> chunk_slice_range end_chunk 0 (str_len w); push_chunk pk q2 part }) = Some q3"
    "rope_ok q3" "rope_str q3 = y" "node_height q3 \<le> node_height r + 10" using q2(4) y'(1) w(1) by auto
  have ix: "usize_sub (rc_offset rc) (c_position ?cur) = str_len l"
    "usize_sub (min ?e (str_len (text_of (pre @ [c])))) (c_position ?cur) = str_len l + str_len m"
    using at(4) cursor_in_position [OF at(1)] assms(6,7) l(1) m(1) by (auto simp: min_def)
  have "rope_cursor_slice pk rc ?e = Some (q3, rc\<lparr>rc_chunks := cur2, rc_offset := ?e\<rparr>)"
    using cursor_item_at(1) [OF at(1,2)] rope_cursor_end [OF at(1,2)] cursor_item_at(1) [OF c2(4,5)]
      at(3,4,7) assms(5) assms(6) [symmetric] assms(7) rope_lengths(1) [OF assms(2)] ix ix2 q(1,2) c1(1) c2(1) q2(1) q3(1)
    by (cases b) (simp_all add: rope_cursor_slice_def first_opt_def Let_def, auto simp: bind_eq_Some_conv)
  then show ?thesis using q3 at2 by blast
qed

lemma rope_cursor_slice_ok:
  assumes "packages_spec pk" "rope_ok r" "node_height r + 4 < STACK_CAPACITY" "rope_cursor_at rc r offset pre suf"
    and "rope_str r = x @ y @ z" "str_len x = offset"
  shows "\<exists>q rc' pre' suf'. rope_cursor_slice pk rc (str_len (x @ y)) = Some (q, rc') \<and> rope_ok q \<and> rope_str q = y
    \<and> node_height q \<le> node_height r + 10 \<and> rope_cursor_at rc' r (str_len (x @ y)) pre' suf'"
proof (cases suf)
  case Nil
  with slice_at_end(1) [OF assms(2) _ assms(5,6)] slice_at_end(2) [OF assms(2) _ assms(5,6), of rc pre pk] assms(4) show ?thesis
    by (metis rope_new_ok zero_le)
next
  case (Cons c cs)
  show ?thesis
  proof (cases "str_len (x @ y) \<le> str_len (text_of (pre @ [c]))")
    case True
    from slice_in_chunk [OF assms(1,2) assms(4) [unfolded Cons] assms(5,6) True] obtain q rc' where
      "rope_cursor_slice pk rc (str_len (x @ y)) = Some (q, rc')" "rope_ok q" "rope_str q = y" "node_height q \<le> 1"
      "rope_cursor_at rc' r (str_len (x @ y)) pre (c # cs)" by blast
    moreover from this have "node_height q \<le> node_height r + 10" by simp
    ultimately show ?thesis by blast
  next
    case False
    then show ?thesis using slice_across [OF assms(1-3) assms(4) [unfolded Cons] assms(5,6)] by (simp del: text_of_simps)
  qed
qed

lemma rope_cursor_suffix_ok:
  assumes "packages_spec pk" "rope_ok r" "node_height r + 4 < STACK_CAPACITY" "rope_cursor_at rc r offset pre suf"
    and "rope_str r = x @ y" "str_len x = offset"
  shows "\<exists>q. rope_cursor_suffix pk rc = Some q \<and> rope_ok q \<and> rope_str q = y \<and> node_height q \<le> node_height r + 10"
proof -
  have "extent usize_dim (rc_rope rc) = str_len (x @ y)"
    using rope_lengths(1) [OF assms(2)] assms(4,5) by (simp add: rope_len_def rope_cursor_at_def)
  then show ?thesis using rope_cursor_slice_ok [OF assms(1-4), of x y "[]"] assms(5,6) by (auto simp: rope_cursor_suffix_def)
qed

lemma rope_slice_ok:
  assumes "packages_spec pk" "rope_ok r" "node_height r + 4 < STACK_CAPACITY" "rope_str r = x @ y @ z"
  shows "\<exists>q. rope_slice pk r (str_len x) (str_len (x @ y)) = Some q \<and> rope_ok q \<and> rope_str q = y
    \<and> node_height q \<le> node_height r + 10"
proof -
  have h: "node_height r < STACK_CAPACITY" using assms(3) by simp
  from rope_cursor_new_ok [OF assms(2) h, of 0] obtain rc pre suf where
    0: "rope_cursor_new r 0 = Some rc" "rope_cursor_at rc r 0 pre suf" by auto
  from rope_cursor_seek_forward_ok [OF 0(2), of "str_len x"] assms(2,4) obtain rc1 pre1 suf1 where
    1: "rope_cursor_seek_forward rc (str_len x) = Some rc1" "rope_cursor_at rc1 r (str_len x) pre1 suf1" by auto
  from rope_cursor_slice_ok [OF assms(1-3) 1(2) assms(4) refl] 0(1) 1(1) show ?thesis
    by (auto simp: rope_slice_def)
qed

lemma rope_replace_ok:
  assumes "packages_spec pk" "rope_ok r" "node_height r + 10 < STACK_CAPACITY" "rope_str r = x @ y @ z"
    and "valid_str t" "str_len (x @ t @ z) < 2 ^ 32"
  shows "\<exists>q. rope_replace pk r (str_len x) (str_len (x @ y)) t = Some q \<and> rope_ok q \<and> rope_str q = x @ t @ z"
proof -
  have h: "node_height r < STACK_CAPACITY" "node_height r + 4 < STACK_CAPACITY" using assms(3) by simp_all
  from rope_cursor_new_ok [OF assms(2) h(1), of 0] obtain rc pre suf where
    0: "rope_cursor_new r 0 = Some rc" "rope_cursor_at rc r 0 pre suf" by auto
  from rope_cursor_slice_ok [OF assms(1,2) h(2) 0(2), of "[]" x "y @ z"] assms(4) obtain q1 rc1 pre1 suf1 where
    1: "rope_cursor_slice pk rc (str_len x) = Some (q1, rc1)" "rope_ok q1" "rope_str q1 = x"
    "node_height q1 \<le> node_height r + 10" "rope_cursor_at rc1 r (str_len x) pre1 suf1" by auto
  have "node_height q1 < STACK_CAPACITY" "str_len (rope_str rope_new @ rope_str q1) < 2 ^ 32" using 1(3,4) assms(3,6) by simp_all
  from rope_append_ok [OF assms(1) rope_new_ok(1) 1(2) this] 1(3) obtain q2 where
    2: "rope_append pk rope_new q1 = Some q2" "rope_ok q2" "rope_str q2 = x" by auto
  from rope_cursor_seek_forward_ok [OF 1(5), of "str_len (x @ y)"] assms(2,4) obtain rc3 pre3 suf3 where
    3: "rope_cursor_seek_forward rc1 (str_len (x @ y)) = Some rc3" "rope_cursor_at rc3 r (str_len (x @ y)) pre3 suf3" by auto
  from rope_push_ok [OF assms(1) 2(2) assms(5)] 2(3) assms(6) obtain q4 where
    4: "rope_push pk q2 t = Some q4" "rope_ok q4" "rope_str q4 = x @ t" by auto
  from rope_cursor_suffix_ok [OF assms(1,2) h(2) 3(2), of "x @ y" z] assms(4) obtain q5 where
    5: "rope_cursor_suffix pk rc3 = Some q5" "rope_ok q5" "rope_str q5 = z" "node_height q5 \<le> node_height r + 10" by auto
  have "node_height q5 < STACK_CAPACITY" "str_len (rope_str q4 @ rope_str q5) < 2 ^ 32" using 4(3) 5(3,4) assms(3,6) by simp_all
  from rope_append_ok [OF assms(1) 4(2) 5(2) this] 4(3) 5(3) obtain q where
    "rope_append pk q4 q5 = Some q" "rope_ok q" "rope_str q = x @ t @ z" by auto
  then show ?thesis using 0 1 2 3 4 5 by (auto simp: rope_replace_def)
qed

section \<open>The rope implements text\<close>

text \<open>Packages that meet the specification: a bounded string and iterators that run in sequence.\<close>

function chunks_in_order :: "nat \<Rightarrow> 'a list \<Rightarrow> 'a list list" where
  "chunks_in_order n xs = (if n = 0 \<or> xs = [] then [] else take n xs # chunks_in_order n (drop n xs))"
  by pat_completeness auto
termination
  by (relation "measure (\<lambda>(n, xs). length xs)") auto

declare chunks_in_order.simps [simp del]

definition sequential_packages :: packages where
  "sequential_packages = \<lparr>pk_push_str = push_str, pk_chunks = chunks_in_order, pk_node_chunks = chunks_in_order\<rparr>"

lemma chunks_in_order_spec: "chunks_spec chunks_in_order"
  unfolding chunks_spec_def by (subst chunks_in_order.simps) simp

lemma sequential_packages_ok: "packages_spec sequential_packages"
  by (simp add: packages_spec_def sequential_packages_def push_str_spec_def push_str_def chunks_in_order_spec)

lemma small_rope:
  assumes "valid_str t" "str_len t \<le> 128"
  obtains r where "push_chunk sequential_packages rope_new (slice_of t) = Some r" "rope_ok r" "rope_str r = t" "node_height r \<le> 1"
  using push_chunk_ok [OF sequential_packages_ok rope_new_ok(1), of t] assms by (auto simp: MAX_BASE_def)

lemma rope_from_iter_ok:
  assumes "packages_spec pk" "\<forall>t \<in> set ts. valid_str t" "str_len (concat ts) < 2 ^ 32"
  shows "\<exists>r. rope_from_iter pk ts = Some r \<and> rope_ok r \<and> rope_str r = concat ts"
proof -
  have "\<exists>r'. for_each (\<lambda>chunk rope. rope_push pk rope chunk) ts r = Some r' \<and> rope_ok r' \<and> rope_str r' = rope_str r @ concat ts"
    if "rope_ok r" "str_len (rope_str r @ concat ts) < 2 ^ 32" for r
    using assms(2) that
  proof (induction ts arbitrary: r)
    case (Cons t ts)
    from rope_push_ok [OF assms(1) Cons.prems(2), of t] Cons.prems obtain q where
      q: "rope_push pk r t = Some q" "rope_ok q" "rope_str q = rope_str r @ t" by auto
    from Cons.IH [OF _ q(2)] q(3) Cons.prems show ?case by (simp add: q(1))
  qed simp
  from this [OF rope_new_ok(1)] assms(3) show ?thesis by (simp add: rope_from_iter_def)
qed

text \<open>
  C11: pushing text onto a rope returns a rope that keeps the invariant (a well-formed tree of
  non-empty chunks of at most 128 bytes with right bitmaps and summaries) and holds the old text
  followed by the new one; its length, its largest points and its summary are those of the whole
  text. Collecting strings into a rope holds their concatenation.
\<close>

theorem rope_push_refines:
  assumes "packages_spec pk" "rope_ok r" "valid_str t" "str_len (rope_str r @ t) < 2 ^ 32"
    and "\<forall>t \<in> set ts. valid_str t" "str_len (concat ts) < 2 ^ 32"
  shows "(\<exists>r'. rope_push pk r t = Some r' \<and> rope_ok r' \<and> rope_str r' = rope_str r @ t
      \<and> rope_len r' = str_len (rope_str r @ t) \<and> max_point r' = position (rope_str r @ t)
      \<and> max_point_utf16 r' = position_utf16 (rope_str r @ t) \<and> rope_summary r' = summary_spec (rope_str r @ t))
    \<and> (\<exists>r'. rope_from_iter pk ts = Some r' \<and> rope_ok r' \<and> rope_str r' = concat ts)"
  using rope_push_ok [OF assms(1-4)] rope_lengths rope_summary_spec rope_from_iter_ok [OF assms(1,5,6)] by metis

theorem rope_push_refines_witness:
  "\<exists>r'. rope_push sequential_packages rope_new [97, newline, 128512] = Some r' \<and> rope_ok r' \<and> rope_str r' = [97, newline, 128512] \<and> rope_len r' = 6"
proof -
  have "valid_str [97, newline, 128512]" "str_len [97, newline, 128512] = 6" by (simp_all add: len_utf8_def newline_def)
  then show ?thesis using rope_push_refines [OF sequential_packages_ok rope_new_ok(1), of "[97, newline, 128512]" "[]"] by fastforce
qed

text \<open>
  C2: joining ropes. Appending a rope and pushing text to the front keep the invariant and
  concatenate the texts, for any trees of less than the cursor's stack capacity.
\<close>

theorem rope_join_refines:
  assumes "packages_spec pk" "rope_ok a" "rope_ok b" "node_height b < STACK_CAPACITY" "str_len (rope_str a @ rope_str b) < 2 ^ 32"
    and "valid_str t" "str_len (t @ rope_str b) < 2 ^ 32"
  shows "(\<exists>r. rope_append pk a b = Some r \<and> rope_ok r \<and> rope_str r = rope_str a @ rope_str b)
    \<and> (\<exists>r. push_front pk b t = Some r \<and> rope_ok r \<and> rope_str r = t @ rope_str b)"
  using rope_append_ok [OF assms(1-5)] push_front_ok [OF assms(1,3,4,6,7)] by blast

theorem rope_join_refines_witness:
  "\<exists>a b r. push_chunk sequential_packages rope_new (slice_of [97, newline]) = Some a
    \<and> push_chunk sequential_packages rope_new (slice_of [98, 233]) = Some b
    \<and> rope_append sequential_packages a b = Some r \<and> rope_str r = [97, newline, 98, 233]"
proof -
  have v: "valid_str [97, newline]" "valid_str [98, 233]" "str_len [97, newline] = 2" "str_len [98, 233] = 3"
    by (simp_all add: len_utf8_def newline_def)
  obtain a where a: "push_chunk sequential_packages rope_new (slice_of [97, newline]) = Some a" "rope_ok a" "rope_str a = [97, newline]"
    by (rule small_rope [of "[97, newline]"]) (use v in auto)
  obtain b where b: "push_chunk sequential_packages rope_new (slice_of [98, 233]) = Some b" "rope_ok b" "rope_str b = [98, 233]" "node_height b \<le> 1"
    by (rule small_rope [of "[98, 233]"]) (use v in auto)
  have "node_height b < STACK_CAPACITY" "str_len (rope_str a @ rope_str b) < 2 ^ 32" "valid_str []" "str_len ([] @ rope_str b) < 2 ^ 32"
    using a(3) b(3,4) v by (simp_all add: STACK_CAPACITY_def)
  from rope_join_refines [OF sequential_packages_ok a(2) b(2) this] a b show ?thesis by fastforce
qed

text \<open>
  C1: cutting and editing. Between two character boundaries \<open>slice\<close> returns exactly the text
  between them, and \<open>replace\<close> exchanges it for the given text; neither panics, and both keep the
  invariant.
\<close>

theorem rope_edit_refines:
  assumes "packages_spec pk" "rope_ok r" "node_height r + 10 < STACK_CAPACITY" "rope_str r = x @ y @ z"
    and "valid_str t" "str_len (x @ t @ z) < 2 ^ 32"
  shows "(\<exists>q. rope_slice pk r (str_len x) (str_len (x @ y)) = Some q \<and> rope_ok q \<and> rope_str q = y)
    \<and> (\<exists>q. rope_replace pk r (str_len x) (str_len (x @ y)) t = Some q \<and> rope_ok q \<and> rope_str q = x @ t @ z)"
  using rope_slice_ok [OF assms(1,2) _ assms(4)] rope_replace_ok [OF assms] assms(3) by fastforce

theorem rope_edit_refines_witness:
  "\<exists>r q. push_chunk sequential_packages rope_new (slice_of [97, 128512, 98]) = Some r
    \<and> rope_replace sequential_packages r 1 5 [233] = Some q \<and> rope_str q = [97, 233, 98]"
proof -
  have v: "valid_str [97, 128512, 98]" "str_len [97, 128512, 98] = 6" "valid_str [233]" "str_len ([97] @ [233] @ [98]) = 4"
    "str_len [97] = 1" "str_len ([97] @ [128512]) = 5" by (simp_all add: len_utf8_def)
  obtain r where r: "push_chunk sequential_packages rope_new (slice_of [97, 128512, 98]) = Some r" "rope_ok r" "rope_str r = [97, 128512, 98]"
    "node_height r \<le> 1" by (rule small_rope [of "[97, 128512, 98]"]) (use v in auto)
  have "node_height r + 10 < STACK_CAPACITY" "rope_str r = [97] @ [128512] @ [98]" "str_len ([97] @ [233] @ [98]) < 2 ^ 32"
    using r(3,4) v by (simp_all add: STACK_CAPACITY_def)
  from rope_edit_refines [OF sequential_packages_ok r(2) this(1,2) v(3) this(3)] r v show ?thesis by auto
qed

end
