(* ===== verification/RopeCoords.thy ===== *)
theory RopeCoords
  imports Rope
begin

text \<open>
  Coordinates of a rope (\<open>crates/rope/src/rope.rs\<close>): character boundaries, conversions between
  byte offsets, UTF-16 offsets, points and UTF-16 points, clipping, and the operations on rows.
  Each finds the chunk at the coordinate and asks the chunk for the rest.
\<close>

section \<open>Character boundaries\<close>

definition chunk_assert_char_boundary :: "bool \<Rightarrow> chunk \<Rightarrow> nat \<Rightarrow> bool rust" where
  "chunk_assert_char_boundary PANIC self offset =
     (if chunk_is_char_boundary self offset then Some True else if PANIC then None else Some False)"

definition rope_is_char_boundary :: "rope \<Rightarrow> nat \<Rightarrow> bool" where
  "rope_is_char_boundary self offset =
     (if tree_is_empty self then offset = 0
      else let (start, _, item) = tree_find usize_dim (cmp offset) Left self;
               chunk_offset = usize_sub offset start
           in case item of Some chunk \<Rightarrow> chunk_is_char_boundary chunk chunk_offset | None \<Rightarrow> False)"

definition rope_assert_char_boundary :: "bool \<Rightarrow> rope \<Rightarrow> nat \<Rightarrow> bool rust" where
  "rope_assert_char_boundary PANIC self offset =
     (if tree_is_empty self \<and> offset = 0 then Some True
      else let (start, _, item) = tree_find usize_dim (cmp offset) Left self
           in case item of
                Some chunk \<Rightarrow> chunk_assert_char_boundary PANIC chunk (usize_sub offset start)
              | None \<Rightarrow> if PANIC then None else Some False)"

definition rope_floor_char_boundary :: "rope \<Rightarrow> nat \<Rightarrow> nat" where
  "rope_floor_char_boundary self index =
     (if index \<ge> rope_len self then rope_len self
      else let (start, _, item) = tree_find usize_dim (cmp index) Left self;
               chunk_offset = usize_sub index start;
               lower_idx = map_option (\<lambda>chunk. str_floor_char_boundary (ck_text chunk) chunk_offset) item
           in case lower_idx of None \<Rightarrow> rope_len self | Some idx \<Rightarrow> start + idx)"

definition rope_ceil_char_boundary :: "rope \<Rightarrow> nat \<Rightarrow> nat" where
  "rope_ceil_char_boundary self index =
     (if index > rope_len self then rope_len self
      else let (start, _, item) = tree_find usize_dim (cmp index) Left self;
               chunk_offset = usize_sub index start;
               upper_idx = map_option (\<lambda>chunk. str_ceil_char_boundary (ck_text chunk) chunk_offset) item
           in case upper_idx of None \<Rightarrow> rope_len self | Some idx \<Rightarrow> start + idx)"

definition rope_clip_offset :: "rope \<Rightarrow> nat \<Rightarrow> bias \<Rightarrow> nat" where
  "rope_clip_offset self offset bias =
     (case bias of Left \<Rightarrow> rope_floor_char_boundary self offset | Right \<Rightarrow> rope_ceil_char_boundary self offset)"

section \<open>Conversions\<close>

definition rope_offset_to_offset_utf16 :: "rope \<Rightarrow> nat \<Rightarrow> offset_utf16" where
  "rope_offset_to_offset_utf16 self offset =
     (if offset \<ge> ts_len (rope_summary self) then ts_len_utf16 (rope_summary self)
      else let (start, _, item) = tree_find (dimensions usize_dim offset_utf16_dim) (\<lambda>d. cmp offset (fst d)) Left self;
               overshoot = usize_sub offset (fst start)
           in offset_utf16_add (snd start)
                (case item of None \<Rightarrow> OffsetUtf16 0 | Some chunk \<Rightarrow> offset_to_offset_utf16 (as_slice chunk) overshoot))"

definition rope_offset_utf16_to_offset :: "rope \<Rightarrow> offset_utf16 \<Rightarrow> nat" where
  "rope_offset_utf16_to_offset self offset =
     (if offset \<ge> ts_len_utf16 (rope_summary self) then ts_len (rope_summary self)
      else let (start, _, item) = tree_find (dimensions offset_utf16_dim usize_dim) (\<lambda>d. cmp offset (fst d)) Left self;
               overshoot = offset_utf16_sub offset (fst start)
           in snd start + (case item of None \<Rightarrow> 0 | Some chunk \<Rightarrow> offset_utf16_to_offset (as_slice chunk) overshoot))"

definition rope_offset_to_point :: "rope \<Rightarrow> nat \<Rightarrow> point" where
  "rope_offset_to_point self offset =
     (if offset \<ge> ts_len (rope_summary self) then ts_lines (rope_summary self)
      else let (start, _, item) = tree_find (dimensions usize_dim point_dim) (\<lambda>d. cmp offset (fst d)) Left self;
               overshoot = usize_sub offset (fst start)
           in point_add (snd start)
                (case item of None \<Rightarrow> point_zero | Some chunk \<Rightarrow> offset_to_point (as_slice chunk) overshoot))"

definition rope_offset_to_point_utf16 :: "rope \<Rightarrow> nat \<Rightarrow> point_utf16" where
  "rope_offset_to_point_utf16 self offset =
     (if offset \<ge> ts_len (rope_summary self) then lines_utf16 (rope_summary self)
      else let (start, _, item) = tree_find (dimensions usize_dim point_utf16_dim) (\<lambda>d. cmp offset (fst d)) Left self;
               overshoot = usize_sub offset (fst start)
           in point_utf16_add (snd start)
                (case item of None \<Rightarrow> point_utf16_zero | Some chunk \<Rightarrow> offset_to_point_utf16 (as_slice chunk) overshoot))"

definition rope_point_to_point_utf16 :: "rope \<Rightarrow> point \<Rightarrow> point_utf16" where
  "rope_point_to_point_utf16 self point =
     (if point \<ge> ts_lines (rope_summary self) then lines_utf16 (rope_summary self)
      else let (start, _, item) = tree_find (dimensions point_dim point_utf16_dim) (\<lambda>d. cmp point (fst d)) Left self;
               overshoot = point_sub point (fst start)
           in point_utf16_add (snd start)
                (case item of None \<Rightarrow> point_utf16_zero | Some chunk \<Rightarrow> point_to_point_utf16 (as_slice chunk) overshoot))"

definition rope_point_utf16_to_point :: "rope \<Rightarrow> point_utf16 \<Rightarrow> point rust" where
  "rope_point_utf16_to_point self point =
     (if point \<ge> lines_utf16 (rope_summary self) then Some (ts_lines (rope_summary self))
      else do {
        let dim = dimensions point_utf16_dim point_dim;
        (_, cursor) \<leftarrow> cursor_seek dim (\<lambda>d. cmp point (fst d)) Left (cursor_new dim self);
        let overshoot = point_utf16_sub point (fst (c_position cursor));
        item \<leftarrow> cursor_item cursor;
        rest \<leftarrow> (case item of
            None \<Rightarrow> Some point_zero
          | Some chunk \<Rightarrow> map_option (offset_to_point (as_slice chunk)) (point_utf16_to_offset (as_slice chunk) overshoot False));
        Some (point_add (snd (c_position cursor)) rest)
      })"

definition rope_point_to_offset :: "rope \<Rightarrow> point \<Rightarrow> nat" where
  "rope_point_to_offset self point =
     (if point \<ge> ts_lines (rope_summary self) then ts_len (rope_summary self)
      else let (start, _, item) = tree_find (dimensions point_dim usize_dim) (\<lambda>d. cmp point (fst d)) Left self;
               overshoot = point_sub point (fst start)
           in snd start + (case item of None \<Rightarrow> 0 | Some chunk \<Rightarrow> point_to_offset (as_slice chunk) overshoot))"

definition rope_point_to_offset_utf16 :: "rope \<Rightarrow> point \<Rightarrow> offset_utf16 rust" where
  "rope_point_to_offset_utf16 self point =
     (if point \<ge> ts_lines (rope_summary self) then Some (ts_len_utf16 (rope_summary self))
      else do {
        let dim = dimensions point_dim offset_utf16_dim;
        (_, cursor) \<leftarrow> cursor_seek dim (\<lambda>d. cmp point (fst d)) Left (cursor_new dim self);
        let overshoot = point_sub point (fst (c_position cursor));
        item \<leftarrow> cursor_item cursor;
        Some (offset_utf16_add (snd (c_position cursor))
          (case item of None \<Rightarrow> OffsetUtf16 0 | Some chunk \<Rightarrow> point_to_offset_utf16 (as_slice chunk) overshoot))
      })"

definition point_utf16_to_offset_impl :: "rope \<Rightarrow> point_utf16 \<Rightarrow> bool \<Rightarrow> nat rust" where
  "point_utf16_to_offset_impl self point clip =
     (if point \<ge> lines_utf16 (rope_summary self) then Some (ts_len (rope_summary self))
      else do {
        let (start, _, item) = tree_find (dimensions point_utf16_dim usize_dim) (\<lambda>d. cmp point (fst d)) Left self;
        let overshoot = point_utf16_sub point (fst start);
        rest \<leftarrow> (case item of None \<Rightarrow> Some 0 | Some chunk \<Rightarrow> point_utf16_to_offset (as_slice chunk) overshoot clip);
        Some (snd start + rest)
      })"

definition point_utf16_to_offset_utf16_impl :: "rope \<Rightarrow> point_utf16 \<Rightarrow> bool \<Rightarrow> offset_utf16 rust" where
  "point_utf16_to_offset_utf16_impl self point clip =
     (if point \<ge> lines_utf16 (rope_summary self) then Some (ts_len_utf16 (rope_summary self))
      else do {
        let dim = dimensions point_utf16_dim offset_utf16_dim;
        (_, cursor) \<leftarrow> cursor_seek dim (\<lambda>d. cmp point (fst d)) Left (cursor_new dim self);
        let overshoot = point_utf16_sub point (fst (c_position cursor));
        item \<leftarrow> cursor_item cursor;
        rest \<leftarrow> (case item of
            None \<Rightarrow> Some (OffsetUtf16 0)
          | Some chunk \<Rightarrow> map_option (offset_to_offset_utf16 (as_slice chunk)) (point_utf16_to_offset (as_slice chunk) overshoot clip));
        Some (offset_utf16_add (snd (c_position cursor)) rest)
      })"

definition rope_point_utf16_to_offset :: "rope \<Rightarrow> point_utf16 \<Rightarrow> nat rust" where
  "rope_point_utf16_to_offset self point = point_utf16_to_offset_impl self point False"

definition rope_point_utf16_to_offset_utf16 :: "rope \<Rightarrow> point_utf16 \<Rightarrow> offset_utf16 rust" where
  "rope_point_utf16_to_offset_utf16 self point = point_utf16_to_offset_utf16_impl self point False"

definition unclipped_point_utf16_to_offset :: "rope \<Rightarrow> point_utf16 unclipped \<Rightarrow> nat rust" where
  "unclipped_point_utf16_to_offset self point = point_utf16_to_offset_impl self (clipped_value point) True"

definition rope_unclipped_point_utf16_to_point :: "rope \<Rightarrow> point_utf16 unclipped \<Rightarrow> point rust" where
  "rope_unclipped_point_utf16_to_point self point =
     (if clipped_value point \<ge> lines_utf16 (rope_summary self) then Some (ts_lines (rope_summary self))
      else do {
        let (start, _, item) = tree_find (dimensions point_utf16_dim point_dim) (\<lambda>d. cmp (clipped_value point) (fst d)) Left self;
        let overshoot = Unclipped (point_utf16_sub (clipped_value point) (fst start));
        rest \<leftarrow> (case item of None \<Rightarrow> Some point_zero | Some chunk \<Rightarrow> unclipped_point_utf16_to_point (as_slice chunk) overshoot);
        Some (point_add (snd start) rest)
      })"

section \<open>Clipping\<close>

definition rope_clip_offset_utf16 :: "rope \<Rightarrow> offset_utf16 \<Rightarrow> bias \<Rightarrow> offset_utf16 rust" where
  "rope_clip_offset_utf16 self offset bias = do {
     let (start, _, item) = tree_find offset_utf16_dim (cmp offset) Right self;
     (case item of
        Some chunk \<Rightarrow> do {
          let overshoot = offset_utf16_sub offset start;
          map_option (offset_utf16_add start) (clip_offset_utf16 (as_slice chunk) overshoot bias) }
      | None \<Rightarrow> Some (ts_len_utf16 (rope_summary self)))
   }"

definition rope_clip_point :: "(rstr \<Rightarrow> nat \<Rightarrow> bool) \<Rightarrow> rope \<Rightarrow> point \<Rightarrow> bias \<Rightarrow> point rust" where
  "rope_clip_point is_grapheme self point bias = do {
     let (start, _, item) = tree_find point_dim (cmp point) Right self;
     (case item of
        Some chunk \<Rightarrow> do {
          let overshoot = point_sub point start;
          map_option (point_add start) (clip_point is_grapheme (as_slice chunk) overshoot bias) }
      | None \<Rightarrow> Some (ts_lines (rope_summary self)))
   }"

definition rope_clip_point_utf16 :: "rope \<Rightarrow> point_utf16 unclipped \<Rightarrow> bias \<Rightarrow> point_utf16 rust" where
  "rope_clip_point_utf16 self point bias = do {
     let (start, _, item) = tree_find point_utf16_dim (cmp (clipped_value point)) Right self;
     (case item of
        Some chunk \<Rightarrow> do {
          let overshoot = Unclipped (point_utf16_sub (clipped_value point) start);
          map_option (point_utf16_add start) (clip_point_utf16 (as_slice chunk) overshoot bias) }
      | None \<Rightarrow> Some (lines_utf16 (rope_summary self)))
   }"

definition line_len :: "(rstr \<Rightarrow> nat \<Rightarrow> bool) \<Rightarrow> rope \<Rightarrow> u32 \<Rightarrow> u32 rust" where
  "line_len is_grapheme self row = map_option pt_column (rope_clip_point is_grapheme self (Point row (- 1)) Left)"

definition slice_rows :: "packages \<Rightarrow> rope \<Rightarrow> u32 \<Rightarrow> u32 \<Rightarrow> rope rust" where
  "slice_rows pk self range_start range_end = do {
     let start = rope_point_to_offset self (Point range_start 0);
     let end' = rope_point_to_offset self (Point range_end 0);
     rope_slice pk self start end'
   }"

section \<open>The chunk at a position\<close>

text \<open>Every position in the text comes strictly after those before it.\<close>

locale strict_dimension = seek_dimension dim measure key
  for dim :: "(chunk_summary, 'd) dim_ops" and measure and key :: "'d \<Rightarrow> 'k::linorder" +
  assumes key_strict: "t \<noteq> [] \<Longrightarrow> str_len (s @ t) < 2 ^ 32 \<Longrightarrow> key (measure s) \<noteq> key (measure (s @ t))"
begin

lemma key_less: "t \<noteq> [] \<Longrightarrow> str_len (s @ t) < 2 ^ 32 \<Longrightarrow> key (measure s) < key (measure (s @ t))"
  using key_mono [of s t] key_strict [of t s] by simp

lemma key_prefix:
  assumes "p @ q = l @ r" "str_len (p @ q) < 2 ^ 32" "key (measure p) \<le> key (measure l)"
  obtains l' where "l = p @ l'" "q = l' @ r"
proof (cases "str_len p \<le> str_len l")
  case True
  with assms(1) show thesis by (rule prefix_len) (rule that)
next
  case False
  from prefix_len [OF assms(1) [symmetric]] False obtain p' where p': "p = l @ p'" "r = p' @ q" by auto
  then have "p' \<noteq> []" "str_len (l @ p') < 2 ^ 32" using False assms(2) by auto
  from key_less [OF this] show thesis using p'(1) assms(3) by simp
qed

lemma prefix_chunk:
  assumes "rope_fits (a @ b)" "text_of (a @ b) = p @ q" "q \<noteq> []"
    and "a \<noteq> [] \<Longrightarrow> key (measure (text_of a)) < key (measure p)"
    and "b \<noteq> [] \<Longrightarrow> \<not> key (measure (text_of (a @ [hd b]))) < key (measure p)"
  obtains c b' p' s where "b = c # b'" "p = text_of a @ p'" "c = chunk_of (p' @ s)" "str_len (p' @ s) \<le> 128" "valid_str (p' @ s)"
proof -
  have len: "str_len (p @ q) < 2 ^ 32" using assms(1,2) by (simp add: rope_fits_def flip: assms(2))
  have "\<exists>p'. p = text_of a @ p'"
  proof (cases "a = []")
    case False
    have t: "text_of a @ text_of b = p @ q" using assms(2) by simp
    show ?thesis by (rule key_prefix [OF t]) (use assms(4) False len t in auto)
  qed simp
  then obtain p' where p': "p = text_of a @ p'" ..
  then have rest: "text_of b = p' @ q" using assms(2) by simp
  then obtain c b' where b: "b = c # b'" using assms(3) by (cases b) auto
  then obtain w where w: "c = chunk_of w" "str_len w \<le> MAX_BASE" "valid_str w"
    using assms(1) by (auto simp: rope_fits_def elim: chunk_okE)
  have t: "p @ q = text_of (a @ [c]) @ text_of b'" using assms(2) b by simp
  obtain s where "text_of (a @ [c]) = p @ s" by (rule key_prefix [OF t len]) (use assms(5) b in auto)
  then have "w = p' @ s" using p' w(1) by simp
  then show thesis using that [OF b p'] w by (simp add: MAX_BASE_def)
qed

lemma part_found:
  assumes "rope_ok r" "rope_str r = p @ q" "rope_str r = x @ s @ y" "x = [] \<or> key (measure x) \<le> key (measure p)"
    and "key (measure p) < key (measure (x @ s))"
  obtains p' s' where "p = x @ p'" "s = p' @ s'"
proof -
  have len: "str_len (p @ q) < 2 ^ 32" "str_len (x @ s @ y) < 2 ^ 32"
    using assms(1) unfolding rope_ok_iff rope_fits_def rope_str_def [symmetric] assms(2) [symmetric] assms(3) [symmetric] by simp_all
  have eq: "x @ s @ y = p @ q" "(x @ s) @ y = p @ q" using assms(2,3) by simp_all
  have "\<exists>p'. p = x @ p'"
  proof (cases "x = []")
    case False
    show ?thesis by (rule key_prefix [OF eq(1) len(2)]) (use assms(4) False in auto)
  qed simp
  then obtain p' where p': "p = x @ p'" ..
  obtain s' where "x @ s = p @ s'" by (rule key_prefix [OF eq(2) [symmetric] len(1)]) (use assms(5) in auto)
  then show thesis using that p' by simp
qed

lemma find_prefix:
  assumes "rope_ok r" "rope_str r = p @ q" "q \<noteq> []"
  obtains a p' s where "p = text_of a @ p'" "str_len (p' @ s) \<le> 128" "valid_str (p' @ s)"
    "tree_find dim (\<lambda>d. cmp (key (measure p)) (key d)) Left r
      = (measure (text_of a), measure (text_of (a @ [chunk_of (p' @ s)])), Some (chunk_of (p' @ s)))"
proof -
  obtain a b where ab: "tree_items r = a @ b"
    "tree_find dim (\<lambda>d. cmp (key (measure p)) (key d)) Left r = (measure (text_of a), measure (text_of (a @ take 1 b)), first_opt b)"
    "a \<noteq> [] \<Longrightarrow> key (measure (text_of a)) < key (measure p)"
    "b \<noteq> [] \<Longrightarrow> \<not> key (measure (text_of (a @ [hd b]))) < key (measure p)"
    using rope_find [OF assms(1), where x = "key (measure p)" and bias = Left] unfolding reached_def by auto
  have f: "rope_fits (a @ b)" "text_of (a @ b) = p @ q" using assms(1,2) ab(1) rope_ok_iff [of r] by (auto simp: rope_str_def)
  show thesis by (rule prefix_chunk [OF f assms(3) ab(3,4)]) (use that [of a] ab(2) in \<open>auto simp: first_opt_def\<close>)
qed

lemma seek_prefix:
  assumes "rope_ok r" "node_height r < STACK_CAPACITY" "rope_str r = p @ q" "q \<noteq> []"
  obtains a p' s eq cur where "p = text_of a @ p'" "str_len (p' @ s) \<le> 128" "valid_str (p' @ s)"
    "cursor_seek dim (\<lambda>d. cmp (key (measure p)) (key d)) Left (cursor_new dim r) = Some (eq, cur)"
    "c_position cur = measure (text_of a)" "cursor_item cur = Some (Some (chunk_of (p' @ s)))"
proof -
  have w: "wf_in rope_fits chunk_ops r" "rope_fits (tree_items r)" using assms(1) by (simp_all add: rope_ok_def wf_in_fits)
  let ?t = "\<lambda>d. cmp (key (measure p)) (key d)"
  obtain a b where ab: "seek_split chunk_ops dim (past ?t Left) (measure (text_of [])) (tree_items r) = (a, b)" by fastforce
  note s = split_found [of "[]" "tree_items r", unfolded append_Nil, OF w(2) ab]
  have z: "d_zero dim = measure []" by (simp add: measure_Nil)
  have len: "str_len (p @ q) < 2 ^ 32" using w(2) assms(3) by (simp add: rope_fits_def rope_str_def)
  then have "\<not> key (measure p) < key (measure [])" using key_mono [of "[]" p] by simp
  with cursor_seek_ok [OF cursor_new_at [OF w(1) assms(2)], of ?t Left a b] ab monotone_key_start [OF w(2)] obtain eq cur where
    c: "cursor_seek dim ?t Left (cursor_new dim r) = Some (eq, cur)" "cursor_in rope_fits chunk_ops dim cur a b" "c_did_seek cur"
    by (auto simp: cmp_neq_Less z)
  have f: "rope_fits (a @ b)" "text_of (a @ b) = p @ q" using w(2) s(1) assms(3) by (auto simp: rope_str_def)
  have pos: "c_position cur = measure (text_of a)"
    using c(2) item_dim_start [OF rope_fits_simps(1) [OF f(1)]] by (simp add: cursor_in_def z)
  show thesis
  proof (rule prefix_chunk [OF f assms(4)])
    show "a \<noteq> [] \<Longrightarrow> key (measure (text_of a)) < key (measure p)" using s(2) by (simp add: reached_def)
    show "b \<noteq> [] \<Longrightarrow> \<not> key (measure (text_of (a @ [hd b]))) < key (measure p)" using s(3) by (simp add: reached_def)
  next
    fix ch b' p' u
    assume x: "b = ch # b'" "p = text_of a @ p'" "ch = chunk_of (p' @ u)" "str_len (p' @ u) \<le> 128" "valid_str (p' @ u)"
    then show thesis using that [OF x(2,4,5) c(1) pos] cursor_item_at(1) [OF c(2,3)] by (simp add: first_opt_def)
  qed
qed

end

lemma str_len_utf16_pos: "t \<noteq> [] \<Longrightarrow> 0 < str_len_utf16 t"
  using str_len_utf16_0 [of t] by simp

lemma position_strict:
  assumes "t \<noteq> []" "str_len (s @ t) < 2 ^ 32"
  shows "position s \<noteq> position (s @ t)" "position_utf16 s \<noteq> position_utf16 (s @ t)"
proof -
  have l: "str_len (last_line (s @ t)) < 2 ^ 32" "str_len_utf16 (last_line (s @ t)) < 2 ^ 32" "rows (s @ t) < 2 ^ 32"
    using assms last_line_le [of "s @ t"] str_len_utf16_le [of "s @ t"] rows_le_str_len [of "s @ t"] by linarith+
  note r = rows_append [of s t]
  have eq: "(of_nat m :: u32) = of_nat n \<Longrightarrow> m = n" if "m \<le> n" "n < 2 ^ 32" for m n
    using of_nat_u32(2) [of m n] that by simp
  have t: "str_len t \<noteq> 0" "str_len_utf16 t \<noteq> 0" using assms(1) str_len_pos [of t] str_len_utf16_pos [of t] by auto
  show "position s \<noteq> position (s @ t)"
  proof
    assume "position s = position (s @ t)"
    then have "rows s = rows (s @ t)" "rows t = 0 \<Longrightarrow> str_len (last_line s) = str_len (last_line (s @ t))"
      using r l by (auto simp: position_def last_line_append intro!: eq)
    then show False using r t by (auto simp: last_line_append)
  qed
  show "position_utf16 s \<noteq> position_utf16 (s @ t)"
  proof
    assume "position_utf16 s = position_utf16 (s @ t)"
    then have "rows s = rows (s @ t)" "rows t = 0 \<Longrightarrow> str_len_utf16 (last_line s) = str_len_utf16 (last_line (s @ t))"
      using r l by (auto simp: position_utf16_def last_line_append intro!: eq)
    then show False using r t by (auto simp: last_line_append)
  qed
qed

interpretation bytes: strict_dimension usize_dim str_len "\<lambda>d. d"
  by unfold_locales (simp add: str_len_pos)

interpretation utf16: strict_dimension offset_utf16_dim "\<lambda>s. OffsetUtf16 (str_len_utf16 s)" "\<lambda>d. d"
  by unfold_locales (simp add: str_len_utf16_pos)

interpretation points: strict_dimension point_dim position "\<lambda>d. d"
  by unfold_locales (rule position_strict(1))

interpretation points16: strict_dimension point_utf16_dim position_utf16 "\<lambda>d. d"
  by unfold_locales (rule position_strict(2))

lemma strict_dimensions:
  assumes "strict_dimension d1 m1 (\<lambda>d. d)" "rope_dimension d2 m2"
  shows "strict_dimension (dimensions d1 d2) (\<lambda>s. (m1 s, m2 s)) fst"
  using seek_dimensions [OF strict_dimension.axioms(1) [OF assms(1)] assms(2)] strict_dimension.axioms(2) [OF assms(1)]
  by (simp add: strict_dimension_def strict_dimension_axioms_def)

section \<open>Boundaries of the whole text\<close>

text \<open>The chunk at any byte offset within the text, also one inside a character.\<close>

lemma find_offset:
  assumes "rope_ok r" "i \<le> str_len (rope_str r)" "rope_str r \<noteq> []"
  obtains x s y k where "rope_str r = x @ s @ y" "i = str_len x + k" "k \<le> str_len s" "str_len s \<le> 128" "valid_str s"
    "tree_find usize_dim (cmp i) Left r = (str_len x, str_len (x @ s), Some (chunk_of s))"
proof -
  obtain a b where ab: "tree_items r = a @ b"
    "tree_find usize_dim (cmp i) Left r = (str_len (text_of a), str_len (text_of (a @ take 1 b)), first_opt b)"
    "a \<noteq> [] \<Longrightarrow> str_len (text_of a) < i" "b \<noteq> [] \<Longrightarrow> i \<le> str_len (text_of (a @ [hd b]))"
    using bytes.rope_find [OF assms(1), where x = i and bias = Left] unfolding reached_def by (auto simp: not_less)
  then have "b \<noteq> []" using assms(2,3) by (cases "a = []") (auto simp: rope_str_def)
  then obtain c b' where b: "b = c # b'" by (cases b) auto
  then obtain s where s: "c = chunk_of s" "str_len s \<le> MAX_BASE" "valid_str s"
    using rope_okD(2) [OF assms(1)] ab(1) by (auto elim: chunk_okE)
  have le: "str_len (text_of a) \<le> i" using ab(3) by (cases "a = []") auto
  show thesis
    by (rule that [of "text_of a" s "text_of b'" "i - str_len (text_of a)"])
      (use ab b s le in \<open>simp_all add: rope_str_def first_opt_def MAX_BASE_def\<close>)
qed

lemma find_beyond:
  assumes "rope_ok r" "str_len (rope_str r) < i \<or> rope_str r = []"
  shows "snd (snd (tree_find usize_dim (cmp i) Left r)) = None"
proof -
  obtain a b where ab: "tree_items r = a @ b"
    "tree_find usize_dim (cmp i) Left r = (str_len (text_of a), str_len (text_of (a @ take 1 b)), first_opt b)"
    "a \<noteq> [] \<Longrightarrow> str_len (text_of a) < i" "b \<noteq> [] \<Longrightarrow> i \<le> str_len (text_of (a @ [hd b]))"
    using bytes.rope_find [OF assms(1), where x = i and bias = Left] unfolding reached_def by (auto simp: not_less)
  have "b = []"
  proof (rule ccontr)
    assume "b \<noteq> []"
    then obtain c b' where b: "b = c # b'" by (cases b) auto
    then have "ck_text c \<noteq> []" using rope_okD(2) [OF assms(1)] ab(1) by (simp add: chunk_ok_def)
    then show False using assms(2) ab(1,4) b by (auto simp: rope_str_def)
  qed
  then show ?thesis using ab(2) by (simp add: first_opt_def)
qed

lemma rope_empty_iff: "rope_ok r \<Longrightarrow> tree_is_empty r \<longleftrightarrow> rope_str r = []"
  using rope_okD(2) [of r] tree_is_empty_iff [OF rope_okD(1), of r]
  by (cases "tree_items r") (auto simp: rope_str_def chunk_ok_def)

lemma floor_inside:
  assumes "k \<le> str_len s"
  shows "str_floor_char_boundary (x @ s @ y) (str_len x + k) = str_len x + str_floor_char_boundary s k"
proof (rule antisym)
  let ?f = "str_floor_char_boundary (x @ s @ y) (str_len x + k)"
  note F = floor_boundary [where s = "x @ s @ y" and a = "str_len x + k"] and f = floor_boundary [where s = s and a = k]
  have "str_is_char_boundary (x @ s @ y) (str_len x + str_floor_char_boundary s k)" using boundary_inside f(1) by blast
  then show lo: "str_len x + str_floor_char_boundary s k \<le> ?f" using F(2) f(3) by simp
  obtain m where m: "?f = str_len x + m" using lo by (metis add.assoc le_iff_add)
  then have "m \<le> k" using F(3) by simp
  then have "str_is_char_boundary s m" using F(1) m boundary_inside [of x s y m] assms by simp
  then show "?f \<le> str_len x + str_floor_char_boundary s k" using f(2) \<open>m \<le> k\<close> m by simp
qed

lemma ceil_inside:
  assumes "k \<le> str_len s"
  shows "str_ceil_char_boundary (x @ s @ y) (str_len x + k) = str_len x + str_ceil_char_boundary s k"
proof (rule antisym)
  let ?f = "str_ceil_char_boundary (x @ s @ y) (str_len x + k)"
  note F = ceil_boundary [where s = "x @ s @ y" and a = "str_len x + k"] and f = ceil_boundary [where s = s and a = k]
  have "str_is_char_boundary (x @ s @ y) (str_len x + str_ceil_char_boundary s k)" using boundary_inside f(1) by blast
  then show hi: "?f \<le> str_len x + str_ceil_char_boundary s k" using F(2) f(3) assms by simp
  have "str_len x + k \<le> ?f" using F(3) assms by simp
  then obtain m where m: "?f = str_len x + m" "k \<le> m" by (metis add_le_cancel_left le_iff_add le_add1 order_trans)
  have "m \<le> str_len s" using hi m boundary_le [OF f(1)] by simp
  then have "str_is_char_boundary s m" using F(1) m boundary_inside [of x s y m] by simp
  then show "str_len x + str_ceil_char_boundary s k \<le> ?f" using f(2) m by simp
qed

lemma rope_boundary_eq:
  assumes "rope_ok r"
  shows "rope_is_char_boundary r i \<longleftrightarrow> str_is_char_boundary (rope_str r) i"
    and "rope_assert_char_boundary PANIC r i = (if str_is_char_boundary (rope_str r) i then Some True else if PANIC then None else Some False)"
proof -
  consider "rope_str r = []" | "str_len (rope_str r) < i" "rope_str r \<noteq> []" | "i \<le> str_len (rope_str r)" "rope_str r \<noteq> []" by linarith
  then have "(rope_is_char_boundary r i \<longleftrightarrow> str_is_char_boundary (rope_str r) i)
    \<and> rope_assert_char_boundary PANIC r i = (if str_is_char_boundary (rope_str r) i then Some True else if PANIC then None else Some False)"
  proof cases
    case 3
    obtain x s y k where f: "rope_str r = x @ s @ y" "i = str_len x + k" "k \<le> str_len s" "str_len s \<le> 128" "valid_str s"
      "tree_find usize_dim (cmp i) Left r = (str_len x, str_len (x @ s), Some (chunk_of s))"
      by (rule find_offset [OF assms 3]) blast
    have "chunk_is_char_boundary (chunk_of s) k \<longleftrightarrow> str_is_char_boundary s k" using f(3,4) by (simp add: chunk_boundary_eq slice_boundary_eq)
    moreover have "str_is_char_boundary (rope_str r) i \<longleftrightarrow> str_is_char_boundary s k" using boundary_inside [of x s y k] f(1-3) by simp
    moreover have "usize_sub i (str_len x) = k" using f(2) by simp
    ultimately show ?thesis using f(6) 3 rope_empty_iff [OF assms]
      by (simp add: rope_is_char_boundary_def rope_assert_char_boundary_def chunk_assert_char_boundary_def)
  qed (use find_beyond [OF assms, of i] rope_empty_iff [OF assms] boundary_le [of "rope_str r" i] in
      \<open>auto simp: rope_is_char_boundary_def rope_assert_char_boundary_def Let_def split: prod.splits\<close>)
  then show "rope_is_char_boundary r i \<longleftrightarrow> str_is_char_boundary (rope_str r) i"
    and "rope_assert_char_boundary PANIC r i = (if str_is_char_boundary (rope_str r) i then Some True else if PANIC then None else Some False)"
    by simp_all
qed

lemma rope_clip_offset_eq:
  assumes "rope_ok r"
  shows "rope_floor_char_boundary r i = str_floor_char_boundary (rope_str r) i"
    and "rope_ceil_char_boundary r i = str_ceil_char_boundary (rope_str r) i"
proof -
  note len = rope_lengths(1) [OF assms]
  have ends: "str_floor_char_boundary s j = str_len s" "str_ceil_char_boundary s j = str_len s" if "str_len s \<le> j" for s j
    using that by (simp_all add: str_floor_char_boundary_def str_ceil_char_boundary_def)
  show "rope_floor_char_boundary r i = str_floor_char_boundary (rope_str r) i"
  proof (cases "str_len (rope_str r) \<le> i")
    case False
    then have "i \<le> str_len (rope_str r)" "rope_str r \<noteq> []" by auto
    from find_offset [OF assms this] obtain x s y k where f: "rope_str r = x @ s @ y" "i = str_len x + k" "k \<le> str_len s"
      "tree_find usize_dim (cmp i) Left r = (str_len x, str_len (x @ s), Some (chunk_of s))" by metis
    then show ?thesis using False len floor_inside [OF f(3)] by (simp add: rope_floor_char_boundary_def)
  qed (simp add: rope_floor_char_boundary_def len ends)
  show "rope_ceil_char_boundary r i = str_ceil_char_boundary (rope_str r) i"
  proof (cases "str_len (rope_str r) < i \<or> rope_str r = []")
    case False
    then have "i \<le> str_len (rope_str r)" "rope_str r \<noteq> []" by auto
    from find_offset [OF assms this] obtain x s y k where f: "rope_str r = x @ s @ y" "i = str_len x + k" "k \<le> str_len s"
      "tree_find usize_dim (cmp i) Left r = (str_len x, str_len (x @ s), Some (chunk_of s))" by metis
    then show ?thesis using False len ceil_inside [OF f(3)] by (simp add: rope_ceil_char_boundary_def)
  qed (use find_beyond [OF assms, of i] ends(2) [of "rope_str r" i] in
      \<open>auto simp: rope_ceil_char_boundary_def len Let_def split: prod.splits\<close>)
qed

section \<open>Conversions at a character boundary\<close>

lemma position_sub:
  assumes "str_len (x @ p) < 2 ^ 32"
  shows "point_sub (position (x @ p)) (position x) = position p" "point_utf16_sub (position_utf16 (x @ p)) (position_utf16 x) = position_utf16 p"
proof -
  have "rows x + rows p < 2 ^ 32" using rows_le_str_len [of "x @ p"] rows_append [of x p] assms by simp
  then show "point_sub (position (x @ p)) (position x) = position p"
    "point_utf16_sub (position_utf16 (x @ p)) (position_utf16 x) = position_utf16 p"
    using assms unat_rows [of x] unat_rows [of p] pt.sub_add_cancel [of "position x" "position p"]
      pt16.sub_add_cancel [of "position_utf16 x" "position_utf16 p"] by (simp_all flip: position_add)
qed

lemma offset_utf16_parts [simp]:
  "offset_utf16_sub (OffsetUtf16 (m + n)) (OffsetUtf16 m) = OffsetUtf16 n" "offset_utf16_add (OffsetUtf16 m) (OffsetUtf16 n) = OffsetUtf16 (m + n)"
  by (simp_all add: offset_utf16_sub_def offset_utf16_add_def)

lemma chunk_at_position:
  assumes "str_len (p @ s) \<le> 128"
  shows "offset_to_point (slice_of (p @ s)) (str_len p) = position p"
    and "offset_to_point_utf16 (slice_of (p @ s)) (str_len p) = position_utf16 p"
    and "point_to_offset (slice_of (p @ s)) (position p) = str_len p"
    and "point_to_offset_utf16 (slice_of (p @ s)) (position p) = OffsetUtf16 (str_len_utf16 p)"
    and "point_to_point_utf16 (slice_of (p @ s)) (position p) = position_utf16 p"
proof -
  show o: "offset_to_point (slice_of (p @ s)) (str_len p) = position p"
    using offset_to_point_eq [OF assms, of 0] by (simp add: position_def)
  show u: "offset_to_point_utf16 (slice_of (p @ s)) (str_len p) = position_utf16 p"
    using offset_to_point_utf16_eq [OF assms] by (simp add: position_utf16_def)
  show b: "point_to_offset (slice_of (p @ s)) (position p) = str_len p"
    using point_to_offset_eq [OF assms, of 0] by (simp add: position_def)
  show "point_to_offset_utf16 (slice_of (p @ s)) (position p) = OffsetUtf16 (str_len_utf16 p)"
    using row_range_around(3) [OF assms] point_to_offset_eq [OF assms, of 0] offset_to_offset_utf16_eq [OF assms]
    by (simp add: point_to_offset_utf16_def position_def)
  show "point_to_point_utf16 (slice_of (p @ s)) (position p) = position_utf16 p"
    by (simp add: point_to_point_utf16_def b u)
qed

lemma rope_fits_text: "rope_ok r \<Longrightarrow> str_len (rope_str r) < 2 ^ 32"
  by (simp add: rope_ok_iff rope_fits_def rope_str_def)

lemmas conversion_simps = rope_summary_spec summary_positions chunk_at_position offset_to_offset_utf16_eq offset_utf16_to_offset_eq
  utf16_of_position position_sub position_add

text \<open>Finding with two dimensions: the first is compared, the second is carried along.\<close>

lemma find_pair:
  assumes "strict_dimension d1 m1 (\<lambda>d. d)" "rope_dimension d2 m2" "rope_ok r" "rope_str r = p @ q"
  obtains (whole) "q = []" | (found) x p' s e where "p = x @ p'" "str_len (p' @ s) \<le> 128" "\<not> m1 (p @ q) \<le> m1 p" "str_len (x @ p') < 2 ^ 32"
    "tree_find (dimensions d1 d2) (\<lambda>d. cmp (m1 p) (fst d)) Left r = ((m1 x, m2 x), e, Some (chunk_of (p' @ s)))"
proof -
  have len: "str_len (p @ q) < 2 ^ 32" using rope_fits_text [OF assms(3)] assms(4) by simp
  show thesis
  proof (cases "q = []")
    case False
    show thesis
    proof (rule strict_dimension.find_prefix [OF strict_dimensions [OF assms(1,2)] assms(3,4) False])
      fix a p' s
      assume a: "p = text_of a @ p'" "str_len (p' @ s) \<le> 128"
        "tree_find (dimensions d1 d2) (\<lambda>d. cmp (fst (m1 p, m2 p)) (fst d)) Left r = ((m1 (text_of a), m2 (text_of a)),
          (m1 (text_of (a @ [chunk_of (p' @ s)])), m2 (text_of (a @ [chunk_of (p' @ s)]))), Some (chunk_of (p' @ s)))"
      show thesis
        by (rule found [OF a(1,2) strict_dimension.key_less [OF assms(1) False len, folded not_le] _ a(3) [unfolded fst_conv]]) (use len a(1) in simp)
    qed
  qed (rule whole)
qed

lemma seek_pair:
  assumes "strict_dimension d1 m1 (\<lambda>d. d)" "rope_dimension d2 m2" "rope_ok r" "node_height r < STACK_CAPACITY" "rope_str r = p @ q"
  obtains (whole) "q = []" | (found) x p' s eq cur where "p = x @ p'" "str_len (p' @ s) \<le> 128" "\<not> m1 (p @ q) \<le> m1 p" "str_len (x @ p') < 2 ^ 32"
    "cursor_seek (dimensions d1 d2) (\<lambda>d. cmp (m1 p) (fst d)) Left (cursor_new (dimensions d1 d2) r) = Some (eq, cur)"
    "c_position cur = (m1 x, m2 x)" "cursor_item cur = Some (Some (chunk_of (p' @ s)))"
proof -
  have len: "str_len (p @ q) < 2 ^ 32" using rope_fits_text [OF assms(3)] assms(5) by simp
  show thesis
  proof (cases "q = []")
    case False
    show thesis
    proof (rule strict_dimension.seek_prefix [OF strict_dimensions [OF assms(1,2)] assms(3-5) False])
      fix a p' s eq cur
      assume a: "p = text_of a @ p'" "str_len (p' @ s) \<le> 128"
        "cursor_seek (dimensions d1 d2) (\<lambda>d. cmp (fst (m1 p, m2 p)) (fst d)) Left (cursor_new (dimensions d1 d2) r) = Some (eq, cur)"
        "c_position cur = (m1 (text_of a), m2 (text_of a))" "cursor_item cur = Some (Some (chunk_of (p' @ s)))"
      show thesis
        by (rule found [OF a(1,2) strict_dimension.key_less [OF assms(1) False len, folded not_le] _ a(3) [unfolded fst_conv] a(4,5)]) (use len a(1) in simp)
    qed
  qed (rule whole)
qed

lemmas strict_axioms = bytes.strict_dimension_axioms utf16.strict_dimension_axioms points.strict_dimension_axioms points16.strict_dimension_axioms
lemmas dimension_axioms = bytes.rope_dimension_axioms utf16.rope_dimension_axioms points.rope_dimension_axioms points16.rope_dimension_axioms

lemma rope_from_offset:
  assumes "rope_ok r" "rope_str r = p @ q"
  shows "rope_offset_to_offset_utf16 r (str_len p) = OffsetUtf16 (str_len_utf16 p)"
    and "rope_offset_to_point r (str_len p) = position p"
    and "rope_offset_to_point_utf16 r (str_len p) = position_utf16 p"
  subgoal by (rule find_pair [OF strict_axioms(1) dimension_axioms(2) assms])
      (use assms in \<open>simp_all add: rope_offset_to_offset_utf16_def conversion_simps\<close>)
  subgoal by (rule find_pair [OF strict_axioms(1) dimension_axioms(3) assms])
      (use assms in \<open>simp_all add: rope_offset_to_point_def conversion_simps\<close>)
  subgoal by (rule find_pair [OF strict_axioms(1) dimension_axioms(4) assms])
      (use assms in \<open>simp_all add: rope_offset_to_point_utf16_def conversion_simps\<close>)
  done

lemma rope_from_offset_utf16:
  assumes "rope_ok r" "rope_str r = p @ q"
  shows "rope_offset_utf16_to_offset r (OffsetUtf16 (str_len_utf16 p)) = str_len p"
  by (rule find_pair [OF strict_axioms(2) dimension_axioms(1) assms])
    (use assms in \<open>simp_all add: rope_offset_utf16_to_offset_def conversion_simps\<close>)

lemma rope_from_point:
  assumes "rope_ok r" "rope_str r = p @ q"
  shows "rope_point_to_offset r (position p) = str_len p"
    and "rope_point_to_point_utf16 r (position p) = position_utf16 p"
    and "node_height r < STACK_CAPACITY \<Longrightarrow> rope_point_to_offset_utf16 r (position p) = Some (OffsetUtf16 (str_len_utf16 p))"
  subgoal by (rule find_pair [OF strict_axioms(3) dimension_axioms(1) assms])
      (use assms in \<open>simp_all add: rope_point_to_offset_def conversion_simps\<close>)
  subgoal by (rule find_pair [OF strict_axioms(3) dimension_axioms(4) assms])
      (use assms in \<open>simp_all add: rope_point_to_point_utf16_def conversion_simps\<close>)
  subgoal by (rule seek_pair [OF strict_axioms(3) dimension_axioms(2) assms(1) _ assms(2)])
      (use assms in \<open>simp_all add: rope_point_to_offset_utf16_def conversion_simps\<close>)
  done

lemma rope_from_point_utf16:
  assumes "rope_ok r" "rope_str r = p @ q"
  shows "point_utf16_to_offset_impl r (position_utf16 p) clip = Some (str_len p)"
    and "rope_unclipped_point_utf16_to_point r (Unclipped (position_utf16 p)) = Some (position p)"
    and "node_height r < STACK_CAPACITY \<Longrightarrow> rope_point_utf16_to_point r (position_utf16 p) = Some (position p)"
    and "node_height r < STACK_CAPACITY \<Longrightarrow> point_utf16_to_offset_utf16_impl r (position_utf16 p) clip = Some (OffsetUtf16 (str_len_utf16 p))"
  subgoal by (rule find_pair [OF strict_axioms(4) dimension_axioms(1) assms])
      (use assms in \<open>simp_all add: point_utf16_to_offset_impl_def conversion_simps\<close>)
  subgoal by (rule find_pair [OF strict_axioms(4) dimension_axioms(3) assms])
      (use assms in \<open>simp_all add: rope_unclipped_point_utf16_to_point_def conversion_simps\<close>)
  subgoal by (rule seek_pair [OF strict_axioms(4) dimension_axioms(3) assms(1) _ assms(2)])
      (use assms in \<open>simp_all add: rope_point_utf16_to_point_def conversion_simps\<close>)
  subgoal by (rule seek_pair [OF strict_axioms(4) dimension_axioms(2) assms(1) _ assms(2)])
      (use assms in \<open>simp_all add: point_utf16_to_offset_utf16_impl_def conversion_simps\<close>)
  done

section \<open>Clipping\<close>

context seek_dimension
begin

lemma find_right:
  assumes "rope_ok r"
  obtains (beyond) e where "tree_find dim (\<lambda>d. cmp k (key d)) Right r = (e, e, None)"
      "rope_str r = [] \<or> key (measure (rope_str r)) \<le> k"
    | (inside) x s y e where "rope_str r = x @ s @ y" "s \<noteq> []" "str_len s \<le> 128" "valid_str s"
      "tree_find dim (\<lambda>d. cmp k (key d)) Right r = (measure x, e, Some (chunk_of s))"
      "x = [] \<or> key (measure x) \<le> k" "k < key (measure (x @ s))"
proof -
  obtain a b where ab: "tree_items r = a @ b"
    "tree_find dim (\<lambda>d. cmp k (key d)) Right r = (measure (text_of a), measure (text_of (a @ take 1 b)), first_opt b)"
    "a \<noteq> [] \<Longrightarrow> key (measure (text_of a)) \<le> k"
    "b \<noteq> [] \<Longrightarrow> k < key (measure (text_of (a @ [hd b])))"
    using rope_find [OF assms, where x = k and bias = Right] unfolding reached_def by (auto simp: not_le)
  show thesis
  proof (cases b)
    case Nil
    then show thesis using beyond [of "measure (text_of a)"] ab by (cases "a = []") (simp_all add: rope_str_def first_opt_def)
  next
    case (Cons c b')
    then obtain s where s: "c = chunk_of s" "s \<noteq> []" "str_len s \<le> MAX_BASE" "valid_str s"
      using rope_okD(2) [OF assms] ab(1) by (auto elim: chunk_okE)
    have "text_of a = [] \<or> key (measure (text_of a)) \<le> k" using ab(3) by (cases "a = []") auto
    then show thesis
      by (intro inside [of "text_of a" s "text_of b'" "measure (text_of (a @ [c]))"])
        (use ab s Cons in \<open>simp_all add: rope_str_def first_opt_def MAX_BASE_def\<close>)
  qed
qed

end

lemma rope_clip_anywhere:
  assumes "rope_ok r"
  shows "grapheme_ends is_grapheme \<Longrightarrow> \<exists>p q. rope_str r = p @ q \<and> rope_clip_point is_grapheme r pt bias = Some (position p)"
    and "\<exists>p q. rope_str r = p @ q \<and> rope_clip_point_utf16 r (Unclipped pt16) bias = Some (position_utf16 p)"
    and "\<exists>p q. rope_str r = p @ q \<and> rope_clip_offset_utf16 r (OffsetUtf16 n) bias = Some (OffsetUtf16 (str_len_utf16 p))"
proof -
  note summary = rope_summary_spec [OF assms] summary_positions
  show "\<exists>p q. rope_str r = p @ q \<and> rope_clip_point is_grapheme r pt bias = Some (position p)" if "grapheme_ends is_grapheme"
  proof (rule points.find_right [OF assms, of pt])
    fix x s y e assume f: "rope_str r = x @ s @ y" "str_len s \<le> 128" "valid_str s" "tree_find point_dim (cmp pt) Right r = (position x, e, Some (chunk_of s))"
    from clip_anywhere(1) [OF f(2,3) that, of "point_sub pt (position x)" bias] obtain p q where
      p: "s = p @ q" "clip_point is_grapheme (slice_of s) (point_sub pt (position x)) bias = Some (position p)" by blast
    then have "rope_clip_point is_grapheme r pt bias = Some (position (x @ p))"
      using f(2,4) by (simp add: rope_clip_point_def position_add)
    moreover have "rope_str r = (x @ p) @ (q @ y)" using f(1) p(1) by simp
    ultimately show ?thesis by blast
  qed (rule exI [of _ "rope_str r"], rule exI [of _ "[]"], simp add: rope_clip_point_def summary)
  show "\<exists>p q. rope_str r = p @ q \<and> rope_clip_point_utf16 r (Unclipped pt16) bias = Some (position_utf16 p)"
  proof (rule points16.find_right [OF assms, of pt16])
    fix x s y e assume f: "rope_str r = x @ s @ y" "str_len s \<le> 128" "valid_str s"
      "tree_find point_utf16_dim (cmp pt16) Right r = (position_utf16 x, e, Some (chunk_of s))"
    have "grapheme_ends (\<lambda>t i. i = 0 \<or> i = str_len t)" by (simp add: grapheme_ends_def)
    from clip_anywhere(2) [OF f(2,3) this, of "point_utf16_sub pt16 (position_utf16 x)" bias] obtain p q where
      p: "s = p @ q" "clip_point_utf16 (slice_of s) (Unclipped (point_utf16_sub pt16 (position_utf16 x))) bias = Some (position_utf16 p)" by blast
    then have "rope_clip_point_utf16 r (Unclipped pt16) bias = Some (position_utf16 (x @ p))"
      using f(2,4) by (simp add: rope_clip_point_utf16_def position_add)
    moreover have "rope_str r = (x @ p) @ (q @ y)" using f(1) p(1) by simp
    ultimately show ?thesis by blast
  qed (rule exI [of _ "rope_str r"], rule exI [of _ "[]"], simp add: rope_clip_point_utf16_def summary)
  show "\<exists>p q. rope_str r = p @ q \<and> rope_clip_offset_utf16 r (OffsetUtf16 n) bias = Some (OffsetUtf16 (str_len_utf16 p))"
  proof (rule utf16.find_right [OF assms, of "OffsetUtf16 n"])
    fix x s y e assume f: "rope_str r = x @ s @ y" "str_len s \<le> 128" "valid_str s"
      "tree_find offset_utf16_dim (cmp (OffsetUtf16 n)) Right r = (OffsetUtf16 (str_len_utf16 x), e, Some (chunk_of s))"
    obtain p q where p: "s = p @ q" "clip_offset_utf16 (slice_of s) (offset_utf16_sub (OffsetUtf16 n) (OffsetUtf16 (str_len_utf16 x))) bias
        = Some (OffsetUtf16 (str_len_utf16 p))"
      by (rule clip_offset_utf16_cases [OF f(2)]) (auto simp: offset_utf16_sub_def)
    then have "rope_clip_offset_utf16 r (OffsetUtf16 n) bias = Some (OffsetUtf16 (str_len_utf16 (x @ p)))"
      using f(4) by (simp add: rope_clip_offset_utf16_def)
    moreover have "rope_str r = (x @ p) @ (q @ y)" using f(1) p(1) by simp
    ultimately show ?thesis by blast
  qed (rule exI [of _ "rope_str r"], rule exI [of _ "[]"], simp add: rope_clip_offset_utf16_def summary)
qed

text \<open>Clipping in UTF-16 leaves a character boundary where it is.\<close>

lemma rope_clip_stays:
  assumes "rope_ok r" "rope_str r = p @ q"
  shows "rope_clip_point_utf16 r (Unclipped (position_utf16 p)) bias = Some (position_utf16 p)"
    and "rope_clip_offset_utf16 r (OffsetUtf16 (str_len_utf16 p)) bias = Some (OffsetUtf16 (str_len_utf16 p))"
proof -
  note summary = rope_summary_spec [OF assms(1)] summary_positions
  have len: "str_len (p @ q) < 2 ^ 32" using rope_fits_text [OF assms(1)] assms(2) by simp
  show "rope_clip_point_utf16 r (Unclipped (position_utf16 p)) bias = Some (position_utf16 p)"
  proof (rule points16.find_right [OF assms(1), of "position_utf16 p"])
    fix e assume e: "tree_find point_utf16_dim (cmp (position_utf16 p)) Right r = (e, e, None)"
      "rope_str r = [] \<or> position_utf16 (rope_str r) \<le> position_utf16 p"
    then have "q = []" using points16.key_less [of q p] len assms(2) by (cases "q = []") (auto simp: not_less)
    then show ?thesis using e(1) assms(2) by (simp add: rope_clip_point_utf16_def summary)
  next
    fix x s y e assume f: "rope_str r = x @ s @ y" "str_len s \<le> 128" "x = [] \<or> position_utf16 x \<le> position_utf16 p"
      "position_utf16 p < position_utf16 (x @ s)"
      "tree_find point_utf16_dim (cmp (position_utf16 p)) Right r = (position_utf16 x, e, Some (chunk_of s))"
    obtain p' s' where p': "p = x @ p'" "s = p' @ s'" by (rule points16.part_found [OF assms f(1,3,4)])
    then show ?thesis using f len by (simp add: rope_clip_point_utf16_def position_sub utf16_of_position position_add)
  qed
  show "rope_clip_offset_utf16 r (OffsetUtf16 (str_len_utf16 p)) bias = Some (OffsetUtf16 (str_len_utf16 p))"
  proof (rule utf16.find_right [OF assms(1), of "OffsetUtf16 (str_len_utf16 p)"])
    fix e assume e: "tree_find offset_utf16_dim (cmp (OffsetUtf16 (str_len_utf16 p))) Right r = (e, e, None)"
      "rope_str r = [] \<or> OffsetUtf16 (str_len_utf16 (rope_str r)) \<le> OffsetUtf16 (str_len_utf16 p)"
    then have "q = []" using utf16.key_less [of q p] len assms(2) by (cases "q = []") (auto simp: not_less)
    then show ?thesis using e(1) assms(2) by (simp add: rope_clip_offset_utf16_def summary)
  next
    fix x s y e assume f: "rope_str r = x @ s @ y" "str_len s \<le> 128" "x = [] \<or> OffsetUtf16 (str_len_utf16 x) \<le> OffsetUtf16 (str_len_utf16 p)"
      "OffsetUtf16 (str_len_utf16 p) < OffsetUtf16 (str_len_utf16 (x @ s))"
      "tree_find offset_utf16_dim (cmp (OffsetUtf16 (str_len_utf16 p))) Right r = (OffsetUtf16 (str_len_utf16 x), e, Some (chunk_of s))"
    obtain p' s' where p': "p = x @ p'" "s = p' @ s'" by (rule utf16.part_found [OF assms f(1,3,4)])
    have "clip_offset_utf16 (slice_of s) (OffsetUtf16 (str_len_utf16 p')) bias = Some (OffsetUtf16 (str_len_utf16 p'))"
      by (rule clip_offset_utf16_cases [OF f(2), of "str_len_utf16 p'" bias]) (use p' in metis)
    then show ?thesis using f(5) p' by (simp add: rope_clip_offset_utf16_def)
  qed
qed

section \<open>Rows\<close>

lemma rows_newline: "rows (s @ newline # t) = Suc (rows s + rows t)"
proof -
  have "split_lines (newline # t) = [] # split_lines t" by simp
  then have "rows (newline # t) = Suc (rows t)" using split_lines_not_Nil [of t] by (simp add: rows_def)
  then show ?thesis by (simp add: rows_append)
qed

lemma row_end_unique:
  assumes "u @ v = u' @ v'" "rows u = rows u'" "line_end v" "line_end v'"
  shows "u = u'"
proof -
  have no: False if w: "s' = s @ w" "w \<noteq> []" "t = w @ t'" "line_end t" "rows s = rows s'" for s s' t t' w
  proof -
    obtain w' where "w = newline # w'" using w(2-4) by (cases w) (auto simp: line_end_def)
    then show False using w(1,5) rows_newline [of s w'] by simp
  qed
  from assms(1) consider w where "u = u' @ w" "w @ v = v'" | w where "u @ w = u'" "v = w @ v'"
    by (auto simp: append_eq_append_conv2)
  then show ?thesis
  proof cases
    case 1
    then show ?thesis using no [of u u' w v' v] assms by (cases "w = []") (auto simp: eq_commute)
  next
    case 2
    then show ?thesis using no [of u' u w v v'] assms by (cases "w = []") auto
  qed
qed

lemma nth_line:
  assumes "line_start p" "newline \<notin> set l" "line_end q"
  shows "split_lines (p @ l @ q) ! rows p = l"
proof -
  have "last_line p = []" using assms(1) by (cases p rule: rev_cases) (auto simp: line_start_def last_line_def split_lines_snoc)
  moreover have "hd (split_lines (l @ q)) = l"
    using assms(2,3) split_lines_line [of l] by (cases q) (auto simp: line_end_def split_lines_newline)
  moreover have "split_lines (l @ q) \<noteq> []" by (rule split_lines_not_Nil)
  ultimately show ?thesis using split_lines_not_Nil [of p]
    by (simp add: split_lines_append rows_def last_line_def nth_append)
qed

lemma clip_point_line_end:
  assumes "str_len (p @ l @ q) \<le> 128" "line_start p" "newline \<notin> set l" "line_end q" "of_nat (str_len l) \<le> col"
  shows "clip_point is_grapheme (slice_of (p @ l @ q)) (Point (of_nat (rows p)) col) bias = Some (position (p @ l))"
proof -
  have "(of_nat (str_len l) :: u32) = 0 \<longleftrightarrow> str_len l = 0" using assms(1) by (intro of_nat_u32(3)) simp
  then have "col = 0 \<Longrightarrow> str_len l = 0" using assms(5) by auto
  then show ?thesis
    using row_not_beyond [OF assms(1)] slice_text_part [OF assms(1)] assms(5) position_in_row(1) [OF assms(2), of l "[]"] assms(3)
    by (auto simp: clip_point_def row_range [OF assms(1-4)] Let_def slice_len_def)
qed

lemma below_top:
  assumes "m + n < 2 ^ 32"
  shows "(of_nat m :: u32) \<le> (if b then - 1 - of_nat n else - 1)"
proof -
  have top: "unat (- 1 :: u32) = 2 ^ 32 - 1" by (simp add: unat_eq_nat_uint uint_word_ariths)
  then have "unat (- 1 - of_nat n :: u32) = 2 ^ 32 - 1 - n" using assms by (subst unat_sub) simp_all
  then show ?thesis using assms top by (auto simp: word_le_nat_alt)
qed

lemma rope_row_end:
  assumes "rope_ok r" "rope_str r = p @ l @ q" "line_start p" "newline \<notin> set l" "line_end q"
  shows "rope_clip_point is_grapheme r (Point (of_nat (rows p)) (- 1)) bias = Some (position (p @ l))"
proof -
  let ?k = "Point (of_nat (rows p)) (- 1)"
  have len: "str_len (rope_str r) < 2 ^ 32" by (rule rope_fits_text [OF assms(1)])
  have rp: "rows (p @ l) = rows p" by (rule line_position(2) [OF assms(3,4)])
  have bound: "rows u < 2 ^ 32" if "rope_str r = u @ v" for u v using rows_le_str_len [of u] len that by simp
  have top: "\<not> unat (- 1 :: u32) < unat w" for w :: u32 by (simp add: not_less flip: word_le_nat_alt)
  have le: "position u \<le> ?k \<longleftrightarrow> rows u \<le> rows p" if "rope_str r = u @ v" for u v
    using bound [OF that] bound [of p "l @ q"] assms(2) top
    by (auto simp: less_eq_point_def pt.compare_order position_def word_less_nat_alt word_unat_eq_iff)
  show ?thesis
  proof (rule points.find_right [OF assms(1), of ?k])
    fix e assume e: "tree_find point_dim (cmp ?k) Right r = (e, e, None)" "rope_str r = [] \<or> position (rope_str r) \<le> ?k"
    then have "rows (rope_str r) \<le> rows p" using le [of "rope_str r" "[]"] assms(2) by auto
    then have "q = []" using assms(2,5) rp rows_newline [of "p @ l" "tl q"] by (cases q) (auto simp: line_end_def)
    then show ?thesis using e(1) assms(2) by (simp add: rope_clip_point_def rope_summary_spec [OF assms(1)] summary_positions)
  next
    fix x s y e assume f: "rope_str r = x @ s @ y" "str_len s \<le> 128" "x = [] \<or> position x \<le> ?k" "?k < position (x @ s)"
      "tree_find point_dim (cmp ?k) Right r = (position x, e, Some (chunk_of s))"
    have x: "rows x \<le> rows p" using f(1,3) le [of x "s @ y"] rows_le_str_len [of "[]"] by auto
    have xs: "rows p < rows (x @ s)" using f(1,4) le [of "x @ s" y] by auto
    then have "rows p - rows x \<le> rows s" using rows_append [of x s] by simp
    then obtain p0 l0 q0 where s: "s = p0 @ l0 @ q0" "line_start p0" "newline \<notin> set l0" "line_end q0" "rows p0 = rows p - rows x"
      by (rule row_split)
    have "rows (p0 @ l0) = rows p0" by (rule line_position(2) [OF s(2,3)])
    then have r0: "rows (x @ p0 @ l0) = rows p" using s(5) x rows_append [of x "p0 @ l0"] by simp
    then have "q0 \<noteq> []" using xs s(1) by auto
    then have "line_end (q0 @ y)" using s(4) by (simp add: line_end_def)
    then have u: "p @ l = x @ p0 @ l0" using row_end_unique [of "p @ l" q "x @ p0 @ l0" "q0 @ y"] assms(2,5) f(1) s(1) r0 rp by simp
    let ?o = "point_sub ?k (position x)"
    have "?o = Point (of_nat (rows p0)) (if rows x = rows p then - 1 - of_nat (str_len (last_line x)) else - 1)"
      using x s(5) bound [of x "s @ y"] f(1) bound [of p "l @ q"] assms(2)
      by (auto simp: point_sub_def position_def of_nat_diff word_unat_eq_iff)
    moreover have "(of_nat (str_len l0) :: u32) \<le> (if rows x = rows p then - 1 - of_nat (str_len (last_line x)) else - 1)"
      using last_line_le(1) [of x] len f(1) s(1) by (intro below_top) simp
    ultimately have "clip_point is_grapheme (slice_of s) ?o bias = Some (position (p0 @ l0))"
      using clip_point_line_end [of p0 l0 q0] f(2) s by simp
    then show ?thesis using f(2,5) s(1) u by (simp add: rope_clip_point_def position_add)
  qed
qed

lemma line_len_ok:
  assumes "rope_ok r" "row \<le> rows (rope_str r)"
  shows "line_len is_grapheme r (of_nat row) = Some (of_nat (str_len (split_lines (rope_str r) ! row)))"
proof -
  obtain p l q where s: "rope_str r = p @ l @ q" "line_start p" "newline \<notin> set l" "line_end q" "rows p = row"
    using assms(2) by (rule row_split)
  then show ?thesis using rope_row_end [OF assms(1) s(1-4)] nth_line [OF s(2-4)] position_in_row(1) [OF s(2), of l "[]"]
    by (simp add: line_len_def)
qed

text \<open>The text of the first rows, each with its newline.\<close>

fun first_rows :: "nat \<Rightarrow> rstr \<Rightarrow> rstr" where
  "first_rows 0 s = []"
| "first_rows (Suc n) [] = []"
| "first_rows (Suc n) (c # s) = c # first_rows (if c = newline then n else Suc n) s"

lemma rows_Nil: "rows [] = 0"
  by (simp add: rows_def)

lemma rows_Cons: "rows (c # s) = (if c = newline then Suc (rows s) else rows s)"
  using split_lines_not_Nil [of s] by (auto simp: rows_def split: list.splits)

lemma first_rows_all: "rows s < n \<Longrightarrow> first_rows n s = s"
  by (induction n s rule: first_rows.induct) (auto simp: rows_Cons split: if_splits)

lemma first_rows_start: "n \<le> rows s \<Longrightarrow> rows (first_rows n s) = n \<and> line_start (first_rows n s)"
proof (induction n s rule: first_rows.induct)
  case (3 n c s)
  then show ?case
    by (cases "c = newline"; cases "first_rows (if c = newline then n else Suc n) s") (auto simp: rows_Nil rows_Cons line_start_def)
qed (simp_all add: rows_Nil line_start_def)

lemma first_rows_prefix: "m \<le> n \<Longrightarrow> \<exists>t. first_rows n s = first_rows m s @ t"
proof (induction m s arbitrary: n rule: first_rows.induct)
  case (3 m c s)
  then obtain n' where "n = Suc n'" by (cases n) auto
  with 3 show ?case by auto
qed simp_all

lemma first_rows_split: "\<exists>t. s = first_rows n s @ t"
  using first_rows_prefix [of n "max n (Suc (rows s))" s] first_rows_all [of s "max n (Suc (rows s))"] by simp

lemma row_offset:
  assumes "rope_ok r" "row < 2 ^ 32"
  shows "rope_point_to_offset r (Point (of_nat row) 0) = str_len (first_rows row (rope_str r))"
proof (cases "row \<le> rows (rope_str r)")
  case True
  obtain t where t: "rope_str r = first_rows row (rope_str r) @ t" using first_rows_split by blast
  have "position (first_rows row (rope_str r)) = Point (of_nat row) 0"
    using first_rows_start [OF True] position_in_row(1) [of "first_rows row (rope_str r)" "[]" "[]"] by simp
  then show ?thesis using rope_from_point(1) [OF assms(1) t] by simp
next
  case False
  then have "position (rope_str r) \<le> Point (of_nat row) 0"
    using assms(2) by (auto simp: less_eq_point_def pt.compare_order position_def word_unat_eq_iff)
  then show ?thesis using False by (simp add: rope_point_to_offset_def rope_summary_spec [OF assms(1)] summary_positions first_rows_all)
qed

lemma slice_rows_ok:
  assumes "packages_spec pk" "rope_ok r" "node_height r + 4 < STACK_CAPACITY" "a \<le> b" "b < 2 ^ 32"
  shows "\<exists>q. slice_rows pk r (of_nat a) (of_nat b) = Some q \<and> rope_ok q
    \<and> first_rows b (rope_str r) = first_rows a (rope_str r) @ rope_str q"
proof -
  obtain y z where y: "first_rows b (rope_str r) = first_rows a (rope_str r) @ y" "rope_str r = first_rows b (rope_str r) @ z"
    using first_rows_prefix [OF assms(4)] first_rows_split by blast
  then have "rope_str r = first_rows a (rope_str r) @ y @ z" by simp
  from rope_slice_ok [OF assms(1-3) this] y(1) show ?thesis
    using row_offset [OF assms(2,5)] row_offset [OF assms(2), of a] assms(4,5) by (auto simp: slice_rows_def)
qed

section \<open>Coordinates of the whole text\<close>

text \<open>
  C5: at every character boundary of a rope, all coordinates agree with the text before it. The
  conversions between byte offsets, UTF-16 offsets, points and UTF-16 points take the coordinate of
  a prefix to the other coordinates of the same prefix, wherever the chunks happen to be cut, also
  at the end of the text.
\<close>

theorem rope_conversions:
  assumes "rope_ok r" "node_height r < STACK_CAPACITY" "rope_str r = p @ q"
  shows "rope_offset_to_offset_utf16 r (str_len p) = OffsetUtf16 (str_len_utf16 p)
    \<and> rope_offset_utf16_to_offset r (OffsetUtf16 (str_len_utf16 p)) = str_len p
    \<and> rope_offset_to_point r (str_len p) = position p
    \<and> rope_point_to_offset r (position p) = str_len p
    \<and> rope_offset_to_point_utf16 r (str_len p) = position_utf16 p
    \<and> rope_point_utf16_to_offset r (position_utf16 p) = Some (str_len p)
    \<and> unclipped_point_utf16_to_offset r (Unclipped (position_utf16 p)) = Some (str_len p)
    \<and> rope_point_to_offset_utf16 r (position p) = Some (OffsetUtf16 (str_len_utf16 p))
    \<and> rope_point_utf16_to_offset_utf16 r (position_utf16 p) = Some (OffsetUtf16 (str_len_utf16 p))
    \<and> rope_point_to_point_utf16 r (position p) = position_utf16 p
    \<and> rope_point_utf16_to_point r (position_utf16 p) = Some (position p)
    \<and> rope_unclipped_point_utf16_to_point r (Unclipped (position_utf16 p)) = Some (position p)"
  using rope_from_offset [OF assms(1,3)] rope_from_offset_utf16 [OF assms(1,3)] rope_from_point [OF assms(1,3)]
    rope_from_point_utf16 [OF assms(1,3)] assms(2)
  by (simp add: rope_point_utf16_to_offset_def unclipped_point_utf16_to_offset_def rope_point_utf16_to_offset_utf16_def)

theorem rope_conversions_witness:
  "\<exists>r. push_chunk sequential_packages rope_new (slice_of [97, newline, 128512, 98]) = Some r
    \<and> rope_offset_to_point r 6 = Point 1 4 \<and> rope_point_to_offset_utf16 r (Point 1 4) = Some (OffsetUtf16 4)"
proof -
  have v: "valid_str [97, newline, 128512, 98]" "str_len [97, newline, 128512, 98] = 7" "str_len [97, newline, 128512] = 6"
    "position [97, newline, 128512] = Point 1 4" "str_len_utf16 [97, newline, 128512] = 4"
    by (simp_all add: len_utf8_def newline_def position_def rows_def last_line_def str_len_utf16_def len_utf16_def)
  obtain r where r: "push_chunk sequential_packages rope_new (slice_of [97, newline, 128512, 98]) = Some r" "rope_ok r"
    "rope_str r = [97, newline, 128512, 98]" "node_height r \<le> 1" by (rule small_rope [of "[97, newline, 128512, 98]"]) (use v in auto)
  then have "node_height r < STACK_CAPACITY" "rope_str r = [97, newline, 128512] @ [98]" by (simp_all add: STACK_CAPACITY_def)
  from rope_conversions [OF r(2) this] r(1) v show ?thesis by auto
qed

text \<open>
  C24: the character boundaries of a rope are those of its text, at every offset: \<open>is_char_boundary\<close>
  decides them, \<open>assert_char_boundary\<close> panics or returns \<open>false\<close> exactly elsewhere, and
  \<open>clip_offset\<close> rounds an offset down or up to the nearest one. Clipping of a point, a
  UTF-16 point and a UTF-16 offset always ends at a boundary, and in UTF-16 leaves a boundary as it is.
\<close>

theorem rope_boundaries:
  assumes "rope_ok r" "grapheme_ends is_grapheme"
  shows "(rope_is_char_boundary r i \<longleftrightarrow> str_is_char_boundary (rope_str r) i)
    \<and> rope_assert_char_boundary PANIC r i = (if str_is_char_boundary (rope_str r) i then Some True else if PANIC then None else Some False)
    \<and> rope_clip_offset r i Left = str_floor_char_boundary (rope_str r) i
    \<and> rope_clip_offset r i Right = str_ceil_char_boundary (rope_str r) i
    \<and> (\<exists>p q. rope_str r = p @ q \<and> rope_clip_point is_grapheme r pt bias = Some (position p))
    \<and> (\<exists>p q. rope_str r = p @ q \<and> rope_clip_point_utf16 r (Unclipped pt16) bias = Some (position_utf16 p))
    \<and> (\<exists>p q. rope_str r = p @ q \<and> rope_clip_offset_utf16 r (OffsetUtf16 n) bias = Some (OffsetUtf16 (str_len_utf16 p)))
    \<and> (\<forall>p q. rope_str r = p @ q \<longrightarrow> rope_clip_point_utf16 r (Unclipped (position_utf16 p)) bias = Some (position_utf16 p)
        \<and> rope_clip_offset_utf16 r (OffsetUtf16 (str_len_utf16 p)) bias = Some (OffsetUtf16 (str_len_utf16 p)))"
  using rope_boundary_eq [OF assms(1), where i = i] rope_clip_offset_eq [OF assms(1), of i] rope_clip_anywhere [OF assms(1)]
    rope_clip_stays [OF assms(1)] assms(2)
  by (simp add: rope_clip_offset_def)

theorem rope_boundaries_witness:
  "\<exists>r. push_chunk sequential_packages rope_new (slice_of [97, 128512]) = Some r \<and> \<not> rope_is_char_boundary r 2
    \<and> rope_assert_char_boundary True r 2 = None \<and> rope_clip_offset r 2 Left = 1"
proof -
  have v: "valid_str [97, 128512]" "str_len [97, 128512] = 5" by (simp_all add: len_utf8_def)
  have b: "\<not> str_is_char_boundary [97, 128512] 2" and "str_is_char_boundary [97, 128512] 1"
    by (simp_all add: str_is_char_boundary_def len_utf8_def numeral_2_eq_2)
  then have f: "str_floor_char_boundary [97, 128512] 2 = 1"
    using v by (simp add: str_floor_char_boundary_def back_to_boundary.simps [of _ 2])
  obtain r where r: "push_chunk sequential_packages rope_new (slice_of [97, 128512]) = Some r" "rope_ok r" "rope_str r = [97, 128512]"
    by (rule small_rope [of "[97, 128512]"]) (use v in auto)
  have "grapheme_ends (\<lambda>t i. i = 0 \<or> i = str_len t)" by (simp add: grapheme_ends_def)
  from rope_boundaries [OF r(2) this, of 2 True] r b f show ?thesis by auto
qed

text \<open>
  C30: rows. \<open>line_len\<close> returns the number of bytes of a row without its newline, and
  \<open>slice_rows\<close> the text between the starts of two rows, where a row past the end starts
  at the end of the text.
\<close>

theorem rope_rows:
  assumes "packages_spec pk" "rope_ok r" "node_height r + 4 < STACK_CAPACITY" "row \<le> rows (rope_str r)" "a \<le> b" "b < 2 ^ 32"
  shows "line_len is_grapheme r (of_nat row) = Some (of_nat (str_len (split_lines (rope_str r) ! row)))
    \<and> (\<exists>q. slice_rows pk r (of_nat a) (of_nat b) = Some q \<and> rope_ok q
        \<and> first_rows b (rope_str r) = first_rows a (rope_str r) @ rope_str q)"
  using line_len_ok [OF assms(2,4)] slice_rows_ok [OF assms(1-3,5,6)] by simp

theorem rope_rows_witness:
  "\<exists>r q. push_chunk sequential_packages rope_new (slice_of [97, newline, 98, 233, newline, 99]) = Some r
    \<and> line_len (\<lambda>_ _. True) r 1 = Some 3 \<and> slice_rows sequential_packages r 1 7 = Some q \<and> rope_str q = [98, 233, newline, 99]"
proof -
  let ?s = "[97, newline, 98, 233, newline, 99]"
  have v: "valid_str ?s" "str_len ?s = 7" "rows ?s = 2" "split_lines ?s ! 1 = [98, 233]" "str_len [98, 233] = 3" "first_rows 1 ?s = [97, newline]"
    by (simp_all add: len_utf8_def newline_def rows_def)
  then have "first_rows 7 ?s = ?s" by (simp add: first_rows_all del: first_rows.simps)
  obtain r where r: "push_chunk sequential_packages rope_new (slice_of ?s) = Some r" "rope_ok r" "rope_str r = ?s" "node_height r \<le> 1"
    by (rule small_rope [of ?s]) (use v in auto)
  have h: "node_height r + 4 < STACK_CAPACITY" "1 \<le> rows (rope_str r)" "(1::nat) \<le> 7" "(7::nat) < 2 ^ 32"
    using r(3,4) v by (simp_all add: STACK_CAPACITY_def)
  from rope_rows [OF sequential_packages_ok r(2) h, of "\<lambda>_ _. True"] r(1,3) v \<open>first_rows 7 ?s = ?s\<close> show ?thesis by auto
qed

end
