(* ===== verification/RopeIter.thy ===== *)
theory RopeIter
  imports RopeCoords
begin

text \<open>
  The iterators of a rope (\<open>crates/rope/src/rope.rs\<close>): \<open>Chunks\<close> over the pieces of a range in both
  directions, with its moves by lines, \<open>Bytes\<close>, \<open>Lines\<close>, and the comparisons with a string.
\<close>

section \<open>Strings\<close>

fun str_find :: "rchar \<Rightarrow> rstr \<Rightarrow> nat option" where
  "str_find x [] = None"
| "str_find x (c # s) = (if c = x then Some 0 else map_option (\<lambda>i. len_utf8 c + i) (str_find x s))"

fun str_rfind :: "rchar \<Rightarrow> rstr \<Rightarrow> nat option" where
  "str_rfind x [] = None"
| "str_rfind x (c # s) =
     (case str_rfind x s of Some i \<Rightarrow> Some (len_utf8 c + i) | None \<Rightarrow> if c = x then Some 0 else None)"

definition str_starts_with :: "rstr \<Rightarrow> rstr \<Rightarrow> bool" where
  "str_starts_with s pat \<longleftrightarrow> take (length pat) s = pat"

definition str_ends_with :: "rstr \<Rightarrow> rstr \<Rightarrow> bool" where
  "str_ends_with s pat \<longleftrightarrow> str_starts_with (rev s) (rev pat)"

section \<open>Chunks\<close>

record rope_chunks =
  ch_chunks :: "(chunk, chunk_summary, nat) cursor"
  ch_start :: nat
  ch_end :: nat
  ch_offset :: nat
  ch_reversed :: bool

definition chunks_new :: "rope \<Rightarrow> nat \<Rightarrow> nat \<Rightarrow> bool \<Rightarrow> rope_chunks rust" where
  "chunks_new rope range_start range_end reversed = do {
     let chunks = cursor_new usize_dim rope;
     (chunks, offset) \<leftarrow>
       (if reversed then do { (_, chunks) \<leftarrow> cursor_seek usize_dim (cmp range_end) Left chunks; Some (chunks, range_end) }
        else do { (_, chunks) \<leftarrow> cursor_seek usize_dim (cmp range_start) Right chunks; Some (chunks, range_start) });
     let chunk_offset = usize_sub offset (c_position chunks);
     item \<leftarrow> cursor_item chunks;
     _ \<leftarrow> (case item of None \<Rightarrow> Some True | Some chunk \<Rightarrow> chunk_assert_char_boundary True chunk chunk_offset);
     Some \<lparr>ch_chunks = chunks, ch_start = range_start, ch_end = range_end, ch_offset = offset, ch_reversed = reversed\<rparr>
   }"

definition offset_is_valid :: "rope_chunks \<Rightarrow> bool" where
  "offset_is_valid self =
     (if ch_reversed self
      then if ch_offset self \<le> ch_start self \<or> ch_offset self > ch_end self then False else True
      else if ch_offset self < ch_start self \<or> ch_offset self \<ge> ch_end self then False else True)"

definition chunks_seek :: "rope_chunks \<Rightarrow> nat \<Rightarrow> rope_chunks rust" where
  "chunks_seek self offset = do {
     assert_that (ch_start self \<le> ch_end self);
     let offset = max (ch_start self) (min offset (ch_end self));
     chunks_end \<leftarrow> cursor_end usize_dim (ch_chunks self);
     chunks \<leftarrow>
       (if ch_reversed self then
          if offset > chunks_end then map_option snd (cursor_seek_forward usize_dim (cmp offset) Left (ch_chunks self))
          else if offset \<le> c_position (ch_chunks self) then map_option snd (cursor_seek usize_dim (cmp offset) Left (ch_chunks self))
          else Some (ch_chunks self)
        else
          if offset \<ge> chunks_end then map_option snd (cursor_seek_forward usize_dim (cmp offset) Right (ch_chunks self))
          else if offset < c_position (ch_chunks self) then map_option snd (cursor_seek usize_dim (cmp offset) Right (ch_chunks self))
          else Some (ch_chunks self));
     Some (self\<lparr>ch_chunks := chunks, ch_offset := offset\<rparr>)
   }"

definition set_range :: "rope_chunks \<Rightarrow> nat \<Rightarrow> nat \<Rightarrow> rope_chunks rust" where
  "set_range self range_start range_end = chunks_seek (self\<lparr>ch_start := range_start, ch_end := range_end\<rparr>) range_start"

definition chunks_slice_range :: "rope_chunks \<Rightarrow> (nat \<times> nat) rust" where
  "chunks_slice_range self = do {
     let chunk_start = c_position (ch_chunks self);
     if ch_reversed self then do {
       let slice_start = usize_sub (max chunk_start (ch_start self)) chunk_start;
       let slice_end = usize_sub (ch_offset self) chunk_start;
       Some (slice_start, slice_end)
     } else do {
       let slice_start = usize_sub (ch_offset self) chunk_start;
       chunks_end \<leftarrow> cursor_end usize_dim (ch_chunks self);
       let slice_end = usize_sub (min chunks_end (ch_end self)) chunk_start;
       Some (slice_start, slice_end)
     }
   }"

definition chunks_peek :: "rope_chunks \<Rightarrow> rstr option rust" where
  "chunks_peek self =
     (if \<not> offset_is_valid self then Some None
      else do {
        item \<leftarrow> cursor_item (ch_chunks self);
        (case item of
           None \<Rightarrow> Some None
         | Some chunk \<Rightarrow> do {
             (slice_start, slice_end) \<leftarrow> chunks_slice_range self;
             map_option Some (str_slice (ck_text chunk) slice_start slice_end) })
      })"

text \<open>The step of both iterators over pieces: the offset moves by the length of the piece.\<close>

definition chunks_advance :: "rope_chunks \<Rightarrow> nat \<Rightarrow> rope_chunks rust" where
  "chunks_advance self len =
     (if ch_reversed self then do {
        let self = self\<lparr>ch_offset := usize_sub (ch_offset self) len\<rparr>;
        if ch_offset self \<le> c_position (ch_chunks self)
        then do { chunks \<leftarrow> cursor_prev usize_dim (ch_chunks self); Some (self\<lparr>ch_chunks := chunks\<rparr>) }
        else Some self
      } else do {
        let self = self\<lparr>ch_offset := ch_offset self + len\<rparr>;
        chunks_end \<leftarrow> cursor_end usize_dim (ch_chunks self);
        if ch_offset self \<ge> chunks_end
        then do { chunks \<leftarrow> cursor_next usize_dim (ch_chunks self); Some (self\<lparr>ch_chunks := chunks\<rparr>) }
        else Some self
      })"

definition chunks_next :: "rope_chunks \<Rightarrow> (rstr option \<times> rope_chunks) rust" where
  "chunks_next self = do {
     chunk \<leftarrow> chunks_peek self;
     (case chunk of
        None \<Rightarrow> Some (None, self)
      | Some chunk \<Rightarrow> do { self \<leftarrow> chunks_advance self (str_len chunk); Some (Some chunk, self) })
   }"

record chunk_bitmaps =
  cb_text :: rstr
  cb_chars :: u128
  cb_tabs :: u128
  cb_newlines :: u128

definition peek_with_bitmaps :: "rope_chunks \<Rightarrow> chunk_bitmaps option rust" where
  "peek_with_bitmaps self =
     (if \<not> offset_is_valid self then Some None
      else do {
        item \<leftarrow> cursor_item (ch_chunks self);
        (case item of
           None \<Rightarrow> Some None
         | Some chunk \<Rightarrow> do {
             (slice_start, slice_end) \<leftarrow> chunks_slice_range self;
             slice_text \<leftarrow> str_slice (ck_text chunk) slice_start slice_end;
             Some (Some \<lparr>cb_text = slice_text, cb_chars = shr (ck_chars chunk) slice_start,
               cb_tabs = shr (ck_tabs chunk) slice_start, cb_newlines = shr (ck_newlines chunk) slice_start\<rparr>) })
      })"

definition bitmaps_next :: "rope_chunks \<Rightarrow> (chunk_bitmaps option \<times> rope_chunks) rust" where
  "bitmaps_next self = do {
     chunk \<leftarrow> peek_with_bitmaps self;
     (case chunk of
        None \<Rightarrow> Some (None, self)
      | Some chunk \<Rightarrow> do { self \<leftarrow> chunks_advance self (str_len (cb_text chunk)); Some (Some chunk, self) })
   }"

subsection \<open>Moving by lines\<close>

definition has_newline :: "chunk_summary \<Rightarrow> bool" where
  "has_newline summary \<longleftrightarrow> pt_row (ts_lines (cs_text summary)) > 0"

definition next_line :: "rope_chunks \<Rightarrow> (bool \<times> rope_chunks) rust" where
  "next_line self = do {
     assert_that (\<not> ch_reversed self);
     chunk \<leftarrow> chunks_peek self;
     (found, self) \<leftarrow>
       (case chunk of
          None \<Rightarrow> Some (False, self)
        | Some chunk \<Rightarrow> do {
            (found, self) \<leftarrow>
              (case str_find newline chunk of
                 Some newline_ix \<Rightarrow> do {
                   let self = self\<lparr>ch_offset := ch_offset self + (newline_ix + 1)\<rparr>;
                   Some (ch_offset self \<le> ch_end self, self) }
               | None \<Rightarrow> do {
                   chunks \<leftarrow> search_forward usize_dim has_newline (ch_chunks self);
                   let self = self\<lparr>ch_chunks := chunks, ch_offset := c_position chunks\<rparr>;
                   chunk \<leftarrow> chunks_peek self;
                   (case Option.bind chunk (str_find newline) of
                      Some newline_ix \<Rightarrow> do {
                        let self = self\<lparr>ch_offset := ch_offset self + (newline_ix + 1)\<rparr>;
                        Some (ch_offset self \<le> ch_end self, self) }
                    | None \<Rightarrow> do {
                        chunks_end \<leftarrow> cursor_end usize_dim (ch_chunks self);
                        Some (False, self\<lparr>ch_offset := chunks_end\<rparr>) }) });
            chunks_end \<leftarrow> cursor_end usize_dim (ch_chunks self);
            if ch_offset self = chunks_end
            then do { (_, self) \<leftarrow> chunks_next self; Some (found, self) }
            else Some (found, self) });
     if ch_offset self > ch_end self then do {
       let self = self\<lparr>ch_offset := min (ch_offset self) (ch_end self)\<rparr>;
       (_, chunks) \<leftarrow> cursor_seek usize_dim (cmp (ch_offset self)) Right (ch_chunks self);
       Some (found, self\<lparr>ch_chunks := chunks\<rparr>)
     }
     else Some (found, self)
   }"

text \<open>\<open>prev_line\<close>: in the current chunk, then in the chunks before it, and at last at the start of the range.\<close>

definition prev_line_here :: "rope_chunks \<Rightarrow> (bool \<times> rope_chunks) rust" where
  "prev_line_here self = do {
     item \<leftarrow> cursor_item (ch_chunks self);
     (case item of
        None \<Rightarrow> Some (False, self)
      | Some chunk \<Rightarrow> do {
          let end_ix = usize_sub (ch_offset self) (c_position (ch_chunks self));
          let bytes = as_bytes (ck_text chunk);
          assert_that (usize_sub end_ix 1 < length bytes);
          let end_ix = (if bytes ! usize_sub end_ix 1 = 10 then usize_sub end_ix 1 else end_ix);
          text \<leftarrow> str_slice (ck_text chunk) 0 end_ix;
          (case str_rfind newline text of
             None \<Rightarrow> Some (False, self)
           | Some newline_ix \<Rightarrow> do {
               let self = self\<lparr>ch_offset := c_position (ch_chunks self) + newline_ix + 1\<rparr>;
               Some (offset_is_valid self, self) }) })
   }"

definition prev_line_before :: "rope_chunks \<Rightarrow> (bool \<times> rope_chunks) rust" where
  "prev_line_before self = do {
     chunks \<leftarrow> search_backward usize_dim has_newline (ch_chunks self);
     let self = self\<lparr>ch_chunks := chunks, ch_offset := c_position chunks\<rparr>;
     item \<leftarrow> cursor_item (ch_chunks self);
     (case Option.bind item (\<lambda>chunk. str_rfind newline (ck_text chunk)) of
        None \<Rightarrow> Some (False, self)
      | Some newline_ix \<Rightarrow> do {
          let self = self\<lparr>ch_offset := ch_offset self + (newline_ix + 1)\<rparr>;
          if offset_is_valid self then do {
            chunks_end \<leftarrow> cursor_end usize_dim (ch_chunks self);
            chunks \<leftarrow> (if ch_offset self = chunks_end then cursor_next usize_dim (ch_chunks self) else Some (ch_chunks self));
            Some (True, self\<lparr>ch_chunks := chunks\<rparr>)
          }
          else Some (False, self) })
   }"

definition prev_line :: "rope_chunks \<Rightarrow> (bool \<times> rope_chunks) rust" where
  "prev_line self = do {
     assert_that (\<not> ch_reversed self);
     let initial_offset = ch_offset self;
     self \<leftarrow> (if ch_offset self = c_position (ch_chunks self)
       then do { chunks \<leftarrow> cursor_prev usize_dim (ch_chunks self); Some (self\<lparr>ch_chunks := chunks\<rparr>) }
       else Some self);
     (found, self) \<leftarrow> prev_line_here self;
     if found then Some (True, self)
     else do {
       (found, self) \<leftarrow> prev_line_before self;
       if found then Some (True, self)
       else do {
         item \<leftarrow> (if \<not> offset_is_valid self then Some None else cursor_item (ch_chunks self));
         self \<leftarrow> (if item = None
           then do {
             let self = self\<lparr>ch_offset := ch_start self\<rparr>;
             (_, chunks) \<leftarrow> cursor_seek usize_dim (cmp (ch_offset self)) Right (ch_chunks self);
             Some (self\<lparr>ch_chunks := chunks\<rparr>) }
           else Some self);
         Some (ch_offset self < initial_offset \<and> ch_offset self = 0, self)
       }
     }
   }"

section \<open>Comparing with a string\<close>

partial_function (option) equals_forward :: "rope_chunks \<Rightarrow> rstr \<Rightarrow> nat \<Rightarrow> bool rust" where
  "equals_forward chunks other offset = do {
     (item, chunks) \<leftarrow> chunks_next chunks;
     (case item of
        None \<Rightarrow> Some (offset = str_len other)
      | Some chunk \<Rightarrow>
          if offset \<ge> str_len other then Some False
          else do {
            (_, rest) \<leftarrow> str_split_at other offset;
            if str_starts_with rest chunk then equals_forward chunks other (offset + str_len chunk) else Some False })
   }"

partial_function (option) equals_backward :: "rope_chunks \<Rightarrow> rstr \<Rightarrow> nat \<Rightarrow> bool rust" where
  "equals_backward chunks other offset = do {
     (item, chunks) \<leftarrow> chunks_next chunks;
     (case item of
        None \<Rightarrow> Some (offset = 0)
      | Some chunk \<Rightarrow> do {
          rest \<leftarrow> str_slice other 0 offset;
          if str_ends_with rest chunk then equals_backward chunks other (usize_sub offset (str_len chunk)) else Some False })
   }"

definition equals_str :: "rope_chunks \<Rightarrow> rstr \<Rightarrow> bool rust" where
  "equals_str self other = (if ch_reversed self then equals_backward self other (str_len other) else equals_forward self other 0)"

definition rope_chunks_in_range :: "rope \<Rightarrow> nat \<Rightarrow> nat \<Rightarrow> rope_chunks rust" where
  "rope_chunks_in_range self range_start range_end = chunks_new self range_start range_end False"

definition reversed_chunks_in_range :: "rope \<Rightarrow> nat \<Rightarrow> nat \<Rightarrow> rope_chunks rust" where
  "reversed_chunks_in_range self range_start range_end = chunks_new self range_start range_end True"

definition rope_chunks_all :: "rope \<Rightarrow> rope_chunks rust" where
  "rope_chunks_all self = rope_chunks_in_range self 0 (rope_len self)"

partial_function (option) starts_with_loop :: "rope_chunks \<Rightarrow> rstr \<Rightarrow> bool rust" where
  "starts_with_loop chunks remaining = do {
     (item, chunks) \<leftarrow> chunks_next chunks;
     (case item of
        None \<Rightarrow> Some (remaining = [])
      | Some chunk \<Rightarrow>
          (case str_slice chunk 0 (min (str_len remaining) (str_len chunk)) of
             None \<Rightarrow> Some False
           | Some chunk \<Rightarrow>
               if str_starts_with remaining chunk then do {
                 (_, remaining) \<leftarrow> str_split_at remaining (str_len chunk);
                 if remaining = [] then Some True else starts_with_loop chunks remaining
               } else Some False))
   }"

definition rope_starts_with :: "rope \<Rightarrow> rstr \<Rightarrow> bool rust" where
  "rope_starts_with self pattern =
     (if str_len pattern > rope_len self then Some False
      else do { chunks \<leftarrow> rope_chunks_in_range self 0 (rope_len self); starts_with_loop chunks pattern })"

partial_function (option) ends_with_loop :: "rope_chunks \<Rightarrow> rstr \<Rightarrow> bool rust" where
  "ends_with_loop chunks remaining = do {
     (item, chunks) \<leftarrow> chunks_next chunks;
     (case item of
        None \<Rightarrow> Some (remaining = [])
      | Some chunk \<Rightarrow>
          (case str_slice chunk (usize_sub (str_len chunk) (min (str_len remaining) (str_len chunk))) (str_len chunk) of
             None \<Rightarrow> Some False
           | Some chunk \<Rightarrow>
               if str_ends_with remaining chunk then do {
                 (remaining, _) \<leftarrow> str_split_at remaining (usize_sub (str_len remaining) (str_len chunk));
                 if remaining = [] then Some True else ends_with_loop chunks remaining
               } else Some False))
   }"

definition rope_ends_with :: "rope \<Rightarrow> rstr \<Rightarrow> bool rust" where
  "rope_ends_with self pattern =
     (if str_len pattern > rope_len self then Some False
      else do { chunks \<leftarrow> reversed_chunks_in_range self 0 (rope_len self); ends_with_loop chunks pattern })"

text \<open>Reading an iterator to its end, for \<open>Display\<close> and the iterators over characters.\<close>

partial_function (option) chunks_collect :: "rope_chunks \<Rightarrow> rstr list \<Rightarrow> rstr list rust" where
  "chunks_collect chunks pieces = do {
     (item, chunks) \<leftarrow> chunks_next chunks;
     (case item of None \<Rightarrow> Some pieces | Some chunk \<Rightarrow> chunks_collect chunks (pieces @ [chunk]))
   }"

definition rope_to_string :: "rope \<Rightarrow> rstr rust" where
  "rope_to_string self = do { chunks \<leftarrow> rope_chunks_all self; map_option concat (chunks_collect chunks []) }"

definition chars_at :: "rope \<Rightarrow> nat \<Rightarrow> rchar list rust" where
  "chars_at self start = do {
     chunks \<leftarrow> rope_chunks_in_range self start (rope_len self);
     map_option concat (chunks_collect chunks []) }"

definition reversed_chars_at :: "rope \<Rightarrow> nat \<Rightarrow> rchar list rust" where
  "reversed_chars_at self start = do {
     chunks \<leftarrow> reversed_chunks_in_range self 0 start;
     map_option (\<lambda>pieces. concat (map rev pieces)) (chunks_collect chunks []) }"

section \<open>Lines\<close>

record rope_lines =
  ln_chunks :: rope_chunks
  ln_current :: rstr
  ln_done :: bool
  ln_reversed :: bool

definition chunks_lines :: "rope_chunks \<Rightarrow> rope_lines" where
  "chunks_lines self = \<lparr>ln_chunks = self, ln_current = [], ln_done = False, ln_reversed = ch_reversed self\<rparr>"

partial_function (option) lines_loop :: "rope_lines \<Rightarrow> (rstr \<times> rope_lines) rust" where
  "lines_loop self = do {
     chunk \<leftarrow> chunks_peek (ln_chunks self);
     (case chunk of
        None \<Rightarrow> Some (ln_current self, self\<lparr>ln_done := True\<rparr>)
      | Some chunk \<Rightarrow>
          (case (if ln_reversed self then rev (split_lines chunk) else split_lines chunk) of
             [] \<Rightarrow> do { (_, chunks) \<leftarrow> chunks_next (ln_chunks self); lines_loop (self\<lparr>ln_chunks := chunks\<rparr>) }
           | chunk_line # chunk_lines \<Rightarrow> do {
               let current_line = (if ln_reversed self then chunk_line @ ln_current self else ln_current self @ chunk_line);
               if chunk_lines \<noteq> [] then do {
                 chunks \<leftarrow> chunks_seek (ln_chunks self)
                   (if ln_reversed self then usize_sub (usize_sub (ch_offset (ln_chunks self)) (str_len chunk_line)) 1
                    else ch_offset (ln_chunks self) + str_len chunk_line + 1);
                 let self = self\<lparr>ln_chunks := chunks\<rparr>;
                 if ln_current self = [] then Some (chunk_line, self)
                 else Some (current_line, self\<lparr>ln_current := current_line\<rparr>)
               } else do {
                 (_, chunks) \<leftarrow> chunks_next (ln_chunks self);
                 lines_loop (self\<lparr>ln_chunks := chunks, ln_current := current_line\<rparr>)
               } }))
   }"

definition lines_next :: "rope_lines \<Rightarrow> (rstr option \<times> rope_lines) rust" where
  "lines_next self =
     (if ln_done self then Some (None, self)
      else do { (line, self) \<leftarrow> lines_loop (self\<lparr>ln_current := []\<rparr>); Some (Some line, self) })"

definition lines_seek :: "rope_lines \<Rightarrow> nat \<Rightarrow> rope_lines rust" where
  "lines_seek self offset = do {
     chunks \<leftarrow> chunks_seek (ln_chunks self) offset;
     Some (self\<lparr>ln_chunks := chunks, ln_current := [], ln_done := False\<rparr>) }"

section \<open>Bytes\<close>

record rope_bytes =
  by_chunks :: "(chunk, chunk_summary, nat) cursor"
  by_start :: nat
  by_end :: nat
  by_reversed :: bool

definition bytes_new :: "rope \<Rightarrow> nat \<Rightarrow> nat \<Rightarrow> bool \<Rightarrow> rope_bytes rust" where
  "bytes_new rope range_start range_end reversed = do {
     let chunks = cursor_new usize_dim rope;
     (_, chunks) \<leftarrow>
       (if reversed then cursor_seek usize_dim (cmp range_end) Left chunks
        else cursor_seek usize_dim (cmp range_start) Right chunks);
     Some \<lparr>by_chunks = chunks, by_start = range_start, by_end = range_end, by_reversed = reversed\<rparr>
   }"

definition bytes_peek :: "rope_bytes \<Rightarrow> u8 list option rust" where
  "bytes_peek self = do {
     item \<leftarrow> cursor_item (by_chunks self);
     (case item of
        None \<Rightarrow> Some None
      | Some chunk \<Rightarrow> do {
          chunks_end \<leftarrow> (if by_reversed self then cursor_end usize_dim (by_chunks self) else Some 0);
          if by_reversed self \<and> by_start self \<ge> chunks_end then Some None
          else do {
            let chunk_start = c_position (by_chunks self);
            if by_end self \<le> chunk_start then Some None
            else do {
              let start = by_start self - chunk_start;
              let end' = min (str_len (ck_text chunk)) (usize_sub (by_end self) chunk_start);
              assert_that (start \<le> end');
              Some (Some (take (end' - start) (drop start (as_bytes (ck_text chunk))))) } } })
   }"

definition bytes_move :: "rope_bytes \<Rightarrow> rope_bytes rust" where
  "bytes_move self = do {
     chunks \<leftarrow> (if by_reversed self then cursor_prev usize_dim (by_chunks self) else cursor_next usize_dim (by_chunks self));
     Some (self\<lparr>by_chunks := chunks\<rparr>) }"

definition bytes_next :: "rope_bytes \<Rightarrow> (u8 list option \<times> rope_bytes) rust" where
  "bytes_next self = do {
     result \<leftarrow> bytes_peek self;
     if result \<noteq> None then do { self \<leftarrow> bytes_move self; Some (result, self) } else Some (None, self) }"

text \<open>\<open>Read::read\<close> into a buffer of the given size: the bytes it copies, and the iterator after it.\<close>

definition bytes_read :: "rope_bytes \<Rightarrow> nat \<Rightarrow> (u8 list \<times> rope_bytes) rust" where
  "bytes_read self buf_len = do {
     chunk \<leftarrow> bytes_peek self;
     (case chunk of
        None \<Rightarrow> Some ([], self)
      | Some chunk \<Rightarrow> do {
          let len = min buf_len (length chunk);
          let (buf, self) =
            (if by_reversed self
             then (rev (drop (length chunk - len) chunk), self\<lparr>by_end := usize_sub (by_end self) len\<rparr>)
             else (take len chunk, self\<lparr>by_start := by_start self + len\<rparr>));
          self \<leftarrow> (if len = length chunk then bytes_move self else Some self);
          Some (buf, self) })
   }"

section \<open>Reading forward and backward\<close>

text \<open>
  An iterator over the range \<open>x @ y\<close> of the text \<open>w @ x @ y @ z\<close> that stands between \<open>x\<close> and
  \<open>y\<close>. Forward it has \<open>y\<close> to read, and its cursor is on the chunk that follows; backward it has
  \<open>x\<close> to read, and its cursor is on the chunk that precedes.
\<close>

definition chunks_between :: "rope_chunks \<Rightarrow> rope \<Rightarrow> rstr \<Rightarrow> rstr \<Rightarrow> rstr \<Rightarrow> rstr \<Rightarrow> bool" where
  "chunks_between ch r w x y z \<longleftrightarrow> rope_ok r \<and> rope_str r = w @ x @ y @ z \<and> ch_start ch = str_len w
     \<and> ch_offset ch = str_len (w @ x) \<and> ch_end ch = str_len (w @ x @ y)"

definition reads_forward :: "rope_chunks \<Rightarrow> rope \<Rightarrow> rstr \<Rightarrow> rstr \<Rightarrow> rstr \<Rightarrow> rstr \<Rightarrow> bool" where
  "reads_forward ch r w x y z \<longleftrightarrow> chunks_between ch r w x y z \<and> \<not> ch_reversed ch \<and> (\<exists>pre suf.
     cursor_in rope_fits chunk_ops usize_dim (ch_chunks ch) pre suf \<and> c_did_seek (ch_chunks ch) \<and> c_tree (ch_chunks ch) = r
     \<and> str_len (text_of pre) \<le> ch_offset ch \<and> ch_offset ch \<le> str_len (text_of (pre @ take 1 suf))
     \<and> (y \<noteq> [] \<longrightarrow> ch_offset ch < str_len (text_of (pre @ take 1 suf))))"

definition reads_backward :: "rope_chunks \<Rightarrow> rope \<Rightarrow> rstr \<Rightarrow> rstr \<Rightarrow> rstr \<Rightarrow> rstr \<Rightarrow> bool" where
  "reads_backward ch r w x y z \<longleftrightarrow> chunks_between ch r w x y z \<and> ch_reversed ch \<and> (w @ x \<noteq> [] \<longrightarrow> (\<exists>pre c suf.
     cursor_in rope_fits chunk_ops usize_dim (ch_chunks ch) pre (c # suf) \<and> c_did_seek (ch_chunks ch) \<and> c_tree (ch_chunks ch) = r
     \<and> str_len (text_of pre) < ch_offset ch \<and> ch_offset ch \<le> str_len (text_of (pre @ [c]))))"

text \<open>
  A reversed iterator that has read back to the start of the rope has left its tree; a seek needs one that has not.
\<close>

definition on_tree :: "rope_chunks \<Rightarrow> rope \<Rightarrow> bool" where
  "on_tree ch r \<longleftrightarrow> (\<exists>pre suf. cursor_in rope_fits chunk_ops usize_dim (ch_chunks ch) pre suf
     \<and> c_did_seek (ch_chunks ch) \<and> c_tree (ch_chunks ch) = r)"

lemma reads_on_tree:
  "reads_forward ch r w x y z \<Longrightarrow> on_tree ch r" "reads_backward ch r w x y z \<Longrightarrow> w @ x \<noteq> [] \<Longrightarrow> on_tree ch r"
  unfolding reads_forward_def reads_backward_def on_tree_def by blast+

lemma reads_forwardI:
  assumes "chunks_between ch r w x y z" "\<not> ch_reversed ch" "cursor_in rope_fits chunk_ops usize_dim (ch_chunks ch) pre suf"
    "c_did_seek (ch_chunks ch)" "c_tree (ch_chunks ch) = r" "str_len (text_of pre) \<le> ch_offset ch"
    "ch_offset ch \<le> str_len (text_of (pre @ take 1 suf))" "y \<noteq> [] \<Longrightarrow> ch_offset ch < str_len (text_of (pre @ take 1 suf))"
  shows "reads_forward ch r w x y z"
  using assms unfolding reads_forward_def by blast

text \<open>Two cuts of one text at the same offset are the same.\<close>

lemma same_cut:
  fixes a b c d :: rstr
  assumes "a @ b = c @ d" "str_len a = str_len c"
  shows "a = c \<and> b = d"
proof -
  obtain e where e: "c = a @ e" "b = e @ d" by (rule prefix_len [OF assms(1)]) (use assms(2) in simp_all)
  then have "e = []" using assms(2) str_len_pos [of e] by auto
  then show ?thesis using e by simp
qed

lemma chunk_around:
  assumes "rope_ok r" "rope_str r = l @ m" "tree_items r = pre @ c # suf" "str_len (text_of pre) \<le> str_len l"
    and "str_len l \<le> str_len (text_of (pre @ [c]))"
  obtains p s where "l = text_of pre @ p" "c = chunk_of (p @ s)" "str_len (p @ s) \<le> 128" "valid_str (p @ s)" "m = s @ text_of suf"
proof -
  obtain t where t: "c = chunk_of t" "str_len t \<le> MAX_BASE" "valid_str t"
    using rope_okD(2) [OF assms(1)] assms(3) by (auto elim: chunk_okE)
  have eq: "text_of pre @ t @ text_of suf = l @ m" using assms(2,3) t(1) by (simp add: rope_str_def)
  obtain p where p: "l = text_of pre @ p" "t @ text_of suf = p @ m" by (rule prefix_len [OF eq assms(4)])
  have "str_len p \<le> str_len t" using p(1) assms(5) t(1) by simp
  then obtain s where s: "t = p @ s" "m = s @ text_of suf" using prefix_len [OF p(2) [symmetric]] by metis
  then show thesis using that [of p s] p(1) t by (simp add: MAX_BASE_def)
qed

lemma common_prefix:
  fixes y z s u :: rstr
  assumes "y @ z = s @ u" "s \<noteq> []" "y \<noteq> []"
  obtains t y' s' where "y = t @ y'" "s = t @ s'" "t \<noteq> []" "y' = [] \<or> s' = []" "y' @ z = s' @ u"
proof (cases "str_len y \<le> str_len s")
  case True
  then obtain e where "s = y @ e" "z = e @ u" using prefix_len [OF assms(1)] by metis
  then show thesis using that [of y "[]" e] assms(3) by simp
next
  case False
  then obtain e where "y = s @ e" "u = e @ z" using prefix_len [OF assms(1) [symmetric]] by (metis nle_le)
  then show thesis using that [of s e "[]"] assms(2) by simp
qed

lemma first_chunk_nonempty:
  assumes "list_all chunk_ok cs" "text_of cs = y @ z" "y \<noteq> []"
  obtains c ds where "cs = c # ds" "0 < str_len (ck_text c)"
  using assms str_len_pos by (cases cs) (auto simp: chunk_ok_def)

lemma slice_middle: "str_slice (p @ t @ s) (str_len p) (str_len p + str_len t) = Some t"
  by (auto simp: str_slice_Some)

lemma forward_chunk:
  assumes "reads_forward ch r w x y z" "y \<noteq> []"
  obtains p t s y' where "y = t @ y'" "t \<noteq> []" "str_len (p @ t @ s) \<le> 128" "valid_str (p @ t @ s)" "y' = [] \<or> s = []"
    "offset_is_valid ch" "cursor_item (ch_chunks ch) = Some (Some (chunk_of (p @ t @ s)))" "chunks_slice_range ch = Some (str_len p, str_len p + str_len t)"
    "\<exists>ch'. chunks_advance ch (str_len t) = Some ch' \<and> reads_forward ch' r w (x @ t) y' z"
    "str_len (w @ x) = c_position (ch_chunks ch) + str_len p" "cursor_end usize_dim (ch_chunks ch) = Some (str_len (w @ x @ t @ s))"
proof -
  let ?cur = "ch_chunks ch"
  have b: "rope_ok r" "rope_str r = w @ x @ y @ z" "ch_start ch = str_len w" "ch_offset ch = str_len (w @ x)" "ch_end ch = str_len (w @ x @ y)"
    "\<not> ch_reversed ch" using assms(1) by (simp_all add: reads_forward_def chunks_between_def)
  obtain pre suf where cur: "cursor_in rope_fits chunk_ops usize_dim ?cur pre suf" "c_did_seek ?cur" "c_tree ?cur = r"
    "str_len (text_of pre) \<le> ch_offset ch" "ch_offset ch < str_len (text_of (pre @ take 1 suf))"
    using assms by (auto simp: reads_forward_def)
  then obtain c suf' where suf: "suf = c # suf'" by (cases suf) auto
  have items: "tree_items r = pre @ c # suf'" using cur(1,3) suf by (auto simp: cursor_in_def)
  have le: "str_len (text_of pre) \<le> str_len (w @ x)" "str_len (w @ x) \<le> str_len (text_of (pre @ [c]))" using cur(4,5) b(4) suf by simp_all
  have str: "rope_str r = (w @ x) @ (y @ z)" using b(2) by simp
  obtain p u where u: "w @ x = text_of pre @ p" "c = chunk_of (p @ u)" "str_len (p @ u) \<le> 128" "valid_str (p @ u)" "y @ z = u @ text_of suf'"
    by (rule chunk_around [OF b(1) str items le])
  have wx: "str_len w + str_len x = str_len (text_of pre) + str_len p" using arg_cong [OF u(1), of str_len] by simp
  have "u \<noteq> []" using cur(5) b(4) suf u(2) wx by auto
  from common_prefix [OF u(5) this assms(2)] obtain t y' s where
    t: "y = t @ y'" "u = t @ s" "t \<noteq> []" "y' = [] \<or> s = []" "y' @ z = s @ text_of suf'" by metis
  have pos: "c_position ?cur = str_len (text_of pre)" by (rule cursor_in_position [OF cur(1)])
  have ends: "cursor_end usize_dim ?cur = Some (str_len (w @ x @ t @ s))" using rope_cursor_end [OF cur(1,2)] suf u(2) t(2) wx by simp
  have item: "cursor_item ?cur = Some (Some (chunk_of (p @ t @ s)))" using cursor_item_at(1) [OF cur(1,2)] suf u(2) t(2) by (simp add: first_opt_def)
  have "0 < str_len t" using t(3) str_len_pos [of t] by simp
  then have valid: "offset_is_valid ch" using b t(1) by (simp add: offset_is_valid_def)
  have range: "chunks_slice_range ch = Some (str_len p, str_len p + str_len t)"
    using b ends pos t(1,4) wx by (auto simp: chunks_slice_range_def)
  have btw: "chunks_between (ch\<lparr>ch_offset := ch_offset ch + str_len t\<rparr>) r w (x @ t) y' z"
    "chunks_between (ch\<lparr>ch_offset := ch_offset ch + str_len t, ch_chunks := cur'\<rparr>) r w (x @ t) y' z" for cur'
    using b t(1) by (simp_all add: chunks_between_def)
  have "\<exists>ch'. chunks_advance ch (str_len t) = Some ch' \<and> reads_forward ch' r w (x @ t) y' z"
  proof (cases "s = []")
    case True
    from bytes.cursor_next_ok [OF cur(1)] cur(2,3) suf obtain cur' where
      c': "cursor_next usize_dim ?cur = Some cur'" "c_did_seek cur'" "c_tree cur' = r"
      "cursor_in rope_fits chunk_ops usize_dim cur' (pre @ [c]) suf'" by auto
    have l: "str_len (text_of (pre @ [c])) = ch_offset ch + str_len t" using b(4) u(2) t(2) True wx by simp
    have "y' \<noteq> [] \<Longrightarrow> 0 < str_len (text_of (take 1 suf'))"
      using first_chunk_nonempty [of suf' y' z] rope_okD(2) [OF b(1)] items t(5) True by fastforce
    then have "reads_forward (ch\<lparr>ch_offset := ch_offset ch + str_len t, ch_chunks := cur'\<rparr>) r w (x @ t) y' z"
      using c' b(6) l btw(2) by (intro reads_forwardI [of _ _ _ _ _ _ "pre @ [c]" suf']) simp_all
    then show ?thesis using c'(1) ends b(4,6) True by (simp add: chunks_advance_def)
  next
    case False
    then have "y' = []" "0 < str_len s" using t(4) str_len_pos [of s] by auto
    then have "reads_forward (ch\<lparr>ch_offset := ch_offset ch + str_len t\<rparr>) r w (x @ t) y' z"
      using cur suf b(4,6) u(2) t(2) wx btw(1) by (intro reads_forwardI [of _ _ _ _ _ _ pre suf]) simp_all
    then show ?thesis using ends b(4,6) \<open>0 < str_len s\<close> by (simp add: chunks_advance_def)
  qed
  then show thesis using that [OF t(1,3) _ _ t(4) valid item range _ _ ends] u(3,4) t(2) pos wx by auto
qed

lemma common_suffix:
  fixes x w p u :: rstr
  assumes "w @ x = u @ p" "p \<noteq> []" "x \<noteq> []"
  obtains t x' p' where "x = x' @ t" "p = p' @ t" "t \<noteq> []" "x' = [] \<or> p' = []" "w @ x' = u @ p'"
proof (cases "str_len w \<le> str_len u")
  case True
  then obtain e where "u = w @ e" "x = e @ p" using prefix_len [OF assms(1)] by metis
  then show thesis using that [of e p "[]"] assms(2) by simp
next
  case False
  then obtain e where "w = u @ e" "p = e @ x" using prefix_len [OF assms(1) [symmetric]] by (metis nle_le)
  then show thesis using that [of "[]" x e] assms(3) by simp
qed

lemma backward_chunk:
  assumes "reads_backward ch r w x y z" "x \<noteq> []"
  obtains p t s x' where "x = x' @ t" "t \<noteq> []" "str_len (p @ t @ s) \<le> 128" "valid_str (p @ t @ s)" "x' = [] \<or> p = []"
    "offset_is_valid ch" "cursor_item (ch_chunks ch) = Some (Some (chunk_of (p @ t @ s)))" "chunks_slice_range ch = Some (str_len p, str_len p + str_len t)"
    "\<exists>ch'. chunks_advance ch (str_len t) = Some ch' \<and> reads_backward ch' r w x' (t @ y) z \<and> (w @ x' = [] \<longrightarrow> before_first usize_dim (ch_chunks ch'))"
    "str_len (w @ x') = c_position (ch_chunks ch) + str_len p" "cursor_end usize_dim (ch_chunks ch) = Some (str_len (w @ x @ s))"
proof -
  let ?cur = "ch_chunks ch"
  have b: "rope_ok r" "rope_str r = w @ x @ y @ z" "ch_start ch = str_len w" "ch_offset ch = str_len (w @ x)" "ch_end ch = str_len (w @ x @ y)"
    "ch_reversed ch" using assms(1) by (simp_all add: reads_backward_def chunks_between_def)
  obtain pre c suf where cur: "cursor_in rope_fits chunk_ops usize_dim ?cur pre (c # suf)" "c_did_seek ?cur" "c_tree ?cur = r"
    "str_len (text_of pre) < ch_offset ch" "ch_offset ch \<le> str_len (text_of (pre @ [c]))"
    using assms unfolding reads_backward_def append_is_Nil_conv by blast
  have items: "tree_items r = pre @ c # suf" using cur(1,3) by (auto simp: cursor_in_def)
  have le: "str_len (text_of pre) \<le> str_len (w @ x)" "str_len (w @ x) \<le> str_len (text_of (pre @ [c]))" using cur(4,5) b(4) by simp_all
  have str: "rope_str r = (w @ x) @ (y @ z)" using b(2) by simp
  obtain q s where u: "w @ x = text_of pre @ q" "c = chunk_of (q @ s)" "str_len (q @ s) \<le> 128" "valid_str (q @ s)" "y @ z = s @ text_of suf"
    by (rule chunk_around [OF b(1) str items le])
  have wx: "str_len w + str_len x = str_len (text_of pre) + str_len q" using arg_cong [OF u(1), of str_len] by simp
  have "q \<noteq> []" using cur(4) b(4) wx by auto
  from common_suffix [OF u(1) this assms(2)] obtain t x' p where
    t: "x = x' @ t" "q = p @ t" "t \<noteq> []" "x' = [] \<or> p = []" "w @ x' = text_of pre @ p" by metis
  have wx': "str_len w + str_len x' = str_len (text_of pre) + str_len p" using arg_cong [OF t(5), of str_len] by simp
  have pos: "c_position ?cur = str_len (text_of pre)" by (rule cursor_in_position [OF cur(1)])
  have ends: "cursor_end usize_dim ?cur = Some (str_len (w @ x @ s))" using rope_cursor_end [OF cur(1,2)] u(2) wx by simp
  have item: "cursor_item ?cur = Some (Some (chunk_of (p @ t @ s)))" using cursor_item_at(1) [OF cur(1,2)] u(2) t(2) by (simp add: first_opt_def)
  have pt: "0 < str_len t" using t(3) str_len_pos [of t] by simp
  then have valid: "offset_is_valid ch" using b t(1) by (simp add: offset_is_valid_def)
  have range: "chunks_slice_range ch = Some (str_len p, str_len p + str_len t)"
    using b pos t(1,2,4) wx wx' by (auto simp: chunks_slice_range_def)
  let ?o = "usize_sub (ch_offset ch) (str_len t)"
  have o: "?o = str_len (w @ x')" using b(4) t(1) by simp
  have btw: "chunks_between (ch\<lparr>ch_offset := ?o\<rparr>) r w x' (t @ y) z"
    "chunks_between (ch\<lparr>ch_offset := ?o, ch_chunks := cur'\<rparr>) r w x' (t @ y) z" for cur'
    unfolding o using b t(1) by (simp_all add: chunks_between_def)
  have "\<exists>ch'. chunks_advance ch (str_len t) = Some ch' \<and> reads_backward ch' r w x' (t @ y) z \<and> (w @ x' = [] \<longrightarrow> before_first usize_dim (ch_chunks ch'))"
  proof (cases "p = []")
    case True
    from bytes.cursor_prev_ok [OF cur(1), of pre "c # suf"] cur(2,3) obtain cur' where
      c': "cursor_prev usize_dim ?cur = Some cur'" "c_did_seek cur'" "c_tree cur' = r"
      "pre \<noteq> [] \<Longrightarrow> cursor_in rope_fits chunk_ops usize_dim cur' (butlast pre) (last pre # c # suf)"
      "pre = [] \<Longrightarrow> before_first usize_dim cur'" by (auto split: if_splits)
    have "pre = []" if "w @ x' = []"
    proof (rule ccontr)
      assume ne: "pre \<noteq> []"
      then have "chunk_ok (hd pre)" using rope_okD(2) [OF b(1)] items by (auto simp: list_all_iff)
      then show False using t(5) that ne by (cases pre) (auto simp: chunk_ok_def)
    qed
    have "reads_backward (ch\<lparr>ch_offset := ?o, ch_chunks := cur'\<rparr>) r w x' (t @ y) z"
    proof (cases "w @ x' = []")
      case False
      then have ne: "pre \<noteq> []" using t(5) True by auto
      have "chunk_ok (last pre)" using rope_okD(2) [OF b(1)] items ne by (auto simp: list_all_iff)
      then have "0 < str_len (ck_text (last pre))" using str_len_pos by (auto simp: chunk_ok_def)
      moreover have "text_of pre = text_of (butlast pre) @ ck_text (last pre)"
        using append_butlast_last_id [OF ne] text_of_simps(3) [of "butlast pre" "[last pre]"] by simp
      ultimately show ?thesis unfolding reads_backward_def using btw(2) c' ne b(6) o wx' True by force
    qed (use btw(2) b(6) in \<open>simp add: reads_backward_def\<close>)
    then show ?thesis using c'(1,5) \<open>w @ x' = [] \<Longrightarrow> pre = []\<close> pos o wx' b(6) True by (auto simp: chunks_advance_def)
  next
    case False
    then have "x' = []" "0 < str_len p" using t(4) str_len_pos [of p] by auto
    then have "str_len (text_of pre) < ?o" "?o \<le> str_len (text_of (pre @ [c]))" using o wx' u(2) t(2) by simp_all
    then have "reads_backward (ch\<lparr>ch_offset := ?o\<rparr>) r w x' (t @ y) z" unfolding reads_backward_def using btw(1) b(6) cur(1-3) by auto
    then show ?thesis using pos o wx' b(6) \<open>0 < str_len p\<close> False t(5) by (simp add: chunks_advance_def)
  qed
  then show thesis using that [OF t(1,3) _ _ t(4) valid item range _ _ ends] u(3,4) t(2) pos wx' by auto
qed

lemma forward_done: "reads_forward ch r w x [] z \<Longrightarrow> \<not> offset_is_valid ch"
  by (simp add: reads_forward_def chunks_between_def offset_is_valid_def)

lemma backward_done: "reads_backward ch r w [] y z \<Longrightarrow> \<not> offset_is_valid ch"
  by (simp add: reads_backward_def chunks_between_def offset_is_valid_def)

text \<open>
  What the clients of an iterator over pieces rely on: it yields non-empty pieces that make up the
  text left to read, in the order of reading, and then ends.
\<close>

locale chunk_reader =
  fixes left :: "rope_chunks \<Rightarrow> rstr \<Rightarrow> bool" and join :: "rstr \<Rightarrow> rstr \<Rightarrow> rstr"
  assumes finished: "left ch [] \<Longrightarrow> chunks_next ch = Some (None, ch)"
    and piece: "left ch y \<Longrightarrow> y \<noteq> [] \<Longrightarrow> \<exists>t y' ch'. y = join t y' \<and> t \<noteq> [] \<and> chunks_next ch = Some (Some t, ch') \<and> left ch' y'"
    and shorter: "t \<noteq> [] \<Longrightarrow> length y' < length (join t y')"
begin

lemma reader_induct [consumes 1, case_names finished piece]:
  assumes "left ch y" "\<And>ch. left ch [] \<Longrightarrow> chunks_next ch = Some (None, ch) \<Longrightarrow> P ch []"
    and "\<And>ch t y' ch'. left ch (join t y') \<Longrightarrow> t \<noteq> [] \<Longrightarrow> chunks_next ch = Some (Some t, ch') \<Longrightarrow> left ch' y' \<Longrightarrow> P ch' y' \<Longrightarrow> P ch (join t y')"
  shows "P ch y"
  using assms(1)
proof (induction "length y" arbitrary: ch y rule: less_induct)
  case less
  show ?case
  proof (cases "y = []")
    case True
    then show ?thesis using less.prems assms(2) finished by simp
  next
    case False
    from piece [OF less.prems this] obtain t y' ch' where
      "y = join t y'" "t \<noteq> []" "chunks_next ch = Some (Some t, ch')" "left ch' y'" by blast
    then show ?thesis using less.hyps [of y' ch'] less.prems shorter [of t y'] assms(3) by simp
  qed
qed

lemma collect_ok:
  assumes "left ch y"
  shows "\<exists>ts. chunks_collect ch acc = Some (acc @ ts) \<and> foldr join ts [] = y \<and> [] \<notin> set ts"
  using assms
proof (induction arbitrary: acc rule: reader_induct)
  case (finished ch)
  then show ?case by (subst chunks_collect.simps) simp
next
  case (piece ch t y' ch')
  obtain ts where "chunks_collect ch' (acc @ [t]) = Some ((acc @ [t]) @ ts)" "foldr join ts [] = y'" "[] \<notin> set ts" using piece.IH by blast
  then show ?case using piece.hyps by (subst chunks_collect.simps) (auto intro!: exI [of _ "t # ts"])
qed

end

definition forward_left :: "rope_chunks \<Rightarrow> rstr \<Rightarrow> bool" where
  "forward_left ch y \<longleftrightarrow> (\<exists>r w x z. reads_forward ch r w x y z)"

definition backward_left :: "rope_chunks \<Rightarrow> rstr \<Rightarrow> bool" where
  "backward_left ch x \<longleftrightarrow> (\<exists>r w y z. reads_backward ch r w x y z)"

lemma chunks_peek_middle:
  assumes "offset_is_valid ch" "cursor_item (ch_chunks ch) = Some (Some (chunk_of (p @ t @ s)))" "chunks_slice_range ch = Some (str_len p, str_len p + str_len t)"
  shows "chunks_peek ch = Some (Some t)"
  using assms by (simp add: chunks_peek_def slice_middle)

lemma forward_next:
  assumes "reads_forward ch r w x y z" "y \<noteq> []"
  obtains t y' ch' where "y = t @ y'" "t \<noteq> []" "chunks_peek ch = Some (Some t)" "chunks_next ch = Some (Some t, ch')" "reads_forward ch' r w (x @ t) y' z"
proof (rule forward_chunk [OF assms])
  fix p t s y'
  assume t: "y = t @ y'" "t \<noteq> []" and k: "offset_is_valid ch" "cursor_item (ch_chunks ch) = Some (Some (chunk_of (p @ t @ s)))"
    "chunks_slice_range ch = Some (str_len p, str_len p + str_len t)" "\<exists>ch'. chunks_advance ch (str_len t) = Some ch' \<and> reads_forward ch' r w (x @ t) y' z"
  note peek = chunks_peek_middle [OF k(1-3)]
  then show thesis using that [OF t peek] k(4) by (auto simp: chunks_next_def)
qed

lemma backward_next:
  assumes "reads_backward ch r w x y z" "x \<noteq> []"
  obtains t x' ch' where "x = x' @ t" "t \<noteq> []" "chunks_peek ch = Some (Some t)" "chunks_next ch = Some (Some t, ch')" "reads_backward ch' r w x' (t @ y) z"
    "w @ x' = [] \<longrightarrow> before_first usize_dim (ch_chunks ch')"
proof (rule backward_chunk [OF assms])
  fix p t s x'
  assume t: "x = x' @ t" "t \<noteq> []" and k: "offset_is_valid ch" "cursor_item (ch_chunks ch) = Some (Some (chunk_of (p @ t @ s)))"
    "chunks_slice_range ch = Some (str_len p, str_len p + str_len t)" "\<exists>ch'. chunks_advance ch (str_len t) = Some ch' \<and> reads_backward ch' r w x' (t @ y) z \<and> (w @ x' = [] \<longrightarrow> before_first usize_dim (ch_chunks ch'))"
  note peek = chunks_peek_middle [OF k(1-3)]
  obtain ch' where "chunks_advance ch (str_len t) = Some ch'" "reads_backward ch' r w x' (t @ y) z"
    "w @ x' = [] \<longrightarrow> before_first usize_dim (ch_chunks ch')" using k(4) by blast
  then show thesis using peek by (intro that [OF t peek, of ch']) (auto simp: chunks_next_def)
qed

interpretation fwd: chunk_reader forward_left "\<lambda>t y'. t @ y'"
proof
  show "forward_left ch [] \<Longrightarrow> chunks_next ch = Some (None, ch)" for ch
    using forward_done by (auto simp: forward_left_def chunks_next_def chunks_peek_def)
  show "\<exists>t y' ch'. y = t @ y' \<and> t \<noteq> [] \<and> chunks_next ch = Some (Some t, ch') \<and> forward_left ch' y'" if "forward_left ch y" "y \<noteq> []" for ch y
    using that unfolding forward_left_def by (metis forward_next)
qed simp

interpretation bwd: chunk_reader backward_left "\<lambda>t x'. x' @ t"
proof
  show "backward_left ch [] \<Longrightarrow> chunks_next ch = Some (None, ch)" for ch
    using backward_done by (auto simp: backward_left_def chunks_next_def chunks_peek_def)
  show "\<exists>t x' ch'. x = x' @ t \<and> t \<noteq> [] \<and> chunks_next ch = Some (Some t, ch') \<and> backward_left ch' x'" if "backward_left ch x" "x \<noteq> []" for ch x
    using that unfolding backward_left_def by (metis backward_next)
qed simp

section \<open>Starting to read\<close>

lemma cursor_seek_anew: "cursor_seek dim target bias cur = cursor_seek dim target bias (cursor_new dim (c_tree cur))"
  by (cases cur) (simp add: cursor_seek_def cursor_reset_def cursor_new_def)

lemma seek_offset:
  assumes "rope_ok r" "node_height r < STACK_CAPACITY" "c_tree cur = r"
  obtains eq cur' pre suf where "cursor_seek usize_dim (cmp i) bias cur = Some (eq, cur')"
    "cursor_in rope_fits chunk_ops usize_dim cur' pre suf" "c_did_seek cur'" "c_tree cur' = r"
    "pre \<noteq> [] \<Longrightarrow> reached bias i (str_len (text_of pre))" "suf \<noteq> [] \<Longrightarrow> \<not> reached bias i (str_len (text_of (pre @ take 1 suf)))"
proof -
  have w: "wf_in rope_fits chunk_ops r" "rope_fits (tree_items r)" using assms(1) by (simp_all add: rope_ok_def wf_in_fits)
  obtain a b where ab: "seek_split chunk_ops usize_dim (past (cmp i) bias) 0 (tree_items r) = (a, b)" by fastforce
  note s = bytes.split_found [of "[]", simplified, OF w(2) ab]
  from bytes.cursor_seek_ok [OF cursor_new_at [OF w(1) assms(2)], of "cmp i" bias a b] ab bytes.monotone_key_start [OF w(2), of i]
  obtain eq cur' where
    c: "cursor_seek usize_dim (cmp i) bias (cursor_new usize_dim r) = Some (eq, cur')"
    "cursor_in rope_fits chunk_ops usize_dim cur' a b" "c_did_seek cur'" "c_tree cur' = r"
    by (auto simp: cmp_neq_Less cursor_new_def)
  show thesis
    by (rule that [OF _ c(2-4)]) (use c(1) assms(3) s cursor_seek_anew [of usize_dim "cmp i" bias cur] in \<open>auto simp: take_Suc split: list.splits\<close>)
qed

lemma assert_boundary_ok: "str_len (p @ s) \<le> 128 \<Longrightarrow> chunk_assert_char_boundary True (chunk_of (p @ s)) (str_len p) = Some True"
  by (simp add: chunk_assert_char_boundary_def chunk_boundary_eq slice_boundary_eq)

lemma seek_chunk:
  assumes "rope_ok r" "rope_str r = l @ m" "cursor_in rope_fits chunk_ops usize_dim cur pre suf" "c_did_seek cur" "c_tree cur = r"
    and "str_len (text_of pre) \<le> str_len l" "suf \<noteq> [] \<Longrightarrow> str_len l \<le> str_len (text_of (pre @ take 1 suf))"
  obtains item where "cursor_item cur = Some item"
    "(case item of None \<Rightarrow> Some True | Some chunk \<Rightarrow> chunk_assert_char_boundary True chunk (usize_sub (str_len l) (c_position cur))) = Some True"
proof (cases suf)
  case Nil
  then show thesis using that [of None] cursor_item_at(1) [OF assms(3,4)] by (simp add: first_opt_def)
next
  case (Cons c suf')
  have items: "tree_items r = pre @ c # suf'" using assms(3,5) Cons by (auto simp: cursor_in_def)
  obtain p s where "l = text_of pre @ p" "c = chunk_of (p @ s)" "str_len (p @ s) \<le> 128"
    by (rule chunk_around [OF assms(1,2) items assms(6)]) (use assms(7) Cons in simp)
  then show thesis using that [of "Some c"] cursor_item_at(1) [OF assms(3,4)] Cons cursor_in_position [OF assms(3)] assert_boundary_ok
    by (simp add: first_opt_def)
qed

lemma rope_cursor_full:
  assumes "rope_ok r" "cursor_in rope_fits chunk_ops usize_dim cur pre []" "c_tree cur = r"
  shows "text_of pre = rope_str r"
  using assms by (auto simp: cursor_in_def rope_str_def)

text \<open>A cursor on the chunk at the offset makes an iterator, whichever way it got there.\<close>

lemma reads_forward_at:
  assumes "chunks_between ch r w x y z" "\<not> ch_reversed ch" "cursor_in rope_fits chunk_ops usize_dim (ch_chunks ch) pre suf"
    "c_did_seek (ch_chunks ch)" "c_tree (ch_chunks ch) = r" "str_len (text_of pre) \<le> str_len (w @ x)"
    "suf \<noteq> [] \<Longrightarrow> str_len (w @ x) < str_len (text_of (pre @ take 1 suf))"
  shows "reads_forward ch r w x y z"
proof -
  have b: "rope_ok r" "rope_str r = w @ x @ y @ z" "ch_offset ch = str_len (w @ x)" using assms(1) by (simp_all add: chunks_between_def)
  have "suf = [] \<Longrightarrow> text_of pre = w @ x @ y @ z" using rope_cursor_full [OF b(1) _ assms(5)] assms(3) b(2) by simp
  then have "suf = [] \<Longrightarrow> y = [] \<and> z = []" using assms(6) str_len_pos [of y] str_len_pos [of z] by auto
  then show ?thesis
    by (intro reads_forwardI [OF assms(1-5)]) (use assms(6,7) b(3) \<open>suf = [] \<Longrightarrow> text_of pre = _\<close> in \<open>cases "suf = []"; force\<close>)+
qed

lemma reads_backward_at:
  assumes "chunks_between ch r w x y z" "ch_reversed ch" "cursor_in rope_fits chunk_ops usize_dim (ch_chunks ch) pre suf"
    "c_did_seek (ch_chunks ch)" "c_tree (ch_chunks ch) = r" "pre \<noteq> [] \<Longrightarrow> str_len (text_of pre) < str_len (w @ x)"
    "suf \<noteq> [] \<Longrightarrow> str_len (w @ x) \<le> str_len (text_of (pre @ take 1 suf))"
  shows "reads_backward ch r w x y z"
proof -
  have b: "rope_ok r" "rope_str r = w @ x @ y @ z" "ch_offset ch = str_len (w @ x)" using assms(1) by (simp_all add: chunks_between_def)
  have "\<exists>pre c suf. cursor_in rope_fits chunk_ops usize_dim (ch_chunks ch) pre (c # suf) \<and> c_did_seek (ch_chunks ch) \<and> c_tree (ch_chunks ch) = r
      \<and> str_len (text_of pre) < ch_offset ch \<and> ch_offset ch \<le> str_len (text_of (pre @ [c]))" if "w @ x \<noteq> []"
  proof -
    have "0 < str_len (w @ x)" using that str_len_pos by blast
    then have lt: "str_len (text_of pre) < str_len (w @ x)" using assms(6) by (cases "pre = []") auto
    have "suf \<noteq> []" using rope_cursor_full [OF b(1) _ assms(5)] assms(3) b(2) lt by auto
    then obtain c suf' where "suf = c # suf'" by (cases suf) auto
    then show ?thesis using assms(3-5,7) b(3) lt by auto
  qed
  then show ?thesis using assms(1,2) unfolding reads_backward_def by blast
qed

lemma chunks_new_forward:
  assumes "rope_ok r" "node_height r < STACK_CAPACITY" "rope_str r = w @ y @ z"
  shows "\<exists>ch. chunks_new r (str_len w) (str_len (w @ y)) False = Some ch \<and> reads_forward ch r w [] y z"
proof -
  have t: "c_tree (cursor_new usize_dim r) = r" by (simp add: cursor_new_def)
  obtain eq cur pre suf where c: "cursor_seek usize_dim (cmp (str_len w)) Right (cursor_new usize_dim r) = Some (eq, cur)"
    "cursor_in rope_fits chunk_ops usize_dim cur pre suf" "c_did_seek cur" "c_tree cur = r"
    "pre \<noteq> [] \<Longrightarrow> str_len (text_of pre) \<le> str_len w" "suf \<noteq> [] \<Longrightarrow> str_len w < str_len (text_of (pre @ take 1 suf))"
    by (rule seek_offset [OF assms(1,2) t, of "str_len w" Right]) (simp add: reached_def not_le)
  have le: "str_len (text_of pre) \<le> str_len w" using c(5) by (cases "pre = []") auto
  obtain item where i: "cursor_item cur = Some item"
    "(case item of None \<Rightarrow> Some True | Some chunk \<Rightarrow> chunk_assert_char_boundary True chunk (usize_sub (str_len w) (c_position cur))) = Some True"
    by (rule seek_chunk [OF assms(1,3) c(2-4) le]) (use c(6) in simp_all)
  let ?ch = "\<lparr>ch_chunks = cur, ch_start = str_len w, ch_end = str_len (w @ y), ch_offset = str_len w, ch_reversed = False\<rparr>"
  have "reads_forward ?ch r w [] y z"
    by (rule reads_forward_at [of _ _ _ _ _ _ pre suf]) (use assms(1,3) c le in \<open>simp_all add: chunks_between_def\<close>)
  then show ?thesis using c(1) i by (simp add: chunks_new_def)
qed

lemma chunks_new_backward:
  assumes "rope_ok r" "node_height r < STACK_CAPACITY" "rope_str r = w @ x @ z"
  shows "\<exists>ch. chunks_new r (str_len w) (str_len (w @ x)) True = Some ch \<and> reads_backward ch r w x [] z \<and> on_tree ch r"
proof -
  let ?i = "str_len (w @ x)"
  have t: "c_tree (cursor_new usize_dim r) = r" by (simp add: cursor_new_def)
  obtain eq cur pre suf where c: "cursor_seek usize_dim (cmp ?i) Left (cursor_new usize_dim r) = Some (eq, cur)"
    "cursor_in rope_fits chunk_ops usize_dim cur pre suf" "c_did_seek cur" "c_tree cur = r"
    "pre \<noteq> [] \<Longrightarrow> str_len (text_of pre) < ?i" "suf \<noteq> [] \<Longrightarrow> ?i \<le> str_len (text_of (pre @ take 1 suf))"
    by (rule seek_offset [OF assms(1,2) t, of ?i Left]) (simp add: reached_def not_less)
  have le: "str_len (text_of pre) \<le> ?i" using c(5) by (cases "pre = []") auto
  have str: "rope_str r = (w @ x) @ z" using assms(3) by simp
  obtain item where i: "cursor_item cur = Some item"
    "(case item of None \<Rightarrow> Some True | Some chunk \<Rightarrow> chunk_assert_char_boundary True chunk (usize_sub ?i (c_position cur))) = Some True"
    by (rule seek_chunk [OF assms(1) str c(2-4) le]) (use c(6) in simp_all)
  let ?ch = "\<lparr>ch_chunks = cur, ch_start = str_len w, ch_end = ?i, ch_offset = ?i, ch_reversed = True\<rparr>"
  have "chunks_between ?ch r w x [] z" using assms(1,3) by (simp add: chunks_between_def)
  then have "reads_backward ?ch r w x [] z" by (rule reads_backward_at [of _ _ _ _ _ _ pre suf]) (use c in simp_all)
  moreover have "on_tree ?ch r" unfolding on_tree_def using c(2-4) by auto
  ultimately show ?thesis using c(1) i(1) i(2) [unfolded str_len_simps(3)] by (simp add: chunks_new_def)
qed

section \<open>Clients\<close>

lemma forward_leftI: "reads_forward ch r w x y z \<Longrightarrow> forward_left ch y"
  and backward_leftI: "reads_backward ch r w x y z \<Longrightarrow> backward_left ch x"
  by (auto simp: forward_left_def backward_left_def)

lemma foldr_join: "foldr (\<lambda>t y'. t @ y') ts [] = concat ts" "foldr (\<lambda>t x'. x' @ t) ts [] = concat (rev ts)"
  by (induction ts) simp_all

lemma starts_with_iff: "str_starts_with s t \<longleftrightarrow> (\<exists>u. s = t @ u)"
  unfolding str_starts_with_def by (metis append_eq_conv_conj append_take_drop_id)

lemma ends_with_iff: "str_ends_with s t \<longleftrightarrow> (\<exists>u. s = u @ t)"
  unfolding str_ends_with_def starts_with_iff by (metis rev_append rev_rev_ident)

lemma split_at_prefix [simp]: "str_split_at (p @ q) (str_len p) = Some (p, q)"
  by (simp add: str_split_at_Some)

lemma slice_prefix [simp]: "str_slice (p @ q) 0 (str_len p) = Some p"
  using slice_middle [of "[]" p q] by simp

lemma split_at_end [simp]: "str_split_at p (str_len p) = Some (p, [])"
  using split_at_prefix [of p "[]"] by simp

lemma equals_forward_ok:
  assumes "forward_left ch y"
  shows "equals_forward ch (p @ u) (str_len p) = Some (y = u)"
  using assms
proof (induction arbitrary: p u rule: fwd.reader_induct)
  case (finished ch)
  then show ?case using str_len_pos [of u] by (subst equals_forward.simps) auto
next
  case (piece ch t y' ch')
  show ?case
  proof (cases "u = []")
    case True
    then show ?thesis using piece by (subst equals_forward.simps) simp
  next
    case False
    have "equals_forward ch' (p @ t @ v) (str_len (p @ t)) = Some (y' = v)" for v using piece.IH [of "p @ t" v] by simp
    then show ?thesis using piece.hyps False str_len_pos [of u]
      by (subst equals_forward.simps) (auto simp: starts_with_iff)
  qed
qed

lemma equals_backward_ok:
  assumes "backward_left ch x"
  shows "equals_backward ch (u @ q) (str_len u) = Some (x = u)"
  using assms
proof (induction arbitrary: u q rule: bwd.reader_induct)
  case (finished ch)
  then show ?case using str_len_pos [of u] by (subst equals_backward.simps) auto
next
  case (piece ch t x' ch')
  have "equals_backward ch' (v @ t @ q) (str_len v) = Some (x' = v)" for v q using piece.IH [of v "t @ q"] .
  then show ?case using piece.hyps by (subst equals_backward.simps) (auto simp: ends_with_iff)
qed

lemma starts_with_ok:
  assumes "forward_left ch y"
  shows "starts_with_loop ch remaining = Some (str_starts_with y remaining)"
  using assms
proof (induction arbitrary: remaining rule: fwd.reader_induct)
  case (finished ch)
  then show ?case by (subst starts_with_loop.simps) (auto simp: starts_with_iff)
next
  case (piece ch t y' ch')
  show ?case
  proof (cases "str_len remaining \<le> str_len t")
    case True
    then have m: "min (str_len remaining) (str_len t) = str_len remaining" by simp
    show ?thesis
    proof (cases "\<exists>v. t = remaining @ v")
      case True
      then have "str_slice t 0 (str_len remaining) = Some remaining" by auto
      then show ?thesis using True piece.hyps m by (subst starts_with_loop.simps) (auto simp: starts_with_iff str_split_at_Some)
    next
      case False
      then have no: "\<not> str_starts_with (t @ y') remaining"
        using True by (auto simp: starts_with_iff) (metis prefix_len)
      have "\<not> str_starts_with remaining l" if "str_slice t 0 (str_len remaining) = Some l" for l
      proof
        assume "str_starts_with remaining l"
        then obtain u where u: "remaining = l @ u" by (auto simp: starts_with_iff)
        obtain k v where k: "t = k @ l @ v" "str_len k = 0" "str_len l = str_len remaining" using \<open>str_slice _ _ _ = _\<close> by (auto simp: str_slice_Some)
        then have "k = []" "u = []" using u str_len_pos [of k] str_len_pos [of u] by auto
        then show False using False k(1) u by simp
      qed
      then show ?thesis using piece.hyps m no by (subst starts_with_loop.simps) (auto split: option.splits)
    qed
  next
    case False
    then have m: "min (str_len remaining) (str_len t) = str_len t" by simp
    have "str_slice t 0 (str_len t) = Some t" using slice_prefix [of t "[]"] by simp
    moreover have "t @ y' = remaining @ u \<Longrightarrow> \<exists>v. remaining = t @ v" for u using prefix_len [of t y' remaining u] False by (metis nle_le)
    ultimately show ?thesis using piece.hyps False m piece.IH
      by (subst starts_with_loop.simps) (fastforce simp: starts_with_iff)
  qed
qed

lemma suffix_cut:
  fixes a b c d :: rstr
  assumes "a @ b = c @ d" "str_len b \<le> str_len d"
  obtains e where "d = e @ b" "a = c @ e"
proof -
  have "str_len a + str_len b = str_len c + str_len d" using arg_cong [OF assms(1), of str_len] by simp
  then have "str_len c \<le> str_len a" using assms(2) by simp
  then show thesis using prefix_len [OF assms(1) [symmetric]] that by metis
qed

lemma ends_with_ok:
  assumes "backward_left ch x"
  shows "ends_with_loop ch remaining = Some (str_ends_with x remaining)"
  using assms
proof (induction arbitrary: remaining rule: bwd.reader_induct)
  case (finished ch)
  then show ?case by (subst ends_with_loop.simps) (auto simp: ends_with_iff)
next
  case (piece ch t x' ch')
  let ?n = "usize_sub (str_len t) (min (str_len remaining) (str_len t))"
  show ?case
  proof (cases "str_len remaining \<le> str_len t")
    case le: True
    then have n: "?n = str_len t - str_len remaining" by simp
    show ?thesis
    proof (cases "\<exists>v. t = v @ remaining")
      case True
      then obtain v where v: "t = v @ remaining" ..
      then have "str_slice t ?n (str_len t) = Some remaining" using n slice_middle [of v remaining "[]"] by simp
      then show ?thesis using v piece.hyps by (subst ends_with_loop.simps) (auto simp: ends_with_iff str_split_at_Some)
    next
      case False
      then have no: "\<not> str_ends_with (x' @ t) remaining"
        using le suffix_cut [of _ remaining x' t] by (metis ends_with_iff)
      have "\<not> str_ends_with remaining l" if sl: "str_slice t ?n (str_len t) = Some l" for l
      proof
        assume "str_ends_with remaining l"
        then obtain u where u: "remaining = u @ l" by (auto simp: ends_with_iff)
        obtain k v where k: "t = k @ l @ v" "str_len k = str_len t - str_len remaining" "str_len k + str_len l = str_len t"
          using sl unfolding n str_slice_Some by blast
        then have "str_len v = 0" "str_len u = 0" using arg_cong [OF k(1), of str_len] arg_cong [OF u, of str_len] le by simp_all
        then have "v = []" "u = []" using str_len_pos [of v] str_len_pos [of u] by auto
        then show False using False k(1) u by simp
      qed
      then show ?thesis using piece.hyps no by (subst ends_with_loop.simps) (auto split: option.splits)
    qed
  next
    case False
    have "str_slice t 0 (str_len t) = Some t" using slice_prefix [of t "[]"] by simp
    moreover have "x' @ t = u @ remaining \<Longrightarrow> \<exists>v. remaining = v @ t" for u using suffix_cut [of x' t u remaining] False by (metis nle_le)
    ultimately show ?thesis using piece.hyps False piece.IH
      by (subst ends_with_loop.simps) (fastforce simp: ends_with_iff)
  qed
qed

lemma whole_forward: "rope_ok r \<Longrightarrow> node_height r < STACK_CAPACITY \<Longrightarrow>
    \<exists>ch. chunks_new r 0 (rope_len r) False = Some ch \<and> forward_left ch (rope_str r)"
  using chunks_new_forward [of r "[]" "rope_str r" "[]"] by (auto simp: rope_lengths intro: forward_leftI)

lemma whole_backward: "rope_ok r \<Longrightarrow> node_height r < STACK_CAPACITY \<Longrightarrow>
    \<exists>ch. chunks_new r 0 (rope_len r) True = Some ch \<and> backward_left ch (rope_str r)"
  using chunks_new_backward [of r "[]" "rope_str r" "[]"] by (auto simp: rope_lengths intro: backward_leftI)

lemma starts_with_len: "str_starts_with s t \<Longrightarrow> str_len t \<le> str_len s" and ends_with_len: "str_ends_with s t \<Longrightarrow> str_len t \<le> str_len s"
  by (auto simp: starts_with_iff ends_with_iff)

lemma rope_ends_ok:
  assumes "rope_ok r" "node_height r < STACK_CAPACITY"
  shows "rope_starts_with r pattern = Some (str_starts_with (rope_str r) pattern)"
    and "rope_ends_with r pattern = Some (str_ends_with (rope_str r) pattern)"
  subgoal using whole_forward [OF assms] starts_with_ok [of _ "rope_str r" pattern] starts_with_len [of "rope_str r" pattern] rope_lengths(1) [OF assms(1)]
    by (auto simp: rope_starts_with_def rope_chunks_in_range_def)
  subgoal using whole_backward [OF assms] ends_with_ok [of _ "rope_str r" pattern] ends_with_len [of "rope_str r" pattern] rope_lengths(1) [OF assms(1)]
    by (auto simp: rope_ends_with_def reversed_chunks_in_range_def)
  done

lemma concat_rev_pieces: "concat (map rev ts) = rev (concat (rev ts))"
  by (induction ts) simp_all

lemma rope_text_ok:
  assumes "rope_ok r" "node_height r < STACK_CAPACITY" "rope_str r = p @ q"
  shows "rope_to_string r = Some (rope_str r)" "chars_at r (str_len p) = Some q" "reversed_chars_at r (str_len p) = Some (rev p)"
proof -
  show "rope_to_string r = Some (rope_str r)"
    using whole_forward [OF assms(1,2)] fwd.collect_ok [of _ "rope_str r" "[]"]
    by (fastforce simp: rope_to_string_def rope_chunks_all_def rope_chunks_in_range_def foldr_join)
  have l: "rope_len r = str_len (p @ q)" using rope_lengths(1) [OF assms(1)] assms(3) by simp
  from chunks_new_forward [OF assms(1,2), of p q "[]"] assms(3) obtain ch where
    f: "chunks_new r (str_len p) (str_len (p @ q)) False = Some ch" "forward_left ch q" by (auto dest: forward_leftI)
  from fwd.collect_ok [OF f(2), of "[]"] show "chars_at r (str_len p) = Some q"
    using f(1) l by (auto simp: chars_at_def rope_chunks_in_range_def foldr_join)
  from chunks_new_backward [OF assms(1,2), of "[]" p q] assms(3) obtain ch where
    b: "chunks_new r 0 (str_len p) True = Some ch" "backward_left ch p" by (auto dest: backward_leftI)
  from bwd.collect_ok [OF b(2), of "[]"] show "reversed_chars_at r (str_len p) = Some (rev p)"
    using b(1) by (auto simp: reversed_chars_at_def reversed_chunks_in_range_def foldr_join concat_rev_pieces)
qed

end
