(* ===== verification/RopeLines.thy ===== *)
theory RopeLines
  imports RopeIter
begin

text \<open>
  Moving an iterator over the pieces of a rope (\<open>crates/rope/src/rope.rs\<close>): seeking within a range, the lines
  of a range in both directions, and the moves to the next and the previous line start.
\<close>

section \<open>Seeking\<close>

lemma seek_forward_offset:
  assumes "cursor_in rope_fits chunk_ops usize_dim cur pre suf" "str_len (text_of pre) \<le> i"
  obtains eq cur' a b where "cursor_seek_forward usize_dim (cmp i) bias cur = Some (eq, cur')"
    "cursor_in rope_fits chunk_ops usize_dim cur' (pre @ a) b" "c_did_seek cur'" "c_tree cur' = c_tree cur"
    "a \<noteq> [] \<Longrightarrow> reached bias i (str_len (text_of (pre @ a)))" "b \<noteq> [] \<Longrightarrow> \<not> reached bias i (str_len (text_of ((pre @ a) @ take 1 b)))"
proof -
  have f: "rope_fits (pre @ suf)" by (rule cursor_in_fits [OF assms(1)])
  obtain a b where ab: "seek_split chunk_ops usize_dim (past (cmp i) bias) (str_len (text_of pre)) suf = (a, b)" by fastforce
  note s = bytes.split_found [OF f, simplified, OF ab]
  from bytes.cursor_seek_forward_ok [OF assms(1), of "cmp i" bias a b] ab cursor_in_position [OF assms(1)] bytes.monotone_key [OF f, of i] assms(2)
  obtain eq cur' where "cursor_seek_forward usize_dim (cmp i) bias cur = Some (eq, cur')"
    "cursor_in rope_fits chunk_ops usize_dim cur' (pre @ a) b" "c_did_seek cur'" "c_tree cur' = c_tree cur"
    by (auto simp: cmp_neq_Less)
  then show thesis by (rule that) (use s in \<open>auto simp: take_Suc split: list.splits\<close>)
qed

lemma chunks_seek_eq:
  assumes "ch_start ch \<le> i" "i \<le> ch_end ch" "cursor_end usize_dim (ch_chunks ch) = Some e"
    and "(if ch_reversed ch
          then if e < i then map_option snd (cursor_seek_forward usize_dim (cmp i) Left (ch_chunks ch))
            else if i \<le> c_position (ch_chunks ch) then map_option snd (cursor_seek usize_dim (cmp i) Left (ch_chunks ch)) else Some (ch_chunks ch)
          else if e \<le> i then map_option snd (cursor_seek_forward usize_dim (cmp i) Right (ch_chunks ch))
            else if i < c_position (ch_chunks ch) then map_option snd (cursor_seek usize_dim (cmp i) Right (ch_chunks ch)) else Some (ch_chunks ch))
        = Some c"
  shows "chunks_seek ch i = Some (ch\<lparr>ch_chunks := c, ch_offset := i\<rparr>)"
proof -
  have m: "max (ch_start ch) (min i (ch_end ch)) = i" and "ch_start ch \<le> ch_end ch" using assms(1,2) by simp_all
  then show ?thesis unfolding chunks_seek_def Let_def m using assms(3,4) by (simp split del: if_split)
qed

text \<open>
  Seeking to a boundary of the range leaves the iterator there, whether its cursor stays on its chunk, moves
  forward or starts again.
\<close>

lemma chunks_seek_forward:
  assumes "rope_ok r" "rope_str r = w @ x @ y @ z" "ch_start ch = str_len w" "ch_end ch = str_len (w @ x @ y)" "\<not> ch_reversed ch"
    and cur: "cursor_in rope_fits chunk_ops usize_dim (ch_chunks ch) pre suf" "c_did_seek (ch_chunks ch)" "c_tree (ch_chunks ch) = r"
  shows "\<exists>ch'. chunks_seek ch (str_len (w @ x)) = Some ch' \<and> reads_forward ch' r w x y z"
proof -
  let ?i = "str_len (w @ x)" and ?cur = "ch_chunks ch"
  have h: "node_height r < STACK_CAPACITY" using cur(1,3) by (auto simp: cursor_in_def)
  have e: "cursor_end usize_dim ?cur = Some (str_len (text_of (pre @ take 1 suf)))" by (rule rope_cursor_end [OF cur(1,2)])
  have p: "c_position ?cur = str_len (text_of pre)" by (rule cursor_in_position [OF cur(1)])
  have btw: "chunks_between (ch\<lparr>ch_chunks := c, ch_offset := ?i\<rparr>) r w x y z" for c using assms(1-4) by (simp add: chunks_between_def)
  note seek = chunks_seek_eq [OF _ _ e]
  consider "str_len (text_of (pre @ take 1 suf)) \<le> ?i" | "?i < str_len (text_of pre)" "?i < str_len (text_of (pre @ take 1 suf))"
    | "str_len (text_of pre) \<le> ?i" "?i < str_len (text_of (pre @ take 1 suf))" by linarith
  then show ?thesis
  proof cases
    case 1
    then have "str_len (text_of pre) \<le> ?i" by simp
    obtain eq c a b where
      c: "cursor_seek_forward usize_dim (cmp ?i) Right ?cur = Some (eq, c)" "cursor_in rope_fits chunk_ops usize_dim c (pre @ a) b" "c_did_seek c"
      "c_tree c = r" "a \<noteq> [] \<Longrightarrow> str_len (text_of (pre @ a)) \<le> ?i" "b \<noteq> [] \<Longrightarrow> ?i < str_len (text_of ((pre @ a) @ take 1 b))"
      by (rule seek_forward_offset [OF cur(1), of ?i Right]) (use \<open>str_len (text_of pre) \<le> ?i\<close> cur(3) in \<open>simp_all add: reached_def not_le\<close>)
    have "str_len (text_of (pre @ a)) \<le> ?i" using c(5) \<open>str_len (text_of pre) \<le> ?i\<close> by (cases "a = []") simp_all
    then have "reads_forward (ch\<lparr>ch_chunks := c, ch_offset := ?i\<rparr>) r w x y z"
      by (intro reads_forward_at [OF btw, where pre = "pre @ a" and suf = b]) (use assms(5) c in simp_all)
    then show ?thesis using seek [of ?i c] c(1) 1 assms(3-5) p by simp
  next
    case 2
    obtain eq c a b where
      c: "cursor_seek usize_dim (cmp ?i) Right ?cur = Some (eq, c)" "cursor_in rope_fits chunk_ops usize_dim c a b" "c_did_seek c"
      "c_tree c = r" "a \<noteq> [] \<Longrightarrow> str_len (text_of a) \<le> ?i" "b \<noteq> [] \<Longrightarrow> ?i < str_len (text_of (a @ take 1 b))"
      by (rule seek_offset [OF assms(1) h cur(3), of ?i Right]) (simp add: reached_def not_le)
    have "str_len (text_of a) \<le> ?i" using c(5) by (cases "a = []") simp_all
    then have "reads_forward (ch\<lparr>ch_chunks := c, ch_offset := ?i\<rparr>) r w x y z"
      by (intro reads_forward_at [OF btw, where pre = a and suf = b]) (use assms(5) c in simp_all)
    then show ?thesis using seek [of ?i c] c(1) 2 assms(3-5) p by simp
  next
    case 3
    then have "reads_forward (ch\<lparr>ch_chunks := ?cur, ch_offset := ?i\<rparr>) r w x y z"
      by (intro reads_forward_at [OF btw, where pre = pre and suf = suf]) (use assms(5) cur in simp_all)
    then show ?thesis using seek [of ?i ?cur] 3 assms(3-5) p by simp
  qed
qed

lemma chunks_seek_backward:
  assumes "rope_ok r" "rope_str r = w @ x @ y @ z" "ch_start ch = str_len w" "ch_end ch = str_len (w @ x @ y)" "ch_reversed ch"
    and cur: "cursor_in rope_fits chunk_ops usize_dim (ch_chunks ch) pre suf" "c_did_seek (ch_chunks ch)" "c_tree (ch_chunks ch) = r"
  shows "\<exists>ch'. chunks_seek ch (str_len (w @ x)) = Some ch' \<and> reads_backward ch' r w x y z \<and> on_tree ch' r"
proof -
  let ?i = "str_len (w @ x)" and ?cur = "ch_chunks ch"
  have h: "node_height r < STACK_CAPACITY" using cur(1,3) by (auto simp: cursor_in_def)
  have e: "cursor_end usize_dim ?cur = Some (str_len (text_of (pre @ take 1 suf)))" by (rule rope_cursor_end [OF cur(1,2)])
  have p: "c_position ?cur = str_len (text_of pre)" by (rule cursor_in_position [OF cur(1)])
  have btw: "chunks_between (ch\<lparr>ch_chunks := c, ch_offset := ?i\<rparr>) r w x y z" for c using assms(1-4) by (simp add: chunks_between_def)
  note seek = chunks_seek_eq [OF _ _ e]
  consider "str_len (text_of (pre @ take 1 suf)) < ?i" | "?i \<le> str_len (text_of pre)" "?i \<le> str_len (text_of (pre @ take 1 suf))"
    | "str_len (text_of pre) < ?i" "?i \<le> str_len (text_of (pre @ take 1 suf))" by linarith
  then show ?thesis
  proof cases
    case 1
    then have lt: "str_len (text_of pre) < ?i" by simp
    obtain eq c a b where
      c: "cursor_seek_forward usize_dim (cmp ?i) Left ?cur = Some (eq, c)" "cursor_in rope_fits chunk_ops usize_dim c (pre @ a) b" "c_did_seek c"
      "c_tree c = r" "a \<noteq> [] \<Longrightarrow> str_len (text_of (pre @ a)) < ?i" "b \<noteq> [] \<Longrightarrow> ?i \<le> str_len (text_of ((pre @ a) @ take 1 b))"
      by (rule seek_forward_offset [OF cur(1), of ?i Left]) (use lt cur(3) in \<open>simp_all add: reached_def not_less\<close>)
    have "str_len (text_of (pre @ a)) < ?i" using c(5) lt by (cases "a = []") simp_all
    then have "reads_backward (ch\<lparr>ch_chunks := c, ch_offset := ?i\<rparr>) r w x y z"
      by (intro reads_backward_at [OF btw, where pre = "pre @ a" and suf = b]) (use assms(5) c in simp_all)
    moreover have "on_tree (ch\<lparr>ch_chunks := c, ch_offset := ?i\<rparr>) r" unfolding on_tree_def using c(2-4) by auto
    ultimately show ?thesis using seek [of ?i c] c(1) 1 assms(3-5) p by simp
  next
    case 2
    obtain eq c a b where
      c: "cursor_seek usize_dim (cmp ?i) Left ?cur = Some (eq, c)" "cursor_in rope_fits chunk_ops usize_dim c a b" "c_did_seek c"
      "c_tree c = r" "a \<noteq> [] \<Longrightarrow> str_len (text_of a) < ?i" "b \<noteq> [] \<Longrightarrow> ?i \<le> str_len (text_of (a @ take 1 b))"
      by (rule seek_offset [OF assms(1) h cur(3), of ?i Left]) (simp add: reached_def not_less)
    then have "reads_backward (ch\<lparr>ch_chunks := c, ch_offset := ?i\<rparr>) r w x y z"
      by (intro reads_backward_at [OF btw, where pre = a and suf = b]) (use assms(5) in simp_all)
    moreover have "on_tree (ch\<lparr>ch_chunks := c, ch_offset := ?i\<rparr>) r" unfolding on_tree_def using c(2-4) by auto
    ultimately show ?thesis using seek [of ?i c] c(1) 2 assms(3-5) p by simp
  next
    case 3
    then have "reads_backward (ch\<lparr>ch_chunks := ?cur, ch_offset := ?i\<rparr>) r w x y z"
      by (intro reads_backward_at [OF btw, where pre = pre and suf = suf]) (use assms(5) cur in simp_all)
    moreover have "on_tree (ch\<lparr>ch_chunks := ?cur, ch_offset := ?i\<rparr>) r" unfolding on_tree_def using cur by auto
    ultimately show ?thesis using seek [of ?i ?cur] 3 assms(3-5) p by simp
  qed
qed

section \<open>Lines\<close>

text \<open>
  One call reads up to the next newline, over as many pieces as it takes, and stands behind it; without one
  it reads to the end of the range and is done.
\<close>

lemma str_len_newline [simp]: "len_utf8 newline = 1"
  by (simp add: len_utf8_def newline_def)

lemma lines_loop_forward:
  assumes "reads_forward (ln_chunks ln) r w x y z" "\<not> ln_reversed ln" "\<not> ln_done ln"
  shows "\<exists>ln'. lines_loop ln = Some (ln_current ln @ hd (split_lines y), ln') \<and> \<not> ln_reversed ln' \<and>
    (if newline \<in> set y then \<not> ln_done ln' \<and> (\<exists>l y'. y = l @ newline # y' \<and> newline \<notin> set l \<and> reads_forward (ln_chunks ln') r w (x @ l @ [newline]) y' z)
     else ln_done ln' \<and> reads_forward (ln_chunks ln') r w (x @ y) [] z)"
  using assms
proof (induction "length y" arbitrary: ln x y rule: less_induct)
  case less
  let ?ch = "ln_chunks ln"
  show ?case
  proof (cases "y = []")
    case True
    then have "chunks_peek ?ch = Some None" using less.prems(1) forward_done by (simp add: chunks_peek_def)
    then show ?thesis using True less.prems by (subst lines_loop.simps) simp
  next
    case False
    obtain t y1 ch1 where t: "y = t @ y1" "t \<noteq> []" "chunks_peek ?ch = Some (Some t)" "chunks_next ?ch = Some (Some t, ch1)"
      "reads_forward ch1 r w (x @ t) y1 z" by (rule forward_next [OF less.prems(1) False])
    show ?thesis
    proof (cases "newline \<in> set t")
      case True
      then obtain l u where l: "t = l @ newline # u" "newline \<notin> set l" by (meson split_list_first)
      obtain pre suf where cur: "cursor_in rope_fits chunk_ops usize_dim (ch_chunks ?ch) pre suf" "c_did_seek (ch_chunks ?ch)" "c_tree (ch_chunks ?ch) = r"
        using less.prems(1) by (auto simp: reads_forward_def)
      have b: "rope_ok r" "rope_str r = w @ (x @ l @ [newline]) @ (u @ y1) @ z" "ch_start ?ch = str_len w" "ch_offset ?ch = str_len (w @ x)"
        "ch_end ?ch = str_len (w @ (x @ l @ [newline]) @ (u @ y1))" "\<not> ch_reversed ?ch"
        using less.prems(1) t(1) l(1) by (simp_all add: reads_forward_def chunks_between_def)
      obtain ch2 where "chunks_seek ?ch (str_len (w @ x @ l @ [newline])) = Some ch2" "reads_forward ch2 r w (x @ l @ [newline]) (u @ y1) z"
        using chunks_seek_forward [OF b(1-3,5,6) cur] by auto
      then show ?thesis using less.prems(2,3) t(1,3) l b(4)
        by (subst lines_loop.simps) (auto simp: split_lines_newline add.assoc Let_def)
    next
      case no: False
      let ?ln = "ln\<lparr>ln_chunks := ch1, ln_current := ln_current ln @ t\<rparr>"
      have "split_lines t = [t]" using no by (rule split_lines_line)
      then have "lines_loop ln = lines_loop ?ln" using less.prems(2) t(3,4) by (subst lines_loop.simps) simp
      moreover have "hd (split_lines y) = t @ hd (split_lines y1)" using t(1) \<open>split_lines t = [t]\<close> by (simp add: split_lines_append)
      moreover from less.hyps [of y1 ?ln "x @ t"] less.prems(2,3) t(1,2,5) obtain ln' where
        ln': "lines_loop ?ln = Some ((ln_current ln @ t) @ hd (split_lines y1), ln')" "\<not> ln_reversed ln'"
        "if newline \<in> set y1 then \<not> ln_done ln' \<and> (\<exists>l y'. y1 = l @ newline # y' \<and> newline \<notin> set l \<and> reads_forward (ln_chunks ln') r w ((x @ t) @ l @ [newline]) y' z)
         else ln_done ln' \<and> reads_forward (ln_chunks ln') r w ((x @ t) @ y1) [] z" by auto
      moreover have "\<exists>l y'. y = l @ newline # y' \<and> newline \<notin> set l \<and> reads_forward (ln_chunks ln') r w (x @ l @ [newline]) y' z" if nl: "newline \<in> set y1"
      proof -
        obtain l y' where "y1 = l @ newline # y'" "newline \<notin> set l" "reads_forward (ln_chunks ln') r w ((x @ t) @ l @ [newline]) y' z"
          using ln'(3) nl by auto
        then show ?thesis using t(1) no by (intro exI [of _ "t @ l"] exI [of _ y']) simp
      qed
      ultimately show ?thesis using t(1) no by auto
    qed
  qed
qed

lemma split_lines_last_newline: "newline \<notin> set l \<Longrightarrow> split_lines (s @ newline # l) = split_lines s @ [l]"
  using split_lines_append [of "s @ [newline]" l] by (simp add: split_lines_snoc split_lines_line)

lemma lines_loop_backward:
  assumes "reads_backward (ln_chunks ln) r w x y z" "ln_reversed ln" "\<not> ln_done ln"
  shows "\<exists>ln'. lines_loop ln = Some (last (split_lines x) @ ln_current ln, ln') \<and> ln_reversed ln' \<and>
    (if newline \<in> set x then \<not> ln_done ln' \<and> on_tree (ln_chunks ln') r \<and> (\<exists>l x'. x = x' @ newline # l \<and> newline \<notin> set l \<and> reads_backward (ln_chunks ln') r w x' (newline # l @ y) z)
     else ln_done ln' \<and> reads_backward (ln_chunks ln') r w [] (x @ y) z \<and> (w = [] \<and> x \<noteq> [] \<longrightarrow> before_first usize_dim (ch_chunks (ln_chunks ln'))) \<and> (x = [] \<longrightarrow> ln_chunks ln' = ln_chunks ln))"
  using assms
proof (induction "length x" arbitrary: ln x y rule: less_induct)
  case less
  let ?ch = "ln_chunks ln"
  show ?case
  proof (cases "x = []")
    case True
    then have "chunks_peek ?ch = Some None" using less.prems(1) backward_done by (simp add: chunks_peek_def)
    then show ?thesis using True less.prems by (subst lines_loop.simps) simp
  next
    case False
    obtain t x1 ch1 where t: "x = x1 @ t" "t \<noteq> []" "chunks_peek ?ch = Some (Some t)" "chunks_next ?ch = Some (Some t, ch1)"
      "reads_backward ch1 r w x1 (t @ y) z"
      "w @ x1 = [] \<longrightarrow> before_first usize_dim (ch_chunks ch1)" by (rule backward_next [OF less.prems(1) False])
    show ?thesis
    proof (cases "newline \<in> set t")
      case True
      then obtain u l where l: "t = u @ newline # l" "newline \<notin> set l" by (meson split_list_last)
      obtain pre suf where cur: "cursor_in rope_fits chunk_ops usize_dim (ch_chunks ?ch) pre suf" "c_did_seek (ch_chunks ?ch)" "c_tree (ch_chunks ?ch) = r"
        using less.prems(1) False by (auto simp: reads_backward_def)
      have b: "rope_ok r" "rope_str r = w @ (x1 @ u) @ (newline # l @ y) @ z" "ch_start ?ch = str_len w"
        "ch_end ?ch = str_len (w @ (x1 @ u) @ newline # l @ y)" "ch_reversed ?ch" "ch_offset ?ch = str_len (w @ x)"
        using less.prems(1) t(1) l(1) by (simp_all add: reads_backward_def chunks_between_def)
      obtain ch2 where "chunks_seek ?ch (str_len (w @ x1 @ u)) = Some ch2" "reads_backward ch2 r w (x1 @ u) (newline # l @ y) z"
        and on: "on_tree ch2 r" using chunks_seek_backward [OF b(1-5) cur] by auto
      moreover have "usize_sub (usize_sub (ch_offset ?ch) (str_len l)) 1 = str_len (w @ x1 @ u)" using b(6) t(1) l(1) by simp
      moreover have "x = (x1 @ u) @ newline # l" using t(1) l(1) by simp
      ultimately have "lines_loop ln = Some (last (split_lines x) @ ln_current ln, if ln_current ln = [] then ln\<lparr>ln_chunks := ch2\<rparr> else ln\<lparr>ln_chunks := ch2, ln_current := l @ ln_current ln\<rparr>)"
        using less.prems(2) t(3) l by (subst lines_loop.simps) (simp add: split_lines_last_newline Let_def del: append_assoc)
      moreover have "\<exists>l x'. x = x' @ newline # l \<and> newline \<notin> set l \<and> reads_backward ch2 r w x' (newline # l @ y) z"
        by (intro exI [of _ l] exI [of _ "x1 @ u"]) (use l t(1) \<open>reads_backward ch2 _ _ _ _ _\<close> in simp)
      ultimately show ?thesis using less.prems(2,3) t(1) True on by simp
    next
      case no: False
      let ?ln = "ln\<lparr>ln_chunks := ch1, ln_current := t @ ln_current ln\<rparr>"
      have "split_lines t = [t]" using no by (rule split_lines_line)
      then have "lines_loop ln = lines_loop ?ln" using less.prems(2) t(3,4) by (subst lines_loop.simps) simp
      moreover have "last (split_lines x) = last (split_lines x1) @ t" using t(1) \<open>split_lines t = [t]\<close> by (simp add: split_lines_append)
      moreover from less.hyps [of x1 ?ln "t @ y"] less.prems(2,3) t(1,2,5) obtain ln' where
        ln': "lines_loop ?ln = Some (last (split_lines x1) @ t @ ln_current ln, ln')" "ln_reversed ln'"
        "if newline \<in> set x1 then \<not> ln_done ln' \<and> on_tree (ln_chunks ln') r \<and> (\<exists>l x'. x1 = x' @ newline # l \<and> newline \<notin> set l \<and> reads_backward (ln_chunks ln') r w x' (newline # l @ t @ y) z)
         else ln_done ln' \<and> reads_backward (ln_chunks ln') r w [] (x1 @ t @ y) z \<and> (w = [] \<and> x1 \<noteq> [] \<longrightarrow> before_first usize_dim (ch_chunks (ln_chunks ln'))) \<and> (x1 = [] \<longrightarrow> ln_chunks ln' = ch1)" by auto
      moreover have "\<exists>l x'. x = x' @ newline # l \<and> newline \<notin> set l \<and> reads_backward (ln_chunks ln') r w x' (newline # l @ y) z" if nl: "newline \<in> set x1"
      proof -
        obtain l x' where "x1 = x' @ newline # l" "newline \<notin> set l" "reads_backward (ln_chunks ln') r w x' (newline # l @ t @ y) z"
          using ln'(3) nl by auto
        then show ?thesis using t(1) no by (intro exI [of _ "l @ t"] exI [of _ x']) simp
      qed
      ultimately show ?thesis using t(1,2,6) no by auto
    qed
  qed
qed

text \<open>Reading an iterator over lines to its end, and calling \<open>next\<close> a number of times.\<close>

partial_function (option) lines_collect :: "rope_lines \<Rightarrow> rstr list \<Rightarrow> rstr list rust" where
  "lines_collect self acc = do {
     (line, self) \<leftarrow> lines_next self;
     (case line of None \<Rightarrow> Some acc | Some line \<Rightarrow> lines_collect self (acc @ [line]))
   }"

fun lines_read :: "nat \<Rightarrow> rope_lines \<Rightarrow> (rstr list \<times> rope_lines) rust" where
  "lines_read 0 self = Some ([], self)"
| "lines_read (Suc n) self = do {
     (line, self) \<leftarrow> lines_next self;
     (lines, self) \<leftarrow> lines_read n self;
     Some (case line of None \<Rightarrow> lines | Some line \<Rightarrow> line # lines, self)
   }"

text \<open>
  What a reader of lines promises: \<open>left ln ls\<close> says that \<open>ls\<close> are the lines it has left to yield.
\<close>

locale line_reader =
  fixes left :: "rope_lines \<Rightarrow> rstr list \<Rightarrow> bool"
  assumes next_line: "left ln ls \<Longrightarrow> \<exists>ln'. lines_next ln = Some (first_opt ls, ln') \<and> left ln' (drop 1 ls)"
begin

lemma lines_collect_ok: "left ln ls \<Longrightarrow> lines_collect ln acc = Some (acc @ ls)"
proof (induction ls arbitrary: ln acc)
  case Nil
  then show ?case using next_line by (subst lines_collect.simps) (fastforce simp: first_opt_def)
next
  case (Cons l ls)
  obtain ln' where "lines_next ln = Some (Some l, ln')" "left ln' ls" using next_line [OF Cons.prems] by (auto simp: first_opt_def)
  then show ?case using Cons.IH by (subst lines_collect.simps) simp
qed

lemma lines_read_ok: "left ln ls \<Longrightarrow> \<exists>ln'. lines_read n ln = Some (take n ls, ln') \<and> left ln' (drop n ls)"
proof (induction n arbitrary: ln ls)
  case (Suc n)
  obtain ln' where ln': "lines_next ln = Some (first_opt ls, ln')" "left ln' (drop 1 ls)" using next_line [OF Suc.prems] by blast
  from Suc.IH [OF ln'(2)] obtain ln'' where "lines_read n ln' = Some (take n (drop 1 ls), ln'')" "left ln'' (drop (Suc n) ls)" by auto
  then show ?case using ln'(1) by (cases ls) (simp_all add: first_opt_def)
qed simp

end

text \<open>
  The states of both iterators over the lines of a range with text \<open>s\<close> between \<open>w\<close> and \<open>z\<close>. The reversed one stays
  on its tree as long as it has lines left, and longer when the range does not start at the start of the rope.
\<close>

definition lines_forward :: "rope \<Rightarrow> rstr \<Rightarrow> rstr \<Rightarrow> rstr \<Rightarrow> rope_lines \<Rightarrow> rstr list \<Rightarrow> bool" where
  "lines_forward r w s z ln ls \<longleftrightarrow> \<not> ln_reversed ln
     \<and> (\<exists>x y. reads_forward (ln_chunks ln) r w x y z \<and> x @ y = s \<and> ls = (if ln_done ln then [] else split_lines y))"

definition lines_backward :: "rope \<Rightarrow> rstr \<Rightarrow> rstr \<Rightarrow> rstr \<Rightarrow> rope_lines \<Rightarrow> rstr list \<Rightarrow> bool" where
  "lines_backward r w s z ln ls \<longleftrightarrow> ln_reversed ln \<and> (ls \<noteq> [] \<or> w \<noteq> [] \<longrightarrow> on_tree (ln_chunks ln) r)
     \<and> (\<exists>x y. reads_backward (ln_chunks ln) r w x y z \<and> x @ y = s \<and> ls = (if ln_done ln then [] else rev (split_lines x)))"

lemma lines_forwardI:
  "reads_forward (ln_chunks ln) r w x y z \<Longrightarrow> \<not> ln_reversed ln \<Longrightarrow> s = x @ y \<Longrightarrow> ls = (if ln_done ln then [] else split_lines y)
    \<Longrightarrow> lines_forward r w s z ln ls"
  unfolding lines_forward_def by blast

lemma lines_backwardI:
  "reads_backward (ln_chunks ln) r w x y z \<Longrightarrow> ln_reversed ln \<Longrightarrow> s = x @ y \<Longrightarrow> ls = (if ln_done ln then [] else rev (split_lines x))
    \<Longrightarrow> (ls \<noteq> [] \<or> w \<noteq> [] \<Longrightarrow> on_tree (ln_chunks ln) r) \<Longrightarrow> lines_backward r w s z ln ls"
  unfolding lines_backward_def by blast

lemma first_split_lines: "first_opt (split_lines s) = Some (hd (split_lines s))" "first_opt (rev (split_lines s)) = Some (last (split_lines s))"
  by (simp_all add: first_opt_def hd_rev split: list.split)

lemma lines_next_forward:
  assumes "lines_forward r w s z ln ls"
  shows "\<exists>ln'. lines_next ln = Some (first_opt ls, ln') \<and> lines_forward r w s z ln' (drop 1 ls)"
proof (cases "ln_done ln")
  case True
  then have "ls = []" using assms by (auto simp: lines_forward_def)
  then show ?thesis using True assms by (simp add: lines_next_def first_opt_def)
next
  case False
  let ?ln = "ln\<lparr>ln_current := []\<rparr>"
  obtain x y where f: "reads_forward (ln_chunks ln) r w x y z" "x @ y = s" "ls = split_lines y" "\<not> ln_reversed ln"
    using assms False by (auto simp: lines_forward_def)
  then obtain ln' where ln': "lines_loop ?ln = Some (hd (split_lines y), ln')" "\<not> ln_reversed ln'"
    "if newline \<in> set y then \<not> ln_done ln' \<and> (\<exists>l y'. y = l @ newline # y' \<and> newline \<notin> set l \<and> reads_forward (ln_chunks ln') r w (x @ l @ [newline]) y' z)
     else ln_done ln' \<and> reads_forward (ln_chunks ln') r w (x @ y) [] z" using lines_loop_forward [of ?ln r w x y z] False by auto
  then have "lines_forward r w s z ln' (drop 1 ls)"
    using f(2,3) by (auto simp: split_lines_newline split_lines_line intro: lines_forwardI split: if_splits)
  then show ?thesis using ln'(1) False f(3) by (simp add: lines_next_def first_split_lines)
qed

lemma lines_next_backward:
  assumes "lines_backward r w s z ln ls"
  shows "\<exists>ln'. lines_next ln = Some (first_opt ls, ln') \<and> lines_backward r w s z ln' (drop 1 ls)"
proof (cases "ln_done ln")
  case True
  then have "ls = []" using assms by (auto simp: lines_backward_def)
  then show ?thesis using True assms by (simp add: lines_next_def first_opt_def)
next
  case False
  let ?ln = "ln\<lparr>ln_current := []\<rparr>"
  obtain x y where b: "reads_backward (ln_chunks ln) r w x y z" "x @ y = s" "ls = rev (split_lines x)" "ln_reversed ln"
    using assms False by (auto simp: lines_backward_def)
  then obtain ln' where ln': "lines_loop ?ln = Some (last (split_lines x), ln')" "ln_reversed ln'"
    "if newline \<in> set x then \<not> ln_done ln' \<and> on_tree (ln_chunks ln') r \<and> (\<exists>l x'. x = x' @ newline # l \<and> newline \<notin> set l \<and> reads_backward (ln_chunks ln') r w x' (newline # l @ y) z)
     else ln_done ln' \<and> reads_backward (ln_chunks ln') r w [] (x @ y) z" using lines_loop_backward [of ?ln r w x y z] False by auto
  then have "lines_backward r w s z ln' (drop 1 ls)"
    using b(2,3) reads_on_tree(2) [of "ln_chunks ln'" r w "[]" "x @ y" z]
    by (auto simp: split_lines_last_newline split_lines_line intro: lines_backwardI split: if_splits)
  then show ?thesis using ln'(1) False b(3) by (simp add: lines_next_def first_split_lines)
qed

interpretation fwd_lines: line_reader "lines_forward r w s z" for r w s z
  by unfold_locales (rule lines_next_forward)

interpretation bwd_lines: line_reader "lines_backward r w s z" for r w s z
  by unfold_locales (rule lines_next_backward)

lemma direction: "reads_forward ch r w x y z \<Longrightarrow> \<not> ch_reversed ch" "reads_backward ch r w x y z \<Longrightarrow> ch_reversed ch"
  by (simp_all add: reads_forward_def reads_backward_def)

lemma chunks_lines_ok:
  "reads_forward ch r w [] s z \<Longrightarrow> lines_forward r w s z (chunks_lines ch) (split_lines s)"
  "reads_backward ch r w s [] z \<Longrightarrow> on_tree ch r \<Longrightarrow> lines_backward r w s z (chunks_lines ch) (rev (split_lines s))"
  by (auto simp: lines_forward_def lines_backward_def chunks_lines_def direction)

text \<open>Seeking starts either iterator afresh, on whatever state it was, as long as it is on its tree.\<close>

lemma lines_seek_forward:
  assumes "lines_forward r w (x @ y) z ln ls"
  shows "\<exists>ln'. lines_seek ln (str_len (w @ x)) = Some ln' \<and> ln_current ln' = [] \<and> lines_forward r w (x @ y) z ln' (split_lines y)"
proof -
  let ?ch = "ln_chunks ln"
  obtain x0 y0 where r: "reads_forward ?ch r w x0 y0 z" "x0 @ y0 = x @ y" "\<not> ln_reversed ln" using assms by (auto simp: lines_forward_def)
  obtain pre suf where cur: "cursor_in rope_fits chunk_ops usize_dim (ch_chunks ?ch) pre suf" "c_did_seek (ch_chunks ?ch)" "c_tree (ch_chunks ?ch) = r"
    using reads_on_tree(1) [OF r(1)] by (auto simp: on_tree_def)
  have "w @ x0 @ y0 = w @ x @ y" "w @ x0 @ y0 @ z = w @ x @ y @ z" using r(2) append_assoc by metis+
  then have b: "rope_ok r" "rope_str r = w @ x @ y @ z" "ch_start ?ch = str_len w" "ch_end ?ch = str_len (w @ x @ y)" "\<not> ch_reversed ?ch"
    using r(1) by (simp_all add: reads_forward_def chunks_between_def)
  from chunks_seek_forward [OF b cur] obtain ch' where "chunks_seek ?ch (str_len (w @ x)) = Some ch'" "reads_forward ch' r w x y z" by blast
  then show ?thesis using r(3) by (auto simp: lines_seek_def lines_forward_def)
qed

lemma lines_seek_backward:
  assumes "lines_backward r w (x @ y) z ln ls" "ls \<noteq> [] \<or> w \<noteq> []"
  shows "\<exists>ln'. lines_seek ln (str_len (w @ x)) = Some ln' \<and> ln_current ln' = [] \<and> lines_backward r w (x @ y) z ln' (rev (split_lines x))"
proof -
  let ?ch = "ln_chunks ln"
  obtain x0 y0 where r: "reads_backward ?ch r w x0 y0 z" "x0 @ y0 = x @ y" "ln_reversed ln" "on_tree ?ch r" using assms by (auto simp: lines_backward_def)
  obtain pre suf where cur: "cursor_in rope_fits chunk_ops usize_dim (ch_chunks ?ch) pre suf" "c_did_seek (ch_chunks ?ch)" "c_tree (ch_chunks ?ch) = r"
    using r(4) by (auto simp: on_tree_def)
  have "w @ x0 @ y0 = w @ x @ y" "w @ x0 @ y0 @ z = w @ x @ y @ z" using r(2) append_assoc by metis+
  then have b: "rope_ok r" "rope_str r = w @ x @ y @ z" "ch_start ?ch = str_len w" "ch_end ?ch = str_len (w @ x @ y)" "ch_reversed ?ch"
    using r(1) by (simp_all add: reads_backward_def chunks_between_def)
  from chunks_seek_backward [OF b cur] obtain ch' where "chunks_seek ?ch (str_len (w @ x)) = Some ch'" "reads_backward ch' r w x y z" "on_tree ch' r" by blast
  then show ?thesis using r(3) by (auto simp: lines_seek_def lines_backward_def)
qed

text \<open>
  A reversed iterator that has read a range back to the start of the rope has moved its cursor before the first chunk.
  There the cursor has no path into the tree, so seeking forward finds nothing and leaves it at the end.
\<close>

lemma chunks_seek_before_first:
  assumes "before_first usize_dim (ch_chunks ch)" "ch_reversed ch" "ch_start ch = 0" "0 < i" "i \<le> ch_end ch"
  shows "\<exists>ch'. chunks_seek ch i = Some ch' \<and> chunks_peek ch' = Some None"
  using assms
  by (simp add: chunks_seek_def before_first_def cursor_end_def cursor_item_summary_def cursor_seek_forward_def seek_internal_def
      assert_did_seek_def seek_loop.simps [of _ _ _ _ "[]"] cmp_def chunks_peek_def cursor_item_def Let_def usize_dim_def)

lemma lines_collect_no_chunk:
  assumes "chunks_peek (ln_chunks ln) = Some None" "\<not> ln_done ln"
  shows "lines_collect ln [] = Some [[]]"
proof -
  let ?ln = "ln\<lparr>ln_current := []\<rparr>"
  have "lines_next ln = Some (Some [], ?ln\<lparr>ln_done := True\<rparr>)" using assms by (simp add: lines_next_def lines_loop.simps [of ?ln])
  moreover have "lines_collect (?ln\<lparr>ln_done := True\<rparr>) acc = Some acc" for acc
    by (subst lines_collect.simps) (simp add: lines_next_def)
  ultimately show ?thesis by (subst lines_collect.simps) simp
qed

lemma lines_read_before_first:
  assumes "reads_backward (ln_chunks ln) r [] x y z" "ln_reversed ln" "\<not> ln_done ln" "x \<noteq> []" "hd x \<noteq> newline"
  shows "\<exists>ln'. lines_read (length (split_lines x)) ln = Some (rev (split_lines x), ln')
    \<and> before_first usize_dim (ch_chunks (ln_chunks ln')) \<and> reads_backward (ln_chunks ln') r [] [] (x @ y) z"
  using assms
proof (induction "length x" arbitrary: ln x y rule: less_induct)
  case less
  let ?ln = "ln\<lparr>ln_current := []\<rparr>"
  from lines_loop_backward [of ?ln r "[]" x y z] less.prems obtain ln' where
    ln': "lines_loop ?ln = Some (last (split_lines x), ln')" "ln_reversed ln'"
    "if newline \<in> set x then \<not> ln_done ln' \<and> on_tree (ln_chunks ln') r \<and> (\<exists>l x'. x = x' @ newline # l \<and> newline \<notin> set l \<and> reads_backward (ln_chunks ln') r [] x' (newline # l @ y) z)
     else ln_done ln' \<and> reads_backward (ln_chunks ln') r [] [] (x @ y) z \<and> ([] = [] \<and> x \<noteq> [] \<longrightarrow> before_first usize_dim (ch_chunks (ln_chunks ln'))) \<and> (x = [] \<longrightarrow> ln_chunks ln' = ln_chunks ?ln)"
    by (auto simp del: if_split)
  then have step: "lines_next ln = Some (Some (last (split_lines x)), ln')" using less.prems(3) by (simp add: lines_next_def)
  show ?case
  proof (cases "newline \<in> set x")
    case False
    then show ?thesis using ln'(3) step less.prems(4) by (simp add: split_lines_line)
  next
    case True
    then obtain l x' where x: "x = x' @ newline # l" "newline \<notin> set l" "reads_backward (ln_chunks ln') r [] x' (newline # l @ y) z" "\<not> ln_done ln'"
      using ln'(3) by auto
    have "x' \<noteq> []" "hd x' \<noteq> newline" using less.prems(4,5) x(1) by (cases x'; simp)+
    with less.hyps [of x' ln' "newline # l @ y"] x ln'(2) obtain ln'' where "lines_read (length (split_lines x')) ln' = Some (rev (split_lines x'), ln'')"
      "before_first usize_dim (ch_chunks (ln_chunks ln''))" "reads_backward (ln_chunks ln'') r [] [] (x @ y) z" by auto
    then show ?thesis using step x(1,2) by (simp add: split_lines_last_newline)
  qed
qed

section \<open>The next line\<close>

lemma newline_rows: "newline \<in> set s \<longleftrightarrow> 0 < rows s"
  by (induction s) (auto simp: rows_Nil rows_Cons)

lemma has_newline_spec:
  assumes "str_len s < 2 ^ 32"
  shows "has_newline (ChunkSummary (summary_spec s)) \<longleftrightarrow> newline \<in> set s"
  using unat_rows [OF assms] unfolding has_newline_def newline_rows by (simp add: summary_positions word_less_nat_alt)

lemma hit_newline: "chunk_ok c \<Longrightarrow> has_newline (chunk_summary_of c) \<longleftrightarrow> newline \<in> set (ck_text c)"
  using has_newline_spec [of "ck_text c"] by (simp add: chunk_summary_spec chunk_ok_def MAX_BASE_def)

lemma sieve_newline: "sieve rope_fits chunk_ops has_newline"
  unfolding sieve_def
proof (intro allI impI)
  fix xs i assume xs: "rope_fits xs" "i \<in> set xs" "has_newline (it_summary chunk_ops i)"
  then have "newline \<in> set (text_of xs)" using hit_newline [of i] by (auto simp: rope_fits_def list_all_iff text_of_def)
  then show "has_newline (flat chunk_ops xs)" using has_newline_spec [of "text_of xs"] xs(1) by (simp add: flat_rope rope_fits_def)
qed

lemma find_newline: "str_find newline (l @ newline # u) = Some (str_len l)" if "newline \<notin> set l"
  using that by (induction l) auto

lemma find_no_newline: "newline \<notin> set s \<Longrightarrow> str_find newline s = None"
  by (induction s) auto

text \<open>At the end of its chunk the iterator goes on to the next one, if there is more to read.\<close>

lemma settle_forward:
  assumes "chunks_between ch r w x y z" "\<not> ch_reversed ch" "cursor_in rope_fits chunk_ops usize_dim (ch_chunks ch) pre (c # suf)"
    "c_did_seek (ch_chunks ch)" "c_tree (ch_chunks ch) = r" "str_len (text_of pre) \<le> ch_offset ch" "ch_offset ch \<le> str_len (text_of (pre @ [c]))"
  shows "\<exists>ch'. (if ch_offset ch = str_len (text_of (pre @ [c])) then map_option snd (chunks_next ch) else Some ch) = Some ch'
    \<and> reads_forward ch' r w x y z"
proof -
  let ?cur = "ch_chunks ch" and ?e = "str_len (text_of (pre @ [c]))"
  have b: "rope_ok r" "rope_str r = w @ x @ y @ z" "ch_start ch = str_len w" "ch_offset ch = str_len (w @ x)" "ch_end ch = str_len (w @ x @ y)"
    using assms(1) by (simp_all add: chunks_between_def)
  have pos: "c_position ?cur = str_len (text_of pre)" by (rule cursor_in_position [OF assms(3)])
  have e: "cursor_end usize_dim ?cur = Some ?e" using rope_cursor_end [OF assms(3,4)] by simp
  have item: "cursor_item ?cur = Some (Some c)" using cursor_item_at(1) [OF assms(3,4)] by (simp add: first_opt_def)
  consider "ch_offset ch \<noteq> ?e" | "ch_offset ch = ?e" "y = []" | "ch_offset ch = ?e" "y \<noteq> []" by blast
  then show ?thesis
  proof cases
    case 1
    then show ?thesis using reads_forward_at [OF assms(1-5)] assms(6,7) b(4) by simp
  next
    case 2
    then have "reads_forward ch r w x y z" by (intro reads_forwardI [OF assms(1-6)]) (use assms(7) in simp_all)
    then show ?thesis using 2 forward_done by (auto simp: chunks_next_def chunks_peek_def)
  next
    case 3
    from bytes.cursor_next_ok [OF assms(3)] assms(4,5) obtain cur' where
      c': "cursor_next usize_dim ?cur = Some cur'" "c_did_seek cur'" "c_tree cur' = r" "cursor_in rope_fits chunk_ops usize_dim cur' (pre @ [c]) suf" by auto
    have items: "tree_items r = pre @ c # suf" using assms(3,5) by (auto simp: cursor_in_def)
    have "text_of (pre @ [c]) @ text_of suf = (w @ x) @ y @ z" using b(2) items by (simp add: rope_str_def)
    moreover have "str_len (text_of (pre @ [c])) = str_len (w @ x)" using 3 b(4) by simp
    ultimately have "text_of suf = y @ z" using same_cut [of "text_of (pre @ [c])" "text_of suf" "w @ x" "y @ z"] by simp
    then have "0 < str_len (text_of (take 1 suf))"
      using first_chunk_nonempty [of suf y z] rope_okD(2) [OF b(1)] items 3(2) by fastforce
    moreover have "chunks_between (ch\<lparr>ch_chunks := cur'\<rparr>) r w x y z" using assms(1) by (simp add: chunks_between_def)
    ultimately have "reads_forward (ch\<lparr>ch_chunks := cur'\<rparr>) r w x y z"
      using c' assms(2) 3(1) by (intro reads_forwardI [of _ _ _ _ _ _ "pre @ [c]" suf]) simp_all
    moreover have "chunks_slice_range ch = Some (str_len (ck_text c), str_len (ck_text c))"
      using assms(2) e pos 3 b(4,5) by (simp add: chunks_slice_range_def)
    then have "chunks_peek ch = Some (Some [])" using item 3 b assms(2) str_len_pos [of y] slice_middle [of "ck_text c" "[]" "[]"]
      by (simp add: chunks_peek_def offset_is_valid_def)
    then have "chunks_next ch = Some (Some [], ch\<lparr>ch_chunks := cur'\<rparr>)"
      using e c'(1) 3(1) assms(2) by (simp add: chunks_next_def chunks_advance_def)
    ultimately show ?thesis using 3 by simp
  qed
qed

text \<open>A newline in the piece at hand.\<close>

lemma newline_here:
  assumes "reads_forward ch r w x y z" "y \<noteq> []" "chunks_peek ch = Some (Some t)" "newline \<in> set t"
  shows "\<exists>l y' e ch'. str_find newline t = Some (str_len l) \<and> y = l @ newline # y' \<and> newline \<notin> set l \<and> cursor_end usize_dim (ch_chunks ch) = Some e
    \<and> (let ch1 = ch\<lparr>ch_offset := ch_offset ch + (str_len l + 1)\<rparr> in
        (if ch_offset ch1 = e then map_option snd (chunks_next ch1) else Some ch1) = Some ch' \<and> ch_offset ch1 \<le> ch_end ch1)
    \<and> reads_forward ch' r w (x @ l @ [newline]) y' z"
proof -
  obtain p t' s y1 where c: "y = t' @ y1" "t' \<noteq> []" "y1 = [] \<or> s = []" "offset_is_valid ch"
    "cursor_item (ch_chunks ch) = Some (Some (chunk_of (p @ t' @ s)))" "chunks_slice_range ch = Some (str_len p, str_len p + str_len t')"
    "str_len (w @ x) = c_position (ch_chunks ch) + str_len p" "cursor_end usize_dim (ch_chunks ch) = Some (str_len (w @ x @ t' @ s))"
    by (rule forward_chunk [OF assms(1,2)])
  have "t' = t" using chunks_peek_middle [OF c(4-6)] assms(3) by simp
  obtain l u where l: "t = l @ newline # u" "newline \<notin> set l" using split_list_first [OF assms(4)] by auto
  have b: "chunks_between ch r w x y z" "\<not> ch_reversed ch" using assms(1) by (simp_all add: reads_forward_def)
  obtain pre suf where cur: "cursor_in rope_fits chunk_ops usize_dim (ch_chunks ch) pre suf" "c_did_seek (ch_chunks ch)" "c_tree (ch_chunks ch) = r"
    "str_len (text_of pre) \<le> ch_offset ch" using assms(1) by (auto simp: reads_forward_def)
  then obtain k suf' where suf: "suf = k # suf'" using cursor_item_at(1) [OF cur(1,2)] c(5) by (cases suf) (auto simp: first_opt_def)
  let ?ch = "ch\<lparr>ch_offset := ch_offset ch + (str_len l + 1)\<rparr>"
  have e: "str_len (text_of (pre @ [k])) = str_len (w @ x @ t' @ s)" using rope_cursor_end [OF cur(1,2)] c(8) suf by simp
  have btw: "chunks_between ?ch r w (x @ l @ [newline]) (u @ y1) z" using b(1) c(1) l(1) \<open>t' = t\<close> by (simp add: chunks_between_def)
  have "\<exists>ch'. (if ch_offset ?ch = str_len (text_of (pre @ [k])) then map_option snd (chunks_next ?ch) else Some ?ch) = Some ch'
    \<and> reads_forward ch' r w (x @ l @ [newline]) (u @ y1) z"
    by (rule settle_forward [OF btw]) (use b cur suf e c(1) l(1) \<open>t' = t\<close> in \<open>simp_all add: chunks_between_def\<close>)
  then obtain ch' where "(if ch_offset ?ch = str_len (w @ x @ t' @ s) then map_option snd (chunks_next ?ch) else Some ?ch) = Some ch'"
    "reads_forward ch' r w (x @ l @ [newline]) (u @ y1) z" unfolding e by blast
  moreover have "ch_offset ?ch \<le> ch_end ?ch" using btw by (simp add: chunks_between_def)
  ultimately show ?thesis using c(1,8) l \<open>t' = t\<close> find_newline [OF l(2), of u] unfolding Let_def
    by (intro exI [of _ l] exI [of _ "u @ y1"] exI [of _ "str_len (w @ x @ t' @ s)"] exI [of _ ch'] conjI) simp_all
qed

text \<open>Past the end of the range the iterator is brought back to it.\<close>

lemma clamp_to_end:
  assumes "rope_ok r" "node_height r < STACK_CAPACITY" "rope_str r = w @ x @ z" "ch_start ch = str_len w" "ch_end ch = str_len (w @ x)" "\<not> ch_reversed ch"
    and "c_tree (ch_chunks ch) = r" "ch_end ch < ch_offset ch"
  shows "\<exists>eq cur'. cursor_seek usize_dim (cmp (ch_end ch)) Right (ch_chunks ch) = Some (eq, cur')
    \<and> reads_forward (ch\<lparr>ch_offset := min (ch_offset ch) (ch_end ch), ch_chunks := cur'\<rparr>) r w x [] z"
proof -
  let ?i = "str_len (w @ x)"
  obtain eq c a b where
    c: "cursor_seek usize_dim (cmp ?i) Right (ch_chunks ch) = Some (eq, c)" "cursor_in rope_fits chunk_ops usize_dim c a b" "c_did_seek c"
    "c_tree c = r" "a \<noteq> [] \<Longrightarrow> str_len (text_of a) \<le> ?i" "b \<noteq> [] \<Longrightarrow> ?i < str_len (text_of (a @ take 1 b))"
    by (rule seek_offset [OF assms(1,2,7), of ?i Right]) (simp add: reached_def not_le)
  have "str_len (text_of a) \<le> ?i" using c(5) by (cases "a = []") simp_all
  then have "reads_forward (ch\<lparr>ch_offset := min (ch_offset ch) (ch_end ch), ch_chunks := c\<rparr>) r w x [] z"
    by (intro reads_forward_at [where pre = a and suf = b]) (use assms c in \<open>simp_all add: chunks_between_def\<close>)
  then show ?thesis using c(1) assms(5) by auto
qed

text \<open>The search for the next chunk with a newline, from the chunk that follows the piece at hand.\<close>

lemma search_newline:
  assumes "reads_forward ch r w x y z" "y \<noteq> []" "chunks_peek ch = Some (Some t)" "newline \<notin> set t"
  obtains cur' pre suf s u y1 where "y = t @ y1" "y1 = [] \<or> s = []" "search_forward usize_dim has_newline (ch_chunks ch) = Some cur'"
    "cursor_in rope_fits chunk_ops usize_dim cur' pre suf" "c_did_seek cur'" "c_tree cur' = r"
    "text_of pre = w @ x @ t @ s @ u" "newline \<notin> set u" "y1 @ z = s @ u @ text_of suf" "suf \<noteq> [] \<longrightarrow> newline \<in> set (ck_text (hd suf))"
proof -
  let ?cur = "ch_chunks ch"
  obtain p t' s y1 where c: "y = t' @ y1" "t' \<noteq> []" "y1 = [] \<or> s = []" "offset_is_valid ch"
    "cursor_item ?cur = Some (Some (chunk_of (p @ t' @ s)))" "chunks_slice_range ch = Some (str_len p, str_len p + str_len t')"
    "cursor_end usize_dim ?cur = Some (str_len (w @ x @ t' @ s))"
    by (rule forward_chunk [OF assms(1,2)])
  have "t' = t" using chunks_peek_middle [OF c(4-6)] assms(3) by simp
  obtain pre suf where cur: "cursor_in rope_fits chunk_ops usize_dim ?cur pre suf" "c_did_seek ?cur" "c_tree ?cur = r"
    using assms(1) by (auto simp: reads_forward_def)
  then obtain k suf' where suf: "suf = k # suf'" using cursor_item_at(1) [OF cur(1,2)] c(5) by (cases suf) (auto simp: first_opt_def)
  have ne: "c_stack ?cur \<noteq> []" using cur(1,2) suf by (auto simp: cursor_in_def)
  let ?hit = "\<lambda>i. \<not> hit chunk_ops has_newline i"
  obtain cur' where cur': "search_forward usize_dim has_newline ?cur = Some cur'" "c_did_seek cur'" "c_tree cur' = r"
    "cursor_in rope_fits chunk_ops usize_dim cur' (pre @ k # takeWhile ?hit suf') (dropWhile ?hit suf')"
    using bytes.search_forward_ok [OF sieve_newline cur(1) refl refl] ne suf cur(3) by auto
  have b: "rope_ok r" "rope_str r = w @ x @ y @ z" using assms(1) by (auto simp: reads_forward_def chunks_between_def)
  have items: "tree_items r = pre @ k # suf'" using cur(1,3) suf by (auto simp: cursor_in_def)
  then have ok: "list_all chunk_ok suf'" using rope_okD(2) [OF b(1)] by simp
  have len: "str_len (text_of (pre @ [k])) = str_len (w @ x @ t @ s)" using rope_cursor_end [OF cur(1,2)] c(7) suf \<open>t' = t\<close> by simp
  have "(w @ x @ t) @ y1 @ z = text_of (pre @ [k]) @ text_of suf'" using b(2) items c(1) \<open>t' = t\<close> by (simp add: rope_str_def)
  then obtain q where q: "text_of (pre @ [k]) = (w @ x @ t) @ q" "y1 @ z = q @ text_of suf'" by (rule prefix_len) (use len in simp)
  have "str_len q = str_len s" using len unfolding q(1) by simp
  then have "y1 = [] \<or> q = []" using c(3) str_len_pos [of q] by auto
  moreover have "text_of suf' = text_of (takeWhile ?hit suf') @ text_of (dropWhile ?hit suf')" by (metis takeWhile_dropWhile_id text_of_simps(3))
  moreover have "newline \<notin> set (text_of (takeWhile ?hit suf'))"
    using ok by (auto simp: text_of_def list_all_iff hit_newline dest!: set_takeWhileD)
  moreover have "newline \<in> set (ck_text (hd (dropWhile ?hit suf')))" if "dropWhile ?hit suf' \<noteq> []"
    using hd_dropWhile [OF that] hit_newline [of "hd (dropWhile ?hit suf')"] ok set_dropWhileD [OF list.set_sel(1) [OF that]]
    by (simp add: list_all_iff)
  ultimately show thesis using c(1) \<open>t' = t\<close> cur' q
    by (intro that [of y1 q cur' "pre @ k # takeWhile ?hit suf'" "dropWhile ?hit suf'" "text_of (takeWhile ?hit suf')"]) auto
qed

text \<open>The iterator on the chunk the search has found, while the range reaches there.\<close>

lemma reads_found:
  assumes "chunks_between ch r w x (t @ y1) z" "\<not> ch_reversed ch" "cursor_in rope_fits chunk_ops usize_dim cur' pre suf" "c_did_seek cur'" "c_tree cur' = r"
    and "text_of pre = w @ x @ t @ u" "y1 = u @ y2"
  shows "reads_forward (ch\<lparr>ch_chunks := cur', ch_offset := c_position cur'\<rparr>) r w (x @ t @ u) y2 z"
proof (rule reads_forward_at)
  have items: "tree_items r = pre @ suf" using assms(3,5) by (auto simp: cursor_in_def)
  have "c_position cur' = str_len (text_of pre)" by (rule cursor_in_position [OF assms(3)])
  then show "chunks_between (ch\<lparr>ch_chunks := cur', ch_offset := c_position cur'\<rparr>) r w (x @ t @ u) y2 z"
    using assms(1,6,7) by (simp add: chunks_between_def)
  assume "suf \<noteq> []"
  then have "0 < str_len (text_of (take 1 suf))"
    using rope_okD(2) [of r] assms(1) items str_len_pos by (cases suf) (auto simp: chunks_between_def chunk_ok_def)
  then show "str_len (w @ x @ t @ u) < str_len (text_of (pre @ take 1 suf))" using assms(6) by simp
qed (use assms in simp_all)

lemma next_line_beyond:
  assumes "reads_forward ch r w x y z" "y \<noteq> []" "newline \<notin> set y"
  shows "\<exists>ch'. next_line ch = Some (False, ch') \<and> reads_forward ch' r w (x @ y) [] z"
proof -
  obtain t y0 ch0 where t: "y = t @ y0" "chunks_peek ch = Some (Some t)" by (rule forward_next [OF assms(1,2)])
  have nt: "newline \<notin> set t" using assms(3) t(1) by simp
  obtain cur' pre suf s u y1 where c: "y = t @ y1" "y1 = [] \<or> s = []" "search_forward usize_dim has_newline (ch_chunks ch) = Some cur'"
    "cursor_in rope_fits chunk_ops usize_dim cur' pre suf" "c_did_seek cur'" "c_tree cur' = r"
    "text_of pre = w @ x @ t @ s @ u" "newline \<notin> set u" "y1 @ z = s @ u @ text_of suf" "suf \<noteq> [] \<longrightarrow> newline \<in> set (ck_text (hd suf))"
    by (rule search_newline [OF assms(1,2) t(2) nt])
  let ?e = "str_len (text_of (pre @ take 1 suf))" and ?ch = "ch\<lparr>ch_chunks := cur', ch_offset := c_position cur'\<rparr>"
  have b: "chunks_between ch r w x (t @ y1) z" "\<not> ch_reversed ch" "rope_ok r" "rope_str r = w @ (x @ y) @ z" "ch_start ch = str_len w" "ch_end ch = str_len (w @ x @ y)"
    using assms(1) c(1) by (simp_all add: reads_forward_def chunks_between_def)
  have pos: "c_position cur' = str_len (text_of pre)" and e: "cursor_end usize_dim cur' = Some ?e"
    by (rule cursor_in_position [OF c(4)], rule rope_cursor_end [OF c(4,5)])
  have "\<exists>found. chunks_peek ?ch = Some found \<and> Option.bind found (str_find newline) = None \<and> ch_end ch \<le> ?e"
  proof (cases "str_len (text_of pre) < ch_end ch")
    case True
    then have "str_len (s @ u) < str_len y1" using c(1,7) b(6) by simp
    then have "s = []" using c(2) by auto
    with c(9) \<open>str_len (s @ u) < _\<close> obtain y2 where y2: "y1 = u @ y2" "text_of suf = y2 @ z"
      using prefix_len [of u "text_of suf" y1 z] by (metis append_Nil less_imp_le)
    then have "y2 \<noteq> []" using \<open>str_len (s @ u) < _\<close> \<open>s = []\<close> by auto
    have "reads_forward ?ch r w (x @ t @ u) y2 z" by (rule reads_found [OF b(1,2) c(4-6) _ y2(1)]) (use c(7) \<open>s = []\<close> in simp)
    then obtain t2 y3 where t2: "y2 = t2 @ y3" "chunks_peek ?ch = Some (Some t2)" by (rule forward_next [OF _ \<open>y2 \<noteq> []\<close>])
    have "newline \<notin> set y2" using assms(3) c(1) y2(1) by simp
    moreover obtain k ks where suf: "suf = k # ks" using y2(2) \<open>y2 \<noteq> []\<close> by (cases suf) auto
    moreover have "str_len (ck_text k) \<le> str_len y2 \<Longrightarrow> \<exists>v. y2 = ck_text k @ v"
      using y2(2) suf prefix_len [of "ck_text k" "text_of ks" y2 z] by (metis text_of_simps(2))
    ultimately have "str_len y2 < str_len (ck_text k)" using c(10) by fastforce
    then show ?thesis using t2 \<open>newline \<notin> set y2\<close> suf b(6) c(1,7) y2(1) \<open>s = []\<close> by (simp add: find_no_newline)
  next
    case False
    then have "chunks_peek ?ch = Some None" using pos b(2) by (simp add: chunks_peek_def offset_is_valid_def)
    then show ?thesis using False by simp
  qed
  then obtain found where found: "chunks_peek ?ch = Some found" "Option.bind found (str_find newline) = None" "ch_end ch \<le> ?e" by blast
  let ?ch2 = "ch\<lparr>ch_chunks := cur', ch_offset := ?e\<rparr>"
  have "chunks_next ?ch2 = Some (None, ?ch2)" using found(3) b(2) by (simp add: chunks_next_def chunks_peek_def offset_is_valid_def)
  then have line: "next_line ch = (if ch_end ch < ?e then do {
      (_, chunks) \<leftarrow> cursor_seek usize_dim (cmp (min ?e (ch_end ch))) Right cur';
      Some (False, ch\<lparr>ch_offset := min ?e (ch_end ch), ch_chunks := chunks\<rparr>) } else Some (False, ?ch2))"
    using b(2) t(2) find_no_newline [OF nt] c(3) found e by (simp add: next_line_def Let_def)
  show ?thesis
  proof (cases "ch_end ch < ?e")
    case True
    have "node_height r < STACK_CAPACITY" using c(4,6) by (auto simp: cursor_in_def)
    from clamp_to_end [OF b(3) this b(4), of ?ch2] b(2,5,6) c(6) True line show ?thesis by (auto simp: min_def)
  next
    case False
    then have "reads_forward ?ch2 r w (x @ y) [] z"
      by (intro reads_forwardI [of _ _ _ _ _ _ pre suf]) (use b c(4-6) found(3) in \<open>simp_all add: chunks_between_def\<close>)
    then show ?thesis using line False by simp
  qed
qed

lemma next_line_far:
  assumes "reads_forward ch r w x y z" "chunks_peek ch = Some (Some t)" "y = t @ y0" "newline \<notin> set t" "newline \<in> set y"
  shows "\<exists>ch' l y'. next_line ch = Some (True, ch') \<and> y = l @ newline # y' \<and> newline \<notin> set l \<and> reads_forward ch' r w (x @ l @ [newline]) y' z"
proof -
  have "y \<noteq> []" using assms(5) by auto
  obtain cur' pre suf s u y1 where
    c: "y = t @ y1" "y1 = [] \<or> s = []" "search_forward usize_dim has_newline (ch_chunks ch) = Some cur'"
    "cursor_in rope_fits chunk_ops usize_dim cur' pre suf" "c_did_seek cur'" "c_tree cur' = r"
    "text_of pre = w @ x @ t @ s @ u" "newline \<notin> set u" "y1 @ z = s @ u @ text_of suf" "suf \<noteq> [] \<longrightarrow> newline \<in> set (ck_text (hd suf))"
    by (rule search_newline [OF assms(1) \<open>y \<noteq> []\<close> assms(2,4)])
  have "newline \<in> set y1" using assms(4,5) c(1) by auto
  then have "s = []" using c(2) by auto
  have "\<not> str_len y1 \<le> str_len u"
  proof
    assume "str_len y1 \<le> str_len u"
    then obtain v where "u = y1 @ v" by (rule prefix_len [rotated, of y1 u z "text_of suf"]) (use c(9) \<open>s = []\<close> in simp_all)
    then show False using \<open>newline \<in> set y1\<close> c(8) by simp
  qed
  then obtain y2 where y2: "y1 = u @ y2" "text_of suf = y2 @ z"
    using prefix_len [of u "text_of suf" y1 z] c(9) \<open>s = []\<close> by (metis append_Nil nle_le)
  then have nl2: "newline \<in> set y2" using \<open>newline \<in> set y1\<close> c(8) by simp
  then have "y2 \<noteq> []" by auto
  let ?ch = "ch\<lparr>ch_chunks := cur', ch_offset := c_position cur'\<rparr>"
  have b: "chunks_between ch r w x (t @ y1) z" "\<not> ch_reversed ch" using assms(1) c(1) by (simp_all add: reads_forward_def)
  have rf: "reads_forward ?ch r w (x @ t @ u) y2 z" by (rule reads_found [OF b c(4-6) _ y2(1)]) (use c(7) \<open>s = []\<close> in simp)
  obtain k ks where suf: "suf = k # ks" using y2(2) \<open>y2 \<noteq> []\<close> by (cases suf) auto
  obtain p t2 s2 y3 where t2: "y2 = t2 @ y3" "y3 = [] \<or> s2 = []" "offset_is_valid ?ch"
    "cursor_item (ch_chunks ?ch) = Some (Some (chunk_of (p @ t2 @ s2)))" "chunks_slice_range ?ch = Some (str_len p, str_len p + str_len t2)"
    "str_len (w @ x @ t @ u) = c_position (ch_chunks ?ch) + str_len p"
    by (rule forward_chunk [OF rf \<open>y2 \<noteq> []\<close>])
  have peek: "chunks_peek ?ch = Some (Some t2)" by (rule chunks_peek_middle [OF t2(3-5)])
  have "p = []" using t2(6) cursor_in_position [OF c(4)] c(7) \<open>s = []\<close> str_len_pos [of p] by auto
  moreover have "k = chunk_of (p @ t2 @ s2)" using t2(4) cursor_item_at(1) [OF c(4,5)] suf by (simp add: first_opt_def)
  ultimately have "newline \<in> set t2" using t2(1,2) nl2 c(10) suf by auto
  from newline_here [OF rf \<open>y2 \<noteq> []\<close> peek this] obtain l y' e ch' where
    l: "str_find newline t2 = Some (str_len l)" "y2 = l @ newline # y'" "newline \<notin> set l" "cursor_end usize_dim cur' = Some e"
    "let ch1 = ?ch\<lparr>ch_offset := ch_offset ?ch + (str_len l + 1)\<rparr> in
        (if ch_offset ch1 = e then map_option snd (chunks_next ch1) else Some ch1) = Some ch' \<and> ch_offset ch1 \<le> ch_end ch1"
    "reads_forward ch' r w ((x @ t @ u) @ l @ [newline]) y' z" by auto
  have "ch_offset ch' \<le> ch_end ch'" using l(6) by (auto simp: reads_forward_def chunks_between_def)
  then have "next_line ch = Some (True, ch')"
    using b(2) assms(2) find_no_newline [OF assms(4)] c(3) peek l(1,4,5) by (auto simp: next_line_def Let_def split: if_splits)
  then show ?thesis using c(1,8) y2(1) l(2,3,6) assms(4)
    by (intro exI [of _ ch'] exI [of _ "t @ u @ l"] exI [of _ y']) simp
qed

lemma next_line_ok:
  assumes "reads_forward ch r w x y z"
  shows "\<exists>ch'. next_line ch = Some (newline \<in> set y, ch')
    \<and> (if newline \<in> set y then \<exists>l y'. y = l @ newline # y' \<and> newline \<notin> set l \<and> reads_forward ch' r w (x @ l @ [newline]) y' z
       else reads_forward ch' r w (x @ y) [] z)"
proof (cases "newline \<in> set y")
  case True
  then have "y \<noteq> []" by auto
  obtain t y1 ch1 where t: "y = t @ y1" "chunks_peek ch = Some (Some t)" by (rule forward_next [OF assms \<open>y \<noteq> []\<close>])
  show ?thesis
  proof (cases "newline \<in> set t")
    case here: True
    from newline_here [OF assms \<open>y \<noteq> []\<close> t(2) here] obtain l y' e ch' where
      l: "str_find newline t = Some (str_len l)" "y = l @ newline # y'" "newline \<notin> set l" "cursor_end usize_dim (ch_chunks ch) = Some e"
      "let ch1 = ch\<lparr>ch_offset := ch_offset ch + (str_len l + 1)\<rparr> in
        (if ch_offset ch1 = e then map_option snd (chunks_next ch1) else Some ch1) = Some ch' \<and> ch_offset ch1 \<le> ch_end ch1"
      "reads_forward ch' r w (x @ l @ [newline]) y' z" by auto
    have "ch_offset ch' \<le> ch_end ch'" using l(6) by (auto simp: reads_forward_def chunks_between_def)
    then have "next_line ch = Some (True, ch')"
      using direction(1) [OF assms] t(2) l(1,4,5) by (auto simp: next_line_def Let_def split: if_splits)
    then show ?thesis using True l(2,3,6) by auto
  next
    case False
    then show ?thesis using next_line_far [OF assms t(2,1) False True] True by auto
  qed
next
  case False
  show ?thesis
  proof (cases "y = []")
    case True
    then have "chunks_peek ch = Some None" using assms forward_done [of ch] by (simp add: chunks_peek_def)
    moreover have "ch_offset ch = ch_end ch" using assms True by (simp add: reads_forward_def chunks_between_def)
    ultimately have "next_line ch = Some (False, ch)" using direction(1) [OF assms] by (simp add: next_line_def)
    then show ?thesis using assms True by simp
  qed (use next_line_beyond [OF assms _ False] False in auto)
qed

section \<open>The previous line\<close>

text \<open>The text up to its last newline, and where the line before the end of a text starts.\<close>

definition upto_newline :: "rstr \<Rightarrow> rstr" where
  "upto_newline s = rev (dropWhile (\<lambda>c. c \<noteq> newline) (rev s))"

definition without_newline :: "rstr \<Rightarrow> rstr" where
  "without_newline s = (if s \<noteq> [] \<and> last s = newline then butlast s else s)"

definition prev_start :: "rstr \<Rightarrow> rstr" where
  "prev_start s = upto_newline (without_newline s)"

lemma dropWhile_no_newline: "newline \<notin> set l \<Longrightarrow> dropWhile (\<lambda>c. c \<noteq> newline) (l @ s) = dropWhile (\<lambda>c. c \<noteq> newline) s"
  by (induction l) auto

lemma upto_newline_simps [simp]:
  "newline \<notin> set l \<Longrightarrow> upto_newline (s @ l) = upto_newline s"
  "newline \<notin> set l \<Longrightarrow> upto_newline (s @ newline # l) = s @ [newline]"
  "newline \<notin> set l \<Longrightarrow> upto_newline l = []"
  using dropWhile_no_newline [of "rev l"] dropWhile_no_newline [of "rev l" "[]"] by (simp_all add: upto_newline_def)

lemma without_newline_append: "t \<noteq> [] \<Longrightarrow> without_newline (s @ t) = s @ without_newline t"
  by (simp add: without_newline_def butlast_append)

lemma upto_newline_append: "newline \<in> set t \<Longrightarrow> upto_newline (s @ t) = s @ upto_newline t"
  by (auto dest!: split_list_last simp flip: append_assoc)

lemma upto_newline_prefix: "\<exists>l. s = upto_newline s @ l \<and> newline \<notin> set l"
  by (rule exI [of _ "rev (takeWhile (\<lambda>c. c \<noteq> newline) (rev s))"])
    (auto simp: upto_newline_def simp flip: rev_append dest: set_takeWhileD)

lemma upto_newline_Nil: "upto_newline s = [] \<longleftrightarrow> newline \<notin> set s"
  by (auto simp: upto_newline_def)

lemma prev_start_prefix:
  assumes "s \<noteq> []"
  shows "\<exists>l. l \<noteq> [] \<and> s = prev_start s @ l"
proof (cases "last s = newline")
  case True
  then have "s = without_newline s @ [newline]" using append_butlast_last_id [OF assms] assms by (simp add: without_newline_def)
  moreover obtain l where "without_newline s = prev_start s @ l" using upto_newline_prefix unfolding prev_start_def by blast
  ultimately show ?thesis by (metis append_assoc append_is_Nil_conv not_Cons_self2)
next
  case False
  then have w: "without_newline s = s" by (simp add: without_newline_def)
  obtain l where l: "s = prev_start s @ l" using upto_newline_prefix [of s] unfolding prev_start_def w by blast
  have "l \<noteq> []"
  proof
    assume "l = []"
    then have "upto_newline s = s" using l unfolding prev_start_def w by simp
    then have "last s = newline" using assms by (metis (mono_tags, lifting) hd_dropWhile hd_rev rev_is_Nil_conv rev_rev_ident upto_newline_def)
    then show False using False by simp
  qed
  then show ?thesis using l by blast
qed

lemma last_byte_newline:
  assumes "valid_str p" "p \<noteq> []"
  shows "as_bytes (p @ s) ! (str_len p - 1) = 10 \<longleftrightarrow> last p = newline"
proof -
  obtain a c where p: "p = a @ [c]" using assms(2) by (cases p rule: rev_cases) auto
  have len: "0 < len_utf8 c" "length (encode_utf8 c) = len_utf8 c" using length_as_bytes [of "[c]"] by (simp_all add: len_utf8_def)
  have i: "str_len p - 1 = length (as_bytes a) + (len_utf8 c - 1)" and "len_utf8 c - 1 < len_utf8 c" using p len by simp_all
  have "as_bytes (p @ s) = as_bytes a @ encode_utf8 c @ as_bytes s" using p by (simp add: as_bytes_def)
  then have "as_bytes (p @ s) ! (str_len p - 1) = encode_utf8 c ! (len_utf8 c - 1)"
    unfolding i using len \<open>len_utf8 c - 1 < len_utf8 c\<close> by (simp only: nth_append_length_plus) (simp add: nth_append)
  also have "\<dots> = 10 \<longleftrightarrow> map (\<lambda>b. b = 10) (encode_utf8 c) ! (len_utf8 c - 1)" using len by simp
  also have "\<dots> \<longleftrightarrow> len_utf8 c - 1 < of_bool (c = newline)"
    using lead_byte_marks(2) [of c] assms(1) p len by simp
  also have "\<dots> \<longleftrightarrow> c = newline" using len by auto
  finally show ?thesis using p by simp
qed

lemma rfind_newline: "newline \<notin> set l \<Longrightarrow> str_rfind newline (u @ newline # l) = Some (str_len u)"
  and rfind_no_newline: "newline \<notin> set l \<Longrightarrow> str_rfind newline l = None"
proof -
  show none: "newline \<notin> set l \<Longrightarrow> str_rfind newline l = None" for l by (induction l) auto
  show "newline \<notin> set l \<Longrightarrow> str_rfind newline (u @ newline # l) = Some (str_len u)" by (induction u) (auto simp: none)
qed

lemma rfind_upto: "str_rfind newline s = (if newline \<in> set s then Some (str_len (upto_newline s) - 1) else None)"
proof (cases "newline \<in> set s")
  case True
  then obtain u l where "s = u @ newline # l" "newline \<notin> set l" using split_list_last by fastforce
  then show ?thesis by (simp add: rfind_newline)
qed (simp add: rfind_no_newline)

text \<open>A newline before the iterator in its chunk, apart from one right before it.\<close>

lemma prev_line_here_ok:
  assumes "cursor_in rope_fits chunk_ops usize_dim (ch_chunks ch) pre (chunk_of (p @ s) # suf)" "c_did_seek (ch_chunks ch)"
    and "p \<noteq> []" "valid_str p" "ch_offset ch = str_len (text_of pre @ p)"
  shows "prev_line_here ch = Some (if newline \<in> set (without_newline p)
    then (offset_is_valid (ch\<lparr>ch_offset := str_len (text_of pre @ prev_start p)\<rparr>), ch\<lparr>ch_offset := str_len (text_of pre @ prev_start p)\<rparr>)
    else (False, ch))"
proof -
  let ?q = "without_newline p"
  have pos: "c_position (ch_chunks ch) = str_len (text_of pre)" by (rule cursor_in_position [OF assms(1)])
  have item: "cursor_item (ch_chunks ch) = Some (Some (chunk_of (p @ s)))" using cursor_item_at(1) [OF assms(1,2)] by (simp add: first_opt_def)
  have len: "0 < str_len p" "length (as_bytes (p @ s)) = str_len (p @ s)" using assms(3) str_len_pos [of p] by simp_all
  have "\<exists>v. p @ s = ?q @ v \<and> str_len p = str_len ?q + (if last p = newline then 1 else 0)"
    using assms(3) append_butlast_last_id [OF assms(3)] by (cases p rule: rev_cases) (auto simp: without_newline_def)
  then obtain v where v: "p @ s = ?q @ v" "(if last p = newline then str_len p - 1 else str_len p) = str_len ?q" by auto
  have "str_slice (p @ s) 0 (if last p = newline then str_len p - 1 else str_len p) = Some ?q" unfolding v by simp
  moreover have "newline \<in> set ?q \<Longrightarrow> 0 < str_len (prev_start p)"
    using upto_newline_Nil [of ?q] str_len_pos [of "prev_start p"] by (simp add: prev_start_def)
  moreover have "str_len p - 1 < str_len p + str_len s" using len(1) by simp
  ultimately show ?thesis
    using item pos len last_byte_newline [OF assms(4,3), of s] assms(5) rfind_upto [of ?q, folded prev_start_def]
    by (cases "last p = newline"; cases "newline \<in> set ?q") (simp_all add: prev_line_here_def Let_def)
qed

text \<open>The last chunk with a newline among those before the cursor.\<close>

lemma no_newline_chunks: "list_all chunk_ok cs \<Longrightarrow> kept chunk_ops has_newline cs = [] \<longleftrightarrow> newline \<notin> set (text_of cs)"
  by (auto simp: kept_Nil list_all_iff hit_newline text_of_def)

lemma kept_newline:
  assumes "list_all chunk_ok cs" "newline \<in> set (text_of cs)"
  obtains k u l where "kept chunk_ops has_newline cs = butlast (kept chunk_ops has_newline cs) @ [k]" "last (kept chunk_ops has_newline cs) = k"
    "ck_text k = u @ newline # l" "newline \<notin> set l" "upto_newline (text_of cs) = text_of (butlast (kept chunk_ops has_newline cs)) @ u @ [newline]"
proof -
  let ?k = "kept chunk_ops has_newline cs" and ?s = "skipped chunk_ops has_newline cs"
  have ne: "?k \<noteq> []" using no_newline_chunks [OF assms(1)] assms(2) by simp
  have cs: "cs = ?k @ ?s" using kept_skipped [of chunk_ops has_newline cs] by simp
  have "last ?k \<in> set cs" "hit chunk_ops has_newline (last ?k)" using kept_last [OF ne] last_in_set [OF ne] cs by (auto simp: UnI1 dest: arg_cong [of _ _ set])
  then have "newline \<in> set (ck_text (last ?k))" using assms(1) hit_newline by (simp add: list_all_iff)
  then obtain u l where ul: "ck_text (last ?k) = u @ newline # l" "newline \<notin> set l" using split_list_last by fastforce
  have "list_all chunk_ok ?s" using assms(1) cs by (metis list_all_append)
  then have "newline \<notin> set (text_of ?s)" using no_newline_chunks [of ?s] skipped_no_hit [of _ chunk_ops has_newline cs] unfolding kept_Nil by blast
  moreover have "text_of cs = text_of (butlast ?k) @ u @ newline # (l @ text_of ?s)"
    using cs append_butlast_last_id [OF ne] ul(1) text_of_simps(3) by (metis append.assoc append_Cons append_Nil2 text_of_simps(1,2))
  ultimately have "upto_newline (text_of cs) = (text_of (butlast ?k) @ u) @ [newline]"
    using upto_newline_simps(2) [of "l @ text_of ?s" "text_of (butlast ?k) @ u"] ul(2) by simp
  then show thesis using that [of "last ?k" u l] ul ne by simp
qed

lemma prev_line_before_ok:
  assumes "rope_ok r" "cursor_in rope_fits chunk_ops usize_dim (ch_chunks ch) pre (c # suf)" "c_did_seek (ch_chunks ch)" "c_tree (ch_chunks ch) = r"
  shows "\<exists>cur' found. prev_line_before ch = Some (found, ch\<lparr>ch_chunks := cur', ch_offset := str_len (upto_newline (text_of pre))\<rparr>)
    \<and> c_did_seek cur' \<and> c_tree cur' = r
    \<and> (if newline \<in> set (text_of pre)
       then found = offset_is_valid (ch\<lparr>ch_offset := str_len (upto_newline (text_of pre))\<rparr>)
         \<and> (found \<longrightarrow> (\<exists>pre' suf'. cursor_in rope_fits chunk_ops usize_dim cur' pre' suf' \<and> str_len (text_of pre') \<le> str_len (upto_newline (text_of pre))
           \<and> (suf' \<noteq> [] \<longrightarrow> str_len (upto_newline (text_of pre)) < str_len (text_of (pre' @ take 1 suf')))))
       else \<not> found \<and> cursor_item cur' = Some None)"
proof -
  let ?k = "kept chunk_ops has_newline pre" and ?s = "skipped chunk_ops has_newline pre"
  have items: "tree_items r = pre @ c # suf" using assms(2,4) by (auto simp: cursor_in_def)
  have ok: "list_all chunk_ok (pre @ c # suf)" using rope_okD(2) [OF assms(1)] items by simp
  obtain cur' where cur': "search_backward usize_dim has_newline (ch_chunks ch) = Some cur'" "c_did_seek cur'" "c_tree cur' = r"
    "if ?k = [] then cursor_item cur' = Some None \<and> c_position cur' = 0 else cursor_in rope_fits chunk_ops usize_dim cur' (butlast ?k) (last ?k # ?s @ c # suf)"
    using bytes.search_backward_ok [OF sieve_newline assms(2), of pre "c # suf"] assms(3,4) by (auto simp: usize_dim_def split: if_splits)
  show ?thesis
  proof (cases "newline \<in> set (text_of pre)")
    case False
    then have "prev_line_before ch = Some (False, ch\<lparr>ch_chunks := cur', ch_offset := 0\<rparr>)" "cursor_item cur' = Some None"
      using cur' no_newline_chunks [of pre] ok by (simp_all add: prev_line_before_def)
    then show ?thesis using False cur'(2,3) by (intro exI [of _ cur'] exI [of _ False]) simp
  next
    case True
    obtain k u l where k: "?k = butlast ?k @ [k]" "last ?k = k" "ck_text k = u @ newline # l" "newline \<notin> set l"
      "upto_newline (text_of pre) = text_of (butlast ?k) @ u @ [newline]" by (rule kept_newline [OF _ True]) (use ok in simp)
    let ?B = "upto_newline (text_of pre)" and ?ch = "ch\<lparr>ch_chunks := cur', ch_offset := str_len (upto_newline (text_of pre))\<rparr>"
    have "?k \<noteq> []" using k(1) by (metis append_is_Nil_conv not_Cons_self2)
    then have at: "cursor_in rope_fits chunk_ops usize_dim cur' (butlast ?k) (k # ?s @ c # suf)" using cur'(4) k(2) by simp
    have item: "cursor_item cur' = Some (Some k)" using cursor_item_at(1) [OF at cur'(2)] by (simp add: first_opt_def)
    have pos: "c_position cur' = str_len (text_of (butlast ?k))" by (rule cursor_in_position [OF at])
    have e: "cursor_end usize_dim cur' = Some (str_len ?B + str_len l)" using rope_cursor_end [OF at cur'(2)] k(3,5) by simp
    have valid: "offset_is_valid ?ch = offset_is_valid (ch\<lparr>ch_offset := str_len ?B\<rparr>)" by (simp add: offset_is_valid_def)
    have step: "prev_line_before ch = (if offset_is_valid ?ch then do {
          chunks \<leftarrow> (if str_len ?B = str_len ?B + str_len l then cursor_next usize_dim cur' else Some cur');
          Some (True, ch\<lparr>ch_offset := str_len ?B, ch_chunks := chunks\<rparr>) } else Some (False, ?ch))"
      using cur'(1) item pos e k(3,5) rfind_newline [OF k(4), of u] by (simp add: prev_line_before_def Let_def)
    obtain cur2 where n: "cursor_next usize_dim cur' = Some cur2" "c_did_seek cur2" "c_tree cur2 = r"
      "cursor_in rope_fits chunk_ops usize_dim cur2 (butlast ?k @ [k]) (?s @ c # suf)"
      using bytes.cursor_next_ok [OF at] cur'(2,3) by auto
    consider "\<not> offset_is_valid ?ch" | "offset_is_valid ?ch" "l = []" | "offset_is_valid ?ch" "l \<noteq> []" by blast
    then show ?thesis
    proof cases
      case 1
      then show ?thesis using step True cur'(2,3) valid by auto
    next
      case 2
      have "list_all chunk_ok (?s @ c # suf)" using ok kept_skipped [of chunk_ops has_newline pre] by (metis append.assoc list_all_append)
      then have "0 < str_len (text_of (take 1 (?s @ c # suf)))" using str_len_pos by (cases ?s) (auto simp: chunk_ok_def)
      then have "str_len (text_of (butlast ?k @ [k])) \<le> str_len ?B \<and> (?s @ c # suf \<noteq> [] \<longrightarrow> str_len ?B < str_len (text_of ((butlast ?k @ [k]) @ take 1 (?s @ c # suf))))"
        using k(3,5) 2(2) by simp
      then have "\<exists>pre' suf'. cursor_in rope_fits chunk_ops usize_dim cur2 pre' suf' \<and> str_len (text_of pre') \<le> str_len ?B
          \<and> (suf' \<noteq> [] \<longrightarrow> str_len ?B < str_len (text_of (pre' @ take 1 suf')))" using n(4) by blast
      then show ?thesis using step True n(1-3) valid 2 by (intro exI [of _ cur2] exI [of _ True]) simp
    next
      case 3
      then have "0 < str_len l" using str_len_pos by simp
      then have "str_len (text_of (butlast ?k)) \<le> str_len ?B \<and> (k # ?s @ c # suf \<noteq> [] \<longrightarrow> str_len ?B < str_len (text_of (butlast ?k @ take 1 (k # ?s @ c # suf))))"
        using k(3,5) by simp
      then have "\<exists>pre' suf'. cursor_in rope_fits chunk_ops usize_dim cur' pre' suf' \<and> str_len (text_of pre') \<le> str_len ?B
          \<and> (suf' \<noteq> [] \<longrightarrow> str_len ?B < str_len (text_of (pre' @ take 1 suf')))" using at by blast
      then show ?thesis using step True cur'(2,3) valid 3 \<open>0 < str_len l\<close> by (intro exI [of _ cur'] exI [of _ True]) simp
    qed
  qed
qed

text \<open>The chunk before the iterator.\<close>

lemma chunk_before:
  assumes "reads_forward ch r w x y z" "w @ x \<noteq> []"
  obtains cur1 pre p s suf where "(if ch_offset ch = c_position (ch_chunks ch) then cursor_prev usize_dim (ch_chunks ch) else Some (ch_chunks ch)) = Some cur1"
    "cursor_in rope_fits chunk_ops usize_dim cur1 pre (chunk_of (p @ s) # suf)" "c_did_seek cur1" "c_tree cur1 = r" "w @ x = text_of pre @ p" "p \<noteq> []" "valid_str p"
proof -
  let ?cur = "ch_chunks ch"
  have b: "rope_ok r" "rope_str r = (w @ x) @ (y @ z)" "ch_offset ch = str_len (w @ x)" using assms(1) by (simp_all add: reads_forward_def chunks_between_def)
  obtain pre suf where cur: "cursor_in rope_fits chunk_ops usize_dim ?cur pre suf" "c_did_seek ?cur" "c_tree ?cur = r"
    "str_len (text_of pre) \<le> str_len (w @ x)" "str_len (w @ x) \<le> str_len (text_of (pre @ take 1 suf))"
    using assms(1) unfolding b(3) [symmetric] by (auto simp: reads_forward_def)
  have pos: "c_position ?cur = str_len (text_of pre)" by (rule cursor_in_position [OF cur(1)])
  have "0 < str_len (w @ x)" using assms(2) str_len_pos [of w] str_len_pos [of x] by auto
  have "\<exists>cur1 pre1 c suf1. (if ch_offset ch = c_position ?cur then cursor_prev usize_dim ?cur else Some ?cur) = Some cur1
      \<and> cursor_in rope_fits chunk_ops usize_dim cur1 pre1 (c # suf1) \<and> c_did_seek cur1 \<and> c_tree cur1 = r
      \<and> str_len (text_of pre1) < str_len (w @ x) \<and> str_len (w @ x) \<le> str_len (text_of (pre1 @ [c]))"
  proof (cases "ch_offset ch = c_position ?cur")
    case True
    then have len: "str_len (text_of pre) = str_len (w @ x)" using b(3) pos by simp
    then have ne: "pre \<noteq> []" using \<open>0 < str_len (w @ x)\<close> by auto
    obtain cur1 where c1: "cursor_prev usize_dim ?cur = Some cur1" "c_did_seek cur1" "c_tree cur1 = r"
      "cursor_in rope_fits chunk_ops usize_dim cur1 (butlast pre) (last pre # suf)"
      using bytes.cursor_prev_ok [OF cur(1), of pre suf] cur(2,3) ne by auto
    have "tree_items r = pre @ suf" using cur(1,3) by (auto simp: cursor_in_def)
    then have "chunk_ok (last pre)" using rope_okD(2) [OF b(1)] ne by (simp add: list_all_iff)
    then have "0 < str_len (ck_text (last pre))" using str_len_pos by (simp add: chunk_ok_def)
    moreover have "text_of pre = text_of (butlast pre) @ ck_text (last pre)"
      using append_butlast_last_id [OF ne] text_of_simps(3) [of "butlast pre" "[last pre]"] by simp
    ultimately show ?thesis using c1 True len by (intro exI [of _ cur1] exI [of _ "butlast pre"] exI [of _ "last pre"] exI [of _ suf]) simp
  next
    case False
    then have lt: "str_len (text_of pre) < str_len (w @ x)" using b(3) pos cur(4) by simp
    then obtain c suf1 where "suf = c # suf1" using cur(5) by (cases suf) auto
    then show ?thesis using cur lt False by (intro exI [of _ ?cur] exI [of _ pre] exI [of _ c] exI [of _ suf1]) simp
  qed
  then obtain cur1 pre1 c suf1 where c1: "(if ch_offset ch = c_position ?cur then cursor_prev usize_dim ?cur else Some ?cur) = Some cur1"
      "cursor_in rope_fits chunk_ops usize_dim cur1 pre1 (c # suf1)" "c_did_seek cur1" "c_tree cur1 = r"
      "str_len (text_of pre1) < str_len (w @ x)" "str_len (w @ x) \<le> str_len (text_of (pre1 @ [c]))" by blast
  have items: "tree_items r = pre1 @ c # suf1" using c1(2,4) by (auto simp: cursor_in_def)
  obtain p s where "w @ x = text_of pre1 @ p" "c = chunk_of (p @ s)" "valid_str (p @ s)"
    by (rule chunk_around [OF b(1,2) items less_imp_le [OF c1(5)] c1(6)])
  then show thesis using that [OF c1(1) _ c1(3,4), of pre1 p s suf1] c1(2,5) str_len_pos [of p] by auto
qed

lemma prev_start_pieces:
  assumes "p \<noteq> []"
  shows "prev_start (s @ p) = (if newline \<in> set (without_newline p) then s @ prev_start p else upto_newline s)"
  using assms by (simp add: prev_start_def without_newline_append upto_newline_append)

text \<open>Back to the start of the range.\<close>

lemma back_to_start:
  assumes "rope_ok r" "node_height r < STACK_CAPACITY" "rope_str r = w @ y @ z" "ch_start ch = str_len w" "ch_end ch = str_len (w @ y)" "\<not> ch_reversed ch"
    and "c_tree (ch_chunks ch) = r"
  shows "\<exists>eq cur'. cursor_seek usize_dim (cmp (ch_start ch)) Right (ch_chunks ch) = Some (eq, cur')
    \<and> reads_forward (ch\<lparr>ch_offset := ch_start ch, ch_chunks := cur'\<rparr>) r w [] y z"
proof -
  let ?i = "str_len w"
  obtain eq c a b where
    c: "cursor_seek usize_dim (cmp ?i) Right (ch_chunks ch) = Some (eq, c)" "cursor_in rope_fits chunk_ops usize_dim c a b" "c_did_seek c"
    "c_tree c = r" "a \<noteq> [] \<Longrightarrow> str_len (text_of a) \<le> ?i" "b \<noteq> [] \<Longrightarrow> ?i < str_len (text_of (a @ take 1 b))"
    by (rule seek_offset [OF assms(1,2,7), of ?i Right]) (simp add: reached_def not_le)
  have "str_len (text_of a) \<le> ?i" using c(5) by (cases "a = []") simp_all
  then have "reads_forward (ch\<lparr>ch_offset := ch_start ch, ch_chunks := c\<rparr>) r w [] y z"
    by (intro reads_forward_at [where pre = a and suf = b]) (use assms c in \<open>simp_all add: chunks_between_def\<close>)
  then show ?thesis using c(1) assms(4) by auto
qed

text \<open>The end of \<open>prev_line\<close>, when no line start was found in the range.\<close>

lemma prev_line_not_found:
  assumes "reads_forward ch r w x y z" "(if ch_offset ch = c_position (ch_chunks ch) then cursor_prev usize_dim (ch_chunks ch) else Some (ch_chunks ch)) = Some cur1"
    and "prev_line_here (ch\<lparr>ch_chunks := cur1\<rparr>) = Some (False, ch1)" "prev_line_before ch1 = Some (False, ch\<lparr>ch_chunks := cur2, ch_offset := i\<rparr>)" "c_tree cur2 = r"
    and "i < str_len w \<or> cursor_item cur2 = Some None"
  shows "\<exists>ch'. prev_line ch = Some (w = [] \<and> x \<noteq> [], ch') \<and> reads_forward ch' r w [] (x @ y) z"
proof -
  have b: "rope_ok r" "rope_str r = w @ (x @ y) @ z" "ch_start ch = str_len w" "ch_offset ch = str_len (w @ x)" "ch_end ch = str_len (w @ x @ y)" "\<not> ch_reversed ch"
    using assms(1) by (simp_all add: reads_forward_def chunks_between_def)
  have h: "node_height r < STACK_CAPACITY" using assms(1) by (auto simp: reads_forward_def cursor_in_def)
  let ?ch = "ch\<lparr>ch_chunks := cur2, ch_offset := i\<rparr>"
  obtain eq cur' where s: "cursor_seek usize_dim (cmp (str_len w)) Right cur2 = Some (eq, cur')" "reads_forward (?ch\<lparr>ch_offset := str_len w, ch_chunks := cur'\<rparr>) r w [] (x @ y) z"
    using back_to_start [OF b(1) h b(2), of ?ch] b assms(5) by auto
  have first: "(if ch_offset ch = c_position (ch_chunks ch) then do { chunks \<leftarrow> cursor_prev usize_dim (ch_chunks ch); Some (ch\<lparr>ch_chunks := chunks\<rparr>) } else Some ch)
      = Some (ch\<lparr>ch_chunks := cur1\<rparr>)" using assms(2) by (cases ch) (auto split: if_splits)
  have item: "(if \<not> offset_is_valid ?ch then Some None else cursor_item (ch_chunks ?ch)) = Some None"
    using assms(6) b(3,6) by (auto simp: offset_is_valid_def)
  have "(str_len w < str_len (w @ x) \<and> str_len w = 0) = (w = [] \<and> x \<noteq> [])" using str_len_pos [of w] str_len_pos [of x] by auto
  then have "prev_line ch = Some (w = [] \<and> x \<noteq> [], ?ch\<lparr>ch_offset := str_len w, ch_chunks := cur'\<rparr>)"
    unfolding prev_line_def Let_def first using assms(3,4) item s(1) b(3,4,6) by simp
  then show ?thesis using s(2) by blast
qed

lemma prev_line_found:
  assumes "reads_forward ch r w x y z" "(if ch_offset ch = c_position (ch_chunks ch) then cursor_prev usize_dim (ch_chunks ch) else Some (ch_chunks ch)) = Some cur1"
    and "prev_line_here (ch\<lparr>ch_chunks := cur1\<rparr>) = Some (here, ch1)"
    and "if here then ch1 = ch\<lparr>ch_chunks := cur2, ch_offset := str_len b\<rparr> else prev_line_before ch1 = Some (True, ch\<lparr>ch_chunks := cur2, ch_offset := str_len b\<rparr>)"
    and "cursor_in rope_fits chunk_ops usize_dim cur2 pre suf" "c_did_seek cur2" "c_tree cur2 = r" "str_len (text_of pre) \<le> str_len b"
    and "suf \<noteq> [] \<longrightarrow> str_len b < str_len (text_of (pre @ take 1 suf))" "w @ x = b @ l" "str_len w \<le> str_len b"
  shows "\<exists>ch' x' y'. prev_line ch = Some (True, ch') \<and> x @ y = x' @ y' \<and> reads_forward ch' r w x' y' z \<and> w @ x' = b"
proof -
  have c: "rope_ok r" "rope_str r = w @ x @ y @ z" "ch_start ch = str_len w" "ch_offset ch = str_len (w @ x)" "ch_end ch = str_len (w @ x @ y)" "\<not> ch_reversed ch"
    using assms(1) by (simp_all add: reads_forward_def chunks_between_def)
  let ?ch = "ch\<lparr>ch_chunks := cur2, ch_offset := str_len b\<rparr>"
  obtain x' where x': "b = w @ x'" "x = x' @ l" by (rule prefix_len [OF assms(10,11)])
  have "reads_forward ?ch r w x' (l @ y) z"
    by (rule reads_forward_at [where pre = pre and suf = suf]) (use assms(5-9) c x' in \<open>simp_all add: chunks_between_def\<close>)
  moreover have "prev_line ch = Some (True, ?ch)"
  proof -
    have first: "(if ch_offset ch = c_position (ch_chunks ch) then do { chunks \<leftarrow> cursor_prev usize_dim (ch_chunks ch); Some (ch\<lparr>ch_chunks := chunks\<rparr>) } else Some ch)
        = Some (ch\<lparr>ch_chunks := cur1\<rparr>)" using assms(2) by (cases ch) (auto split: if_splits)
    show ?thesis unfolding prev_line_def Let_def first using assms(3,4) c(6) by (cases here) simp_all
  qed
  ultimately show ?thesis using x' by (intro exI [of _ ?ch] exI [of _ x'] exI [of _ "l @ y"]) simp
qed

lemma prev_line_at_zero:
  assumes "reads_forward ch r [] [] y z"
  shows "\<exists>ch'. prev_line ch = Some (False, ch') \<and> reads_forward ch' r [] [] y z"
proof -
  let ?cur = "ch_chunks ch"
  obtain pre suf where cur: "cursor_in rope_fits chunk_ops usize_dim ?cur pre suf" "c_did_seek ?cur" "c_tree ?cur = r" "str_len (text_of pre) \<le> ch_offset ch"
    and off: "ch_offset ch = 0" and ok: "rope_ok r"
    using assms by (auto simp: reads_forward_def chunks_between_def)
  have "tree_items r = pre @ suf" using cur(1,3) by (auto simp: cursor_in_def)
  then have "list_all chunk_ok pre" using rope_okD(2) [OF ok] by simp
  then have "pre = []" using cur(4) off str_len_pos by (cases pre) (auto simp: chunk_ok_def)
  then have pos: "c_position ?cur = 0" using cursor_in_position [OF cur(1)] by simp
  obtain cur1 where c1: "cursor_prev usize_dim ?cur = Some cur1" "before_first usize_dim cur1" "c_tree cur1 = r"
    using bytes.cursor_prev_ok [OF cur(1), of "[]" suf] cur(2,3) \<open>pre = []\<close> by auto
  note item = before_first_item [OF c1(2)]
  have here: "prev_line_here (ch\<lparr>ch_chunks := cur1\<rparr>) = Some (False, ch\<lparr>ch_chunks := cur1\<rparr>)" using item by (simp add: prev_line_here_def)
  have "c_position cur1 = 0" using c1(2) by (simp add: before_first_def usize_dim_def)
  then have before: "prev_line_before (ch\<lparr>ch_chunks := cur1\<rparr>) = Some (False, ch\<lparr>ch_chunks := cur1, ch_offset := 0\<rparr>)"
    using before_first_search [OF c1(2)] item by (simp add: prev_line_before_def)
  show ?thesis using prev_line_not_found [OF assms _ here before c1(3)] c1(1) item pos off by simp
qed

text \<open>
  \<open>prev_line\<close> goes to the start of the line before the iterator, its own line unless it stands at its start, but
  not before the range.
\<close>

lemma prev_line_ok:
  assumes "reads_forward ch r w x y z"
  shows "\<exists>ch' x' y'. prev_line ch = Some (prev_start (w @ x) \<noteq> [] \<and> str_len w \<le> str_len (prev_start (w @ x)) \<or> w = [] \<and> x \<noteq> [], ch')
    \<and> x @ y = x' @ y' \<and> reads_forward ch' r w x' y' z
    \<and> (if str_len w \<le> str_len (prev_start (w @ x)) then w @ x' = prev_start (w @ x) else x' = [])"
proof (cases "w @ x = []")
  case True
  then have e: "w = []" "x = []" by simp_all
  then have "prev_start (w @ x) = []" by (simp add: prev_start_def without_newline_def upto_newline_def)
  then show ?thesis using prev_line_at_zero [of ch r y z] assms e by auto
next
  case False
  let ?B = "prev_start (w @ x)"
  obtain cur1 pre p s suf where
    c1: "(if ch_offset ch = c_position (ch_chunks ch) then cursor_prev usize_dim (ch_chunks ch) else Some (ch_chunks ch)) = Some cur1"
    "cursor_in rope_fits chunk_ops usize_dim cur1 pre (chunk_of (p @ s) # suf)" "c_did_seek cur1" "c_tree cur1 = r" "w @ x = text_of pre @ p" "p \<noteq> []" "valid_str p"
    by (rule chunk_before [OF assms False])
  have b: "rope_ok r" "ch_start ch = str_len w" "ch_offset ch = str_len (w @ x)" "ch_end ch = str_len (w @ x @ y)" "\<not> ch_reversed ch"
    using assms by (simp_all add: reads_forward_def chunks_between_def)
  obtain l where l: "l \<noteq> []" "w @ x = ?B @ l" using prev_start_prefix [OF False] by auto
  have len: "str_len ?B < str_len (w @ x)" using arg_cong [OF l(2), of str_len] l(1) str_len_pos [of l] by simp
  let ?ch = "ch\<lparr>ch_chunks := cur1\<rparr>" and ?u = "upto_newline (text_of pre)"
  have valid: "offset_is_valid (c\<lparr>ch_offset := str_len ?B\<rparr>) \<longleftrightarrow> str_len w \<le> str_len ?B" if "ch_start c = str_len w" "ch_end c = str_len (w @ x @ y)" "\<not> ch_reversed c" for c
    using that len by (simp add: offset_is_valid_def)
  have here: "prev_line_here ?ch = Some (if newline \<in> set (without_newline p)
      then (offset_is_valid (?ch\<lparr>ch_offset := str_len (text_of pre @ prev_start p)\<rparr>), ?ch\<lparr>ch_offset := str_len (text_of pre @ prev_start p)\<rparr>) else (False, ?ch))"
    by (rule prev_line_here_ok) (use c1 b(3) in simp_all)
  show ?thesis
  proof (cases "newline \<in> set (without_newline p)")
    case True
    then have B: "?B = text_of pre @ prev_start p" using c1(5) prev_start_pieces [OF c1(6), of "text_of pre"] by simp
    note here = here [unfolded if_P [OF True], folded B]
    show ?thesis
    proof (cases "str_len w \<le> str_len ?B")
      case le: True
      then have yes: "prev_line_here ?ch = Some (True, ch\<lparr>ch_chunks := cur1, ch_offset := str_len ?B\<rparr>)" using here valid [of ?ch] b by simp
      have "str_len ?B < str_len (text_of (pre @ [chunk_of (p @ s)]))" using len unfolding c1(5) by simp
      then have "\<exists>ch' x' y'. prev_line ch = Some (True, ch') \<and> x @ y = x' @ y' \<and> reads_forward ch' r w x' y' z \<and> w @ x' = ?B"
        by (intro prev_line_found [OF assms c1(1) yes _ c1(2-4) _ _ l(2) le]) (simp_all add: B)
      moreover have "?B \<noteq> []" using B upto_newline_Nil [of "without_newline p"] True by (simp add: prev_start_def)
      ultimately show ?thesis using le by auto
    next
      case lt: False
      then have no: "prev_line_here ?ch = Some (False, ch\<lparr>ch_chunks := cur1, ch_offset := str_len ?B\<rparr>)" using here valid [of ?ch] b by simp
      have "str_len ?u \<le> str_len ?B" using upto_newline_prefix [of "text_of pre"] B by (metis str_len_simps(3) le_add1 le_trans)
      then have u: "str_len ?u < str_len w" using lt by simp
      obtain cur2 hit2 where c2: "prev_line_before (ch\<lparr>ch_chunks := cur1, ch_offset := str_len ?B\<rparr>) = Some (hit2, ch\<lparr>ch_chunks := cur2, ch_offset := str_len ?u\<rparr>)"
        "c_tree cur2 = r" "\<not> hit2"
        using prev_line_before_ok [OF b(1), of "ch\<lparr>ch_chunks := cur1, ch_offset := str_len ?B\<rparr>" pre "chunk_of (p @ s)" suf] c1(2-4) b(2,5) u
        by (auto simp: offset_is_valid_def split: if_splits)
      have c2no: "hit2 = False" using c2(3) by simp
      have "\<exists>ch'. prev_line ch = Some (w = [] \<and> x \<noteq> [], ch') \<and> reads_forward ch' r w [] (x @ y) z"
        by (rule prev_line_not_found [OF assms c1(1) no c2(1) [unfolded c2no] c2(2)]) (use u in simp)
      then show ?thesis using lt by auto
    qed
  next
    case no: False
    then have B: "?B = ?u" using c1(5) prev_start_pieces [OF c1(6), of "text_of pre"] by simp
    note here = here [unfolded if_not_P [OF no]]
    have at: "cursor_in rope_fits chunk_ops usize_dim (ch_chunks ?ch) pre (chunk_of (p @ s) # suf)" "c_did_seek (ch_chunks ?ch)" "c_tree (ch_chunks ?ch) = r"
      and v: "offset_is_valid (?ch\<lparr>ch_offset := str_len ?B\<rparr>) = (str_len w \<le> str_len ?B)" using c1(2-4) valid [of ?ch] b by simp_all
    obtain cur2 hit2 where c2: "prev_line_before ?ch = Some (hit2, ?ch\<lparr>ch_chunks := cur2, ch_offset := str_len ?B\<rparr>)" "c_did_seek cur2" "c_tree cur2 = r"
      "if newline \<in> set (text_of pre)
       then hit2 = (str_len w \<le> str_len ?B) \<and> (hit2 \<longrightarrow> (\<exists>pre' suf'. cursor_in rope_fits chunk_ops usize_dim cur2 pre' suf' \<and> str_len (text_of pre') \<le> str_len ?B
           \<and> (suf' \<noteq> [] \<longrightarrow> str_len ?B < str_len (text_of (pre' @ take 1 suf')))))
       else \<not> hit2 \<and> cursor_item cur2 = Some None"
      using prev_line_before_ok [OF b(1) at, folded B, unfolded v] by blast
    then have c2_1: "prev_line_before ?ch = Some (hit2, ch\<lparr>ch_chunks := cur2, ch_offset := str_len ?B\<rparr>)" by simp
    show ?thesis
    proof (cases hit2)
      case True
      then obtain pre' suf' where at: "cursor_in rope_fits chunk_ops usize_dim cur2 pre' suf'" "str_len (text_of pre') \<le> str_len ?B"
        "suf' \<noteq> [] \<longrightarrow> str_len ?B < str_len (text_of (pre' @ take 1 suf'))" "newline \<in> set (text_of pre)" "str_len w \<le> str_len ?B"
        using c2(4) by (auto split: if_splits)
      have "\<exists>ch' x' y'. prev_line ch = Some (True, ch') \<and> x @ y = x' @ y' \<and> reads_forward ch' r w x' y' z \<and> w @ x' = ?B"
        by (rule prev_line_found [OF assms c1(1) here _ at(1) c2(2,3) at(2,3) l(2) at(5)]) (use c2_1 True in simp)
      moreover have "?B \<noteq> []" using B upto_newline_Nil at(4) by simp
      ultimately show ?thesis using at(5) by auto
    next
      case False
      then have hit2: "hit2 = False" by simp
      have nf: "\<exists>ch'. prev_line ch = Some (w = [] \<and> x \<noteq> [], ch') \<and> reads_forward ch' r w [] (x @ y) z"
        by (rule prev_line_not_found [OF assms c1(1) here c2_1 [unfolded hit2] c2(3)]) (use c2(4) False in \<open>auto split: if_splits\<close>)
      show ?thesis
      proof (cases "newline \<in> set (text_of pre)")
        case True
        then show ?thesis using nf c2(4) False by auto
      next
        case False
        then have "?B = []" using B upto_newline_Nil by simp
        then show ?thesis using nf str_len_pos [of w] by auto
      qed
    qed
  qed
qed

end
