(* ===== verification/RopeBytes.thy ===== *)
theory RopeBytes
  imports RopeLines
begin

text \<open>
  The bytes of a range of a rope, chunk by chunk or into a buffer, and the bitmaps that come with the pieces of
  a range (\<open>crates/rope/src/rope.rs\<close>).
\<close>

section \<open>Bytes\<close>

text \<open>Reading an iterator over byte slices to its end.\<close>

partial_function (option) bytes_collect :: "rope_bytes \<Rightarrow> u8 list list \<Rightarrow> u8 list list rust" where
  "bytes_collect self acc = do {
     (item, self) \<leftarrow> bytes_next self;
     (case item of None \<Rightarrow> Some acc | Some piece \<Rightarrow> bytes_collect self (acc @ [piece]))
   }"

abbreviation rope_bytes_of :: "rope \<Rightarrow> u8 list" where
  "rope_bytes_of r \<equiv> as_bytes (rope_str r)"

definition span :: "nat \<Rightarrow> nat \<Rightarrow> 'a list \<Rightarrow> 'a list" where
  "span a b xs = drop a (take b xs)"

lemma span_append:
  assumes "a \<le> m" "m \<le> b" "b \<le> length xs"
  shows "span a b xs = span a m xs @ span m b xs"
proof -
  have "take b xs = take m xs @ drop m (take b xs)" using assms(2) by (metis append_take_drop_id min.absorb1 take_take)
  then have "drop a (take b xs) = drop a (take m xs @ drop m (take b xs))" by simp
  also have "\<dots> = drop a (take m xs) @ drop m (take b xs)" using assms by simp
  finally show ?thesis by (simp add: span_def)
qed

lemma span_empty: "b \<le> a \<Longrightarrow> span a b xs = []"
  by (simp add: span_def)

lemma length_span: "b \<le> length xs \<Longrightarrow> length (span a b xs) = b - a"
  by (simp add: span_def)

lemma as_bytes_append: "as_bytes (s @ t) = as_bytes s @ as_bytes t"
  by (simp add: as_bytes_def)

text \<open>The bytes of one chunk between two offsets of the whole text.\<close>

lemma chunk_span:
  assumes "tree_items r = pre @ c # suf" "str_len (text_of pre) \<le> a" "b \<le> str_len (text_of (pre @ [c]))"
  shows "take (b - a) (drop (a - str_len (text_of pre)) (as_bytes (ck_text c))) = span a b (rope_bytes_of r)"
proof -
  have "rope_bytes_of r = as_bytes (text_of pre) @ as_bytes (ck_text c) @ as_bytes (text_of suf)"
    using assms(1) by (simp add: rope_str_def as_bytes_append)
  then have "span a b (rope_bytes_of r) = drop a (as_bytes (text_of pre) @ take (b - str_len (text_of pre)) (as_bytes (ck_text c)))"
    using assms(2,3) unfolding span_def by (cases "str_len (text_of pre) \<le> b") simp_all
  also have "\<dots> = drop (a - str_len (text_of pre)) (take (b - str_len (text_of pre)) (as_bytes (ck_text c)))" using assms(2) by simp
  also have "\<dots> = take (b - a) (drop (a - str_len (text_of pre)) (as_bytes (ck_text c)))" using assms(2) by (simp add: drop_take)
  finally show ?thesis by simp
qed

definition bytes_at :: "rope_bytes \<Rightarrow> rope \<Rightarrow> chunk list \<Rightarrow> chunk list \<Rightarrow> bool" where
  "bytes_at bs r pre suf \<longleftrightarrow> rope_ok r \<and> cursor_in rope_fits chunk_ops usize_dim (by_chunks bs) pre suf \<and> c_did_seek (by_chunks bs)
     \<and> c_tree (by_chunks bs) = r \<and> by_start bs \<le> by_end bs \<and> by_end bs \<le> str_len (rope_str r)"

lemma bytes_peek_slice:
  assumes "cursor_item (by_chunks bs) = Some (Some c)" "cursor_end usize_dim (by_chunks bs) = Some q" "c_position (by_chunks bs) = p"
    and "\<not> (by_reversed bs \<and> q \<le> by_start bs)" "\<not> by_end bs \<le> p" "by_start bs - p \<le> min (str_len (ck_text c)) (by_end bs - p)"
  shows "bytes_peek bs = Some (Some (take (min (str_len (ck_text c)) (by_end bs - p) - (by_start bs - p)) (drop (by_start bs - p) (as_bytes (ck_text c)))))"
  using assms unfolding bytes_peek_def Let_def by (cases "by_reversed bs") simp_all

text \<open>
  The slice of the current chunk: forward from the start of the range or the chunk, backward to the end of the range or
  the chunk.
\<close>

lemma bytes_peek_ok:
  assumes "bytes_at bs r pre (c # suf)" "by_reversed bs \<or> by_start bs \<le> str_len (text_of (pre @ [c]))"
  shows "bytes_peek bs = Some (if by_reversed bs \<and> str_len (text_of (pre @ [c])) \<le> by_start bs \<or> by_end bs \<le> str_len (text_of pre) then None
    else Some (span (max (by_start bs) (str_len (text_of pre))) (min (by_end bs) (str_len (text_of (pre @ [c])))) (rope_bytes_of r)))"
proof -
  let ?cur = "by_chunks bs"
  have at: "cursor_in rope_fits chunk_ops usize_dim ?cur pre (c # suf)" "c_did_seek ?cur" "c_tree ?cur = r" "by_start bs \<le> by_end bs"
    using assms(1) by (simp_all add: bytes_at_def)
  have item: "cursor_item ?cur = Some (Some c)" using cursor_item_at(1) [OF at(1,2)] by (simp add: first_opt_def)
  have e: "cursor_end usize_dim ?cur = Some (str_len (text_of (pre @ [c])))" using rope_cursor_end [OF at(1,2)] by simp
  have pos: "c_position ?cur = str_len (text_of pre)" by (rule cursor_in_position [OF at(1)])
  have items: "tree_items r = pre @ c # suf" using at(1,3) by (auto simp: cursor_in_def)
  define p q a b where "p = str_len (text_of pre)" "q = str_len (text_of (pre @ [c]))" "a = max (by_start bs) p" "b = min (by_end bs) q"
  note pq = this
  have "take (b - a) (drop (a - p) (as_bytes (ck_text c))) = span a b (rope_bytes_of r)"
    unfolding pq(1) by (rule chunk_span [OF items]) (simp_all add: pq)
  moreover have "by_start bs - p = a - p" by (simp add: pq)
  moreover have "min (str_len (ck_text c)) (by_end bs - p) - (a - p) = b - a" "a - p \<le> min (str_len (ck_text c)) (by_end bs - p)"
    if "\<not> by_end bs \<le> p" "\<not> (by_reversed bs \<and> q \<le> by_start bs)" using that assms(2) at(4) by (auto simp: pq)
  ultimately have some: "bytes_peek bs = Some (Some (span a b (rope_bytes_of r)))" if "\<not> by_end bs \<le> p" "\<not> (by_reversed bs \<and> q \<le> by_start bs)"
    using bytes_peek_slice [OF item e [folded pq(2)] pos [folded pq(1)] that(2,1)] that by simp
  have none: "bytes_peek bs = Some None" if "by_reversed bs \<and> q \<le> by_start bs \<or> by_end bs \<le> p"
    using that item e [folded pq(2)] pos [folded pq(1)] unfolding bytes_peek_def Let_def by (cases "by_reversed bs") auto
  show ?thesis unfolding pq(1,2) [symmetric] pq(3,4) [symmetric] using some none by (cases "by_reversed bs \<and> q \<le> by_start bs \<or> by_end bs \<le> p") auto
qed

lemma bytes_peek_end:
  assumes "bytes_at bs r pre []"
  shows "bytes_peek bs = Some None"
  using assms cursor_item_at(1) [of rope_fits chunk_ops usize_dim "by_chunks bs" pre "[]"] by (simp add: bytes_at_def bytes_peek_def first_opt_def)

lemma bytes_move_forward:
  assumes "bytes_at bs r pre (c # suf)" "\<not> by_reversed bs"
  shows "\<exists>cur. bytes_move bs = Some (bs\<lparr>by_chunks := cur\<rparr>) \<and> bytes_at (bs\<lparr>by_chunks := cur\<rparr>) r (pre @ [c]) suf"
  using bytes.cursor_next_ok [of "by_chunks bs" pre "c # suf"] assms by (auto simp: bytes_at_def bytes_move_def)

lemma bytes_forward_ok:
  assumes "bytes_at bs r pre suf" "\<not> by_reversed bs" "suf \<noteq> [] \<longrightarrow> by_start bs \<le> str_len (text_of (pre @ [hd suf]))"
  shows "\<exists>ts. bytes_collect bs acc = Some (acc @ ts) \<and> concat ts = span (max (by_start bs) (str_len (text_of pre))) (by_end bs) (rope_bytes_of r)"
  using assms
proof (induction suf arbitrary: bs pre acc)
  case Nil
  have "tree_items r = pre" using Nil.prems(1) by (auto simp: bytes_at_def cursor_in_def)
  then have "by_end bs \<le> str_len (text_of pre)" using Nil.prems(1) by (simp add: bytes_at_def rope_str_def)
  then show ?case using bytes_peek_end [OF Nil.prems(1)] by (subst bytes_collect.simps) (simp add: bytes_next_def span_empty)
next
  case (Cons c suf)
  let ?p = "str_len (text_of pre)" and ?q = "str_len (text_of (pre @ [c]))"
  have q: "?p \<le> ?q" "by_start bs \<le> ?q" "by_start bs \<le> by_end bs" using Cons.prems by (simp_all add: bytes_at_def)
  note peek = bytes_peek_ok [OF Cons.prems(1) disjI2 [OF q(2)]]
  show ?case
  proof (cases "by_end bs \<le> ?p")
    case True
    then show ?thesis using peek by (subst bytes_collect.simps) (simp add: bytes_next_def span_empty)
  next
    case False
    obtain cur where m: "bytes_move bs = Some (bs\<lparr>by_chunks := cur\<rparr>)" "bytes_at (bs\<lparr>by_chunks := cur\<rparr>) r (pre @ [c]) suf"
      using bytes_move_forward [OF Cons.prems(1,2)] by blast
    let ?t = "span (max (by_start bs) ?p) (min (by_end bs) ?q) (rope_bytes_of r)"
    have "bytes_next bs = Some (Some ?t, bs\<lparr>by_chunks := cur\<rparr>)" using peek m(1) False Cons.prems(2) by (simp add: bytes_next_def)
    then have step: "bytes_collect bs acc = bytes_collect (bs\<lparr>by_chunks := cur\<rparr>) (acc @ [?t])" by (subst bytes_collect.simps) simp
    obtain ts where ts: "bytes_collect (bs\<lparr>by_chunks := cur\<rparr>) (acc @ [?t]) = Some ((acc @ [?t]) @ ts)" "concat ts = span ?q (by_end bs) (rope_bytes_of r)"
      using Cons.IH [OF m(2)] q(2) Cons.prems(2) by (fastforce simp: max_def)
    have "span (max (by_start bs) ?p) (by_end bs) (rope_bytes_of r) = ?t @ span ?q (by_end bs) (rope_bytes_of r)"
      using q False span_append [of "max (by_start bs) ?p" ?q "by_end bs" "rope_bytes_of r"] span_empty [of "by_end bs" ?q "rope_bytes_of r"] Cons.prems(1)
      by (cases "?q \<le> by_end bs") (simp_all add: bytes_at_def min_def)
    then show ?thesis using step ts by (intro exI [of _ "?t # ts"]) simp
  qed
qed

lemma bytes_move_backward:
  assumes "bytes_at bs r pre (c # suf)" "by_reversed bs"
  shows "\<exists>cur. bytes_move bs = Some (bs\<lparr>by_chunks := cur\<rparr>)
    \<and> (if pre = [] then bytes_peek (bs\<lparr>by_chunks := cur\<rparr>) = Some None else bytes_at (bs\<lparr>by_chunks := cur\<rparr>) r (butlast pre) (last pre # c # suf))"
proof -
  have at: "cursor_in rope_fits chunk_ops usize_dim (by_chunks bs) pre (c # suf)" "c_did_seek (by_chunks bs)" using assms(1) by (simp_all add: bytes_at_def)
  then show ?thesis using bytes.cursor_prev_ok [OF at(1), of pre "c # suf"] assms by (auto simp: bytes_at_def bytes_move_def bytes_peek_def)
qed

lemma text_of_last: "pre \<noteq> [] \<Longrightarrow> text_of (butlast pre @ [last pre]) = text_of pre"
  by simp

lemma chunk_below:
  assumes "bytes_at bs r pre suf" "pre \<noteq> []"
  shows "str_len (text_of (butlast pre)) < str_len (text_of pre)"
proof -
  have "tree_items r = pre @ suf" using assms(1) by (auto simp: bytes_at_def cursor_in_def)
  then have "chunk_ok (last pre)" using rope_okD(2) [of r] assms by (simp add: bytes_at_def list_all_iff)
  then have "0 < str_len (ck_text (last pre))" using str_len_pos by (simp add: chunk_ok_def)
  moreover have "text_of pre = text_of (butlast pre) @ ck_text (last pre)"
    using text_of_last [OF assms(2)] text_of_simps(3) [of "butlast pre" "[last pre]"] by simp
  ultimately show ?thesis by simp
qed

lemma bytes_backward_ok:
  assumes "bytes_at bs r pre (c # suf)" "by_reversed bs" "str_len (text_of pre) < by_end bs \<or> by_end bs = 0"
  shows "\<exists>ts. bytes_collect bs acc = Some (acc @ ts) \<and> concat (rev ts) = span (by_start bs) (min (by_end bs) (str_len (text_of (pre @ [c])))) (rope_bytes_of r)"
  using assms
proof (induction "length pre" arbitrary: bs pre c suf acc rule: less_induct)
  case less
  let ?p = "str_len (text_of pre)" and ?q = "str_len (text_of (pre @ [c]))"
  have o: "by_start bs \<le> by_end bs" "by_end bs \<le> length (rope_bytes_of r)" using less.prems(1) by (simp_all add: bytes_at_def)
  note peek = bytes_peek_ok [OF less.prems(1) disjI1 [OF less.prems(2)]]
  show ?case
  proof (cases "?q \<le> by_start bs \<or> by_end bs \<le> ?p")
    case True
    then have "bytes_peek bs = Some None" using peek less.prems(2) by auto
    moreover have "span (by_start bs) (min (by_end bs) ?q) (rope_bytes_of r) = []" using True less.prems(3) by (auto intro!: span_empty)
    ultimately show ?thesis by (subst bytes_collect.simps) (simp add: bytes_next_def)
  next
    case False
    let ?t = "span (max (by_start bs) ?p) (min (by_end bs) ?q) (rope_bytes_of r)"
    obtain cur where m: "bytes_move bs = Some (bs\<lparr>by_chunks := cur\<rparr>)"
      "if pre = [] then bytes_peek (bs\<lparr>by_chunks := cur\<rparr>) = Some None else bytes_at (bs\<lparr>by_chunks := cur\<rparr>) r (butlast pre) (last pre # c # suf)"
      using bytes_move_backward [OF less.prems(1,2)] by blast
    let ?bs = "bs\<lparr>by_chunks := cur\<rparr>"
    have "bytes_next bs = Some (Some ?t, ?bs)" using peek m(1) False by (simp add: bytes_next_def)
    then have step: "bytes_collect bs acc = bytes_collect ?bs (acc @ [?t])" by (subst bytes_collect.simps) simp
    have rest: "\<exists>ts. bytes_collect ?bs (acc @ [?t]) = Some ((acc @ [?t]) @ ts) \<and> concat (rev ts) = span (by_start bs) ?p (rope_bytes_of r)"
    proof (cases "pre = []")
      case True
      then show ?thesis using m(2) by (subst bytes_collect.simps) (simp add: bytes_next_def span_def)
    next
      case ne: False
      have "str_len (text_of (butlast pre)) < ?p" by (rule chunk_below [OF less.prems(1) ne])
      then show ?thesis using less.hyps [of "butlast pre" ?bs "last pre" "c # suf" "acc @ [?t]"] m(2) ne False less.prems(2)
        by (auto simp: text_of_last min_def simp del: text_of_simps(3))
    qed
    have cut: "span (by_start bs) (min (by_end bs) ?q) (rope_bytes_of r) = span (by_start bs) ?p (rope_bytes_of r) @ ?t"
    proof (cases "by_start bs \<le> ?p")
      case True
      then show ?thesis using span_append [of "by_start bs" ?p "min (by_end bs) ?q" "rope_bytes_of r"] False o by (simp add: max_def)
    qed (simp add: span_empty max_def)
    from rest obtain ts where "bytes_collect ?bs (acc @ [?t]) = Some ((acc @ [?t]) @ ts)" "concat (rev ts) = span (by_start bs) ?p (rope_bytes_of r)" by blast
    then show ?thesis using step cut by (intro exI [of _ "?t # ts"]) simp
  qed
qed

lemma bytes_new_at:
  assumes "rope_ok r" "node_height r < STACK_CAPACITY" "a \<le> b" "b \<le> str_len (rope_str r)"
  shows "\<exists>bs pre suf. bytes_new r a b False = Some bs \<and> bytes_at bs r pre suf \<and> by_start bs = a \<and> by_end bs = b \<and> \<not> by_reversed bs
      \<and> str_len (text_of pre) \<le> a \<and> (suf \<noteq> [] \<longrightarrow> a < str_len (text_of (pre @ [hd suf])))"
    and "\<exists>bs pre suf. bytes_new r a b True = Some bs \<and> bytes_at bs r pre suf \<and> by_start bs = a \<and> by_end bs = b \<and> by_reversed bs
      \<and> (str_len (text_of pre) < b \<or> pre = []) \<and> (suf \<noteq> [] \<longrightarrow> b \<le> str_len (text_of (pre @ [hd suf])))"
proof -
  have t: "c_tree (cursor_new usize_dim r) = r" by (simp add: cursor_new_def)
  obtain eq cur pre suf where c: "cursor_seek usize_dim (cmp a) Right (cursor_new usize_dim r) = Some (eq, cur)"
    "cursor_in rope_fits chunk_ops usize_dim cur pre suf" "c_did_seek cur" "c_tree cur = r"
    "pre \<noteq> [] \<Longrightarrow> str_len (text_of pre) \<le> a" "suf \<noteq> [] \<Longrightarrow> a < str_len (text_of (pre @ take 1 suf))"
    by (rule seek_offset [OF assms(1,2) t, of a Right]) (simp add: reached_def not_le)
  have "str_len (text_of pre) \<le> a" using c(5) by (cases "pre = []") auto
  moreover have "suf \<noteq> [] \<longrightarrow> a < str_len (text_of (pre @ [hd suf]))" using c(6) by (cases suf) auto
  ultimately show "\<exists>bs pre suf. bytes_new r a b False = Some bs \<and> bytes_at bs r pre suf \<and> by_start bs = a \<and> by_end bs = b \<and> \<not> by_reversed bs
      \<and> str_len (text_of pre) \<le> a \<and> (suf \<noteq> [] \<longrightarrow> a < str_len (text_of (pre @ [hd suf])))"
    using c(1-4) assms unfolding bytes_new_def bytes_at_def by (intro exI [of _ "\<lparr>by_chunks = cur, by_start = a, by_end = b, by_reversed = False\<rparr>"] exI [of _ pre] exI [of _ suf]) simp
next
  have t: "c_tree (cursor_new usize_dim r) = r" by (simp add: cursor_new_def)
  obtain eq cur pre suf where c: "cursor_seek usize_dim (cmp b) Left (cursor_new usize_dim r) = Some (eq, cur)"
    "cursor_in rope_fits chunk_ops usize_dim cur pre suf" "c_did_seek cur" "c_tree cur = r"
    "pre \<noteq> [] \<Longrightarrow> str_len (text_of pre) < b" "suf \<noteq> [] \<Longrightarrow> b \<le> str_len (text_of (pre @ take 1 suf))"
    by (rule seek_offset [OF assms(1,2) t, of b Left]) (simp add: reached_def not_less)
  have "suf \<noteq> [] \<longrightarrow> b \<le> str_len (text_of (pre @ [hd suf]))" using c(6) by (cases suf) auto
  then show "\<exists>bs pre suf. bytes_new r a b True = Some bs \<and> bytes_at bs r pre suf \<and> by_start bs = a \<and> by_end bs = b \<and> by_reversed bs
      \<and> (str_len (text_of pre) < b \<or> pre = []) \<and> (suf \<noteq> [] \<longrightarrow> b \<le> str_len (text_of (pre @ [hd suf])))"
    using c(1-5) assms unfolding bytes_new_def bytes_at_def by (intro exI [of _ "\<lparr>by_chunks = cur, by_start = a, by_end = b, by_reversed = True\<rparr>"] exI [of _ pre] exI [of _ suf]) auto
qed

lemma bytes_slices_ok:
  assumes "rope_ok r" "node_height r < STACK_CAPACITY" "a \<le> b" "b \<le> str_len (rope_str r)"
  shows "\<exists>bs ts. bytes_new r a b False = Some bs \<and> bytes_collect bs [] = Some ts \<and> concat ts = span a b (rope_bytes_of r)"
    and "\<exists>bs ts. bytes_new r a b True = Some bs \<and> bytes_collect bs [] = Some ts \<and> concat (rev ts) = span a b (rope_bytes_of r)"
proof -
  obtain bs pre suf where f: "bytes_new r a b False = Some bs" "bytes_at bs r pre suf" "by_start bs = a" "by_end bs = b" "\<not> by_reversed bs"
      "str_len (text_of pre) \<le> a" "suf \<noteq> [] \<longrightarrow> a < str_len (text_of (pre @ [hd suf]))" using bytes_new_at(1) [OF assms] by blast
  then show "\<exists>bs ts. bytes_new r a b False = Some bs \<and> bytes_collect bs [] = Some ts \<and> concat ts = span a b (rope_bytes_of r)"
    using bytes_forward_ok [OF f(2,5), of "[]"] by (auto simp: max_def)
next
  obtain bs pre suf where f: "bytes_new r a b True = Some bs" "bytes_at bs r pre suf" "by_start bs = a" "by_end bs = b" "by_reversed bs"
      "str_len (text_of pre) < b \<or> pre = []" "suf \<noteq> [] \<longrightarrow> b \<le> str_len (text_of (pre @ [hd suf]))" using bytes_new_at(2) [OF assms] by blast
  show "\<exists>bs ts. bytes_new r a b True = Some bs \<and> bytes_collect bs [] = Some ts \<and> concat (rev ts) = span a b (rope_bytes_of r)"
  proof (cases suf)
    case Nil
    have "tree_items r = pre" using f(2) Nil by (auto simp: bytes_at_def cursor_in_def)
    then have "b = 0" using f(6) assms(4) by (auto simp: rope_str_def)
    moreover have "bytes_collect bs [] = Some []" using bytes_peek_end [of bs r pre] f(2) Nil by (subst bytes_collect.simps) (simp add: bytes_next_def)
    ultimately show ?thesis using f(1) by (auto simp: span_def)
  next
    case (Cons c suf')
    have "str_len (text_of pre) < by_end bs \<or> by_end bs = 0" using f(4,6) by auto
    then show ?thesis using bytes_backward_ok [of bs r pre c suf' "[]"] f Cons by (auto simp: min_def)
  qed
qed

section \<open>Reading into a buffer\<close>

text \<open>
  \<open>Read::read\<close> takes bytes off the range as it copies them. Forward the cursor stands on the chunk at the start
  of what is left, backward on the chunk before its end; once nothing is left, every call reads nothing.
\<close>

definition forward_bytes :: "rope_bytes \<Rightarrow> rope \<Rightarrow> bool" where
  "forward_bytes bs r \<longleftrightarrow> \<not> by_reversed bs \<and> (\<exists>pre suf. bytes_at bs r pre suf \<and> (suf \<noteq> [] \<longrightarrow> by_start bs \<le> str_len (text_of (pre @ [hd suf])))
     \<and> (by_start bs < by_end bs \<longrightarrow> str_len (text_of pre) \<le> by_start bs \<and> suf \<noteq> [] \<and> by_start bs < str_len (text_of (pre @ [hd suf]))))"

definition backward_bytes :: "rope_bytes \<Rightarrow> rope \<Rightarrow> bool" where
  "backward_bytes bs r \<longleftrightarrow> by_reversed bs \<and> by_start bs \<le> by_end bs \<and> by_end bs \<le> str_len (rope_str r)
     \<and> (if by_start bs < by_end bs then \<exists>pre c suf. bytes_at bs r pre (c # suf) \<and> str_len (text_of pre) < by_end bs \<and> by_end bs \<le> str_len (text_of (pre @ [c]))
        else \<forall>n. \<exists>bs'. bytes_read bs n = Some ([], bs'))"

lemma forward_bytesI:
  assumes "bytes_at bs r pre suf" "\<not> by_reversed bs" "suf \<noteq> [] \<Longrightarrow> by_start bs \<le> str_len (text_of (pre @ [hd suf]))"
    and "by_start bs < by_end bs \<Longrightarrow> str_len (text_of pre) \<le> by_start bs \<and> suf \<noteq> [] \<and> by_start bs < str_len (text_of (pre @ [hd suf]))"
  shows "forward_bytes bs r"
  using assms unfolding forward_bytes_def by blast

lemma span_take: "n \<le> b - a \<Longrightarrow> take n (span a b xs) = span a (a + n) xs"
proof -
  assume n: "n \<le> b - a"
  show ?thesis
  proof (cases "n = 0")
    case False
    then have "min (a + n) b = a + n" using n by simp
    then show ?thesis unfolding span_def take_drop by (simp add: add.commute)
  qed (simp add: span_def)
qed

lemma span_drop:
  assumes "a \<le> b" "n \<le> b - a"
  shows "drop (b - a - n) (span a b xs) = span (b - n) b xs"
proof -
  have "a + (b - a - n) = b - n" using assms by simp
  then show ?thesis by (simp add: span_def add.commute)
qed

lemma bytes_read_forward_eq:
  assumes "bytes_peek bs = Some (Some chunk)" "\<not> by_reversed bs" "k = min n (length chunk)" "bytes_move (bs\<lparr>by_start := by_start bs + k\<rparr>) = Some bs1"
  shows "bytes_read bs n = Some (take k chunk, if k = length chunk then bs1 else bs\<lparr>by_start := by_start bs + k\<rparr>)"
  using assms(1,2,4) by (cases "k = length chunk") (simp_all add: bytes_read_def Let_def assms(3) [symmetric])

lemma bytes_read_backward_eq:
  assumes "bytes_peek bs = Some (Some chunk)" "by_reversed bs" "k = min n (length chunk)" "bytes_move (bs\<lparr>by_end := usize_sub (by_end bs) k\<rparr>) = Some bs1"
  shows "bytes_read bs n = Some (rev (drop (length chunk - k) chunk), if k = length chunk then bs1 else bs\<lparr>by_end := usize_sub (by_end bs) k\<rparr>)"
  using assms(1,2,4) by (cases "k = length chunk") (simp_all add: bytes_read_def Let_def assms(3) [symmetric])

lemma read_forward:
  assumes "forward_bytes bs r"
  shows "\<exists>buf bs'. bytes_read bs n = Some (buf, bs') \<and> (0 < n \<longrightarrow> forward_bytes bs' r) \<and> by_end bs' = by_end bs \<and> by_start bs' = by_start bs + length buf
    \<and> by_start bs' \<le> by_end bs \<and> buf = span (by_start bs) (by_start bs + length buf) (rope_bytes_of r) \<and> length buf \<le> n \<and> (0 < n \<and> by_start bs < by_end bs \<longrightarrow> buf \<noteq> [])"
proof -
  obtain pre suf where at: "bytes_at bs r pre suf" "suf \<noteq> [] \<longrightarrow> by_start bs \<le> str_len (text_of (pre @ [hd suf]))" "\<not> by_reversed bs"
    "by_start bs < by_end bs \<longrightarrow> str_len (text_of pre) \<le> by_start bs \<and> suf \<noteq> [] \<and> by_start bs < str_len (text_of (pre @ [hd suf]))"
    using assms by (auto simp: forward_bytes_def)
  have o: "by_start bs \<le> by_end bs" "by_end bs \<le> length (rope_bytes_of r)" using at(1) by (simp_all add: bytes_at_def)
  show ?thesis
  proof (cases "bytes_peek bs = Some None")
    case True
    have "\<not> by_start bs < by_end bs"
    proof
      assume lt: "by_start bs < by_end bs"
      then obtain c suf' where s: "suf = c # suf'" using at(4) by (cases suf) auto
      show False using bytes_peek_ok [of bs r pre c suf'] at lt s True by auto
    qed
    then show ?thesis using True assms o by (intro exI [of _ "[]"] exI [of _ bs]) (simp add: bytes_read_def span_def)
  next
    case False
    then obtain c suf' where s: "suf = c # suf'" using bytes_peek_end [of bs r pre] at(1) by (cases suf) auto
    let ?p = "str_len (text_of pre)" and ?q = "str_len (text_of (pre @ [c]))"
    have q: "by_start bs \<le> ?q" using at(2) s by simp
    let ?a = "max (by_start bs) ?p" and ?b = "min (by_end bs) ?q"
    have peek: "bytes_peek bs = Some (Some (span ?a ?b (rope_bytes_of r)))" and gt: "?p < by_end bs"
      using bytes_peek_ok [of bs r pre c suf'] at(1,3) q False s by (auto split: if_splits)
    have a: "by_start bs < by_end bs \<Longrightarrow> ?a = by_start bs" "by_start bs = by_end bs \<Longrightarrow> ?a = by_start bs" using at(4) gt by auto
    then have a: "?a = by_start bs" using o(1) by linarith
    have len: "length (span ?a ?b (rope_bytes_of r)) = ?b - by_start bs" using o(2) a by (simp add: length_span)
    let ?n = "min n (?b - by_start bs)"
    let ?buf = "span (by_start bs) (by_start bs + ?n) (rope_bytes_of r)"
    have buf: "take ?n (span ?a ?b (rope_bytes_of r)) = ?buf" "length ?buf = ?n"
      using span_take [of ?n ?b ?a "rope_bytes_of r"] o a by (simp_all add: length_span)
    let ?bs = "bs\<lparr>by_start := by_start bs + ?n\<rparr>"
    have at': "bytes_at ?bs r pre (c # suf')" using at(1) s o(1) q by (auto simp: bytes_at_def)
    obtain cur where m: "bytes_move ?bs = Some (?bs\<lparr>by_chunks := cur\<rparr>)" "bytes_at (?bs\<lparr>by_chunks := cur\<rparr>) r (pre @ [c]) suf'"
      using bytes_move_forward [OF at'] at(3) by auto
    let ?bs' = "if ?n = ?b - by_start bs then ?bs\<lparr>by_chunks := cur\<rparr> else ?bs"
    have read: "bytes_read bs n = Some (?buf, ?bs')" using bytes_read_forward_eq [OF peek at(3) _ m(1), of n] unfolding len buf(1) by simp
    have "forward_bytes ?bs' r"
    proof (cases "?n = ?b - by_start bs")
      case True
      have items: "tree_items r = pre @ c # suf'" and ok: "rope_ok r" using at(1) s by (auto simp: bytes_at_def cursor_in_def)
      have ne: "0 < str_len (ck_text (hd suf'))" if "suf' \<noteq> []"
        using rope_okD(2) [OF ok] items that str_len_pos by (cases suf') (auto simp: chunk_ok_def)
      have more: "?q < by_end bs \<Longrightarrow> suf' \<noteq> []" using o(2) items by (auto simp: rope_str_def)
      have "by_start bs + ?n = ?b" using True o(1) q by simp
      then have "forward_bytes (?bs\<lparr>by_chunks := cur\<rparr>) r" by (intro forward_bytesI [OF m(2)]) (use at(3) ne more in auto)
      then show ?thesis using True by simp
    next
      case False
      have "str_len (text_of pre) \<le> by_start bs" using a by simp
      moreover have "by_start bs + ?n < ?q" using False by auto
      ultimately have "forward_bytes ?bs r" by (intro forward_bytesI [OF at']) (use at(3) in simp_all)
      then show ?thesis unfolding if_not_P [OF False] .
    qed
    moreover have "0 < n \<and> by_start bs < by_end bs \<longrightarrow> ?buf \<noteq> []" using at(4) s buf(2) by auto
    moreover have "by_start bs + ?n \<le> by_end bs" using o(1) by (auto simp: min_def)
    then have "by_end ?bs' = by_end bs" "by_start ?bs' = by_start bs + length ?buf" "by_start ?bs' \<le> by_end bs" "length ?buf \<le> n"
      "?buf = span (by_start bs) (by_start bs + length ?buf) (rope_bytes_of r)" unfolding buf(2) using o(1) q by simp_all
    ultimately show ?thesis using read by (intro exI [of _ ?buf] exI [of _ ?bs'] conjI impI) blast+
  qed
qed

lemma backward_bytesI:
  assumes "bytes_at bs r pre (c # suf)" "by_reversed bs" "by_start bs < by_end bs" "str_len (text_of pre) < by_end bs" "by_end bs \<le> str_len (text_of (pre @ [c]))"
  shows "backward_bytes bs r"
proof -
  have "by_end bs \<le> str_len (rope_str r)" using assms(1) by (simp add: bytes_at_def)
  then show ?thesis using assms unfolding backward_bytes_def by auto
qed

lemma backward_bytes_done:
  assumes "by_reversed bs" "by_start bs = by_end bs" "by_end bs \<le> str_len (rope_str r)" "\<And>n. \<exists>bs'. bytes_read bs n = Some ([], bs')"
  shows "backward_bytes bs r"
  using assms by (simp add: backward_bytes_def)

lemma read_backward:
  assumes "backward_bytes bs r" "0 < n" "by_start bs < by_end bs"
  shows "\<exists>buf bs'. bytes_read bs n = Some (buf, bs') \<and> backward_bytes bs' r \<and> by_start bs' = by_start bs \<and> by_end bs' = by_end bs - length buf
    \<and> length buf \<le> by_end bs - by_start bs \<and> rev buf = span (by_end bs - length buf) (by_end bs) (rope_bytes_of r) \<and> length buf \<le> n \<and> buf \<noteq> []"
proof -
  obtain pre c suf where at: "by_reversed bs" "bytes_at bs r pre (c # suf)" "str_len (text_of pre) < by_end bs" "by_end bs \<le> str_len (text_of (pre @ [c]))"
    using assms(1,3) by (auto simp: backward_bytes_def)
  define p q a e where "p = str_len (text_of pre)" "q = str_len (text_of (pre @ [c]))" "a = max (by_start bs) p" "e = by_end bs"
  note pq = this
  have len: "e \<le> length (rope_bytes_of r)" using at(2) by (simp add: bytes_at_def pq)
  have ae: "p \<le> a" "by_start bs \<le> a" "a < e" "e \<le> q" "a = p \<or> a = by_start bs" using at(3,4) assms(3) by (auto simp: pq)
  have peek: "bytes_peek bs = Some (Some (span a e (rope_bytes_of r)))"
    using bytes_peek_ok [OF at(2) disjI1 [OF at(1)]] ae unfolding pq(1,2,4) [symmetric] pq(3) [symmetric] by simp
  define k where "k = min n (e - a)"
  have k: "0 < k" "k \<le> e - a" "k \<le> n" using assms(2) ae(3) by (auto simp: k_def)
  have lk: "length (span a e (rope_bytes_of r)) = e - a" using len by (rule length_span)
  have buf: "drop (length (span a e (rope_bytes_of r)) - k) (span a e (rope_bytes_of r)) = span (e - k) e (rope_bytes_of r)"
    unfolding lk by (rule span_drop) (use ae k in simp_all)
  let ?bs = "bs\<lparr>by_end := e - k\<rparr>"
  have at': "bytes_at ?bs r pre (c # suf)" using at(2) ae k by (auto simp: bytes_at_def pq(4))
  have "usize_sub (by_end bs) k = e - k" using k ae by (simp add: pq(4))
  note eq = bytes_read_backward_eq [OF peek at(1), of k n, unfolded lk this buf, OF k_def]
  obtain cur where m: "bytes_move ?bs = Some (?bs\<lparr>by_chunks := cur\<rparr>)"
    "if pre = [] then bytes_peek (?bs\<lparr>by_chunks := cur\<rparr>) = Some None else bytes_at (?bs\<lparr>by_chunks := cur\<rparr>) r (butlast pre) (last pre # c # suf)"
    using bytes_move_backward [OF at'] at(1) by auto
  let ?bs' = "if k = e - a then ?bs\<lparr>by_chunks := cur\<rparr> else ?bs"
  have "backward_bytes ?bs' r"
  proof (cases "k = e - a")
    case True
    then have ea: "e - k = a" using ae by simp
    have "backward_bytes (?bs\<lparr>by_chunks := cur\<rparr>) r"
    proof (cases "by_start bs < a")
      case lt: True
      then have "a = p" "pre \<noteq> []" using ae(5) by (auto simp: pq(1))
      moreover have "str_len (text_of (butlast pre)) < p" unfolding pq(1) by (rule chunk_below [OF at(2) \<open>pre \<noteq> []\<close>])
      moreover have "bytes_at (?bs\<lparr>by_chunks := cur\<rparr>) r (butlast pre) (last pre # c # suf)" using m(2) \<open>pre \<noteq> []\<close> by simp
      then show ?thesis by (rule backward_bytesI) (use calculation at(1) ea lt in \<open>simp_all add: text_of_last pq(1) del: text_of_simps(3)\<close>)
    next
      case False
      then have sa: "by_start bs = a" using ae(2) by simp
      have "bytes_peek (?bs\<lparr>by_chunks := cur\<rparr>) = Some None"
      proof (cases "pre = []")
        case ne: False
        then have "bytes_at (?bs\<lparr>by_chunks := cur\<rparr>) r (butlast pre) (last pre # c # suf)" using m(2) by simp
        then show ?thesis using bytes_peek_ok [of "?bs\<lparr>by_chunks := cur\<rparr>" r "butlast pre" "last pre" "c # suf"] at(1) ne sa ae(1)
          by (simp add: text_of_last pq(1) del: text_of_simps(3))
      qed (use m(2) in simp)
      then show ?thesis using sa ea at(1) len ae by (intro backward_bytes_done) (simp_all add: bytes_read_def)
    qed
    then show ?thesis using True by simp
  next
    case False
    then have "a < e - k" using k ae by simp
    then have "backward_bytes ?bs r" using ae at(1) by (intro backward_bytesI [OF at']) (simp_all add: pq)
    then show ?thesis unfolding if_not_P [OF False] .
  qed
  moreover have "bytes_read bs n = Some (rev (span (e - k) e (rope_bytes_of r)), ?bs')" using eq m(1) buf [unfolded lk] by simp
  moreover have "length (span (e - k) e (rope_bytes_of r)) = k" using k ae len by (simp add: length_span)
  ultimately show ?thesis using k ae by (intro exI [of _ "rev (span (e - k) e (rope_bytes_of r))"] exI [of _ ?bs']) (auto simp: pq(4))
qed

text \<open>Reading until a call reads nothing, always into a buffer of the same size.\<close>

partial_function (option) read_collect :: "rope_bytes \<Rightarrow> nat \<Rightarrow> u8 list \<Rightarrow> u8 list rust" where
  "read_collect self n acc = do {
     (buf, self) \<leftarrow> bytes_read self n;
     if buf = [] then Some acc else read_collect self n (acc @ buf)
   }"

lemma read_collect_forward:
  assumes "forward_bytes bs r" "0 < n"
  shows "read_collect bs n acc = Some (acc @ span (by_start bs) (by_end bs) (rope_bytes_of r))"
  using assms(1)
proof (induction "by_end bs - by_start bs" arbitrary: bs acc rule: less_induct)
  case less
  have o: "by_start bs \<le> by_end bs" "by_end bs \<le> length (rope_bytes_of r)" using less.prems by (auto simp: forward_bytes_def bytes_at_def)
  obtain buf bs' where b: "bytes_read bs n = Some (buf, bs')" "forward_bytes bs' r" "by_end bs' = by_end bs" "by_start bs' = by_start bs + length buf"
    "by_start bs' \<le> by_end bs" "buf = span (by_start bs) (by_start bs + length buf) (rope_bytes_of r)" "by_start bs < by_end bs \<longrightarrow> buf \<noteq> []"
    using read_forward [OF less.prems, of n] assms(2) by auto
  show ?case
  proof (cases "buf = []")
    case True
    then show ?thesis using b(1,7) o by (subst read_collect.simps) (simp add: span_empty)
  next
    case False
    then have "0 < length buf" by simp
    then have shorter: "by_end bs' - by_start bs' < by_end bs - by_start bs" using b(3-5) by linarith
    have "read_collect bs n acc = read_collect bs' n (acc @ buf)" using b(1) False by (subst read_collect.simps) simp
    also have "\<dots> = Some ((acc @ buf) @ span (by_start bs + length buf) (by_end bs) (rope_bytes_of r))"
      using less.hyps [OF shorter b(2), of "acc @ buf"] b(3,4) by simp
    also have "span (by_start bs) (by_end bs) (rope_bytes_of r) = buf @ span (by_start bs + length buf) (by_end bs) (rope_bytes_of r)"
      using span_append [of "by_start bs" "by_start bs + length buf" "by_end bs" "rope_bytes_of r"] b(4-6) o by simp
    then have "(acc @ buf) @ span (by_start bs + length buf) (by_end bs) (rope_bytes_of r) = acc @ span (by_start bs) (by_end bs) (rope_bytes_of r)" by simp
    finally show ?thesis .
  qed
qed

lemma read_collect_backward:
  assumes "backward_bytes bs r" "0 < n"
  shows "read_collect bs n acc = Some (acc @ rev (span (by_start bs) (by_end bs) (rope_bytes_of r)))"
  using assms(1)
proof (induction "by_end bs - by_start bs" arbitrary: bs acc rule: less_induct)
  case less
  have o: "by_start bs \<le> by_end bs" "by_end bs \<le> length (rope_bytes_of r)" using less.prems by (auto simp: backward_bytes_def)
  show ?case
  proof (cases "by_start bs < by_end bs")
    case False
    then obtain bs' where "bytes_read bs n = Some ([], bs')" using less.prems by (auto simp: backward_bytes_def)
    then show ?thesis using False by (subst read_collect.simps) (simp add: span_empty)
  next
    case True
    obtain buf bs' where b: "bytes_read bs n = Some (buf, bs')" "backward_bytes bs' r" "by_start bs' = by_start bs" "by_end bs' = by_end bs - length buf"
      "length buf \<le> by_end bs - by_start bs" "rev buf = span (by_end bs - length buf) (by_end bs) (rope_bytes_of r)" "buf \<noteq> []"
      using read_backward [OF less.prems assms(2) True] by blast
    have "0 < length buf" using b(7) by simp
    then have shorter: "by_end bs' - by_start bs' < by_end bs - by_start bs" using b(3-5) True by linarith
    have "read_collect bs n acc = read_collect bs' n (acc @ buf)" using b(1,7) by (subst read_collect.simps) simp
    also have "\<dots> = Some ((acc @ buf) @ rev (span (by_start bs) (by_end bs - length buf) (rope_bytes_of r)))"
      using less.hyps [OF shorter b(2), of "acc @ buf"] b(3,4) by simp
    also have "span (by_start bs) (by_end bs) (rope_bytes_of r) = span (by_start bs) (by_end bs - length buf) (rope_bytes_of r) @ rev buf"
      unfolding b(6) by (rule span_append) (use b(5) o in auto)
    then have "(acc @ buf) @ rev (span (by_start bs) (by_end bs - length buf) (rope_bytes_of r)) = acc @ rev (span (by_start bs) (by_end bs) (rope_bytes_of r))" by simp
    finally show ?thesis .
  qed
qed

lemma read_to_end_ok:
  assumes "rope_ok r" "node_height r < STACK_CAPACITY" "a \<le> b" "b \<le> str_len (rope_str r)" "0 < n"
  shows "\<exists>bs. bytes_new r a b False = Some bs \<and> read_collect bs n [] = Some (span a b (rope_bytes_of r))"
    and "\<exists>bs. bytes_new r a b True = Some bs \<and> read_collect bs n [] = Some (rev (span a b (rope_bytes_of r)))"
proof -
  obtain bs pre suf where f: "bytes_new r a b False = Some bs" "bytes_at bs r pre suf" "by_start bs = a" "by_end bs = b" "\<not> by_reversed bs"
      "str_len (text_of pre) \<le> a" "suf \<noteq> [] \<longrightarrow> a < str_len (text_of (pre @ [hd suf]))" using bytes_new_at(1) [OF assms(1-4)] by blast
  have "suf = [] \<Longrightarrow> \<not> a < b" using f(2,6) assms(4) by (auto simp: bytes_at_def cursor_in_def rope_str_def)
  then have "forward_bytes bs r" by (intro forward_bytesI [OF f(2,5)]) (use f in auto)
  then show "\<exists>bs. bytes_new r a b False = Some bs \<and> read_collect bs n [] = Some (span a b (rope_bytes_of r))"
    using read_collect_forward [OF _ assms(5), of bs r "[]"] f by auto
next
  obtain bs pre suf where f: "bytes_new r a b True = Some bs" "bytes_at bs r pre suf" "by_start bs = a" "by_end bs = b" "by_reversed bs"
      "str_len (text_of pre) < b \<or> pre = []" "suf \<noteq> [] \<longrightarrow> b \<le> str_len (text_of (pre @ [hd suf]))" using bytes_new_at(2) [OF assms(1-4)] by blast
  have "backward_bytes bs r"
  proof (cases "a < b")
    case True
    then have "suf \<noteq> []" using f(2,6) assms(4) by (auto simp: bytes_at_def cursor_in_def rope_str_def)
    then obtain c suf' where s: "suf = c # suf'" by (cases suf) auto
    then show ?thesis using f True by (intro backward_bytesI [of bs r pre c suf']) auto
  next
    case False
    have "\<exists>bs'. bytes_read bs n = Some ([], bs')" for n
    proof (cases "bytes_peek bs = Some None")
      case True
      then show ?thesis by (simp add: bytes_read_def)
    next
      case some: False
      then obtain c suf' where s: "suf = c # suf'" using bytes_peek_end [of bs r pre] f(2) by (cases suf) auto
      have peek: "bytes_peek bs = Some (Some [])"
        using bytes_peek_ok [of bs r pre c suf'] f(2-5) s some False assms(3) by (auto simp: span_def split: if_splits)
      obtain bs1 where "bytes_move (bs\<lparr>by_end := usize_sub (by_end bs) 0\<rparr>) = Some bs1"
        using bytes_move_backward [of bs r pre c suf'] f(2,5) s by (auto simp: usize_sub_def)
      then show ?thesis using bytes_read_backward_eq [OF peek f(5), of 0 n bs1] by simp
    qed
    then show ?thesis using f(3-5) False assms(3,4) by (intro backward_bytes_done) simp_all
  qed
  then show "\<exists>bs. bytes_new r a b True = Some bs \<and> read_collect bs n [] = Some (rev (span a b (rope_bytes_of r)))"
    using read_collect_backward [OF _ assms(5), of bs r "[]"] f by auto
qed

section \<open>Pieces with their bitmaps\<close>

text \<open>
  The bitmaps of a piece are those of its chunk from the start of the piece on. Their low bits are the bitmaps of
  the piece; the bits above them stem from the rest of the chunk, past the end of the range.
\<close>

definition bitmaps_of :: "rstr \<Rightarrow> rstr \<Rightarrow> chunk_bitmaps" where
  "bitmaps_of t s = \<lparr>cb_text = t, cb_chars = bm (marks (\<lambda>_. 1) (t @ s)), cb_tabs = bm (marks (\<lambda>c. of_bool (c = tab)) (t @ s)),
     cb_newlines = bm (newline_marks (t @ s))\<rparr>"

definition piece_bitmaps :: "chunk_bitmaps \<Rightarrow> bool" where
  "piece_bitmaps cb \<longleftrightarrow> take_bit (str_len (cb_text cb)) (cb_chars cb) = bm (marks (\<lambda>_. 1) (cb_text cb))
     \<and> take_bit (str_len (cb_text cb)) (cb_tabs cb) = bm (marks (\<lambda>c. of_bool (c = tab)) (cb_text cb))
     \<and> take_bit (str_len (cb_text cb)) (cb_newlines cb) = bm (newline_marks (cb_text cb))"

partial_function (option) bitmaps_collect :: "rope_chunks \<Rightarrow> chunk_bitmaps list \<Rightarrow> chunk_bitmaps list rust" where
  "bitmaps_collect self acc = do {
     (item, self) \<leftarrow> bitmaps_next self;
     (case item of None \<Rightarrow> Some acc | Some piece \<Rightarrow> bitmaps_collect self (acc @ [piece]))
   }"

lemma take_bit_marks:
  assumes "str_len (t @ s) \<le> 128"
  shows "take_bit (str_len t) (bm (marks k (t @ s))) = bm (marks k t)"
  by (rule bit_eqI) (use assms in \<open>auto simp: bit_take_bit_iff bit_bm nth_append\<close>)

lemma bitmaps_of_piece: "str_len (t @ s) \<le> 128 \<Longrightarrow> piece_bitmaps (bitmaps_of t s)"
  unfolding piece_bitmaps_def bitmaps_of_def by (simp add: take_bit_marks del: marks_simps)

lemma peek_with_bitmaps_middle:
  assumes "offset_is_valid ch" "cursor_item (ch_chunks ch) = Some (Some (chunk_of (p @ t @ s)))" "chunks_slice_range ch = Some (str_len p, str_len p + str_len t)"
    and "str_len (p @ t @ s) \<le> 128" "t \<noteq> []"
  shows "peek_with_bitmaps ch = Some (Some (bitmaps_of t s))"
proof -
  have "str_len p < 128" using assms(4,5) str_len_pos [of t] by simp
  then have "shr (bm (marks k (p @ t @ s))) (str_len p) = bm (marks k (t @ s))" for k
    using assms(4) by (simp add: shr_def bm_drop)
  then show ?thesis using assms(1-3) by (simp add: peek_with_bitmaps_def slice_middle chunk_of_def bitmaps_of_def del: marks_simps)
qed

lemma bitmaps_next_forward:
  assumes "reads_forward ch r w x y z" "y \<noteq> []"
  obtains t s y' ch' where "y = t @ y'" "t \<noteq> []" "str_len (t @ s) \<le> 128" "y' = [] \<or> s = []" "bitmaps_next ch = Some (Some (bitmaps_of t s), ch')" "reads_forward ch' r w (x @ t) y' z"
proof (rule forward_chunk [OF assms])
  fix p t s y'
  assume t: "y = t @ y'" "t \<noteq> []" "str_len (p @ t @ s) \<le> 128" "y' = [] \<or> s = []" and k: "offset_is_valid ch" "cursor_item (ch_chunks ch) = Some (Some (chunk_of (p @ t @ s)))"
    "chunks_slice_range ch = Some (str_len p, str_len p + str_len t)" "\<exists>ch'. chunks_advance ch (str_len t) = Some ch' \<and> reads_forward ch' r w (x @ t) y' z"
  have "peek_with_bitmaps ch = Some (Some (bitmaps_of t s))" by (rule peek_with_bitmaps_middle [OF k(1-3) t(3,2)])
  moreover have "cb_text (bitmaps_of t s) = t" by (simp add: bitmaps_of_def)
  ultimately show thesis using that [OF t(1,2) _ t(4)] t(3) k(4) by (auto simp: bitmaps_next_def)
qed

lemma bitmaps_next_backward:
  assumes "reads_backward ch r w x y z" "x \<noteq> []"
  obtains t s x' ch' where "x = x' @ t" "t \<noteq> []" "str_len (t @ s) \<le> 128" "bitmaps_next ch = Some (Some (bitmaps_of t s), ch')" "reads_backward ch' r w x' (t @ y) z"
proof (rule backward_chunk [OF assms])
  fix p t s x'
  assume t: "x = x' @ t" "t \<noteq> []" "str_len (p @ t @ s) \<le> 128" and k: "offset_is_valid ch" "cursor_item (ch_chunks ch) = Some (Some (chunk_of (p @ t @ s)))"
    "chunks_slice_range ch = Some (str_len p, str_len p + str_len t)" "\<exists>ch'. chunks_advance ch (str_len t) = Some ch' \<and> reads_backward ch' r w x' (t @ y) z \<and> (w @ x' = [] \<longrightarrow> before_first usize_dim (ch_chunks ch'))"
  have "peek_with_bitmaps ch = Some (Some (bitmaps_of t s))" by (rule peek_with_bitmaps_middle [OF k(1-3) t(3,2)])
  moreover have "cb_text (bitmaps_of t s) = t" by (simp add: bitmaps_of_def)
  ultimately show thesis using that [OF t(1,2), of s] t(3) k(4) by (auto simp: bitmaps_next_def)
qed

lemma bitmaps_collect_forward:
  assumes "reads_forward ch r w x y z"
  shows "\<exists>cbs. bitmaps_collect ch acc = Some (acc @ cbs) \<and> concat (map cb_text cbs) = y \<and> list_all piece_bitmaps cbs"
  using assms
proof (induction "length y" arbitrary: ch x y acc rule: less_induct)
  case less
  show ?case
  proof (cases "y = []")
    case True
    then have "bitmaps_next ch = Some (None, ch)" using less.prems forward_done [of ch] by (simp add: bitmaps_next_def peek_with_bitmaps_def)
    then show ?thesis using True by (subst bitmaps_collect.simps) simp
  next
    case False
    obtain t s y' ch' where t: "y = t @ y'" "t \<noteq> []" "str_len (t @ s) \<le> 128" "bitmaps_next ch = Some (Some (bitmaps_of t s), ch')" "reads_forward ch' r w (x @ t) y' z"
      by (rule bitmaps_next_forward [OF less.prems False])
    obtain cbs where "bitmaps_collect ch' (acc @ [bitmaps_of t s]) = Some ((acc @ [bitmaps_of t s]) @ cbs)" "concat (map cb_text cbs) = y'" "list_all piece_bitmaps cbs"
      using less.hyps [OF _ t(5), of "acc @ [bitmaps_of t s]"] t(1,2) by auto
    moreover have "cb_text (bitmaps_of t s) = t" by (simp add: bitmaps_of_def)
    ultimately show ?thesis using t(1,4) bitmaps_of_piece [OF t(3)]
      by (subst bitmaps_collect.simps) (auto intro!: exI [of _ "bitmaps_of t s # cbs"])
  qed
qed

lemma bitmaps_collect_backward:
  assumes "reads_backward ch r w x y z"
  shows "\<exists>cbs. bitmaps_collect ch acc = Some (acc @ cbs) \<and> concat (map cb_text (rev cbs)) = x \<and> list_all piece_bitmaps cbs"
  using assms
proof (induction "length x" arbitrary: ch x y acc rule: less_induct)
  case less
  show ?case
  proof (cases "x = []")
    case True
    then have "bitmaps_next ch = Some (None, ch)" using less.prems backward_done [of ch] by (simp add: bitmaps_next_def peek_with_bitmaps_def)
    then show ?thesis using True by (subst bitmaps_collect.simps) simp
  next
    case False
    obtain t s x' ch' where t: "x = x' @ t" "t \<noteq> []" "str_len (t @ s) \<le> 128" "bitmaps_next ch = Some (Some (bitmaps_of t s), ch')" "reads_backward ch' r w x' (t @ y) z"
      by (rule bitmaps_next_backward [OF less.prems False])
    obtain cbs where "bitmaps_collect ch' (acc @ [bitmaps_of t s]) = Some ((acc @ [bitmaps_of t s]) @ cbs)" "concat (map cb_text (rev cbs)) = x'" "list_all piece_bitmaps cbs"
      using less.hyps [OF _ t(5), of "acc @ [bitmaps_of t s]"] t(1,2) by auto
    moreover have "cb_text (bitmaps_of t s) = t" by (simp add: bitmaps_of_def)
    ultimately show ?thesis using t(1,4) bitmaps_of_piece [OF t(3)]
      by (subst bitmaps_collect.simps) (auto intro!: exI [of _ "bitmaps_of t s # cbs"])
  qed
qed

end
