(* ===== verification/RopeRead.thy ===== *)
theory RopeRead
  imports RopeBytes
begin

text \<open>
  What the iterators of a rope promise: pieces, lines and bytes of a range in both directions.
\<close>

section \<open>Properties\<close>

text \<open>
  C6: reading a range of a rope. The iterator over the pieces of a range yields non-empty pieces that make up
  exactly the text of the range, forward or backward, and ends; \<open>equals_str\<close> decides in both directions whether
  that text is a given string. \<open>starts_with\<close>, \<open>ends_with\<close>, the characters after and before an offset and the
  conversion to a string are those of the whole text.
\<close>

theorem rope_iteration:
  assumes "rope_ok r" "node_height r < STACK_CAPACITY" "rope_str r = w @ y @ z"
  shows "(\<exists>ch ts. rope_chunks_in_range r (str_len w) (str_len (w @ y)) = Some ch \<and> chunks_collect ch [] = Some ts
        \<and> concat ts = y \<and> [] \<notin> set ts \<and> equals_str ch other = Some (y = other))
    \<and> (\<exists>ch ts. reversed_chunks_in_range r (str_len w) (str_len (w @ y)) = Some ch \<and> chunks_collect ch [] = Some ts
        \<and> concat (rev ts) = y \<and> [] \<notin> set ts \<and> equals_str ch other = Some (y = other))
    \<and> rope_to_string r = Some (rope_str r) \<and> chars_at r (str_len w) = Some (y @ z) \<and> reversed_chars_at r (str_len w) = Some (rev w)
    \<and> rope_starts_with r other = Some (\<exists>u. rope_str r = other @ u) \<and> rope_ends_with r other = Some (\<exists>u. rope_str r = u @ other)"
proof (intro conjI)
  from chunks_new_forward [OF assms] obtain ch where ch: "chunks_new r (str_len w) (str_len (w @ y)) False = Some ch" "forward_left ch y" "\<not> ch_reversed ch"
    using forward_leftI direction(1) by blast
  obtain ts where "chunks_collect ch [] = Some ts" "concat ts = y" "[] \<notin> set ts" using fwd.collect_ok [OF ch(2), of "[]"] by (auto simp: foldr_join)
  moreover have "equals_str ch other = Some (y = other)" using equals_forward_ok [OF ch(2), of "[]" other] ch(3) by (simp add: equals_str_def)
  ultimately show "\<exists>ch ts. rope_chunks_in_range r (str_len w) (str_len (w @ y)) = Some ch \<and> chunks_collect ch [] = Some ts
      \<and> concat ts = y \<and> [] \<notin> set ts \<and> equals_str ch other = Some (y = other)" using ch(1) unfolding rope_chunks_in_range_def by blast
next
  from chunks_new_backward [OF assms] obtain ch where ch: "chunks_new r (str_len w) (str_len (w @ y)) True = Some ch" "backward_left ch y" "ch_reversed ch"
    using backward_leftI direction(2) by blast
  obtain ts where "chunks_collect ch [] = Some ts" "concat (rev ts) = y" "[] \<notin> set ts" using bwd.collect_ok [OF ch(2), of "[]"] by (auto simp: foldr_join)
  moreover have "equals_str ch other = Some (y = other)" using equals_backward_ok [OF ch(2), of other "[]"] ch(3) by (simp add: equals_str_def)
  ultimately show "\<exists>ch ts. reversed_chunks_in_range r (str_len w) (str_len (w @ y)) = Some ch \<and> chunks_collect ch [] = Some ts
      \<and> concat (rev ts) = y \<and> [] \<notin> set ts \<and> equals_str ch other = Some (y = other)" using ch(1) unfolding reversed_chunks_in_range_def by blast
qed (use rope_text_ok [OF assms(1,2), of w "y @ z"] rope_ends_ok [OF assms(1,2), of other] assms(3) in \<open>simp_all add: starts_with_iff ends_with_iff\<close>)

theorem rope_iteration_witness:
  "\<exists>r. push_chunk sequential_packages rope_new (slice_of [97, newline, 233, 98]) = Some r
    \<and> rope_to_string r = Some [97, newline, 233, 98] \<and> chars_at r 2 = Some [233, 98] \<and> reversed_chars_at r 2 = Some [newline, 97]
    \<and> rope_starts_with r [97, newline] = Some True \<and> rope_ends_with r [97, newline] = Some False"
proof -
  let ?s = "[97, newline, 233, 98]"
  have v: "valid_str ?s" "str_len ?s = 5" "str_len [97, newline] = 2" by (simp_all add: len_utf8_def newline_def)
  obtain r where r: "push_chunk sequential_packages rope_new (slice_of ?s) = Some r" "rope_ok r" "rope_str r = ?s" "node_height r \<le> 1"
    by (rule small_rope [of ?s]) (use v in auto)
  have h: "node_height r < STACK_CAPACITY" "rope_str r = [97, newline] @ [233] @ [98]" using r(3,4) by (simp_all add: STACK_CAPACITY_def)
  have "\<exists>u. rope_str r = [97, newline] @ u" "\<nexists>u. rope_str r = u @ [97, newline]" using r(3) by (auto simp: Cons_eq_append_conv newline_def)
  then show ?thesis using rope_iteration [OF r(2) h, of "[97, newline]", unfolded v(3)] r(1,3) by simp
qed

text \<open>
  C9: the lines of a range. Reading an iterator over lines to its end gives the text of the range split at its
  newlines, in order or in reverse, whatever the chunks. After any number of calls, which have yielded so many of these
  lines, seeking a forward iterator to a boundary drops the line read before and starts again from there, also when the
  iterator was done; a reversed one starts again as well while it has lines left, and for a range that does not begin at the
  start of the rope even after its last line.
\<close>

theorem rope_lines_split:
  assumes "rope_ok r" "node_height r < STACK_CAPACITY" "rope_str r = w @ x @ y @ z"
  shows "(\<exists>ch. rope_chunks_in_range r (str_len w) (str_len (w @ x @ y)) = Some ch \<and> lines_collect (chunks_lines ch) [] = Some (split_lines (x @ y))
      \<and> (\<forall>n. \<exists>ln ln'. lines_read n (chunks_lines ch) = Some (take n (split_lines (x @ y)), ln)
        \<and> lines_seek ln (str_len (w @ x)) = Some ln' \<and> ln_current ln' = [] \<and> lines_collect ln' [] = Some (split_lines y)))
    \<and> (\<exists>ch. reversed_chunks_in_range r (str_len w) (str_len (w @ x @ y)) = Some ch \<and> lines_collect (chunks_lines ch) [] = Some (rev (split_lines (x @ y)))
      \<and> (\<forall>n. \<exists>ln. lines_read n (chunks_lines ch) = Some (take n (rev (split_lines (x @ y))), ln)
        \<and> (n < length (split_lines (x @ y)) \<or> w \<noteq> [] \<longrightarrow>
          (\<exists>ln'. lines_seek ln (str_len (w @ x)) = Some ln' \<and> ln_current ln' = [] \<and> lines_collect ln' [] = Some (rev (split_lines x))))))"
proof
  have str: "rope_str r = w @ (x @ y) @ z" using assms(3) by simp
  from chunks_new_forward [OF assms(1,2) str] obtain ch where
    ch: "rope_chunks_in_range r (str_len w) (str_len (w @ x @ y)) = Some ch" "lines_forward r w (x @ y) z (chunks_lines ch) (split_lines (x @ y))"
    using chunks_lines_ok(1) unfolding rope_chunks_in_range_def by blast
  have "\<exists>ln ln'. lines_read n (chunks_lines ch) = Some (take n (split_lines (x @ y)), ln)
      \<and> lines_seek ln (str_len (w @ x)) = Some ln' \<and> ln_current ln' = [] \<and> lines_collect ln' [] = Some (split_lines y)" for n
    using fwd_lines.lines_read_ok [OF ch(2), of n] lines_seek_forward fwd_lines.lines_collect_ok [of _ _ _ _ _ _ "[]"] by (metis append_Nil)
  then show "\<exists>ch. rope_chunks_in_range r (str_len w) (str_len (w @ x @ y)) = Some ch \<and> lines_collect (chunks_lines ch) [] = Some (split_lines (x @ y))
      \<and> (\<forall>n. \<exists>ln ln'. lines_read n (chunks_lines ch) = Some (take n (split_lines (x @ y)), ln)
        \<and> lines_seek ln (str_len (w @ x)) = Some ln' \<and> ln_current ln' = [] \<and> lines_collect ln' [] = Some (split_lines y))"
    using ch(1) fwd_lines.lines_collect_ok [OF ch(2), of "[]"] by simp
  from chunks_new_backward [OF assms(1,2) str] obtain ch where
    ch: "reversed_chunks_in_range r (str_len w) (str_len (w @ x @ y)) = Some ch" "lines_backward r w (x @ y) z (chunks_lines ch) (rev (split_lines (x @ y)))"
    using chunks_lines_ok(2) unfolding reversed_chunks_in_range_def by blast
  have "\<exists>ln. lines_read n (chunks_lines ch) = Some (take n (rev (split_lines (x @ y))), ln)
      \<and> (n < length (split_lines (x @ y)) \<or> w \<noteq> [] \<longrightarrow>
        (\<exists>ln'. lines_seek ln (str_len (w @ x)) = Some ln' \<and> ln_current ln' = [] \<and> lines_collect ln' [] = Some (rev (split_lines x))))" for n
  proof -
    obtain ln where ln: "lines_read n (chunks_lines ch) = Some (take n (rev (split_lines (x @ y))), ln)"
      "lines_backward r w (x @ y) z ln (drop n (rev (split_lines (x @ y))))" using bwd_lines.lines_read_ok [OF ch(2), of n] by blast
    have "\<exists>ln'. lines_seek ln (str_len (w @ x)) = Some ln' \<and> ln_current ln' = [] \<and> lines_collect ln' [] = Some (rev (split_lines x))"
      if "n < length (split_lines (x @ y)) \<or> w \<noteq> []"
      using lines_seek_backward [OF ln(2)] that bwd_lines.lines_collect_ok [of _ _ _ _ _ _ "[]"] by fastforce
    then show ?thesis using ln(1) by blast
  qed
  then show "\<exists>ch. reversed_chunks_in_range r (str_len w) (str_len (w @ x @ y)) = Some ch \<and> lines_collect (chunks_lines ch) [] = Some (rev (split_lines (x @ y)))
      \<and> (\<forall>n. \<exists>ln. lines_read n (chunks_lines ch) = Some (take n (rev (split_lines (x @ y))), ln)
        \<and> (n < length (split_lines (x @ y)) \<or> w \<noteq> [] \<longrightarrow>
          (\<exists>ln'. lines_seek ln (str_len (w @ x)) = Some ln' \<and> ln_current ln' = [] \<and> lines_collect ln' [] = Some (rev (split_lines x)))))"
    using ch(1) bwd_lines.lines_collect_ok [OF ch(2), of "[]"] by simp
qed

theorem rope_lines_split_witness:
  "\<exists>r ch ln ln'. push_chunk sequential_packages rope_new (slice_of [97, newline, newline, 98]) = Some r
    \<and> rope_chunks_in_range r 0 4 = Some ch \<and> lines_collect (chunks_lines ch) [] = Some [[97], [], [98]]
    \<and> lines_read 5 (chunks_lines ch) = Some ([[97], [], [98]], ln) \<and> lines_seek ln 2 = Some ln' \<and> lines_collect ln' [] = Some [[], [98]]"
proof -
  let ?x = "[97, newline]" and ?y = "[newline, 98]"
  have v: "valid_str (?x @ ?y)" "str_len (?x @ ?y) = 4" "str_len ?x = 2" by (simp_all add: len_utf8_def newline_def)
  obtain r where r: "push_chunk sequential_packages rope_new (slice_of (?x @ ?y)) = Some r" "rope_ok r" "rope_str r = ?x @ ?y" "node_height r \<le> 1"
    by (rule small_rope [of "?x @ ?y"]) (use v in auto)
  have h: "node_height r < STACK_CAPACITY" "rope_str r = [] @ ?x @ ?y @ []" using r(3,4) by (simp_all add: STACK_CAPACITY_def)
  have l: "split_lines (?x @ ?y) = [[97], [], [98]]" "split_lines ?y = [[], [98]]" by (simp_all add: newline_def)
  obtain ch where ch: "rope_chunks_in_range r 0 4 = Some ch" "lines_collect (chunks_lines ch) [] = Some [[97], [], [98]]"
    "\<And>n. \<exists>ln ln'. lines_read n (chunks_lines ch) = Some (take n [[97], [], [98]], ln) \<and> lines_seek ln 2 = Some ln' \<and> lines_collect ln' [] = Some [[], [98]]"
    using rope_lines_split [OF r(2) h] unfolding append_Nil append_Nil2 v(2,3) l str_len_simps(1) by blast
  then show ?thesis using ch(3) [of 5] r(1) by simp
qed

text \<open>
  The remaining case. A reversed iterator over a range from the start of the rope, whose text does not begin with a
  newline, cannot be restarted once it has yielded its last line: seeking it to any later boundary returns, but then it
  yields one empty line instead of the lines before the boundary.
\<close>

theorem reversed_lines_seek_lost:
  assumes "rope_ok r" "node_height r < STACK_CAPACITY" "rope_str r = x @ y @ z" "x \<noteq> []" "hd x \<noteq> newline"
  shows "\<exists>ch ln ln'. reversed_chunks_in_range r 0 (str_len (x @ y)) = Some ch
    \<and> lines_read (length (split_lines (x @ y))) (chunks_lines ch) = Some (rev (split_lines (x @ y)), ln)
    \<and> lines_seek ln (str_len x) = Some ln' \<and> lines_collect ln' [] = Some [[]] \<and> rev (split_lines x) \<noteq> [[]]"
proof -
  have str: "rope_str r = [] @ (x @ y) @ z" using assms(3) by simp
  from chunks_new_backward [OF assms(1,2) str] obtain ch where
    ch: "chunks_new r 0 (str_len (x @ y)) True = Some ch" "reads_backward ch r [] (x @ y) [] z" by auto
  from lines_read_before_first [of "chunks_lines ch" r "x @ y" "[]" z] ch(2) direction(2) assms(4,5) obtain ln where
    ln: "lines_read (length (split_lines (x @ y))) (chunks_lines ch) = Some (rev (split_lines (x @ y)), ln)"
    "before_first usize_dim (ch_chunks (ln_chunks ln))" "reads_backward (ln_chunks ln) r [] [] (x @ y) z" by (auto simp: chunks_lines_def)
  have b: "ch_reversed (ln_chunks ln)" "ch_start (ln_chunks ln) = 0" "str_len x \<le> ch_end (ln_chunks ln)"
    using ln(3) by (simp_all add: reads_backward_def chunks_between_def)
  have "0 < str_len x" using assms(4) str_len_pos [of x] by simp
  from chunks_seek_before_first [OF ln(2) b(1,2) this b(3)] obtain ch' where
    ch': "chunks_seek (ln_chunks ln) (str_len x) = Some ch'" "chunks_peek ch' = Some None" by blast
  have "rev (split_lines x) \<noteq> [[]]" using assms(4,5) by (cases x) (simp_all split: list.split)
  moreover have "lines_collect (ln\<lparr>ln_chunks := ch', ln_current := [], ln_done := False\<rparr>) [] = Some [[]]"
    using ch'(2) by (intro lines_collect_no_chunk) simp_all
  ultimately show ?thesis using ch(1) ln(1) ch'(1) by (simp add: lines_seek_def reversed_chunks_in_range_def)
qed

text \<open>
  C22: moving by lines. From any boundary of a range, \<open>next_line\<close> moves behind the next newline of the range and
  returns true, or to the end of the range and returns false; \<open>prev_line\<close> moves to the start of the line of the
  character before it, passing over a newline right before it, but not before the start of the range. Both
  leave an iterator that reads exactly the text from there to the end of the range.
\<close>

theorem rope_line_moves:
  assumes "rope_ok r" "node_height r < STACK_CAPACITY" "rope_str r = w @ x @ y @ z"
  shows "\<exists>ch ch1 ch2 ch3 ts2 ts3. rope_chunks_in_range r (str_len w) (str_len (w @ x @ y)) = Some ch \<and> chunks_seek ch (str_len (w @ x)) = Some ch1
    \<and> next_line ch1 = Some (newline \<in> set y, ch2) \<and> chunks_collect ch2 [] = Some ts2
    \<and> y = (if newline \<in> set y then hd (split_lines y) @ [newline] else y) @ concat ts2
    \<and> prev_line ch1 = Some (prev_start (w @ x) \<noteq> [] \<and> str_len w \<le> str_len (prev_start (w @ x)) \<or> w = [] \<and> x \<noteq> [], ch3)
    \<and> chunks_collect ch3 [] = Some ts3
    \<and> w @ x @ y = (if str_len w \<le> str_len (prev_start (w @ x)) then prev_start (w @ x) else w) @ concat ts3"
proof -
  have str: "rope_str r = w @ (x @ y) @ z" using assms(3) by simp
  from chunks_new_forward [OF assms(1,2) str] obtain ch where f: "chunks_new r (str_len w) (str_len (w @ x @ y)) False = Some ch" "reads_forward ch r w [] (x @ y) z" by auto
  obtain pre suf where cur: "cursor_in rope_fits chunk_ops usize_dim (ch_chunks ch) pre suf" "c_did_seek (ch_chunks ch)" "c_tree (ch_chunks ch) = r"
    and b: "ch_start ch = str_len w" "ch_end ch = str_len (w @ x @ y)" "\<not> ch_reversed ch"
    using f(2) by (auto simp: reads_forward_def chunks_between_def)
  obtain ch1 where c1: "chunks_seek ch (str_len (w @ x)) = Some ch1" "reads_forward ch1 r w x y z"
    using chunks_seek_forward [OF assms(1,3) b cur] by blast
  have rest: "\<exists>ts. chunks_collect c [] = Some ts \<and> concat ts = v" if "reads_forward c r w u v z" for c u v
    using fwd.collect_ok [OF forward_leftI [OF that], of "[]"] by (auto simp: foldr_join)
  have "\<exists>ch2 ts2. next_line ch1 = Some (newline \<in> set y, ch2) \<and> chunks_collect ch2 [] = Some ts2
      \<and> y = (if newline \<in> set y then hd (split_lines y) @ [newline] else y) @ concat ts2"
  proof (cases "newline \<in> set y")
    case True
    then obtain ch2 l y' where n: "next_line ch1 = Some (True, ch2)" "y = l @ newline # y'" "newline \<notin> set l" "reads_forward ch2 r w (x @ l @ [newline]) y' z"
      using next_line_ok [OF c1(2)] by auto
    then show ?thesis using rest [OF n(4)] True by (auto simp: split_lines_newline)
  next
    case False
    then obtain ch2 where n: "next_line ch1 = Some (False, ch2)" "reads_forward ch2 r w (x @ y) [] z" using next_line_ok [OF c1(2)] by auto
    then show ?thesis using rest [OF n(2)] False by auto
  qed
  moreover obtain ch3 x' y' where p: "prev_line ch1 = Some (prev_start (w @ x) \<noteq> [] \<and> str_len w \<le> str_len (prev_start (w @ x)) \<or> w = [] \<and> x \<noteq> [], ch3)"
    "x @ y = x' @ y'" "reads_forward ch3 r w x' y' z" "if str_len w \<le> str_len (prev_start (w @ x)) then w @ x' = prev_start (w @ x) else x' = []"
    using prev_line_ok [OF c1(2)] by blast
  moreover have "w @ x @ y = (if str_len w \<le> str_len (prev_start (w @ x)) then prev_start (w @ x) else w) @ y'"
    using p(2,4) by (metis append.assoc append_Nil2)
  ultimately show ?thesis using f(1) c1(1) rest [OF p(3)] unfolding rope_chunks_in_range_def by metis
qed

theorem rope_line_moves_witness:
  "\<exists>r ch ch1 ch2 ch3. push_chunk sequential_packages rope_new (slice_of [97, newline, 98, 99, newline, 100]) = Some r
    \<and> rope_chunks_in_range r 0 6 = Some ch \<and> chunks_seek ch 3 = Some ch1 \<and> next_line ch1 = Some (True, ch2) \<and> prev_line ch1 = Some (True, ch3)"
proof -
  let ?s = "[97, newline, 98, 99, newline, 100]"
  have v: "valid_str ?s" "str_len ?s = 6" "str_len [97, newline, 98] = 3" "prev_start [97, newline, 98] = [97, newline]"
    by (simp_all add: len_utf8_def newline_def prev_start_def without_newline_def upto_newline_def)
  obtain r where r: "push_chunk sequential_packages rope_new (slice_of ?s) = Some r" "rope_ok r" "rope_str r = ?s" "node_height r \<le> 1"
    by (rule small_rope [of ?s]) (use v in auto)
  have h: "node_height r < STACK_CAPACITY" "rope_str r = [] @ [97, newline, 98] @ [99, newline, 100] @ []" using r(3,4) by (simp_all add: STACK_CAPACITY_def)
  show ?thesis using rope_line_moves [OF r(2) h] r(1) v(2-4) by auto
qed

text \<open>
  C40: the bytes of a range, between any two offsets. The byte slices of the iterator make up the bytes of the
  range, forward and backward, and \<open>read\<close> with a buffer of any positive size delivers all of them, in reverse
  order from a reversed iterator.
\<close>

theorem rope_byte_range:
  assumes "rope_ok r" "node_height r < STACK_CAPACITY" "a \<le> b" "b \<le> str_len (rope_str r)" "0 < n"
  shows "(\<exists>bs ts. bytes_new r a b False = Some bs \<and> bytes_collect bs [] = Some ts \<and> concat ts = drop a (take b (as_bytes (rope_str r)))
        \<and> read_collect bs n [] = Some (drop a (take b (as_bytes (rope_str r)))))
    \<and> (\<exists>bs ts. bytes_new r a b True = Some bs \<and> bytes_collect bs [] = Some ts \<and> concat (rev ts) = drop a (take b (as_bytes (rope_str r)))
        \<and> read_collect bs n [] = Some (rev (drop a (take b (as_bytes (rope_str r))))))"
  using bytes_slices_ok [OF assms(1-4)] read_to_end_ok [OF assms] unfolding span_def by fastforce

theorem rope_byte_range_witness:
  "\<exists>r bs. push_chunk sequential_packages rope_new (slice_of [97, 233, 98]) = Some r
    \<and> bytes_new r 1 3 False = Some bs \<and> read_collect bs 1 [] = Some [195, 169]"
proof -
  let ?s = "[97, 233, 98]"
  have v: "valid_str ?s" "str_len ?s = 4" "as_bytes ?s = [97, 195, 169, 98]" by (simp_all add: len_utf8_def encode_utf8_def)
  obtain r where r: "push_chunk sequential_packages rope_new (slice_of ?s) = Some r" "rope_ok r" "rope_str r = ?s" "node_height r \<le> 1"
    by (rule small_rope [of ?s]) (use v in auto)
  have h: "node_height r < STACK_CAPACITY" "(1::nat) \<le> 3" "(3::nat) \<le> str_len (rope_str r)" "(0::nat) < 1" using r(3,4) v(2) by (simp_all add: STACK_CAPACITY_def)
  have "drop 1 (take 3 (as_bytes (rope_str r))) = [195, 169]" unfolding r(3) v(3) by (simp add: numeral_3_eq_3)
  then show ?thesis using rope_byte_range [OF r(2) h] r(1) by auto
qed

text \<open>
  The pieces with bitmaps (\<open>ChunkWithBitmaps\<close>) are the pieces of the range in the order of reading, and the low
  bits of their bitmaps, one per byte of the piece, mark its characters, tabs and newlines.
\<close>

theorem rope_bitmaps:
  assumes "rope_ok r" "node_height r < STACK_CAPACITY" "rope_str r = w @ y @ z"
  shows "(\<exists>ch cbs. rope_chunks_in_range r (str_len w) (str_len (w @ y)) = Some ch \<and> bitmaps_collect ch [] = Some cbs
        \<and> concat (map cb_text cbs) = y \<and> list_all piece_bitmaps cbs)
    \<and> (\<exists>ch cbs. reversed_chunks_in_range r (str_len w) (str_len (w @ y)) = Some ch \<and> bitmaps_collect ch [] = Some cbs
        \<and> concat (map cb_text (rev cbs)) = y \<and> list_all piece_bitmaps cbs)"
proof
  from chunks_new_forward [OF assms] obtain ch where ch: "chunks_new r (str_len w) (str_len (w @ y)) False = Some ch" "reads_forward ch r w [] y z" by blast
  from bitmaps_collect_forward [OF ch(2), of "[]"] ch(1) show "\<exists>ch cbs. rope_chunks_in_range r (str_len w) (str_len (w @ y)) = Some ch
      \<and> bitmaps_collect ch [] = Some cbs \<and> concat (map cb_text cbs) = y \<and> list_all piece_bitmaps cbs" by (simp add: rope_chunks_in_range_def)
next
  from chunks_new_backward [OF assms] obtain ch where ch: "chunks_new r (str_len w) (str_len (w @ y)) True = Some ch" "reads_backward ch r w y [] z" by blast
  from bitmaps_collect_backward [OF ch(2), of "[]"] ch(1) show "\<exists>ch cbs. reversed_chunks_in_range r (str_len w) (str_len (w @ y)) = Some ch
      \<and> bitmaps_collect ch [] = Some cbs \<and> concat (map cb_text (rev cbs)) = y \<and> list_all piece_bitmaps cbs" by (simp add: reversed_chunks_in_range_def)
qed

theorem rope_bitmaps_witness:
  "\<exists>r ch cbs. push_chunk sequential_packages rope_new (slice_of [97, newline]) = Some r \<and> rope_chunks_in_range r 0 1 = Some ch
    \<and> bitmaps_collect ch [] = Some cbs \<and> concat (map cb_text cbs) = [97] \<and> list_all piece_bitmaps cbs"
proof -
  let ?s = "[97, newline]"
  have v: "valid_str ?s" "str_len ?s = 2" "str_len [97] = 1" by (simp_all add: len_utf8_def newline_def)
  obtain r where r: "push_chunk sequential_packages rope_new (slice_of ?s) = Some r" "rope_ok r" "rope_str r = ?s" "node_height r \<le> 1"
    by (rule small_rope [of ?s]) (use v in auto)
  have h: "node_height r < STACK_CAPACITY" "rope_str r = [] @ [97] @ [newline]" using r(3,4) by (simp_all add: STACK_CAPACITY_def)
  show ?thesis using rope_bitmaps [OF r(2) h] r(1) v(3) by auto
qed

lemma single_chunk_rope:
  assumes "push_chunk sequential_packages rope_new (slice_of t) = Some r" "t \<noteq> []" "str_len t \<le> 128"
  shows "tree_items r = [chunk_of t]"
proof -
  have e: "rope_ok rope_new" "tree_items rope_new = []" using rope_new_ok by (simp_all add: rope_new_def tree_new_def)
  from rp.tree_push_ok [of rope_new "chunk_of t"] rope_okD(1) [OF e(1)] obtain q where
    q: "tree_push chunk_ops rope_new (chunk_of t) = Some q" "tree_items q = [chunk_of t]" using e(2) by auto
  then show ?thesis using assms slice_into_chunk_eq [OF sequential_packages_ok, of t]
    by (simp add: push_chunk_def update_last_with_none [OF e] MAX_BASE_def)
qed

text \<open>
  Past the end of a piece its bitmaps go on: the piece \<open>"a"\<close> of the text \<open>"a\n"\<close> carries the newline that follows it.
\<close>

theorem bitmaps_past_the_end:
  "\<exists>r ch ch' cb. push_chunk sequential_packages rope_new (slice_of [97, newline]) = Some r \<and> rope_chunks_in_range r 0 1 = Some ch
    \<and> bitmaps_next ch = Some (Some cb, ch') \<and> cb_text cb = [97] \<and> bit (cb_newlines cb) 1"
proof -
  let ?s = "[97, newline]"
  have v: "valid_str ?s" "str_len ?s = 2" "str_len [97] = 1" by (simp_all add: len_utf8_def newline_def)
  obtain r where r: "push_chunk sequential_packages rope_new (slice_of ?s) = Some r" "rope_ok r" "rope_str r = ?s" "node_height r \<le> 1"
    by (rule small_rope [of ?s]) (use v in auto)
  have h: "node_height r < STACK_CAPACITY" "rope_str r = [] @ [97] @ [newline]" using r(3,4) by (simp_all add: STACK_CAPACITY_def)
  from chunks_new_forward [OF r(2) h] v(3) obtain ch where ch: "chunks_new r 0 1 False = Some ch" "reads_forward ch r [] [] [97] [newline]" by auto
  obtain p t s y' where t: "[97] = t @ y'" "t \<noteq> []" "str_len (p @ t @ s) \<le> 128" "offset_is_valid ch" "cursor_item (ch_chunks ch) = Some (Some (chunk_of (p @ t @ s)))"
    "chunks_slice_range ch = Some (str_len p, str_len p + str_len t)" "\<exists>ch'. chunks_advance ch (str_len t) = Some ch' \<and> reads_forward ch' r [] ([] @ t) y' [newline]"
    "str_len ([] @ []) = c_position (ch_chunks ch) + str_len p"
    by (rule forward_chunk [OF ch(2)]) auto
  have t1: "t = [97]" using t(1,2) by (cases t) auto
  have "p = []" using t(8) str_len_pos [of p] by auto
  obtain pre suf where cur: "cursor_in rope_fits chunk_ops usize_dim (ch_chunks ch) pre suf" "c_did_seek (ch_chunks ch)" "c_tree (ch_chunks ch) = r"
    using ch(2) by (auto simp: reads_forward_def)
  then have "pre @ suf = [chunk_of ?s]" using single_chunk_rope [OF r(1)] v(2) by (auto simp: cursor_in_def)
  then have "chunk_of (p @ t @ s) = chunk_of ?s" using cursor_item_at(1) [OF cur(1,2)] t(5) by (cases pre) (auto simp: first_opt_def)
  then have "p @ t @ s = ?s" by (metis chunk_of_def chunk.simps(5))
  then have s: "s = [newline]" using t1 \<open>p = []\<close> by simp
  have "peek_with_bitmaps ch = Some (Some (bitmaps_of t s))" by (rule peek_with_bitmaps_middle [OF t(4-6) t(3,2)])
  moreover have "bit (cb_newlines (bitmaps_of t s)) 1" "cb_text (bitmaps_of t s) = [97]"
    using s t1 by (simp_all add: bitmaps_of_def bit_bm newline_def len_utf8_def)
  ultimately show ?thesis using r(1) ch(1) t(7) t1 by (auto simp: bitmaps_next_def rope_chunks_in_range_def)
qed

end
