(* ===== verification/Selection.thy ===== *)
theory Selection
  imports Prelude
begin

text \<open>
  Selections (\<open>crates/text/src/selection.rs\<close>): a range of positions with a direction. The goal of a selection, a
  column to return to when moving vertically, is only carried along; its type is a parameter.
\<close>

section \<open>Operations\<close>

record ('t, 'g) selection =
  se_id :: nat
  se_start :: 't
  se_end :: 't
  se_reversed :: bool
  se_goal :: 'g

definition head :: "('t, 'g) selection \<Rightarrow> 't" where
  "head self = (if se_reversed self then se_start self else se_end self)"

definition tail :: "('t, 'g) selection \<Rightarrow> 't" where
  "tail self = (if se_reversed self then se_end self else se_start self)"

definition selection_map :: "('t \<Rightarrow> 's) \<Rightarrow> ('t, 'g) selection \<Rightarrow> ('s, 'g) selection" where
  "selection_map f self = \<lparr>se_id = se_id self, se_start = f (se_start self), se_end = f (se_end self),
     se_reversed = se_reversed self, se_goal = se_goal self\<rparr>"

definition collapse_to :: "('t, 'g) selection \<Rightarrow> 't \<Rightarrow> 'g \<Rightarrow> ('t, 'g) selection" where
  "collapse_to self point new_goal = self\<lparr>se_start := point, se_end := point, se_goal := new_goal, se_reversed := False\<rparr>"

definition selection_is_empty :: "('t, 'g) selection \<Rightarrow> bool" where
  "selection_is_empty self \<longleftrightarrow> se_start self = se_end self"

definition set_head :: "('t::linorder, 'g) selection \<Rightarrow> 't \<Rightarrow> 'g \<Rightarrow> ('t, 'g) selection" where
  "set_head self head' new_goal =
     (let self =
        (if head' < tail self
         then (if \<not> se_reversed self then self\<lparr>se_end := se_start self, se_reversed := True\<rparr> else self)\<lparr>se_start := head'\<rparr>
         else (if se_reversed self then self\<lparr>se_start := se_end self, se_reversed := False\<rparr> else self)\<lparr>se_end := head'\<rparr>)
      in self\<lparr>se_goal := new_goal\<rparr>)"

definition set_tail :: "('t::linorder, 'g) selection \<Rightarrow> 't \<Rightarrow> 'g \<Rightarrow> ('t, 'g) selection" where
  "set_tail self tail' new_goal =
     (let self =
        (if tail' \<le> head self
         then (if se_reversed self then self\<lparr>se_end := se_start self, se_reversed := False\<rparr> else self)\<lparr>se_start := tail'\<rparr>
         else (if \<not> se_reversed self then self\<lparr>se_start := se_end self, se_reversed := True\<rparr> else self)\<lparr>se_end := tail'\<rparr>)
      in self\<lparr>se_goal := new_goal\<rparr>)"

definition set_head_tail :: "('t::linorder, 'g) selection \<Rightarrow> 't \<Rightarrow> 't \<Rightarrow> 'g \<Rightarrow> ('t, 'g) selection" where
  "set_head_tail self head' tail' new_goal =
     (let self = (if head' < tail' then self\<lparr>se_reversed := True, se_start := head', se_end := tail'\<rparr>
                  else self\<lparr>se_reversed := False, se_start := tail', se_end := head'\<rparr>)
      in self\<lparr>se_goal := new_goal\<rparr>)"

definition swap_head_tail :: "('t, 'g) selection \<Rightarrow> ('t, 'g) selection" where
  "swap_head_tail self = (if se_reversed self then self\<lparr>se_reversed := False\<rparr> else self\<lparr>se_start := se_end self, se_end := se_start self\<rparr>)"

definition selection_range :: "('t, 'g) selection \<Rightarrow> 't \<times> 't" where
  "selection_range self = (se_start self, se_end self)"

definition selection_len :: "('t::minus, 'g) selection \<Rightarrow> 't" where
  "selection_len self = se_end self - se_start self"

definition selection_equals :: "('t, 'g) selection \<Rightarrow> 't \<times> 't \<Rightarrow> bool" where
  "selection_equals self offset_range \<longleftrightarrow> se_start self = fst offset_range \<and> se_end self = snd offset_range"

section \<open>The selection as a head and a tail\<close>

text \<open>
  A selection is ordered when its start does not lie behind its end; it then stands for its head and its tail, and
  \<open>reversed\<close> tells which of the two comes first.
\<close>

definition ordered :: "('t::linorder, 'g) selection \<Rightarrow> bool" where
  "ordered self \<longleftrightarrow> se_start self \<le> se_end self"

definition ends :: "('t, 'g) selection \<Rightarrow> 't \<times> 't" where
  "ends self = (head self, tail self)"

lemmas selection_defs = head_def tail_def ends_def ordered_def set_head_def set_tail_def set_head_tail_def collapse_to_def
  swap_head_tail_def selection_map_def selection_range_def selection_equals_def selection_is_empty_def Let_def

lemma ends_range: "ordered self \<Longrightarrow> selection_range self = (min (head self) (tail self), max (head self) (tail self))"
  by (auto simp: selection_defs min_def max_def)

lemma set_head_cases:
  "set_head self p g = (if p < tail self then self\<lparr>se_start := p, se_end := tail self, se_reversed := True, se_goal := g\<rparr>
     else self\<lparr>se_start := tail self, se_end := p, se_reversed := False, se_goal := g\<rparr>)"
  by (cases self; cases "se_reversed self"; cases "p < tail self") (simp_all add: set_head_def tail_def)

lemma set_tail_cases:
  "set_tail self p g = (if p \<le> head self then self\<lparr>se_start := p, se_end := head self, se_reversed := False, se_goal := g\<rparr>
     else self\<lparr>se_start := head self, se_end := p, se_reversed := True, se_goal := g\<rparr>)"
  by (cases self; cases "se_reversed self"; cases "p \<le> head self") (simp_all add: set_tail_def head_def)

lemma set_head_ends:
  "ordered (set_head self p g)" "ends (set_head self p g) = (p, tail self)" "se_reversed (set_head self p g) = (p < tail self)"
  by (cases "p < tail self"; simp add: set_head_cases ordered_def ends_def head_def [of "_\<lparr>se_goal := _\<rparr>"] tail_def [of "_\<lparr>se_goal := _\<rparr>"])+

lemma set_tail_ends:
  "ordered (set_tail self p g)" "ends (set_tail self p g) = (head self, p)" "se_reversed (set_tail self p g) = (head self < p)"
  by (cases "p \<le> head self"; simp add: set_tail_cases ordered_def ends_def head_def [of "_\<lparr>se_goal := _\<rparr>"] tail_def [of "_\<lparr>se_goal := _\<rparr>"])+

lemma other_ends:
  "ordered (set_head_tail self p q g)" "ends (set_head_tail self p q g) = (p, q)" "ordered (collapse_to self p g)" "ends (collapse_to self p g) = (p, p)"
  "ends (swap_head_tail self) = (tail self, head self)" "ends (selection_map f self) = (f (head self), f (tail self))"
  by (auto simp: selection_defs)

lemma selection_map_ordered: "ordered self \<Longrightarrow> mono f \<Longrightarrow> ordered (selection_map f self)"
  by (simp add: selection_defs monoD)

lemma moves_keep_id: "se_id (set_head self p g) = se_id self" "se_id (set_tail self p g) = se_id self" "se_id (set_head_tail self p q g) = se_id self"
  by (simp_all add: selection_defs)

section \<open>Properties\<close>

text \<open>
  Moving one end of a selection leaves the other where it was and keeps the selection ordered, whichever way the
  ends pass each other; it is reversed exactly when its head lies before its tail. Mapping a monotone function over a
  selection keeps it ordered, and no move changes its id.
\<close>

theorem selection_moves:
  fixes self :: "('t::linorder, 'g) selection" and f :: "'t \<Rightarrow> 's::linorder"
  assumes "ordered self" "mono f"
  shows "ordered (set_head self p g) \<and> ends (set_head self p g) = (p, tail self)
    \<and> ordered (set_tail self p g) \<and> ends (set_tail self p g) = (head self, p)
    \<and> ordered (set_head_tail self p q g) \<and> ends (set_head_tail self p q g) = (p, q)
    \<and> ordered (collapse_to self p g) \<and> ends (collapse_to self p g) = (p, p)
    \<and> ordered (selection_map f self) \<and> ends (selection_map f self) = (f (head self), f (tail self))
    \<and> ends (swap_head_tail self) = (tail self, head self)
    \<and> se_reversed (set_head self p g) = (p < tail self) \<and> se_reversed (set_tail self p g) = (head self < p)
    \<and> se_id (set_head self p g) = se_id self \<and> se_id (set_tail self p g) = se_id self \<and> se_id (set_head_tail self p q g) = se_id self"
  using assms by (simp add: set_head_ends set_tail_ends other_ends selection_map_ordered moves_keep_id)

theorem selection_moves_witness:
  "ends (set_head \<lparr>se_id = 1, se_start = 3, se_end = 5, se_reversed = False, se_goal = ()\<rparr> (1::nat) ()) = (1, 3)
    \<and> ordered (set_head \<lparr>se_id = 1, se_start = 3, se_end = 5, se_reversed = False, se_goal = ()\<rparr> (1::nat) ())"
  using selection_moves [of "\<lparr>se_id = 1, se_start = 3, se_end = 5, se_reversed = False, se_goal = ()\<rparr>" Suc 1 "()" 0]
  by (simp add: ordered_def tail_def mono_def)

text \<open>
  Swapping the ends of a selection that is not reversed exchanges start and end and leaves \<open>reversed\<close> alone, so its
  start then lies behind its end.
\<close>

theorem swap_head_tail_disorders:
  "ordered self \<Longrightarrow> \<not> selection_is_empty self \<Longrightarrow> ordered (swap_head_tail self) = se_reversed self"
  by (auto simp: selection_defs)

end
