(* ===== verification/History.thy ===== *)
theory History
  imports UndoMap TreeMap Rope "HOL-Library.Multiset"
begin

text \<open>
  The undo history of a buffer (\<open>crates/text/src/text.rs\<close>): the operations applied so far, and two stacks of
  transactions, those that can be undone and those that can be redone. Instants are nanoseconds since some
  origin, and subtracting a later one gives zero.
\<close>

section \<open>Data\<close>

record edit_operation =
  eo_timestamp :: lamport
  eo_version :: global
  eo_ranges :: "(nat \<times> nat) list"
  eo_new_text :: "rstr list"

datatype operation = Edit edit_operation | Undo undo_operation

fun operation_timestamp :: "operation \<Rightarrow> lamport" where
  "operation_timestamp (Edit edit) = eo_timestamp edit"
| "operation_timestamp (Undo undo) = uo_timestamp undo"

record transaction =
  tx_id :: lamport
  tx_edit_ids :: "lamport list"
  tx_start :: global

record history_entry =
  he_transaction :: transaction
  he_first_edit_at :: nat
  he_last_edit_at :: nat
  he_suppress_grouping :: bool

record history =
  hi_base_text :: rope
  hi_operations :: "(lamport, operation) tree_map"
  hi_undo_stack :: "history_entry list"
  hi_redo_stack :: "history_entry list"
  hi_transaction_depth :: nat
  hi_group_interval :: nat

definition merge_in :: "transaction \<Rightarrow> transaction \<Rightarrow> transaction" where
  "merge_in self other = self\<lparr>tx_edit_ids := tx_edit_ids self @ tx_edit_ids other\<rparr>"

definition transaction_id :: "history_entry \<Rightarrow> lamport" where
  "transaction_id self = tx_id (he_transaction self)"

text \<open>The position of the last element that satisfies a predicate (\<open>rposition\<close>).\<close>

fun rposition :: "('a \<Rightarrow> bool) \<Rightarrow> 'a list \<Rightarrow> nat option" where
  "rposition P [] = None"
| "rposition P (x # xs) = (case rposition P xs of Some i \<Rightarrow> Some (Suc i) | None \<Rightarrow> if P x then Some 0 else None)"

definition remove_at :: "nat \<Rightarrow> 'a list \<Rightarrow> 'a list" where
  "remove_at i xs = take i xs @ drop (Suc i) xs"

section \<open>Operations\<close>

definition history_new :: "rope \<Rightarrow> history" where
  "history_new base_text = \<lparr>hi_base_text = base_text, hi_operations = tm_default, hi_undo_stack = [], hi_redo_stack = [],
     hi_transaction_depth = 0, hi_group_interval = 300000000\<rparr>"

definition history_push :: "history \<Rightarrow> operation \<Rightarrow> history rust" where
  "history_push self op = do {
     ops \<leftarrow> tm_insert (hi_operations self) (operation_timestamp op) op;
     Some (self\<lparr>hi_operations := ops\<rparr>)
   }"

definition new_entry :: "transaction \<Rightarrow> nat \<Rightarrow> history_entry" where
  "new_entry tx now = \<lparr>he_transaction = tx, he_first_edit_at = now, he_last_edit_at = now, he_suppress_grouping = False\<rparr>"

definition start_transaction :: "history \<Rightarrow> global \<Rightarrow> nat \<Rightarrow> lamport \<Rightarrow> lamport option \<times> history \<times> lamport" where
  "start_transaction self start now clock =
     (let self = self\<lparr>hi_transaction_depth := hi_transaction_depth self + 1\<rparr>
      in if hi_transaction_depth self = 1
         then let (id, clock) = lamport_tick clock
              in (Some id, self\<lparr>hi_undo_stack := hi_undo_stack self @ [new_entry \<lparr>tx_id = id, tx_edit_ids = [], tx_start = start\<rparr> now]\<rparr>, clock)
         else (None, self, clock))"

definition end_transaction :: "history \<Rightarrow> nat \<Rightarrow> (history_entry option \<times> history) rust" where
  "end_transaction self now = do {
     assert_that (hi_transaction_depth self \<noteq> 0);
     let self = self\<lparr>hi_transaction_depth := hi_transaction_depth self - 1\<rparr>;
     if hi_transaction_depth self = 0 then do {
       last \<leftarrow> last_opt (hi_undo_stack self);
       if tx_edit_ids (he_transaction last) = []
       then Some (None, self\<lparr>hi_undo_stack := butlast (hi_undo_stack self)\<rparr>)
       else do {
         let entry = last\<lparr>he_last_edit_at := now\<rparr>;
         Some (Some entry, self\<lparr>hi_redo_stack := [], hi_undo_stack := butlast (hi_undo_stack self) @ [entry]\<rparr>)
       }
     }
     else Some (None, self)
   }"

definition group_trailing :: "history \<Rightarrow> nat \<Rightarrow> (lamport option \<times> history) rust" where
  "group_trailing self n = do {
     let new_len = usize_sub (length (hi_undo_stack self)) n;
     assert_that (new_len \<le> length (hi_undo_stack self));
     let entries_to_keep = take new_len (hi_undo_stack self);
     let entries_to_merge = drop new_len (hi_undo_stack self);
     let undo_stack =
       (case last_opt entries_to_keep of
          None \<Rightarrow> entries_to_keep
        | Some last_entry \<Rightarrow>
            let tx = he_transaction last_entry;
                tx = tx\<lparr>tx_edit_ids := tx_edit_ids tx @ concat (map (\<lambda>entry. tx_edit_ids (he_transaction entry)) entries_to_merge)\<rparr>;
                last_entry = last_entry\<lparr>he_transaction := tx\<rparr>;
                last_entry = (case last_opt entries_to_merge of
                  Some entry \<Rightarrow> last_entry\<lparr>he_last_edit_at := he_last_edit_at entry\<rparr> | None \<Rightarrow> last_entry)
            in butlast entries_to_keep @ [last_entry]);
     let self = self\<lparr>hi_undo_stack := undo_stack\<rparr>;
     Some (map_option transaction_id (last_opt (hi_undo_stack self)), self)
   }"

fun group_count :: "nat \<Rightarrow> history_entry \<Rightarrow> history_entry list \<Rightarrow> nat" where
  "group_count group_interval entry [] = 0"
| "group_count group_interval entry (prev_entry # entries) =
     (if \<not> he_suppress_grouping prev_entry \<and> he_first_edit_at entry - he_last_edit_at prev_entry < group_interval
      then Suc (group_count group_interval prev_entry entries) else 0)"

definition group :: "history \<Rightarrow> (lamport option \<times> history) rust" where
  "group self = group_trailing self
     (case rev (hi_undo_stack self) of [] \<Rightarrow> 0 | entry # entries \<Rightarrow> group_count (hi_group_interval self) entry entries)"

fun group_until_count :: "lamport \<Rightarrow> history_entry list \<Rightarrow> nat option" where
  "group_until_count tid [] = None"
| "group_until_count tid (entry # entries) =
     (if transaction_id entry = tid then Some 0
      else if he_suppress_grouping entry then None
      else map_option Suc (group_until_count tid entries))"

definition group_until :: "history \<Rightarrow> lamport \<Rightarrow> history rust" where
  "group_until self tid =
     (case group_until_count tid (rev (hi_undo_stack self)) of
        None \<Rightarrow> Some self
      | Some n \<Rightarrow> map_option snd (group_trailing self n))"

definition finalize_last_transaction :: "history \<Rightarrow> transaction option \<times> history" where
  "finalize_last_transaction self =
     (case last_opt (hi_undo_stack self) of
        None \<Rightarrow> (None, self)
      | Some entry \<Rightarrow> (Some (he_transaction entry),
          self\<lparr>hi_undo_stack := butlast (hi_undo_stack self) @ [entry\<lparr>he_suppress_grouping := True\<rparr>]\<rparr>))"

definition push_transaction :: "history \<Rightarrow> transaction \<Rightarrow> nat \<Rightarrow> history rust" where
  "push_transaction self tx now = do {
     assert_that (hi_transaction_depth self = 0);
     Some (self\<lparr>hi_undo_stack := hi_undo_stack self @ [new_entry tx now]\<rparr>)
   }"

definition push_empty_transaction :: "history \<Rightarrow> global \<Rightarrow> nat \<Rightarrow> lamport \<Rightarrow> (lamport \<times> history \<times> lamport) rust" where
  "push_empty_transaction self start now clock = do {
     assert_that (hi_transaction_depth self = 0);
     let (id, clock) = lamport_tick clock;
     Some (id, self\<lparr>hi_undo_stack := hi_undo_stack self @ [new_entry \<lparr>tx_id = id, tx_edit_ids = [], tx_start = start\<rparr> now]\<rparr>, clock)
   }"

definition add_edit :: "lamport \<Rightarrow> history_entry \<Rightarrow> history_entry" where
  "add_edit op_id entry = entry\<lparr>he_transaction := (he_transaction entry)\<lparr>tx_edit_ids := tx_edit_ids (he_transaction entry) @ [op_id]\<rparr>\<rparr>"

definition push_undo :: "history \<Rightarrow> lamport \<Rightarrow> history rust" where
  "push_undo self op_id = do {
     assert_that (hi_transaction_depth self \<noteq> 0);
     (case tm_get (hi_operations self) op_id of
        Some (Edit _) \<Rightarrow> do {
          last_transaction \<leftarrow> last_opt (hi_undo_stack self);
          Some (self\<lparr>hi_undo_stack := butlast (hi_undo_stack self) @ [add_edit op_id last_transaction]\<rparr>) }
      | _ \<Rightarrow> Some self)
   }"

definition pop_undo :: "history \<Rightarrow> (history_entry option \<times> history) rust" where
  "pop_undo self = do {
     assert_that (hi_transaction_depth self = 0);
     (case last_opt (hi_undo_stack self) of
        Some entry \<Rightarrow> Some (Some entry, self\<lparr>hi_undo_stack := butlast (hi_undo_stack self), hi_redo_stack := hi_redo_stack self @ [entry]\<rparr>)
      | None \<Rightarrow> Some (None, self))
   }"

definition remove_from_undo :: "history \<Rightarrow> lamport \<Rightarrow> (history_entry option \<times> history) rust" where
  "remove_from_undo self tid = do {
     assert_that (hi_transaction_depth self = 0);
     (case rposition (\<lambda>entry. transaction_id entry = tid) (hi_undo_stack self) of
        None \<Rightarrow> Some (None, self)
      | Some entry_ix \<Rightarrow>
          let entry = hi_undo_stack self ! entry_ix
          in Some (Some entry, self\<lparr>hi_undo_stack := remove_at entry_ix (hi_undo_stack self), hi_redo_stack := hi_redo_stack self @ [entry]\<rparr>))
   }"

definition remove_from_undo_until :: "history \<Rightarrow> lamport \<Rightarrow> (history_entry list \<times> history) rust" where
  "remove_from_undo_until self tid = do {
     assert_that (hi_transaction_depth self = 0);
     let redo_stack_start_len = length (hi_redo_stack self);
     let self =
       (case rposition (\<lambda>entry. transaction_id entry = tid) (hi_undo_stack self) of
          None \<Rightarrow> self
        | Some entry_ix \<Rightarrow> self\<lparr>hi_redo_stack := hi_redo_stack self @ rev (drop entry_ix (hi_undo_stack self)),
            hi_undo_stack := take entry_ix (hi_undo_stack self)\<rparr>);
     Some (drop redo_stack_start_len (hi_redo_stack self), self)
   }"

definition forget :: "history \<Rightarrow> lamport \<Rightarrow> (transaction option \<times> history) rust" where
  "forget self tid = do {
     assert_that (hi_transaction_depth self = 0);
     (case rposition (\<lambda>entry. transaction_id entry = tid) (hi_undo_stack self) of
        Some entry_ix \<Rightarrow> Some (Some (he_transaction (hi_undo_stack self ! entry_ix)),
          self\<lparr>hi_undo_stack := remove_at entry_ix (hi_undo_stack self)\<rparr>)
      | None \<Rightarrow>
          (case rposition (\<lambda>entry. transaction_id entry = tid) (hi_redo_stack self) of
             Some entry_ix \<Rightarrow> Some (Some (he_transaction (hi_redo_stack self ! entry_ix)),
               self\<lparr>hi_redo_stack := remove_at entry_ix (hi_redo_stack self)\<rparr>)
           | None \<Rightarrow> Some (None, self)))
   }"

definition history_transaction :: "history \<Rightarrow> lamport \<Rightarrow> transaction option" where
  "history_transaction self tid =
     map_option he_transaction
       (case find (\<lambda>entry. transaction_id entry = tid) (rev (hi_undo_stack self)) of
          Some entry \<Rightarrow> Some entry
        | None \<Rightarrow> find (\<lambda>entry. transaction_id entry = tid) (rev (hi_redo_stack self)))"

text \<open>A change through the reference that \<open>transaction_mut\<close> returns; \<open>None\<close> when there is no such transaction.\<close>

definition update_transaction :: "history \<Rightarrow> lamport \<Rightarrow> (transaction \<Rightarrow> transaction) \<Rightarrow> history option" where
  "update_transaction self tid f =
     (let change = (\<lambda>i stack. stack[i := (stack ! i)\<lparr>he_transaction := f (he_transaction (stack ! i))\<rparr>])
      in case rposition (\<lambda>entry. transaction_id entry = tid) (hi_undo_stack self) of
           Some i \<Rightarrow> Some (self\<lparr>hi_undo_stack := change i (hi_undo_stack self)\<rparr>)
         | None \<Rightarrow>
             (case rposition (\<lambda>entry. transaction_id entry = tid) (hi_redo_stack self) of
                Some i \<Rightarrow> Some (self\<lparr>hi_redo_stack := change i (hi_redo_stack self)\<rparr>)
              | None \<Rightarrow> None))"

definition merge_transactions :: "history \<Rightarrow> lamport \<Rightarrow> lamport \<Rightarrow> history rust" where
  "merge_transactions self tid destination = do {
     (forgotten, self) \<leftarrow> forget self tid;
     (case forgotten of
        None \<Rightarrow> Some self
      | Some tx \<Rightarrow>
          (case update_transaction self destination (\<lambda>d. d\<lparr>tx_edit_ids := tx_edit_ids d @ tx_edit_ids tx\<rparr>) of
             None \<Rightarrow> Some self
           | Some self \<Rightarrow> Some self))
   }"

definition pop_redo :: "history \<Rightarrow> (history_entry option \<times> history) rust" where
  "pop_redo self = do {
     assert_that (hi_transaction_depth self = 0);
     (case last_opt (hi_redo_stack self) of
        Some entry \<Rightarrow> Some (Some entry, self\<lparr>hi_redo_stack := butlast (hi_redo_stack self), hi_undo_stack := hi_undo_stack self @ [entry]\<rparr>)
      | None \<Rightarrow> Some (None, self))
   }"

definition remove_from_redo :: "history \<Rightarrow> lamport \<Rightarrow> (history_entry list \<times> history) rust" where
  "remove_from_redo self tid = do {
     assert_that (hi_transaction_depth self = 0);
     let undo_stack_start_len = length (hi_undo_stack self);
     let self =
       (case rposition (\<lambda>entry. transaction_id entry = tid) (hi_redo_stack self) of
          None \<Rightarrow> self
        | Some entry_ix \<Rightarrow> self\<lparr>hi_undo_stack := hi_undo_stack self @ rev (drop entry_ix (hi_redo_stack self)),
            hi_redo_stack := take entry_ix (hi_redo_stack self)\<rparr>);
     Some (drop undo_stack_start_len (hi_undo_stack self), self)
   }"

text \<open>\<open>Buffer::end_transaction_at\<close>: end the transaction and group it with those before it.\<close>

definition end_transaction_at :: "history \<Rightarrow> nat \<Rightarrow> ((lamport \<times> global) option \<times> history) rust" where
  "end_transaction_at self now = do {
     (ended, self) \<leftarrow> end_transaction self now;
     (case ended of
        None \<Rightarrow> Some (None, self)
      | Some entry \<Rightarrow> do {
          let since = tx_start (he_transaction entry);
          (id, self) \<leftarrow> group self;
          id \<leftarrow> id;
          Some (Some (id, since), self) })
   }"

section \<open>What the stacks hold\<close>

definition entries :: "history \<Rightarrow> history_entry list" where
  "entries h = hi_undo_stack h @ hi_redo_stack h"

definition edits_of :: "history_entry list \<Rightarrow> lamport list" where
  "edits_of es = concat (map (\<lambda>e. tx_edit_ids (he_transaction e)) es)"

lemma edits_of_simps [simp]: "edits_of [] = []" "edits_of (e # es) = tx_edit_ids (he_transaction e) @ edits_of es" "edits_of (es @ fs) = edits_of es @ edits_of fs"
  by (simp_all add: edits_of_def)

lemma set_edits_of: "set (edits_of es) = (\<Union>e \<in> set es. set (tx_edit_ids (he_transaction e)))"
  by (simp add: edits_of_def)

lemma last_opt_simps [simp]: "last_opt [] = None" "last_opt (xs @ [x]) = Some x"
  by (simp_all add: last_opt_def)

lemma transaction_id_simps [simp]:
  "transaction_id (e\<lparr>he_last_edit_at := t\<rparr>) = transaction_id e" "transaction_id (e\<lparr>he_suppress_grouping := b\<rparr>) = transaction_id e"
  "transaction_id (add_edit i e) = transaction_id e"
  by (simp_all add: transaction_id_def add_edit_def)

lemma last_opt_cases: "xs = [] \<and> last_opt xs = None \<or> (\<exists>ys y. xs = ys @ [y] \<and> last_opt xs = Some y \<and> butlast xs = ys)"
  by (cases xs rule: rev_cases) (simp_all add: last_opt_def)

lemma rposition_Some: "rposition P xs = Some i \<Longrightarrow> \<exists>ys zs. xs = ys @ (xs ! i) # zs \<and> length ys = i \<and> P (xs ! i) \<and> (\<forall>z \<in> set zs. \<not> P z)"
proof (induction xs arbitrary: i)
  case (Cons x xs)
  show ?case
  proof (cases "rposition P xs")
    case None
    then have "\<not> P z" if "z \<in> set xs" for z using that by (induction xs) (auto split: option.splits if_splits)
    then show ?thesis using Cons.prems None by (auto split: if_splits intro!: exI [of _ "[]"])
  next
    case (Some j)
    then obtain ys zs where "xs = ys @ (xs ! j) # zs" "length ys = j" "P (xs ! j)" "\<forall>z \<in> set zs. \<not> P z" using Cons.IH by blast
    moreover have "i = Suc j" using Cons.prems Some by simp
    ultimately show ?thesis by (intro exI [of _ "x # ys"] exI [of _ zs]) simp
  qed
qed simp

lemma rposition_last: "P x \<Longrightarrow> \<forall>z \<in> set zs. \<not> P z \<Longrightarrow> rposition P (ys @ x # zs) = Some (length ys)"
proof (induction ys)
  case Nil
  then have "rposition P zs = None" by (induction zs) auto
  then show ?case using Nil by simp
qed simp

lemma rposition_None: "rposition P xs = None \<longleftrightarrow> (\<forall>x \<in> set xs. \<not> P x)"
  by (induction xs) (auto split: option.splits)

lemma remove_at_middle: "length ys = i \<Longrightarrow> remove_at i (ys @ x # zs) = ys @ zs"
  by (simp add: remove_at_def)

text \<open>The entry that a group of entries becomes: the oldest one, with all edits, ending when the newest one ended.\<close>

definition merged :: "history_entry \<Rightarrow> history_entry list \<Rightarrow> history_entry" where
  "merged e es = e\<lparr>he_transaction := (he_transaction e)\<lparr>tx_edit_ids := tx_edit_ids (he_transaction e) @ edits_of es\<rparr>,
     he_last_edit_at := (if es = [] then he_last_edit_at e else he_last_edit_at (last es))\<rparr>"

lemma merged_simps [simp]: "transaction_id (merged e es) = transaction_id e" "edits_of [merged e es] = edits_of (e # es)" "he_first_edit_at (merged e es) = he_first_edit_at e"
  by (simp_all add: merged_def transaction_id_def)

lemma group_trailing_eq:
  assumes "hi_undo_stack h = keep @ e # es" "n = length es"
  shows "group_trailing h n = Some (Some (transaction_id e), h\<lparr>hi_undo_stack := keep @ [merged e es]\<rparr>)"
proof -
  have "usize_sub (length (hi_undo_stack h)) n = Suc (length keep)" using assms by simp
  moreover have "last_opt (keep @ [x]) = Some x" for x :: history_entry by (simp add: last_opt_def)
  ultimately show ?thesis unfolding group_trailing_def using assms
    by (cases "es = []") (simp_all add: merged_def edits_of_def [symmetric] Let_def last_opt_def transaction_id_def)
qed

lemma group_count_less: "group_count t e es \<le> length es"
  by (induction t e es rule: group_count.induct) simp_all

text \<open>The run of entries that belong together: each starts shortly after the end of the one before it.\<close>

fun run :: "nat \<Rightarrow> history_entry list \<Rightarrow> bool" where
  "run t (p # e # es) \<longleftrightarrow> \<not> he_suppress_grouping p \<and> he_first_edit_at e - he_last_edit_at p < t \<and> run t (e # es)"
| "run t _ \<longleftrightarrow> True"

lemma run_snoc: "run t (es @ [p, e]) \<longleftrightarrow> run t (es @ [p]) \<and> \<not> he_suppress_grouping p \<and> he_first_edit_at e - he_last_edit_at p < t"
  by (induction es rule: induct_list012) auto

lemma group_count_run:
  "\<exists>keep es. rev ps @ [e] = keep @ es \<and> length es = Suc (group_count t e ps) \<and> run t es \<and> (keep \<noteq> [] \<longrightarrow> \<not> run t (last keep # es))"
proof (induction ps arbitrary: e)
  case (Cons p ps)
  show ?case
  proof (cases "\<not> he_suppress_grouping p \<and> he_first_edit_at e - he_last_edit_at p < t")
    case True
    obtain keep es where ke: "rev ps @ [p] = keep @ es" "length es = Suc (group_count t p ps)" "run t es" "keep \<noteq> [] \<longrightarrow> \<not> run t (last keep # es)"
      using Cons.IH by blast
    have "es \<noteq> []" using ke(2) by auto
    then obtain es' where es: "es = es' @ [p]" using ke(1) by (metis append_butlast_last_id last_appendR last_snoc)
    have "run t (es @ [e])" using ke(3) True es run_snoc [of t es' p e] by simp
    moreover have "run t ((last keep # es) @ [e]) \<Longrightarrow> run t (last keep # es)" using es run_snoc [of t "last keep # es'" p e] by simp
    ultimately show ?thesis using ke True by (intro exI [of _ keep] exI [of _ "es @ [e]"]) auto
  next
    case False
    then show ?thesis by (intro exI [of _ "rev ps @ [p]"] exI [of _ "[e]"]) auto
  qed
qed (simp add: exI [of _ "[]"])

lemma group_ok:
  assumes "hi_undo_stack h \<noteq> []"
  obtains keep e es where "hi_undo_stack h = keep @ e # es" "group h = Some (Some (transaction_id e), h\<lparr>hi_undo_stack := keep @ [merged e es]\<rparr>)"
    "run (hi_group_interval h) (e # es)" "keep \<noteq> [] \<longrightarrow> \<not> run (hi_group_interval h) (last keep # e # es)"
proof -
  obtain l ls where l: "rev (hi_undo_stack h) = l # ls" using assms by (cases "rev (hi_undo_stack h)") auto
  then have u: "hi_undo_stack h = rev ls @ [l]" by (metis rev.simps(2) rev_rev_ident)
  obtain keep ees where k: "rev ls @ [l] = keep @ ees" "length ees = Suc (group_count (hi_group_interval h) l ls)" "run (hi_group_interval h) ees"
    "keep \<noteq> [] \<longrightarrow> \<not> run (hi_group_interval h) (last keep # ees)" using group_count_run by blast
  obtain e es where e: "ees = e # es" using k(2) by (cases ees) auto
  then show thesis using that [of keep e es] k u l group_trailing_eq [of h keep e es "group_count (hi_group_interval h) l ls"] by (simp add: group_def)
qed

lemma group_until_count_Some:
  "group_until_count tid es = Some n \<Longrightarrow> \<exists>as e bs. es = as @ e # bs \<and> length as = n \<and> transaction_id e = tid"
proof (induction es arbitrary: n)
  case (Cons x xs)
  show ?case
  proof (cases "transaction_id x = tid")
    case True
    then show ?thesis using Cons.prems by (intro exI [of _ "[]"]) simp
  next
    case False
    then obtain m where "group_until_count tid xs = Some m" "n = Suc m" using Cons.prems by (auto split: if_splits)
    then show ?thesis using Cons.IH [of m] by (metis append_Cons length_Cons)
  qed
qed simp

lemma group_until_ok:
  "group_until h tid = Some h \<or> (\<exists>keep e es. hi_undo_stack h = keep @ e # es \<and> transaction_id e = tid \<and> group_until h tid = Some (h\<lparr>hi_undo_stack := keep @ [merged e es]\<rparr>))"
proof (cases "group_until_count tid (rev (hi_undo_stack h))")
  case None
  then show ?thesis by (simp add: group_until_def)
next
  case (Some n)
  then obtain as e bs where "rev (hi_undo_stack h) = as @ e # bs" "length as = n" "transaction_id e = tid" using group_until_count_Some by blast
  moreover have "hi_undo_stack h = rev bs @ e # rev as" using calculation(1) by (metis append.assoc append_Cons append_Nil rev.simps(2) rev_append rev_rev_ident)
  ultimately show ?thesis using group_trailing_eq [of h "rev bs" e "rev as" n] Some by (auto simp: group_until_def)
qed

section \<open>The states a history reaches\<close>

text \<open>
  One rule per operation of the history, with the clock that issues the ids of transactions. Between
  them the clock may advance, and operations arrive under fresh timestamps; a transaction pushed from
  outside has a fresh id below the clock and lists edits the history knows.
\<close>

inductive history_reach :: "history \<Rightarrow> lamport \<Rightarrow> bool" where
  new: "history_reach (history_new base_text) c"
| clock: "history_reach h c \<Longrightarrow> c \<le> c' \<Longrightarrow> history_reach h c'"
| op: "history_reach h c \<Longrightarrow> tm_shallow (hi_operations h) \<Longrightarrow> tm_get (hi_operations h) (operation_timestamp op) = None
    \<Longrightarrow> history_push h op = Some h' \<Longrightarrow> history_reach h' c"
| start: "history_reach h c \<Longrightarrow> seq_value c \<noteq> - 1 \<Longrightarrow> start_transaction h v now c = (r, h', c') \<Longrightarrow> history_reach h' c'"
| stop: "history_reach h c \<Longrightarrow> end_transaction h now = Some (r, h') \<Longrightarrow> history_reach h' c"
| undo: "history_reach h c \<Longrightarrow> push_undo h i = Some h' \<Longrightarrow> history_reach h' c"
| grp: "history_reach h c \<Longrightarrow> group h = Some (r, h') \<Longrightarrow> history_reach h' c"
| until: "history_reach h c \<Longrightarrow> group_until h i = Some h' \<Longrightarrow> history_reach h' c"
| finalize: "history_reach h c \<Longrightarrow> finalize_last_transaction h = (t, h') \<Longrightarrow> history_reach h' c"
| push: "history_reach h c \<Longrightarrow> tx_id tx < c \<Longrightarrow> tx_id tx \<notin> transaction_id ` set (entries h)
    \<Longrightarrow> \<forall>i \<in> set (tx_edit_ids tx). \<exists>e. tm_get (hi_operations h) i = Some (Edit e) \<Longrightarrow> push_transaction h tx now = Some h' \<Longrightarrow> history_reach h' c"
| push_empty: "history_reach h c \<Longrightarrow> seq_value c \<noteq> - 1 \<Longrightarrow> push_empty_transaction h v now c = Some (i, h', c') \<Longrightarrow> history_reach h' c'"
| pop: "history_reach h c \<Longrightarrow> pop_undo h = Some (r, h') \<Longrightarrow> history_reach h' c"
| remove: "history_reach h c \<Longrightarrow> remove_from_undo h i = Some (r, h') \<Longrightarrow> history_reach h' c"
| remove_until: "history_reach h c \<Longrightarrow> remove_from_undo_until h i = Some (es, h') \<Longrightarrow> history_reach h' c"
| forget: "history_reach h c \<Longrightarrow> forget h i = Some (t, h') \<Longrightarrow> history_reach h' c"
| merge: "history_reach h c \<Longrightarrow> merge_transactions h i j = Some h' \<Longrightarrow> history_reach h' c"
| redo: "history_reach h c \<Longrightarrow> pop_redo h = Some (r, h') \<Longrightarrow> history_reach h' c"
| remove_redo: "history_reach h c \<Longrightarrow> remove_from_redo h i = Some (es, h') \<Longrightarrow> history_reach h' c"

text \<open>
  The invariant: an open transaction is on the undo stack, transactions have distinct ids issued before, and list
  edits that the history knows as edits.
\<close>

definition history_ok :: "history \<Rightarrow> lamport \<Rightarrow> bool" where
  "history_ok h c \<longleftrightarrow> tm_ok (hi_operations h) \<and> (hi_transaction_depth h \<noteq> 0 \<longrightarrow> hi_undo_stack h \<noteq> [])
     \<and> distinct (map transaction_id (entries h)) \<and> (\<forall>e \<in> set (entries h). transaction_id e < c)
     \<and> (\<forall>i \<in> set (edits_of (entries h)). \<exists>e. tm_get (hi_operations h) i = Some (Edit e))"

lemma distinct_submset: "mset ys \<subseteq># mset xs \<Longrightarrow> distinct xs \<Longrightarrow> distinct ys"
  unfolding distinct_count_atmost_1 by (metis le_antisym le_zero_eq mset_subset_eqD mset_subset_eq_count not_in_iff set_mset_mset nat_le_linear le_SucE One_nat_def)

text \<open>An operation that only moves, drops and merges entries keeps the invariant.\<close>

lemma history_ok_shrink:
  assumes "history_ok h c" "hi_operations h' = hi_operations h" "mset (map transaction_id (entries h')) \<subseteq># mset (map transaction_id (entries h))"
    and "set (edits_of (entries h')) \<subseteq> set (edits_of (entries h))" "hi_transaction_depth h' \<noteq> 0 \<Longrightarrow> hi_undo_stack h' \<noteq> []"
  shows "history_ok h' c"
proof -
  have "distinct (map transaction_id (entries h'))" using distinct_submset [OF assms(3)] assms(1) by (simp add: history_ok_def)
  moreover have "transaction_id ` set (entries h') \<subseteq> transaction_id ` set (entries h)" using set_mset_mono [OF assms(3)] by simp
  then have "\<forall>e \<in> set (entries h'). transaction_id e < c" using assms(1) unfolding history_ok_def by (metis (no_types, lifting) image_iff image_subset_iff)
  ultimately show ?thesis using assms(1,2,4,5) by (auto simp: history_ok_def)
qed

lemma end_transaction_cases:
  assumes "end_transaction h now = Some (r, h')"
  shows "hi_transaction_depth h \<noteq> 0 \<and> hi_operations h' = hi_operations h \<and> (
     (r = None \<and> hi_transaction_depth h \<noteq> 1 \<and> h' = h\<lparr>hi_transaction_depth := hi_transaction_depth h - 1\<rparr>)
   \<or> (\<exists>es e. hi_transaction_depth h = 1 \<and> hi_undo_stack h = es @ [e] \<and> edits_of [e] = [] \<and> r = None \<and> h' = h\<lparr>hi_transaction_depth := 0, hi_undo_stack := es\<rparr>)
   \<or> (\<exists>es e. hi_transaction_depth h = 1 \<and> hi_undo_stack h = es @ [e] \<and> edits_of [e] \<noteq> [] \<and> r = Some (e\<lparr>he_last_edit_at := now\<rparr>)
        \<and> h' = h\<lparr>hi_transaction_depth := 0, hi_redo_stack := [], hi_undo_stack := es @ [e\<lparr>he_last_edit_at := now\<rparr>]\<rparr>))"
proof (cases "hi_transaction_depth h = 1")
  case False
  then show ?thesis using assms by (auto simp: end_transaction_def Let_def assert_that_def split: if_splits)
next
  case True
  show ?thesis using last_opt_cases [of "hi_undo_stack h"]
  proof
    assume "hi_undo_stack h = [] \<and> last_opt (hi_undo_stack h) = None"
    then show ?thesis using assms True by (simp add: end_transaction_def Let_def assert_that_def last_opt_def)
  next
    assume "\<exists>ys y. hi_undo_stack h = ys @ [y] \<and> last_opt (hi_undo_stack h) = Some y \<and> butlast (hi_undo_stack h) = ys"
    then obtain ys y where y: "hi_undo_stack h = ys @ [y]" "last_opt (ys @ [y]) = Some y" by auto
    show ?thesis using assms True y by (cases "tx_edit_ids (he_transaction y) = []") (auto simp: end_transaction_def Let_def assert_that_def)
  qed
qed

lemma pick_submset:
  assumes "rposition P xs = Some i"
  shows "mset (map f xs) = add_mset (f (xs ! i)) (mset (map f (remove_at i xs)))" "set (edits_of (remove_at i es)) \<subseteq> set (edits_of es)"
proof -
  obtain ys zs where x: "xs = ys @ (xs ! i) # zs" "length ys = i" using rposition_Some [OF assms] by blast
  show "mset (map f xs) = add_mset (f (xs ! i)) (mset (map f (remove_at i xs)))" by (subst x(1), subst (3) x(1)) (simp add: remove_at_middle [OF x(2)])
  show "set (edits_of (remove_at i es)) \<subseteq> set (edits_of es)" by (auto simp: remove_at_def set_edits_of dest: in_set_takeD in_set_dropD)
qed

lemma lamport_tick_less:
  assumes "seq_value c \<noteq> - 1" "lamport_tick c = (i, c')"
  shows "i = c" "c < c'"
proof -
  have "seq_value c < seq_value c + 1" using assms(1) by (intro word_add_one_gt) (simp add: add_eq_0_iff2)
  then show "i = c" "c < c'" using assms by (auto simp: lamport_tick_def lamport_less_iff)
qed

text \<open>A new last entry keeps the invariant when its id is fresh and its edits are known.\<close>

lemma history_ok_push:
  assumes "history_ok h c" "hi_operations h' = hi_operations h" "hi_undo_stack h' = hi_undo_stack h @ [e]" "hi_redo_stack h' = hi_redo_stack h"
    and "transaction_id e \<notin> transaction_id ` set (entries h)" "transaction_id e < c'" "c \<le> c'"
    and "\<forall>i \<in> set (edits_of [e]). \<exists>o'. tm_get (hi_operations h) i = Some (Edit o')"
  shows "history_ok h' c'"
proof -
  have "distinct (map transaction_id (entries h'))" using assms by (auto simp: history_ok_def entries_def)
  moreover have "\<forall>x \<in> set (entries h'). transaction_id x < c'"
    using assms(1,3-7) order.strict_trans2 [OF _ assms(7)] by (auto simp: history_ok_def entries_def)
  moreover have "\<forall>i \<in> set (edits_of (entries h')). \<exists>o'. tm_get (hi_operations h') i = Some (Edit o')"
    using assms(1-4,8) by (auto simp: history_ok_def entries_def)
  ultimately show ?thesis using assms(1-3) by (simp add: history_ok_def)
qed

lemma history_ok_fresh: "history_ok h c \<Longrightarrow> c \<notin> transaction_id ` set (entries h)"
  by (auto simp: history_ok_def)

lemma new_entry_simps [simp]: "transaction_id (new_entry tx now) = tx_id tx" "tx_edit_ids (he_transaction (new_entry tx now)) = tx_edit_ids tx"
  by (simp_all add: new_entry_def transaction_id_def)

lemma start_transaction_keeps:
  assumes "history_ok h c" "seq_value c \<noteq> - 1" "start_transaction h v now c = (r, h', c')"
  shows "history_ok h' c'"
proof (cases "hi_transaction_depth h = 0")
  case True
  obtain i d where t: "lamport_tick c = (i, d)" by fastforce
  have i: "i = c" "c < d" using lamport_tick_less [OF assms(2) t] by auto
  define e where "e = new_entry \<lparr>tx_id = c, tx_edit_ids = [], tx_start = v\<rparr> now"
  have "h' = h\<lparr>hi_transaction_depth := 1, hi_undo_stack := hi_undo_stack h @ [e]\<rparr>" "c' = d"
    using assms(3) True t i by (auto simp: start_transaction_def Let_def e_def)
  then show ?thesis using history_ok_push [OF assms(1), of h' e d] i history_ok_fresh [OF assms(1)] by (simp add: e_def less_imp_le)
next
  case False
  then have "h' = h\<lparr>hi_transaction_depth := Suc (hi_transaction_depth h)\<rparr>" "c' = c" using assms(3) by (auto simp: start_transaction_def Let_def)
  then show ?thesis using assms(1) False by (simp add: history_ok_def entries_def)
qed

lemma push_empty_keeps:
  assumes "history_ok h c" "seq_value c \<noteq> - 1" "push_empty_transaction h v now c = Some (i, h', c')"
  shows "history_ok h' c'"
proof -
  obtain j d where t: "lamport_tick c = (j, d)" by fastforce
  have i: "j = c" "c < d" using lamport_tick_less [OF assms(2) t] by auto
  define e where "e = new_entry \<lparr>tx_id = c, tx_edit_ids = [], tx_start = v\<rparr> now"
  have "h' = h\<lparr>hi_undo_stack := hi_undo_stack h @ [e]\<rparr>" "c' = d"
    using assms(3) t i by (auto simp: push_empty_transaction_def Let_def e_def bind_eq_Some_conv)
  then show ?thesis using history_ok_push [OF assms(1), of h' e d] i history_ok_fresh [OF assms(1)] by (simp add: e_def less_imp_le)
qed

lemma end_transaction_keeps:
  assumes "history_ok h c" "end_transaction h now = Some (r, h')"
  shows "history_ok h' c"
  using end_transaction_cases [OF assms(2)] assms(1)
  by (elim conjE disjE exE; intro history_ok_shrink [OF assms(1)]) (auto simp: entries_def history_ok_def transaction_id_def)

lemma history_new_ok: "history_ok (history_new base_text) c"
  by (simp add: history_ok_def history_new_def entries_def tm_ok_def tm_default_def tm_entries_def)

lemma history_push_keeps:
  assumes "history_ok h c" "tm_shallow (hi_operations h)" "tm_get (hi_operations h) (operation_timestamp op) = None" "history_push h op = Some h'"
  shows "history_ok h' c"
proof -
  have ok: "tm_ok (hi_operations h)" using assms(1) by (simp add: history_ok_def)
  obtain t where t: "tm_insert (hi_operations h) (operation_timestamp op) op = Some t" "tm_ok t"
    "tm_map t = (tm_map (hi_operations h))(operation_timestamp op \<mapsto> op)"
    using tm_insert_or_replace_ok [OF ok assms(2), of "operation_timestamp op" op] by blast
  have h': "hi_operations h' = t" "entries h' = entries h" "hi_transaction_depth h' = hi_transaction_depth h" "hi_undo_stack h' = hi_undo_stack h"
    using assms(4) t(1) by (auto simp: history_push_def entries_def)
  have "tm_get t i = Some o'" if "tm_get (hi_operations h) i = Some o'" for i o'
    using that assms(3) t(3) tm_get_ok [OF t(2)] tm_get_ok [OF ok] by (metis fun_upd_other option.distinct(1))
  then have "\<forall>i \<in> set (edits_of (entries h)). \<exists>e. tm_get t i = Some (Edit e)" using assms(1) unfolding history_ok_def by blast
  then show ?thesis using assms(1) t(2) h' by (simp add: history_ok_def)
qed

lemma push_undo_cases:
  assumes "push_undo h i = Some h'"
  shows "hi_transaction_depth h \<noteq> 0 \<and> (h' = h \<or> (\<exists>o' es e. tm_get (hi_operations h) i = Some (Edit o') \<and> hi_undo_stack h = es @ [e] \<and> h' = h\<lparr>hi_undo_stack := es @ [add_edit i e]\<rparr>))"
proof (cases "hi_undo_stack h" rule: rev_cases)
  case Nil
  then show ?thesis using assms by (auto simp: push_undo_def bind_eq_Some_conv split: option.splits operation.splits)
next
  case (snoc es e)
  then show ?thesis using assms by (auto simp: push_undo_def bind_eq_Some_conv split: option.splits operation.splits)
qed

lemma add_edit_edits: "tx_edit_ids (he_transaction (add_edit i e)) = tx_edit_ids (he_transaction e) @ [i]"
  by (simp add: add_edit_def)

lemma push_undo_keeps:
  assumes "history_ok h c" "push_undo h i = Some h'"
  shows "history_ok h' c"
  using push_undo_cases [OF assms(2)] assms(1) by (fastforce simp: history_ok_def entries_def add_edit_edits)

lemma group_trailing_keeps:
  assumes "history_ok h c" "hi_undo_stack h = keep @ e # es" "h' = h\<lparr>hi_undo_stack := keep @ [merged e es]\<rparr>"
  shows "history_ok h' c"
proof (rule history_ok_shrink [OF assms(1)])
  show "mset (map transaction_id (entries h')) \<subseteq># mset (map transaction_id (entries h))" using assms(2,3) by (simp add: entries_def)
  show "set (edits_of (entries h')) \<subseteq> set (edits_of (entries h))" using assms(2,3) merged_simps(2) [of e es] by (auto simp: entries_def)
qed (use assms in auto)

lemma group_keeps: "history_ok h c \<Longrightarrow> group h = Some (r, h') \<Longrightarrow> history_ok h' c"
proof (cases "hi_undo_stack h = []")
  case True
  assume "history_ok h c" "group h = Some (r, h')"
  then show ?thesis using True by (cases h) (auto simp: group_def group_trailing_def last_opt_def Let_def history_ok_def entries_def)
next
  case False
  assume h: "history_ok h c" "group h = Some (r, h')"
  show ?thesis using group_ok [OF False] group_trailing_keeps [OF h(1)] h(2) by (metis Pair_inject option.inject)
qed

lemma finalize_keeps: "history_ok h c \<Longrightarrow> finalize_last_transaction h = (t, h') \<Longrightarrow> history_ok h' c"
  by (cases "hi_undo_stack h" rule: rev_cases, simp add: finalize_last_transaction_def)
    (erule history_ok_shrink, auto simp: finalize_last_transaction_def entries_def)

lemma push_transaction_keeps:
  assumes "history_ok h c" "tx_id tx < c" "tx_id tx \<notin> transaction_id ` set (entries h)"
    and "\<forall>i \<in> set (tx_edit_ids tx). \<exists>e. tm_get (hi_operations h) i = Some (Edit e)" "push_transaction h tx now = Some h'"
  shows "history_ok h' c"
proof -
  have "h' = h\<lparr>hi_undo_stack := hi_undo_stack h @ [new_entry tx now]\<rparr>" using assms(5) by (auto simp: push_transaction_def bind_eq_Some_conv)
  then show ?thesis using history_ok_push [OF assms(1), of h' "new_entry tx now" c] assms(2-4) by simp
qed

text \<open>Moving entries between the stacks neither loses nor adds one.\<close>

lemma history_ok_permute:
  assumes "history_ok h c" "hi_operations h' = hi_operations h" "mset (entries h') = mset (entries h)" "hi_transaction_depth h' = 0"
  shows "history_ok h' c"
proof (rule history_ok_shrink [OF assms(1,2)])
  show "mset (map transaction_id (entries h')) \<subseteq># mset (map transaction_id (entries h))" using assms(3) by simp
  show "set (edits_of (entries h')) \<subseteq> set (edits_of (entries h))" using mset_eq_setD [OF assms(3)] by (simp add: set_edits_of)
qed (use assms in simp)

lemma pop_undo_moves:
  "pop_undo h = Some (r, h') \<Longrightarrow> hi_operations h' = hi_operations h \<and> mset (entries h') = mset (entries h) \<and> hi_transaction_depth h' = 0"
  by (cases "hi_undo_stack h" rule: rev_cases) (auto simp: pop_undo_def entries_def bind_eq_Some_conv)

lemma pop_redo_moves:
  "pop_redo h = Some (r, h') \<Longrightarrow> hi_operations h' = hi_operations h \<and> mset (entries h') = mset (entries h) \<and> hi_transaction_depth h' = 0"
  by (cases "hi_redo_stack h" rule: rev_cases) (auto simp: pop_redo_def entries_def bind_eq_Some_conv)

lemma mset_remove_at: "rposition P xs = Some i \<Longrightarrow> add_mset (xs ! i) (mset (remove_at i xs)) = mset xs"
  using pick_submset(1) [where f = id, of P xs i] by simp

lemma mset_take_drop: "mset (take i xs) + mset (drop i xs) = mset xs"
  by (metis append_take_drop_id mset_append)

lemma mset_drop_take: "mset (drop i xs) + mset (take i xs) = mset xs"
  by (metis add.commute mset_take_drop)

lemma remove_from_undo_moves:
  "remove_from_undo h i = Some (r, h') \<Longrightarrow> hi_operations h' = hi_operations h \<and> mset (entries h') = mset (entries h) \<and> hi_transaction_depth h' = 0"
  by (auto simp: remove_from_undo_def entries_def bind_eq_Some_conv mset_remove_at Let_def dest!: mset_remove_at split: option.splits)

lemma remove_from_undo_until_moves:
  "remove_from_undo_until h i = Some (r, h') \<Longrightarrow> hi_operations h' = hi_operations h \<and> mset (entries h') = mset (entries h) \<and> hi_transaction_depth h' = 0"
  by (auto simp: remove_from_undo_until_def entries_def bind_eq_Some_conv Let_def mset_take_drop mset_drop_take split: option.splits)

lemma remove_from_redo_moves:
  "remove_from_redo h i = Some (r, h') \<Longrightarrow> hi_operations h' = hi_operations h \<and> mset (entries h') = mset (entries h) \<and> hi_transaction_depth h' = 0"
  by (auto simp: remove_from_redo_def entries_def bind_eq_Some_conv Let_def mset_take_drop mset_drop_take split: option.splits)

text \<open>\<open>forget\<close> takes one entry with the given id off a stack, or finds none on either.\<close>

lemma forget_cases:
  assumes "forget h i = Some (t, h')"
  shows "hi_transaction_depth h = 0 \<and> hi_operations h' = hi_operations h \<and> hi_transaction_depth h' = 0
    \<and> (t = None \<and> h' = h \<and> i \<notin> transaction_id ` set (entries h)
      \<or> (\<exists>e. t = Some (he_transaction e) \<and> transaction_id e = i \<and> mset (entries h) = add_mset e (mset (entries h'))))"
proof (cases "rposition (\<lambda>e. transaction_id e = i) (hi_undo_stack h)")
  case (Some k)
  then have "transaction_id (hi_undo_stack h ! k) = i" using rposition_Some by blast
  then show ?thesis using assms Some mset_remove_at [OF Some] by (auto simp: forget_def entries_def bind_eq_Some_conv intro!: exI [of _ "hi_undo_stack h ! k"])
next
  case u: None
  show ?thesis
  proof (cases "rposition (\<lambda>e. transaction_id e = i) (hi_redo_stack h)")
    case (Some k)
    then have "transaction_id (hi_redo_stack h ! k) = i" using rposition_Some by blast
    then show ?thesis using assms Some u mset_remove_at [OF Some] by (auto simp: forget_def entries_def bind_eq_Some_conv intro!: exI [of _ "hi_redo_stack h ! k"])
  next
    case None
    then have "i \<notin> transaction_id ` set (entries h)" using u by (auto simp: rposition_None entries_def)
    then show ?thesis using assms u None by (auto simp: forget_def bind_eq_Some_conv)
  qed
qed

lemma update_transaction_cases:
  assumes "update_transaction h i f = Some h'"
  shows "\<exists>us e vs. transaction_id e = i \<and> hi_operations h' = hi_operations h \<and> hi_transaction_depth h' = hi_transaction_depth h
    \<and> entries h = us @ e # vs \<and> entries h' = us @ e\<lparr>he_transaction := f (he_transaction e)\<rparr> # vs"
proof (cases "rposition (\<lambda>e. transaction_id e = i) (hi_undo_stack h)")
  case (Some k)
  then obtain ys zs where y: "hi_undo_stack h = ys @ (hi_undo_stack h ! k) # zs" "length ys = k" "transaction_id (hi_undo_stack h ! k) = i"
    using rposition_Some by blast
  define e where "e = hi_undo_stack h ! k"
  have "h' = h\<lparr>hi_undo_stack := ys @ e\<lparr>he_transaction := f (he_transaction e)\<rparr> # zs\<rparr>"
    using assms Some y(2) y(1) [folded e_def] by (simp add: update_transaction_def Let_def list_update_append nth_append)
  then show ?thesis using y [folded e_def] by (intro exI [of _ ys] exI [of _ e] exI [of _ "zs @ hi_redo_stack h"]) (simp add: entries_def)
next
  case u: None
  then obtain k where k: "rposition (\<lambda>e. transaction_id e = i) (hi_redo_stack h) = Some k"
    using assms by (auto simp: update_transaction_def Let_def split: option.splits)
  then obtain ys zs where y: "hi_redo_stack h = ys @ (hi_redo_stack h ! k) # zs" "length ys = k" "transaction_id (hi_redo_stack h ! k) = i"
    using rposition_Some by blast
  define e where "e = hi_redo_stack h ! k"
  have "h' = h\<lparr>hi_redo_stack := ys @ e\<lparr>he_transaction := f (he_transaction e)\<rparr> # zs\<rparr>"
    using assms u k y(2) y(1) [folded e_def] by (simp add: update_transaction_def Let_def list_update_append nth_append)
  then show ?thesis using y [folded e_def] by (intro exI [of _ "hi_undo_stack h @ ys"] exI [of _ e] exI [of _ zs]) (simp add: entries_def)
qed

lemma forget_keeps:
  assumes "history_ok h c" "forget h i = Some (t, h')"
  shows "history_ok h' c"
proof (rule history_ok_shrink [OF assms(1)])
  note f = forget_cases [OF assms(2)]
  then have m: "mset (entries h') \<subseteq># mset (entries h)" by auto
  show "mset (map transaction_id (entries h')) \<subseteq># mset (map transaction_id (entries h))" using image_mset_subseteq_mono [OF m] by simp
  show "set (edits_of (entries h')) \<subseteq> set (edits_of (entries h))" using set_mset_mono [OF m] by (auto simp: set_edits_of)
qed (use forget_cases [OF assms(2)] in auto)

lemma merge_transactions_keeps:
  assumes "history_ok h c" "merge_transactions h i j = Some h'"
  shows "history_ok h' c"
proof -
  obtain t h1 where f: "forget h i = Some (t, h1)" using assms(2) by (auto simp: merge_transactions_def bind_eq_Some_conv)
  note c = forget_cases [OF f]
  have ok: "history_ok h1 c" using forget_keeps [OF assms(1) f] .
  show ?thesis
  proof (cases "h' = h1")
    case False
    then obtain tx where tx: "t = Some tx" "update_transaction h1 j (\<lambda>d. d\<lparr>tx_edit_ids := tx_edit_ids d @ tx_edit_ids tx\<rparr>) = Some h'"
      using assms(2) f by (auto simp: merge_transactions_def split: option.splits)
    obtain us e vs where u: "hi_operations h' = hi_operations h1" "hi_transaction_depth h' = hi_transaction_depth h1" "entries h1 = us @ e # vs"
      "entries h' = us @ e\<lparr>he_transaction := (he_transaction e)\<lparr>tx_edit_ids := tx_edit_ids (he_transaction e) @ tx_edit_ids tx\<rparr>\<rparr> # vs"
      using update_transaction_cases [OF tx(2)] by blast
    obtain x where x: "tx = he_transaction x" "mset (entries h) = add_mset x (mset (entries h1))" using c tx(1) by auto
    have s: "set (entries h) = insert x (set (entries h1))" by (metis x(2) set_mset_mset set_mset_add_mset_insert)
    have e: "set (edits_of (entries h')) \<subseteq> set (edits_of (entries h))" using u(3,4) s x(1) by (auto simp: set_edits_of)
    have "map transaction_id (entries h') = map transaction_id (entries h1)" using u(3,4) by (simp add: transaction_id_def)
    then have "mset (map transaction_id (entries h')) \<subseteq># mset (map transaction_id (entries h))" using x(2) by simp
    then show ?thesis using history_ok_shrink [OF assms(1) _ _ e] u(1,2) c by simp
  qed (use ok in simp)
qed

theorem history_reach_ok: "history_reach h c \<Longrightarrow> history_ok h c"
proof (induction rule: history_reach.induct)
  case (clock h c c')
  then show ?case by (auto simp: history_ok_def)
next
  case (until h c i h')
  then show ?case using group_until_ok [of h i] group_trailing_keeps [of h c] by (metis option.inject)
qed (blast intro: history_new_ok history_push_keeps start_transaction_keeps end_transaction_keeps push_undo_keeps group_keeps finalize_keeps
    push_transaction_keeps push_empty_keeps forget_keeps merge_transactions_keeps
    history_ok_permute dest: pop_undo_moves pop_redo_moves remove_from_undo_moves remove_from_undo_until_moves remove_from_redo_moves)+

section \<open>Properties\<close>

lemma reach_depth: "history_reach h c \<Longrightarrow> hi_transaction_depth h \<noteq> 0 \<Longrightarrow> hi_undo_stack h \<noteq> []"
  using history_reach_ok by (simp add: history_ok_def)

lemma group_total: "\<exists>r h'. group h = Some (r, h') \<and> (hi_undo_stack h \<noteq> [] \<longrightarrow> r \<noteq> None)"
proof (cases "hi_undo_stack h = []")
  case True
  then show ?thesis by (simp add: group_def group_trailing_def Let_def)
next
  case False
  then show ?thesis by (rule group_ok) auto
qed

lemma end_transaction_total:
  "hi_transaction_depth h \<noteq> 0 \<Longrightarrow> hi_undo_stack h \<noteq> [] \<Longrightarrow> \<exists>r h'. end_transaction h now = Some (r, h') \<and> (r \<noteq> None \<longrightarrow> hi_undo_stack h' \<noteq> [])"
  by (cases "hi_undo_stack h" rule: rev_cases) (auto simp: end_transaction_def Let_def assert_that_def)

lemma end_transaction_at_total:
  assumes "hi_transaction_depth h \<noteq> 0" "hi_undo_stack h \<noteq> []"
  shows "end_transaction_at h now \<noteq> None"
proof -
  obtain r h1 where e: "end_transaction h now = Some (r, h1)" "r \<noteq> None \<longrightarrow> hi_undo_stack h1 \<noteq> []" using end_transaction_total [OF assms] by blast
  obtain s h2 where "group h1 = Some (s, h2)" "hi_undo_stack h1 \<noteq> [] \<longrightarrow> s \<noteq> None" using group_total by blast
  then show ?thesis using e by (auto simp: end_transaction_at_def split: option.splits)
qed

text \<open>
  C10: in every state that a history reaches, ending a transaction and recording an edit panic exactly when no
  transaction is open; undoing, redoing, forgetting, merging and pushing finished transactions panic exactly when one
  is; grouping never panics. An unbalanced caller is caught by the assertions, and nothing else fails: the stack is
  never found empty by \<open>unwrap\<close>.
\<close>

theorem history_panics:
  assumes "history_reach h c"
  shows "(end_transaction h now = None \<longleftrightarrow> hi_transaction_depth h = 0) \<and> (end_transaction_at h now = None \<longleftrightarrow> hi_transaction_depth h = 0)
    \<and> (push_undo h i = None \<longleftrightarrow> hi_transaction_depth h = 0)
    \<and> (pop_undo h = None \<longleftrightarrow> hi_transaction_depth h \<noteq> 0) \<and> (pop_redo h = None \<longleftrightarrow> hi_transaction_depth h \<noteq> 0)
    \<and> (remove_from_undo h i = None \<longleftrightarrow> hi_transaction_depth h \<noteq> 0) \<and> (remove_from_undo_until h i = None \<longleftrightarrow> hi_transaction_depth h \<noteq> 0)
    \<and> (remove_from_redo h i = None \<longleftrightarrow> hi_transaction_depth h \<noteq> 0) \<and> (forget h i = None \<longleftrightarrow> hi_transaction_depth h \<noteq> 0)
    \<and> (merge_transactions h i j = None \<longleftrightarrow> hi_transaction_depth h \<noteq> 0) \<and> (push_transaction h tx now = None \<longleftrightarrow> hi_transaction_depth h \<noteq> 0)
    \<and> (push_empty_transaction h v now c = None \<longleftrightarrow> hi_transaction_depth h \<noteq> 0) \<and> group h \<noteq> None \<and> group_until h i \<noteq> None"
proof -
  note d = reach_depth [OF assms]
  have 1: "end_transaction h now = None \<longleftrightarrow> hi_transaction_depth h = 0"
    using d end_transaction_total [of h now] by (cases "hi_transaction_depth h = 0") (auto simp: end_transaction_def assert_that_def)
  have 2: "end_transaction_at h now = None \<longleftrightarrow> hi_transaction_depth h = 0"
    using d end_transaction_at_total [of h now] 1 by (cases "hi_transaction_depth h = 0") (auto simp: end_transaction_at_def)
  have 3: "push_undo h i = None \<longleftrightarrow> hi_transaction_depth h = 0"
    using d by (cases "hi_undo_stack h" rule: rev_cases) (auto simp: push_undo_def assert_that_def split: option.splits operation.splits)
  have 4: "forget h i = None \<longleftrightarrow> hi_transaction_depth h \<noteq> 0" by (auto simp: forget_def assert_that_def split: option.splits)
  have 5: "merge_transactions h i j = None \<longleftrightarrow> hi_transaction_depth h \<noteq> 0"
    using 4 by (cases "forget h i") (auto simp: merge_transactions_def split: option.splits)
  have 6: "pop_undo h = None \<longleftrightarrow> hi_transaction_depth h \<noteq> 0" "pop_redo h = None \<longleftrightarrow> hi_transaction_depth h \<noteq> 0"
    by (auto simp: pop_undo_def pop_redo_def assert_that_def split: option.splits)
  have 7: "remove_from_undo h i = None \<longleftrightarrow> hi_transaction_depth h \<noteq> 0" "remove_from_undo_until h i = None \<longleftrightarrow> hi_transaction_depth h \<noteq> 0"
    "remove_from_redo h i = None \<longleftrightarrow> hi_transaction_depth h \<noteq> 0"
    by (auto simp: remove_from_undo_def remove_from_undo_until_def remove_from_redo_def assert_that_def Let_def split: option.splits)
  have 8: "push_transaction h tx now = None \<longleftrightarrow> hi_transaction_depth h \<noteq> 0" "push_empty_transaction h v now c = None \<longleftrightarrow> hi_transaction_depth h \<noteq> 0"
    by (auto simp: push_transaction_def push_empty_transaction_def assert_that_def split: prod.splits)
  have 9: "group h \<noteq> None" "group_until h i \<noteq> None" using group_total [of h] group_until_ok [of h i] by auto
  show ?thesis using 1 2 3 4 5 6 7 8 9 by simp
qed


text \<open>
  C20: undoing and then redoing gives the history back: the last transaction through \<open>pop_undo\<close> and \<open>pop_redo\<close>, and
  all transactions from a given one on through \<open>remove_from_undo_until\<close>, which returns the latest of them first,
  and \<open>remove_from_redo\<close> of that latest one, which returns them in the order in which they happened.
\<close>

theorem history_undo_redo:
  assumes "history_reach h c" "hi_transaction_depth h = 0" "hi_undo_stack h = us @ e # vs" "transaction_id e = i"
  shows "(\<exists>h'. pop_undo h = Some (Some (last (e # vs)), h') \<and> pop_redo h' = Some (Some (last (e # vs)), h))
    \<and> (\<exists>h'. remove_from_undo_until h i = Some (rev (e # vs), h') \<and> hi_undo_stack h' = us
        \<and> remove_from_redo h' (transaction_id (last (e # vs))) = Some (e # vs, h))"
proof
  define l where "l = last (e # vs)"
  obtain ws where w: "hi_undo_stack h = ws @ [l]" using assms(3) unfolding l_def by (metis append_butlast_last_id last_appendR list.distinct(1) append_is_Nil_conv)
  have "h\<lparr>hi_redo_stack := hi_redo_stack h, hi_undo_stack := ws @ [l]\<rparr> = h" using w by (cases h) simp
  then show "\<exists>h'. pop_undo h = Some (Some (last (e # vs)), h') \<and> pop_redo h' = Some (Some (last (e # vs)), h)"
    unfolding l_def [symmetric] using assms(2) w by (simp add: pop_undo_def pop_redo_def)
next
  define l where "l = last (e # vs)"
  define h' where "h' = h\<lparr>hi_redo_stack := hi_redo_stack h @ rev (e # vs), hi_undo_stack := us\<rparr>"
  have ok: "distinct (map transaction_id (hi_undo_stack h @ hi_redo_stack h))" using history_reach_ok [OF assms(1)] by (simp add: history_ok_def entries_def)
  then have "\<forall>v \<in> set vs. transaction_id v \<noteq> i" using assms(3,4) by (force simp: image_iff)
  then have p: "rposition (\<lambda>x. transaction_id x = i) (us @ e # vs) = Some (length us)" using assms(4) by (simp add: rposition_last)
  then have r: "remove_from_undo_until h i = Some (rev (e # vs), h')" using assms(2,3) by (simp add: remove_from_undo_until_def h'_def)
  obtain ws where w: "e # vs = ws @ [l]" unfolding l_def by (metis append_butlast_last_id list.distinct(1))
  have "distinct (map transaction_id (ws @ [l]))" using ok assms(3) w by (metis distinct_append map_append)
  then have "\<forall>v \<in> set (rev ws). transaction_id v \<noteq> transaction_id l" by (force simp: image_iff)
  then have q: "rposition (\<lambda>x. transaction_id x = transaction_id l) (hi_redo_stack h @ l # rev ws) = Some (length (hi_redo_stack h))" by (simp add: rposition_last)
  have "h'\<lparr>hi_undo_stack := us @ e # vs, hi_redo_stack := hi_redo_stack h\<rparr> = h" using assms(3) by (cases h) (simp add: h'_def)
  then have "remove_from_redo h' (transaction_id l) = Some (e # vs, h)" using assms(2,3) q w by (simp add: remove_from_redo_def h'_def)
  then show "\<exists>h'. remove_from_undo_until h i = Some (rev (e # vs), h') \<and> hi_undo_stack h' = us
      \<and> remove_from_redo h' (transaction_id (last (e # vs))) = Some (e # vs, h)" using r by (auto simp: l_def h'_def)
qed

text \<open>
  C21: ending the outermost transaction. One without edits is taken off the undo stack again and the redo stack stays.
  Otherwise the redo stack is cleared and the transaction is merged with the longest run of transactions before it that
  were not finalized and each ended less than the group interval before the next began: the id returned is that of the
  oldest of the run, which keeps all edits in their order and ends at the present time, and the version returned is the
  one at which the ended transaction began. An inner transaction only lowers the depth.
\<close>

theorem history_end_groups:
  assumes "hi_transaction_depth h \<noteq> 0" "hi_undo_stack h = us @ [e]"
  shows "(hi_transaction_depth h \<noteq> 1 \<longrightarrow> end_transaction_at h now = Some (None, h\<lparr>hi_transaction_depth := hi_transaction_depth h - 1\<rparr>))
    \<and> (hi_transaction_depth h = 1 \<and> edits_of [e] = [] \<longrightarrow> end_transaction_at h now = Some (None, h\<lparr>hi_transaction_depth := 0, hi_undo_stack := us\<rparr>))
    \<and> (hi_transaction_depth h = 1 \<and> edits_of [e] \<noteq> [] \<longrightarrow> (\<exists>keep p es. us @ [e\<lparr>he_last_edit_at := now\<rparr>] = keep @ p # es
        \<and> run (hi_group_interval h) (p # es) \<and> (keep \<noteq> [] \<longrightarrow> \<not> run (hi_group_interval h) (last keep # p # es))
        \<and> end_transaction_at h now = Some (Some (transaction_id p, tx_start (he_transaction e)),
            h\<lparr>hi_transaction_depth := 0, hi_redo_stack := [], hi_undo_stack := keep @ [merged p es]\<rparr>)
        \<and> edits_of (keep @ [merged p es]) = edits_of (us @ [e]) \<and> he_last_edit_at (merged p es) = now))"
proof (intro conjI impI)
  assume "hi_transaction_depth h \<noteq> 1"
  then show "end_transaction_at h now = Some (None, h\<lparr>hi_transaction_depth := hi_transaction_depth h - 1\<rparr>)"
    using assms(1) by (auto simp: end_transaction_at_def end_transaction_def Let_def)
next
  assume "hi_transaction_depth h = 1 \<and> edits_of [e] = []"
  then show "end_transaction_at h now = Some (None, h\<lparr>hi_transaction_depth := 0, hi_undo_stack := us\<rparr>)"
    using assms(2) by (simp add: end_transaction_at_def end_transaction_def Let_def)
next
  assume d: "hi_transaction_depth h = 1 \<and> edits_of [e] \<noteq> []"
  define e' where "e' = e\<lparr>he_last_edit_at := now\<rparr>"
  define h1 where "h1 = h\<lparr>hi_transaction_depth := 0, hi_redo_stack := [], hi_undo_stack := us @ [e']\<rparr>"
  have end1: "end_transaction h now = Some (Some e', h1)" using d assms(2) by (simp add: end_transaction_def Let_def h1_def e'_def)
  have "hi_undo_stack h1 \<noteq> []" by (simp add: h1_def)
  then obtain keep p es where g: "hi_undo_stack h1 = keep @ p # es" "group h1 = Some (Some (transaction_id p), h1\<lparr>hi_undo_stack := keep @ [merged p es]\<rparr>)"
    "run (hi_group_interval h1) (p # es)" "keep \<noteq> [] \<longrightarrow> \<not> run (hi_group_interval h1) (last keep # p # es)" by (rule group_ok)
  have u: "us @ [e'] = keep @ p # es" using g(1) by (simp add: h1_def)
  then have "last (p # es) = e'" by (metis last_appendR last_snoc list.distinct(1))
  then have l: "he_last_edit_at (merged p es) = now" by (auto simp: merged_def e'_def split: if_splits)
  have "edits_of (keep @ [merged p es]) = edits_of (us @ [e'])" using u merged_simps(2) [of p es] by simp
  moreover have "edits_of (us @ [e']) = edits_of (us @ [e])" "tx_start (he_transaction e') = tx_start (he_transaction e)" by (simp_all add: e'_def)
  moreover have "h1\<lparr>hi_undo_stack := keep @ [merged p es]\<rparr> = h\<lparr>hi_transaction_depth := 0, hi_redo_stack := [], hi_undo_stack := keep @ [merged p es]\<rparr>"
    by (simp add: h1_def)
  ultimately show "\<exists>keep p es. us @ [e\<lparr>he_last_edit_at := now\<rparr>] = keep @ p # es
        \<and> run (hi_group_interval h) (p # es) \<and> (keep \<noteq> [] \<longrightarrow> \<not> run (hi_group_interval h) (last keep # p # es))
        \<and> end_transaction_at h now = Some (Some (transaction_id p, tx_start (he_transaction e)),
            h\<lparr>hi_transaction_depth := 0, hi_redo_stack := [], hi_undo_stack := keep @ [merged p es]\<rparr>)
        \<and> edits_of (keep @ [merged p es]) = edits_of (us @ [e]) \<and> he_last_edit_at (merged p es) = now"
    using g u l end1 by (intro exI [of _ keep] exI [of _ p] exI [of _ es]) (simp add: end_transaction_at_def h1_def e'_def)
qed

lemma find_append: "find P (xs @ ys) = (case find P xs of None \<Rightarrow> find P ys | Some x \<Rightarrow> Some x)"
  by (induction xs) auto

lemma history_transaction_iff:
  assumes "distinct (map transaction_id (entries h))"
  shows "history_transaction h i = Some t \<longleftrightarrow> (\<exists>e \<in> set (entries h). transaction_id e = i \<and> he_transaction e = t)"
proof -
  have f: "history_transaction h i = Some t \<longleftrightarrow> (\<exists>e. find (\<lambda>e. transaction_id e = i) (rev (hi_undo_stack h) @ rev (hi_redo_stack h)) = Some e \<and> he_transaction e = t)"
    by (auto simp: history_transaction_def find_append split: option.splits)
  have "find (\<lambda>e. transaction_id e = i) es = Some e \<longleftrightarrow> e \<in> set es \<and> transaction_id e = i" if "distinct (map transaction_id es)" for es e
    using that by (induction es) auto
  moreover have "distinct (map transaction_id (rev (hi_undo_stack h) @ rev (hi_redo_stack h)))" using assms by (simp add: entries_def flip: rev_map)
  ultimately show ?thesis unfolding f by (auto simp: entries_def)
qed

lemma same_entry: "distinct (map transaction_id es) \<Longrightarrow> e \<in> set es \<Longrightarrow> e' \<in> set es \<Longrightarrow> transaction_id e = transaction_id e' \<Longrightarrow> e = e'"
  by (auto simp: distinct_map inj_on_def)

lemma forget_set:
  assumes "distinct (map transaction_id (entries h))" "forget h i = Some (t, h')"
  shows "set (entries h') = {e \<in> set (entries h). transaction_id e \<noteq> i}" "distinct (map transaction_id (entries h'))"
proof -
  have "set (entries h') = {e \<in> set (entries h). transaction_id e \<noteq> i} \<and> distinct (map transaction_id (entries h'))"
  proof (cases "t = None")
    case True
    then show ?thesis using forget_cases [OF assms(2)] assms(1) by auto
  next
    case False
    then obtain e where e: "transaction_id e = i" "mset (entries h) = mset (e # entries h')" using forget_cases [OF assms(2)] by auto
    have "mset (map transaction_id (entries h)) = mset (map transaction_id (e # entries h'))" using e(2) by (metis mset_map)
    then have "distinct (map transaction_id (e # entries h'))" using assms(1) mset_eq_imp_distinct_iff by blast
    then show ?thesis using mset_eq_setD [OF e(2)] e(1) by (force simp: image_iff)
  qed
  then show "set (entries h') = {e \<in> set (entries h). transaction_id e \<noteq> i}" "distinct (map transaction_id (entries h'))" by auto
qed

lemma update_transaction_None: "update_transaction h i f = None \<longleftrightarrow> i \<notin> transaction_id ` set (entries h)"
proof -
  have "update_transaction h i f = None \<longleftrightarrow> rposition (\<lambda>e. transaction_id e = i) (hi_undo_stack h) = None \<and> rposition (\<lambda>e. transaction_id e = i) (hi_redo_stack h) = None"
    by (simp add: update_transaction_def Let_def split: option.split)
  then show ?thesis by (auto simp: rposition_None entries_def)
qed

lemma update_transaction_lookup:
  assumes "distinct (map transaction_id (entries h))" "update_transaction h j f = Some h'" "history_transaction h j = Some d" "\<And>x. tx_id (f x) = tx_id x"
  shows "history_transaction h' = (history_transaction h)(j \<mapsto> f d)"
proof
  fix k
  obtain us e vs where u: "transaction_id e = j" "entries h = us @ e # vs" "entries h' = us @ e\<lparr>he_transaction := f (he_transaction e)\<rparr> # vs"
    using update_transaction_cases [OF assms(2)] by blast
  define e' where "e' = e\<lparr>he_transaction := f (he_transaction e)\<rparr>"
  have e': "transaction_id e' = j" "he_transaction e' = f (he_transaction e)" using u(1) assms(4) by (simp_all add: e'_def transaction_id_def)
  then have d': "distinct (map transaction_id (entries h'))" using assms(1) u e'_def by auto
  obtain x where x: "x \<in> set (entries h)" "transaction_id x = j" "he_transaction x = d" using history_transaction_iff [OF assms(1)] assms(3) by blast
  then have d: "he_transaction e = d" using same_entry [OF assms(1) x(1), of e] u(1,2) by simp
  have others: "x \<in> set us \<union> set vs \<Longrightarrow> transaction_id x \<noteq> j" for x using assms(1) u(1,2) by (force simp: image_iff)
  have "history_transaction h' k = Some t \<longleftrightarrow> (\<exists>x \<in> insert e' (set us \<union> set vs). transaction_id x = k \<and> he_transaction x = t)" for t
    using history_transaction_iff [OF d', of k t] u(3) by (simp add: e'_def)
  moreover have "history_transaction h k = Some t \<longleftrightarrow> (\<exists>x \<in> insert e (set us \<union> set vs). transaction_id x = k \<and> he_transaction x = t)" for t
    using history_transaction_iff [OF assms(1), of k t] u(2) by simp
  ultimately have "history_transaction h' k = Some t \<longleftrightarrow> ((history_transaction h)(j \<mapsto> f d)) k = Some t" for t
    using others e' u(1) d by (cases "k = j") auto
  then show "history_transaction h' k = ((history_transaction h)(j \<mapsto> f d)) k" by (metis not_None_eq)
qed

text \<open>
  Merging one transaction into another. In a state that a history reaches, with no transaction open, the
  transaction merged is gone afterwards from both stacks, the destination has its edits after its own, and all others
  are as before.
\<close>

theorem history_merges:
  assumes "history_reach h c" "hi_transaction_depth h = 0" "history_transaction h i = Some t" "history_transaction h j = Some d" "i \<noteq> j"
  shows "\<exists>h'. merge_transactions h i j = Some h' \<and> history_transaction h' = (history_transaction h)(i := None, j \<mapsto> merge_in d t)"
proof -
  have ok: "distinct (map transaction_id (entries h))" using history_reach_ok [OF assms(1)] by (simp add: history_ok_def)
  have "forget h i \<noteq> None" using assms(2) by (simp add: forget_def split: option.split)
  then obtain t' h1 where f: "forget h i = Some (t', h1)" by auto
  have e1: "history_transaction h1 k = Some x \<longleftrightarrow> k \<noteq> i \<and> history_transaction h k = Some x" for k x
    using history_transaction_iff [OF ok, of k x] history_transaction_iff [OF forget_set(2) [OF ok f], of k x] forget_set(1) [OF ok f] by auto
  then have h1: "history_transaction h1 = (history_transaction h)(i := None)" by (intro ext) (metis fun_upd_apply not_None_eq)
  obtain e where e: "e \<in> set (entries h)" "transaction_id e = i" "he_transaction e = t" using history_transaction_iff [OF ok] assms(3) by blast
  then obtain e' where e': "t' = Some (he_transaction e')" "transaction_id e' = i" "mset (entries h) = mset (e' # entries h1)" using forget_cases [OF f] by auto
  have "e' = e" using same_entry [OF ok _ e(1)] mset_eq_setD [OF e'(3)] e'(2) e(2) by simp
  then have "t' = Some t" using e' e by simp
  moreover have j1: "history_transaction h1 j = Some d" using e1 assms(4,5) by simp
  then have "j \<in> transaction_id ` set (entries h1)" using history_transaction_iff [OF forget_set(2) [OF ok f]] by auto
  then obtain h' where u: "update_transaction h1 j (\<lambda>x. merge_in x t) = Some h'" using update_transaction_None by (metis not_None_eq)
  ultimately have "merge_transactions h i j = Some h'" using f by (simp add: merge_transactions_def merge_in_def)
  moreover have "history_transaction h' = (history_transaction h1)(j \<mapsto> merge_in d t)"
    using update_transaction_lookup [OF forget_set(2) [OF ok f] u j1] by (simp add: merge_in_def)
  ultimately show ?thesis using h1 by auto
qed

section \<open>Examples\<close>

text \<open>Two transactions without edits, pushed at the clock's first two values.\<close>

definition sample_entry :: "u32 \<Rightarrow> history_entry" where
  "sample_entry n = new_entry \<lparr>tx_id = Lamport n 0, tx_edit_ids = [], tx_start = global_new\<rparr> 0"

definition sample_history :: history where
  "sample_history = (history_new rope_new)\<lparr>hi_undo_stack := [sample_entry 1, sample_entry 2]\<rparr>"

lemma sample_reach: "history_reach sample_history (Lamport 3 0)"
proof -
  have 0: "history_reach (history_new rope_new) (Lamport 1 0)" by (rule history_reach.new)
  have "push_empty_transaction (history_new rope_new) global_new 0 (Lamport 1 0)
      = Some (Lamport 1 0, (history_new rope_new)\<lparr>hi_undo_stack := [sample_entry 1]\<rparr>, Lamport 2 0)"
    by (simp add: push_empty_transaction_def history_new_def lamport_tick_def sample_entry_def)
  from history_reach.push_empty [OF 0 _ this] have 1: "history_reach ((history_new rope_new)\<lparr>hi_undo_stack := [sample_entry 1]\<rparr>) (Lamport 2 0)" by simp
  have "push_empty_transaction ((history_new rope_new)\<lparr>hi_undo_stack := [sample_entry 1]\<rparr>) global_new 0 (Lamport 2 0)
      = Some (Lamport 2 0, sample_history, Lamport 3 0)"
    by (simp add: push_empty_transaction_def history_new_def lamport_tick_def sample_entry_def sample_history_def)
  from history_reach.push_empty [OF 1 _ this] show ?thesis by simp
qed

theorem history_panics_witness: "end_transaction sample_history 7 = None \<and> pop_undo sample_history \<noteq> None"
  using history_panics [OF sample_reach, of 7 "Lamport 0 0" "Lamport 0 0"] by (simp add: sample_history_def history_new_def)


theorem history_undo_redo_witness:
  "\<exists>h'. remove_from_undo_until sample_history (Lamport 1 0) = Some ([sample_entry 2, sample_entry 1], h')
    \<and> remove_from_redo h' (Lamport 2 0) = Some ([sample_entry 1, sample_entry 2], sample_history)"
  using history_undo_redo [OF sample_reach, of "[]" "sample_entry 1" "[sample_entry 2]" "Lamport 1 0"]
  by (auto simp: sample_history_def history_new_def sample_entry_def transaction_id_def new_entry_def)

theorem history_merges_witness:
  "\<exists>h'. merge_transactions sample_history (Lamport 2 0) (Lamport 1 0) = Some h'
    \<and> history_transaction h' (Lamport 2 0) = None \<and> history_transaction h' (Lamport 1 0) \<noteq> None"
proof -
  have t: "history_transaction sample_history (Lamport 2 0) = Some (he_transaction (sample_entry 2))"
    "history_transaction sample_history (Lamport 1 0) = Some (he_transaction (sample_entry 1))"
    by (simp_all add: history_transaction_def sample_history_def history_new_def sample_entry_def transaction_id_def new_entry_def)
  have "hi_transaction_depth sample_history = 0" by (simp add: sample_history_def history_new_def)
  from history_merges [OF sample_reach this t] show ?thesis by auto
qed

text \<open>Two edits within the group interval: the second transaction joins the first.\<close>

theorem history_end_groups_witness:
  "\<exists>h'. end_transaction_at ((history_new rope_new)\<lparr>hi_transaction_depth := 1, hi_redo_stack := [sample_entry 5],
      hi_undo_stack := [add_edit (Lamport 2 0) (sample_entry 1), add_edit (Lamport 4 0) (sample_entry 3)]\<rparr>) 9 = Some (Some (Lamport 1 0, global_new), h')
    \<and> hi_redo_stack h' = [] \<and> edits_of (hi_undo_stack h') = [Lamport 2 0, Lamport 4 0]"
proof -
  define a where "a = add_edit (Lamport 2 0) (sample_entry 1)"
  define b where "b = add_edit (Lamport 4 0) (sample_entry 3)"
  define h where "h = (history_new rope_new)\<lparr>hi_transaction_depth := 1, hi_redo_stack := [sample_entry 5], hi_undo_stack := [a, b]\<rparr>"
  have ab: "edits_of [a] = [Lamport 2 0]" "edits_of [b] = [Lamport 4 0]" "transaction_id a = Lamport 1 0" "tx_start (he_transaction b) = global_new"
    "\<not> he_suppress_grouping a" "he_first_edit_at b = 0" "he_last_edit_at a = 0"
    by (simp_all add: a_def b_def add_edit_def sample_entry_def new_entry_def transaction_id_def)
  have h: "hi_transaction_depth h = 1" "hi_undo_stack h = [a] @ [b]" "hi_group_interval h = 300000000" by (simp_all add: h_def history_new_def)
  obtain keep p es where k: "[a] @ [b\<lparr>he_last_edit_at := 9\<rparr>] = keep @ p # es" "keep \<noteq> [] \<longrightarrow> \<not> run 300000000 (last keep # p # es)"
    "end_transaction_at h 9 = Some (Some (transaction_id p, tx_start (he_transaction b)), h\<lparr>hi_transaction_depth := 0, hi_redo_stack := [], hi_undo_stack := keep @ [merged p es]\<rparr>)"
    "edits_of (keep @ [merged p es]) = edits_of ([a] @ [b])"
    using history_end_groups [OF _ h(2), of 9] h(1,3) ab(2) by (simp del: edits_of_simps) blast
  have "keep = []" using k(1,2) ab by (cases keep; cases "tl keep"; cases es) (auto simp: Cons_eq_append_conv)
  then have "p = a" using k(1) by simp
  then show ?thesis using k(3,4) ab unfolding h_def a_def b_def by auto
qed

end
