(* ===== verification/LineIndent.thy ===== *)
theory LineIndent
  imports RopeLines
begin

text \<open>
  The indentation of lines (\<open>LineIndent\<close> of \<open>crates/text/src/text.rs\<close>), and the functions of a buffer snapshot that
  report it row by row. Of a snapshot they use the visible text alone, so they are functions of that rope here.
\<close>

section \<open>Data\<close>

record line_indent =
  li_tabs :: u32
  li_spaces :: u32
  li_line_blank :: bool

definition space :: rchar where "space = 32"

definition indent_spaces :: "u32 \<Rightarrow> line_indent" where
  "indent_spaces n = \<lparr>li_tabs = 0, li_spaces = n, li_line_blank = True\<rparr>"

definition indent_tabs :: "u32 \<Rightarrow> line_indent" where
  "indent_tabs n = \<lparr>li_tabs = n, li_spaces = 0, li_line_blank = True\<rparr>"

definition is_line_empty :: "line_indent \<Rightarrow> bool" where
  "is_line_empty self \<longleftrightarrow> li_tabs self = 0 \<and> li_spaces self = 0 \<and> li_line_blank self"

definition is_line_blank :: "line_indent \<Rightarrow> bool" where
  "is_line_blank self \<longleftrightarrow> li_line_blank self"

definition raw_len :: "line_indent \<Rightarrow> u32" where
  "raw_len self = li_tabs self + li_spaces self"

definition indent_len :: "line_indent \<Rightarrow> u32 \<Rightarrow> u32" where
  "indent_len self tab_size = li_tabs self * tab_size + li_spaces self"

section \<open>Operations\<close>

text \<open>The loop over the characters of a string or a piece; the first component tells whether it was left by \<open>break\<close>.\<close>

fun indent_chars :: "rstr \<Rightarrow> line_indent \<Rightarrow> bool \<times> line_indent" where
  "indent_chars [] self = (False, self)"
| "indent_chars (ch # chars) self =
     (if ch = tab then indent_chars chars (self\<lparr>li_tabs := li_tabs self + 1\<rparr>)
      else if ch = space then indent_chars chars (self\<lparr>li_spaces := li_spaces self + 1\<rparr>)
      else (True, if ch \<noteq> newline then self\<lparr>li_line_blank := False\<rparr> else self))"

definition indent_from_iter :: "rstr \<Rightarrow> line_indent" where
  "indent_from_iter chars = snd (indent_chars chars \<lparr>li_tabs = 0, li_spaces = 0, li_line_blank = True\<rparr>)"

partial_function (option) from_chunks_loop :: "rope_chunks \<Rightarrow> line_indent \<Rightarrow> (line_indent \<times> rope_chunks) rust" where
  "from_chunks_loop chunks self = do {
     item \<leftarrow> chunks_peek chunks;
     (case item of
        None \<Rightarrow> Some (self, chunks)
      | Some chunk \<Rightarrow>
          (case indent_chars chunk self of
             (stopped, self) \<Rightarrow>
               if stopped then Some (self, chunks)
               else do { (_, chunks) \<leftarrow> chunks_next chunks; from_chunks_loop chunks self }))
   }"

definition from_chunks :: "rope_chunks \<Rightarrow> (line_indent \<times> rope_chunks) rust" where
  "from_chunks chunks = from_chunks_loop chunks \<lparr>li_tabs = 0, li_spaces = 0, li_line_blank = True\<rparr>"

definition to_previous_offset :: "rope \<Rightarrow> point \<Rightarrow> nat" where
  "to_previous_offset text point = rope_floor_char_boundary text (rope_point_to_offset text point - 1)"

definition buffer_line_len :: "rope \<Rightarrow> u32 \<Rightarrow> u32" where
  "buffer_line_len text row =
     (let row_start_offset = rope_point_to_offset text (Point row 0);
          row_end_offset = (if row \<ge> pt_row (max_point text) then rope_len text else to_previous_offset text (Point (row + 1) 0))
      in of_nat (usize_sub row_end_offset row_start_offset))"

definition line_indent_for_row :: "rope \<Rightarrow> u32 \<Rightarrow> line_indent rust" where
  "line_indent_for_row text row = map_option indent_from_iter (chars_at text (rope_point_to_offset text (Point row 0)))"

text \<open>The iterators, read to their end: the indents in the order in which they are yielded.\<close>

partial_function (option) line_indents_loop :: "rope_chunks \<Rightarrow> u32 \<Rightarrow> (u32 \<times> line_indent) list \<Rightarrow> (u32 \<times> line_indent) list rust" where
  "line_indents_loop chunks row yielded = do {
     (indent, chunks) \<leftarrow> from_chunks chunks;
     (found, chunks) \<leftarrow> next_line chunks;
     let yielded = yielded @ [(row, indent)];
     if \<not> found then Some yielded else line_indents_loop chunks (row + 1) yielded
   }"

definition line_indents_in_row_range :: "rope \<Rightarrow> u32 \<Rightarrow> u32 \<Rightarrow> (u32 \<times> line_indent) list rust" where
  "line_indents_in_row_range text range_start range_end = do {
     let start = rope_point_to_offset text (Point range_start 0);
     let end' = rope_point_to_offset text (Point range_end (buffer_line_len text range_end));
     chunks \<leftarrow> rope_chunks_in_range text start end';
     line_indents_loop chunks range_start []
   }"

partial_function (option) reversed_indents_loop :: "rope_chunks \<Rightarrow> u32 \<Rightarrow> (u32 \<times> line_indent) list \<Rightarrow> (u32 \<times> line_indent) list rust" where
  "reversed_indents_loop chunks row yielded = do {
     let initial_offset = ch_offset chunks;
     (indent, chunks) \<leftarrow> from_chunks chunks;
     chunks \<leftarrow> (if ch_offset chunks > initial_offset then map_option snd (prev_line chunks) else Some chunks);
     (found, chunks) \<leftarrow> prev_line chunks;
     let yielded = yielded @ [(row, indent)];
     if \<not> found then Some yielded else reversed_indents_loop chunks (row - 1) yielded
   }"

definition reversed_line_indents_in_row_range :: "rope \<Rightarrow> u32 \<Rightarrow> u32 \<Rightarrow> (u32 \<times> line_indent) list rust" where
  "reversed_line_indents_in_row_range text range_start range_end = do {
     let start = rope_point_to_offset text (Point range_start 0);
     let end_point = (if range_end > range_start then Point (range_end - 1) (buffer_line_len text (range_end - 1)) else Point range_start 0);
     let end' = (if range_end > range_start then rope_point_to_offset text end_point else start);
     chunks \<leftarrow> rope_chunks_in_range text start end';
     chunks \<leftarrow> chunks_seek chunks end';
     chunks \<leftarrow> (if pt_column end_point > 0 then map_option snd (prev_line chunks) else Some chunks);
     reversed_indents_loop chunks (pt_row end_point) []
   }"

section \<open>What an indent says\<close>

definition indentation :: "rstr \<Rightarrow> rstr" where
  "indentation s = takeWhile (\<lambda>c. c = tab \<or> c = space) s"

definition indent_spec :: "rstr \<Rightarrow> line_indent" where
  "indent_spec s = \<lparr>li_tabs = of_nat (length (filter (\<lambda>c. c = tab) (indentation s))),
     li_spaces = of_nat (length (filter (\<lambda>c. c = space) (indentation s))),
     li_line_blank = line_end (drop (length (indentation s)) s)\<rparr>"

lemma chars_distinct [simp]: "tab \<noteq> space" "space \<noteq> tab" "newline \<noteq> tab" "newline \<noteq> space" "tab \<noteq> newline" "space \<noteq> newline"
  by (simp_all add: tab_def space_def newline_def)

lemma indentation_simps [simp]:
  "indentation [] = []" "indentation (c # s) = (if c = tab \<or> c = space then c # indentation s else [])"
  by (simp_all add: indentation_def)

lemma indent_chars_eq:
  "indent_chars s self = (indentation s \<noteq> s,
     self\<lparr>li_tabs := li_tabs self + li_tabs (indent_spec s), li_spaces := li_spaces self + li_spaces (indent_spec s),
       li_line_blank := li_line_blank self \<and> li_line_blank (indent_spec s)\<rparr>)"
proof (induction s arbitrary: self)
  case Nil
  show ?case by (simp add: indent_spec_def line_end_def)
next
  case (Cons c s)
  then show ?case by (auto simp: indent_spec_def line_end_def add.commute add.left_commute)
qed

lemma indent_from_iter_eq: "indent_from_iter s = indent_spec s"
  by (simp add: indent_from_iter_def indent_chars_eq)

lemma indentation_append: "indentation s = s \<Longrightarrow> indentation (s @ t) = s @ indentation t"
  by (induction s) (auto split: if_splits)

lemma indentation_stop: "indentation s \<noteq> s \<Longrightarrow> indentation (s @ t) = indentation s"
  by (induction s) auto

lemma indent_spec_append:
  "indentation s = s \<Longrightarrow> indent_spec (s @ t) = \<lparr>li_tabs = li_tabs (indent_spec s) + li_tabs (indent_spec t),
     li_spaces = li_spaces (indent_spec s) + li_spaces (indent_spec t), li_line_blank = li_line_blank (indent_spec t)\<rparr>"
  by (simp add: indent_spec_def indentation_append)

lemma indentation_prefix: "\<exists>t. s = indentation s @ t"
  unfolding indentation_def by (metis takeWhile_dropWhile_id)

lemma indent_spec_stop: "indentation s \<noteq> s \<Longrightarrow> indent_spec (s @ t) = indent_spec s"
proof -
  assume s: "indentation s \<noteq> s"
  obtain u where u: "s = indentation s @ u" using indentation_prefix by blast
  then have "u \<noteq> []" using s by auto
  then have "line_end (u @ t) = line_end u" by (simp add: line_end_def)
  moreover have "drop (length (indentation s)) s = u" "drop (length (indentation s)) (s @ t) = u @ t" by (subst (2) u, simp) (subst (2) u, simp)
  ultimately show ?thesis by (simp add: indent_spec_def indentation_stop [OF s])
qed

text \<open>The indent of a text is that of its first line.\<close>

lemma indent_spec_line: "newline \<notin> set l \<Longrightarrow> line_end q \<Longrightarrow> indent_spec (l @ q) = indent_spec l"
proof (cases "indentation l = l")
  case True
  assume "line_end q"
  then have "indentation q = []" by (cases q) (auto simp: line_end_def)
  then show ?thesis using True \<open>line_end q\<close> by (simp add: indent_spec_append) (simp add: indent_spec_def line_end_def)
qed (rule indent_spec_stop)

section \<open>Reading the indent of a line\<close>

lemma from_chunks_loop_ok:
  assumes "reads_forward ch r w x y z"
  shows "\<exists>ch' i y'. from_chunks_loop ch self = Some (self\<lparr>li_tabs := li_tabs self + li_tabs (indent_spec y), li_spaces := li_spaces self + li_spaces (indent_spec y),
       li_line_blank := li_line_blank self \<and> li_line_blank (indent_spec y)\<rparr>, ch')
    \<and> y = i @ y' \<and> indentation i = i \<and> reads_forward ch' r w (x @ i) y' z"
  using assms
proof (induction "length y" arbitrary: ch x y self rule: less_induct)
  case less
  show ?case
  proof (cases "y = []")
    case True
    have "chunks_peek ch = Some None" using forward_done [of ch] less.prems True by (simp add: chunks_peek_def)
    then show ?thesis using True less.prems by (subst from_chunks_loop.simps) (simp add: indent_spec_def line_end_def)
  next
    case False
    obtain t y1 ch1 where t: "y = t @ y1" "t \<noteq> []" "chunks_peek ch = Some (Some t)" "chunks_next ch = Some (Some t, ch1)" "reads_forward ch1 r w (x @ t) y1 z"
      by (rule forward_next [OF less.prems False])
    show ?thesis
    proof (cases "indentation t = t")
      case True
      let ?s = "self\<lparr>li_tabs := li_tabs self + li_tabs (indent_spec t), li_spaces := li_spaces self + li_spaces (indent_spec t),
        li_line_blank := li_line_blank self \<and> li_line_blank (indent_spec t)\<rparr>"
      have b: "li_line_blank (indent_spec t)" using True by (simp add: indent_spec_def line_end_def)
      have "length y1 < length y" using t(1,2) by simp
      from less.hyps [OF this t(5), of ?s] obtain ch' i y' where
        i: "from_chunks_loop ch1 ?s = Some (?s\<lparr>li_tabs := li_tabs ?s + li_tabs (indent_spec y1), li_spaces := li_spaces ?s + li_spaces (indent_spec y1),
          li_line_blank := li_line_blank ?s \<and> li_line_blank (indent_spec y1)\<rparr>, ch')" "y1 = i @ y'" "indentation i = i" "reads_forward ch' r w ((x @ t) @ i) y' z" by blast
      have "indentation (t @ i) = t @ i" using indentation_append [OF True] i(3) by simp
      then show ?thesis using t(1,3,4) i True b
        by (intro exI [of _ ch'] exI [of _ "t @ i"] exI [of _ y']) (subst from_chunks_loop.simps, simp add: indent_chars_eq indent_spec_append add.assoc)
    next
      case stop: False
      then show ?thesis using t(1,3) less.prems indent_spec_stop [OF stop, of y1]
        by (intro exI [of _ ch] exI [of _ "[]"] exI [of _ y]) (subst from_chunks_loop.simps, simp add: indent_chars_eq)
    qed
  qed
qed

lemma from_chunks_ok:
  assumes "reads_forward ch r w x y z"
  obtains ch' i y' where "from_chunks ch = Some (indent_spec y, ch')" "y = i @ y'" "newline \<notin> set i" "reads_forward ch' r w (x @ i) y' z"
proof -
  obtain ch' i y' where i: "from_chunks ch = Some (indent_spec y, ch')" "y = i @ y'" "indentation i = i" "reads_forward ch' r w (x @ i) y' z"
    using from_chunks_loop_ok [OF assms, of "\<lparr>li_tabs = 0, li_spaces = 0, li_line_blank = True\<rparr>"] by (auto simp: from_chunks_def)
  have "newline \<notin> set i" using i(3) unfolding indentation_def by (metis (mono_tags, lifting) chars_distinct(3,4) set_takeWhileD)
  then show thesis using that i by blast
qed

section \<open>The iterators over rows\<close>

text \<open>Lists numbered upwards and downwards.\<close>

fun numbered :: "u32 \<Rightarrow> 'a list \<Rightarrow> (u32 \<times> 'a) list" where
  "numbered row [] = []"
| "numbered row (x # xs) = (row, x) # numbered (row + 1) xs"

fun countdown :: "u32 \<Rightarrow> 'a list \<Rightarrow> (u32 \<times> 'a) list" where
  "countdown row [] = []"
| "countdown row (x # xs) = (row, x) # countdown (row - 1) xs"

lemma numbered_snoc: "numbered row (xs @ [x]) = numbered row xs @ [(row + of_nat (length xs), x)]"
  by (induction xs arbitrary: row) (simp_all add: add.assoc add.commute)

lemma countdown_rev: "countdown (row + of_nat (length xs) - 1) (rev xs) = rev (numbered row xs)"
  by (induction xs rule: rev_induct) (simp_all add: numbered_snoc)

lemma line_start_append: "line_start a \<Longrightarrow> line_start b \<Longrightarrow> line_start (a @ b)"
  by (cases b rule: rev_cases) (auto simp: line_start_def)

lemma line_start_last: "line_start p \<Longrightarrow> last (split_lines p) = []"
  by (cases p rule: rev_cases) (auto simp: line_start_def split_lines_snoc)

lemma line_indents_loop_ok:
  assumes "reads_forward ch r w x y z"
  shows "line_indents_loop ch row yielded = Some (yielded @ numbered row (map indent_spec (split_lines y)))"
  using assms
proof (induction "length y" arbitrary: ch x y row yielded rule: less_induct)
  case less
  obtain ch1 i y1 where 1: "from_chunks ch = Some (indent_spec y, ch1)" "y = i @ y1" "newline \<notin> set i" "reads_forward ch1 r w (x @ i) y1 z"
    by (rule from_chunks_ok [OF less.prems])
  from next_line_ok [OF 1(4)] obtain ch2 where 2: "next_line ch1 = Some (newline \<in> set y1, ch2)"
    "if newline \<in> set y1 then \<exists>l y'. y1 = l @ newline # y' \<and> newline \<notin> set l \<and> reads_forward ch2 r w ((x @ i) @ l @ [newline]) y' z
       else reads_forward ch2 r w ((x @ i) @ y1) [] z" by blast
  show ?case
  proof (cases "newline \<in> set y1")
    case True
    then obtain l y' where l: "y1 = l @ newline # y'" "newline \<notin> set l" "reads_forward ch2 r w ((x @ i) @ l @ [newline]) y' z" using 2(2) by auto
    have y: "y = (i @ l) @ newline # y'" "newline \<notin> set (i @ l)" using 1(2,3) l(1,2) by simp_all
    have "indent_spec y = indent_spec (i @ l)" unfolding y(1) by (rule indent_spec_line [OF y(2)]) (simp add: line_end_def)
    moreover have "split_lines y = (i @ l) # split_lines y'" unfolding y(1) by (rule split_lines_newline [OF y(2)])
    moreover have "length y' < length y" using y(1) by simp
    ultimately show ?thesis using less.hyps [OF _ l(3)] 1(1) 2(1) True by (subst line_indents_loop.simps) simp
  next
    case False
    then have "split_lines y = [y]" using 1(2,3) split_lines_line [of y] by simp
    then show ?thesis using 1(1) 2(1) False by (subst line_indents_loop.simps) simp
  qed
qed

text \<open>Moving back from the start of a line, and from within it.\<close>

lemma prev_line_within:
  assumes "reads_forward ch r w (x @ i) y z" "line_start (w @ x)" "newline \<notin> set i" "i \<noteq> []"
  shows "\<exists>found ch'. prev_line ch = Some (found, ch') \<and> reads_forward ch' r w x (i @ y) z"
proof -
  have "last i \<noteq> newline" using assms(3,4) last_in_set by metis
  then have "prev_start (w @ x @ i) = w @ x"
    using assms(2-4) by (cases "w @ x" rule: rev_cases) (auto simp: prev_start_def without_newline_append without_newline_def line_start_def simp flip: append_assoc)
  then show ?thesis using prev_line_ok [OF assms(1)] by auto
qed

lemma prev_line_first:
  assumes "reads_forward ch r w [] y z"
  shows "\<exists>ch'. prev_line ch = Some (False, ch')"
proof (cases "w = []")
  case True
  then show ?thesis using prev_line_ok [OF assms] by (auto simp: prev_start_def without_newline_def)
next
  case False
  then obtain l where "l \<noteq> []" "w = prev_start w @ l" using prev_start_prefix by blast
  then have "\<not> str_len w \<le> str_len (prev_start w)" using str_len_pos [of l] by (metis add_le_same_cancel1 leD str_len_simps(3))
  then show ?thesis using prev_line_ok [OF assms] by auto
qed

lemma prev_line_start:
  assumes "reads_forward ch r w (x @ l @ [newline]) y z" "line_start (w @ x)" "newline \<notin> set l"
  shows "\<exists>ch'. prev_line ch = Some (True, ch') \<and> reads_forward ch' r w x (l @ newline # y) z"
proof -
  have "without_newline (w @ x @ l @ [newline]) = (w @ x) @ l" by (simp add: without_newline_def butlast_append)
  then have "prev_start (w @ x @ l @ [newline]) = w @ x"
    using assms(2,3) by (cases "w @ x" rule: rev_cases) (auto simp: prev_start_def line_start_def simp flip: append_assoc)
  then show ?thesis using prev_line_ok [OF assms(1)] by auto
qed

lemma reads_forward_offset: "reads_forward ch r w x y z \<Longrightarrow> ch_offset ch = str_len (w @ x)"
  by (simp add: reads_forward_def chunks_between_def)

lemma reversed_indents_loop_ok:
  assumes "reads_forward ch r w x y z" "line_start w" "line_start x"
  shows "reversed_indents_loop ch row yielded = Some (yielded @ countdown row (map indent_spec (y # rev (butlast (split_lines x)))))"
  using assms(1,3)
proof (induction "length x" arbitrary: ch x y row yielded rule: less_induct)
  case less
  have wx: "line_start (w @ x)" using assms(2) less.prems(2) by (rule line_start_append)
  obtain ch1 i y1 where 1: "from_chunks ch = Some (indent_spec y, ch1)" "y = i @ y1" "newline \<notin> set i" "reads_forward ch1 r w (x @ i) y1 z"
    by (rule from_chunks_ok [OF less.prems(1)])
  have "ch_offset ch1 > ch_offset ch \<longleftrightarrow> i \<noteq> []"
    using reads_forward_offset [OF less.prems(1)] reads_forward_offset [OF 1(4)] str_len_pos [of i] by auto
  then obtain ch2 where 2: "(if ch_offset ch1 > ch_offset ch then map_option snd (prev_line ch1) else Some ch1) = Some ch2" "reads_forward ch2 r w x y z"
    using prev_line_within [OF 1(4) wx 1(3)] 1(2,4) by (cases "i = []") auto
  show ?case
  proof (cases "x = []")
    case True
    then obtain ch3 where "prev_line ch2 = Some (False, ch3)" using prev_line_first 2(2) by blast
    then show ?thesis using 1(1) 2(1) True by (subst reversed_indents_loop.simps) simp
  next
    case False
    then obtain x1 where x1: "x = x1 @ [newline]" using less.prems(2) by (metis append_butlast_last_id line_start_def)
    obtain x0 l where x0: "x1 = x0 @ l" "newline \<notin> set l" "line_start x0" using last_line_split [of x1] by metis
    have "line_start (w @ x0)" using assms(2) x0(3) by (rule line_start_append)
    with prev_line_start [of ch2 r w x0 l y z] obtain ch3 where 3: "prev_line ch2 = Some (True, ch3)" "reads_forward ch3 r w x0 (l @ newline # y) z"
      using 2(2) x1 x0 by auto
    have "length x0 < length x" using x1 x0 by simp
    note ih = less.hyps [OF this 3(2) x0(3)]
    have "indent_spec (l @ newline # y) = indent_spec l" by (rule indent_spec_line [OF x0(2)]) (simp add: line_end_def)
    moreover have "split_lines x = butlast (split_lines x0) @ [l, []]"
      using x1 x0 split_lines_append [of x0 "l @ [newline]"] split_lines_newline [OF x0(2), of "[]"] line_start_last [OF x0(3)] by simp
    ultimately show ?thesis using ih 1(1) 2(1) 3(1) by (subst reversed_indents_loop.simps) (simp add: butlast_append)
  qed
qed

section \<open>Rows of a text\<close>

lemma split_lines_start: "line_start w \<Longrightarrow> split_lines (w @ s) = butlast (split_lines w) @ split_lines s"
  using split_lines_not_Nil [of s] by (cases "split_lines s") (simp_all add: split_lines_append line_start_last)

lemma split_lines_break: "split_lines (t @ newline # u) = split_lines t @ split_lines u"
  using split_lines_not_Nil [of t] by (subst split_lines_append) simp

lemma length_butlast_lines: "length (butlast (split_lines w)) = rows w"
  by (simp add: rows_def)

lemma first_line:
  obtains l z where "s = l @ z" "newline \<notin> set l" "line_end z"
  by (rule split_first_line [of s]) (auto simp: line_end_def intro: that [of s "[]"])

lemma row_at:
  assumes "row \<le> rows s"
  obtains l z where "s = first_rows row s @ l @ z" "newline \<notin> set l" "line_end z" "line_start (first_rows row s)" "rows (first_rows row s) = row"
proof -
  obtain t where t: "s = first_rows row s @ t" using first_rows_split by blast
  obtain l z where "t = l @ z" "newline \<notin> set l" "line_end z" by (rule first_line)
  then show thesis using that [of l z] t first_rows_start [OF assms] by metis
qed

text \<open>The rows from one to another: the text between them, its last line, and its lines.\<close>

lemma rows_between:
  assumes "a \<le> b" "b \<le> rows s"
  obtains x l z where "s = first_rows a s @ x @ l @ z" "first_rows b s = first_rows a s @ x" "newline \<notin> set l" "line_end z" "line_start (first_rows a s)"
    "line_start x" "rows (first_rows a s @ x) = b" "split_lines (x @ l) = take (b + 1 - a) (drop a (split_lines s))" "split_lines (x @ l) = butlast (split_lines x) @ [l]"
    "length (split_lines (x @ l)) = b + 1 - a"
proof -
  define w where "w = first_rows a s"
  obtain l z where l: "s = first_rows b s @ l @ z" "newline \<notin> set l" "line_end z" "line_start (first_rows b s)" "rows (first_rows b s) = b" by (rule row_at [OF assms(2)])
  obtain x where x: "first_rows b s = w @ x" using first_rows_prefix [OF assms(1)] unfolding w_def by blast
  have w: "line_start w" "rows w = a" using first_rows_start [of a s] assms unfolding w_def by auto
  have lx: "line_start x" using l(4) unfolding x by (cases x rule: rev_cases) (auto simp: line_start_def)
  have s: "s = w @ x @ l @ z" using l(1) unfolding x by simp
  have lines: "split_lines (x @ l) = butlast (split_lines x) @ [l]" using split_lines_start [OF lx, of l] split_lines_line [OF l(2)] by simp
  have "rows x + a = b" using l(5) rows_append [of w x] w(2) unfolding x by simp
  then have len: "length (split_lines (x @ l)) = b + 1 - a" unfolding lines using length_butlast_lines [of x] by simp
  have "split_lines ((x @ l) @ z) = split_lines (x @ l) @ tl (split_lines z)"
    using l(3) split_lines_break [of "x @ l" "tl z"] by (cases z) (simp_all add: line_end_def)
  moreover have "split_lines s = butlast (split_lines w) @ split_lines ((x @ l) @ z)" unfolding s using split_lines_start [OF w(1)] by simp
  ultimately have "take (b + 1 - a) (drop a (split_lines s)) = split_lines (x @ l)" using len w(2) length_butlast_lines [of w] by simp
  then show thesis using that [of x l z] s x l(2,3,5) w(1) lx lines len unfolding w_def by simp
qed

lemma row_u32: "rope_ok r \<Longrightarrow> row \<le> rows (rope_str r) \<Longrightarrow> row < 2 ^ 32"
  using rope_fits_text rows_le_str_len le_less_trans by metis

lemma buffer_line_len_ok:
  assumes "rope_ok r" "rope_str r = first_rows row (rope_str r) @ l @ z" "newline \<notin> set l" "line_end z" "line_start (first_rows row (rope_str r))" "rows (first_rows row (rope_str r)) = row"
  shows "buffer_line_len r (of_nat row) = of_nat (str_len l)"
proof -
  define p where "p = first_rows row (rope_str r)"
  have s: "rope_str r = p @ l @ z" "line_start p" "rows p = row" using assms(2,5,6) by (simp_all add: p_def)
  have le: "row \<le> rows (rope_str r)" using s(1,3) by (simp add: rows_append)
  have b: "row < 2 ^ 32" "rows (rope_str r) < 2 ^ 32" using row_u32 [OF assms(1)] le by auto
  have start: "rope_point_to_offset r (Point (of_nat row) 0) = str_len p" using row_offset [OF assms(1) b(1)] by (simp add: p_def)
  have pl: "rows (p @ l) = row" using line_position(2) [OF s(2) assms(3)] s(3) by simp
  have max: "pt_row (max_point r) = of_nat (rows (rope_str r))" using rope_lengths(2) [OF assms(1)] by (simp add: position_def)
  have u: "unat (of_nat row :: u32) = row" "unat (of_nat (rows (rope_str r)) :: u32) = rows (rope_str r)" using b by (simp_all add: of_nat_u32)
  show ?thesis
  proof (cases z)
    case Nil
    then show ?thesis using start rope_lengths(1) [OF assms(1)] s(1) pl max by (simp add: buffer_line_len_def)
  next
    case (Cons c z')
    then have z: "z = newline # z'" using assms(4) by (simp add: line_end_def)
    have more: "row < rows (rope_str r)" using s(1) z pl rows_newline [of "p @ l" z'] by simp
    have "line_start (p @ l @ [newline])" by (simp add: line_start_def)
    then have "position (p @ l @ [newline]) = Point (of_nat row + 1) 0"
      using position_in_row(1) [of "p @ l @ [newline]" "[]" "[]"] rows_newline [of "p @ l" "[]"] pl by (simp add: rows_Nil add.commute)
    then have "rope_point_to_offset r (Point (of_nat row + 1) 0) = str_len (p @ l) + 1"
      using rope_from_point(1) [OF assms(1), of "p @ l @ [newline]" z'] s(1) z by simp
    moreover have "str_is_char_boundary (rope_str r) (str_len (p @ l))" unfolding boundary_iff s(1) by (metis append.assoc)
    then have "str_floor_char_boundary (rope_str r) (str_len (p @ l)) = str_len (p @ l)"
      using floor_boundary(2) [OF order_refl] floor_boundary(3) by (intro antisym)
    ultimately have "to_previous_offset r (Point (of_nat row + 1) 0) = str_len (p @ l)" by (simp add: to_previous_offset_def rope_clip_offset_eq [OF assms(1)])
    moreover have "\<not> pt_row (max_point r) \<le> of_nat row" using more max u by (simp add: word_le_nat_alt)
    ultimately show ?thesis using start by (simp add: buffer_line_len_def)
  qed
qed

lemma row_end_offset:
  assumes "rope_ok r" "rope_str r = first_rows row (rope_str r) @ l @ z" "newline \<notin> set l" "line_end z" "line_start (first_rows row (rope_str r))" "rows (first_rows row (rope_str r)) = row"
  shows "rope_point_to_offset r (Point (of_nat row) (of_nat (str_len l))) = str_len (first_rows row (rope_str r) @ l)"
  using rope_from_point(1) [OF assms(1), of "first_rows row (rope_str r) @ l" z] assms(2,3) position_in_row(1) [OF assms(5), of l "[]"] assms(6) by simp

section \<open>Ranges of rows\<close>

lemma seek_within:
  assumes "reads_forward ch r w x (y @ y') z"
  shows "\<exists>ch'. chunks_seek ch (str_len (w @ x @ y)) = Some ch' \<and> reads_forward ch' r w (x @ y) y' z"
proof -
  have b: "chunks_between ch r w x (y @ y') z" "\<not> ch_reversed ch" using assms by (simp_all add: reads_forward_def)
  obtain pre suf where "cursor_in rope_fits chunk_ops usize_dim (ch_chunks ch) pre suf" "c_did_seek (ch_chunks ch)" "c_tree (ch_chunks ch) = r"
    using assms by (auto simp: reads_forward_def)
  from chunks_seek_forward [OF _ _ _ _ b(2) this, of w "x @ y" y' z] b(1) show ?thesis by (auto simp: chunks_between_def)
qed

lemma forward_indents_ok:
  assumes "rope_ok r" "node_height r < STACK_CAPACITY" "a \<le> b" "b \<le> rows (rope_str r)"
  shows "line_indents_in_row_range r (of_nat a) (of_nat b)
    = Some (numbered (of_nat a) (map indent_spec (take (b + 1 - a) (drop a (split_lines (rope_str r))))))"
proof -
  define w where "w = first_rows a (rope_str r)"
  obtain x l z where s: "rope_str r = w @ x @ l @ z" "first_rows b (rope_str r) = w @ x" "newline \<notin> set l" "line_end z" "line_start w" "line_start x"
    "rows (w @ x) = b" "split_lines (x @ l) = take (b + 1 - a) (drop a (split_lines (rope_str r)))"
    unfolding w_def by (rule rows_between [OF assms(3,4)])
  have row: "rope_str r = first_rows b (rope_str r) @ l @ z" "line_start (first_rows b (rope_str r))" "rows (first_rows b (rope_str r)) = b"
    using s(1,2,7) line_start_append [OF s(5,6)] by simp_all
  have "rope_point_to_offset r (Point (of_nat b) (buffer_line_len r (of_nat b))) = str_len (w @ x @ l)"
    using row_end_offset [OF assms(1) row(1) s(3,4) row(2,3)] buffer_line_len_ok [OF assms(1) row(1) s(3,4) row(2,3)] unfolding s(2) by simp
  moreover have "rope_point_to_offset r (Point (of_nat a) 0) = str_len w" using row_offset [OF assms(1)] row_u32 [OF assms(1)] assms(3,4) by (simp add: w_def)
  moreover obtain ch where "rope_chunks_in_range r (str_len w) (str_len (w @ x @ l)) = Some ch" "reads_forward ch r w [] (x @ l) z"
    using chunks_new_forward [OF assms(1,2), of w "x @ l" z] s(1) by (auto simp: rope_chunks_in_range_def)
  ultimately show ?thesis using line_indents_loop_ok [of ch r w "[]" "x @ l" z "of_nat a" "[]"] s(8) by (simp add: line_indents_in_row_range_def)
qed

lemma reversed_start_ok:
  assumes "rope_ok r" "node_height r < STACK_CAPACITY" "rope_str r = w @ x @ l @ z" "line_start (w @ x)" "newline \<notin> set l"
  shows "\<exists>ch ch1 ch2. rope_chunks_in_range r (str_len w) (str_len (w @ x @ l)) = Some ch \<and> chunks_seek ch (str_len (w @ x @ l)) = Some ch1
    \<and> (if (0 :: u32) < of_nat (str_len l) then map_option snd (prev_line ch1) else Some ch1) = Some ch2 \<and> reads_forward ch2 r w x l z"
proof -
  obtain ch where ch: "rope_chunks_in_range r (str_len w) (str_len (w @ x @ l)) = Some ch" "reads_forward ch r w [] (x @ l) z"
    using chunks_new_forward [OF assms(1,2), of w "x @ l" z] assms(3) by (auto simp: rope_chunks_in_range_def)
  obtain ch1 where 1: "chunks_seek ch (str_len (w @ x @ l)) = Some ch1" "reads_forward ch1 r w (x @ l) [] z"
    using seek_within [of ch r w "[]" "x @ l" "[]" z] ch(2) by auto
  have "str_len l < 2 ^ 32" using rope_fits_text [OF assms(1)] assms(3) by simp
  then have col: "(0 :: u32) < of_nat (str_len l) \<longleftrightarrow> l \<noteq> []" using str_len_pos [of l] by (auto simp: word_less_nat_alt of_nat_u32)
  then show ?thesis using ch(1) 1 prev_line_within [of ch1 r w x l "[]" z] assms(4,5) by (cases "l = []") auto
qed

lemma reversed_indents_ok:
  assumes "rope_ok r" "node_height r < STACK_CAPACITY" "a \<le> b" "b \<le> rows (rope_str r)" "b + 1 < 2 ^ 32"
  shows "reversed_line_indents_in_row_range r (of_nat a) (of_nat (b + 1))
    = Some (rev (numbered (of_nat a) (map indent_spec (take (b + 1 - a) (drop a (split_lines (rope_str r)))))))"
proof -
  define w where "w = first_rows a (rope_str r)"
  define ls where "ls = map indent_spec (take (b + 1 - a) (drop a (split_lines (rope_str r))))"
  obtain x l z where s: "rope_str r = w @ x @ l @ z" "first_rows b (rope_str r) = w @ x" "newline \<notin> set l" "line_end z" "line_start w" "line_start x"
    "rows (w @ x) = b" "split_lines (x @ l) = take (b + 1 - a) (drop a (split_lines (rope_str r)))" "split_lines (x @ l) = butlast (split_lines x) @ [l]"
    "length (split_lines (x @ l)) = b + 1 - a" unfolding w_def by (rule rows_between [OF assms(3,4)])
  note wx = line_start_append [OF s(5,6)]
  have row: "rope_str r = first_rows b (rope_str r) @ l @ z" "line_start (first_rows b (rope_str r))" "rows (first_rows b (rope_str r)) = b" using s(1,2,7) wx by simp_all
  note len = buffer_line_len_ok [OF assms(1) row(1) s(3,4) row(2,3)]
  have ends: "rope_point_to_offset r (Point (of_nat b) (of_nat (str_len l))) = str_len (w @ x @ l)"
    using row_end_offset [OF assms(1) row(1) s(3,4) row(2,3)] unfolding s(2) by simp
  have start: "rope_point_to_offset r (Point (of_nat a) 0) = str_len w" using row_offset [OF assms(1), of a] assms(3,5) by (simp add: w_def)
  obtain ch ch1 ch2 where ch: "rope_chunks_in_range r (str_len w) (str_len (w @ x @ l)) = Some ch" "chunks_seek ch (str_len (w @ x @ l)) = Some ch1"
    "(if (0 :: u32) < of_nat (str_len l) then map_option snd (prev_line ch1) else Some ch1) = Some ch2" "reads_forward ch2 r w x l z"
    using reversed_start_ok [OF assms(1,2) s(1) wx s(3)] by blast
  have "unat (of_nat (b + 1) :: u32) = b + 1" "unat (of_nat a :: u32) = a" using assms(3,5) by (simp_all only: of_nat_u32(1))
  then have lt: "(of_nat a :: u32) < of_nat (b + 1)" using assms(3) by (simp only: word_less_nat_alt)
  have eq: "(of_nat (b + 1) :: u32) - 1 = of_nat b" by simp
  have "(of_nat a + of_nat (length ls) - 1 :: u32) = of_nat b" using assms(3) s(8,10) by (simp add: ls_def of_nat_diff)
  moreover have "map indent_spec (l # rev (butlast (split_lines x))) = rev ls" unfolding ls_def s(8) [symmetric] s(9) by (simp add: rev_map)
  ultimately have "reversed_indents_loop ch2 (of_nat b) [] = Some (rev (numbered (of_nat a) ls))"
    using reversed_indents_loop_ok [OF ch(4) s(5,6), of "of_nat b" "[]"] countdown_rev [of "of_nat a" ls] by simp
  then have "reversed_line_indents_in_row_range r (of_nat a) (of_nat (b + 1)) = Some (rev (numbered (of_nat a) ls))"
    unfolding reversed_line_indents_in_row_range_def Let_def eq using lt start len ends ch(1-3) by simp
  then show ?thesis by (simp add: ls_def)
qed

lemma row_indent_ok:
  assumes "rope_ok r" "node_height r < STACK_CAPACITY" "b \<le> rows (rope_str r)"
  shows "line_indent_for_row r (of_nat b) = Some (indent_spec (split_lines (rope_str r) ! b))"
    "buffer_line_len r (of_nat b) = of_nat (str_len (split_lines (rope_str r) ! b))"
proof -
  define p where "p = first_rows b (rope_str r)"
  obtain l z where s: "rope_str r = p @ l @ z" "newline \<notin> set l" "line_end z" "line_start p" "rows p = b" unfolding p_def by (rule row_at [OF assms(3)])
  have l: "split_lines (rope_str r) ! b = l" using nth_line [OF s(4,2,3)] s(1,5) by simp
  have "chars_at r (str_len p) = Some (l @ z)" using rope_text_ok(2) [OF assms(1,2) s(1)] .
  moreover have "rope_point_to_offset r (Point (of_nat b) 0) = str_len p" using row_offset [OF assms(1)] row_u32 [OF assms(1,3)] by (simp add: p_def)
  ultimately show "line_indent_for_row r (of_nat b) = Some (indent_spec (split_lines (rope_str r) ! b))"
    using l indent_spec_line [OF s(2,3)] by (simp add: line_indent_for_row_def indent_from_iter_eq)
  show "buffer_line_len r (of_nat b) = of_nat (str_len (split_lines (rope_str r) ! b))"
    using l buffer_line_len_ok [OF assms(1) s(1) [unfolded p_def] s(2,3) s(4) [unfolded p_def] s(5) [unfolded p_def]] by simp
qed

section \<open>Properties\<close>

text \<open>
  C16: the indents of rows. A line's indent counts the tabs and the spaces before its first other character and tells
  whether there is one. Read from the pieces of a rope, for one row or for a range of rows forward or
  backward, it is that of the line itself, wherever the chunks are cut, and every row of the range appears once with its
  number: the forward iterator includes the last row of its range, the reversed one excludes it. \<open>line_len\<close> of
  a snapshot is the length of the row.
\<close>

theorem line_indents_by_row:
  assumes "rope_ok r" "node_height r < STACK_CAPACITY" "a \<le> b" "b \<le> rows (rope_str r)" "b + 1 < 2 ^ 32"
  shows "line_indents_in_row_range r (of_nat a) (of_nat b)
      = Some (numbered (of_nat a) (map indent_spec (take (b + 1 - a) (drop a (split_lines (rope_str r))))))
    \<and> reversed_line_indents_in_row_range r (of_nat a) (of_nat (b + 1))
      = Some (rev (numbered (of_nat a) (map indent_spec (take (b + 1 - a) (drop a (split_lines (rope_str r)))))))
    \<and> line_indent_for_row r (of_nat b) = Some (indent_spec (split_lines (rope_str r) ! b))
    \<and> buffer_line_len r (of_nat b) = of_nat (str_len (split_lines (rope_str r) ! b))"
  using forward_indents_ok [OF assms(1-4)] reversed_indents_ok [OF assms] row_indent_ok [OF assms(1,2,4)] by simp

theorem line_indents_by_row_witness:
  "\<exists>r. push_chunk sequential_packages rope_new (slice_of [97, newline, tab, 98, newline, space, space]) = Some r
    \<and> line_indents_in_row_range r 1 2 = Some [(1, \<lparr>li_tabs = 1, li_spaces = 0, li_line_blank = False\<rparr>), (2, \<lparr>li_tabs = 0, li_spaces = 2, li_line_blank = True\<rparr>)]"
proof -
  let ?s = "[97, newline, tab, 98, newline, space, space]"
  have v: "valid_str ?s" "str_len ?s = 7" "rows ?s = 2" "split_lines ?s = [[97], [tab, 98], [space, space]]"
    by (simp_all add: newline_def tab_def space_def len_utf8_def rows_def)
  obtain r where r: "push_chunk sequential_packages rope_new (slice_of ?s) = Some r" "rope_ok r" "rope_str r = ?s" "node_height r \<le> 1"
    by (rule small_rope [of ?s]) (use v in auto)
  have h: "node_height r < STACK_CAPACITY" "(1::nat) \<le> 2" "2 \<le> rows (rope_str r)" "(2::nat) + 1 < 2 ^ 32" using r(3,4) v by (simp_all add: STACK_CAPACITY_def)
  have i: "indent_spec [tab, 98] = \<lparr>li_tabs = 1, li_spaces = 0, li_line_blank = False\<rparr>" "indent_spec [space, space] = \<lparr>li_tabs = 0, li_spaces = 2, li_line_blank = True\<rparr>"
    by (simp_all add: indent_spec_def line_end_def tab_def space_def newline_def)
  show ?thesis using line_indents_by_row [OF r(2) h] r(1,3) v(4) i by simp
qed

text \<open>
  The reversed iterator yields an indent even for an empty range of rows: that of an empty text, under the number of the row at
  which the range starts, whatever that row holds.
\<close>

theorem reversed_indents_empty_range:
  assumes "rope_ok r" "node_height r < STACK_CAPACITY" "a \<le> rows (rope_str r)"
  shows "reversed_line_indents_in_row_range r (of_nat a) (of_nat a) = Some [(of_nat a, indent_spec [])]"
proof -
  define w where "w = first_rows a (rope_str r)"
  obtain z where z: "rope_str r = w @ [] @ [] @ z" using first_rows_split unfolding w_def by simp blast
  have w: "line_start w" using first_rows_start [OF assms(3)] by (simp add: w_def)
  have start: "rope_point_to_offset r (Point (of_nat a) 0) = str_len w" using row_offset [OF assms(1)] row_u32 [OF assms(1,3)] by (simp add: w_def)
  obtain ch ch1 where "rope_chunks_in_range r (str_len w) (str_len w) = Some ch" "chunks_seek ch (str_len w) = Some ch1" "reads_forward ch1 r w [] [] z"
    using reversed_start_ok [OF assms(1,2) z] w by auto
  then show ?thesis using start reversed_indents_loop_ok [of ch1 r w "[]" "[]" z "of_nat a" "[]"] w
    by (simp add: reversed_line_indents_in_row_range_def line_start_def)
qed

end
