(* ===== verification/LineDiff.thy ===== *)
theory LineDiff
  imports StreamingDiff RopeLines
begin

text \<open>
  The line differ of \<open>crates/streaming_diff\<close>: from the character operations of a streaming diff it works out which rows
  of the old text were deleted and which rows of the new one inserted, and turns them into operations on lines.
\<close>

section \<open>Data\<close>

datatype line_operation = InsertLines u32 | DeleteLines u32 | KeepLines u32

text \<open>The ordered sets of rows are finite sets; iterating over one goes through its sorted list.\<close>

record line_diff =
  ld_inserted_newline_at_end :: bool
  ld_old_end :: point
  ld_new_end :: point
  ld_deleted_rows :: "u32 set"
  ld_inserted_rows :: "u32 set"
  ld_buffered_insert :: rstr
  ld_buffered_delete :: nat

definition line_diff_default :: line_diff where
  "line_diff_default = \<lparr>ld_inserted_newline_at_end = False, ld_old_end = point_zero, ld_new_end = point_zero,
     ld_deleted_rows = {}, ld_inserted_rows = {}, ld_buffered_insert = [], ld_buffered_delete = 0\<rparr>"

definition is_line_start :: "point \<Rightarrow> bool" where
  "is_line_start point \<longleftrightarrow> pt_column point = 0"

text \<open>The length of a line comes from clipping, which asks the grapheme segmentation for boundaries.\<close>

definition is_line_end :: "(rstr \<Rightarrow> nat \<Rightarrow> bool) \<Rightarrow> point \<Rightarrow> rope \<Rightarrow> bool rust" where
  "is_line_end is_grapheme point text = map_option (\<lambda>len. len = pt_column point) (line_len is_grapheme text (pt_row point))"

section \<open>Operations\<close>

definition flush_insert :: "(rstr \<Rightarrow> nat \<Rightarrow> bool) \<Rightarrow> line_diff \<Rightarrow> rope \<Rightarrow> line_diff rust" where
  "flush_insert is_grapheme self old_text =
     (if ld_buffered_insert self = [] then Some self
      else do {
        let new_start = ld_new_end self;
        let lines = ts_lines (text_summary_from (ld_buffered_insert self));
        let self = self\<lparr>ld_new_end := point_add new_start lines\<rparr>;
        let new_end = ld_new_end self;
        let old_row = pt_row (ld_old_end self);
        at_end \<leftarrow> (if is_line_start (ld_old_end self) then Some False else is_line_end is_grapheme (ld_old_end self) old_text);
        let self =
          (if is_line_start (ld_old_end self) then
             if pt_column new_end = 0
             then self\<lparr>ld_inserted_rows := ld_inserted_rows self \<union> {pt_row new_start..<pt_row new_end}\<rparr>
             else self\<lparr>ld_deleted_rows := insert old_row (ld_deleted_rows self),
                       ld_inserted_rows := ld_inserted_rows self \<union> {pt_row new_start..pt_row new_end}\<rparr>
           else if at_end then
             if str_starts_with (ld_buffered_insert self) [newline]
             then self\<lparr>ld_inserted_rows := ld_inserted_rows self \<union> {pt_row new_start + 1..pt_row new_end},
                       ld_inserted_newline_at_end := True\<rparr>
             else self\<lparr>ld_deleted_rows := (if ld_inserted_newline_at_end self then ld_deleted_rows self
                                            else insert old_row (ld_deleted_rows self)),
                       ld_inserted_rows := ld_inserted_rows self \<union> {pt_row new_start..pt_row new_end}\<rparr>
           else self\<lparr>ld_deleted_rows := insert old_row (ld_deleted_rows self),
                     ld_inserted_rows := ld_inserted_rows self \<union> {pt_row new_start..pt_row new_end}\<rparr>);
        Some (self\<lparr>ld_buffered_insert := []\<rparr>)
      })"

definition flush_delete :: "(rstr \<Rightarrow> nat \<Rightarrow> bool) \<Rightarrow> line_diff \<Rightarrow> rope \<Rightarrow> line_diff rust" where
  "flush_delete is_grapheme self old_text =
     (if ld_buffered_delete self = 0 then Some self
      else do {
        let old_start = ld_old_end self;
        let old_end = rope_offset_to_point old_text (rope_point_to_offset old_text old_start + ld_buffered_delete self);
        let self = self\<lparr>ld_old_end := old_end\<rparr>;
        start_at_end \<leftarrow> is_line_end is_grapheme old_start old_text;
        end_at_end \<leftarrow> (if start_at_end then is_line_end is_grapheme old_end old_text else Some False);
        let self =
          (if start_at_end \<and> end_at_end
           then self\<lparr>ld_deleted_rows := ld_deleted_rows self \<union> {pt_row old_start + 1..pt_row old_end}\<rparr>
           else if is_line_start old_start \<and> (is_line_start old_end \<and> old_end < max_point old_text) \<and> pt_column (ld_new_end self) = 0
           then self\<lparr>ld_deleted_rows := ld_deleted_rows self \<union> {pt_row old_start..<pt_row old_end}\<rparr>
           else self\<lparr>ld_inserted_rows := insert (pt_row (ld_new_end self)) (ld_inserted_rows self),
                     ld_deleted_rows := ld_deleted_rows self \<union> {pt_row old_start..pt_row old_end}\<rparr>);
        Some (self\<lparr>ld_inserted_newline_at_end := False, ld_buffered_delete := 0\<rparr>)
      })"

definition keep_bytes :: "line_diff \<Rightarrow> nat \<Rightarrow> rope \<Rightarrow> line_diff" where
  "keep_bytes self bytes old_text =
     (if bytes = 0 then self
      else
        let lines = point_sub (rope_offset_to_point old_text (rope_point_to_offset old_text (ld_old_end self) + bytes)) (ld_old_end self)
        in self\<lparr>ld_old_end := point_add (ld_old_end self) lines, ld_new_end := point_add (ld_new_end self) lines,
             ld_inserted_newline_at_end := False\<rparr>)"

text \<open>
  The loop over \<open>new_chars.zip(old_chars)\<close>. The old characters are those of one piece after the other, each piece from
  its end; the next piece is read only when a character of it is asked for.
\<close>

partial_function (option) trim_loop :: "rope_chunks \<Rightarrow> rstr \<Rightarrow> rstr \<Rightarrow> nat \<Rightarrow> nat rust" where
  "trim_loop chunks old_chars new_chars common_suffix_len =
     (case new_chars of
        [] \<Rightarrow> Some common_suffix_len
      | new_ch # new_rest \<Rightarrow>
          (case old_chars of
             [] \<Rightarrow> do {
               (item, chunks) \<leftarrow> chunks_next chunks;
               (case item of
                  None \<Rightarrow> Some common_suffix_len
                | Some chunk \<Rightarrow> trim_loop chunks (rev chunk) new_chars common_suffix_len) }
           | old_ch # old_rest \<Rightarrow>
               if new_ch = old_ch then trim_loop chunks old_rest new_rest (common_suffix_len + len_utf8 new_ch)
               else Some common_suffix_len))"

definition trim_buffered_end :: "line_diff \<Rightarrow> rope \<Rightarrow> (nat \<times> line_diff) rust" where
  "trim_buffered_end self old_text = do {
     let old_start_offset = rope_point_to_offset old_text (ld_old_end self);
     let old_end_offset = old_start_offset + ld_buffered_delete self;
     chunks \<leftarrow> rope_chunks_in_range old_text old_start_offset old_end_offset;
     common_suffix_len \<leftarrow> trim_loop chunks [] (rev (ld_buffered_insert self)) 0;
     let self = self\<lparr>ld_buffered_delete := usize_sub (ld_buffered_delete self) common_suffix_len\<rparr>;
     (buffered_insert, _) \<leftarrow> str_split_at (ld_buffered_insert self) (usize_sub (str_len (ld_buffered_insert self)) common_suffix_len);
     Some (common_suffix_len, self\<lparr>ld_buffered_insert := buffered_insert\<rparr>)
   }"

definition buffer_insert :: "line_diff \<Rightarrow> rstr \<Rightarrow> line_diff" where
  "buffer_insert self s = self\<lparr>ld_buffered_insert := ld_buffered_insert self @ s\<rparr>"

definition push_char_operation :: "(rstr \<Rightarrow> nat \<Rightarrow> bool) \<Rightarrow> line_diff \<Rightarrow> char_operation \<Rightarrow> rope \<Rightarrow> line_diff rust" where
  "push_char_operation is_grapheme self operation old_text =
     (case operation of
        InsertText t \<Rightarrow> do {
          self \<leftarrow> flush_delete is_grapheme self old_text;
          if is_line_start (ld_old_end self) then
            (case str_rfind newline t of
               Some newline_ix \<Rightarrow> do {
                 (prefix, suffix) \<leftarrow> str_split_at t (newline_ix + 1);
                 self \<leftarrow> flush_insert is_grapheme (buffer_insert self prefix) old_text;
                 Some (buffer_insert self suffix) }
             | None \<Rightarrow> Some (buffer_insert self t))
          else do {
            let self = buffer_insert self t;
            if \<not> str_ends_with t [newline] then flush_insert is_grapheme self old_text else Some self
          } }
      | DeleteBytes bytes \<Rightarrow> do {
          let self = self\<lparr>ld_buffered_delete := ld_buffered_delete self + bytes\<rparr>;
          (common_suffix_len, self) \<leftarrow> trim_buffered_end self old_text;
          self \<leftarrow> flush_insert is_grapheme self old_text;
          flush \<leftarrow> (if common_suffix_len > 0 then Some True
                    else map_option Not (is_line_end is_grapheme (ld_old_end self) old_text));
          if flush then do {
            self \<leftarrow> flush_delete is_grapheme self old_text;
            Some (keep_bytes self common_suffix_len old_text)
          } else Some self }
      | KeepBytes bytes \<Rightarrow> do {
          self \<leftarrow> flush_delete is_grapheme self old_text;
          self \<leftarrow> flush_insert is_grapheme self old_text;
          Some (keep_bytes self bytes old_text) })"

fun push_char_operations :: "(rstr \<Rightarrow> nat \<Rightarrow> bool) \<Rightarrow> line_diff \<Rightarrow> char_operation list \<Rightarrow> rope \<Rightarrow> line_diff rust" where
  "push_char_operations is_grapheme self [] old_text = Some self"
| "push_char_operations is_grapheme self (operation # operations) old_text = do {
     self \<leftarrow> push_char_operation is_grapheme self operation old_text;
     push_char_operations is_grapheme self operations old_text
   }"

definition ld_finish :: "(rstr \<Rightarrow> nat \<Rightarrow> bool) \<Rightarrow> line_diff \<Rightarrow> rope \<Rightarrow> line_diff rust" where
  "ld_finish is_grapheme self old_text = do {
     self \<leftarrow> flush_insert is_grapheme self old_text;
     self \<leftarrow> flush_delete is_grapheme self old_text;
     let old_start = ld_old_end self;
     let self = self\<lparr>ld_old_end := max_point old_text\<rparr>;
     Some (self\<lparr>ld_new_end := point_add (ld_new_end self) (point_sub (ld_old_end self) old_start)\<rparr>)
   }"

text \<open>
  \<open>line_operations\<close> walks through the rows of both texts. The rows to come are the rests of the two sorted lists; the
  operation pushed last is extended when it is of the same kind. At least one line is kept at a time, so the
  guard \<open>kept_lines > 0\<close> always holds.
\<close>

definition push_deleted :: "line_operation list \<Rightarrow> line_operation list" where
  "push_deleted ops = (case last_opt ops of Some (DeleteLines lines) \<Rightarrow> butlast ops @ [DeleteLines (lines + 1)] | _ \<Rightarrow> ops @ [DeleteLines 1])"

definition push_inserted :: "line_operation list \<Rightarrow> line_operation list" where
  "push_inserted ops = (case last_opt ops of Some (InsertLines lines) \<Rightarrow> butlast ops @ [InsertLines (lines + 1)] | _ \<Rightarrow> ops @ [InsertLines 1])"

definition kept_lines :: "u32 \<Rightarrow> u32 \<Rightarrow> u32 list \<Rightarrow> u32 list \<Rightarrow> u32 \<Rightarrow> u32 \<Rightarrow> u32" where
  "kept_lines old_end_row new_end_row deleted_rows inserted_rows old_row new_row =
     (let lines_to_next_deletion = (case inserted_rows of [] \<Rightarrow> new_end_row + 1 | row # _ \<Rightarrow> row) - new_row;
          lines_to_next_insertion = (case deleted_rows of [] \<Rightarrow> old_end_row + 1 | row # _ \<Rightarrow> row) - old_row
      in max 1 (min lines_to_next_insertion lines_to_next_deletion))"

function line_ops_loop :: "u32 \<Rightarrow> u32 \<Rightarrow> u32 list \<Rightarrow> u32 list \<Rightarrow> u32 \<Rightarrow> u32 \<Rightarrow> line_operation list \<Rightarrow> line_operation list \<times> u32" where
  "line_ops_loop old_end_row new_end_row deleted_rows inserted_rows old_row new_row ops =
     (if deleted_rows = [] \<and> inserted_rows = [] then (ops, old_row)
      else if first_opt deleted_rows = Some old_row
      then line_ops_loop old_end_row new_end_row (tl deleted_rows) inserted_rows (old_row + 1) new_row (push_deleted ops)
      else if first_opt inserted_rows = Some new_row
      then line_ops_loop old_end_row new_end_row deleted_rows (tl inserted_rows) old_row (new_row + 1) (push_inserted ops)
      else
        let kept = kept_lines old_end_row new_end_row deleted_rows inserted_rows old_row new_row
        in line_ops_loop old_end_row new_end_row deleted_rows inserted_rows (old_row + kept) (new_row + kept) (ops @ [KeepLines kept]))"
  by pat_completeness auto

definition line_operations :: "line_diff \<Rightarrow> line_operation list" where
  "line_operations self =
     (let (ops, old_row) = line_ops_loop (pt_row (ld_old_end self)) (pt_row (ld_new_end self))
            (sorted_list_of_set (ld_deleted_rows self)) (sorted_list_of_set (ld_inserted_rows self)) 0 0 []
      in if old_row < pt_row (ld_old_end self) + 1 then ops @ [KeepLines (pt_row (ld_old_end self) + 1 - old_row)] else ops)"

section \<open>The walk through the rows ends\<close>

lemma kept_bound:
  fixes a b :: u32
  assumes "a \<noteq> 0" "k = max 1 (min a b) \<or> k = max 1 (min b a)"
  shows "1 \<le> k" "k \<le> a"
proof -
  have "1 \<le> a" using assms(1) by (simp add: word_le_nat_alt unat_gt_0 Suc_le_eq)
  then show "1 \<le> k" "k \<le> a" using assms(2) by (auto simp: min_def max_def)
qed

lemma kept_lines_le:
  "deleted_rows = row # rs \<Longrightarrow> row \<noteq> old_row \<Longrightarrow> kept_lines a b deleted_rows inserted_rows old_row new_row \<le> row - old_row"
  "inserted_rows = row # rs \<Longrightarrow> row \<noteq> new_row \<Longrightarrow> kept_lines a b deleted_rows inserted_rows old_row new_row \<le> row - new_row"
  "1 \<le> kept_lines a b deleted_rows inserted_rows old_row new_row"
proof -
  show "kept_lines a b deleted_rows inserted_rows old_row new_row \<le> row - old_row" if "deleted_rows = row # rs" "row \<noteq> old_row"
    unfolding kept_lines_def Let_def that(1) list.case using that(2) by (intro kept_bound(2) [OF _ disjI1 [OF refl]]) simp
  show "kept_lines a b deleted_rows inserted_rows old_row new_row \<le> row - new_row" if "inserted_rows = row # rs" "row \<noteq> new_row"
    unfolding kept_lines_def Let_def that(1) list.case using that(2) by (intro kept_bound(2) [OF _ disjI2 [OF refl]]) simp
  show "1 \<le> kept_lines a b deleted_rows inserted_rows old_row new_row" by (simp add: kept_lines_def Let_def)
qed

lemma closer:
  fixes k row at :: u32
  assumes "1 \<le> k" "k \<le> row - at"
  shows "unat (row - (at + k)) < unat (row - at)"
proof -
  have "unat (row - (at + k)) = unat (row - at) - unat k" using unat_sub [OF assms(2)] by (simp add: diff_diff_eq)
  moreover have "0 < unat k" "unat k \<le> unat (row - at)" using assms by (simp_all add: word_le_nat_alt)
  ultimately show ?thesis by simp
qed

termination line_ops_loop
proof (relation "measures [\<lambda>(_, _, d, i, _, _, _). length d + length i,
    \<lambda>(_, _, d, i, old_row, new_row, _). case d of row # _ \<Rightarrow> unat (row - old_row) | [] \<Rightarrow> (case i of row # _ \<Rightarrow> unat (row - new_row) | [] \<Rightarrow> 0)]", goal_cases)
  case 4
  then show ?case using closer [OF kept_lines_le(3) kept_lines_le(1)] closer [OF kept_lines_le(3) kept_lines_le(2)]
    by (auto simp: first_opt_def split: list.splits)
qed (auto simp: first_opt_def split: list.splits)

declare line_ops_loop.simps [simp del]

section \<open>What the line operations say\<close>

text \<open>The rows that a list of operations deletes and inserts, and the rows of either text that it walks over.\<close>

fun deletes_rows :: "nat \<Rightarrow> line_operation list \<Rightarrow> nat set" where
  "deletes_rows row [] = {}"
| "deletes_rows row (InsertLines n # ops) = deletes_rows row ops"
| "deletes_rows row (DeleteLines n # ops) = {row..<row + unat n} \<union> deletes_rows (row + unat n) ops"
| "deletes_rows row (KeepLines n # ops) = deletes_rows (row + unat n) ops"

fun inserts_rows :: "nat \<Rightarrow> line_operation list \<Rightarrow> nat set" where
  "inserts_rows row [] = {}"
| "inserts_rows row (InsertLines n # ops) = {row..<row + unat n} \<union> inserts_rows (row + unat n) ops"
| "inserts_rows row (DeleteLines n # ops) = inserts_rows row ops"
| "inserts_rows row (KeepLines n # ops) = inserts_rows (row + unat n) ops"

fun old_walked :: "line_operation list \<Rightarrow> nat" where
  "old_walked [] = 0"
| "old_walked (InsertLines n # ops) = old_walked ops"
| "old_walked (DeleteLines n # ops) = unat n + old_walked ops"
| "old_walked (KeepLines n # ops) = unat n + old_walked ops"

fun new_walked :: "line_operation list \<Rightarrow> nat" where
  "new_walked [] = 0"
| "new_walked (InsertLines n # ops) = unat n + new_walked ops"
| "new_walked (DeleteLines n # ops) = new_walked ops"
| "new_walked (KeepLines n # ops) = unat n + new_walked ops"

lemma walk_append:
  "deletes_rows row (ops @ ops') = deletes_rows row ops \<union> deletes_rows (row + old_walked ops) ops'"
  "inserts_rows row (ops @ ops') = inserts_rows row ops \<union> inserts_rows (row + new_walked ops) ops'"
  "old_walked (ops @ ops') = old_walked ops + old_walked ops'" "new_walked (ops @ ops') = new_walked ops + new_walked ops'"
proof -
  show "deletes_rows row (ops @ ops') = deletes_rows row ops \<union> deletes_rows (row + old_walked ops) ops'"
    by (induction row ops rule: deletes_rows.induct) (auto simp: add.assoc)
  show "inserts_rows row (ops @ ops') = inserts_rows row ops \<union> inserts_rows (row + new_walked ops) ops'"
    by (induction row ops rule: inserts_rows.induct) (auto simp: add.assoc)
  show "old_walked (ops @ ops') = old_walked ops + old_walked ops'" by (induction ops rule: old_walked.induct) auto
  show "new_walked (ops @ ops') = new_walked ops + new_walked ops'" by (induction ops rule: new_walked.induct) auto
qed

lemma unat_Suc_u32: "unat n < 2 ^ 32 - 1 \<Longrightarrow> unat (n + 1 :: u32) = Suc (unat n)"
  by (simp add: unat_word_ariths)

lemma push_deleted_walk:
  assumes "old_walked ops < 2 ^ 32 - 1"
  shows "deletes_rows 0 (push_deleted ops) = insert (old_walked ops) (deletes_rows 0 ops)" "inserts_rows 0 (push_deleted ops) = inserts_rows 0 ops"
    "old_walked (push_deleted ops) = Suc (old_walked ops)" "new_walked (push_deleted ops) = new_walked ops"
proof -
  have "deletes_rows 0 (push_deleted ops) = insert (old_walked ops) (deletes_rows 0 ops) \<and> inserts_rows 0 (push_deleted ops) = inserts_rows 0 ops
    \<and> old_walked (push_deleted ops) = Suc (old_walked ops) \<and> new_walked (push_deleted ops) = new_walked ops"
  proof (cases "\<exists>us n. ops = us @ [DeleteLines n]")
    case True
    then obtain us n where "ops = us @ [DeleteLines n]" by blast
    then show ?thesis using assms unat_Suc_u32 [of n] by (auto simp: push_deleted_def last_opt_def walk_append)
  next
    case False
    then have "push_deleted ops = ops @ [DeleteLines 1]"
      by (cases ops rule: rev_cases) (auto simp: push_deleted_def last_opt_def split: line_operation.splits)
    then show ?thesis by (simp add: walk_append)
  qed
  then show "deletes_rows 0 (push_deleted ops) = insert (old_walked ops) (deletes_rows 0 ops)" "inserts_rows 0 (push_deleted ops) = inserts_rows 0 ops"
    "old_walked (push_deleted ops) = Suc (old_walked ops)" "new_walked (push_deleted ops) = new_walked ops" by auto
qed

lemma push_inserted_walk:
  assumes "new_walked ops < 2 ^ 32 - 1"
  shows "inserts_rows 0 (push_inserted ops) = insert (new_walked ops) (inserts_rows 0 ops)" "deletes_rows 0 (push_inserted ops) = deletes_rows 0 ops"
    "new_walked (push_inserted ops) = Suc (new_walked ops)" "old_walked (push_inserted ops) = old_walked ops"
proof -
  have "inserts_rows 0 (push_inserted ops) = insert (new_walked ops) (inserts_rows 0 ops) \<and> deletes_rows 0 (push_inserted ops) = deletes_rows 0 ops
    \<and> new_walked (push_inserted ops) = Suc (new_walked ops) \<and> old_walked (push_inserted ops) = old_walked ops"
  proof (cases "\<exists>us n. ops = us @ [InsertLines n]")
    case True
    then obtain us n where "ops = us @ [InsertLines n]" by blast
    then show ?thesis using assms unat_Suc_u32 [of n] by (auto simp: push_inserted_def last_opt_def walk_append)
  next
    case False
    then have "push_inserted ops = ops @ [InsertLines 1]"
      by (cases ops rule: rev_cases) (auto simp: push_inserted_def last_opt_def split: line_operation.splits)
    then show ?thesis by (simp add: walk_append)
  qed
  then show "inserts_rows 0 (push_inserted ops) = insert (new_walked ops) (inserts_rows 0 ops)" "deletes_rows 0 (push_inserted ops) = deletes_rows 0 ops"
    "new_walked (push_inserted ops) = Suc (new_walked ops)" "old_walked (push_inserted ops) = old_walked ops" by auto
qed

text \<open>The rows still to come lie at or behind the row reached, and the operations walk up to it.\<close>

definition walk_ok :: "u32 list \<Rightarrow> u32 \<Rightarrow> nat \<Rightarrow> bool" where
  "walk_ok todo row walked \<longleftrightarrow> sorted_wrt (<) todo \<and> - 1 \<notin> set todo \<and> (\<forall>r \<in> set todo. row \<le> r) \<and> (todo \<noteq> [] \<longrightarrow> walked = unat row)"

lemma walk_ok_next:
  assumes "walk_ok (row # todo) row walked"
  shows "walk_ok todo (row + 1) (Suc walked)" "walked < 2 ^ 32 - 1" "walked = unat row"
proof -
  have "unat (- 1 :: u32) = 2 ^ 32 - 1" by (simp add: unat_eq_nat_uint uint_word_ariths)
  moreover have "row \<noteq> - 1" using assms by (auto simp: walk_ok_def)
  ultimately have "unat row \<noteq> 2 ^ 32 - 1" by (metis word_unat_eq_iff)
  then have lt: "unat row < 2 ^ 32 - 1" using unat_bound [of row] by simp
  then have u: "unat (row + 1) = Suc (unat row)" by (rule unat_Suc_u32)
  have "row + 1 \<le> r" if "row < r" for r using that u by (simp add: word_le_nat_alt word_less_nat_alt)
  then show "walk_ok todo (row + 1) (Suc walked)" "walked < 2 ^ 32 - 1" "walked = unat row" using assms lt u by (auto simp: walk_ok_def)
qed

lemma walk_ok_keep:
  assumes "walk_ok todo row walked" "\<And>r rs. todo = r # rs \<Longrightarrow> k \<le> r - row"
  shows "walk_ok todo (row + k) (walked + unat k)"
proof (cases todo)
  case (Cons r rs)
  have k: "k \<le> r - row" "row \<le> r" using assms Cons by (auto simp: walk_ok_def)
  then have "unat k \<le> unat r - unat row" by (simp add: word_le_nat_alt unat_sub)
  then have le: "unat row + unat k \<le> unat r" using k(2) by (simp add: word_le_nat_alt)
  then have u: "unat (row + k) = unat row + unat k" using unat_bound [of r] by (simp add: unat_word_ariths)
  then have "row + k \<le> r" using le by (simp add: word_le_nat_alt)
  then show ?thesis using assms(1) Cons u by (auto simp: walk_ok_def)
qed (simp add: walk_ok_def)

lemma line_ops_loop_covers:
  assumes "walk_ok deleted old_row (old_walked ops)" "walk_ok inserted new_row (new_walked ops)"
  shows "deletes_rows 0 (fst (line_ops_loop a b deleted inserted old_row new_row ops)) = deletes_rows 0 ops \<union> unat ` set deleted
    \<and> inserts_rows 0 (fst (line_ops_loop a b deleted inserted old_row new_row ops)) = inserts_rows 0 ops \<union> unat ` set inserted"
  using assms
proof (induction a b deleted inserted old_row new_row ops rule: line_ops_loop.induct)
  case (1 a b deleted inserted old_row new_row ops)
  let ?k = "kept_lines a b deleted inserted old_row new_row"
  consider (stop) "deleted = []" "inserted = []" | (del) ds where "deleted = old_row # ds"
    | (ins) ns where "inserted = new_row # ns" "first_opt deleted \<noteq> Some old_row"
    | (keep) "\<not> (deleted = [] \<and> inserted = [])" "first_opt deleted \<noteq> Some old_row" "first_opt inserted \<noteq> Some new_row"
    by (cases deleted; cases inserted) (auto simp: first_opt_def)
  then show ?case
  proof cases
    case stop
    then show ?thesis by (simp add: line_ops_loop.simps)
  next
    case del
    note n = walk_ok_next [OF "1.prems"(1) [unfolded del]]
    note p = push_deleted_walk [OF n(2)]
    have "walk_ok ds (old_row + 1) (old_walked (push_deleted ops))" "walk_ok inserted new_row (new_walked (push_deleted ops))" using n p "1.prems"(2) by simp_all
    then show ?thesis using "1.IH"(1) del p n(3) by (subst (1 2) line_ops_loop.simps) (simp add: first_opt_def)
  next
    case ins
    note n = walk_ok_next [OF "1.prems"(2) [unfolded ins(1)]]
    note p = push_inserted_walk [OF n(2)]
    have "walk_ok deleted old_row (old_walked (push_inserted ops))" "walk_ok ns (new_row + 1) (new_walked (push_inserted ops))" using n p "1.prems"(1) by simp_all
    then show ?thesis using "1.IH"(2) ins p n(3) by (subst (1 2) line_ops_loop.simps) (simp add: first_opt_def)
  next
    case keep
    have "walk_ok deleted (old_row + ?k) (old_walked ops + unat ?k)" "walk_ok inserted (new_row + ?k) (new_walked ops + unat ?k)"
      by (rule walk_ok_keep, use "1.prems" keep kept_lines_le in \<open>auto simp: first_opt_def\<close>)+
    then show ?thesis using "1.IH"(3) keep by (subst (1 2) line_ops_loop.simps) (simp add: Let_def walk_append)
  qed
qed

section \<open>The common end\<close>

fun agreeing :: "rstr \<Rightarrow> rstr \<Rightarrow> rstr" where
  "agreeing (x # xs) (y # ys) = (if x = y then x # agreeing xs ys else [])"
| "agreeing _ _ = []"

lemma agreeing_prefix: "\<exists>xs' ys'. xs = agreeing xs ys @ xs' \<and> ys = agreeing xs ys @ ys'"
  by (induction xs ys rule: agreeing.induct) auto

lemma trim_loop_ok:
  assumes "forward_left ch y"
  shows "\<exists>ts. (\<forall>acc. chunks_collect ch acc = Some (acc @ ts)) \<and> concat ts = y
    \<and> (\<forall>old new len. trim_loop ch old new len = Some (len + str_len (agreeing new (old @ concat (map rev ts)))))"
  using assms
proof (induction rule: fwd.reader_induct)
  case (finished ch)
  have "trim_loop ch old new len = Some (len + str_len (agreeing new old))" for old new len
  proof (induction new arbitrary: old len)
    case (Cons x new)
    then show ?case using finished by (cases old) (auto simp: trim_loop.simps [of ch])
  qed (simp add: trim_loop.simps)
  then show ?case using finished by (intro exI [of _ "[]"]) (simp add: chunks_collect.simps)
next
  case (piece ch t y' ch')
  obtain ts where ts: "\<forall>acc. chunks_collect ch' acc = Some (acc @ ts)" "concat ts = y'"
    "\<forall>old new len. trim_loop ch' old new len = Some (len + str_len (agreeing new (old @ concat (map rev ts))))" using piece.IH by blast
  have "trim_loop ch old new len = Some (len + str_len (agreeing new (old @ concat (map rev (t # ts)))))" for old new len
  proof (induction new arbitrary: old len)
    case (Cons x new)
    then show ?case using piece.hyps ts(3) by (cases old) (auto simp: trim_loop.simps [of ch])
  qed (simp add: trim_loop.simps)
  then show ?case using piece.hyps ts by (intro exI [of _ "t # ts"]) (simp add: chunks_collect.simps [of ch])
qed

text \<open>A range that the iterator delivers in one piece.\<close>

definition in_one_piece :: "rope \<Rightarrow> nat \<Rightarrow> nat \<Rightarrow> bool" where
  "in_one_piece r a b \<longleftrightarrow> (case rope_chunks_in_range r a b of None \<Rightarrow> False
     | Some ch \<Rightarrow> (case chunks_collect ch [] of None \<Rightarrow> False | Some ts \<Rightarrow> length ts \<le> 1))"

lemma str_len_rev: "str_len (rev s) = str_len s"
  by (induction s) (simp_all add: add.commute)

section \<open>The extents\<close>

text \<open>
  The state of the differ against the two texts: \<open>c\<close> is the old text up to \<open>old_end\<close>, \<open>d\<close> the buffered deletion
  behind it, \<open>n\<close> the new text up to \<open>new_end\<close> and \<open>b\<close> the buffered insertion. Rows on record lie within these texts.
\<close>

definition extents :: "rope \<Rightarrow> line_diff \<Rightarrow> rstr \<Rightarrow> rstr \<Rightarrow> rstr \<Rightarrow> rstr \<Rightarrow> bool" where
  "extents r ld c d n b \<longleftrightarrow> rope_ok r \<and> node_height r < STACK_CAPACITY \<and> (\<exists>rest. rope_str r = c @ d @ rest)
     \<and> ld_old_end ld = position c \<and> ld_buffered_delete ld = str_len d \<and> ld_new_end ld = position n \<and> ld_buffered_insert ld = b
     \<and> (\<forall>x \<in> ld_deleted_rows ld. unat x \<le> rows c) \<and> (\<forall>x \<in> ld_inserted_rows ld. unat x \<le> rows n)"

lemma is_line_end_total:
  assumes "rope_ok r" "rope_str r = c @ q"
  shows "\<exists>at_end. is_line_end g (position c) r = Some at_end"
  using line_len_ok [OF assms(1), of "rows c" g] assms(2) rows_append [of c q] by (simp add: is_line_end_def position_def)

lemma row_bounds:
  assumes "str_len s < 2 ^ 32"
  shows "x \<in> {a..pt_row (position s)} \<Longrightarrow> unat x \<le> rows s" "x \<in> {a..<pt_row (position s)} \<Longrightarrow> unat x \<le> rows s"
    "unat (pt_row (position s)) = rows s"
  using unat_rows(1) [OF assms] by (auto simp: word_le_nat_alt word_less_nat_alt)

lemma flush_insert_ok:
  assumes "extents r ld c d n b" "str_len (n @ b) < 2 ^ 32"
  shows "\<exists>ld'. flush_insert g ld r = Some ld' \<and> extents r ld' c d (n @ b) []"
proof (cases "b = []")
  case True
  then show ?thesis using assms(1) by (auto simp: flush_insert_def extents_def)
next
  case False
  have e: "rope_ok r" "ld_old_end ld = position c" "ld_new_end ld = position n" "ld_buffered_insert ld = b" using assms(1) by (auto simp: extents_def)
  obtain rest where rest: "rope_str r = c @ d @ rest" using assms(1) by (auto simp: extents_def)
  have c: "str_len c < 2 ^ 32" using rope_fits_text [OF e(1)] rest by simp
  obtain at_end where at: "is_line_end g (position c) r = Some at_end" using is_line_end_total [OF e(1) rest] by blast
  have "length b < 2 ^ 32" using length_le_str_len [of b] assms(2) by simp
  then have new: "point_add (position n) (ts_lines (text_summary_from b)) = position (n @ b)"
    using assms(2) by (simp add: text_summary_from_spec summary_positions position_add)
  have mono: "unat x \<le> rows (n @ b)" if "unat x \<le> rows n" for x :: u32 using that rows_append [of n b] by simp
  note rb = row_bounds [OF assms(2)] row_bounds(3) [OF c]
  show ?thesis using False e at new assms(1) mono rb
    by (cases "is_line_start (position c)") (auto simp: flush_insert_def extents_def Let_def)
qed

lemma flush_delete_ok:
  assumes "extents r ld c d n b" "str_len n < 2 ^ 32"
  shows "\<exists>ld'. flush_delete g ld r = Some ld' \<and> extents r ld' (c @ d) [] n b"
proof (cases "d = []")
  case True
  then show ?thesis using assms(1) by (auto simp: flush_delete_def extents_def)
next
  case False
  have e: "rope_ok r" "ld_old_end ld = position c" "ld_new_end ld = position n" "ld_buffered_delete ld = str_len d" using assms(1) by (auto simp: extents_def)
  obtain rest where rest: "rope_str r = c @ d @ rest" using assms(1) by (auto simp: extents_def)
  then have rest': "rope_str r = (c @ d) @ rest" by simp
  have c: "str_len (c @ d) < 2 ^ 32" using rope_fits_text [OF e(1)] rest by simp
  obtain at_start at_end where at: "is_line_end g (position c) r = Some at_start" "is_line_end g (position (c @ d)) r = Some at_end"
    using is_line_end_total [OF e(1) rest] is_line_end_total [OF e(1) rest'] by blast
  have old: "rope_offset_to_point r (rope_point_to_offset r (position c) + str_len d) = position (c @ d)"
    using rope_from_point(1) [OF e(1) rest] rope_from_offset(2) [OF e(1) rest'] by simp
  have mono: "unat x \<le> rows (c @ d)" if "unat x \<le> rows c" for x :: u32 using that rows_append [of c d] by simp
  note rb = row_bounds [OF c] row_bounds(3) [OF assms(2)]
  show ?thesis using False e at old rest' assms(1) mono rb str_len_pos [of d]
    by (cases at_start) (auto simp: flush_delete_def extents_def Let_def)
qed

lemma keep_bytes_ok:
  assumes "extents r ld c [] n []" "rope_str r = c @ t @ rest" "str_len (n @ t) < 2 ^ 32"
  shows "extents r (keep_bytes ld (str_len t) r) (c @ t) [] (n @ t) []"
proof (cases "t = []")
  case False
  have e: "rope_ok r" "ld_old_end ld = position c" "ld_new_end ld = position n" using assms(1) by (auto simp: extents_def)
  have r': "rope_str r = (c @ t) @ rest" using assms(2) by simp
  have c: "str_len (c @ t) < 2 ^ 32" using rope_fits_text [OF e(1)] assms(2) by simp
  have "point_sub (rope_offset_to_point r (rope_point_to_offset r (position c) + str_len t)) (position c) = position t"
    using rope_from_point(1) [OF e(1) assms(2)] rope_from_offset(2) [OF e(1) r'] position_sub(1) [OF c] by simp
  moreover have "point_add (position c) (position t) = position (c @ t)" "point_add (position n) (position t) = position (n @ t)"
    using c by (simp_all add: position_add)
  moreover have "unat x \<le> rows c \<Longrightarrow> unat x \<le> rows (c @ t)" "unat x \<le> rows n \<Longrightarrow> unat x \<le> rows (n @ t)" for x :: u32 by (simp_all add: rows_append)
  ultimately show ?thesis using False assms(1) e r' str_len_pos [of t] by (auto simp: keep_bytes_def extents_def Let_def)
qed (use assms in \<open>simp add: keep_bytes_def\<close>)

lemma trim_buffered_end_ok:
  assumes "extents r ld c d n b" "b = [] \<or> in_one_piece r (str_len c) (str_len (c @ d))"
  obtains d' b' s ld' where "d = d' @ s" "b = b' @ s" "trim_buffered_end ld r = Some (str_len s, ld')" "extents r ld' c d' n b'"
proof -
  have e: "rope_ok r" "node_height r < STACK_CAPACITY" "ld_old_end ld = position c" "ld_buffered_delete ld = str_len d" "ld_buffered_insert ld = b"
    using assms(1) by (auto simp: extents_def)
  obtain rest where rest: "rope_str r = c @ d @ rest" using assms(1) by (auto simp: extents_def)
  obtain ch where ch: "chunks_new r (str_len c) (str_len (c @ d)) False = Some ch" "forward_left ch d"
    using chunks_new_forward [OF e(1,2) rest] by (auto dest: forward_leftI)
  obtain ts where ts: "\<forall>acc. chunks_collect ch acc = Some (acc @ ts)" "concat ts = d"
    "\<forall>old new len. trim_loop ch old new len = Some (len + str_len (agreeing new (old @ concat (map rev ts))))"
    using trim_loop_ok [OF ch(2)] by blast
  define s where "s = rev (agreeing (rev b) (concat (map rev ts)))"
  have "\<exists>d' b'. d = d' @ s \<and> b = b' @ s"
  proof (cases "b = []")
    case False
    then have "length ts \<le> 1" using assms(2) ch(1) ts(1) by (auto simp: in_one_piece_def rope_chunks_in_range_def)
    then have "concat (map rev ts) = rev d" using ts(2) by (cases ts) auto
    then have "\<exists>xs' ys'. rev b = rev s @ xs' \<and> rev d = rev s @ ys'" using agreeing_prefix [of "rev b" "rev d"] by (simp add: s_def)
    then show ?thesis by (metis rev_append rev_rev_ident)
  qed (simp add: s_def)
  then obtain d' b' where db: "d = d' @ s" "b = b' @ s" by blast
  have "trim_loop ch [] (rev b) 0 = Some (str_len s)" using ts(3) by (simp add: s_def str_len_rev)
  moreover have "str_split_at b (str_len b') = Some (b', s)" using db(2) by simp
  moreover have "rope_point_to_offset r (position c) = str_len c" using rope_from_point(1) [OF e(1) rest] .
  ultimately have "trim_buffered_end ld r = Some (str_len s, ld\<lparr>ld_buffered_delete := str_len d', ld_buffered_insert := b'\<rparr>)"
    using ch(1) e db by (simp add: trim_buffered_end_def rope_chunks_in_range_def)
  moreover have "extents r (ld\<lparr>ld_buffered_delete := str_len d', ld_buffered_insert := b'\<rparr>) c d' n b'" using assms(1) db(1) by (auto simp: extents_def)
  ultimately show thesis using that db by blast
qed

lemma extents_buffer_insert: "extents r ld c d n b \<Longrightarrow> extents r (buffer_insert ld s) c d n (b @ s)"
  by (simp add: extents_def buffer_insert_def)

lemma insert_ok:
  assumes "extents r ld c d n b" "str_len (n @ b @ t) < 2 ^ 32"
  shows "\<exists>ld' n' b'. push_char_operation g ld (InsertText t) r = Some ld' \<and> extents r ld' (c @ d) [] n' b' \<and> n' @ b' = n @ b @ t"
proof -
  obtain ld1 where 1: "flush_delete g ld r = Some ld1" "extents r ld1 (c @ d) [] n b" using flush_delete_ok [OF assms(1), of g] assms(2) by auto
  have flush: "\<exists>ld2. flush_insert g (buffer_insert ld1 u) r = Some ld2 \<and> extents r ld2 (c @ d) [] (n @ b @ u) []" if "t = u @ v" for u v
    using flush_insert_ok [OF extents_buffer_insert [OF 1(2)], of u g] assms(2) that by simp
  have keep: "extents r (buffer_insert ld1 t) (c @ d) [] n (b @ t)" by (rule extents_buffer_insert [OF 1(2)])
  consider (line) u l where "is_line_start (ld_old_end ld1)" "t = u @ newline # l" "newline \<notin> set l"
    | (none) "is_line_start (ld_old_end ld1)" "newline \<notin> set t" | (inside) "\<not> is_line_start (ld_old_end ld1)"
    using split_list_last by fastforce
  then show ?thesis
  proof cases
    case line
    have "str_split_at t (str_len u + 1) = Some (u @ [newline], l)" using split_at_prefix [of "u @ [newline]" l] line(2) by simp
    moreover obtain ld2 where "flush_insert g (buffer_insert ld1 (u @ [newline])) r = Some ld2" "extents r ld2 (c @ d) [] (n @ b @ u @ [newline]) []"
      using flush [of "u @ [newline]" l] line(2) by auto
    ultimately show ?thesis using 1(1) line rfind_newline [OF line(3), of u] extents_buffer_insert [of r ld2 "c @ d" "[]" "n @ b @ u @ [newline]" "[]" l]
      by (intro exI [of _ "buffer_insert ld2 l"] exI [of _ "n @ b @ u @ [newline]"] exI [of _ l]) (simp add: push_char_operation_def)
  next
    case none
    then show ?thesis using 1(1) keep rfind_no_newline [of t] by (auto simp: push_char_operation_def)
  next
    case inside
    then show ?thesis using 1(1) keep flush [of t "[]"] by (auto simp: push_char_operation_def Let_def)
  qed
qed

lemma delete_ok:
  assumes "extents r ld c d n b" "rope_str r = c @ d @ t @ rest" "b = [] \<or> in_one_piece r (str_len c) (str_len (c @ d @ t))" "str_len (n @ b) < 2 ^ 32"
  shows "\<exists>ld' c' d' n'. push_char_operation g ld (DeleteBytes (str_len t)) r = Some ld' \<and> extents r ld' c' d' n' [] \<and> c' @ d' = c @ d @ t \<and> n' = n @ b"
proof -
  let ?ld = "ld\<lparr>ld_buffered_delete := ld_buffered_delete ld + str_len t\<rparr>"
  have e: "extents r ?ld c (d @ t) n b" using assms(1,2) by (auto simp: extents_def)
  obtain d' b' s ld1 where 1: "d @ t = d' @ s" "b = b' @ s" "trim_buffered_end ?ld r = Some (str_len s, ld1)" "extents r ld1 c d' n b'"
    by (rule trim_buffered_end_ok [OF e]) (use assms(3) in auto)
  obtain ld2 where 2: "flush_insert g ld1 r = Some ld2" "extents r ld2 c d' (n @ b') []" using flush_insert_ok [OF 1(4), of g] assms(4) 1(2) by auto
  have ok: "rope_ok r" "ld_old_end ld2 = position c" using 2(2) by (auto simp: extents_def)
  obtain at_end where at: "is_line_end g (position c) r = Some at_end" using is_line_end_total [OF ok(1) assms(2)] by blast
  obtain ld3 where 3: "flush_delete g ld2 r = Some ld3" "extents r ld3 (c @ d') [] (n @ b') []" using flush_delete_ok [OF 2(2), of g] assms(4) 1(2) by auto
  have "rope_str r = (c @ d') @ s @ rest" using assms(2) 1(1) by (metis append.assoc)
  from keep_bytes_ok [OF 3(2) this] have 4: "extents r (keep_bytes ld3 (str_len s) r) (c @ d' @ s) [] (n @ b' @ s) []" using assms(4) 1(2) by simp
  show ?thesis
  proof (cases "s = [] \<and> at_end")
    case True
    then have "push_char_operation g ld (DeleteBytes (str_len t)) r = Some ld2" using 1(3) 2(1) at ok(2) by (simp add: push_char_operation_def)
    then show ?thesis using True 1(1,2) 2(2) by auto
  next
    case False
    then have "push_char_operation g ld (DeleteBytes (str_len t)) r = Some (keep_bytes ld3 (str_len s) r)"
      using 1(3) 2(1) 3(1) at ok(2) str_len_pos [of s] by (cases "s = []") (simp_all add: push_char_operation_def)
    then show ?thesis using 1(1,2) 4
      by (intro exI [of _ "keep_bytes ld3 (str_len s) r"] exI [of _ "c @ d' @ s"] exI [of _ "[]"] exI [of _ "n @ b"]) simp
  qed
qed

lemma keep_ok:
  assumes "extents r ld c d n b" "rope_str r = c @ d @ t @ rest" "str_len (n @ b @ t) < 2 ^ 32"
  shows "\<exists>ld'. push_char_operation g ld (KeepBytes (str_len t)) r = Some ld' \<and> extents r ld' (c @ d @ t) [] (n @ b @ t) []"
proof -
  obtain ld1 where 1: "flush_delete g ld r = Some ld1" "extents r ld1 (c @ d) [] n b" using flush_delete_ok [OF assms(1), of g] assms(3) by auto
  obtain ld2 where 2: "flush_insert g ld1 r = Some ld2" "extents r ld2 (c @ d) [] (n @ b) []" using flush_insert_ok [OF 1(2), of g] assms(3) by auto
  from keep_bytes_ok [OF 2(2), of t rest] show ?thesis using 1(1) 2(1) assms(2,3) by (auto simp: push_char_operation_def)
qed

text \<open>
  The deletions that directly follow an insertion and so are compared with it must come in one piece; \<open>at\<close> is the
  offset reached in the old text.
\<close>

fun trims_in_pieces :: "rope \<Rightarrow> bool \<Rightarrow> nat \<Rightarrow> char_operation list \<Rightarrow> bool" where
  "trims_in_pieces r after_insert at [] \<longleftrightarrow> True"
| "trims_in_pieces r after_insert at (InsertText t # ops) \<longleftrightarrow> trims_in_pieces r True at ops"
| "trims_in_pieces r after_insert at (DeleteBytes n # ops) \<longleftrightarrow> (after_insert \<longrightarrow> in_one_piece r at (at + n)) \<and> trims_in_pieces r False (at + n) ops"
| "trims_in_pieces r after_insert at (KeepBytes n # ops) \<longleftrightarrow> trims_in_pieces r False (at + n) ops"

lemma split_bytes_Some: "split_bytes n s = Some (a, q) \<Longrightarrow> s = a @ q \<and> str_len a = n"
proof (induction s arbitrary: n a)
  case (Cons x s)
  then show ?case by (subst (asm) (2) split_bytes.simps) (fastforce split: if_splits)
qed (simp add: split_bytes.simps split: if_splits)

lemma operations_ok:
  assumes "extents r ld c d n b" "rope_str r = c @ d @ old" "apply_ops ops old = Some (out, rest)" "str_len (n @ b @ out) < 2 ^ 32"
    and "trims_in_pieces r after (str_len (c @ d)) ops" "b \<noteq> [] \<longrightarrow> d = [] \<and> after"
  shows "\<exists>ld' c' d' n' b'. push_char_operations g ld ops r = Some ld' \<and> extents r ld' c' d' n' b' \<and> rope_str r = c' @ d' @ rest \<and> n' @ b' = n @ b @ out"
  using assms
proof (induction ops arbitrary: ld c d n b old out after)
  case (Cons op ops)
  show ?case
  proof (cases op)
    case (InsertText t)
    obtain o' where o': "apply_ops ops old = Some (o', rest)" "out = t @ o'" using Cons.prems(3) InsertText by auto
    obtain ld' n' b' where s: "push_char_operation g ld op r = Some ld'" "extents r ld' (c @ d) [] n' b'" "n' @ b' = n @ b @ t"
      using insert_ok [OF Cons.prems(1), of t g] Cons.prems(4) o'(2) InsertText by auto
    have eq: "n' @ b' @ o' = n @ b @ out" using s(3) o'(2) by (metis append.assoc)
    show ?thesis using Cons.IH [OF s(2) _ o'(1), of True] Cons.prems(2,4,5) eq s(1) InsertText by auto
  next
    case (DeleteBytes m)
    obtain t old' where t: "split_bytes m old = Some (t, old')" "apply_ops ops old' = Some (out, rest)" using Cons.prems(3) DeleteBytes by (auto simp: bind_eq_Some_conv)
    have o: "old = t @ old'" "str_len t = m" using split_bytes_Some [OF t(1)] by auto
    have "b = [] \<or> in_one_piece r (str_len c) (str_len (c @ d @ t))" using Cons.prems(5,6) DeleteBytes o(2) by auto
    then obtain ld' c' d' where s: "push_char_operation g ld op r = Some ld'" "extents r ld' c' d' (n @ b) []" "c' @ d' = c @ d @ t"
      using delete_ok [OF Cons.prems(1), of t old' g] Cons.prems(2,4) o DeleteBytes by auto
    have r: "rope_str r = c' @ d' @ old'" "str_len (c' @ d') = str_len (c @ d) + m" using Cons.prems(2) o s(3) by (metis append.assoc, simp)
    show ?thesis using Cons.IH [OF s(2) r(1) t(2), of False] Cons.prems(4,5) r(2) s(1) DeleteBytes by auto
  next
    case (KeepBytes m)
    obtain t old' o' where t: "split_bytes m old = Some (t, old')" "apply_ops ops old' = Some (o', rest)" "out = t @ o'"
      using Cons.prems(3) KeepBytes by (auto simp: bind_eq_Some_conv)
    have o: "old = t @ old'" "str_len t = m" using split_bytes_Some [OF t(1)] by auto
    obtain ld' where s: "push_char_operation g ld op r = Some ld'" "extents r ld' (c @ d @ t) [] (n @ b @ t) []"
      using keep_ok [OF Cons.prems(1), of t old' g] Cons.prems(2,4) o t(3) KeepBytes by auto
    show ?thesis using Cons.IH [OF s(2) _ t(2), of False] Cons.prems(2,4,5) o t(3) s(1) KeepBytes by (auto simp: add.assoc)
  qed
qed auto

lemma extents_default: "rope_ok r \<Longrightarrow> node_height r < STACK_CAPACITY \<Longrightarrow> extents r line_diff_default [] [] [] []"
  by (simp add: extents_def line_diff_default_def)

lemma ld_finish_ok:
  assumes "extents r ld c d n b" "rope_str r = c @ d @ rest" "str_len (n @ b @ rest) < 2 ^ 32"
  shows "\<exists>ld'. ld_finish g ld r = Some ld' \<and> extents r ld' (rope_str r) [] (n @ b @ rest) []"
proof -
  obtain ld1 where 1: "flush_insert g ld r = Some ld1" "extents r ld1 c d (n @ b) []" using flush_insert_ok [OF assms(1), of g] assms(3) by auto
  obtain ld2 where 2: "flush_delete g ld1 r = Some ld2" "extents r ld2 (c @ d) [] (n @ b) []" using flush_delete_ok [OF 1(2), of g] assms(3) by auto
  have e: "rope_ok r" "ld_old_end ld2 = position (c @ d)" "ld_new_end ld2 = position (n @ b)" using 2(2) by (auto simp: extents_def)
  have m: "max_point r = position (rope_str r)" using e(1) by (simp add: rope_lengths)
  have l: "str_len ((c @ d) @ rest) < 2 ^ 32" using rope_fits_text [OF e(1)] assms(2) by simp
  have "point_add (position (n @ b)) (point_sub (position (rope_str r)) (position (c @ d))) = position (n @ b @ rest)"
    using position_sub(1) [OF l] assms(2) position_add(1) [of rest "n @ b"] l by simp
  moreover have "unat x \<le> rows (c @ d) \<Longrightarrow> unat x \<le> rows (rope_str r)" "unat x \<le> rows (n @ b) \<Longrightarrow> unat x \<le> rows (n @ b @ rest)" for x :: u32
    using assms(2) rows_append [of "c @ d" rest] rows_append [of "n @ b" rest] by simp_all
  ultimately show ?thesis using 1(1) 2 e m by (auto simp: ld_finish_def extents_def Let_def)
qed

section \<open>Properties\<close>

text \<open>
  C17: feeding the operations of a diff to the line differ and finishing. When every deletion directly behind an
  insertion lies within one chunk of the old text, nothing panics, the extents end up at the ends of the old and of the
  new text, where the old text that the operations leave over counts as kept, nothing stays buffered, and the rows on
  record are rows of the two texts.
\<close>

theorem line_diff_extents:
  assumes "rope_ok r" "node_height r < STACK_CAPACITY" "apply_ops ops (rope_str r) = Some (out, rest)" "str_len (out @ rest) < 2 ^ 32"
    and "trims_in_pieces r False 0 ops"
  shows "\<exists>ld ld'. push_char_operations g line_diff_default ops r = Some ld \<and> ld_finish g ld r = Some ld'
    \<and> ld_old_end ld' = position (rope_str r) \<and> ld_new_end ld' = position (out @ rest) \<and> ld_buffered_insert ld' = [] \<and> ld_buffered_delete ld' = 0
    \<and> (\<forall>x \<in> ld_deleted_rows ld'. unat x \<le> rows (rope_str r)) \<and> (\<forall>x \<in> ld_inserted_rows ld'. unat x \<le> rows (out @ rest))"
proof -
  obtain ld c d n b where 1: "push_char_operations g line_diff_default ops r = Some ld" "extents r ld c d n b" "rope_str r = c @ d @ rest" "n @ b = out"
    using operations_ok [OF extents_default [OF assms(1,2)] _ assms(3), of False g] assms(4,5) by auto
  then have "n @ b @ rest = out @ rest" by (metis append.assoc)
  then show ?thesis using 1 ld_finish_ok [OF 1(2,3), of g] assms(4) by (auto simp: extents_def)
qed

theorem line_diff_extents_witness:
  "\<exists>r ld ld'. push_chunk sequential_packages rope_new (slice_of [97, newline, 98]) = Some r
    \<and> push_char_operations (\<lambda>_ _. True) line_diff_default [KeepBytes 2, InsertText [99, newline]] r = Some ld
    \<and> ld_finish (\<lambda>_ _. True) ld r = Some ld' \<and> ld_new_end ld' = Point 2 1"
proof -
  have v: "valid_str [97, newline, 98]" "str_len [97, newline, 98] = 3" by (simp_all add: newline_def len_utf8_def)
  obtain r where r: "push_chunk sequential_packages rope_new (slice_of [97, newline, 98]) = Some r" "rope_ok r" "rope_str r = [97, newline, 98]" "node_height r \<le> 1"
    by (rule small_rope [of "[97, newline, 98]"]) (use v in auto)
  have h: "node_height r < STACK_CAPACITY" using r(4) by (simp add: STACK_CAPACITY_def)
  have "split_bytes 2 [97, newline, 98] = Some ([97, newline], [98])" by (simp add: split_bytes.simps len_utf8_def newline_def)
  then have a: "apply_ops [KeepBytes 2, InsertText [99, newline]] (rope_str r) = Some ([97, newline, 99, newline], [98])" using r(3) by simp
  have p: "position [97, newline, 99, newline, 98] = Point 2 1" "str_len [97, newline, 99, newline, 98] < 2 ^ 32"
    by (simp_all add: position_def rows_def last_line_def newline_def len_utf8_def)
  show ?thesis using line_diff_extents [OF r(2) h a _ _, of "\<lambda>_ _. True"] p r(1) by auto
qed

text \<open>
  C18: the operations on lines delete and insert exactly the rows on record. Walking through them from the first row of
  both texts, the rows of the old text that they delete are those in \<open>deleted_rows\<close>, and the rows of the new text that
  they insert are those in \<open>inserted_rows\<close>, whatever these sets are; the walk always ends.
\<close>

theorem line_operations_cover:
  assumes "- 1 \<notin> ld_deleted_rows ld \<union> ld_inserted_rows ld"
  shows "deletes_rows 0 (line_operations ld) = unat ` ld_deleted_rows ld \<and> inserts_rows 0 (line_operations ld) = unat ` ld_inserted_rows ld"
proof -
  have "walk_ok (sorted_list_of_set (ld_deleted_rows ld)) 0 (old_walked [])" "walk_ok (sorted_list_of_set (ld_inserted_rows ld)) 0 (new_walked [])"
    using assms by (simp_all add: walk_ok_def)
  note c = line_ops_loop_covers [OF this, of "pt_row (ld_old_end ld)" "pt_row (ld_new_end ld)"]
  obtain ops old_row where l: "line_ops_loop (pt_row (ld_old_end ld)) (pt_row (ld_new_end ld)) (sorted_list_of_set (ld_deleted_rows ld))
    (sorted_list_of_set (ld_inserted_rows ld)) 0 0 [] = (ops, old_row)" by fastforce
  then show ?thesis using c by (simp add: line_operations_def walk_append)
qed

theorem line_operations_cover_witness:
  "deletes_rows 0 (line_operations (line_diff_default\<lparr>ld_deleted_rows := {1}, ld_inserted_rows := {1, 2}, ld_old_end := Point 2 0, ld_new_end := Point 3 0\<rparr>)) = {1}"
  using line_operations_cover [of "line_diff_default\<lparr>ld_deleted_rows := {1}, ld_inserted_rows := {1, 2}, ld_old_end := Point 2 0, ld_new_end := Point 3 0\<rparr>"]
  by (simp add: line_diff_default_def)

text \<open>
  The rows on record can disagree with the texts. Deleting the newline of \<open>"\n"\<close> and inserting \<open>"a"\<close> records the
  second row as deleted and the only row of the new text as inserted, so the first, empty row counts as kept: the
  operations on lines keep a row although the new text \<open>"a"\<close> has no other row than the inserted one.
\<close>

theorem line_diff_keeps_lost_row:
  "\<exists>r ld ld'. push_chunk sequential_packages rope_new (slice_of [newline]) = Some r
    \<and> apply_ops [DeleteBytes 1, InsertText [97]] (rope_str r) = Some ([97], [])
    \<and> push_char_operations (\<lambda>_ _. True) line_diff_default [DeleteBytes 1, InsertText [97]] r = Some ld \<and> ld_finish (\<lambda>_ _. True) ld r = Some ld'
    \<and> line_operations ld' = [InsertLines 1, KeepLines 1, DeleteLines 1]"
proof -
  let ?g = "\<lambda>_ _. True"
  have v: "valid_str [newline]" "str_len [newline] = 1" by (simp_all add: newline_def len_utf8_def)
  obtain r where r: "push_chunk sequential_packages rope_new (slice_of [newline]) = Some r" "rope_ok r" "rope_str r = [newline]" "node_height r \<le> 1"
    by (rule small_rope [of "[newline]"]) (use v in auto)
  have h: "node_height r < STACK_CAPACITY" using r(4) by (simp add: STACK_CAPACITY_def)
  have pos: "position [newline] = Point 1 0" "point_zero = Point 0 0" "position [97] = Point 0 1"
    by (simp_all add: position_def rows_def last_line_def newline_def len_utf8_def point_zero_def)
  have ends: "is_line_end ?g (Point 0 0) r = Some True" "is_line_end ?g (Point 1 0) r = Some True"
    using line_len_ok [OF r(2), of 0 ?g] line_len_ok [OF r(2), of 1 ?g] r(3) by (simp_all add: is_line_end_def rows_def)
  have pts: "rope_point_to_offset r (Point 0 0) = 0" "rope_offset_to_point r 1 = Point 1 0"
    using rope_from_point(1) [OF r(2), of "[]" "[newline]"] rope_from_offset(2) [OF r(2), of "[newline]" "[]"] r(3) pos v by simp_all
  obtain ch where ch: "rope_chunks_in_range r 0 1 = Some ch"
    using chunks_new_forward [OF r(2) h, of "[]" "[newline]" "[]"] r(3) v by (auto simp: rope_chunks_in_range_def)
  have sum: "ts_lines (text_summary_from [97]) = Point 0 1" using pos by (simp add: text_summary_from_spec summary_positions)
  let ?ld = "line_diff_default\<lparr>ld_old_end := Point 1 0, ld_deleted_rows := {1}, ld_buffered_insert := [97]\<rparr>"
  have del: "push_char_operation ?g line_diff_default (DeleteBytes 1) r = Some (line_diff_default\<lparr>ld_buffered_delete := 1\<rparr>)"
    using ch ends pts pos by (simp add: push_char_operation_def trim_buffered_end_def line_diff_default_def trim_loop.simps flush_insert_def)
  have "flush_delete ?g (line_diff_default\<lparr>ld_buffered_delete := 1\<rparr>) r = Some (line_diff_default\<lparr>ld_old_end := Point 1 0, ld_deleted_rows := {1}\<rparr>)"
    using ends pts by (simp add: flush_delete_def line_diff_default_def point_zero_def Let_def)
  then have ins: "push_char_operation ?g (line_diff_default\<lparr>ld_buffered_delete := 1\<rparr>) (InsertText [97]) r = Some ?ld"
    by (simp add: push_char_operation_def line_diff_default_def is_line_start_def newline_def buffer_insert_def)
  let ?ld' = "line_diff_default\<lparr>ld_old_end := Point 1 0, ld_new_end := Point 0 1, ld_deleted_rows := {1}, ld_inserted_rows := {0}\<rparr>"
  have fin: "ld_finish ?g ?ld r = Some ?ld'"
    using sum pos(1) rope_lengths(2) [OF r(2)] r(3)
    by (simp add: point_zero_def ld_finish_def flush_insert_def flush_delete_def line_diff_default_def is_line_start_def point_add_def point_sub_def Let_def)
  have "line_operations ?ld' = [InsertLines 1, KeepLines 1, DeleteLines 1]"
    by (simp add: line_operations_def line_diff_default_def line_ops_loop.simps first_opt_def push_inserted_def push_deleted_def last_opt_def kept_lines_def)
  moreover have "apply_ops [DeleteBytes 1, InsertText [97]] (rope_str r) = Some ([97], [])" using r(3) by (simp add: split_bytes.simps newline_def len_utf8_def)
  ultimately show ?thesis using r(1) del ins fin by auto
qed

end
