(* ===== verification/Spec2Isabelle.thy ===== *)
theory Spec2Isabelle
  imports Clock Locator Patch TreeContract UndoMap TextSummary StreamingDiff RopeRead Selection History LineIndent LineDiff
begin

text \<open>
  Verification of the LingCode text engine.

  LingCode is an editor whose buffers are replicated texts. This library models the data
  structures that carry them, from the sources under \<open>src/crates\<close>, and proves what makes
  them correct. The parts and how they depend on each other:

  \<^item> \<open>clock\<close> (theory \<open>Clock\<close>): Lamport timestamps and version vectors. \<open>lamport_tick\<close>,
    \<open>lamport_observe\<close>, \<open>global_observe\<close>, \<open>global_join\<close>, \<open>global_meet\<close> and the comparisons follow
    \<open>clock.rs\<close> function by function, on \<open>u32\<close> sequence numbers and \<open>u16\<close> replica ids. The locale
    \<open>version_vector\<close> is the interface of version vectors; vectors built from the same
    timestamps in any order are equal, the comparisons are the pointwise order, and a clock
    issues increasing timestamps above everything it has observed.
  \<^item> \<open>text::locator\<close> (\<open>Locator\<close>): dense identifiers; \<open>between\<close> terminates and lies strictly
    between its arguments, so sequences of fragments can always be extended.
  \<^item> \<open>text::patch\<close>, \<open>text::subscription\<close> (\<open>Patch\<close>): edits between two versions of a text and
    their composition; the composed patch describes the composed change, positions translate
    as a linear walk would translate them, and subscribers receive one patch from the text
    they last saw.
  \<^item> \<open>sum_tree\<close>: the B+ tree with cached summaries under every other part. \<open>SumTree\<close> has its
    nodes, construction and appending, \<open>Seek\<close> searching and updating of the ends, \<open>Cursor\<close> the
    cursor with its stack and its seeks, \<open>CursorMove\<close> and \<open>CursorBack\<close> moving forward and
    backward, filters and iterators, \<open>Keyed\<close> trees sorted by key and batches of edits,
    \<open>TreeMap\<close> the ordered map and set, \<open>ParTree\<close> the parallel construction, \<open>TreeHeight\<close> that
    slices grow by at most four levels; \<open>TreeContract\<close> states the contract towards clients. The
    traits \<open>Item\<close>, \<open>Summary\<close>, \<open>Dimension\<close>, \<open>KeyedItem\<close> are records of operations, their laws
    the locales \<open>summary_laws\<close>, \<open>dimension_laws\<close>, \<open>keyed_laws\<close>; the three aggregates of a
    seek instantiate \<open>aggregate_laws\<close>. The map (\<open>tm\<close>) and the undo map (\<open>um\<close>) interpret them.
  \<^item> \<open>text::undo_map\<close> (\<open>UndoMap\<close>): how often each edit was undone, over a keyed tree and the
    clocks; the reachable maps are an inductive relation, and counts are maxima over the received
    operations, whatever the order in which they arrived.
  \<^item> \<open>rope\<close>: \<open>Points\<close> has rows and columns (byte and UTF-16) with their packed comparison,
    sharing the locale \<open>text_position\<close>; \<open>TextSummary\<close> the summary of a string and the sum of
    summaries, which is the summary of the concatenation below \<open>2 ^ 32\<close> characters.
  \<^item> \<open>rope::chunk\<close>: the leaves of a rope, a text of at most 128 bytes with 128-bit maps of
    its characters, UTF-16 units, newlines and tabs. \<open>BitSelect\<close> has the branch-free search for
    the n-th set bit, against counting bits one by one; \<open>Chunk\<close> the chunk and its slices,
    whose maps are always those of their text; \<open>ChunkSummary\<close> the text summary read off the
    maps; \<open>ChunkCoords\<close> the conversions between offsets, points and UTF-16 positions, which
    are mutually inverse on character boundaries, clipping, and the iterator over tabs. The
    bounded string of package \<open>heapless\<close> and the segmentation of package
    \<open>unicode-segmentation\<close> are parameters with the laws \<open>push_str_spec\<close> and \<open>grapheme_ends\<close>.
  \<^item> \<open>rope::Rope\<close>: the text as a tree of chunks with text summaries. \<open>Rope\<close> has pushing, appending,
    slicing and replacing: each is the operation on the text (\<open>rope_str\<close>) and keeps the invariant
    \<open>rope_ok\<close>. \<open>RopeCoords\<close> has character boundaries, the conversions between byte offsets,
    UTF-16 offsets and points, clipping and rows. The dimensions of a rope (bytes, UTF-16 units,
    points, summaries) interpret \<open>rope_dimension\<close> and its extensions \<open>seek_dimension\<close> and
    \<open>strict_dimension\<close>, which carry the proofs about finding the chunk at a position.
  \<^item> the iterators of a rope: \<open>RopeIter\<close> has the cursor over the pieces of a range with its positions
    (\<open>reads_forward\<close>, \<open>reads_backward\<close>) and the comparisons built on it; both directions interpret the locale
    \<open>chunk_reader\<close>, which carries the proofs of the clients. \<open>RopeLines\<close> has seeking, the iterator over lines (both
    directions interpret \<open>line_reader\<close>) and the moves by lines, \<open>RopeBytes\<close> the bytes of a range and the bitmaps of pieces, \<open>RopeRead\<close> states what they promise:
    the text, lines and bytes of the range, wherever the chunks are cut; a reversed iterator that has read back to the
    start of the rope cannot be restarted (\<open>reversed_lines_seek_lost\<close>). \<open>LineIndent\<close> has a client of them, the
    indents of rows that a snapshot of a buffer reports.
  \<^item> \<open>streaming_diff\<close> (\<open>StreamingDiff\<close>): the differ that compares an old text with a new one
    arriving in pieces; its operations rebuild the new text, piece by piece. \<open>LineDiff\<close> turns such operations into
    deleted and inserted rows, over the rope of the old text.
  \<^item> \<open>text::History\<close> (\<open>History\<close>): the undo and redo stacks of a buffer, over the tree map and the clocks. The reachable
    histories are an inductive relation with one rule per operation; they keep transactions apart, fail
    only when calls are not balanced, and undo and redo move transactions back and forth. \<open>Selection\<close> has selections.

  Conventions (\<open>Prelude\<close>). A computation that can panic returns an option, \<open>None\<close> being the
  panic; \<open>debug_assert\<close> is not executed, as in the release build, and word arithmetic wraps. A
  \<open>usize\<close> that counts elements in memory is a natural number, whose subtraction either wraps
  (\<open>usize_sub\<close>) or is checked and shown never to fail (\<open>checked_sub\<close>); other
  machine integers are words of their width. \<open>Arc\<close>, \<open>Clone\<close> and \<open>make_mut\<close> are value
  semantics. Loops that follow the structure of their data are recursive functions, loops
  over cursors and levels are partial functions into options, and the theorems about them
  state that they return; there is no fuel. A cursor's stack holds 16 entries, so the theorems
  about cursors ask for trees of height below 16, those about slices of ropes for up to ten levels
  less, because a slice may be higher than its tree; \<open>from_iter\<close> stays below that height up to
  \<open>12 ^ 16\<close> items. Trees built by \<open>from_iter\<close> may have underfull nodes at the right edge, so a
  minimum fill is no invariant of the code, and heights (\<open>u8\<close> in the code) are natural
  numbers. \<open>sort_unstable_by_key\<close> is the stable sort, which only matters for batches with
  equal keys; \<open>tm_extend_duplicate_keys\<close> shows that such a batch breaks the map.
  Rows and columns are 32-bit words, so the theorems about ropes ask for texts below 4 GiB.
  Floating-point operations are a record of parameters, because no theorem depends on them.

  Not modelled: \<open>Debug\<close> and serde implementations, the mutexes of subscriptions, iterator size
  hints, threads: the chunking of \<open>rayon\<close>'s parallel iterators is a parameter with the law
  \<open>chunks_spec\<close>. Of package \<open>text\<close> the replicated buffer itself is left out: its fragments, the application of local and remote edits,
  anchors and the queue of deferred operations, which rest on the trees, locators, clocks, undo map, history and ropes
  modelled here. The editor's models (display map, multi-buffer, syntax map) and the small components beside the text engine
  (fuzzy matching, snippets, paths) are left out too. User interface, language models, servers,
  processes and files are input and output or clients of other packages.
\<close>

end
